(* ===== verification/Antikernel_Prelude.thy ===== *)
theory Antikernel_Prelude
  imports Main "HOL-Library.Word"
begin

unbundle bit_operations_syntax

text \<open>
  The prelude of the development: the machine types of the 32-bit big-endian GRAFTON and
  SARATOGA soft cores (\<open>unsigned int\<close>, \<open>unsigned short\<close>, \<open>unsigned char\<close>), the result type of
  code that may stop (blocked on the network, trapped by the MMU, an index outside a C array,
  a loop that never ends), its sequencing operator and counted loops, a weakest-precondition
  predicate with its rules, and bounds-checked array access.
\<close>

type_synonym u8 = "8 word"
type_synonym u16 = "16 word"
type_synonym u32 = "32 word"

text \<open>The octets of a string literal.\<close>

definition ascii :: "string \<Rightarrow> u8 list" where
  "ascii str = map of_char str"

section \<open>Results of code that may stop\<close>

text \<open>
  Every way in which a C function of the repository may fail to return:
  \<open>Blocked\<close> waits for a message that never arrives, \<open>MMUFault a\<close> touches address \<open>a\<close> without
  permission, \<open>OutOfBounds\<close> indexes an array outside its bounds (undefined behaviour of C),
  \<open>Hang\<close> is a loop that goes round for ever.
\<close>

datatype halt = Blocked | MMUFault u32 | OutOfBounds | Hang

type_synonym 'a res = "halt + 'a"

definition andthen :: "'a res \<Rightarrow> ('a \<Rightarrow> 'b res) \<Rightarrow> 'b res" where
  "andthen m f = (case m of Inl h \<Rightarrow> Inl h | Inr x \<Rightarrow> f x)"

lemma andthen_simps [simp]:
  "andthen (Inl h) f = Inl h"
  "andthen (Inr x) f = f x"
  by (simp_all add: andthen_def)

lemma andthen_assoc: "andthen (andthen m f) g = andthen m (\<lambda>x. andthen (f x) g)"
  by (simp add: andthen_def split: sum.splits)

lemma andthen_Inr_iff:
  "andthen m f = Inr y \<longleftrightarrow> (\<exists>x. m = Inr x \<and> f x = Inr y)"
  by (auto simp: andthen_def split: sum.splits)

lemma andthen_cong [fundef_cong]:
  "m = m' \<Longrightarrow> (\<And>x. m' = Inr x \<Longrightarrow> f x = f' x) \<Longrightarrow> andthen m f = andthen m' f'"
  by (auto simp: andthen_def split: sum.splits)

text \<open>A counted C loop: the body runs once for each index, threading the state.\<close>

fun foreach :: "'i list \<Rightarrow> ('i \<Rightarrow> 's \<Rightarrow> 's res) \<Rightarrow> 's \<Rightarrow> 's res" where
  "foreach [] f s = Inr s"
| "foreach (i # ks) f s = andthen (f i s) (foreach ks f)"

lemma foreach_append:
  "foreach (ks @ js) f = (\<lambda>s. andthen (foreach ks f s) (foreach js f))"
  by (induction ks) (auto intro!: ext simp: andthen_assoc)

lemma foreach_Inr: "(\<And>i s. i \<in> set ks \<Longrightarrow> f i s = Inr (g i s)) \<Longrightarrow>
  foreach ks f s = Inr (fold g ks s)"
  by (induction ks arbitrary: s) simp_all

section \<open>Weakest preconditions\<close>

text \<open>
  \<open>wp E Q m\<close>: if \<open>m\<close> returns then its value satisfies \<open>Q\<close>, and if it stops then the reason
  satisfies \<open>E\<close>. With \<open>only_blocks\<close> for \<open>E\<close> it is total correctness up to a silent network.
\<close>

definition wp :: "(halt \<Rightarrow> bool) \<Rightarrow> ('a \<Rightarrow> bool) \<Rightarrow> 'a res \<Rightarrow> bool" where
  "wp E Q m = (case m of Inl h \<Rightarrow> E h | Inr x \<Rightarrow> Q x)"

definition only_blocks :: "halt \<Rightarrow> bool" where
  "only_blocks h \<longleftrightarrow> h = Blocked"

definition no_overrun :: "halt \<Rightarrow> bool" where
  "no_overrun h \<longleftrightarrow> h \<noteq> OutOfBounds"

lemma halt_classes [simp]:
  "only_blocks Blocked" "\<not> only_blocks (MMUFault a)" "\<not> only_blocks OutOfBounds" "\<not> only_blocks Hang"
  "no_overrun Blocked" "no_overrun (MMUFault a)" "\<not> no_overrun OutOfBounds" "no_overrun Hang"
  by (simp_all add: only_blocks_def no_overrun_def)

named_theorems vcg \<open>weakest-precondition rules of the operations, one for each\<close>

lemma wp_simps [simp]:
  "wp E Q (Inr x) = Q x"
  "wp E Q (Inl h) = E h"
  "wp E Q (andthen m f) = wp E (\<lambda>x. wp E Q (f x)) m"
  by (simp_all add: wp_def andthen_def split: sum.splits)

lemma wp_mono: "wp E P m \<Longrightarrow> (\<And>x. P x \<Longrightarrow> Q x) \<Longrightarrow> wp E Q m"
  by (simp add: wp_def split: sum.splits)

lemma wp_weaken: "wp E P m \<Longrightarrow> (\<And>h. E h \<Longrightarrow> E' h) \<Longrightarrow> (\<And>x. P x \<Longrightarrow> Q x) \<Longrightarrow> wp E' Q m"
  by (simp add: wp_def split: sum.splits)

lemma wp_Inr: "wp E Q m \<Longrightarrow> m = Inr x \<Longrightarrow> Q x"
  by (simp add: wp_def)

lemma wp_result: "wp E P m \<Longrightarrow> (\<And>x. m = Inr x \<Longrightarrow> P x \<Longrightarrow> Q x) \<Longrightarrow> wp E Q m"
  by (simp add: wp_def split: sum.splits)

lemma wp_Inl: "wp E Q m \<Longrightarrow> m = Inl h \<Longrightarrow> E h"
  by (simp add: wp_def)

lemma wp_if [simp]:
  "wp E Q (if b then m else n) = ((b \<longrightarrow> wp E Q m) \<and> (\<not> b \<longrightarrow> wp E Q n))"
  by simp

text \<open>The loop rule: an invariant over the index list that is still to run.\<close>

lemma wp_foreach:
  assumes "I ks s"
    and "\<And>i js t. I (i # js) t \<Longrightarrow> wp E (I js) (f i t)"
    and "\<And>t. I [] t \<Longrightarrow> Q t"
  shows "wp E Q (foreach ks f s)"
  using assms(1)
proof (induction ks arbitrary: s)
  case Nil
  then show ?case by (simp add: assms(3))
next
  case (Cons i ks)
  from assms(2) [OF Cons.prems] have "wp E (\<lambda>t. wp E Q (foreach ks f t)) (f i s)"
    by (rule wp_mono) (rule Cons.IH)
  then show ?case by simp
qed

lemma wp_foreach_inv:
  assumes "I s" and "\<And>i t. i \<in> set ks \<Longrightarrow> I t \<Longrightarrow> wp E I (f i t)" and "\<And>t. I t \<Longrightarrow> Q t"
  shows "wp E Q (foreach ks f s)"
  using assms(1,2)
proof (induction ks arbitrary: s)
  case Nil
  then show ?case by (simp add: assms(3))
next
  case (Cons i ks)
  have "wp E I (f i s)" using Cons.prems by simp
  then have "wp E (\<lambda>t. wp E Q (foreach ks f t)) (f i s)"
    by (rule wp_mono) (rule Cons.IH, use Cons.prems in auto)
  then show ?case by simp
qed

section \<open>Arrays\<close>

text \<open>Reading and writing a C array; an index outside it is not given a meaning by C.\<close>

definition aget :: "'a list \<Rightarrow> nat \<Rightarrow> 'a res" where
  "aget xs i = (if i < length xs then Inr (xs ! i) else Inl OutOfBounds)"

definition aset :: "'a list \<Rightarrow> nat \<Rightarrow> 'a \<Rightarrow> 'a list res" where
  "aset xs i v = (if i < length xs then Inr (xs[i := v]) else Inl OutOfBounds)"

lemma aget_in [simp]: "i < length xs \<Longrightarrow> aget xs i = Inr (xs ! i)"
  by (simp add: aget_def)

lemma aset_in [simp]: "i < length xs \<Longrightarrow> aset xs i v = Inr (xs[i := v])"
  by (simp add: aset_def)

lemma aset_wp: "i < length xs \<Longrightarrow> Q (xs[i := v]) \<Longrightarrow> wp E Q (aset xs i v)"
  by simp

section \<open>Words\<close>

text \<open>Indices of loops, as the \<open>unsigned int\<close> the code counts with.\<close>

lemma u32_of_nat_unat_id [simp]: "n < 4294967296 \<Longrightarrow> unat (word_of_nat n :: u32) = n"
  by (simp add: unat_of_nat take_bit_nat_eq_self)

lemma u32_less_4: "(x :: u32) < 4 \<Longrightarrow> x = 0 \<or> x = 1 \<or> x = 2 \<or> x = 3"
  by (auto simp: word_less_nat_alt word_unat_eq_iff)

text \<open>Masks with a low run of ones, as \<open>take_bit\<close>.\<close>

lemma and_mask_u32:
  fixes x :: u32
  shows "x AND 1 = take_bit 1 x" "x AND 3 = take_bit 2 x" "x AND 15 = take_bit 4 x"
    "x AND 31 = take_bit 5 x" "x AND 127 = take_bit 7 x" "x AND 255 = take_bit 8 x"
    "x AND 65535 = take_bit 16 x"
  by (simp_all add: take_bit_eq_mask mask_numeral)

text \<open>Bytes widened to words.\<close>

lemma ucast_ucast_u8 [simp]: "(ucast (ucast (x :: u8) :: u32) :: u8) = x"
  by (rule bit_word_eqI) (auto simp: bit_simps)

lemma ucast_u8_eq: "(ucast (x :: u8) :: u32) = ucast y \<longleftrightarrow> x = y"
  by (metis ucast_ucast_u8)

lemma u8_and_up: "(ucast (x :: u8) AND ucast y :: u32) = ucast (x AND y)"
  by (rule bit_word_eqI) (auto simp: bit_simps)

lemma u8_and:
  fixes x :: u8
  shows "(ucast x AND 0x1F :: u32) = ucast (x AND 0x1F)"
    "(ucast x AND 0x80 :: u32) = ucast (x AND 0x80)"
    "(ucast x AND 0x7F :: u32) = ucast (x AND 0x7F)"
  using u8_and_up [of x 31] u8_and_up [of x 128] u8_and_up [of x 127] by simp_all

lemma ucast_u8_const:
  fixes x :: u8
  shows "(ucast x :: u32) = 0 \<longleftrightarrow> x = 0" "(ucast x :: u32) = 0x1F \<longleftrightarrow> x = 0x1F"
    "(ucast x :: u32) = 0x80 \<longleftrightarrow> x = 0x80"
  using ucast_u8_eq [of x 0] ucast_u8_eq [of x 31] ucast_u8_eq [of x 128] by simp_all

lemma u8_top_bit: "x AND 0x80 = 0 \<longleftrightarrow> x < (128 :: u8)"
proof -
  have "x AND 0x80 = 0 \<longleftrightarrow> \<not> bit x 7"
    using and_exp_eq_0_iff_not_bit [of x 7] by simp
  also have "bit x 7 \<longleftrightarrow> bit (unat x) 7"
    by (simp add: bit_unsigned_iff)
  also have "\<not> bit (unat x) 7 \<longleftrightarrow> unat x < 128"
  proof -
    have "unat x < 2 ^ LENGTH(8)" by (rule unsigned_less)
    then have "unat x < 256" by simp
    then have "unat x div 2 ^ 7 = (if unat x < 128 then 0 else 1)"
      by (auto intro: div_nat_eqI)
    then show ?thesis unfolding bit_iff_odd by simp
  qed
  finally show ?thesis by (simp add: word_less_nat_alt)
qed

lemma unat_u32_bound: "unat (x :: u32) < 4294967296"
  using unsigned_less [of x] by simp

lemma unat_u16_bound: "unat (x :: u16) < 65536"
  using unsigned_less [of x] by simp

lemma unat_add_of_nat: "unat (p :: u32) + k < 4294967296 \<Longrightarrow> unat (p + of_nat k) = unat p + k"
  by (simp add: unat_word_ariths unat_of_nat)

lemma of_nat_u32_eq: "m < 4294967296 \<Longrightarrow> n < 4294967296 \<Longrightarrow> (of_nat m :: u32) = of_nat n \<longleftrightarrow> m = n"
  by (metis u32_of_nat_unat_id)

lemma bit_septet:
  "bit (0x80 :: int) n \<longleftrightarrow> n = 7" "bit (0x7F :: int) n \<longleftrightarrow> n < 7"
proof -
  have "bit (2 ^ 7 :: int) n \<longleftrightarrow> n = 7" "bit (mask 7 :: int) n \<longleftrightarrow> n < 7"
    by (auto simp only: bit_exp_iff bit_mask_iff possible_bit_int)
  then show "bit (0x80 :: int) n \<longleftrightarrow> n = 7" "bit (0x7F :: int) n \<longleftrightarrow> n < 7"
    by (simp_all add: mask_numeral)
qed

lemma word_bits_iff: "(x :: 'a :: len word) = y \<longleftrightarrow> (\<forall>n < LENGTH('a). bit x n = bit y n)"
  by (auto intro: bit_word_eqI)

lemma bit_u32: "bit (a :: u32) j \<Longrightarrow> j < 32"
  using bit_imp_le_length [of a j] by simp

lemma unat_pow2_u32: "n < 32 \<Longrightarrow> unat ((2 :: u32) ^ n) = 2 ^ n"
  using u32_of_nat_unat_id [of "2 ^ n"] power_strict_increasing [of n 32 "2 :: nat"] by simp

lemma xor_zero_iff: "a XOR b = 0 \<longleftrightarrow> a = (b :: u32)"
  by (auto simp: word_bits_iff bit_xor_iff)

text \<open>Words made of two halves.\<close>

definition halves :: "u16 \<Rightarrow> u16 \<Rightarrow> u32" where
  "halves h l = push_bit 16 (ucast h) OR ucast l"

lemma bit_outside [simp]:
  "16 \<le> j \<Longrightarrow> \<not> bit (a :: u16) j" "32 \<le> j \<Longrightarrow> \<not> bit (b :: u32) j" "8 \<le> j \<Longrightarrow> \<not> bit (c :: u8) j"
  using bit_imp_le_length [of a j] bit_imp_le_length [of b j] bit_imp_le_length [of c j] by force+

lemma halves_parts [simp]:
  "(ucast (drop_bit 16 (halves h l)) :: u16) = h" "(ucast (halves h l) :: u16) = l"
  "(ucast (halves h l AND 0xffff) :: u16) = l" "(ucast (halves h l AND 0xffff) :: u8) = ucast l"
  "drop_bit 16 (halves h l) = ucast h" "halves h l AND 0xffff = ucast l"
  by (rule bit_word_eqI; auto simp: halves_def and_mask_u32 bit_simps dest: bit_imp_le_length)+

lemma halves_of_word [simp]:
  fixes w :: u32
  shows "ucast (ucast (drop_bit 16 w) :: u16) = drop_bit 16 w" "push_bit 16 (ucast (ucast w :: u16)) = push_bit 16 w"
    "(ucast (ucast h :: u32) :: u16) = h" "(ucast (ucast h :: u32) :: u8) = ucast h"
  by (rule bit_word_eqI; auto simp: bit_simps dest: bit_imp_le_length)+

lemma halves_eq: "halves (ucast (drop_bit 16 (w :: u32))) (ucast w) = w"
  by (rule bit_word_eqI) (auto simp: halves_def bit_simps)

end
