(* ===== verification/Rpc_Queue.thy ===== *)
theory Rpc_Queue
  imports Antikernel_Prelude
begin

text \<open>
  RPC messages (\<open>include/rpc.h\<close>) and the circular queue of pending interrupts of
  \<open>src/c-antikernel/RPCInterruptHelpers.c\<close>. The locale \<open>bounded_fifo\<close> is the contract the
  rest of the library relies on (a FIFO of bounded capacity that drops when it is full); the
  interpretation \<open>irq\<close> discharges it for the ring buffer of the code.
\<close>

section \<open>Messages\<close>

record RPCMessage =
  m_from :: u32
  m_to :: u32
  m_callnum :: u32
  m_type :: u32
  m_d0 :: u32
  m_d1 :: u32
  m_d2 :: u32

text \<open>Message types, from \<open>rtl/achd-soc/noc/rpcv2/RPCv2Router_type.constants\<close>.\<close>

abbreviation (input) RPC_TYPE_CALL :: u32 where "RPC_TYPE_CALL \<equiv> 0"
abbreviation (input) RPC_TYPE_RETURN_SUCCESS :: u32 where "RPC_TYPE_RETURN_SUCCESS \<equiv> 1"
abbreviation (input) RPC_TYPE_RETURN_FAIL :: u32 where "RPC_TYPE_RETURN_FAIL \<equiv> 2"
abbreviation (input) RPC_TYPE_RETURN_RETRY :: u32 where "RPC_TYPE_RETURN_RETRY \<equiv> 3"
abbreviation (input) RPC_TYPE_INTERRUPT :: u32 where "RPC_TYPE_INTERRUPT \<equiv> 4"

section \<open>The circular queue of pending interrupts\<close>

abbreviation (input) INTERRUPT_QUEUE_SIZE :: nat where "INTERRUPT_QUEUE_SIZE \<equiv> 32"

record intq =
  g_pendingInterrupts :: "RPCMessage list"
  g_pendingInterruptCount :: nat
  g_pendingInterruptRdPtr :: nat
  g_pendingInterruptWrPtr :: nat

definition InterruptQueueInit :: "intq \<Rightarrow> intq" where
  "InterruptQueueInit q = q\<lparr>g_pendingInterruptCount := 0,
     g_pendingInterruptRdPtr := 0, g_pendingInterruptWrPtr := 0\<rparr>"

definition PushInterrupt :: "RPCMessage \<Rightarrow> intq \<Rightarrow> intq" where
  "PushInterrupt msg q =
     (if g_pendingInterruptCount q = INTERRUPT_QUEUE_SIZE then q
      else let q = q\<lparr>g_pendingInterrupts :=
                       (g_pendingInterrupts q)[g_pendingInterruptWrPtr q := msg]\<rparr>;
               q = q\<lparr>g_pendingInterruptWrPtr := g_pendingInterruptWrPtr q + 1\<rparr>;
               q = (if g_pendingInterruptWrPtr q = INTERRUPT_QUEUE_SIZE
                    then q\<lparr>g_pendingInterruptWrPtr := 0\<rparr> else q)
           in q\<lparr>g_pendingInterruptCount := g_pendingInterruptCount q + 1\<rparr>)"

text \<open>The branch of \<open>GetRPCInterrupt\<close> that takes a pending interrupt.\<close>

definition PopInterrupt :: "intq \<Rightarrow> RPCMessage \<times> intq" where
  "PopInterrupt q =
     (let msg = g_pendingInterrupts q ! g_pendingInterruptRdPtr q;
          q = q\<lparr>g_pendingInterruptRdPtr := g_pendingInterruptRdPtr q + 1\<rparr>;
          q = (if g_pendingInterruptRdPtr q = INTERRUPT_QUEUE_SIZE
               then q\<lparr>g_pendingInterruptRdPtr := 0\<rparr> else q)
      in (msg, q\<lparr>g_pendingInterruptCount := g_pendingInterruptCount q - 1\<rparr>))"

section \<open>The abstract queue\<close>

text \<open>The messages the ring holds, oldest first.\<close>

definition queued :: "intq \<Rightarrow> RPCMessage list" where
  "queued q = map (\<lambda>i. g_pendingInterrupts q !
       ((g_pendingInterruptRdPtr q + i) mod INTERRUPT_QUEUE_SIZE)) [0..<g_pendingInterruptCount q]"

definition intq_ok :: "intq \<Rightarrow> bool" where
  "intq_ok q \<longleftrightarrow> length (g_pendingInterrupts q) = INTERRUPT_QUEUE_SIZE \<and>
     g_pendingInterruptCount q \<le> INTERRUPT_QUEUE_SIZE \<and>
     g_pendingInterruptRdPtr q < INTERRUPT_QUEUE_SIZE \<and>
     g_pendingInterruptWrPtr q =
       (g_pendingInterruptRdPtr q + g_pendingInterruptCount q) mod INTERRUPT_QUEUE_SIZE"

lemma length_queued [simp]: "length (queued q) = g_pendingInterruptCount q"
  by (simp add: queued_def)

lemma intq_ok_init:
  "length (g_pendingInterrupts q) = INTERRUPT_QUEUE_SIZE \<Longrightarrow> intq_ok (InterruptQueueInit q)"
  by (simp add: intq_ok_def InterruptQueueInit_def)

lemma queued_init: "queued (InterruptQueueInit q) = []"
  by (simp add: queued_def InterruptQueueInit_def)

lemma intq_ok_push: "intq_ok q \<Longrightarrow> intq_ok (PushInterrupt m q)"
  by (auto simp: intq_ok_def PushInterrupt_def Let_def mod_if split: if_splits)

lemma push_full: "length (queued q) = INTERRUPT_QUEUE_SIZE \<Longrightarrow> PushInterrupt m q = q"
  by (simp add: PushInterrupt_def)

lemma ring_index_neq:
  "r < n \<Longrightarrow> c < n \<Longrightarrow> i < c \<Longrightarrow> (r + c) mod n \<noteq> (r + i) mod (n::nat)"
  by (auto simp: mod_if split: if_splits)

lemma queued_push:
  assumes ok: "intq_ok q" and room: "length (queued q) < INTERRUPT_QUEUE_SIZE"
  shows "queued (PushInterrupt m q) = queued q @ [m]"
proof -
  let ?r = "g_pendingInterruptRdPtr q" and ?c = "g_pendingInterruptCount q"
  let ?w = "g_pendingInterruptWrPtr q"
  have w: "?w = (?r + ?c) mod 32" and len: "length (g_pendingInterrupts q) = 32"
    and r: "?r < 32" and c: "?c < 32"
    using ok room by (simp_all add: intq_ok_def)
  have old: "?w \<noteq> (?r + i) mod 32" if "i < ?c" for i
    using ring_index_neq [OF r c that] w by simp
  have "queued (PushInterrupt m q) =
      map (\<lambda>i. (g_pendingInterrupts q)[?w := m] ! ((?r + i) mod 32)) [0..<Suc ?c]"
    using c by (simp add: queued_def PushInterrupt_def Let_def)
  also have "\<dots> = map (\<lambda>i. g_pendingInterrupts q ! ((?r + i) mod 32)) [0..<?c] @ [m]"
    using old w len by (simp add: nth_list_update)
  finally show ?thesis by (simp add: queued_def)
qed

lemma intq_ok_pop: "intq_ok q \<Longrightarrow> queued q \<noteq> [] \<Longrightarrow> intq_ok (snd (PopInterrupt q))"
  by (auto simp: intq_ok_def PopInterrupt_def Let_def queued_def mod_if split: if_splits)

lemma queued_pop:
  assumes ok: "intq_ok q" and ne: "queued q \<noteq> []"
  shows "queued q = fst (PopInterrupt q) # queued (snd (PopInterrupt q))"
proof -
  let ?r = "g_pendingInterruptRdPtr q" and ?c = "g_pendingInterruptCount q"
  have r: "?r < 32" using ok by (simp add: intq_ok_def)
  obtain k where k: "?c = Suc k" using ne by (cases ?c) (auto simp: queued_def)
  have next_ptr: "((if ?r + 1 = 32 then 0 else ?r + 1) + i) mod 32 = (?r + Suc i) mod 32" for i
    using r by (auto simp: mod_if)
  have "[0..<Suc k] = 0 # map Suc [0..<k]"
    by (simp add: upt_conv_Cons map_Suc_upt del: upt_Suc)
  then show ?thesis
    using r k next_ptr by (auto simp: queued_def PopInterrupt_def Let_def split: if_splits)
qed

section \<open>The contract\<close>

locale bounded_fifo =
  fixes cap :: nat
    and push :: "'a \<Rightarrow> 'q \<Rightarrow> 'q"
    and pop :: "'q \<Rightarrow> 'a \<times> 'q"
    and contents :: "'q \<Rightarrow> 'a list"
    and invar :: "'q \<Rightarrow> bool"
  assumes push_room: "invar q \<Longrightarrow> length (contents q) < cap \<Longrightarrow> contents (push x q) = contents q @ [x]"
    and push_drops: "invar q \<Longrightarrow> length (contents q) = cap \<Longrightarrow> push x q = q"
    and pop_first: "invar q \<Longrightarrow> contents q \<noteq> [] \<Longrightarrow> contents q = fst (pop q) # contents (snd (pop q))"
    and invar_push: "invar q \<Longrightarrow> invar (push x q)"
    and invar_pop: "invar q \<Longrightarrow> contents q \<noteq> [] \<Longrightarrow> invar (snd (pop q))"
    and bounded: "invar q \<Longrightarrow> length (contents q) \<le> cap"
begin

fun pops :: "nat \<Rightarrow> 'q \<Rightarrow> 'a list" where
  "pops 0 q = []"
| "pops (Suc n) q = fst (pop q) # pops n (snd (pop q))"

lemma contents_push: "invar q \<Longrightarrow> contents (push x q) = take cap (contents q @ [x])"
  using push_room [of q x] push_drops [of q x] bounded [of q]
  by (cases "length (contents q) < cap") (auto simp: not_less)

lemma invar_fold_push: "invar q \<Longrightarrow> invar (fold push xs q)"
  by (induction xs arbitrary: q) (simp_all add: invar_push)

lemma contents_fold_push:
  "invar q \<Longrightarrow> contents (fold push xs q) = take cap (contents q @ xs)"
proof (induction xs arbitrary: q)
  case Nil
  then show ?case using bounded by simp
next
  case (Cons x xs)
  have "contents (fold push (x # xs) q) = take cap (take cap (contents q @ [x]) @ xs)"
    using Cons.IH [OF invar_push [OF Cons.prems]] by (simp add: contents_push Cons.prems)
  also have "\<dots> = take cap (contents q @ x # xs)"
    by (cases "length (contents q @ [x]) \<le> cap") (simp_all add: not_le)
  finally show ?case .
qed

lemma pops_contents: "invar q \<Longrightarrow> n \<le> length (contents q) \<Longrightarrow> pops n q = take n (contents q)"
proof (induction n arbitrary: q)
  case 0
  then show ?case by simp
next
  case (Suc n)
  then have ne: "contents q \<noteq> []" by auto
  note first = pop_first [OF Suc.prems(1) ne]
  have "pops n (snd (pop q)) = take n (contents (snd (pop q)))"
    using Suc.IH [OF invar_pop [OF Suc.prems(1) ne]] Suc.prems(2) first
    by (metis Suc_le_mono length_Cons)
  then show ?case by (subst first) simp
qed

lemma drain_in_order:
  assumes "invar q" and "contents q = []" and "n = min cap (length xs)"
  shows "pops n (fold push xs q) = take cap xs"
  using pops_contents [OF invar_fold_push [OF assms(1)], of n xs] contents_fold_push [OF assms(1), of xs]
    assms(2,3) by (simp add: min_def)

end

interpretation irq: bounded_fifo INTERRUPT_QUEUE_SIZE PushInterrupt PopInterrupt queued intq_ok
proof
  fix q x
  assume ok: "intq_ok q"
  show "length (queued q) < INTERRUPT_QUEUE_SIZE \<Longrightarrow> queued (PushInterrupt x q) = queued q @ [x]"
    using ok by (rule queued_push)
  show "length (queued q) = INTERRUPT_QUEUE_SIZE \<Longrightarrow> PushInterrupt x q = q"
    by (rule push_full)
  show "queued q \<noteq> [] \<Longrightarrow> queued q = fst (PopInterrupt q) # queued (snd (PopInterrupt q))"
    using ok by (rule queued_pop)
  show "intq_ok (PushInterrupt x q)" using ok by (rule intq_ok_push)
  show "queued q \<noteq> [] \<Longrightarrow> intq_ok (snd (PopInterrupt q))" using ok by (rule intq_ok_pop)
  show "length (queued q) \<le> INTERRUPT_QUEUE_SIZE" using ok by (simp add: intq_ok_def)
qed

end
