(* ===== verification/Machine.thy ===== *)
theory Machine
  imports Rpc_Queue
begin

text \<open>
  The machine as the C code sees it: the RPC network port (\<open>SendRPCMessage\<close>,
  \<open>RecvRPCMessage\<close> of \<open>src/graftonstartup/RPCHardwareInterface.S\<close>), byte-addressed big-endian
  memory behind the MMU (\<open>MmapHelper\<close> of \<open>src/graftonstartup/startup.S\<close>, \<open>FlushDsideL1Cache\<close>
  of \<open>cache.S\<close>) and a log of everything the CPU does to the outside world. The messages the
  network will deliver are the list \<open>inbox\<close>; a theorem that holds for every inbox holds for
  every behaviour of the devices, and waiting on an empty inbox is \<open>Blocked\<close>.
\<close>

section \<open>State\<close>

datatype io_event =
    Sent RPCMessage
  | Received RPCMessage
  | Mapped u32 u32 u32 u32
  | Flushed u32 u32

record cpu =
  inbox :: "RPCMessage list"
  io :: "io_event list"
  pend :: intq
  mem :: "u32 \<Rightarrow> u8"
  mmu :: "u32 \<Rightarrow> u32"

text \<open>A machine with empty queues and all of its memory mapped, for concrete runs.\<close>

definition blank_cpu :: cpu where
  "blank_cpu = \<lparr>inbox = [], io = [],
     pend = InterruptQueueInit \<lparr>g_pendingInterrupts = replicate INTERRUPT_QUEUE_SIZE
         \<lparr>m_from = 0, m_to = 0, m_callnum = 0, m_type = 0, m_d0 = 0, m_d1 = 0, m_d2 = 0\<rparr>,
       g_pendingInterruptCount = 0, g_pendingInterruptRdPtr = 0, g_pendingInterruptWrPtr = 0\<rparr>,
     mem = (\<lambda>_. 0), mmu = (\<lambda>_. 6)\<rparr>"

lemma blank_cpu_simps [simp]:
  "inbox blank_cpu = []" "io blank_cpu = []" "queued (pend blank_cpu) = []" "intq_ok (pend blank_cpu)"
  "mem blank_cpu = (\<lambda>_. 0)" "mmu blank_cpu = (\<lambda>_. 6)"
  by (simp_all add: blank_cpu_def queued_init intq_ok_init)

section \<open>The network port\<close>

definition SendRPCMessage :: "RPCMessage \<Rightarrow> 'a cpu_scheme \<Rightarrow> 'a cpu_scheme" where
  "SendRPCMessage msg s = s\<lparr>io := io s @ [Sent msg]\<rparr>"

definition RecvRPCMessage :: "'a cpu_scheme \<Rightarrow> (RPCMessage \<times> 'a cpu_scheme) res" where
  "RecvRPCMessage s = (case inbox s of
       [] \<Rightarrow> Inl Blocked
     | m # ms \<Rightarrow> Inr (m, s\<lparr>inbox := ms, io := io s @ [Received m]\<rparr>))"

section \<open>Memory\<close>

text \<open>
  Pages are 2048 bytes (\<open>include/sys/mman.h\<close>); permission bits are those of
  \<open>GraftonCPUPagePermissions.constants\<close>. A load without the read bit, or a store without the
  write bit, sets the segfault flag of the L1 cache, on which the CPU hangs
  (\<open>GraftonCPUL1Cache.v\<close>): the result is \<open>MMUFault\<close>. All word and halfword accesses of the code
  are aligned, so one permission check covers them.
\<close>

abbreviation (input) PAGE_MASK :: u32 where "PAGE_MASK \<equiv> 0xFFFFF800"
abbreviation (input) PAGESIZE :: u32 where "PAGESIZE \<equiv> 2048"
abbreviation (input) LOG_PAGESIZE :: nat where "LOG_PAGESIZE \<equiv> 11"
abbreviation (input) PAGE_GUARD :: u32 where "PAGE_GUARD \<equiv> 0"
abbreviation (input) PAGE_READ_WRITE :: u32 where "PAGE_READ_WRITE \<equiv> 6"

definition readable :: "u32 \<Rightarrow> 'a cpu_scheme \<Rightarrow> bool" where
  "readable a s \<longleftrightarrow> bit (mmu s (a AND PAGE_MASK)) 2"

definition writable :: "u32 \<Rightarrow> 'a cpu_scheme \<Rightarrow> bool" where
  "writable a s \<longleftrightarrow> bit (mmu s (a AND PAGE_MASK)) 1"

definition be16 :: "(u32 \<Rightarrow> u8) \<Rightarrow> u32 \<Rightarrow> u16" where
  "be16 m a = push_bit 8 (ucast (m a)) OR ucast (m (a + 1))"

definition be32 :: "(u32 \<Rightarrow> u8) \<Rightarrow> u32 \<Rightarrow> u32" where
  "be32 m a = push_bit 24 (ucast (m a)) OR push_bit 16 (ucast (m (a + 1))) OR
     push_bit 8 (ucast (m (a + 2))) OR ucast (m (a + 3))"

definition put32 :: "(u32 \<Rightarrow> u8) \<Rightarrow> u32 \<Rightarrow> u32 \<Rightarrow> (u32 \<Rightarrow> u8)" where
  "put32 m a v = m(a := ucast (drop_bit 24 v), a + 1 := ucast (drop_bit 16 v),
     a + 2 := ucast (drop_bit 8 v), a + 3 := ucast v)"

definition load8 :: "u32 \<Rightarrow> 'a cpu_scheme \<Rightarrow> u8 res" where
  "load8 a s = (if readable a s then Inr (mem s a) else Inl (MMUFault a))"

definition load16 :: "u32 \<Rightarrow> 'a cpu_scheme \<Rightarrow> u16 res" where
  "load16 a s = (if readable a s then Inr (be16 (mem s) a) else Inl (MMUFault a))"

definition load32 :: "u32 \<Rightarrow> 'a cpu_scheme \<Rightarrow> u32 res" where
  "load32 a s = (if readable a s then Inr (be32 (mem s) a) else Inl (MMUFault a))"

definition store8 :: "u32 \<Rightarrow> u8 \<Rightarrow> 'a cpu_scheme \<Rightarrow> 'a cpu_scheme res" where
  "store8 a v s = (if writable a s then Inr (s\<lparr>mem := (mem s)(a := v)\<rparr>) else Inl (MMUFault a))"

definition store32 :: "u32 \<Rightarrow> u32 \<Rightarrow> 'a cpu_scheme \<Rightarrow> 'a cpu_scheme res" where
  "store32 a v s = (if writable a s then Inr (s\<lparr>mem := put32 (mem s) a v\<rparr>) else Inl (MMUFault a))"

definition FlushDsideL1Cache :: "u32 \<Rightarrow> u32 \<Rightarrow> 'a cpu_scheme \<Rightarrow> 'a cpu_scheme" where
  "FlushDsideL1Cache addr len s = s\<lparr>io := io s @ [Flushed addr len]\<rparr>"

definition MmapHelper :: "u32 \<Rightarrow> u32 \<Rightarrow> u32 \<Rightarrow> u32 \<Rightarrow> 'a cpu_scheme \<Rightarrow> 'a cpu_scheme" where
  "MmapHelper page_addr phy_addr noc_addr perms s =
     s\<lparr>mmu := (mmu s)(page_addr AND PAGE_MASK := perms),
       io := io s @ [Mapped page_addr phy_addr noc_addr perms]\<rparr>"

text \<open>\<open>unsigned int* p; p[i]\<close>: the address of the word with index \<open>i\<close>.\<close>

definition word_at :: "u32 \<Rightarrow> u32 \<Rightarrow> u32" where
  "word_at p i = p + 4 * i"

section \<open>Facts on memory\<close>

lemma be32_put32 [simp]: "be32 (put32 m a v) a = v"
proof (rule bit_word_eqI)
  fix n :: nat
  assume "n < LENGTH(32)"
  consider "n < 8" | "8 \<le> n \<and> n < 16" | "16 \<le> n \<and> n < 24" | "24 \<le> n" by linarith
  then show "bit (be32 (put32 m a v) a) n = bit v n"
    using \<open>n < LENGTH(32)\<close> by cases (auto simp: be32_def put32_def bit_simps)
qed

lemma put32_other:
  assumes "4 \<le> b - a"
  shows "put32 m a v b = m b"
proof -
  have "b \<noteq> a" "b \<noteq> a + 1" "b \<noteq> a + 2" "b \<noteq> a + 3"
    using assms by (auto simp: word_le_nat_alt)
  then show ?thesis by (simp add: put32_def)
qed

lemma u32_gap_add:
  fixes d k :: u32
  assumes "4 \<le> d" and "4 \<le> - d" and "k < 4"
  shows "4 \<le> d + k"
proof (rule ccontr)
  assume "\<not> 4 \<le> d + k"
  then have s: "d + k < 4" by simp
  define c where "c = d + k"
  have d: "d = c - k" by (simp add: c_def)
  have "c = 0 \<or> c = 1 \<or> c = 2 \<or> c = 3" using u32_less_4 [OF s] by (simp add: c_def)
  then show False using assms(1,2) u32_less_4 [OF assms(3)] unfolding d
    by (elim disjE) (simp_all add: word_le_nat_alt)
qed

lemma word_gap:
  fixes a b :: u32
  assumes "4 \<le> b - a" and "4 \<le> a - b" and "k < 4"
  shows "4 \<le> b + k - a"
proof -
  have "4 \<le> (b - a) + k" by (rule u32_gap_add) (use assms in simp_all)
  then show ?thesis by (simp add: algebra_simps)
qed

lemma be32_put32_other:
  assumes "4 \<le> b - a" and "4 \<le> a - b"
  shows "be32 (put32 m a v) b = be32 m b"
  using put32_other [OF word_gap [OF assms, of 0]] put32_other [OF word_gap [OF assms, of 1]]
    put32_other [OF word_gap [OF assms, of 2]] put32_other [OF word_gap [OF assms, of 3]]
  by (simp add: be32_def)

section \<open>What an operation may touch\<close>

text \<open>
  \<open>only P s s'\<close>: between \<open>s\<close> and \<open>s'\<close> no global variable of the program (the \<open>more\<close> part of the
  machine record) has changed, the interrupt queue is still well formed, and every event
  appended to the log satisfies \<open>P\<close>. \<open>talks A\<close> allows calls to the hosts in \<open>A\<close> only.
\<close>

definition only :: "(io_event \<Rightarrow> bool) \<Rightarrow> 'a cpu_scheme \<Rightarrow> 'a cpu_scheme \<Rightarrow> bool" where
  "only P s s' \<longleftrightarrow> cpu.more s' = cpu.more s \<and>
     (intq_ok (pend s) \<longrightarrow> intq_ok (pend s')) \<and>
     (\<exists>evs. io s' = io s @ evs \<and> (\<forall>e \<in> set evs. P e))"

fun talks :: "u32 set \<Rightarrow> io_event \<Rightarrow> bool" where
  "talks A (Sent m) = (m_to m \<in> A)"
| "talks A _ = True"

definition same_memory :: "'a cpu_scheme \<Rightarrow> 'a cpu_scheme \<Rightarrow> bool" where
  "same_memory s s' \<longleftrightarrow> mem s' = mem s \<and> mmu s' = mmu s"

lemma only_refl [simp]: "only P s s"
  by (simp add: only_def)

lemma only_trans: "only P s s' \<Longrightarrow> only P s' s'' \<Longrightarrow> only P s s''"
  by (fastforce simp: only_def)

lemma only_mono: "only P s s' \<Longrightarrow> (\<And>e. P e \<Longrightarrow> Q e) \<Longrightarrow> only Q s s'"
  by (auto simp: only_def)

lemma only_chain: "only P s s' \<Longrightarrow> only Q s' s'' \<Longrightarrow> (\<And>e. Q e \<Longrightarrow> P e) \<Longrightarrow> only P s s''"
  by (meson only_trans only_mono)

lemma only_more: "only P s s' \<Longrightarrow> cpu.more s' = cpu.more s"
  by (simp add: only_def)

lemma only_intq: "only P s s' \<Longrightarrow> intq_ok (pend s) \<Longrightarrow> intq_ok (pend s')"
  by (simp add: only_def)

lemma talks_mono: "talks A e \<Longrightarrow> A \<subseteq> B \<Longrightarrow> talks B e"
  by (cases e) auto

lemma only_send: "only P s (SendRPCMessage m s) \<longleftrightarrow> P (Sent m)"
  by (auto simp: only_def SendRPCMessage_def)

lemma only_flush: "only P s (FlushDsideL1Cache a n s) \<longleftrightarrow> P (Flushed a n)"
  by (auto simp: only_def FlushDsideL1Cache_def)

lemma only_mmap: "only P s (MmapHelper a b c d s) \<longleftrightarrow> P (Mapped a b c d)"
  by (auto simp: only_def MmapHelper_def)

lemma only_mem [simp]: "only P s (s\<lparr>mem := m\<rparr>)"
  by (simp add: only_def)

lemma same_memory_refl [simp]: "same_memory s s"
  by (simp add: same_memory_def)

lemma same_memory_trans: "same_memory s s' \<Longrightarrow> same_memory s' s'' \<Longrightarrow> same_memory s s''"
  by (simp add: same_memory_def)

lemma send_simps [simp]:
  "inbox (SendRPCMessage m s) = inbox s" "pend (SendRPCMessage m s) = pend s"
  "io (SendRPCMessage m s) = io s @ [Sent m]"
  "mem (SendRPCMessage m s) = mem s" "mmu (SendRPCMessage m s) = mmu s"
  "cpu.more (SendRPCMessage m s) = cpu.more s"
  by (simp_all add: SendRPCMessage_def)

lemma helper_simps [simp]:
  "cpu.more (MmapHelper a b c d s) = cpu.more s" "mem (MmapHelper a b c d s) = mem s"
  "inbox (MmapHelper a b c d s) = inbox s" "pend (MmapHelper a b c d s) = pend s"
  "mmu (MmapHelper a b c d s) = (mmu s)(a AND PAGE_MASK := d)"
  "io (MmapHelper a b c d s) = io s @ [Mapped a b c d]"
  "cpu.more (FlushDsideL1Cache a n s) = cpu.more s" "mem (FlushDsideL1Cache a n s) = mem s"
  "inbox (FlushDsideL1Cache a n s) = inbox s" "pend (FlushDsideL1Cache a n s) = pend s"
  "mmu (FlushDsideL1Cache a n s) = mmu s" "io (FlushDsideL1Cache a n s) = io s @ [Flushed a n]"
  by (simp_all add: MmapHelper_def FlushDsideL1Cache_def)

end
