(* ===== verification/Rpc.thy ===== *)
theory Rpc
  imports Machine "HOL-Library.Char_ord"
begin

text \<open>
  The RPC library of \<open>src/c-antikernel\<close>: blocking function calls
  (\<open>RPCFunctionHelpers.c\<close>), interrupts (\<open>RPCInterruptHelpers.c\<close>) and the name-server client
  (\<open>NameserverHelpers.c\<close>). Main results: the exact behaviour of a call on every sequence of
  incoming messages, and that the interrupts it overtakes are delivered later, in order.
\<close>

section \<open>Function calls\<close>

function rpc_wait :: "u32 \<Rightarrow> RPCMessage \<Rightarrow> 'a cpu_scheme \<Rightarrow>
    (int \<times> RPCMessage \<times> 'a cpu_scheme) res" where
  "rpc_wait addr msg s = andthen (RecvRPCMessage s) (\<lambda>(retval, s).
     if m_from retval \<noteq> addr then
       rpc_wait addr msg
         (if m_type retval = RPC_TYPE_INTERRUPT then s\<lparr>pend := PushInterrupt retval (pend s)\<rparr> else s)
     else if m_type retval = RPC_TYPE_RETURN_RETRY then rpc_wait addr msg (SendRPCMessage msg s)
     else if m_type retval = RPC_TYPE_RETURN_FAIL then Inr (-1, retval, s)
     else if m_type retval = RPC_TYPE_RETURN_SUCCESS then Inr (0, retval, s)
     else if m_type retval = RPC_TYPE_INTERRUPT then
       rpc_wait addr msg (s\<lparr>pend := PushInterrupt retval (pend s)\<rparr>)
     else rpc_wait addr msg s)"
  by pat_completeness auto
termination
  by (relation "measure (\<lambda>(addr, msg, s). length (inbox s))")
    (auto simp: RecvRPCMessage_def split: list.splits)

declare rpc_wait.simps [simp del]

definition rpc_request :: "u32 \<Rightarrow> u32 \<Rightarrow> u32 \<Rightarrow> u32 \<Rightarrow> u32 \<Rightarrow> RPCMessage" where
  "rpc_request addr callnum d0 d1 d2 = \<lparr>m_from = 0, m_to = addr, m_callnum = callnum,
     m_type = RPC_TYPE_CALL, m_d0 = d0, m_d1 = d1, m_d2 = d2\<rparr>"

definition RPCFunctionCall :: "u32 \<Rightarrow> u32 \<Rightarrow> u32 \<Rightarrow> u32 \<Rightarrow> u32 \<Rightarrow> 'a cpu_scheme \<Rightarrow>
    (int \<times> RPCMessage \<times> 'a cpu_scheme) res" where
  "RPCFunctionCall addr callnum d0 d1 d2 s =
     (let msg = rpc_request addr callnum d0 d1 d2
      in rpc_wait addr msg (SendRPCMessage msg s))"

section \<open>Interrupts\<close>

function interrupt_wait :: "'a cpu_scheme \<Rightarrow> (RPCMessage \<times> 'a cpu_scheme) res" where
  "interrupt_wait s = andthen (RecvRPCMessage s) (\<lambda>(msg, s).
     if m_type msg = RPC_TYPE_INTERRUPT then Inr (msg, s) else interrupt_wait s)"
  by pat_completeness auto
termination
  by (relation "measure (\<lambda>s. length (inbox s))")
    (auto simp: RecvRPCMessage_def split: list.splits)

declare interrupt_wait.simps [simp del]

definition GetRPCInterrupt :: "'a cpu_scheme \<Rightarrow> (RPCMessage \<times> 'a cpu_scheme) res" where
  "GetRPCInterrupt s =
     (if g_pendingInterruptCount (pend s) > 0
      then let (msg, q) = PopInterrupt (pend s) in Inr (msg, s\<lparr>pend := q\<rparr>)
      else interrupt_wait s)"

definition SendRPCInterrupt :: "u32 \<Rightarrow> u32 \<Rightarrow> u32 \<Rightarrow> u32 \<Rightarrow> u32 \<Rightarrow> 'a cpu_scheme \<Rightarrow> 'a cpu_scheme" where
  "SendRPCInterrupt addr callnum d0 d1 d2 s =
     SendRPCMessage \<lparr>m_from = 0, m_to = addr, m_callnum = callnum,
       m_type = RPC_TYPE_INTERRUPT, m_d0 = d0, m_d1 = d1, m_d2 = d2\<rparr> s"

section \<open>The name server\<close>

abbreviation (input) NAMESERVER_ADDR :: u32 where "NAMESERVER_ADDR \<equiv> 0x8000"
abbreviation (input) INVALID_HOST :: u32 where "INVALID_HOST \<equiv> 0xffffffff"
abbreviation (input) NAMESERVER_FQUERY :: u32 where "NAMESERVER_FQUERY \<equiv> 1"
abbreviation (input) NAMESERVER_LOCK :: u32 where "NAMESERVER_LOCK \<equiv> 3"
abbreviation (input) NAMESERVER_HMAC :: u32 where "NAMESERVER_HMAC \<equiv> 4"
abbreviation (input) NAMESERVER_REGISTER :: u32 where "NAMESERVER_REGISTER \<equiv> 5"

text \<open>A C string literal: its characters and the terminating null.\<close>

definition cstr :: "string \<Rightarrow> u8 list" where
  "cstr cs = map of_char cs @ [0]"

text \<open>The padding loop of \<open>LookupHostByName\<close>: \<open>i < 8 \<and> hostname[i] \<noteq> 0\<close>.\<close>

function pad_hostname :: "u8 list \<Rightarrow> nat \<Rightarrow> u8 list \<Rightarrow> u8 list res" where
  "pad_hostname hostname i padded =
     (if i < 8 then andthen (aget hostname i) (\<lambda>c.
        if c \<noteq> 0 then andthen (aset padded i c) (\<lambda>padded. pad_hostname hostname (i + 1) padded)
        else Inr padded)
      else Inr padded)"
  by pat_completeness auto
termination
  by (relation "measure (\<lambda>(h, i, p). 8 - i)") auto

declare pad_hostname.simps [simp del]

definition pack4 :: "u8 list \<Rightarrow> nat \<Rightarrow> u32" where
  "pack4 b i = push_bit 24 (ucast (b ! i)) OR push_bit 16 (ucast (b ! (i + 1))) OR
     push_bit 8 (ucast (b ! (i + 2))) OR ucast (b ! (i + 3))"

definition LookupHostByName :: "u8 list \<Rightarrow> 'a cpu_scheme \<Rightarrow> (u32 \<times> 'a cpu_scheme) res" where
  "LookupHostByName hostname s =
     andthen (pad_hostname hostname 0 (replicate 8 0)) (\<lambda>uhn.
     andthen (RPCFunctionCall NAMESERVER_ADDR NAMESERVER_FQUERY 0 (pack4 uhn 0) (pack4 uhn 4) s)
       (\<lambda>(rc, rmsg, s). if rc \<noteq> 0 then Inr (INVALID_HOST, s) else Inr (m_d0 rmsg, s)))"

text \<open>The signature loop of \<open>RegisterHost\<close>; it stops with -2 at the first refused half.\<close>

fun send_signature :: "u32 list \<Rightarrow> nat list \<Rightarrow> 'a cpu_scheme \<Rightarrow> (int \<times> 'a cpu_scheme) res" where
  "send_signature signature [] s = Inr (0, s)"
| "send_signature signature (i # ks) s =
     andthen (aget signature i) (\<lambda>a. andthen (aget signature (i + 1)) (\<lambda>b.
     andthen (RPCFunctionCall NAMESERVER_ADDR NAMESERVER_HMAC (of_nat i) a b s)
       (\<lambda>(rc, rmsg, s). if rc \<noteq> 0 then Inr (-2, s) else send_signature signature ks s)))"

definition RegisterHost :: "u32 list \<Rightarrow> u32 list \<Rightarrow> 'a cpu_scheme \<Rightarrow> (int \<times> 'a cpu_scheme) res" where
  "RegisterHost hostname signature s =
     andthen (RPCFunctionCall NAMESERVER_ADDR NAMESERVER_LOCK 0 0 0 s) (\<lambda>(rc, rmsg, s).
     if rc \<noteq> 0 then Inr (-1, s) else
     andthen (send_signature signature [0, 2, 4, 6] s) (\<lambda>(rc, s).
     if rc \<noteq> 0 then Inr (-2, s) else
     andthen (aget hostname 0) (\<lambda>h0. andthen (aget hostname 1) (\<lambda>h1.
     andthen (RPCFunctionCall NAMESERVER_ADDR NAMESERVER_REGISTER 0 h0 h1 s) (\<lambda>(rc, rmsg, s).
     if rc \<noteq> 0 then Inr (-3, s) else Inr (0, s))))))"

section \<open>What a call does\<close>

definition is_interrupt :: "RPCMessage \<Rightarrow> bool" where
  "is_interrupt m \<longleftrightarrow> m_type m = RPC_TYPE_INTERRUPT"

text \<open>The answer a caller of \<open>addr\<close> waits for, and the request to send the call again.\<close>

definition rpc_answer :: "u32 \<Rightarrow> RPCMessage \<Rightarrow> bool" where
  "rpc_answer addr m \<longleftrightarrow> m_from m = addr \<and>
     (m_type m = RPC_TYPE_RETURN_SUCCESS \<or> m_type m = RPC_TYPE_RETURN_FAIL)"

definition rpc_log :: "u32 \<Rightarrow> RPCMessage \<Rightarrow> RPCMessage \<Rightarrow> io_event list" where
  "rpc_log addr msg m =
     Received m # (if m_from m = addr \<and> m_type m = RPC_TYPE_RETURN_RETRY then [Sent msg] else [])"

definition rpc_status :: "RPCMessage \<Rightarrow> int" where
  "rpc_status m = (if m_type m = RPC_TYPE_RETURN_FAIL then -1 else 0)"

lemma recv_simps:
  "inbox s = [] \<Longrightarrow> RecvRPCMessage s = Inl Blocked"
  "inbox s = m # ms \<Longrightarrow> RecvRPCMessage s = Inr (m, s\<lparr>inbox := ms, io := io s @ [Received m]\<rparr>)"
  by (simp_all add: RecvRPCMessage_def)

lemma rpc_wait_answer:
  "inbox s = m # ms \<Longrightarrow> rpc_answer addr m \<Longrightarrow>
   rpc_wait addr msg s = Inr (rpc_status m, m, s\<lparr>inbox := ms, io := io s @ [Received m]\<rparr>)"
  by (subst rpc_wait.simps) (auto simp: recv_simps rpc_answer_def rpc_status_def)

lemma rpc_wait_skip:
  "inbox s = m # ms \<Longrightarrow> \<not> rpc_answer addr m \<Longrightarrow>
   rpc_wait addr msg s = rpc_wait addr msg
     (s\<lparr>inbox := ms, io := io s @ rpc_log addr msg m,
        pend := (if is_interrupt m then PushInterrupt m (pend s) else pend s)\<rparr>)"
  by (subst rpc_wait.simps)
    (auto simp: recv_simps rpc_answer_def is_interrupt_def rpc_log_def SendRPCMessage_def)

lemma rpc_wait_complete:
  assumes "inbox s = pre @ m # post" and "\<forall>x \<in> set pre. \<not> rpc_answer addr x" and "rpc_answer addr m"
  shows "rpc_wait addr msg s = Inr (rpc_status m, m,
    s\<lparr>inbox := post, io := io s @ concat (map (rpc_log addr msg) pre) @ [Received m],
      pend := fold PushInterrupt (filter is_interrupt pre) (pend s)\<rparr>)"
  using assms
proof (induction pre arbitrary: s)
  case Nil
  then show ?case by (simp add: rpc_wait_answer)
next
  case (Cons x pre)
  let ?s = "s\<lparr>inbox := pre @ m # post, io := io s @ rpc_log addr msg x,
    pend := (if is_interrupt x then PushInterrupt x (pend s) else pend s)\<rparr>"
  have "rpc_wait addr msg s = rpc_wait addr msg ?s"
    using Cons.prems by (intro rpc_wait_skip) auto
  also have "\<dots> = Inr (rpc_status m, m,
    s\<lparr>inbox := post, io := io s @ concat (map (rpc_log addr msg) (x # pre)) @ [Received m],
      pend := fold PushInterrupt (filter is_interrupt (x # pre)) (pend s)\<rparr>)"
    using Cons.prems by (subst Cons.IH) auto
  finally show ?case .
qed

lemma rpc_wait_blocks:
  "inbox s = ms \<Longrightarrow> \<forall>x \<in> set ms. \<not> rpc_answer addr x \<Longrightarrow> rpc_wait addr msg s = Inl Blocked"
proof (induction ms arbitrary: s)
  case Nil
  then show ?case by (subst rpc_wait.simps) (simp add: recv_simps)
next
  case (Cons x xs)
  then have "rpc_wait addr msg s = rpc_wait addr msg
     (s\<lparr>inbox := xs, io := io s @ rpc_log addr msg x,
        pend := (if is_interrupt x then PushInterrupt x (pend s) else pend s)\<rparr>)"
    by (intro rpc_wait_skip) simp_all
  then show ?case using Cons by simp
qed

text \<open>
  An inbox either holds an answer, which can be split off, or blocks the caller; so the two
  lemmas above cover every call. The rule for handlers keeps what they need of it.
\<close>

lemma first_answer:
  "(\<forall>x \<in> set ms. \<not> rpc_answer addr x) \<or>
   (\<exists>pre m post. ms = pre @ m # post \<and> (\<forall>x \<in> set pre. \<not> rpc_answer addr x) \<and> rpc_answer addr m)"
  by (metis split_list_first_prop)

definition rpc_done :: "u32 \<Rightarrow> RPCMessage \<Rightarrow> 'a cpu_scheme \<Rightarrow> int \<times> RPCMessage \<times> 'a cpu_scheme \<Rightarrow> bool" where
  "rpc_done addr msg s = (\<lambda>(rc, r, s'). rpc_answer addr r \<and> rc = rpc_status r \<and>
     same_memory s s' \<and> only (\<lambda>e. e = Sent msg \<or> (\<exists>m. e = Received m)) s s')"

lemma intq_ok_fold: "intq_ok q \<Longrightarrow> intq_ok (fold PushInterrupt ms q)"
  by (rule irq.invar_fold_push)

lemma rpc_log_events: "e \<in> set (rpc_log addr msg m) \<Longrightarrow> e = Sent msg \<or> (\<exists>m. e = Received m)"
  by (auto simp: rpc_log_def split: if_splits)

lemma RPCFunctionCall_wp:
  "wp only_blocks (rpc_done addr (rpc_request addr callnum d0 d1 d2) s)
     (RPCFunctionCall addr callnum d0 d1 d2 s)"
proof -
  let ?msg = "rpc_request addr callnum d0 d1 d2" and ?s = "SendRPCMessage (rpc_request addr callnum d0 d1 d2) s"
  consider "\<forall>x \<in> set (inbox s). \<not> rpc_answer addr x"
    | (ans) pre m post where "inbox s = pre @ m # post" "\<forall>x \<in> set pre. \<not> rpc_answer addr x" "rpc_answer addr m"
    using first_answer [of "inbox s" addr] by blast
  then show ?thesis
  proof cases
    case 1
    then show ?thesis by (simp add: RPCFunctionCall_def Let_def rpc_wait_blocks [OF refl])
  next
    case ans
    then show ?thesis
      using rpc_log_events
      by (subst RPCFunctionCall_def, unfold Let_def, subst rpc_wait_complete [of ?s pre m post])
        (auto simp: rpc_done_def same_memory_def only_def SendRPCMessage_def intq_ok_fold)
  qed
qed

lemma RPCFunctionCall_vcg [vcg]:
  assumes "\<And>rc r s'. rpc_answer addr r \<Longrightarrow> rc = rpc_status r \<Longrightarrow> same_memory s s' \<Longrightarrow>
      only (\<lambda>e. e = Sent (rpc_request addr callnum d0 d1 d2) \<or> (\<exists>m. e = Received m)) s s' \<Longrightarrow>
      Q (rc, r, s')"
    and "E Blocked"
  shows "wp E Q (RPCFunctionCall addr callnum d0 d1 d2 s)"
  by (rule wp_weaken [OF RPCFunctionCall_wp])
    (use assms in \<open>auto simp: rpc_done_def only_blocks_def\<close>)

text \<open>A function whose only effects are RPC calls to the hosts in \<open>A\<close>.\<close>

lemma only_call:
  "only (\<lambda>e. e = Sent (rpc_request addr c d0 d1 d2) \<or> (\<exists>m. e = Received m)) s s' \<Longrightarrow> addr \<in> A \<Longrightarrow>
   only (talks A) s s'"
  by (erule only_mono) (auto simp: rpc_request_def)

section \<open>Calls and interrupts on every inbox\<close>

definition overtaken :: "u32 \<Rightarrow> RPCMessage list \<Rightarrow> RPCMessage list" where
  "overtaken addr ms = takeWhile (\<lambda>m. \<not> rpc_answer addr m) ms"

definition from_answer :: "u32 \<Rightarrow> RPCMessage list \<Rightarrow> RPCMessage list" where
  "from_answer addr ms = dropWhile (\<lambda>m. \<not> rpc_answer addr m) ms"

text \<open>The interrupts that the program has still to see, in the order of their arrival.\<close>

definition waiting :: "'a cpu_scheme \<Rightarrow> RPCMessage list" where
  "waiting s = queued (pend s) @ filter is_interrupt (inbox s)"

lemma inbox_split: "ms = overtaken addr ms @ from_answer addr ms"
  by (simp add: overtaken_def from_answer_def)

lemma overtaken_no_answer: "\<forall>x \<in> set (overtaken addr ms). \<not> rpc_answer addr x"
  by (auto simp: overtaken_def dest: set_takeWhileD)

lemma from_answer_first: "from_answer addr ms = m # post \<Longrightarrow> rpc_answer addr m"
  by (auto simp: from_answer_def dropWhile_eq_Cons_conv)

lemma call_unanswered:
  assumes "from_answer addr (inbox s) = []"
  shows "RPCFunctionCall addr callnum d0 d1 d2 s = Inl Blocked"
  using assms by (simp add: RPCFunctionCall_def Let_def rpc_wait_blocks [OF refl] from_answer_def)

lemma call_answered:
  assumes "from_answer addr (inbox s) = m # post"
    and "msg = rpc_request addr callnum d0 d1 d2" and "pre = overtaken addr (inbox s)"
  shows "RPCFunctionCall addr callnum d0 d1 d2 s = Inr (rpc_status m, m, s\<lparr>inbox := post,
      io := io s @ Sent msg # concat (map (rpc_log addr msg) pre) @ [Received m],
      pend := fold PushInterrupt (filter is_interrupt pre) (pend s)\<rparr>)"
  using inbox_split [of "inbox s" addr] overtaken_no_answer [of addr "inbox s"]
    from_answer_first [OF assms(1)] assms
  by (simp add: RPCFunctionCall_def Let_def rpc_wait_complete SendRPCMessage_def)

lemma interrupt_wait_exact:
  "inbox s = ms \<Longrightarrow> case filter is_interrupt ms of
      [] \<Rightarrow> interrupt_wait s = Inl Blocked
    | m # rest \<Rightarrow> \<exists>s'. interrupt_wait s = Inr (m, s') \<and> pend s' = pend s \<and>
        filter is_interrupt (inbox s') = rest"
proof (induction ms arbitrary: s)
  case Nil
  then show ?case by (subst interrupt_wait.simps) (simp add: recv_simps)
next
  case (Cons x ms)
  let ?s = "s\<lparr>inbox := ms, io := io s @ [Received x]\<rparr>"
  have "interrupt_wait s = (if is_interrupt x then Inr (x, ?s) else interrupt_wait ?s)"
    using Cons.prems by (subst interrupt_wait.simps) (simp add: recv_simps is_interrupt_def)
  then show ?case using Cons.IH [of ?s] by (auto split: list.splits)
qed

section \<open>What is sent\<close>

definition sent_since :: "'a cpu_scheme \<Rightarrow> 'a cpu_scheme \<Rightarrow> RPCMessage set" where
  "sent_since s s' = {m. Sent m \<in> set (drop (length (io s)) (io s'))}"

definition grows :: "'a cpu_scheme \<Rightarrow> 'a cpu_scheme \<Rightarrow> bool" where
  "grows s s' \<longleftrightarrow> (\<exists>evs. io s' = io s @ evs)"

lemma sent_since_same: "io s' = io s \<Longrightarrow> sent_since s s' = {}"
  by (simp add: sent_since_def)

lemma sent_since_trans: "grows s s' \<Longrightarrow> grows s' s'' \<Longrightarrow> sent_since s s'' = sent_since s s' \<union> sent_since s' s''"
  by (auto simp: sent_since_def grows_def)

lemma grows_trans: "grows s s' \<Longrightarrow> grows s' s'' \<Longrightarrow> grows s s''"
  by (auto simp: grows_def)

lemma call_sends:
  assumes "RPCFunctionCall addr c d0 d1 d2 s = Inr (rc, r, s')"
  shows "sent_since s s' = {rpc_request addr c d0 d1 d2} \<and> grows s s'"
proof -
  obtain m post where m: "from_answer addr (inbox s) = m # post"
    using assms by (cases "from_answer addr (inbox s)") (auto simp: call_unanswered)
  show ?thesis
    using assms unfolding call_answered [OF m refl refl]
    by (auto simp: sent_since_def grows_def rpc_log_def)
qed

lemma RPCFunctionCall_sends:
  assumes "\<And>rc r s'. rpc_answer addr r \<Longrightarrow> rc = rpc_status r \<Longrightarrow> same_memory s s' \<Longrightarrow>
      cpu.more s' = cpu.more s \<Longrightarrow> sent_since s s' = {rpc_request addr c d0 d1 d2} \<Longrightarrow> grows s s' \<Longrightarrow>
      Q (rc, r, s')"
    and "E Blocked"
  shows "wp E Q (RPCFunctionCall addr c d0 d1 d2 s)"
proof (cases "RPCFunctionCall addr c d0 d1 d2 s")
  case (Inl h)
  then show ?thesis
    using RPCFunctionCall_wp [of addr c d0 d1 d2 s] assms(2) by (simp add: only_blocks_def)
next
  case (Inr x)
  then show ?thesis
    using RPCFunctionCall_wp [of addr c d0 d1 d2 s] call_sends [of addr c d0 d1 d2 s] assms(1)
    by (cases x) (auto simp: rpc_done_def only_def)
qed

section \<open>What is sent, in order\<close>

text \<open>
  A call may be sent several times when the host asks for a retry. \<open>sends s s' reqs\<close>: from \<open>s\<close> to
  \<open>s'\<close> the requests \<open>reqs\<close> have gone out in this order, each one at least once, and nothing else.
\<close>

fun repeats :: "RPCMessage list \<Rightarrow> nat list \<Rightarrow> RPCMessage list" where
  "repeats (r # rs) (n # ns) = replicate (Suc n) r @ repeats rs ns"
| "repeats _ _ = []"

fun sent_of :: "io_event list \<Rightarrow> RPCMessage list" where
  "sent_of [] = []"
| "sent_of (Sent m # es) = m # sent_of es"
| "sent_of (_ # es) = sent_of es"

definition sends :: "'a cpu_scheme \<Rightarrow> 'a cpu_scheme \<Rightarrow> RPCMessage list \<Rightarrow> bool" where
  "sends s s' reqs \<longleftrightarrow> (\<exists>evs ns. io s' = io s @ evs \<and> length ns = length reqs \<and> sent_of evs = repeats reqs ns)"

lemma sent_of_append: "sent_of (xs @ ys) = sent_of xs @ sent_of ys"
  by (induction xs rule: sent_of.induct) simp_all

lemma repeats_append:
  "length ns = length xs \<Longrightarrow> repeats (xs @ ys) (ns @ ms) = repeats xs ns @ repeats ys ms"
  by (induction xs ns rule: repeats.induct) simp_all

lemma sends_refl: "sends s s []"
  by (auto simp: sends_def)

lemma sends_trans:
  assumes "sends s s' xs" and "sends s' s'' ys"
  shows "sends s s'' (xs @ ys)"
proof -
  obtain evs ns evs' ms where "io s' = io s @ evs" "length ns = length xs" "sent_of evs = repeats xs ns"
    "io s'' = io s' @ evs'" "length ms = length ys" "sent_of evs' = repeats ys ms"
    using assms by (auto simp: sends_def)
  then show ?thesis
    unfolding sends_def
    by (intro exI [of _ "evs @ evs'"] exI [of _ "ns @ ms"]) (simp add: sent_of_append repeats_append)
qed

lemma sends_same_log: "sends s s' xs \<Longrightarrow> io t = io s' \<Longrightarrow> sends s t xs"
  by (simp add: sends_def)

lemma sends_quiet: "sends s s' xs \<Longrightarrow> io t = io s' @ evs \<Longrightarrow> sent_of evs = [] \<Longrightarrow> sends s t xs"
  using sends_trans [of s s' xs t "[]"] by (auto simp: sends_def)

lemma sent_of_rpc_log:
  "\<exists>n. sent_of (concat (map (rpc_log addr msg) pre)) = replicate n msg"
proof (induction pre)
  case (Cons m pre)
  then obtain n where "sent_of (concat (map (rpc_log addr msg) pre)) = replicate n msg" by blast
  then have "sent_of (concat (map (rpc_log addr msg) (m # pre))) =
      replicate (if m_from m = addr \<and> m_type m = RPC_TYPE_RETURN_RETRY then Suc n else n) msg"
    by (simp add: rpc_log_def)
  then show ?case by blast
qed simp

lemma call_sends_one:
  assumes "RPCFunctionCall addr c d0 d1 d2 s = Inr (rc, r, s')"
  shows "sends s s' [rpc_request addr c d0 d1 d2]"
proof -
  let ?msg = "rpc_request addr c d0 d1 d2"
  obtain m post where m: "from_answer addr (inbox s) = m # post"
    using assms by (cases "from_answer addr (inbox s)") (auto simp: call_unanswered)
  let ?pre = "overtaken addr (inbox s)"
  obtain n where "sent_of (concat (map (rpc_log addr ?msg) ?pre)) = replicate n ?msg"
    using sent_of_rpc_log by blast
  then have "sent_of (Sent ?msg # concat (map (rpc_log addr ?msg) ?pre) @ [Received m]) = repeats [?msg] [n]"
    by (simp add: sent_of_append)
  then show ?thesis
    using assms unfolding call_answered [OF m refl refl] sends_def
    by (intro exI [of _ "Sent ?msg # concat (map (rpc_log addr ?msg) ?pre) @ [Received m]"] exI [of _ "[n]"]) auto
qed

lemma call_sends_vcg:
  assumes "sends s0 s xs"
    and "\<And>rc r s'. rpc_answer addr r \<Longrightarrow> rc = rpc_status r \<Longrightarrow> same_memory s s' \<Longrightarrow>
      cpu.more s' = cpu.more s \<Longrightarrow> sends s0 s' (xs @ [rpc_request addr c d0 d1 d2]) \<Longrightarrow> Q (rc, r, s')"
    and "E Blocked"
  shows "wp E Q (RPCFunctionCall addr c d0 d1 d2 s)"
proof (cases "RPCFunctionCall addr c d0 d1 d2 s")
  case (Inl h)
  then show ?thesis
    using RPCFunctionCall_wp [of addr c d0 d1 d2 s] assms(3) by (simp add: only_blocks_def)
next
  case (Inr x)
  then show ?thesis
    using RPCFunctionCall_wp [of addr c d0 d1 d2 s] call_sends_one [of addr c d0 d1 d2 s]
      sends_trans [OF assms(1)] assms(2)
    by (cases x) (auto simp: rpc_done_def only_def)
qed

text \<open>A call that is answered at once, for concrete runs.\<close>

lemma call_immediate:
  assumes "inbox s \<noteq> []" and "rpc_answer addr (hd (inbox s))"
  shows "RPCFunctionCall addr c d0 d1 d2 s = Inr (rpc_status (hd (inbox s)), hd (inbox s),
    s\<lparr>inbox := tl (inbox s), io := io s @ [Sent (rpc_request addr c d0 d1 d2), Received (hd (inbox s))]\<rparr>)"
proof -
  have "from_answer addr (inbox s) = hd (inbox s) # tl (inbox s)" "overtaken addr (inbox s) = []"
    using assms by (cases "inbox s"; simp add: from_answer_def overtaken_def)+
  then show ?thesis by (simp add: call_answered)
qed

section \<open>Properties\<close>

text \<open>
  C14: the exact behaviour of \<open>RPCFunctionCall\<close> on every sequence of incoming messages. It returns on
  the first success or failure that comes from the called host, and blocks when there is none;
  until then it sends the request again for each retry of that host, queues each interrupt,
  whoever sent it, and drops everything else.
\<close>
theorem rpc_call_exact:
  "RPCFunctionCall addr callnum d0 d1 d2 s =
     (let msg = rpc_request addr callnum d0 d1 d2; pre = overtaken addr (inbox s)
      in case from_answer addr (inbox s) of
           [] \<Rightarrow> Inl Blocked
         | m # post \<Rightarrow> Inr (rpc_status m, m, s\<lparr>inbox := post,
             io := io s @ Sent msg # concat (map (rpc_log addr msg) pre) @ [Received m],
             pend := fold PushInterrupt (filter is_interrupt pre) (pend s)\<rparr>))"
  by (cases "from_answer addr (inbox s)") (simp_all add: call_unanswered call_answered Let_def)

text \<open>
  A call loses no interrupt and does not reorder them: the interrupts still to be seen, queued
  ones first, are the same before and after it, as long as the ring has room for the ones
  the call overtakes.
\<close>
lemma calls_keep_interrupts:
  assumes "intq_ok (pend s)" and "RPCFunctionCall addr callnum d0 d1 d2 s = Inr (rc, r, s')"
    and "length (queued (pend s)) + length (filter is_interrupt (overtaken addr (inbox s))) \<le> INTERRUPT_QUEUE_SIZE"
  shows "intq_ok (pend s') \<and> waiting s' = waiting s"
proof -
  obtain m post where m: "from_answer addr (inbox s) = m # post"
    using assms(2) by (cases "from_answer addr (inbox s)") (auto simp: call_unanswered)
  have "\<not> is_interrupt m"
    using from_answer_first [OF m] by (auto simp: rpc_answer_def is_interrupt_def)
  then have "filter is_interrupt (inbox s) =
      filter is_interrupt (overtaken addr (inbox s)) @ filter is_interrupt post"
    using inbox_split [of "inbox s" addr] m by (metis filter.simps(2) filter_append)
  then show ?thesis
    using assms call_answered [OF m refl refl]
    by (auto simp: waiting_def irq.contents_fold_push irq.invar_fold_push)
qed

lemma calls_keep_interrupts_witness:
  "let irqm = \<lparr>m_from = 7, m_to = 0, m_callnum = 0, m_type = RPC_TYPE_INTERRUPT, m_d0 = 0, m_d1 = 0, m_d2 = 0\<rparr>;
       ok = irqm\<lparr>m_from := 9, m_type := RPC_TYPE_RETURN_SUCCESS\<rparr>;
       s = blank_cpu\<lparr>inbox := [irqm, ok]\<rparr>
   in \<exists>s'. RPCFunctionCall 9 1 0 0 0 s = Inr (0, ok, s') \<and> waiting s' = [irqm] \<and> waiting s = [irqm]"
proof -
  define irqm where "irqm = \<lparr>m_from = 7, m_to = 0, m_callnum = 0, m_type = RPC_TYPE_INTERRUPT,
    m_d0 = 0, m_d1 = 0, m_d2 = 0\<rparr>"
  define ok where "ok = irqm\<lparr>m_from := 9, m_type := RPC_TYPE_RETURN_SUCCESS\<rparr>"
  define s where "s = blank_cpu\<lparr>inbox := [irqm, ok]\<rparr>"
  have split: "from_answer 9 (inbox s) = [ok]" "overtaken 9 (inbox s) = [irqm]"
    by (simp_all add: s_def ok_def irqm_def from_answer_def overtaken_def rpc_answer_def)
  then obtain s' where call: "RPCFunctionCall 9 1 0 0 0 s = Inr (0, ok, s')"
    using call_answered [OF split(1) refl refl, of 1 0 0 0] by (simp add: rpc_status_def ok_def)
  have q: "queued (pend s) = []" "intq_ok (pend s)" by (simp_all add: s_def)
  have "waiting s' = waiting s"
    using calls_keep_interrupts [OF q(2) call] q(1) split by (simp add: irqm_def is_interrupt_def)
  moreover have "waiting s = [irqm]"
    using q by (simp add: waiting_def s_def irqm_def ok_def is_interrupt_def)
  ultimately show ?thesis using call unfolding s_def ok_def irqm_def Let_def by simp
qed

text \<open>
  \<open>GetRPCInterrupt\<close> delivers the interrupts still to be seen one at a time, in the order of their
  arrival, whether they wait in the ring or in the network, and it blocks when there is none.
\<close>
lemma get_interrupt_next:
  assumes "intq_ok (pend s)"
  shows "case waiting s of
      [] \<Rightarrow> GetRPCInterrupt s = Inl Blocked
    | m # ms \<Rightarrow> \<exists>s'. GetRPCInterrupt s = Inr (m, s') \<and> waiting s' = ms \<and> intq_ok (pend s')"
proof (cases "queued (pend s) = []")
  case True
  then have "g_pendingInterruptCount (pend s) = 0" by (metis length_queued list.size(3))
  then have "GetRPCInterrupt s = interrupt_wait s" by (simp add: GetRPCInterrupt_def)
  then show ?thesis
    using interrupt_wait_exact [of s "inbox s"] True assms
    by (auto simp: waiting_def split: list.splits)
next
  case False
  then have "g_pendingInterruptCount (pend s) > 0" by (metis length_queued length_greater_0_conv)
  then show ?thesis
    using queued_pop [OF assms False] intq_ok_pop [OF assms False]
    by (auto simp: GetRPCInterrupt_def Let_def waiting_def split: list.splits prod.splits)
qed

theorem get_interrupt_next_witness:
  "GetRPCInterrupt (blank_cpu :: cpu) = Inl Blocked"
  using get_interrupt_next [of "blank_cpu :: cpu"] by (simp add: waiting_def)

end
