(* ===== verification/Buffers.thy ===== *)
theory Buffers
  imports Machine
begin

text \<open>
  Runs of bytes in memory: writing a list of bytes at an address (\<open>put_list\<close>), the statement
  that memory holds one (\<open>holds_bytes\<close>), permission to use a run (\<open>spans\<close>), the store that the
  encoders use for \<open>message[pos++] = b\<close> (\<open>emit\<close>), and the string functions of
  \<open>src/c-antikernel/string.c\<close>.
\<close>

section \<open>Byte runs\<close>

fun put_list :: "(u32 \<Rightarrow> u8) \<Rightarrow> u32 \<Rightarrow> u8 list \<Rightarrow> (u32 \<Rightarrow> u8)" where
  "put_list m a [] = m"
| "put_list m a (b # bs) = put_list (m(a := b)) (a + 1) bs"

definition holds_bytes :: "(u32 \<Rightarrow> u8) \<Rightarrow> u32 \<Rightarrow> u8 list \<Rightarrow> bool" where
  "holds_bytes m a bs \<longleftrightarrow> (\<forall>i < length bs. m (a + of_nat i) = bs ! i)"

definition spans :: "(u32 \<Rightarrow> bool) \<Rightarrow> u32 \<Rightarrow> nat \<Rightarrow> bool" where
  "spans P a n \<longleftrightarrow> (\<forall>i < n. P (a + of_nat i))"

lemma put_list_append: "put_list m a (xs @ ys) = put_list (put_list m a xs) (a + of_nat (length xs)) ys"
  by (induction xs arbitrary: m a) (simp_all add: algebra_simps)

lemma put_list_snoc: "put_list m a (xs @ [b]) = (put_list m a xs)(a + of_nat (length xs) := b)"
  by (simp add: put_list_append)

lemma offset_eq_iff:
  fixes x a :: u32
  assumes "n < 4294967296"
  shows "x = a + of_nat n \<longleftrightarrow> unat (x - a) = n"
proof
  assume "x = a + of_nat n"
  then show "unat (x - a) = n" using assms by simp
next
  assume "unat (x - a) = n"
  then have "of_nat n = x - a" by auto
  then show "x = a + of_nat n" by simp
qed

lemma put_list_apply:
  "length bs \<le> 4294967296 \<Longrightarrow>
   put_list m a bs x = (if unat (x - a) < length bs then bs ! unat (x - a) else m x)"
proof (induction bs rule: rev_induct)
  case Nil
  then show ?case by simp
next
  case (snoc b bs)
  then have "length bs < 4294967296" by simp
  with snoc show ?case
    by (auto simp: put_list_snoc offset_eq_iff nth_append less_Suc_eq)
qed

lemma put_list_update:
  assumes "i < length bs" and "length bs \<le> 4294967296"
  shows "(put_list m a bs)(a + of_nat i := v) = put_list m a (bs[i := v])"
proof
  fix x
  show "((put_list m a bs)(a + of_nat i := v)) x = put_list m a (bs[i := v]) x"
    using assms offset_eq_iff [of i x a] by (auto simp: put_list_apply nth_list_update)
qed

lemma holds_put_list:
  "length bs \<le> 4294967296 \<Longrightarrow> holds_bytes (put_list m a bs) a bs"
  by (auto simp: holds_bytes_def put_list_apply)

lemma holds_Nil [simp]: "holds_bytes m a []"
  by (simp add: holds_bytes_def)

lemma holds_Cons [simp]: "holds_bytes m a (b # bs) \<longleftrightarrow> m a = b \<and> holds_bytes m (a + 1) bs"
  by (auto simp: holds_bytes_def All_less_Suc2 algebra_simps)

lemma holds_append:
  "holds_bytes m a (xs @ ys) \<longleftrightarrow> holds_bytes m a xs \<and> holds_bytes m (a + of_nat (length xs)) ys"
  by (induction xs arbitrary: a) (simp_all add: algebra_simps)

lemma spans_0 [simp]: "spans P a 0"
  by (simp add: spans_def)

lemma spans_Suc [simp]: "spans P a (Suc n) \<longleftrightarrow> P a \<and> spans P (a + 1) n"
  by (auto simp: spans_def All_less_Suc2 algebra_simps)

lemma spans_add: "spans P a (m + n) \<longleftrightarrow> spans P a m \<and> spans P (a + of_nat m) n"
  by (induction m arbitrary: a) (simp_all add: algebra_simps)

lemma spans_le: "spans P a n \<Longrightarrow> m \<le> n \<Longrightarrow> spans P a m"
  by (simp add: spans_def)

lemma spans_nth: "spans P a n \<Longrightarrow> i < n \<Longrightarrow> P (a + of_nat i)"
  by (simp add: spans_def)

section \<open>Loads and stores\<close>

text \<open>\<open>message[pos++] = b\<close>.\<close>

definition emit :: "u32 \<Rightarrow> u32 \<Rightarrow> u8 \<Rightarrow> 'a cpu_scheme \<Rightarrow> (u32 \<times> 'a cpu_scheme) res" where
  "emit message pos b s = andthen (store8 (message + pos) b s) (\<lambda>s. Inr (pos + 1, s))"

definition can_read :: "'a cpu_scheme \<Rightarrow> u32 \<Rightarrow> bool" where
  "can_read s a = readable a s"

definition can_write :: "'a cpu_scheme \<Rightarrow> u32 \<Rightarrow> bool" where
  "can_write s a = writable a s"

lemma access_mem [simp]:
  "readable a (s\<lparr>mem := m\<rparr>) = readable a s"
  "writable a (s\<lparr>mem := m\<rparr>) = writable a s"
  "can_read (s\<lparr>mem := m\<rparr>) = can_read s"
  "can_write (s\<lparr>mem := m\<rparr>) = can_write s"
  by (simp_all add: readable_def writable_def can_read_def can_write_def fun_eq_iff)

lemma load8_ok: "can_read s a \<Longrightarrow> load8 a s = Inr (mem s a)"
  by (simp add: load8_def can_read_def)

lemma store8_ok: "can_write s a \<Longrightarrow> store8 a v s = Inr (s\<lparr>mem := (mem s)(a := v)\<rparr>)"
  by (simp add: store8_def can_write_def)

lemma emit_ok:
  "can_write s (message + pos) \<Longrightarrow>
   emit message pos b s = Inr (pos + 1, s\<lparr>mem := (mem s)(message + pos := b)\<rparr>)"
  by (simp add: emit_def store8_ok)

lemma load8_vcg [vcg]: "(\<And>v. Q v) \<Longrightarrow> (\<And>a. E (MMUFault a)) \<Longrightarrow> wp E Q (load8 a s)"
  by (simp add: load8_def)

lemma load16_vcg [vcg]: "(\<And>v. Q v) \<Longrightarrow> (\<And>a. E (MMUFault a)) \<Longrightarrow> wp E Q (load16 a s)"
  by (simp add: load16_def)

lemma load32_vcg [vcg]: "(\<And>v. Q v) \<Longrightarrow> (\<And>a. E (MMUFault a)) \<Longrightarrow> wp E Q (load32 a s)"
  by (simp add: load32_def)

lemma store8_vcg [vcg]:
  "(\<And>m. Q (s\<lparr>mem := m\<rparr>)) \<Longrightarrow> (\<And>a. E (MMUFault a)) \<Longrightarrow> wp E Q (store8 a v s)"
  by (simp add: store8_def)

lemma store32_vcg [vcg]:
  "(\<And>m. Q (s\<lparr>mem := m\<rparr>)) \<Longrightarrow> (\<And>a. E (MMUFault a)) \<Longrightarrow> wp E Q (store32 a v s)"
  by (simp add: store32_def)

lemma emit_vcg [vcg]:
  "(\<And>m. Q (pos + 1, s\<lparr>mem := m\<rparr>)) \<Longrightarrow> (\<And>a. E (MMUFault a)) \<Longrightarrow> wp E Q (emit message pos b s)"
  by (simp add: emit_def store8_def)

section \<open>The C string functions\<close>

text \<open>
  A \<open>char*\<close> that points into an array is the array and an index; running off its end is
  \<open>OutOfBounds\<close>. \<open>char\<close> is signed on this compiler, so \<open>strcmp\<close> orders characters by \<open>sint\<close>.
  \<open>strcpy\<close> takes the store to its destination as an argument, so that one definition serves
  a destination in an array and one in memory.
\<close>

function strlen_from :: "u8 list \<Rightarrow> nat \<Rightarrow> nat res" where
  "strlen_from str i = andthen (aget str i) (\<lambda>c. if c = 0 then Inr i else strlen_from str (i + 1))"
  by pat_completeness auto
termination
  by (relation "measure (\<lambda>(str, i). length str - i)") (auto simp: aget_def split: if_splits)

function strcmp_from :: "u8 list \<Rightarrow> u8 list \<Rightarrow> nat \<Rightarrow> int res" where
  "strcmp_from str1 str2 i =
     andthen (aget str1 i) (\<lambda>c. andthen (aget str2 i) (\<lambda>d.
     if sint c > sint d then Inr 1
     else if sint c < sint d then Inr (-1)
     else if c = 0 then Inr 0
     else strcmp_from str1 str2 (i + 1)))"
  by pat_completeness auto
termination
  by (relation "measure (\<lambda>(str1, str2, i). length str1 - i)") (auto simp: aget_def split: if_splits)

function strcpy_from :: "(nat \<Rightarrow> u8 \<Rightarrow> 's \<Rightarrow> 's res) \<Rightarrow> u8 list \<Rightarrow> nat \<Rightarrow> 's \<Rightarrow> 's res" where
  "strcpy_from put source i s =
     andthen (aget source i) (\<lambda>c. if c = 0 then Inr s
       else andthen (put i c s) (\<lambda>s. strcpy_from put source (i + 1) s))"
  by pat_completeness auto
termination
  by (relation "measure (\<lambda>(put, source, i, s). length source - i)")
    (auto simp: aget_def split: if_splits)

declare strlen_from.simps [simp del] strcmp_from.simps [simp del] strcpy_from.simps [simp del]

definition strlen :: "u8 list \<Rightarrow> nat res" where
  "strlen str = strlen_from str 0"

definition strcmp :: "u8 list \<Rightarrow> u8 list \<Rightarrow> int res" where
  "strcmp str1 str2 = strcmp_from str1 str2 0"

definition strcpy :: "u8 list \<Rightarrow> u8 list \<Rightarrow> u8 list res" where
  "strcpy destination source = strcpy_from (\<lambda>i c d. aset d i c) source 0 destination"

definition strcpy_mem :: "u32 \<Rightarrow> u8 list \<Rightarrow> 'a cpu_scheme \<Rightarrow> 'a cpu_scheme res" where
  "strcpy_mem destination source s =
     strcpy_from (\<lambda>i c s. store8 (destination + of_nat i) c s) source 0 s"

text \<open>The text of a C string, when the array holds one.\<close>

definition c_text :: "u8 list \<Rightarrow> u8 list" where
  "c_text str = takeWhile (\<lambda>c. c \<noteq> 0) str"

definition terminated :: "u8 list \<Rightarrow> bool" where
  "terminated str \<longleftrightarrow> 0 \<in> set str"

lemma strlen_from_suffix:
  "0 \<in> set (drop i str) \<Longrightarrow> strlen_from str i = Inr (i + length (c_text (drop i str)))"
proof (induction str i rule: strlen_from.induct)
  case (1 str i)
  from "1.prems" have i: "i < length str" by (cases "i < length str") auto
  then have d: "drop i str = str ! i # drop (Suc i) str" by (simp add: Cons_nth_drop_Suc)
  show ?case
  proof (cases "str ! i = 0")
    case True
    then show ?thesis by (subst strlen_from.simps) (simp add: i d c_text_def)
  next
    case False
    with "1.prems" d have "0 \<in> set (drop (i + 1) str)" by simp
    with "1.IH" [of "str ! i"] False i
    have "strlen_from str (i + 1) = Inr (i + 1 + length (c_text (drop (i + 1) str)))" by simp
    then show ?thesis using False by (subst strlen_from.simps) (simp add: i d c_text_def)
  qed
qed

lemma strlen_text: "terminated str \<Longrightarrow> strlen str = Inr (length (c_text str))"
  using strlen_from_suffix [of 0 str] by (simp add: strlen_def terminated_def)

lemma strlen_no_overrun: "wp E (\<lambda>_. True) (strlen str) \<Longrightarrow> \<not> E OutOfBounds \<Longrightarrow> terminated str"
proof (rule ccontr)
  assume w: "wp E (\<lambda>_. True) (strlen str)" "\<not> E OutOfBounds" and "\<not> terminated str"
  then have nz: "0 \<notin> set str" by (simp add: terminated_def)
  have "strlen_from str i = Inl OutOfBounds" for i
    using nz
    by (induction str i rule: strlen_from.induct)
      (subst strlen_from.simps, auto simp: aget_def andthen_def split: sum.splits dest: nth_mem)
  with w show False by (simp add: strlen_def)
qed

lemma strcmp_from_suffix:
  assumes "0 \<in> set (drop i a)" and "0 \<in> set (drop i b)"
  shows "\<exists>r. strcmp_from a b i = Inr r \<and> (r = 0 \<longleftrightarrow> c_text (drop i a) = c_text (drop i b))"
  using assms
proof (induction a b i rule: strcmp_from.induct)
  case (1 a b i)
  from "1.prems" have i: "i < length a" "i < length b" by (cases "i < length a"; cases "i < length b"; auto)+
  then have d: "drop i a = a ! i # drop (Suc i) a" "drop i b = b ! i # drop (Suc i) b"
    by (simp_all add: Cons_nth_drop_Suc)
  have eq: "a ! i = b ! i \<longleftrightarrow> \<not> sint (a ! i) < sint (b ! i) \<and> \<not> sint (b ! i) < sint (a ! i)"
    by (metis linorder_neqE_linordered_idom less_irrefl signed_word_eqI)
  show ?case
  proof (cases "a ! i = b ! i \<and> a ! i \<noteq> 0")
    case True
    with "1.prems" d have "0 \<in> set (drop (i + 1) a)" "0 \<in> set (drop (i + 1) b)" by auto
    with "1.IH" [of "a ! i" "b ! i"] True i eq
    have "\<exists>r. strcmp_from a b (i + 1) = Inr r \<and>
        (r = 0 \<longleftrightarrow> c_text (drop (i + 1) a) = c_text (drop (i + 1) b))" by simp
    then show ?thesis using True by (subst strcmp_from.simps) (simp add: i d c_text_def)
  next
    case False
    then show ?thesis using eq by (subst strcmp_from.simps) (auto simp: i d c_text_def)
  qed
qed

lemma strcmp_text:
  "terminated a \<Longrightarrow> terminated b \<Longrightarrow>
   \<exists>r. strcmp a b = Inr r \<and> (r = 0 \<longleftrightarrow> c_text a = c_text b)"
  using strcmp_from_suffix [of 0 a b] by (simp add: strcmp_def terminated_def)

lemma strcpy_mem_from:
  assumes "0 \<in> set (drop i source)" and "spans (can_write s) (d + of_nat i) (length (c_text (drop i source)))"
  shows "strcpy_from (\<lambda>i c s. store8 (d + of_nat i) c s) source i s =
    Inr (s\<lparr>mem := put_list (mem s) (d + of_nat i) (c_text (drop i source))\<rparr>)"
  using assms
proof (induction "length source - i" arbitrary: i s)
  case 0
  then show ?case by simp
next
  case (Suc n)
  then have i: "i < length source" by simp
  then have d: "drop i source = source ! i # drop (Suc i) source" by (simp add: Cons_nth_drop_Suc)
  show ?case
  proof (cases "source ! i = 0")
    case True
    then show ?thesis by (subst strcpy_from.simps) (simp add: i d c_text_def)
  next
    case False
    then have w: "can_write s (d + of_nat i)"
        "spans (can_write s) (d + of_nat (Suc i)) (length (c_text (drop (Suc i) source)))"
      using Suc.prems(2) unfolding \<open>drop i source = _\<close> by (simp_all add: c_text_def algebra_simps)
    have z: "0 \<in> set (drop (Suc i) source)" using Suc.prems(1) False unfolding \<open>drop i source = _\<close> by simp
    let ?s = "s\<lparr>mem := (mem s)(d + of_nat i := source ! i)\<rparr>"
    have "strcpy_from (\<lambda>i c s. store8 (d + of_nat i) c s) source (Suc i) ?s =
        Inr (?s\<lparr>mem := put_list (mem ?s) (d + of_nat (Suc i)) (c_text (drop (Suc i) source))\<rparr>)"
      by (rule Suc.hyps(1)) (use Suc.hyps(2) z w(2) in simp_all)
    then show ?thesis using False w(1)
      by (subst strcpy_from.simps) (simp add: i d c_text_def store8_ok algebra_simps)
  qed
qed

lemma strcpy_mem_text:
  "terminated source \<Longrightarrow> spans (can_write s) d (length (c_text source)) \<Longrightarrow>
   strcpy_mem d source s = Inr (s\<lparr>mem := put_list (mem s) d (c_text source)\<rparr>)"
  using strcpy_mem_from [of 0 source s d] by (simp add: strcpy_mem_def terminated_def)

section \<open>Building a message\<close>

text \<open>
  An encoder that has written the bytes \<open>bs\<close> from position \<open>pos\<close> of a message has reached the
  state \<open>wrote s (message + pos) bs\<close> and the position \<open>adv pos bs\<close>. The rules below move one
  store at a time from the code to the list of bytes, under the assumption \<open>room\<close> that the
  whole run is writable.
\<close>

definition adv :: "u32 \<Rightarrow> u8 list \<Rightarrow> u32" where
  "adv pos bs = pos + of_nat (length bs)"

definition wrote :: "'a cpu_scheme \<Rightarrow> u32 \<Rightarrow> u8 list \<Rightarrow> 'a cpu_scheme" where
  "wrote s a bs = s\<lparr>mem := put_list (mem s) a bs\<rparr>"

definition room :: "'a cpu_scheme \<Rightarrow> u32 \<Rightarrow> nat \<Rightarrow> bool" where
  "room s a n \<longleftrightarrow> spans (can_write s) a n \<and> n \<le> 4294967296"

lemma adv_Nil: "adv pos [] = pos"
  by (simp add: adv_def)

lemma wrote_Nil: "wrote s a [] = s"
  by (simp add: wrote_def)

lemma wrote_simps [simp]:
  "inbox (wrote s a bs) = inbox s" "io (wrote s a bs) = io s" "pend (wrote s a bs) = pend s"
  "mmu (wrote s a bs) = mmu s" "cpu.more (wrote s a bs) = cpu.more s"
  "readable b (wrote s a bs) = readable b s" "writable b (wrote s a bs) = writable b s"
  by (simp_all add: wrote_def)

lemma only_wrote [simp]: "only P s (wrote s a bs)"
  by (simp add: wrote_def)

lemma emit_wrote:
  "room s (message + pos) n \<Longrightarrow> length bs < n \<Longrightarrow>
   emit message (adv pos bs) b (wrote s (message + pos) bs) =
     Inr (adv pos (bs @ [b]), wrote s (message + pos) (bs @ [b]))"
  using spans_nth [of "can_write s" "message + pos" n "length bs"]
  by (simp add: room_def adv_def wrote_def emit_ok put_list_snoc algebra_simps)

lemma store8_wrote:
  "room s (message + pos) n \<Longrightarrow> length cs < length bs \<Longrightarrow> length bs \<le> n \<Longrightarrow>
   store8 (message + adv pos cs) v (wrote s (message + pos) bs) =
     Inr (wrote s (message + pos) (bs[length cs := v]))"
  using spans_nth [of "can_write s" "message + pos" n "length cs"]
    put_list_update [of "length cs" bs "mem s" "message + pos" v]
  by (simp add: room_def adv_def wrote_def store8_ok algebra_simps)

lemma emit_if_wrote:
  "room s (message + pos) n \<Longrightarrow> length bs < n \<Longrightarrow>
   (if c then emit message (adv pos bs) b (wrote s (message + pos) bs)
    else Inr (adv pos bs, wrote s (message + pos) bs)) =
     Inr (adv pos (bs @ (if c then [b] else [])), wrote s (message + pos) (bs @ (if c then [b] else [])))"
  by (simp add: emit_wrote)

lemma strcpy_wrote:
  assumes "room s (message + pos) n" and "length (bs @ c_text src) \<le> n" and "terminated src"
  shows "strcpy_mem (message + adv pos bs) src (wrote s (message + pos) bs) =
    Inr (wrote s (message + pos) (bs @ c_text src))"
proof -
  have "spans (can_write s) (message + pos) (length bs + length (c_text src))"
    using assms(1,2) by (auto simp: room_def elim: spans_le)
  then have "spans (can_write (wrote s (message + pos) bs)) (message + adv pos bs) (length (c_text src))"
    by (simp add: spans_add adv_def wrote_def algebra_simps)
  from strcpy_mem_text [OF assms(3) this] show ?thesis
    by (simp add: wrote_def put_list_append adv_def algebra_simps)
qed

section \<open>Reading a message\<close>

definition reads :: "'a cpu_scheme \<Rightarrow> u32 \<Rightarrow> u8 list \<Rightarrow> bool" where
  "reads s a bs \<longleftrightarrow> holds_bytes (mem s) a bs \<and> spans (can_read s) a (length bs)"

lemma reads_Nil [simp]: "reads s a []"
  by (simp add: reads_def)

lemma reads_Cons: "reads s a (b # bs) \<longleftrightarrow> load8 a s = Inr b \<and> reads s (a + 1) bs"
  by (auto simp: reads_def load8_def can_read_def)

lemma reads_append: "reads s a (xs @ ys) \<longleftrightarrow> reads s a xs \<and> reads s (a + of_nat (length xs)) ys"
  by (auto simp: reads_def holds_append spans_add)

lemma reads_wrote:
  "spans (can_read s) a (length bs) \<Longrightarrow> length bs \<le> 4294967296 \<Longrightarrow> reads (wrote s a bs) a bs"
  by (simp add: reads_def wrote_def holds_put_list)

lemma spans_all: "(\<And>a. P a) \<Longrightarrow> spans P a n"
  by (simp add: spans_def)

lemma blank_cpu_access [simp]: "can_read blank_cpu a" "can_write blank_cpu a"
  by (simp_all add: can_read_def can_write_def readable_def writable_def bit_numeral_rec)

lemma blank_cpu_room: "n \<le> 4294967296 \<Longrightarrow> room blank_cpu a n" "spans (can_read blank_cpu) a n"
  by (simp_all add: room_def spans_all)

end
