(* ===== verification/Ber.thy ===== *)
theory Ber
  imports Buffers
begin

text \<open>
  The ASN.1 BER library \<open>src/asn1/BER.c\<close>, function by function. A decoder is given the message
  base address and the current position and returns \<open>None\<close> for -1, or the decoded values with
  the new position; every caller drops all outputs on failure, so the position left behind by
  a failing decoder is not kept. An encoder returns the new write position and the machine.
\<close>

abbreviation (input) ASN1_TYPE_INTEGER :: u32 where "ASN1_TYPE_INTEGER \<equiv> 0x02"
abbreviation (input) ASN1_TYPE_OCTET_STRING :: u32 where "ASN1_TYPE_OCTET_STRING \<equiv> 0x04"
abbreviation (input) ASN1_TYPE_OID :: u32 where "ASN1_TYPE_OID \<equiv> 0x06"
abbreviation (input) ASN1_TYPE_SEQUENCE_CONSTRUCTED :: u32 where "ASN1_TYPE_SEQUENCE_CONSTRUCTED \<equiv> 0x30"
abbreviation (input) ASN1_TYPE_SNMP_NO_SUCH_OBJECT :: u8 where "ASN1_TYPE_SNMP_NO_SUCH_OBJECT \<equiv> 0x80"
abbreviation (input) ASN1_TYPE_SNMP_END_OF_MIB :: u8 where "ASN1_TYPE_SNMP_END_OF_MIB \<equiv> 0x82"
abbreviation (input) ASN1_TYPE_SNMP_GETREQUEST :: u32 where "ASN1_TYPE_SNMP_GETREQUEST \<equiv> 0xA0"
abbreviation (input) ASN1_TYPE_SNMP_GETNEXTREQUEST :: u32 where "ASN1_TYPE_SNMP_GETNEXTREQUEST \<equiv> 0xA1"
abbreviation (input) ASN1_TYPE_SNMP_GETRESPONSE :: u8 where "ASN1_TYPE_SNMP_GETRESPONSE \<equiv> 0xA2"
abbreviation (input) ASN1_TYPE_SNMP_SETREQUEST :: u32 where "ASN1_TYPE_SNMP_SETREQUEST \<equiv> 0xA3"

section \<open>Decoders\<close>

text \<open>The loop \<open>x <<= 8; x |= message[pos++]\<close>, run \<open>n\<close> times.\<close>

fun ber_octets :: "u32 \<Rightarrow> nat \<Rightarrow> u32 \<Rightarrow> u32 \<Rightarrow> 'a cpu_scheme \<Rightarrow> (u32 \<times> u32) res" where
  "ber_octets message 0 x pos s = Inr (x, pos)"
| "ber_octets message (Suc n) x pos s = andthen (load8 (message + pos) s) (\<lambda>b.
     ber_octets message n (push_bit 8 x OR ucast b) (pos + 1) s)"

definition BERDecodeChunkHeader :: "u32 \<Rightarrow> u32 \<Rightarrow> 'a cpu_scheme \<Rightarrow> (u32 \<times> u32 \<times> u32) option res" where
  "BERDecodeChunkHeader message startpos s =
     andthen (load8 (message + startpos) s) (\<lambda>b.
     let id = ucast b :: u32 in
     if id AND 0x1F = 0x1F then Inr None else
     andthen (load8 (message + (startpos + 1)) s) (\<lambda>b.
     let len = ucast b :: u32; pos = startpos + 2 in
     if len AND 0x80 \<noteq> 0 then
       if len = 0x80 then Inr None
       else let len_size = len AND 0x7F in
         if len_size > 2 then Inr None
         else andthen (ber_octets message (unat len_size) 0 pos s) (\<lambda>(len, pos).
                Inr (Some (id, len, pos)))
     else Inr (Some (id, len, pos))))"

definition BERDecodeInteger :: "u32 \<Rightarrow> u32 \<Rightarrow> u32 \<Rightarrow> 'a cpu_scheme \<Rightarrow> (u32 \<times> u32) option res" where
  "BERDecodeInteger message startpos len s =
     (if len > 4 then Inr None
      else andthen (ber_octets message (unat len) 0 startpos s) (\<lambda>(rv, pos). Inr (Some (rv, pos))))"

definition BERDecodeExpectedInteger :: "u32 \<Rightarrow> u32 \<Rightarrow> 'a cpu_scheme \<Rightarrow> (u32 \<times> u32) option res" where
  "BERDecodeExpectedInteger message startpos s =
     andthen (BERDecodeChunkHeader message startpos s) (\<lambda>r. case r of
       None \<Rightarrow> Inr None
     | Some (type, len, pos) \<Rightarrow>
         if type \<noteq> ASN1_TYPE_INTEGER then Inr None
         else BERDecodeInteger message pos len s)"

text \<open>The copy loop \<open>dout[i] = message[pos++]\<close> for \<open>i\<close> from the given index up to \<open>length\<close>.\<close>

fun ber_copy :: "u32 \<Rightarrow> nat \<Rightarrow> nat \<Rightarrow> u32 \<Rightarrow> u8 list \<Rightarrow> 'a cpu_scheme \<Rightarrow> (u8 list \<times> u32) res" where
  "ber_copy message 0 i pos dout s = Inr (dout, pos)"
| "ber_copy message (Suc n) i pos dout s =
     andthen (load8 (message + pos) s) (\<lambda>b.
     andthen (aset dout i b) (\<lambda>dout. ber_copy message n (i + 1) (pos + 1) dout s))"

definition BERDecodeString :: "u32 \<Rightarrow> u32 \<Rightarrow> u32 \<Rightarrow> u32 \<Rightarrow> u8 list \<Rightarrow> 'a cpu_scheme \<Rightarrow>
    (u8 list \<times> u32) option res" where
  "BERDecodeString message startpos len maxlen dout s =
     (if len \<ge> maxlen then Inr None
      else andthen (ber_copy message (unat len) 0 startpos dout s) (\<lambda>(dout, pos).
           andthen (aset dout (unat len) 0) (\<lambda>dout. Inr (Some (dout, pos)))))"

text \<open>
  The inner loop of \<open>BERDecodeOID\<close>. It stops only at an octet below 128. The position is a
  32-bit counter, so a run of \<open>2 ^ 32\<close> octets with the top bit set has seen every position and
  the loop never ends: the fuel \<open>2 ^ 32\<close> is exact, not a bound.
\<close>

fun ber_base128 :: "nat \<Rightarrow> u32 \<Rightarrow> u32 \<Rightarrow> u32 \<Rightarrow> 'a cpu_scheme \<Rightarrow> (u32 \<times> u32) res" where
  "ber_base128 fuel message fval pos s =
     (if fuel = 0 then Inl Hang
      else andthen (load8 (message + pos) s) (\<lambda>val.
        let fval = push_bit 7 fval OR (ucast val AND 0x7F) in
        if val AND 0x80 = 0 then Inr (fval, pos + 1)
        else ber_base128 (fuel - 1) message fval (pos + 1) s))"

declare ber_base128.simps [simp del]

function ber_oid_loop :: "u32 \<Rightarrow> u32 \<Rightarrow> nat \<Rightarrow> u32 \<Rightarrow> nat \<Rightarrow> u32 list \<Rightarrow> 'a cpu_scheme \<Rightarrow>
    (nat \<times> u32 list \<times> u32) option res" where
  "ber_oid_loop message endp nbuflen pos outpos dout s =
     (if pos < endp then
        andthen (ber_base128 (2 ^ 32) message 0 pos s) (\<lambda>(fval, pos).
        if outpos \<ge> nbuflen then Inr None
        else andthen (aset dout outpos fval) (\<lambda>dout.
          ber_oid_loop message endp nbuflen pos (outpos + 1) dout s))
      else Inr (Some (outpos, dout, pos)))"
  by pat_completeness auto
termination
  by (relation "measure (\<lambda>(message, endp, nbuflen, pos, outpos, dout, s). nbuflen - outpos)") auto

declare ber_oid_loop.simps [simp del]

definition BERDecodeOID :: "u32 \<Rightarrow> u32 \<Rightarrow> u32 \<Rightarrow> nat \<Rightarrow> u32 list \<Rightarrow> 'a cpu_scheme \<Rightarrow>
    (nat \<times> u32 list \<times> u32) option res" where
  "BERDecodeOID message startpos len buflen dout s =
     (if buflen < 8 then Inr None
      else let endp = startpos + len in
        andthen (load8 (message + startpos) s) (\<lambda>b.
        if b \<noteq> 0x2b then Inr None
        else andthen (aset dout 0 1) (\<lambda>dout. andthen (aset dout 1 3) (\<lambda>dout.
          ber_oid_loop message endp buflen (startpos + 1) 2 dout s))))"

section \<open>Encoders\<close>

definition BEREncodeInteger :: "u32 \<Rightarrow> u32 \<Rightarrow> u32 \<Rightarrow> 'a cpu_scheme \<Rightarrow> (u32 \<times> 'a cpu_scheme) res" where
  "BEREncodeInteger message startpos data s =
     andthen (emit message startpos (ucast ASN1_TYPE_INTEGER) s) (\<lambda>(startpos, s).
     let lenptr = startpos in
     andthen (emit message startpos 0xcc s) (\<lambda>(startpos, s).
     andthen (if data AND 0xff800000 \<noteq> 0 then emit message startpos (ucast (drop_bit 24 data)) s
              else Inr (startpos, s)) (\<lambda>(startpos, s).
     andthen (if data AND 0x00ff8000 \<noteq> 0 then emit message startpos (ucast (drop_bit 16 data AND 0xff)) s
              else Inr (startpos, s)) (\<lambda>(startpos, s).
     andthen (if data AND 0x0000ff80 \<noteq> 0 then emit message startpos (ucast (drop_bit 8 data AND 0xff)) s
              else Inr (startpos, s)) (\<lambda>(startpos, s).
     andthen (emit message startpos (ucast (data AND 0xff)) s) (\<lambda>(startpos, s).
     andthen (store8 (message + lenptr) (ucast (startpos - (lenptr + 1))) s) (\<lambda>s.
     Inr (startpos, s))))))))"

definition BEREncodeString :: "u32 \<Rightarrow> u32 \<Rightarrow> u8 list \<Rightarrow> 'a cpu_scheme \<Rightarrow> (u32 \<times> 'a cpu_scheme) res" where
  "BEREncodeString message startpos data s =
     andthen (strlen data) (\<lambda>n. let len = of_nat n :: u32 in
     andthen (emit message startpos (ucast ASN1_TYPE_OCTET_STRING) s) (\<lambda>(startpos, s).
     andthen (if len < 128 then emit message startpos (ucast len) s
              else andthen (emit message startpos 0x82 s) (\<lambda>(startpos, s).
                   andthen (emit message startpos (ucast (drop_bit 8 len AND 0xff)) s) (\<lambda>(startpos, s).
                   emit message startpos (ucast (len AND 0xff)) s))) (\<lambda>(startpos, s).
     andthen (strcpy_mem (message + startpos) data s) (\<lambda>s.
     Inr (startpos + len, s)))))"

text \<open>Returns the new position, the address of the length field and the machine.\<close>

definition BEREncodeSequenceHeader :: "u32 \<Rightarrow> u32 \<Rightarrow> u8 \<Rightarrow> 'a cpu_scheme \<Rightarrow>
    (u32 \<times> u32 \<times> 'a cpu_scheme) res" where
  "BEREncodeSequenceHeader message startpos type s =
     andthen (emit message startpos type s) (\<lambda>(startpos, s).
     andthen (emit message startpos 0x82 s) (\<lambda>(startpos, s).
     let len_ptr = startpos in
     andthen (emit message startpos 0xCC s) (\<lambda>(startpos, s).
     andthen (emit message startpos 0xCC s) (\<lambda>(startpos, s).
     Inr (startpos, len_ptr, s)))))"

definition BEREndSequence :: "u32 \<Rightarrow> u32 \<Rightarrow> u32 \<Rightarrow> 'a cpu_scheme \<Rightarrow> 'a cpu_scheme res" where
  "BEREndSequence message startpos lenptr s =
     (let slen = startpos - (lenptr + 2) in
      andthen (store8 (message + lenptr) (ucast (drop_bit 8 slen)) s) (\<lambda>s.
      store8 (message + (lenptr + 1)) (ucast (slen AND 0xFF)) s))"

text \<open>
  One digit of an OID table entry: one to three octets. The test for the third octet is the
  one of the code, \<open>0x3FF\<close>.
\<close>

definition ber_encode_digit :: "u32 \<Rightarrow> u32 \<Rightarrow> u32 \<Rightarrow> 'a cpu_scheme \<Rightarrow> (u32 \<times> 'a cpu_scheme) res" where
  "ber_encode_digit message digit startpos s =
     andthen (if digit > 0x3FF then emit message startpos (ucast (0x80 OR drop_bit 14 digit)) s
              else Inr (startpos, s)) (\<lambda>(startpos, s).
     andthen (if digit > 127 then emit message startpos (ucast (0x80 OR (drop_bit 7 digit AND 0x7F))) s
              else Inr (startpos, s)) (\<lambda>(startpos, s).
     emit message startpos (ucast (digit AND 0x7F)) s))"

definition BEREncodeOID :: "u32 \<Rightarrow> u32 \<Rightarrow> u16 list \<Rightarrow> 'a cpu_scheme \<Rightarrow> (u32 \<times> 'a cpu_scheme) res" where
  "BEREncodeOID message startpos oid_entry s =
     andthen (emit message startpos (ucast ASN1_TYPE_OID) s) (\<lambda>(startpos, s).
     andthen (emit message startpos 0x81 s) (\<lambda>(startpos, s).
     let oid_len_ptr = startpos in
     andthen (emit message startpos 0xCC s) (\<lambda>(startpos, s).
     andthen (emit message startpos 0x2b s) (\<lambda>(startpos, s).
     andthen (emit message startpos 0x6 s) (\<lambda>(startpos, s).
     andthen (emit message startpos 0x1 s) (\<lambda>(startpos, s).
     andthen (aget oid_entry 0) (\<lambda>n.
     andthen (foreach [0..<unat n] (\<lambda>i (startpos, s).
        andthen (aget oid_entry (i + 1)) (\<lambda>digit.
        ber_encode_digit message (ucast digit) startpos s)) (startpos, s)) (\<lambda>(startpos, s).
     andthen (store8 (message + oid_len_ptr) (ucast (startpos - (oid_len_ptr + 1))) s) (\<lambda>s.
     Inr (startpos, s))))))))))"

end
