(* ===== verification/Ber_Spec.thy ===== *)
theory Ber_Spec
  imports Ber
begin

text \<open>
  The encodings as lists of bytes, the proof that the encoders of \<open>BER.c\<close> write exactly these
  lists, and the proof that the decoders read them back. The encoding of integers loses
  interior zero octets; the round trip is characterised exactly (\<open>gap_free\<close>).
\<close>

section \<open>Encodings\<close>

definition ber_content :: "u32 \<Rightarrow> u8 list" where
  "ber_content d =
     (if d AND 0xff800000 \<noteq> 0 then [ucast (drop_bit 24 d)] else []) @
     (if d AND 0x00ff8000 \<noteq> 0 then [ucast (drop_bit 16 d AND 0xff)] else []) @
     (if d AND 0x0000ff80 \<noteq> 0 then [ucast (drop_bit 8 d AND 0xff)] else []) @
     [ucast (d AND 0xff)]"

definition ber_integer :: "u32 \<Rightarrow> u8 list" where
  "ber_integer d = 2 # of_nat (length (ber_content d)) # ber_content d"

definition ber_string :: "u8 list \<Rightarrow> u8 list" where
  "ber_string bs = 4 # (if length bs < 128 then [of_nat (length bs)]
     else [0x82, of_nat (length bs div 256), of_nat (length bs)]) @ bs"

definition ber_digit :: "u32 \<Rightarrow> u8 list" where
  "ber_digit d =
     (if d > 0x3FF then [ucast (0x80 OR drop_bit 14 d)] else []) @
     (if d > 127 then [ucast (0x80 OR (drop_bit 7 d AND 0x7F))] else []) @
     [ucast (d AND 0x7F)]"

definition ber_digits :: "u16 list \<Rightarrow> u8 list" where
  "ber_digits ds = concat (map (\<lambda>d. ber_digit (ucast d)) ds)"

definition ber_oid :: "u16 list \<Rightarrow> u8 list" where
  "ber_oid ds = [6, 0x81, of_nat (3 + length (ber_digits ds)), 0x2b, 6, 1] @ ber_digits ds"

text \<open>A constructed value with the fixed two-octet length of \<open>BEREncodeSequenceHeader\<close>.\<close>

definition ber_seq :: "u8 \<Rightarrow> u8 list \<Rightarrow> u8 list" where
  "ber_seq t body = [t, 0x82, of_nat (length body div 256), of_nat (length body)] @ body"

lemma length_ber_content: "length (ber_content d) \<le> 4" "0 < length (ber_content d)"
  by (simp_all add: ber_content_def)

lemma length_ber_digit: "length (ber_digit d) \<le> 3" "0 < length (ber_digit d)"
  by (simp_all add: ber_digit_def)

lemma length_ber_digits: "length (ber_digits ds) \<le> 3 * length ds"
  by (induction ds) (simp_all add: ber_digits_def add_mono length_ber_digit algebra_simps)

section \<open>The encoders write the encodings\<close>

lemma ucast_of_nat_u8: "(ucast (of_nat n :: u32) :: u8) = of_nat n"
  by (simp add: unsigned_of_nat word_of_nat_eq_iff)

lemma u32_of_nat_hi:
  assumes "n < 65536"
  shows "(ucast (drop_bit 8 (of_nat n :: u32)) :: u8) = of_nat (n div 256)"
proof -
  have "unat (drop_bit 8 (of_nat n :: u32)) = n div 256"
    using assms by (simp only: unat_drop_bit_eq) (simp add: drop_bit_eq_div)
  then have "drop_bit 8 (of_nat n :: u32) = of_nat (n div 256)"
    using assms by (simp only: word_unat_eq_iff) simp
  then show ?thesis by (simp only: ucast_of_nat_u8)
qed

lemma ucast_and_255 [simp]: "(ucast (x AND 255 :: u32) :: u8) = ucast x"
  by (simp add: and_mask_u32) (rule bit_word_eqI, auto simp: bit_simps)

lemma BEREncodeInteger_wrote:
  assumes "room s (message + pos) n" and "length (bs @ ber_integer d) \<le> n"
  shows "BEREncodeInteger message (adv pos bs) d (wrote s (message + pos) bs) =
    Inr (adv pos (bs @ ber_integer d), wrote s (message + pos) (bs @ ber_integer d))"
proof -
  let ?a = "if d AND 0xff800000 \<noteq> 0 then [ucast (drop_bit 24 d)] else [] :: u8 list"
  let ?b = "if d AND 0x00ff8000 \<noteq> 0 then [ucast (drop_bit 16 d AND 0xff)] else [] :: u8 list"
  let ?c = "if d AND 0x0000ff80 \<noteq> 0 then [ucast (drop_bit 8 d AND 0xff)] else [] :: u8 list"
  have len: "length bs + 2 + length ?a + length ?b + length ?c < n"
    using assms(2) by (simp add: ber_integer_def ber_content_def)
  show ?thesis
    using len
    by (simp add: BEREncodeInteger_def Let_def emit_wrote [OF assms(1)] store8_wrote [OF assms(1)]
        emit_if_wrote [OF assms(1)] ber_integer_def ber_content_def split del: if_split)
      (simp add: adv_def list_update_append)
qed

lemma BEREncodeString_wrote:
  assumes "room s (message + pos) n" and "length (bs @ ber_string (c_text data)) \<le> n"
    and "terminated data" and "length (c_text data) < 65536"
  shows "BEREncodeString message (adv pos bs) data (wrote s (message + pos) bs) =
    Inr (adv pos (bs @ ber_string (c_text data)), wrote s (message + pos) (bs @ ber_string (c_text data)))"
proof -
  let ?t = "c_text data" and ?m = "length (c_text data)"
  have m: "(of_nat ?m < (128 :: u32)) = (?m < 128)"
    using assms(4) by (simp add: word_less_nat_alt)
  note hi = u32_of_nat_hi [OF assms(4)]
  show ?thesis
  proof (cases "?m < 128")
    case True
    then show ?thesis
      using assms(2)
      by (simp add: BEREncodeString_def Let_def strlen_text assms(3) m emit_wrote [OF assms(1)]
          strcpy_wrote [OF assms(1)] ber_string_def ucast_of_nat_u8)
        (simp add: adv_def)
  next
    case False
    then show ?thesis
      using assms(2)
      by (simp add: BEREncodeString_def Let_def strlen_text assms(3) m emit_wrote [OF assms(1)]
          strcpy_wrote [OF assms(1)] ber_string_def hi ucast_of_nat_u8)
        (simp add: adv_def)
  qed
qed

lemma BEREncodeSequenceHeader_wrote:
  assumes "room s (message + pos) n" and "length bs + 4 \<le> n"
  shows "BEREncodeSequenceHeader message (adv pos bs) t (wrote s (message + pos) bs) =
    Inr (adv pos (bs @ [t, 0x82, 0xCC, 0xCC]), adv pos (bs @ [t, 0x82]),
         wrote s (message + pos) (bs @ [t, 0x82, 0xCC, 0xCC]))"
  using assms(2) by (simp add: BEREncodeSequenceHeader_def Let_def emit_wrote [OF assms(1)])

lemma BEREndSequence_wrote:
  assumes "room s (message + pos) n" and "length (pre @ [t, 0x82, 0xCC, 0xCC] @ body) \<le> n"
    and "length body < 65536"
  shows "BEREndSequence message (adv pos (pre @ [t, 0x82, 0xCC, 0xCC] @ body)) (adv pos (pre @ [t, 0x82]))
      (wrote s (message + pos) (pre @ [t, 0x82, 0xCC, 0xCC] @ body)) =
    Inr (wrote s (message + pos) (pre @ ber_seq t body))"
proof -
  have slen: "adv pos (pre @ [t, 0x82, 0xCC, 0xCC] @ body) - (adv pos (pre @ [t, 0x82]) + 2) =
      of_nat (length body)"
    by (simp add: adv_def)
  have nxt: "adv pos (pre @ [t, 0x82]) + 1 = adv pos (pre @ [t, 0x82, 0xCC])"
    by (simp add: adv_def)
  show ?thesis
    unfolding BEREndSequence_def Let_def slen nxt
    using assms(2)
    by (simp add: store8_wrote [OF assms(1)] u32_of_nat_hi [OF assms(3)] ucast_of_nat_u8
        ber_seq_def list_update_append)
qed

lemma ber_encode_digit_wrote:
  assumes "room s (message + pos) n" and "length (bs @ ber_digit d) \<le> n"
  shows "ber_encode_digit message d (adv pos bs) (wrote s (message + pos) bs) =
    Inr (adv pos (bs @ ber_digit d), wrote s (message + pos) (bs @ ber_digit d))"
  using assms(2)
  by (simp add: ber_encode_digit_def ber_digit_def emit_wrote [OF assms(1)] emit_if_wrote [OF assms(1)]
      split del: if_split)

lemma drop_eq_ConsD: "drop k xs = (y # ys) @ zs \<Longrightarrow> k < length xs \<and> xs ! k = y \<and> drop (Suc k) xs = ys @ zs"
  by (cases "k < length xs") (auto simp: Cons_nth_drop_Suc [symmetric])

lemma foreach_digits_wrote:
  assumes "room s (message + pos) n" and "length (bs @ ber_digits ds) \<le> n"
    and "drop (Suc k) oid_entry = ds @ rest"
  shows "foreach [k..<k + length ds] (\<lambda>i (startpos, s).
        andthen (aget oid_entry (i + 1)) (\<lambda>digit.
        ber_encode_digit message (ucast digit) startpos s)) (adv pos bs, wrote s (message + pos) bs) =
    Inr (adv pos (bs @ ber_digits ds), wrote s (message + pos) (bs @ ber_digits ds))"
  using assms(2,3)
proof (induction ds arbitrary: bs k)
  case Nil
  then show ?case by (simp add: ber_digits_def)
next
  case (Cons d ds)
  have k: "Suc k < length oid_entry" "oid_entry ! Suc k = d" "drop (Suc (Suc k)) oid_entry = ds @ rest"
    using drop_eq_ConsD [OF Cons.prems(2)] by simp_all
  have "[k..<k + length (d # ds)] = k # [Suc k..<Suc k + length ds]"
    by (simp add: upt_conv_Cons del: upt_Suc)
  moreover have "length (bs @ ber_digit (ucast d)) \<le> n"
    using Cons.prems(1) by (simp add: ber_digits_def)
  ultimately show ?case
    using Cons.IH [of "bs @ ber_digit (ucast d)" "Suc k"] Cons.prems(1) k
    by (simp add: ber_encode_digit_wrote [OF assms(1)] ber_digits_def del: upt_Suc)
qed

lemma BEREncodeOID_wrote:
  assumes "room s (message + pos) n" and "length (bs @ ber_oid ds) \<le> n"
    and "oid_entry = of_nat (length ds) # ds @ rest" and "length ds < 80"
  shows "BEREncodeOID message (adv pos bs) oid_entry (wrote s (message + pos) bs) =
    Inr (adv pos (bs @ ber_oid ds), wrote s (message + pos) (bs @ ber_oid ds))"
proof -
  have u: "unat (of_nat (length ds) :: u16) = length ds"
    using assms(4) by (simp add: unat_of_nat take_bit_nat_eq_self)
  have loop: "foreach [0..<length ds] (\<lambda>i (startpos, s).
        andthen (aget oid_entry (i + 1)) (\<lambda>digit.
        ber_encode_digit message (ucast digit) startpos s))
        (adv pos (bs @ [6, 0x81, 0xCC, 0x2b, 6, 1]), wrote s (message + pos) (bs @ [6, 0x81, 0xCC, 0x2b, 6, 1])) =
    Inr (adv pos (bs @ [6, 0x81, 0xCC, 0x2b, 6, 1] @ ber_digits ds),
      wrote s (message + pos) (bs @ [6, 0x81, 0xCC, 0x2b, 6, 1] @ ber_digits ds))"
    using foreach_digits_wrote [OF assms(1), of "bs @ [6, 0x81, 0xCC, 0x2b, 6, 1]" ds 0 oid_entry rest]
      assms(2,3) by (simp add: ber_oid_def)
  have len: "adv pos (bs @ [6, 0x81, 0xCC, 0x2b, 6, 1] @ ber_digits ds) - (adv pos (bs @ [6, 0x81]) + 1) =
      of_nat (3 + length (ber_digits ds))"
    by (simp add: adv_def)
  have "aget oid_entry 0 = Inr (of_nat (length ds))" using assms(3) by simp
  then show ?thesis
    using assms(2) loop u len
    by (simp add: BEREncodeOID_def Let_def emit_wrote [OF assms(1)] store8_wrote [OF assms(1)]
        ber_oid_def ucast_of_nat_u8 del: of_nat_add)
      (simp add: adv_def list_update_append ucast_of_nat_u8)
qed

section \<open>The decoders read the encodings\<close>

definition be_value :: "u32 \<Rightarrow> u8 list \<Rightarrow> u32" where
  "be_value x bs = foldl (\<lambda>x b. push_bit 8 x OR ucast b) x bs"

lemma ber_octets_reads:
  "reads s (message + pos) bs \<Longrightarrow>
   ber_octets message (length bs) x pos s = Inr (be_value x bs, adv pos bs)"
proof (induction bs arbitrary: x pos)
  case Nil
  then show ?case by (simp add: be_value_def adv_def)
next
  case (Cons b bs)
  then show ?case by (simp add: reads_Cons be_value_def adv_def algebra_simps)
qed

lemma header_short:
  assumes "reads s (message + pos) [t, n]" and "t AND 0x1F \<noteq> 0x1F" and "n < 128"
  shows "BERDecodeChunkHeader message pos s = Inr (Some (ucast t, ucast n, adv pos [t, n]))"
  using assms
  by (simp add: BERDecodeChunkHeader_def Let_def reads_Cons adv_def u8_and ucast_u8_const
      u8_top_bit algebra_simps)

lemma header_long:
  assumes "reads s (message + pos) (t # n # bs)" and "t AND 0x1F \<noteq> 0x1F"
    and "n = 0x80 + of_nat (length bs)" and "length bs \<in> {1, 2}"
  shows "BERDecodeChunkHeader message pos s =
    Inr (Some (ucast t, be_value 0 bs, adv pos (t # n # bs)))"
proof -
  have n: "n = 0x81 \<and> length bs = 1 \<or> n = 0x82 \<and> length bs = 2" using assms(3,4) by auto
  have oct: "ber_octets message (length bs) 0 (pos + 2) s = Inr (be_value 0 bs, adv (pos + 2) bs)"
    using assms(1) by (intro ber_octets_reads) (simp add: reads_Cons algebra_simps)
  have l: "load8 (message + pos) s = Inr t" "load8 (message + (pos + 1)) s = Inr n"
    using assms(1) by (simp_all add: reads_Cons algebra_simps)
  have "adv (pos + 2) bs = adv pos (t # n # bs)" by (simp add: adv_def)
  then show ?thesis
    using n oct
    by (elim disjE) (simp_all add: BERDecodeChunkHeader_def Let_def l u8_and ucast_u8_const assms(2))
qed

lemma length_ber_content_word:
  "of_nat (length (ber_content d)) < (128 :: u8)"
  "unat (ucast (of_nat (length (ber_content d)) :: u8) :: u32) = length (ber_content d)"
  "\<not> (4 :: u32) < ucast (of_nat (length (ber_content d)) :: u8)"
proof -
  have "length (ber_content d) = 1 \<or> length (ber_content d) = 2 \<or>
      length (ber_content d) = 3 \<or> length (ber_content d) = 4"
    using length_ber_content [of d] by linarith
  then show "of_nat (length (ber_content d)) < (128 :: u8)"
    "unat (ucast (of_nat (length (ber_content d)) :: u8) :: u32) = length (ber_content d)"
    "\<not> (4 :: u32) < ucast (of_nat (length (ber_content d)) :: u8)"
    by (auto simp: word_less_nat_alt)
qed

lemma BERDecodeExpectedInteger_reads:
  assumes "reads s (message + pos) (ber_integer d)"
  shows "BERDecodeExpectedInteger message pos s =
    Inr (Some (be_value 0 (ber_content d), adv pos (ber_integer d)))"
proof -
  let ?n = "of_nat (length (ber_content d)) :: u8"
  have r: "reads s (message + pos) [2, ?n]" "reads s (message + (pos + 2)) (ber_content d)"
    using assms by (simp_all add: ber_integer_def reads_Cons algebra_simps)
  have h: "BERDecodeChunkHeader message pos s = Inr (Some (2, ucast ?n, pos + 2))"
    using header_short [OF r(1) _ length_ber_content_word(1)] by (simp add: adv_def)
  show ?thesis
    using ber_octets_reads [OF r(2), of 0] length_ber_content_word [of d]
    by (simp add: BERDecodeExpectedInteger_def BERDecodeInteger_def h ber_integer_def adv_def algebra_simps)
qed

section \<open>Which integers survive\<close>

definition gap_free :: "u32 \<Rightarrow> bool" where
  "gap_free d \<longleftrightarrow> (d AND 0xff800000 \<noteq> 0 \<longrightarrow> d AND 0x00ff8000 \<noteq> 0) \<and>
     (d AND 0x00ff8000 \<noteq> 0 \<longrightarrow> d AND 0x0000ff80 \<noteq> 0)"

lemma and_run_zero:
  fixes d :: u32
  shows "d AND push_bit k (mask m) = 0 \<longleftrightarrow> (\<forall>n. k \<le> n \<and> n < k + m \<and> n < 32 \<longrightarrow> \<not> bit d n)"
  by (auto simp: bit_eq_iff bit_simps dest: less_imp_le_nat)

lemma gap_bits:
  fixes d :: u32
  shows "d AND 0xff800000 = 0 \<longleftrightarrow> (\<forall>n. 23 \<le> n \<and> n < 32 \<longrightarrow> \<not> bit d n)"
    "d AND 0x00ff8000 = 0 \<longleftrightarrow> (\<forall>n. 15 \<le> n \<and> n < 24 \<longrightarrow> \<not> bit d n)"
    "d AND 0x0000ff80 = 0 \<longleftrightarrow> (\<forall>n. 7 \<le> n \<and> n < 16 \<longrightarrow> \<not> bit d n)"
proof -
  have m: "(0xff800000 :: u32) = push_bit 23 (mask 9)" "(0x00ff8000 :: u32) = push_bit 15 (mask 9)"
    "(0x0000ff80 :: u32) = push_bit 7 (mask 9)" by (simp_all add: mask_numeral)
  show "d AND 0xff800000 = 0 \<longleftrightarrow> (\<forall>n. 23 \<le> n \<and> n < 32 \<longrightarrow> \<not> bit d n)"
    unfolding m and_run_zero by auto
  show "d AND 0x00ff8000 = 0 \<longleftrightarrow> (\<forall>n. 15 \<le> n \<and> n < 24 \<longrightarrow> \<not> bit d n)"
    unfolding m and_run_zero by auto
  show "d AND 0x0000ff80 = 0 \<longleftrightarrow> (\<forall>n. 7 \<le> n \<and> n < 16 \<longrightarrow> \<not> bit d n)"
    unfolding m and_run_zero by auto
qed

lemma bit_be_value_snoc:
  "bit (be_value x (bs @ [b])) n \<longleftrightarrow> (if n < 8 then bit b n else n < 32 \<and> bit (be_value x bs) (n - 8))"
  by (auto simp: be_value_def bit_simps dest: bit_imp_le_length)

lemma bit_be_value1: "bit (be_value 0 [b]) n \<longleftrightarrow> n < 8 \<and> bit b n"
  by (auto simp: be_value_def bit_simps dest: bit_imp_le_length)

lemma bit_be_value2:
  "bit (be_value 0 [c, b]) n \<longleftrightarrow> (if n < 8 then bit b n else n < 16 \<and> bit c (n - 8))"
  using bit_be_value_snoc [of 0 "[c]" b n] by (auto simp: bit_be_value1)

lemma bit_be_value3:
  "bit (be_value 0 [d, c, b]) n \<longleftrightarrow> (if n < 8 then bit b n else if n < 16 then bit c (n - 8)
     else n < 24 \<and> bit d (n - 16))"
  using bit_be_value_snoc [of 0 "[d, c]" b n] by (auto simp: bit_be_value2)

lemma bit_be_value4:
  "bit (be_value 0 [e, d, c, b]) n \<longleftrightarrow> (if n < 8 then bit b n else if n < 16 then bit c (n - 8)
     else if n < 24 then bit d (n - 16) else n < 32 \<and> bit e (n - 24))"
  using bit_be_value_snoc [of 0 "[e, d, c]" b n] by (auto simp: bit_be_value3)

lemmas bit_be_value_more = bit_be_value2 bit_be_value3 bit_be_value4

lemma bit_content_byte:
  fixes d :: u32
  shows "bit (ucast (drop_bit k d) :: u8) n \<longleftrightarrow> n < 8 \<and> bit d (k + n)"
    "bit (ucast (drop_bit k d AND 255) :: u8) n \<longleftrightarrow> n < 8 \<and> bit d (k + n)"
    "bit (ucast (d AND 255) :: u8) n \<longleftrightarrow> n < 8 \<and> bit d n"
  by (auto simp: bit_unsigned_iff bit_drop_bit_eq dest: bit_imp_le_length)

lemma content_value_bits:
  fixes d :: u32
  defines "ah \<equiv> d AND 0xff800000 \<noteq> 0" and "bh \<equiv> d AND 0x00ff8000 \<noteq> 0" and "ch \<equiv> d AND 0x0000ff80 \<noteq> 0"
  shows "ah \<Longrightarrow> bh \<Longrightarrow> ch \<Longrightarrow> be_value 0 (ber_content d) = d"
    "ah \<Longrightarrow> bh \<Longrightarrow> \<not> ch \<Longrightarrow> 16 \<le> n \<Longrightarrow> n < 24 \<Longrightarrow> bit (be_value 0 (ber_content d)) n = bit d (8 + n)"
    "\<not> ah \<Longrightarrow> bh \<Longrightarrow> ch \<Longrightarrow> bit (be_value 0 (ber_content d)) n \<longleftrightarrow> n < 24 \<and> bit d n"
    "ah \<Longrightarrow> \<not> (bh \<and> ch) \<Longrightarrow> 24 \<le> n \<Longrightarrow> \<not> bit (be_value 0 (ber_content d)) n"
    "\<not> ah \<Longrightarrow> \<not> (bh \<and> ch) \<Longrightarrow> 16 \<le> n \<Longrightarrow> \<not> bit (be_value 0 (ber_content d)) n"
    "\<not> ah \<Longrightarrow> \<not> bh \<Longrightarrow> ch \<Longrightarrow> bit (be_value 0 (ber_content d)) n \<longleftrightarrow> n < 16 \<and> bit d n"
    "\<not> ah \<Longrightarrow> \<not> bh \<Longrightarrow> \<not> ch \<Longrightarrow> bit (be_value 0 (ber_content d)) n \<longleftrightarrow> n < 8 \<and> bit d n"
  subgoal unfolding ah_def bh_def ch_def
    by (rule bit_word_eqI) (auto simp: ber_content_def bit_be_value_more bit_content_byte bit_drop_bit_eq
      simp del: ucast_and_255)
  unfolding ah_def bh_def ch_def
  by (auto simp add: ber_content_def bit_be_value1 bit_be_value_more bit_content_byte bit_drop_bit_eq
    simp del: ucast_and_255)

lemma content_value_iff: "be_value 0 (ber_content d) = d \<longleftrightarrow> gap_free d"
proof -
  let ?v = "be_value 0 (ber_content d)"
  have eqI: "?v = d" if "\<And>n. n < 32 \<Longrightarrow> bit ?v n = bit d n" using that by (intro bit_word_eqI) simp
  note bits = content_value_bits [of d] and gaps = gap_bits [of d]
  consider "d AND 0xff800000 \<noteq> 0" "d AND 0x00ff8000 \<noteq> 0" "d AND 0x0000ff80 \<noteq> 0"
    | "d AND 0xff800000 \<noteq> 0" "d AND 0x00ff8000 = 0"
    | "d AND 0xff800000 \<noteq> 0" "d AND 0x00ff8000 \<noteq> 0" "d AND 0x0000ff80 = 0"
    | "d AND 0xff800000 = 0" "d AND 0x00ff8000 \<noteq> 0" "d AND 0x0000ff80 \<noteq> 0"
    | "d AND 0xff800000 = 0" "d AND 0x00ff8000 \<noteq> 0" "d AND 0x0000ff80 = 0"
    | "d AND 0xff800000 = 0" "d AND 0x00ff8000 = 0" by blast
  then show ?thesis
  proof cases
    case 1
    then show ?thesis using bits(1) by (simp add: gap_free_def)
  next
    case 2
    have "?v \<noteq> d"
    proof
      assume v: "?v = d"
      have "\<not> bit d n" if "23 \<le> n" "n < 32" for n
        using bits(4) [of n] 2 gaps(2) that v by (cases "n = 23") auto
      then show False using gaps(1) 2 by blast
    qed
    then show ?thesis using 2 by (simp add: gap_free_def)
  next
    case 3
    have "?v \<noteq> d"
    proof
      assume v: "?v = d"
      have hi: "\<not> bit d n" if "24 \<le> n" for n using bits(4) [of n] 3 that v by auto
      have "\<not> bit d n" if "16 \<le> n" "n < 24" for n using bits(2) [of n] 3 hi [of "8 + n"] that v by auto
      with hi have "\<not> bit d n" if "23 \<le> n" "n < 32" for n using that by (cases "n < 24") auto
      then show False using gaps(1) 3 by blast
    qed
    then show ?thesis using 3 by (simp add: gap_free_def)
  next
    case 4
    have "?v = d"
    proof (rule eqI)
      fix n :: nat
      assume "n < 32"
      then show "bit ?v n = bit d n" using bits(3) [of n] 4 gaps(1) by (cases "n < 24") auto
    qed
    then show ?thesis using 4 by (simp add: gap_free_def)
  next
    case 5
    have "?v \<noteq> d"
    proof
      assume v: "?v = d"
      have "\<not> bit d n" if "15 \<le> n" "n < 24" for n
        using bits(5) [of n] 5 gaps(3) that v by (cases "n = 15") auto
      then show False using gaps(2) 5 by blast
    qed
    then show ?thesis using 5 by (simp add: gap_free_def)
  next
    case 6
    have hi: "\<not> bit d n" if "15 \<le> n" "n < 32" for n using gaps(1,2) 6 that by (cases "n < 24") auto
    have "?v = d"
    proof (cases "d AND 0x0000ff80 = 0")
      case True
      then have lo: "\<not> bit d n" if "7 \<le> n" "n < 32" for n using hi gaps(3) that by (cases "n < 16") auto
      show ?thesis
      proof (rule eqI)
        fix n :: nat
        assume "n < 32"
        then show "bit ?v n = bit d n" using bits(7) [of n] 6 True lo [of n] by (cases "n < 8") auto
      qed
    next
      case False
      show ?thesis
      proof (rule eqI)
        fix n :: nat
        assume "n < 32"
        then show "bit ?v n = bit d n" using bits(6) [of n] 6 False hi [of n] by (cases "n < 16") auto
      qed
    qed
    then show ?thesis using 6 by (simp add: gap_free_def)
  qed
qed

section \<open>Strings and object identifiers survive\<close>

lemma ber_copy_reads:
  "reads s (message + pos) bs \<Longrightarrow> i + length bs \<le> length dout \<Longrightarrow>
   ber_copy message (length bs) i pos dout s =
     Inr (take i dout @ bs @ drop (i + length bs) dout, adv pos bs)"
proof (induction bs arbitrary: i pos dout)
  case Nil
  then show ?case by (simp add: adv_def)
next
  case (Cons b bs)
  from Cons.prems have r: "load8 (message + pos) s = Inr b" "reads s (message + (pos + 1)) bs"
    by (simp_all add: reads_Cons algebra_simps)
  have "take (Suc i) (dout[i := b]) = take i dout @ [b]"
    using Cons.prems(2) by (simp add: take_Suc_conv_app_nth)
  then show ?case
    using Cons.prems r Cons.IH [OF r(2), of "Suc i" "dout[i := b]"] by (simp add: adv_def algebra_simps)
qed

lemma BERDecodeString_reads:
  assumes "reads s (message + pos) bs" and "length bs < unat maxlen" and "unat maxlen \<le> length dout"
    and "len = of_nat (length bs)"
  shows "BERDecodeString message pos len maxlen dout s =
    Inr (Some (bs @ 0 # drop (Suc (length bs)) dout, adv pos bs))"
proof -
  have u: "unat len = length bs"
    using assms(2,4) unat_u32_bound [of maxlen] by simp
  have "\<not> len \<ge> maxlen" using assms(2) u by (simp add: word_le_nat_alt)
  moreover have "ber_copy message (length bs) 0 pos dout s = Inr (bs @ drop (length bs) dout, adv pos bs)"
    using ber_copy_reads [OF assms(1), of 0 dout] assms(2,3) by simp
  moreover have "(bs @ drop (length bs) dout)[length bs := 0] = bs @ 0 # drop (Suc (length bs)) dout"
    using assms(2,3) by (simp add: list_update_append Cons_nth_drop_Suc [symmetric])
  ultimately show ?thesis using assms(2,3) by (simp add: BERDecodeString_def u)
qed

lemma ber_base128_end:
  "load8 (message + pos) s = Inr v \<Longrightarrow> v AND 0x80 = 0 \<Longrightarrow> 0 < fuel \<Longrightarrow>
   ber_base128 fuel message x pos s = Inr (push_bit 7 x OR (ucast v AND 0x7F), pos + 1)"
  by (subst ber_base128.simps) (simp add: Let_def)

lemma ber_base128_more:
  "load8 (message + pos) s = Inr v \<Longrightarrow> v AND 0x80 \<noteq> 0 \<Longrightarrow> 0 < fuel \<Longrightarrow>
   ber_base128 fuel message x pos s =
     ber_base128 (fuel - 1) message (push_bit 7 x OR (ucast v AND 0x7F)) (pos + 1) s"
  by (subst ber_base128.simps) (simp add: Let_def)

lemma digit_octets:
  fixes x :: u32
  shows "(ucast (0x80 OR x) :: u8) AND 0x80 \<noteq> 0" "(ucast (x AND 0x7F) :: u8) AND 0x80 = 0"
    "ucast (ucast (0x80 OR x) :: u8) AND 0x7F = x AND 0x7F"
    "ucast (ucast (x AND 0x7F) :: u8) AND 0x7F = x AND 0x7F"
  by (auto simp: word_bits_iff bit_septet bit_and_iff bit_or_iff bit_unsigned_iff)

lemma base128_value:
  fixes d :: u32
  assumes "d < 65536"
  shows "push_bit 7 (push_bit 7 (drop_bit 14 d AND 0x7F) OR (drop_bit 7 d AND 0x7F)) OR (d AND 0x7F) = d"
    (is "?three = d")
    and "d \<le> 0x3FF \<Longrightarrow> push_bit 7 (drop_bit 7 d AND 0x7F) OR (d AND 0x7F) = d" (is "_ \<Longrightarrow> ?two = d")
    and "d \<le> 127 \<Longrightarrow> d AND 0x7F = d"
proof -
  have bits: "n < k" if "bit d n" "unat d < 2 ^ k" for n k
  proof -
    have "take_bit k (unat d) = unat d" using that(2) by (simp add: take_bit_nat_eq_self)
    then show "n < k"
      using that(1) bit_take_bit_iff [of k "unat d" n] by (simp add: bit_unsigned_iff)
  qed
  have s: "unat d < 2 ^ 16" using assms by (simp add: word_less_nat_alt)
  note masks = and_mask_u32 bit_take_bit_iff bit_or_iff bit_push_bit_iff bit_drop_bit_eq
  have "bit ?three n = bit d n" if "n < 32" for n
    using bits [OF _ s, of n] that
    by (cases "n < 7"; cases "n < 14") (auto simp: masks simp del: push_bit_numeral push_bit_push_bit)
  then show "?three = d" by (intro bit_word_eqI) simp
  show "?two = d" if "d \<le> 0x3FF"
  proof (rule bit_word_eqI)
    fix n :: nat
    assume "n < LENGTH(32)"
    have s: "unat d < 2 ^ 10" using that by (simp add: word_le_nat_alt)
    show "bit ?two n = bit d n" using bits [OF _ s, of n] \<open>n < LENGTH(32)\<close>
      by (cases "n < 7") (auto simp: masks)
  qed
  show "d AND 0x7F = d" if "d \<le> 127"
    using that by (simp add: and_mask_u32 take_bit_eq_mod word_unat_eq_iff unat_mod_distrib word_le_nat_alt)
qed

lemma ber_base128_digit:
  assumes r: "reads s (message + pos) (ber_digit d)" and "d < 65536" and f: "3 \<le> fuel"
  shows "ber_base128 fuel message 0 pos s = Inr (d, adv pos (ber_digit d))"
proof -
  note val = base128_value [OF assms(2)]
  let ?a = "ucast (0x80 OR drop_bit 14 d) :: u8"
  let ?b = "ucast (0x80 OR (drop_bit 7 d AND 0x7F)) :: u8"
  let ?c = "ucast (d AND 0x7F) :: u8"
  have b: "ucast ?b AND 0x7F = drop_bit 7 d AND (0x7F :: u32)" unfolding digit_octets by simp
  consider "d \<le> 127" | "127 < d" "d \<le> 0x3FF" | "0x3FF < d" by force
  then show ?thesis
  proof cases
    case 1
    then have "\<not> d > 0x3FF" by (simp add: word_le_nat_alt word_less_nat_alt)
    with 1 have "ber_digit d = [?c]" by (auto simp: ber_digit_def)
    with r have "load8 (message + pos) s = Inr ?c" by (simp add: reads_Cons)
    from ber_base128_end [OF this digit_octets(2), of fuel 0] show ?thesis
      unfolding digit_octets \<open>ber_digit d = [?c]\<close> using f val(3) 1 by (simp add: adv_def)
  next
    case 2
    then have e: "ber_digit d = [?b, ?c]" by (auto simp: ber_digit_def)
    with r have "load8 (message + pos) s = Inr ?b" "load8 (message + (pos + 1)) s = Inr ?c"
      by (simp_all add: reads_Cons algebra_simps)
    then show ?thesis
      using ber_base128_more [of message pos s ?b fuel 0] b
        ber_base128_end [of message "pos + 1" s ?c "fuel - 1" "drop_bit 7 d AND 0x7F"] f val(2) 2
      by (simp add: digit_octets adv_def e)
  next
    case 3
    have "(127 :: u32) < 0x3FF" by simp
    from less_trans [OF this 3] have e: "ber_digit d = [?a, ?b, ?c]" using 3 by (simp add: ber_digit_def)
    with r have "load8 (message + pos) s = Inr ?a" "load8 (message + (pos + 1)) s = Inr ?b"
      "load8 (message + (pos + 2)) s = Inr ?c"
      by (simp_all add: reads_Cons algebra_simps)
    then show ?thesis
      using ber_base128_more [of message pos s ?a fuel 0] b
        ber_base128_more [of message "pos + 1" s ?b "fuel - 1" "drop_bit 14 d AND 0x7F"]
        ber_base128_end [of message "pos + 2" s ?c "fuel - 1 - 1"
          "push_bit 7 (drop_bit 14 d AND 0x7F) OR (drop_bit 7 d AND 0x7F)"] f val(1)
      by (simp add: digit_octets adv_def e add.commute)
  qed
qed


lemma ber_oid_loop_reads:
  assumes "reads s (message + pos) (ber_digits ds)" and "outpos + length ds \<le> nbuflen"
    and "nbuflen \<le> length dout" and "unat pos + length (ber_digits ds) = unat endp"
  shows "ber_oid_loop message endp nbuflen pos outpos dout s =
    Inr (Some (outpos + length ds,
      take outpos dout @ map ucast ds @ drop (outpos + length ds) dout, endp))"
  using assms
proof (induction ds arbitrary: pos outpos dout)
  case Nil
  then have "pos = endp" by (simp add: ber_digits_def word_unat_eq_iff)
  then show ?case by (subst ber_oid_loop.simps) simp
next
  case (Cons d ds)
  let ?b = "ber_digit (ucast d)"
  from Cons.prems(1) have r: "reads s (message + pos) ?b"
      "reads s (message + (pos + of_nat (length ?b))) (ber_digits ds)"
    by (simp_all add: ber_digits_def reads_append algebra_simps)
  have len: "unat pos + length ?b + length (ber_digits ds) = unat endp"
    using Cons.prems(4) by (simp add: ber_digits_def)
  have next_pos: "unat (pos + of_nat (length ?b)) = unat pos + length ?b"
    using len unat_u32_bound [of endp]
    by (simp add: unat_word_ariths unat_of_nat mod_add_right_eq mod_add_left_eq)
  have lt: "pos < endp" using len length_ber_digit(2) [of "ucast d"]
    unfolding word_less_nat_alt by linarith
  have "unat d < 2 ^ LENGTH(16)" by (rule unsigned_less)
  then have small: "(ucast d :: u32) < 65536"
    by (simp add: word_less_nat_alt unsigned_ucast_eq take_bit_nat_eq_self)
  have o: "outpos < nbuflen" "outpos < length dout" using Cons.prems(2,3) by simp_all
  have tk: "take (Suc outpos) (dout[outpos := ucast d]) = take outpos dout @ [ucast d]"
    using o by (simp add: take_Suc_conv_app_nth)
  have tl: "ber_oid_loop message endp nbuflen (pos + of_nat (length ?b)) (outpos + 1) (dout[outpos := ucast d]) s
     = Inr (Some (outpos + 1 + length ds, take (outpos + 1) (dout[outpos := ucast d]) @ map ucast ds @
       drop (outpos + 1 + length ds) (dout[outpos := ucast d]), endp))"
    by (rule Cons.IH) (use r Cons.prems(2,3) len next_pos in simp_all)
  have b: "ber_base128 (2 ^ 32) message 0 pos s = Inr (ucast d, pos + of_nat (length ?b))"
    using ber_base128_digit [OF r(1) small, of "2 ^ 32"] by (simp add: adv_def)
  show ?case
    by (subst ber_oid_loop.simps) (simp only: b lt if_True andthen_simps prod.case, use tl tk o in simp)
qed

lemma BERDecodeOID_reads:
  assumes r: "reads s (message + pos) (ber_oid ds)" and len: "length ds \<le> 60"
    and "4 + length ds \<le> buflen" and "8 \<le> buflen" and "buflen \<le> length dout"
    and "unat pos + length (ber_oid ds) < 4294967296"
  shows "BERDecodeChunkHeader message pos s =
      Inr (Some (ASN1_TYPE_OID, of_nat (3 + length (ber_digits ds)), pos + 3))"
    "BERDecodeOID message (pos + 3) (of_nat (3 + length (ber_digits ds))) buflen dout s =
      Inr (Some (4 + length ds, [1, 3, 6, 1] @ map ucast ds @ drop (4 + length ds) dout,
        adv pos (ber_oid ds)))"
proof -
  let ?n = "3 + length (ber_digits ds)"
  have n: "?n < 256" using length_ber_digits [of ds] len by simp
  have r': "reads s (message + pos) [6, 0x81, of_nat ?n]" "load8 (message + (pos + 3)) s = Inr 0x2b"
    "reads s (message + (pos + 4)) (ber_digits ([6, 1] @ ds))"
  proof -
    have "ber_oid ds = [6, 0x81, of_nat ?n] @ 0x2b # ber_digits ([6, 1] @ ds)"
      by (simp add: ber_oid_def ber_digits_def ber_digit_def)
    with r have "reads s (message + pos) [6, 0x81, of_nat ?n]"
        "reads s (message + (pos + 3)) (0x2b # ber_digits ([6, 1] @ ds))"
      by (simp_all only: reads_append) (simp add: add.assoc)
    moreover have "message + (pos + 3) + 1 = message + (pos + 4)" by simp
    ultimately show "reads s (message + pos) [6, 0x81, of_nat ?n]" "load8 (message + (pos + 3)) s = Inr 0x2b"
      "reads s (message + (pos + 4)) (ber_digits ([6, 1] @ ds))"
      by (simp_all only: reads_Cons)
  qed
  show "BERDecodeChunkHeader message pos s = Inr (Some (ASN1_TYPE_OID, of_nat ?n, pos + 3))"
  proof -
    have u: "be_value 0 [of_nat ?n] = of_nat ?n"
      unfolding be_value_def word_unat_eq_iff using n
      by (simp add: unsigned_ucast_eq unsigned_of_nat take_bit_nat_eq_self del: of_nat_add of_nat_numeral)
    have "BERDecodeChunkHeader message pos s =
        Inr (Some (ucast (6 :: u8), be_value 0 [of_nat ?n], adv pos [6, 0x81, of_nat ?n]))"
      by (rule header_long [OF r'(1)]) simp_all
    then show ?thesis unfolding u by (simp add: adv_def)
  qed
  have b: "unat pos + (3 + ?n) < 4294967296" using assms(6) by (simp add: ber_oid_def)
  have d6: "length (ber_digits ([6, 1] @ ds)) = length (ber_digits ds) + 2"
    by (simp add: ber_digits_def ber_digit_def)
  have "unat (pos + of_nat 4) = unat pos + 4" "unat (pos + of_nat (3 + ?n)) = unat pos + (3 + ?n)"
    by (rule unat_add_of_nat, use b in linarith)+
  then have e: "unat (pos + 4) + length (ber_digits ([6, 1] @ ds)) = unat (pos + 3 + of_nat ?n)"
    unfolding d6 by (simp add: add.assoc)
  have l: "0 < length dout" "1 < length dout" using assms(4,5) by linarith+
  have tk: "take 2 (dout[0 := 1, 1 := 3]) = [1, 3]"
    using l by (cases dout; cases "tl dout") (auto simp: numeral_2_eq_2)
  have Suc4: "Suc (Suc (Suc (Suc n))) = 4 + n" for n by simp
  have four: "pos + 3 + 1 = pos + 4" by simp
  have rest: "ber_oid_loop message (pos + 3 + of_nat ?n) buflen (pos + 4) 2 (dout[0 := 1, 1 := 3]) s =
      Inr (Some (4 + length ds, [1, 3, 6, 1] @ map ucast ds @ drop (4 + length ds) dout,
        pos + 3 + of_nat ?n))"
    by (subst ber_oid_loop_reads [OF r'(3)]) (use e assms(3-5) tk in \<open>simp_all add: Suc4\<close>)
  have ends: "adv pos (ber_oid ds) = pos + 3 + of_nat ?n"
    by (simp add: adv_def ber_oid_def)
  show "BERDecodeOID message (pos + 3) (of_nat ?n) buflen dout s =
      Inr (Some (4 + length ds, [1, 3, 6, 1] @ map ucast ds @ drop (4 + length ds) dout,
        adv pos (ber_oid ds)))"
    unfolding ends rest [symmetric]
    using assms(4) l unfolding BERDecodeOID_def Let_def r'(2) four by (simp add: aset_def)
qed

lemma reads_encoded:
  assumes "room s a n" and "spans (can_read s) a n" and "length bs \<le> n"
  shows "reads (wrote s a bs) a bs"
  using assms by (auto simp: room_def intro!: reads_wrote elim: spans_le)

lemma reads_inner:
  assumes "reads s a (xs @ ys)" and "b = a + of_nat (length xs)"
  shows "reads s b ys"
  using assms by (simp add: reads_append)

lemma be_value_two:
  assumes "n < 65536"
  shows "be_value 0 [of_nat (n div 256), of_nat n] = of_nat n"
proof -
  let ?w = "of_nat n :: u32"
  have "take_bit 16 ?w = ?w"
    using assms by (simp add: word_unat_eq_iff unsigned_take_bit_eq take_bit_nat_eq_self)
  then have hi: "\<not> bit ?w k" if "16 \<le> k" for k using that by (metis bit_take_bit_iff not_le)
  have "be_value 0 [ucast (drop_bit 8 ?w), ucast ?w] = ?w"
  proof (rule bit_word_eqI)
    fix k :: nat
    assume "k < LENGTH(32)"
    then show "bit (be_value 0 [ucast (drop_bit 8 ?w), ucast ?w]) k = bit ?w k"
      using hi [of k] unfolding bit_be_value2 by (cases "k < 8"; cases "k < 16")
        (auto simp add: bit_unsigned_iff bit_drop_bit_eq)
  qed
  then show ?thesis unfolding u32_of_nat_hi [OF assms] ucast_of_nat_u8 .
qed

lemma BERDecodeHeader_string:
  assumes "reads s (message + pos) (ber_string bs)" and "length bs < 65536"
  shows "\<exists>p. BERDecodeChunkHeader message pos s = Inr (Some (ASN1_TYPE_OCTET_STRING, of_nat (length bs), p)) \<and>
    reads s (message + p) bs \<and> adv p bs = adv pos (ber_string bs)"
proof (cases "length bs < 128")
  case True
  have u: "ucast (of_nat (length bs) :: u8) = (of_nat (length bs) :: u32)"
    using True by (simp add: word_unat_eq_iff unsigned_ucast_eq unsigned_of_nat take_bit_nat_eq_self)
  have e: "ber_string bs = [4, of_nat (length bs)] @ bs" using True by (simp add: ber_string_def)
  have "BERDecodeChunkHeader message pos s = Inr (Some (ucast (4 :: u8), ucast (of_nat (length bs) :: u8), adv pos [4, of_nat (length bs)]))"
    by (rule header_short) (use assms(1) True in \<open>simp_all add: e reads_Cons word_less_nat_alt unsigned_of_nat take_bit_nat_eq_self\<close>)
  moreover have "reads s (message + (pos + 2)) bs"
    using reads_inner [OF assms(1) [unfolded e]] by (simp add: add.assoc)
  ultimately show ?thesis by (intro exI [of _ "pos + 2"]) (simp add: u adv_def e add.assoc)
next
  case False
  let ?h = "[of_nat (length bs div 256), of_nat (length bs)] :: u8 list"
  have e: "ber_string bs = (4 # 0x82 # ?h) @ bs" using False by (simp add: ber_string_def)
  have "BERDecodeChunkHeader message pos s = Inr (Some (ucast (4 :: u8), be_value 0 ?h, adv pos (4 # 0x82 # ?h)))"
    by (rule header_long) (use assms(1) in \<open>simp_all add: e reads_Cons\<close>)
  moreover have "be_value 0 ?h = of_nat (length bs)"
    by (rule be_value_two [OF assms(2)])
  moreover have "reads s (message + (pos + 4)) bs"
    using reads_inner [OF assms(1) [unfolded e]] by (simp add: add.assoc)
  ultimately show ?thesis by (intro exI [of _ "pos + 4"]) (simp add: adv_def e add.assoc)
qed


section \<open>Properties\<close>



text \<open>
  a C string of up to 65535 characters written by \<open>BEREncodeString\<close> is read back by
  \<open>BERDecodeChunkHeader\<close> and \<open>BERDecodeString\<close>, with its terminating null, in the short and in the
  long form of the length.
\<close>
lemma ber_string_roundtrip:
  assumes "terminated data" and "length (c_text data) < 65536"
    and "room s (message + pos) n" and "spans (can_read s) (message + pos) n"
    and "length (c_text data) + 4 \<le> n"
    and "length (c_text data) < unat maxlen" and "unat maxlen \<le> length dout"
  shows "\<exists>pos' s' p. BEREncodeString message pos data s = Inr (pos', s') \<and>
    BERDecodeChunkHeader message pos s' = Inr (Some (ASN1_TYPE_OCTET_STRING, of_nat (length (c_text data)), p)) \<and>
    BERDecodeString message p (of_nat (length (c_text data))) maxlen dout s' =
      Inr (Some (c_text data @ 0 # drop (Suc (length (c_text data))) dout, pos'))"
proof -
  let ?t = "c_text data" let ?bs = "ber_string ?t"
  have l: "length ?bs \<le> n" using assms(5) by (simp add: ber_string_def)
  have e: "BEREncodeString message pos data s = Inr (adv pos ?bs, wrote s (message + pos) ?bs)"
    using BEREncodeString_wrote [OF assms(3), of "[]" data] l assms(1,2) by (simp add: adv_Nil wrote_Nil)
  have r: "reads (wrote s (message + pos) ?bs) (message + pos) ?bs"
    by (rule reads_encoded [OF assms(3,4) l])
  from BERDecodeHeader_string [OF r assms(2)] e show ?thesis
    using BERDecodeString_reads [OF _ assms(6,7) refl] by metis
qed

lemma ber_string_roundtrip_witness:
  "\<exists>pos' s' p. BEREncodeString 0 0 [97, 0] blank_cpu = Inr (pos', s') \<and>
    BERDecodeChunkHeader 0 0 s' = Inr (Some (4, 1, p)) \<and>
    BERDecodeString 0 p 1 2 [0, 0] s' = Inr (Some ([97, 0], pos'))"
proof -
  have t: "c_text [97, 0] = [97]" "terminated [97, 0]" by (simp_all add: c_text_def terminated_def)
  show ?thesis
    using ber_string_roundtrip [of "[97, 0]" blank_cpu 0 0 5 2 "[0, 0]"]
    by (simp add: t blank_cpu_room)
qed

text \<open>
  An entry of an OID table (length first) written by \<open>BEREncodeOID\<close> is read back by
  \<open>BERDecodeOID\<close> as 1.3.6.1 followed by the entry, for all components up to 65535, although the
  encoding of components from 1024 to 16383 is not the minimal one.
\<close>
lemma ber_oid_roundtrip:
  assumes "oid_entry = of_nat (length ds) # ds @ rest" and "length ds \<le> 60"
    and "room s (message + pos) 256" and "spans (can_read s) (message + pos) 256"
    and "unat pos + 256 < 4294967296"
    and "4 + length ds \<le> buflen" and "8 \<le> buflen" and "buflen \<le> length dout"
  shows "\<exists>pos' s' len p. BEREncodeOID message pos oid_entry s = Inr (pos', s') \<and>
    BERDecodeChunkHeader message pos s' = Inr (Some (ASN1_TYPE_OID, len, p)) \<and>
    BERDecodeOID message p len buflen dout s' =
      Inr (Some (4 + length ds, [1, 3, 6, 1] @ map ucast ds @ drop (4 + length ds) dout, pos'))"
proof -
  let ?bs = "ber_oid ds"
  have l: "length ?bs \<le> 256" using length_ber_digits [of ds] assms(2) by (simp add: ber_oid_def)
  have e: "BEREncodeOID message pos oid_entry s = Inr (adv pos ?bs, wrote s (message + pos) ?bs)"
    using BEREncodeOID_wrote [OF assms(3), of "[]" ds oid_entry rest] l assms(1,2)
    by (simp add: adv_Nil wrote_Nil)
  have r: "reads (wrote s (message + pos) ?bs) (message + pos) ?bs"
    by (rule reads_encoded [OF assms(3,4) l])
  have "unat pos + length ?bs < 4294967296" using l assms(5) by linarith
  from BERDecodeOID_reads [OF r assms(2,6-8) this] e show ?thesis by blast
qed

lemma ber_oid_roundtrip_witness:
  "\<exists>pos' s' len p. BEREncodeOID 0 0 [3, 2, 1, 300] blank_cpu = Inr (pos', s') \<and>
    BERDecodeChunkHeader 0 0 s' = Inr (Some (6, len, p)) \<and>
    BERDecodeOID 0 p len 8 (replicate 8 0) s' = Inr (Some (7, [1, 3, 6, 1, 2, 1, 300, 0], pos'))"
  using ber_oid_roundtrip [of "[3, 2, 1, 300]" "[2, 1, 300]" "[]" blank_cpu 0 0 8 "replicate 8 0"]
  by (simp add: blank_cpu_room)

end
