(* ===== verification/Posix.thy ===== *)
theory Posix
  imports Rpc
begin

text \<open>
  The POSIX compatibility library: file descriptors (\<open>src/c-antikernel/unistd.c\<close>) and memory
  mapping (\<open>src/c-antikernel/mman.c\<close>), with the SARATOGA page-table call of
  \<open>src/saratogastartup/MemoryHelpers.c\<close>. The state extends the machine by the library's
  globals. \<open>cpu_oob\<close> is the address that the hardware returns for \<open>SYS_GET_OOB\<close>.
\<close>

section \<open>State\<close>

datatype errno_codes = ENOERROR | EADDRNOTAVAIL | EBADFD | EINVAL | ENFILE | ENOMEM | EPERM | EMACS | ELAST

record posix_file_descriptor =
  fd_valid :: u8
  noc_address :: u16
  base_address :: u32
  file_pos :: u32

record posix = cpu +
  errno :: errno_codes
  g_fds :: "posix_file_descriptor list"
  page_in_use :: "u8 list"
  cpu_oob :: u32

abbreviation (input) MAX_FDS :: nat where "MAX_FDS \<equiv> 16"
abbreviation (input) VMEM_MAX_PAGES :: nat where "VMEM_MAX_PAGES \<equiv> 12"
abbreviation (input) MAP_FIXED :: u32 where "MAP_FIXED \<equiv> 2"
abbreviation (input) RAM_CHOWN :: u32 where "RAM_CHOWN \<equiv> 5"
abbreviation (input) OOB_OP_MMAP :: u32 where "OOB_OP_MMAP \<equiv> 3"

text \<open>\<open>GetUserMemLow\<close>, \<open>GetUserMemHigh\<close> of \<open>startup.S\<close> with the values of \<open>lib/saratoga-bram.ld\<close>.\<close>

definition GetUserMemLow :: u32 where "GetUserMemLow = 0x40008000"
definition GetUserMemHigh :: u32 where "GetUserMemHigh = 0x4000DFFF"

section \<open>File descriptors\<close>

definition mmap_init :: "posix \<Rightarrow> posix res" where
  "mmap_init s = foreach [0..<VMEM_MAX_PAGES] (\<lambda>i s.
     andthen (aset (page_in_use s) i 0) (\<lambda>p. Inr (s\<lparr>page_in_use := p\<rparr>))) s"

definition posix_init :: "posix \<Rightarrow> posix res" where
  "posix_init s =
     (let s = s\<lparr>pend := InterruptQueueInit (pend s)\<rparr> in
      andthen (foreach [0..<MAX_FDS] (\<lambda>i s.
        andthen (aget (g_fds s) i) (\<lambda>d.
        andthen (aset (g_fds s) i (d\<lparr>fd_valid := 0\<rparr>)) (\<lambda>t. Inr (s\<lparr>g_fds := t\<rparr>)))) s) mmap_init)"

text \<open>The search of \<open>posix_fd_alloc\<close>; the number of descriptors still to look at decreases.\<close>

function fd_alloc_from :: "nat \<Rightarrow> u16 \<Rightarrow> u32 \<Rightarrow> posix \<Rightarrow> (int \<times> posix) res" where
  "fd_alloc_from i nocaddr phyaddr s =
     (if i < MAX_FDS then
        andthen (aget (g_fds s) i) (\<lambda>d.
        if fd_valid d = 0 then
          andthen (aset (g_fds s) i
            (d\<lparr>fd_valid := 1, noc_address := nocaddr, base_address := phyaddr, file_pos := 0\<rparr>))
            (\<lambda>t. Inr (int i, s\<lparr>g_fds := t\<rparr>))
        else fd_alloc_from (i + 1) nocaddr phyaddr s)
      else Inr (-1, s\<lparr>errno := ENFILE\<rparr>))"
  by pat_completeness auto
termination
  by (relation "measure (\<lambda>(i, n, p, s). MAX_FDS - i)") auto

declare fd_alloc_from.simps [simp del]

definition posix_fd_alloc :: "u16 \<Rightarrow> u32 \<Rightarrow> posix \<Rightarrow> (int \<times> posix) res" where
  "posix_fd_alloc nocaddr phyaddr s = fd_alloc_from 0 nocaddr phyaddr s"

definition posix_fd_valid :: "int \<Rightarrow> posix \<Rightarrow> u8 res" where
  "posix_fd_valid fd s =
     (if fd < 0 then Inr 0
      else if fd > int MAX_FDS then Inr 0
      else andthen (aget (g_fds s) (nat fd)) (\<lambda>d. Inr (fd_valid d)))"

definition posix_fd_nocaddr :: "int \<Rightarrow> posix \<Rightarrow> u16 res" where
  "posix_fd_nocaddr fd s = andthen (posix_fd_valid fd s) (\<lambda>v.
     if v = 0 then Inr 0 else andthen (aget (g_fds s) (nat fd)) (\<lambda>d. Inr (noc_address d)))"

definition posix_fd_phyaddr :: "int \<Rightarrow> posix \<Rightarrow> u32 res" where
  "posix_fd_phyaddr fd s = andthen (posix_fd_valid fd s) (\<lambda>v.
     if v = 0 then Inr 0 else andthen (aget (g_fds s) (nat fd)) (\<lambda>d. Inr (base_address d)))"

definition posix_fd_phyaddr_with_off :: "int \<Rightarrow> posix \<Rightarrow> u32 res" where
  "posix_fd_phyaddr_with_off fd s = andthen (posix_fd_valid fd s) (\<lambda>v.
     if v = 0 then Inr 0
     else andthen (aget (g_fds s) (nat fd)) (\<lambda>d. Inr (base_address d + file_pos d)))"

text \<open>\<open>close\<close> indexes the table with no check at all; a negative index is outside it too.\<close>

definition close_fd :: "int \<Rightarrow> posix \<Rightarrow> (int \<times> posix) res" where
  "close_fd fd s =
     (if fd < 0 then Inl OutOfBounds
      else andthen (aget (g_fds s) (nat fd)) (\<lambda>d.
        if fd_valid d = 0 then Inr (-1, s\<lparr>errno := EBADFD\<rparr>)
        else andthen (aset (g_fds s) (nat fd) (d\<lparr>fd_valid := 0\<rparr>)) (\<lambda>t. Inr (0, s\<lparr>g_fds := t\<rparr>))))"

definition fchown :: "int \<Rightarrow> u16 \<Rightarrow> u16 \<Rightarrow> posix \<Rightarrow> (int \<times> posix) res" where
  "fchown fd owner grp s =
     andthen (posix_fd_valid fd s) (\<lambda>v.
     if v = 0 then Inr (-1, s\<lparr>errno := EBADFD\<rparr>)
     else
       andthen (posix_fd_nocaddr fd s) (\<lambda>noc.
       andthen (posix_fd_phyaddr fd s) (\<lambda>phy.
       andthen (RPCFunctionCall (ucast noc) RAM_CHOWN 0 phy (ucast owner) s) (\<lambda>(rc, rmsg, s).
       if rc \<noteq> 0 then Inr (-1, s\<lparr>errno := EPERM\<rparr>) else Inr (0, s)))))"

section \<open>Memory mapping\<close>

definition mmap_verify_addr :: "u32 \<Rightarrow> u32 \<Rightarrow> bool" where
  "mmap_verify_addr addr len =
     (let low = GetUserMemLow; high = GetUserMemHigh in
      if addr < low \<or> addr > high then False
      else let end_addr = addr + len in
        if end_addr > high then False else True)"

definition SaratogaMmapHelper :: "u32 \<Rightarrow> u32 \<Rightarrow> u32 \<Rightarrow> u32 \<Rightarrow> posix \<Rightarrow> posix res" where
  "SaratogaMmapHelper page_addr phy_addr noc_addr perms s =
     andthen (RPCFunctionCall (cpu_oob s) OOB_OP_MMAP noc_addr phy_addr page_addr s)
       (\<lambda>(rc, rmsg, s). Inr s)"

text \<open>Are the pages \<open>j\<close>, ..., of the given indices all free? (the inner search loop of \<open>mmap\<close>)\<close>

fun pages_free :: "nat list \<Rightarrow> posix \<Rightarrow> bool res" where
  "pages_free [] s = Inr True"
| "pages_free (j # js) s = andthen (aget (page_in_use s) j) (\<lambda>u.
     if u \<noteq> 0 then Inr False else pages_free js s)"

text \<open>The outer search loop: \<open>None\<close> is the early return with \<open>ENOMEM\<close>, \<open>Some 0\<close> falls out of the loop.\<close>

fun mmap_search :: "nat list \<Rightarrow> u32 \<Rightarrow> posix \<Rightarrow> u32 option res" where
  "mmap_search [] pagecount s = Inr (Some 0)"
| "mmap_search (i # ks) pagecount s =
     (if of_nat i + pagecount > of_nat VMEM_MAX_PAGES then Inr None
      else andthen (pages_free [i..<i + unat pagecount] s) (\<lambda>ok.
        if \<not> ok then mmap_search ks pagecount s
        else Inr (Some (GetUserMemLow + push_bit LOG_PAGESIZE (of_nat i)))))"

text \<open>The mapping loop, shared by \<open>mmap\<close> and (with \<open>step = 0\<close>) by \<open>munmap\<close>.\<close>

fun map_pages :: "nat \<Rightarrow> u32 \<Rightarrow> u32 \<Rightarrow> u32 \<Rightarrow> u32 \<Rightarrow> u32 \<Rightarrow> posix \<Rightarrow> posix res" where
  "map_pages 0 addr phyaddr step noc prot s = Inr s"
| "map_pages (Suc n) addr phyaddr step noc prot s =
     andthen (SaratogaMmapHelper addr phyaddr noc prot s) (\<lambda>s.
     map_pages n (addr + PAGESIZE) (phyaddr + step) step noc prot s)"

definition page_count :: "u32 \<Rightarrow> u32" where
  "page_count len = drop_bit LOG_PAGESIZE (len + PAGESIZE)"

definition mmap :: "u32 \<Rightarrow> u32 \<Rightarrow> u32 \<Rightarrow> u32 \<Rightarrow> int \<Rightarrow> u32 \<Rightarrow> posix \<Rightarrow> (u32 \<times> posix) res" where
  "mmap addr len prot flags fd off s =
     (if len = 0 then Inr (0, s\<lparr>errno := EINVAL\<rparr>) else
      andthen (posix_fd_valid fd s) (\<lambda>v.
      if v = 0 then Inr (0, s\<lparr>errno := EBADFD\<rparr>) else
      andthen (posix_fd_nocaddr fd s) (\<lambda>nocaddr.
      andthen (posix_fd_phyaddr_with_off fd s) (\<lambda>phyaddr.
      let phyaddr = (phyaddr + off) AND PAGE_MASK; addr = addr AND PAGE_MASK in
      if addr \<noteq> 0 \<and> \<not> mmap_verify_addr addr len then Inr (0, s\<lparr>errno := EADDRNOTAVAIL\<rparr>) else
      let pagecount = page_count len in
      andthen (if addr = 0
               then andthen (mmap_search [0..<VMEM_MAX_PAGES] pagecount s) (\<lambda>r. case r of
                 None \<Rightarrow> Inr (Inl ENOMEM)
               | Some a \<Rightarrow> if a = 0 then Inr (Inl ENOMEM) else Inr (Inr a))
               else if flags AND MAP_FIXED = 0 then Inr (Inl EINVAL)
               else Inr (Inr addr)) (\<lambda>r. case r of
        Inl e \<Rightarrow> Inr (0, s\<lparr>errno := e\<rparr>)
      | Inr addr \<Rightarrow>
          let s = FlushDsideL1Cache addr len s in
          andthen (map_pages (unat pagecount) addr phyaddr PAGESIZE (ucast nocaddr) prot s) (\<lambda>s.
          Inr (addr, s)))))))"

definition munmap :: "u32 \<Rightarrow> u32 \<Rightarrow> posix \<Rightarrow> (int \<times> posix) res" where
  "munmap addr len s =
     (let addr = addr AND PAGE_MASK in
      if \<not> mmap_verify_addr addr len then Inr (1, s\<lparr>errno := EADDRNOTAVAIL\<rparr>)
      else let pagecount = page_count len; s = FlushDsideL1Cache addr len s in
        andthen (map_pages (unat pagecount) addr 0 0 0 PAGE_GUARD s) (\<lambda>s. Inr (0, s)))"

section \<open>Descriptors\<close>

definition fds_ok :: "posix \<Rightarrow> bool" where
  "fds_ok s \<longleftrightarrow> length (g_fds s) = MAX_FDS"

definition first_free :: "posix \<Rightarrow> nat option" where
  "first_free s = find (\<lambda>i. fd_valid (g_fds s ! i) = 0) [0..<MAX_FDS]"

lemma fd_alloc_from_exact:
  assumes "fds_ok s" and "i \<le> MAX_FDS"
  shows "fd_alloc_from i n p s =
    (case find (\<lambda>i. fd_valid (g_fds s ! i) = 0) [i..<MAX_FDS] of
       None \<Rightarrow> Inr (-1, s\<lparr>errno := ENFILE\<rparr>)
     | Some k \<Rightarrow> Inr (int k, s\<lparr>g_fds := (g_fds s)[k := (g_fds s ! k)
         \<lparr>fd_valid := 1, noc_address := n, base_address := p, file_pos := 0\<rparr>]\<rparr>))"
  using assms(2)
proof (induction "MAX_FDS - i" arbitrary: i)
  case 0
  then have "i = 16" by simp
  then show ?case by (subst fd_alloc_from.simps) simp
next
  case (Suc m)
  then have i: "i < 16" by simp
  then have e: "[i..<16] = i # [Suc i..<16]" by (simp add: upt_conv_Cons)
  show ?case
    using Suc.hyps(1) [of "Suc i"] Suc.hyps(2) i assms(1)
    by (subst fd_alloc_from.simps) (simp add: e fds_ok_def)
qed

lemma first_free_bound: "first_free s = Some i \<Longrightarrow> i < MAX_FDS"
  by (auto simp: first_free_def find_Some_iff)

lemma fd_valid_exact:
  assumes "fds_ok s"
  shows "posix_fd_valid fd s =
    (if fd = int MAX_FDS then Inl OutOfBounds
     else if 0 \<le> fd \<and> fd < int MAX_FDS then Inr (fd_valid (g_fds s ! nat fd)) else Inr 0)"
  using assms by (auto simp: posix_fd_valid_def fds_ok_def aget_def)

text \<open>A library with no open descriptor and no page in use, for concrete runs.\<close>

definition blank_posix :: posix where
  "blank_posix = cpu.extend blank_cpu \<lparr>errno = ENOERROR,
     g_fds = replicate MAX_FDS \<lparr>fd_valid = 0, noc_address = 0, base_address = 0, file_pos = 0\<rparr>,
     page_in_use = replicate VMEM_MAX_PAGES 0, cpu_oob = 0xC000\<rparr>"

section \<open>Mapping\<close>

text \<open>The request that maps page number \<open>k\<close>.\<close>

definition map_request :: "u32 \<Rightarrow> u32 \<Rightarrow> u32 \<Rightarrow> u32 \<Rightarrow> u32 \<Rightarrow> nat \<Rightarrow> RPCMessage" where
  "map_request mgmt noc phy step addr k =
     rpc_request mgmt OOB_OP_MMAP noc (phy + of_nat k * step) (addr + of_nat k * PAGESIZE)"

lemma lessThan_shift: "f ` {..<Suc n} = insert (f 0) ((\<lambda>k. f (Suc k)) ` {..<n})"
  by (auto simp: lessThan_Suc_eq_insert_0 image_image)

lemma map_pages_wp:
  "wp only_blocks (\<lambda>s'. cpu.more s' = cpu.more s \<and> same_memory s s' \<and> grows s s' \<and>
     sent_since s s' = map_request (cpu_oob s) noc phy step addr ` {..<n})
   (map_pages n addr phy step noc prot s)"
proof (induction n arbitrary: addr phy s)
  case 0
  then show ?case by (simp add: sent_since_same grows_def)
next
  case (Suc n)
  show ?case
    unfolding map_pages.simps SaratogaMmapHelper_def wp_simps
  proof (rule RPCFunctionCall_sends)
    fix rc r s'
    assume call: "cpu.more s' = cpu.more s" "same_memory s s'" "grows s s'"
      "sent_since s s' = {rpc_request (cpu_oob s) OOB_OP_MMAP noc phy addr}"
    have req: "map_request c noc (phy + step) step (addr + PAGESIZE) k = map_request c noc phy step addr (Suc k)" for c k
      by (simp add: map_request_def algebra_simps)
    have "cpu_oob s' = cpu_oob s" using call(1) by (cases s; cases s') (simp add: cpu.defs)
    moreover have "rpc_request (cpu_oob s) OOB_OP_MMAP noc phy addr = map_request (cpu_oob s) noc phy step addr 0"
      by (simp add: map_request_def)
    ultimately show "wp only_blocks (\<lambda>x. wp only_blocks (\<lambda>s'. cpu.more s' = cpu.more s \<and> same_memory s s' \<and> grows s s' \<and>
        sent_since s s' = map_request (cpu_oob s) noc phy step addr ` {..<Suc n})
        (map_pages n (addr + PAGESIZE) (phy + step) step noc prot x))
        ((\<lambda>(rc, rmsg, s). Inr s) (rc, r, s'))"
      using call unfolding prod.case wp_simps
      by (intro wp_mono [OF Suc.IH])
        (auto simp: req lessThan_shift sent_since_trans same_memory_def intro: grows_trans)
  qed simp
qed


lemma page_count_nat:
  "unat len + 2048 < 4294967296 \<Longrightarrow> unat (page_count len) = (unat len + 2048) div 2048"
  "unat (page_count len) \<le> 2097151"
proof -
  have e: "unat (page_count len) = unat (len + 2048) div 2048"
    by (simp only: page_count_def unat_drop_bit_eq) (simp add: drop_bit_eq_div)
  show "unat (page_count len) \<le> 2097151"
    unfolding e using unat_u32_bound [of "len + 2048"] by simp
  show "unat len + 2048 < 4294967296 \<Longrightarrow> unat (page_count len) = (unat len + 2048) div 2048"
    unfolding e using unat_add_of_nat [of len 2048] by simp
qed

lemma pages_free_exact:
  "(\<forall>j \<in> set js. j < length (page_in_use s)) \<Longrightarrow>
   pages_free js s = Inr (\<forall>j \<in> set js. page_in_use s ! j = 0)"
  by (induction js) auto

text \<open>Where an address is chosen, the pages start at it and end inside the user memory.\<close>

lemma mmap_search_result:
  assumes "length (page_in_use s) = VMEM_MAX_PAGES" and "unat pc \<le> 2097151" and "set ks \<subseteq> {..<12}"
  shows "\<exists>r. mmap_search ks pc s = Inr r \<and> (r \<notin> {None, Some 0} \<longrightarrow>
    (\<exists>i. r = Some (GetUserMemLow + push_bit LOG_PAGESIZE (of_nat i)) \<and> i + unat pc \<le> VMEM_MAX_PAGES \<and>
      (\<forall>j. i \<le> j \<and> j < i + unat pc \<longrightarrow> page_in_use s ! j = 0)))"
  using assms(3)
proof (induction ks)
  case Nil
  then show ?case by simp
next
  case (Cons i ks)
  have "unat (of_nat i + pc) = i + unat pc"
    using Cons.prems assms(2) unat_add_of_nat [of pc i] by (simp add: add.commute)
  then have le: "of_nat i + pc > of_nat 12 \<longleftrightarrow> i + unat pc > 12" by (simp add: word_less_nat_alt)
  have pf: "pages_free [i..<i + unat pc] s = Inr (\<forall>j \<in> {i..<i + unat pc}. page_in_use s ! j = 0)"
    if "i + unat pc \<le> 12"
    using that assms(1) by (subst pages_free_exact) auto
  show ?case
  proof (cases "i + unat pc > 12")
    case True
    then show ?thesis using le by simp
  next
    case False
    then show ?thesis using pf le Cons by (auto simp: GetUserMemLow_def)
  qed
qed


text \<open>
  What a call of \<open>mmap\<close> amounts to: the address \<open>a\<close> it returns, with the pages it maps, or 0 and
  an error with nothing mapped.
\<close>

definition mmap_result :: "u32 \<Rightarrow> u32 \<Rightarrow> u32 \<Rightarrow> int \<Rightarrow> u32 \<Rightarrow> posix \<Rightarrow> u32 \<times> posix \<Rightarrow> bool" where
  "mmap_result addr len flags fd off s = (\<lambda>(a, s').
     let d = g_fds s ! nat fd; base = addr AND PAGE_MASK; n = unat (page_count len) in
     if a = 0 then sent_since s s' = {} \<and> errno s' \<in> {EINVAL, EBADFD, EADDRNOTAVAIL, ENOMEM}
     else errno s' = errno s \<and> len \<noteq> 0 \<and> fd_valid d \<noteq> 0 \<and>
       sent_since s s' = map_request (cpu_oob s) (ucast (noc_address d))
         ((base_address d + file_pos d + off) AND PAGE_MASK) PAGESIZE a ` {..<n} \<and>
       (if base \<noteq> 0 then a = base \<and> flags AND MAP_FIXED \<noteq> 0 \<and> mmap_verify_addr a len
        else \<exists>i. a = GetUserMemLow + push_bit LOG_PAGESIZE (of_nat i) \<and> i + n \<le> VMEM_MAX_PAGES \<and>
          (\<forall>j. i \<le> j \<and> j < i + n \<longrightarrow> page_in_use s ! j = 0)))"

definition pages_ok :: "posix \<Rightarrow> bool" where
  "pages_ok s \<longleftrightarrow> length (page_in_use s) = VMEM_MAX_PAGES"

lemma posix_more: "cpu.more s' = cpu.more (s :: posix) \<Longrightarrow>
  errno s' = errno s \<and> g_fds s' = g_fds s \<and> page_in_use s' = page_in_use s \<and> cpu_oob s' = cpu_oob s"
  by (cases s; cases s') (simp add: cpu.defs)

lemma fd_lookups:
  assumes "posix_fd_valid fd s = Inr v" and "v \<noteq> 0"
  shows "posix_fd_nocaddr fd s = Inr (noc_address (g_fds s ! nat fd))"
    "posix_fd_phyaddr_with_off fd s = Inr (base_address (g_fds s ! nat fd) + file_pos (g_fds s ! nat fd))"
    "fd_valid (g_fds s ! nat fd) = v"
  using assms
  by (auto simp: posix_fd_nocaddr_def posix_fd_phyaddr_with_off_def posix_fd_valid_def aget_def split: if_splits)

lemma mmap_wp:
  assumes "fds_ok s" and "pages_ok s" and "fd \<noteq> int MAX_FDS"
  shows "wp only_blocks (mmap_result addr len flags fd off s) (mmap addr len prot flags fd off s)"
proof -
  obtain v where v: "posix_fd_valid fd s = Inr v" using fd_valid_exact [OF assms(1), of fd] assms(3) by (auto split: if_splits)
  let ?d = "g_fds s ! nat fd" and ?n = "unat (page_count len)"
  let ?phy = "(base_address ?d + file_pos ?d + off) AND PAGE_MASK"
  have fail: "mmap_result addr len flags fd off s (0, s\<lparr>errno := e\<rparr>)"
    if "e \<in> {EINVAL, EBADFD, EADDRNOTAVAIL, ENOMEM}" for e
    using that by (auto simp: mmap_result_def sent_since_same)
  have ok: "wp only_blocks (mmap_result addr len flags fd off s)
      (andthen (map_pages ?n a ?phy PAGESIZE (ucast (noc_address ?d)) prot (FlushDsideL1Cache a len s)) (\<lambda>s. Inr (a, s)))"
    if "len \<noteq> 0" "v \<noteq> 0" "a \<noteq> 0"
      "if addr AND PAGE_MASK \<noteq> 0 then a = addr AND PAGE_MASK \<and> flags AND MAP_FIXED \<noteq> 0 \<and> mmap_verify_addr a len
       else \<exists>i. a = GetUserMemLow + push_bit LOG_PAGESIZE (of_nat i) \<and> i + ?n \<le> VMEM_MAX_PAGES \<and>
          (\<forall>j. i \<le> j \<and> j < i + ?n \<longrightarrow> page_in_use s ! j = 0)" for a
  proof -
    let ?f = "FlushDsideL1Cache a len s"
    have f: "grows s ?f" "sent_since s ?f = {}" "cpu_oob ?f = cpu_oob s" "errno ?f = errno s"
      by (auto simp: FlushDsideL1Cache_def grows_def sent_since_def)
    show ?thesis
      unfolding wp_simps
      by (rule wp_mono [OF map_pages_wp])
        (use that f fd_lookups(3) [OF v] in \<open>auto simp: mmap_result_def Let_def sent_since_trans [OF f(1)] dest!: posix_more\<close>)
  qed
  obtain r where r: "mmap_search [0..<VMEM_MAX_PAGES] (page_count len) s = Inr r"
    and rp: "r \<notin> {None, Some 0} \<Longrightarrow> \<exists>i. r = Some (GetUserMemLow + push_bit LOG_PAGESIZE (of_nat i)) \<and>
      i + ?n \<le> VMEM_MAX_PAGES \<and> (\<forall>j. i \<le> j \<and> j < i + ?n \<longrightarrow> page_in_use s ! j = 0)"
    using mmap_search_result [of s "page_count len" "[0..<VMEM_MAX_PAGES]"] assms(2) page_count_nat(2)
    by (metis atLeast0LessThan atLeast_upt pages_ok_def subset_refl)
  show ?thesis
  proof (cases "v = 0 \<or> len = 0")
    case True
    then show ?thesis using fail v by (auto simp: mmap_def)
  next
    case False
    then have v0: "v \<noteq> 0" and len: "len \<noteq> 0" by auto
    note look = fd_lookups [OF v v0]
    consider (bad) "addr AND PAGE_MASK \<noteq> 0" "\<not> mmap_verify_addr (addr AND PAGE_MASK) len"
      | (fixed) "addr AND PAGE_MASK \<noteq> 0" "mmap_verify_addr (addr AND PAGE_MASK) len"
      | (any) "addr AND PAGE_MASK = 0" by blast
    then show ?thesis
    proof cases
      case bad
      then show ?thesis using fail v look v0 len by (simp add: mmap_def Let_def)
    next
      case fixed
      then show ?thesis using fail [of EINVAL] ok [of "addr AND PAGE_MASK"] v look v0 len
        by (simp add: mmap_def Let_def del: wp_simps(3))
    next
      case any
      show ?thesis
      proof (cases "r = None \<or> r = Some 0")
        case True
        then show ?thesis using fail [of ENOMEM] any v look v0 len r
          by (auto simp add: mmap_def Let_def simp del: wp_simps(3))
      next
        case False
        then obtain a where a: "r = Some a" "a \<noteq> 0" by auto
        with rp have "\<exists>i. a = GetUserMemLow + push_bit LOG_PAGESIZE (of_nat i) \<and> i + ?n \<le> VMEM_MAX_PAGES \<and>
          (\<forall>j. i \<le> j \<and> j < i + ?n \<longrightarrow> page_in_use s ! j = 0)" by simp
        with ok [of a] any a show ?thesis using v look v0 len r
          by (simp add: mmap_def Let_def del: wp_simps(3))
      qed
    qed
  qed
qed


section \<open>Pages and the user memory\<close>

lemma unat_numeral_high: "unat (0x4000DFFF :: u32) = 0x4000DFFF"
  by simp

lemma user_pages:
  assumes "mmap_verify_addr a len" and "a AND PAGE_MASK = a" and "unat a + unat len + 2048 < 4294967296"
    and "k < unat (page_count len)"
  shows "GetUserMemLow \<le> a + of_nat k * PAGESIZE" "unat (a + of_nat k * PAGESIZE) + 2047 \<le> unat GetUserMemHigh"
proof -
  have end_nat: "unat (a + len) = unat a + unat len" using unat_add_of_nat [of a "unat len"] assms(3) by simp
  have low: "0x40008000 \<le> unat a" and high: "unat a + unat len \<le> 0x4000DFFF"
    using assms(1) end_nat
    by (auto simp: mmap_verify_addr_def Let_def GetUserMemLow_def GetUserMemHigh_def word_le_nat_alt
      word_less_nat_alt split: if_splits)
  have "a AND mask 11 = 0"
  proof -
    have "a AND mask 11 = (a AND PAGE_MASK) AND mask 11" by (simp add: assms(2))
    also have "\<dots> = 0" by (simp add: mask_numeral and.assoc)
    finally show ?thesis .
  qed
  then have "unat a mod 2048 = 0"
    by (simp add: take_bit_eq_mask [symmetric] word_unat_eq_iff unsigned_take_bit_eq take_bit_eq_mod [of 11 "unat a"] flip: take_bit_eq_mod [of 11 a])
  then obtain q where q: "unat a = 2048 * q" by (auto simp: dvd_eq_mod_eq_0 [symmetric] elim: dvdE)
  have "unat (page_count len) = (unat len + 2048) div 2048"
    by (rule page_count_nat) (use assms(3) in simp)
  then have k: "k * 2048 \<le> unat len" using assms(4) by simp
  have "unat (of_nat (k * 2048) :: u32) = k * 2048"
    using k unat_u32_bound [of len] by (intro u32_of_nat_unat_id) simp
  moreover have "unat (a + of_nat (k * 2048)) = unat a + k * 2048"
    by (rule unat_add_of_nat) (use k assms(3) in simp)
  ultimately have u: "unat (a + of_nat k * PAGESIZE) = unat a + k * 2048" by simp
  show "GetUserMemLow \<le> a + of_nat k * PAGESIZE"
    using low u by (simp add: word_le_nat_alt GetUserMemLow_def)
  have "2048 * q + k * 2048 \<le> 0x4000DFFF" using high k unfolding q by linarith
  then have "q + k \<le> 0x4000DFFF div 2048" by simp
  then have "(q + k) * 2048 + 2047 \<le> 524315 * 2048 + 2047" by simp
  then have "unat a + k * 2048 + 2047 \<le> 0x4000DFFF" using q by simp
  then show "unat (a + of_nat k * PAGESIZE) + 2047 \<le> unat GetUserMemHigh"
    by (simp only: u GetUserMemHigh_def unat_numeral_high)
qed

lemma chosen_pages:
  assumes "a = GetUserMemLow + push_bit LOG_PAGESIZE (of_nat i)" and "i + n \<le> VMEM_MAX_PAGES" and "k < n"
  shows "GetUserMemLow \<le> a + of_nat k * PAGESIZE" "unat (a + of_nat k * PAGESIZE) + 2047 \<le> unat GetUserMemHigh"
proof -
  have "a + of_nat k * PAGESIZE = GetUserMemLow + of_nat ((i + k) * 2048)"
    by (simp add: assms(1) push_bit_eq_mult algebra_simps)
  moreover have "unat (GetUserMemLow + of_nat ((i + k) * 2048)) = unat GetUserMemLow + (i + k) * 2048"
    by (rule unat_add_of_nat) (use assms(2,3) in \<open>simp add: GetUserMemLow_def\<close>)
  ultimately have u: "unat (a + of_nat k * PAGESIZE) = unat GetUserMemLow + (i + k) * 2048" by (simp only:)
  show "GetUserMemLow \<le> a + of_nat k * PAGESIZE" using u by (simp add: word_le_nat_alt)
  show "unat (a + of_nat k * PAGESIZE) + 2047 \<le> unat GetUserMemHigh"
    unfolding u using assms(2,3) by (simp add: GetUserMemLow_def GetUserMemHigh_def)
qed

text \<open>A library with one open descriptor and a network that grants two mappings.\<close>

definition map_ok :: RPCMessage where
  "map_ok = \<lparr>m_from = 0xC000, m_to = 0, m_callnum = OOB_OP_MMAP, m_type = RPC_TYPE_RETURN_SUCCESS,
     m_d0 = 0, m_d1 = 0, m_d2 = 0\<rparr>"

definition one_open :: posix where
  "one_open = blank_posix\<lparr>inbox := [map_ok, map_ok],
     g_fds := (g_fds blank_posix)[0 := \<lparr>fd_valid = 1, noc_address = 7, base_address = 4096, file_pos = 0\<rparr>]\<rparr>"

lemma one_open_ok: "fds_ok one_open" "pages_ok one_open" "\<forall>j < VMEM_MAX_PAGES. page_in_use one_open ! j = 0"
  by (simp_all add: one_open_def blank_posix_def fds_ok_def pages_ok_def cpu.defs)

lemma map_pages_1: "map_pages (Suc 0) addr phyaddr step noc prot s = SaratogaMmapHelper addr phyaddr noc prot s"
  by (cases "SaratogaMmapHelper addr phyaddr noc prot s") simp_all

section \<open>Properties\<close>

text \<open>
  The life of a descriptor. \<open>posix_fd_alloc\<close> gives the lowest free index, or -1 with \<open>ENFILE\<close> when
  all 16 are taken; the descriptor then has the given NoC and physical address, every other
  descriptor is as before, and \<open>close\<close> frees this one and no other.
\<close>
lemma fd_lifecycle:
  assumes "fds_ok s"
  shows "case first_free s of
      None \<Rightarrow> posix_fd_alloc n p s = Inr (-1, s\<lparr>errno := ENFILE\<rparr>)
    | Some i \<Rightarrow> \<exists>s'. posix_fd_alloc n p s = Inr (int i, s') \<and> fds_ok s' \<and>
        posix_fd_valid (int i) s' = Inr 1 \<and> posix_fd_nocaddr (int i) s' = Inr n \<and>
        posix_fd_phyaddr_with_off (int i) s' = Inr p \<and>
        (\<forall>fd. fd \<noteq> int i \<longrightarrow> posix_fd_valid fd s' = posix_fd_valid fd s \<and>
           posix_fd_nocaddr fd s' = posix_fd_nocaddr fd s \<and>
           posix_fd_phyaddr_with_off fd s' = posix_fd_phyaddr_with_off fd s) \<and>
        (\<exists>s''. close_fd (int i) s' = Inr (0, s'') \<and> posix_fd_valid (int i) s'' = Inr 0 \<and>
           (\<forall>fd. fd \<noteq> int i \<longrightarrow> posix_fd_valid fd s'' = posix_fd_valid fd s))"
proof (cases "first_free s")
  case None
  then show ?thesis
    using fd_alloc_from_exact [OF assms, of 0] by (simp add: posix_fd_alloc_def first_free_def)
next
  case (Some i)
  let ?s = "s\<lparr>g_fds := (g_fds s)[i := (g_fds s ! i)
         \<lparr>fd_valid := 1, noc_address := n, base_address := p, file_pos := 0\<rparr>]\<rparr>"
  have i: "i < 16" using first_free_bound [OF Some] by simp
  have other: "nat fd \<noteq> i" if "fd \<noteq> int i" "0 \<le> fd" for fd using that by auto
  have "posix_fd_alloc n p s = Inr (int i, ?s)"
    using fd_alloc_from_exact [OF assms, of 0] Some by (simp add: posix_fd_alloc_def first_free_def)
  moreover have "fds_ok ?s" using assms by (simp add: fds_ok_def)
  moreover have "posix_fd_valid (int i) ?s = Inr 1" "posix_fd_nocaddr (int i) ?s = Inr n"
    "posix_fd_phyaddr_with_off (int i) ?s = Inr p"
    using i assms by (simp_all add: posix_fd_valid_def posix_fd_nocaddr_def posix_fd_phyaddr_with_off_def fds_ok_def)
  moreover have "posix_fd_valid fd ?s = posix_fd_valid fd s \<and>
           posix_fd_nocaddr fd ?s = posix_fd_nocaddr fd s \<and>
           posix_fd_phyaddr_with_off fd ?s = posix_fd_phyaddr_with_off fd s" if "fd \<noteq> int i" for fd
    using other [OF that]
    by (cases "0 \<le> fd") (auto simp: posix_fd_valid_def posix_fd_nocaddr_def posix_fd_phyaddr_with_off_def aget_def nth_list_update)
  moreover have "\<exists>s''. close_fd (int i) ?s = Inr (0, s'') \<and> posix_fd_valid (int i) s'' = Inr 0 \<and>
           (\<forall>fd. fd \<noteq> int i \<longrightarrow> posix_fd_valid fd s'' = posix_fd_valid fd s)"
    using i assms other
    by (auto simp: close_fd_def posix_fd_valid_def fds_ok_def aget_def nth_list_update)
  ultimately show ?thesis using Some by auto
qed

theorem fd_lifecycle_witness:
  "\<exists>s'. posix_fd_alloc 7 4096 blank_posix = Inr (0, s') \<and> posix_fd_nocaddr 0 s' = Inr 7"
proof -
  have "first_free blank_posix = Some 0"
    by (simp add: first_free_def blank_posix_def cpu.defs upt_conv_Cons)
  then show ?thesis
    using fd_lifecycle [of blank_posix 7 4096] by (auto simp: fds_ok_def blank_posix_def cpu.defs)
qed
text \<open>
  \<open>mmap\<close> returns (unless the network is silent) either 0 with nothing mapped, or an address from
  which it has asked the CPU to map enough consecutive pages for the length, all of them inside the
  user memory of the process. The length must not wrap the address around: \<open>mmap_verify_addr\<close>
  adds it without looking at the carry.
\<close>
lemma mmap_in_user_memory:
  assumes "fds_ok s" and "pages_ok s" and "fd \<noteq> int MAX_FDS"
    and "unat (addr AND PAGE_MASK) + unat len + 2048 < 4294967296"
  shows "wp only_blocks (\<lambda>(a, s').
      if a = 0 then sent_since s s' = {}
      else \<exists>n noc phy. sent_since s s' = map_request (cpu_oob s) noc phy PAGESIZE a ` {..<n} \<and>
        unat len \<le> n * 2048 \<and>
        (\<forall>k < n. GetUserMemLow \<le> a + of_nat k * PAGESIZE \<and>
           unat (a + of_nat k * PAGESIZE) + 2047 \<le> unat GetUserMemHigh))
    (mmap addr len prot flags fd off s)"
proof (rule wp_mono [OF mmap_wp [OF assms(1-3)]], clarify)
  fix a s'
  assume r: "mmap_result addr len flags fd off s (a, s')"
  let ?base = "addr AND PAGE_MASK" and ?n = "unat (page_count len)"
  have base: "?base AND PAGE_MASK = ?base" by (simp add: and.assoc)
  have cover: "unat len \<le> ?n * 2048"
  proof -
    have "?n = (unat len + 2048) div 2048" by (rule page_count_nat) (use assms(4) in simp)
    then show ?thesis by simp
  qed
  show "if a = 0 then sent_since s s' = {}
      else \<exists>n noc phy. sent_since s s' = map_request (cpu_oob s) noc phy PAGESIZE a ` {..<n} \<and>
        unat len \<le> n * 2048 \<and>
        (\<forall>k < n. GetUserMemLow \<le> a + of_nat k * PAGESIZE \<and>
           unat (a + of_nat k * PAGESIZE) + 2047 \<le> unat GetUserMemHigh)"
  proof (cases "a = 0")
    case True
    then show ?thesis using r by (simp add: mmap_result_def Let_def)
  next
    case False
    with r have s: "\<exists>noc phy. sent_since s s' = map_request (cpu_oob s) noc phy PAGESIZE a ` {..<?n}"
      by (auto simp: mmap_result_def Let_def)
    have p: "GetUserMemLow \<le> a + of_nat k * PAGESIZE \<and>
        unat (a + of_nat k * PAGESIZE) + 2047 \<le> unat GetUserMemHigh" if "k < ?n" for k
    proof (cases "?base = 0")
      case True
      with r False obtain i where "a = GetUserMemLow + push_bit LOG_PAGESIZE (of_nat i)" "i + ?n \<le> VMEM_MAX_PAGES"
        by (auto simp: mmap_result_def Let_def)
      from chosen_pages [OF this that] show ?thesis by simp
    next
      case base0: False
      with r False have "a = ?base" "mmap_verify_addr a len" by (auto simp: mmap_result_def Let_def)
      then show ?thesis using user_pages [of a len k] base assms(4) that by simp
    qed
    from s obtain noc phy where "sent_since s s' = map_request (cpu_oob s) noc phy PAGESIZE a ` {..<?n}" by blast
    with False cover p show ?thesis by auto
  qed
qed

lemma mmap_in_user_memory_witness:
  "wp only_blocks (\<lambda>(a, s').
      if a = 0 then sent_since one_open s' = {}
      else \<exists>n noc phy. sent_since one_open s' = map_request (cpu_oob one_open) noc phy PAGESIZE a ` {..<n} \<and>
        unat (3000 :: u32) \<le> n * 2048 \<and>
        (\<forall>k < n. GetUserMemLow \<le> a + of_nat k * PAGESIZE \<and>
           unat (a + of_nat k * PAGESIZE) + 2047 \<le> unat GetUserMemHigh))
    (mmap 0 3000 6 0 0 0 one_open)"
  by (rule mmap_in_user_memory [OF one_open_ok(1,2)]) simp_all

text \<open>
  The page table of \<open>mmap_init\<close> is never updated, so while it is empty every mapping without an
  address gets the same one, the start of the user memory: a second mapping replaces the first.
\<close>
lemma mmap_address_repeats:
  assumes "fds_ok s" and "pages_ok s" and "\<forall>j < VMEM_MAX_PAGES. page_in_use s ! j = 0"
    and "mmap 0 len prot flags fd off s = Inr (a, s1)" and "a \<noteq> 0"
    and "mmap 0 len' prot' flags' fd' off' s1 = Inr (b, s2)" and "b \<noteq> 0"
  shows "a = GetUserMemLow \<and> b = a"
proof -
  have first: "x = GetUserMemLow \<and> page_in_use t' = page_in_use t \<and> g_fds t' = g_fds t"
    if "fds_ok t" "pages_ok t" "\<forall>j < VMEM_MAX_PAGES. page_in_use t ! j = 0"
      "mmap 0 l p f d off t = Inr (x, t')" "x \<noteq> 0" for t l p f d off x t'
  proof -
    have pf: "of_nat 0 + page_count l \<le> of_nat 12 \<Longrightarrow> pages_free [0..<0 + unat (page_count l)] t = Inr True"
      using that(2,3) by (subst pages_free_exact) (auto simp: pages_ok_def word_le_nat_alt)
    have search: "mmap_search [0..<VMEM_MAX_PAGES] (page_count l) t =
        (if page_count l > 12 then Inr None else Inr (Some GetUserMemLow))"
      using pf by (auto simp: upt_conv_Cons)
    show ?thesis
      using that(4,5) search
      by (auto simp: mmap_def Let_def andthen_Inr_iff FlushDsideL1Cache_def split: if_splits
        dest!: wp_Inr [OF map_pages_wp] posix_more)
  qed
  from first [OF assms(1-5)] have "a = GetUserMemLow" "fds_ok s1" "pages_ok s1"
      "\<forall>j < VMEM_MAX_PAGES. page_in_use s1 ! j = 0"
    using assms(1-3) by (auto simp: fds_ok_def pages_ok_def)
  with first [OF _ _ _ assms(6,7)] show ?thesis by simp
qed

theorem mmap_address_repeats_witness:
  "\<exists>s1 s2. mmap 0 100 6 0 0 0 one_open = Inr (GetUserMemLow, s1) \<and>
    mmap 0 200 6 0 0 0 s1 = Inr (GetUserMemLow, s2)"
proof -
  note run = mmap_def Let_def posix_fd_valid_def posix_fd_nocaddr_def posix_fd_phyaddr_with_off_def
    one_open_def blank_posix_def cpu.defs page_count_def upt_conv_Cons SaratogaMmapHelper_def
    FlushDsideL1Cache_def call_immediate rpc_answer_def GetUserMemLow_def map_pages_1
  obtain s1 where 1: "mmap 0 100 6 0 0 0 one_open = Inr (GetUserMemLow, s1)"
      "inbox s1 = [map_ok]" "g_fds s1 = g_fds one_open" "page_in_use s1 = page_in_use one_open" "cpu_oob s1 = 0xC000"
    by (simp add: run map_ok_def)
  then obtain b s2 where 2: "mmap 0 200 6 0 0 0 s1 = Inr (b, s2)" "b \<noteq> 0"
    by (simp add: run map_ok_def)
  have "GetUserMemLow \<noteq> 0" by (simp add: GetUserMemLow_def)
  from mmap_address_repeats [OF one_open_ok 1(1) this 2] 1 2 show ?thesis by auto
qed

end
