(* ===== verification/Gf2n.thy ===== *)
theory Gf2n
  imports Antikernel_Prelude
begin

text \<open>
  Arithmetic in GF(2^n) and polynomial division over GF(2), \<open>src/fec/GF2NMath.c\<close>. Shifts take
  the low five bits of the count, as the MIPS instructions \<open>sllv\<close> and \<open>srlv\<close> do. Multiplication is
  shown to be that of a commutative ring through the locale \<open>times_x\<close> (a linear operator that
  generates the basis), and division to be the linear map that keeps the remainder.
\<close>

section \<open>The code\<close>

definition shl :: "u32 \<Rightarrow> u32 \<Rightarrow> u32" where
  "shl x k = push_bit (unat (k AND 31)) x"

definition shr :: "u32 \<Rightarrow> u32 \<Rightarrow> u32" where
  "shr x k = drop_bit (unat (k AND 31)) x"

definition GF2NAdd :: "u32 \<Rightarrow> u32 \<Rightarrow> u32" where
  "GF2NAdd a b = a XOR b"

definition GF2NSub :: "u32 \<Rightarrow> u32 \<Rightarrow> u32" where
  "GF2NSub a b = a XOR b"

text \<open>The loop of \<open>GF2NMultiply\<close>, for the given number of rounds.\<close>

fun gf2n_rounds :: "nat \<Rightarrow> u32 \<Rightarrow> u32 \<Rightarrow> u32 \<Rightarrow> u32 \<Rightarrow> u32 \<Rightarrow> u32 \<Rightarrow> u32" where
  "gf2n_rounds 0 n msk poly a b p = p"
| "gf2n_rounds (Suc k) n msk poly a b p =
     (let p = (if b AND 1 \<noteq> 0 then p XOR a else p);
          b = drop_bit 1 b;
          carry = shr a (n - 1);
          a = push_bit 1 a AND msk;
          a = (if carry \<noteq> 0 then a XOR poly else a)
      in gf2n_rounds k n msk poly a b p)"

definition GF2NMultiply :: "u32 \<Rightarrow> u32 \<Rightarrow> u32 \<Rightarrow> u32 \<Rightarrow> u32" where
  "GF2NMultiply a b n poly =
     (let msk = NOT (shl 0xffffffff n) in gf2n_rounds (unat n) n msk poly a b 0)"

text \<open>
  The search for the highest set bit, \<open>for(; !(a >> digits); digits--)\<close>, from the given bit down.
  At bit 0 a word with nothing to find is zero: the counter wraps and the loop goes round for ever.
\<close>

fun gf2_digits :: "nat \<Rightarrow> u32 \<Rightarrow> nat res" where
  "gf2_digits d a =
     (if drop_bit d a \<noteq> 0 then Inr d
      else case d of 0 \<Rightarrow> Inl Hang | Suc d \<Rightarrow> gf2_digits d a)"

declare gf2_digits.simps [simp del]

function gf2_reduce :: "u32 \<Rightarrow> u32 \<Rightarrow> u32 \<Rightarrow> u32 \<Rightarrow> u32" where
  "gf2_reduce a b deg_b shift =
     (let a = (if shr a (shift + deg_b) \<noteq> 0 then a XOR shl b shift else a)
      in if shift \<noteq> 0 then gf2_reduce a b deg_b (shift - 1) else a)"
  by pat_completeness auto
termination
  by (relation "measure (\<lambda>(a, b, deg_b, shift). unat shift)")
    (auto intro: measure_unat)

declare gf2_reduce.simps [simp del]

definition GF2NModFast :: "u32 \<Rightarrow> u32 \<Rightarrow> u32 \<Rightarrow> u32 \<Rightarrow> u32" where
  "GF2NModFast a b deg_a deg_b = gf2_reduce a b deg_b (deg_a - deg_b)"

definition GF2NMod :: "u32 \<Rightarrow> u32 \<Rightarrow> u32 res" where
  "GF2NMod a b =
     andthen (gf2_digits 31 a) (\<lambda>digits_a.
     andthen (gf2_digits 31 b) (\<lambda>digits_b.
     if digits_b > digits_a then Inr a
     else Inr (GF2NModFast a b (of_nat digits_a) (of_nat digits_b))))"

section \<open>A linear operator that generates the basis\<close>

fun xsum :: "nat \<Rightarrow> (nat \<Rightarrow> u32) \<Rightarrow> u32" where
  "xsum 0 f = 0"
| "xsum (Suc k) f = xsum k f XOR f k"

lemma xsum_cong: "(\<And>i. i < k \<Longrightarrow> f i = g i) \<Longrightarrow> xsum k f = xsum k g"
  by (induction k) simp_all

lemma xsum_xor: "xsum k (\<lambda>i. f i XOR g i) = xsum k f XOR xsum k g"
  by (induction k) (simp_all add: ac_simps)

lemma xsum_0: "xsum k (\<lambda>i. 0) = 0"
  by (induction k) simp_all

lemma xsum_shift: "xsum (Suc k) f = f 0 XOR xsum k (\<lambda>i. f (Suc i))"
  by (induction k) (simp_all add: ac_simps)

lemma bit_xsum_powers:
  fixes a :: u32
  shows "bit (xsum k (\<lambda>i. if bit a i then push_bit i 1 else 0)) j \<longleftrightarrow> j < k \<and> bit a j"
  using bit_u32 [of a j] by (induction k) (auto simp: bit_simps less_Suc_eq)

definition fits :: "nat \<Rightarrow> u32 \<Rightarrow> bool" where
  "fits n a \<longleftrightarrow> (\<forall>i. n \<le> i \<longrightarrow> \<not> bit a i)"

lemma fits_xor: "fits n a \<Longrightarrow> fits n b \<Longrightarrow> fits n (a XOR b)"
  by (simp add: fits_def bit_simps)

lemma fits_0 [simp]: "fits n 0"
  by (simp add: fits_def)

lemma fits_take: "fits n a \<longleftrightarrow> take_bit n a = a"
  by (auto simp: fits_def bit_eq_iff bit_simps not_le dest: bit_u32)

lemma fits_less: "n < 32 \<Longrightarrow> fits n a \<longleftrightarrow> a < 2 ^ n"
  unfolding fits_take word_unat_eq_iff unsigned_take_bit_eq word_less_nat_alt
  by (simp add: take_bit_nat_eq_self_iff unat_pow2_u32)

lemma powers_sum: "fits n a \<Longrightarrow> xsum n (\<lambda>i. if bit a i then push_bit i 1 else 0) = a"
  by (rule bit_word_eqI) (auto simp: bit_xsum_powers fits_def not_less [symmetric])

locale times_x =
  fixes X :: "nat \<Rightarrow> u32 \<Rightarrow> u32 \<Rightarrow> u32"
    and params :: "nat \<Rightarrow> u32 \<Rightarrow> bool"
  assumes size: "params n p \<Longrightarrow> 0 < n"
    and linear: "params n p \<Longrightarrow> X n p (a XOR b) = X n p a XOR X n p b"
    and closed: "params n p \<Longrightarrow> fits n a \<Longrightarrow> fits n (X n p a)"
    and basis: "params n p \<Longrightarrow> i < n \<Longrightarrow> (X n p ^^ i) 1 = push_bit i 1"
begin

definition times :: "nat \<Rightarrow> u32 \<Rightarrow> u32 \<Rightarrow> u32 \<Rightarrow> u32" where
  "times n p a b = xsum n (\<lambda>i. if bit b i then (X n p ^^ i) a else 0)"

lemma lin_0: "params n p \<Longrightarrow> X n p 0 = 0"
  using linear [of n p 0 0] by simp

lemma pow_linear: "params n p \<Longrightarrow> (X n p ^^ i) (a XOR b) = (X n p ^^ i) a XOR (X n p ^^ i) b"
  by (induction i) (simp_all add: linear)

lemma pow_0: "params n p \<Longrightarrow> (X n p ^^ i) 0 = 0"
  by (induction i) (simp_all add: lin_0)

lemma pow_closed: "params n p \<Longrightarrow> fits n a \<Longrightarrow> fits n ((X n p ^^ i) a)"
  by (induction i) (simp_all add: closed)

lemma pow_xsum: "params n p \<Longrightarrow> (X n p ^^ i) (xsum k f) = xsum k (\<lambda>j. (X n p ^^ i) (f j))"
  by (induction k) (simp_all add: pow_linear pow_0)

lemma fits_xsum: "(\<And>i. i < k \<Longrightarrow> fits n (f i)) \<Longrightarrow> fits n (xsum k f)"
  by (induction k) (simp_all add: fits_xor)

lemma times_closed: "params n p \<Longrightarrow> fits n a \<Longrightarrow> fits n (times n p a b)"
  unfolding times_def by (rule fits_xsum) (simp add: pow_closed)

lemma times_left: "params n p \<Longrightarrow> times n p (a XOR b) c = times n p a c XOR times n p b c"
  unfolding times_def xsum_xor [symmetric] by (rule xsum_cong) (simp add: pow_linear)

lemma times_right: "times n p a (b XOR c) = times n p a b XOR times n p a c"
  unfolding times_def xsum_xor [symmetric] by (rule xsum_cong) (auto simp: bit_xor_iff)

lemma times_0: "params n p \<Longrightarrow> times n p 0 b = 0"
  using times_left [of n p 0 0 b] by simp

lemma times_xsum: "params n p \<Longrightarrow> times n p (xsum k f) b = xsum k (\<lambda>i. times n p (f i) b)"
  by (induction k) (simp_all add: times_left times_0)

lemma times_pow: "params n p \<Longrightarrow> times n p ((X n p ^^ i) a) b = (X n p ^^ i) (times n p a b)"
proof -
  assume ok: "params n p"
  have "(X n p ^^ j) ((X n p ^^ i) a) = (X n p ^^ i) ((X n p ^^ j) a)" for j
    by (simp add: funpow_add [symmetric, THEN fun_cong, unfolded comp_def] add.commute)
  then show ?thesis
    unfolding times_def pow_xsum [OF ok] by (intro xsum_cong) (simp add: pow_0 [OF ok])
qed

lemma times_1_left:
  assumes "params n p" and "fits n a"
  shows "times n p 1 a = a"
proof -
  have "times n p 1 a = xsum n (\<lambda>i. if bit a i then push_bit i 1 else 0)"
    unfolding times_def by (rule xsum_cong) (simp add: basis [OF assms(1)])
  then show ?thesis by (simp add: powers_sum [OF assms(2)])
qed

lemma times_swap:
  assumes ok: "params n p"
  shows "times n p (times n p a b) c = times n p (times n p a c) b"
proof -
  have "times n p (times n p a b) c = xsum n (\<lambda>i. times n p (if bit c i then (X n p ^^ i) a else 0) b)"
    unfolding times_def [of n p _ c]
    by (rule xsum_cong) (simp add: times_pow [OF ok] times_0 [OF ok])
  also have "\<dots> = times n p (xsum n (\<lambda>i. if bit c i then (X n p ^^ i) a else 0)) b"
    by (rule times_xsum [OF ok, symmetric])
  finally show ?thesis unfolding times_def [of n p a c] .
qed

lemma times_commute:
  assumes "params n p" and "fits n a" and "fits n b"
  shows "times n p a b = times n p b a"
proof -
  have "times n p a b = times n p (times n p 1 a) b" by (simp add: times_1_left assms)
  also have "\<dots> = times n p (times n p 1 b) a" by (rule times_swap [OF assms(1)])
  finally show ?thesis by (simp add: times_1_left assms)
qed

lemma times_assoc:
  assumes "params n p" and "fits n a" and "fits n b" and "fits n c"
  shows "times n p (times n p a b) c = times n p a (times n p b c)"
proof -
  have "times n p (times n p a b) c = times n p (times n p b a) c" using assms by (simp add: times_commute)
  also have "\<dots> = times n p (times n p b c) a" by (rule times_swap [OF assms(1)])
  also have "\<dots> = times n p a (times n p b c)" using assms by (simp add: times_commute times_closed)
  finally show ?thesis .
qed

end

section \<open>Multiplication\<close>

text \<open>One round of \<open>GF2NMultiply\<close> multiplies by the polynomial x.\<close>

definition gf2_times_x :: "nat \<Rightarrow> u32 \<Rightarrow> u32 \<Rightarrow> u32" where
  "gf2_times_x n poly a = take_bit n (push_bit 1 a) XOR (if bit a (n - 1) then poly else 0)"

definition gf2_params :: "nat \<Rightarrow> u32 \<Rightarrow> bool" where
  "gf2_params n poly \<longleftrightarrow> 0 < n \<and> n < 32 \<and> fits n poly"

lemma gf2_times_x_basis:
  "n < 32 \<Longrightarrow> i < n \<Longrightarrow> (gf2_times_x n poly ^^ i) 1 = push_bit i 1"
proof (induction i)
  case 0
  then show ?case by simp
next
  case (Suc i)
  then have e: "(gf2_times_x n poly ^^ i) 1 = push_bit i 1" and "i \<noteq> n - 1" by auto
  then have "\<not> bit (push_bit i 1 :: u32) (n - 1)" by (auto simp: bit_exp_iff)
  moreover have "take_bit n (push_bit 1 (push_bit i 1)) = (push_bit (Suc i) 1 :: u32)"
  proof -
    have "fits n (push_bit (Suc i) 1)"
      unfolding fits_def bit_push_bit_iff bit_1_iff using Suc.prems by simp
    then show ?thesis unfolding push_bit_push_bit by (simp only: fits_take plus_1_eq_Suc)
  qed
  ultimately have "gf2_times_x n poly (push_bit i 1) = push_bit (Suc i) 1"
    unfolding gf2_times_x_def by (simp only: if_False xor.right_neutral)
  then show ?case by (simp only: funpow.simps comp_apply e)
qed

interpretation gf: times_x gf2_times_x gf2_params
proof
  fix n i :: nat and p a b :: u32
  assume ok: "gf2_params n p"
  show "0 < n" using ok by (simp add: gf2_params_def)
  show "gf2_times_x n p (a XOR b) = gf2_times_x n p a XOR gf2_times_x n p b"
    by (auto simp: gf2_times_x_def push_bit_xor take_bit_xor bit_xor_iff ac_simps)
  show "fits n (gf2_times_x n p a)" if "fits n a"
    using ok by (auto simp: gf2_times_x_def gf2_params_def fits_def bit_simps)
  show "(gf2_times_x n p ^^ i) 1 = push_bit i 1" if "i < n"
    using ok that by (simp add: gf2_params_def gf2_times_x_basis)
qed

lemma shr_top:
  assumes "fits (unat n) a" and "0 < unat n" and "unat n < 32"
  shows "shr a (n - 1) \<noteq> 0 \<longleftrightarrow> bit a (unat n - 1)"
proof -
  have u: "unat (n - 1) = unat n - 1" using assms(2) by (metis One_nat_def gr_implies_not0 unat_0 unat_minus_one)
  have "take_bit 5 (unat n - 1) = unat n - 1"
    using assms(3) by (simp add: take_bit_nat_eq_self)
  then have k: "unat ((n - 1) AND 31) = unat n - 1"
    by (simp only: and_mask_u32 unsigned_take_bit_eq u)
  have "bit (drop_bit (unat n - 1) a) i \<longleftrightarrow> i = 0 \<and> bit a (unat n - 1)" for i
  proof (cases i)
    case (Suc j)
    then have "unat n \<le> unat n - 1 + i" using assms(2) by simp
    then show ?thesis using assms(1) Suc by (simp add: bit_drop_bit_eq fits_def)
  qed (simp add: bit_drop_bit_eq)
  then have "drop_bit (unat n - 1) a = (if bit a (unat n - 1) then 1 else 0)"
    by (intro bit_word_eqI) (auto simp: bit_1_iff)
  then show ?thesis unfolding shr_def k by simp
qed

lemma bit_drop_1: "bit (drop_bit 1 b) i = bit b (Suc i)" for b :: u32
  by (simp add: bit_drop_bit_eq)

lemma gf2n_rounds_xsum:
  assumes ok: "gf2_params (unat n) poly" and msk: "msk = mask (unat n)" and "fits (unat n) a"
  shows "gf2n_rounds k n msk poly a b p =
    p XOR xsum k (\<lambda>i. if bit b i then (gf2_times_x (unat n) poly ^^ i) a else 0)"
  using assms(3)
proof (induction k arbitrary: a b p)
  case 0
  then show ?case by simp
next
  case (Suc k)
  let ?X = "gf2_times_x (unat n) poly"
  have n: "0 < unat n" "unat n < 32" using ok by (simp_all add: gf2_params_def)
  have step: "(if shr a (n - 1) \<noteq> 0 then (push_bit 1 a AND msk) XOR poly else push_bit 1 a AND msk) = ?X a"
    unfolding shr_top [OF Suc.prems n] msk gf2_times_x_def take_bit_eq_mask by simp
  have pow: "(?X ^^ i) (?X a) = (?X ^^ Suc i) a" for i by (simp add: funpow_swap1)
  have odd: "b AND 1 \<noteq> 0 \<longleftrightarrow> bit b 0" by (simp add: and_one_eq bit_0 odd_iff_mod_2_eq_one)
  have "gf2n_rounds (Suc k) n msk poly a b p =
      gf2n_rounds k n msk poly (?X a) (drop_bit 1 b) (if bit b 0 then p XOR a else p)"
    by (simp only: gf2n_rounds.simps Let_def step odd)
  also have "\<dots> = p XOR xsum (Suc k) (\<lambda>i. if bit b i then (?X ^^ i) a else 0)"
    unfolding Suc.IH [OF gf.closed [OF ok Suc.prems]] xsum_shift bit_drop_1 pow by (simp add: ac_simps)
  finally show ?case .
qed

lemma GF2NMultiply_times:
  assumes "gf2_params (unat n) poly" and "fits (unat n) a"
  shows "GF2NMultiply a b n poly = gf.times (unat n) poly a b"
proof -
  have n: "unat n < 32" using assms(1) by (simp add: gf2_params_def)
  have k: "unat (n AND 31) = unat n"
    using n by (simp only: and_mask_u32 unsigned_take_bit_eq) (simp add: take_bit_nat_eq_self)
  have "NOT (shl 0xffffffff n) = mask (unat n)"
  proof -
    have "(0xffffffff :: u32) = - 1" by simp
    then show ?thesis using n unfolding shl_def k by (auto simp: word_bits_iff bit_simps)
  qed
  then show ?thesis
    using gf2n_rounds_xsum [OF assms(1) refl assms(2)] unfolding GF2NMultiply_def Let_def gf.times_def by simp
qed

section \<open>Division\<close>

definition has_degree :: "u32 \<Rightarrow> nat \<Rightarrow> bool" where
  "has_degree a d \<longleftrightarrow> bit a d \<and> fits (Suc d) a"

lemma fits_mono: "fits m a \<Longrightarrow> m \<le> n \<Longrightarrow> fits n a"
  by (simp add: fits_def)

lemma fits_Suc: "fits (Suc d) a \<Longrightarrow> \<not> bit a d \<Longrightarrow> fits d a"
  by (metis fits_def le_antisym not_less_eq_eq)

lemma fits_32: "fits 32 a"
  by (auto simp: fits_def dest: bit_u32)

lemma drop_bit_0_iff: "drop_bit d a = 0 \<longleftrightarrow> fits d a" for a :: u32
proof
  assume "drop_bit d a = 0"
  then have "\<not> bit (drop_bit d a) (i - d)" for i by simp
  then show "fits d a" by (metis bit_drop_bit_eq comp_apply fits_def le_add_diff_inverse)
next
  assume "fits d a"
  then show "drop_bit d a = 0" by (intro bit_word_eqI) (simp add: bit_drop_bit_eq fits_def)
qed

lemma gf2_digits_degree:
  "fits (Suc d) a \<Longrightarrow>
   (a = 0 \<and> gf2_digits d a = Inl Hang) \<or> (\<exists>k \<le> d. gf2_digits d a = Inr k \<and> has_degree a k)"
proof (induction d)
  case 0
  show ?case
  proof (cases "a = 0")
    case True
    then show ?thesis by (subst (1) gf2_digits.simps) simp
  next
    case False
    moreover have "bit a 0" using fits_Suc [OF 0] False drop_bit_0_iff [of 0 a] by auto
    ultimately show ?thesis using 0 by (subst (2) gf2_digits.simps) (simp add: has_degree_def)
  qed
next
  case (Suc d)
  show ?case
  proof (cases "bit a (Suc d)")
    case True
    then have "drop_bit (Suc d) a \<noteq> 0" unfolding drop_bit_0_iff fits_def by auto
    then show ?thesis using True Suc.prems by (subst (2) gf2_digits.simps) (auto simp: has_degree_def)
  next
    case False
    then have f: "fits (Suc d) a" using fits_Suc Suc.prems by blast
    then have "gf2_digits (Suc d) a = gf2_digits d a"
      by (subst gf2_digits.simps) (simp add: drop_bit_0_iff)
    then show ?thesis using Suc.IH [OF f] by auto
  qed
qed

lemma degree_exists: "a \<noteq> 0 \<Longrightarrow> \<exists>d < 32. has_degree a d \<and> gf2_digits 31 a = Inr d"
  using gf2_digits_degree [of 31 a] fits_32 [of a] by (auto simp: eval_nat_numeral less_Suc_eq_le)

lemma degree_unique: "has_degree a d \<Longrightarrow> has_degree a e \<Longrightarrow> d = e"
  by (metis fits_def has_degree_def le_less_linear not_less_eq_eq order_antisym)

lemma degree_nonzero: "has_degree a d \<Longrightarrow> a \<noteq> 0 \<and> d < 32"
  using bit_u32 by (auto simp: has_degree_def)

text \<open>The remainder as a linear map: one conditional subtraction for each position, from the top.\<close>

definition gf2_red :: "u32 \<Rightarrow> nat \<Rightarrow> nat \<Rightarrow> u32 \<Rightarrow> u32" where
  "gf2_red b d j a = (if bit a (j + d) then a XOR push_bit j b else a)"

fun gf2_rem :: "nat \<Rightarrow> u32 \<Rightarrow> nat \<Rightarrow> u32 \<Rightarrow> u32" where
  "gf2_rem 0 b d a = gf2_red b d 0 a"
| "gf2_rem (Suc j) b d a = gf2_rem j b d (gf2_red b d (Suc j) a)"

lemma gf2_red_xor: "gf2_red b d j (a XOR c) = gf2_red b d j a XOR gf2_red b d j c"
  by (auto simp: gf2_red_def bit_xor_iff ac_simps)

lemma gf2_rem_xor: "gf2_rem s b d (a XOR c) = gf2_rem s b d a XOR gf2_rem s b d c"
  by (induction s arbitrary: a c) (simp_all add: gf2_red_xor)

lemma gf2_red_id: "fits (j + d) a \<Longrightarrow> gf2_red b d j a = a"
  by (simp add: gf2_red_def fits_def)

lemma gf2_red_fits:
  assumes "has_degree b d" and "fits (Suc (j + d)) a" and "j + d < 32"
  shows "fits (j + d) (gf2_red b d j a)"
proof (rule fits_Suc)
  have "fits (Suc (j + d)) (push_bit j b)"
    using assms(1) by (auto simp: has_degree_def fits_def bit_push_bit_iff)
  then show "fits (Suc (j + d)) (gf2_red b d j a)"
    using assms(2) by (simp add: gf2_red_def fits_xor)
  show "\<not> bit (gf2_red b d j a) (j + d)"
    using assms(1,3) by (simp add: gf2_red_def bit_xor_iff bit_push_bit_iff has_degree_def)
qed

lemma gf2_rem_fits:
  "has_degree b d \<Longrightarrow> fits (Suc (s + d)) a \<Longrightarrow> s + d < 32 \<Longrightarrow> fits d (gf2_rem s b d a)"
proof (induction s arbitrary: a)
  case 0
  then show ?case using gf2_red_fits [of b d 0 a] by simp
next
  case (Suc s)
  have "fits (Suc s + d) (gf2_red b d (Suc s) a)"
    by (rule gf2_red_fits) (use Suc.prems in simp_all)
  then show ?case using Suc by simp
qed

lemma gf2_rem_id: "fits d a \<Longrightarrow> gf2_rem s b d a = a"
proof (induction s)
  case (Suc s)
  have "fits (Suc s + d) a" using Suc.prems by (rule fits_mono) simp
  then show ?case using Suc by (simp add: gf2_red_id)
qed (simp add: gf2_red_id)

lemma gf2_rem_more: "fits (Suc (s + d)) a \<Longrightarrow> gf2_rem (s + k) b d a = gf2_rem s b d a"
proof (induction k)
  case 0
  then show ?case by simp
next
  case (Suc k)
  have "fits (Suc (s + k) + d) a" using Suc.prems by (rule fits_mono) simp
  then show ?case using Suc by (simp add: gf2_red_id)
qed

lemma gf2_red_shift: "Suc j + d < 32 \<Longrightarrow> gf2_red b d (Suc j) (push_bit 1 a) = push_bit 1 (gf2_red b d j a)"
proof -
  assume "Suc j + d < 32"
  then have "bit (push_bit 1 a) (Suc j + d) = bit a (j + d)" by (simp only: bit_push_bit_iff) simp
  then show ?thesis
    by (cases "bit a (j + d)") (simp_all only: gf2_red_def push_bit_xor push_bit_push_bit if_True if_False simp_thms plus_1_eq_Suc)
qed

lemma gf2_rem_shift:
  "Suc s + d < 32 \<Longrightarrow> gf2_rem (Suc s) b d (push_bit 1 a) = gf2_red b d 0 (push_bit 1 (gf2_rem s b d a))"
proof (induction s arbitrary: a)
  case 0
  then show ?case using gf2_red_shift [of 0 d b a] by simp
next
  case (Suc s)
  then show ?case using gf2_red_shift [of "Suc s" d b a] by simp
qed

lemma shift_word:
  assumes "k < 32"
  shows "unat (of_nat k AND 31 :: u32) = k"
  using assms by (simp only: and_mask_u32 unsigned_take_bit_eq) (simp add: take_bit_nat_eq_self)

lemma gf2_reduce_rem:
  "has_degree b d \<Longrightarrow> fits (Suc (j + d)) a \<Longrightarrow> j + d < 32 \<Longrightarrow>
   gf2_reduce a b (of_nat d) (of_nat j) = gf2_rem j b d a"
proof (induction j arbitrary: a)
  case (Suc j)
  have top: "drop_bit (Suc j + d) a \<noteq> 0 \<longleftrightarrow> bit a (Suc j + d)"
    using Suc.prems(2) fits_Suc [of "Suc j + d" a] unfolding drop_bit_0_iff by (auto simp: fits_def)
  have nz: "(of_nat (Suc j) :: u32) \<noteq> 0" using Suc.prems(3) by (simp add: word_unat_eq_iff del: of_nat_Suc)
  have sh: "(of_nat (Suc j) :: u32) + of_nat d = of_nat (Suc j + d)" by simp
  have "fits (Suc j + d) (gf2_red b d (Suc j) a)"
    by (rule gf2_red_fits) (use Suc.prems in simp_all)
  then have ih: "gf2_reduce (gf2_red b d (Suc j) a) b (of_nat d) (of_nat j) = gf2_rem j b d (gf2_red b d (Suc j) a)"
    using Suc by simp
  have "(of_nat (Suc j) :: u32) - 1 = of_nat j" by simp
  moreover have "(if shr a (of_nat (Suc j) + of_nat d) \<noteq> 0 then a XOR shl b (of_nat (Suc j)) else a) =
      gf2_red b d (Suc j) a"
    unfolding shr_def shl_def gf2_red_def sh using Suc.prems(3)
    by (simp only: shift_word top)
  ultimately show ?case using ih nz
    by (subst gf2_reduce.simps) (simp only: Let_def gf2_rem.simps if_True simp_thms)
next
  case 0
  have top: "drop_bit d a \<noteq> 0 \<longleftrightarrow> bit a d"
    using 0 fits_Suc [of d a] unfolding drop_bit_0_iff by (auto simp: fits_def)
  show ?case
    using 0(3) top by (subst gf2_reduce.simps) (simp add: Let_def gf2_red_def shr_def shl_def shift_word)
qed

lemma GF2NMod_rem:
  assumes "a \<noteq> 0" and d: "has_degree b d"
  shows "GF2NMod a b = Inr (gf2_rem (31 - d) b d a)"
proof -
  obtain da where da: "da < 32" "has_degree a da" "gf2_digits 31 a = Inr da"
    using degree_exists [OF assms(1)] by blast
  have db: "gf2_digits 31 b = Inr d" "d < 32"
    using degree_exists [of b] degree_unique [OF d] degree_nonzero [OF d] by auto
  show ?thesis
  proof (cases "d > da")
    case True
    then have "fits d a" using da(2) fits_mono [of "Suc da" a d] by (simp add: has_degree_def)
    then show ?thesis using True by (simp add: GF2NMod_def da db gf2_rem_id)
  next
    case False
    then have s: "(of_nat da :: u32) - of_nat d = of_nat (da - d)" "da - d + d = da"
      "31 - d = (da - d) + (31 - da)" using da(1) by (simp_all add: of_nat_diff)
    have f: "fits (Suc (da - d + d)) a" using da(2) s(2) by (simp add: has_degree_def)
    have "GF2NModFast a b (of_nat da) (of_nat d) = gf2_rem (da - d) b d a"
      unfolding GF2NModFast_def s(1) by (rule gf2_reduce_rem [OF d f]) (use da(1) s(2) in simp)
    also have "\<dots> = gf2_rem (31 - d) b d a"
      unfolding s(3) by (rule gf2_rem_more [OF f, symmetric])
    finally show ?thesis using False by (simp add: GF2NMod_def da db)
  qed
qed

section \<open>Properties\<close>

text \<open>
  \<open>GF2NMultiply\<close> and \<open>GF2NAdd\<close> are the operations of a commutative ring on the words of
  \<open>n\<close> bits, for every \<open>n\<close> from 1 to 31 and every reduction polynomial: closed, commutative, associative,
  distributive, with 1 as unit.
\<close>
lemma gf2n_ring:
  assumes "0 < unat n" and "unat n < 32"
    and "fits (unat n) poly" and "fits (unat n) a" and "fits (unat n) b" and "fits (unat n) c"
  shows "fits (unat n) (GF2NMultiply a b n poly) \<and>
    GF2NMultiply a b n poly = GF2NMultiply b a n poly \<and>
    GF2NMultiply (GF2NMultiply a b n poly) c n poly = GF2NMultiply a (GF2NMultiply b c n poly) n poly \<and>
    GF2NMultiply (GF2NAdd a b) c n poly = GF2NAdd (GF2NMultiply a c n poly) (GF2NMultiply b c n poly) \<and>
    GF2NMultiply 1 a n poly = a"
proof -
  have ok: "gf2_params (unat n) poly" using assms by (simp add: gf2_params_def)
  have one: "fits (unat n) 1" using assms(1) by (auto simp: fits_def bit_1_iff)
  note mult = GF2NMultiply_times [OF ok]
  show ?thesis
    using gf.times_commute [OF ok assms(4,5)] gf.times_assoc [OF ok assms(4-6)]
      gf.times_left [OF ok, of a b c] gf.times_1_left [OF ok assms(4)] gf.times_closed [OF ok assms(4)]
      gf.times_closed [OF ok assms(4)]
    by (simp add: mult assms one gf.times_closed [OF ok] fits_xor GF2NAdd_def)
qed

theorem gf2n_ring_witness:
  "GF2NMultiply 0x53 0xCA 8 0x1B = GF2NMultiply 0xCA 0x53 8 0x1B \<and> GF2NMultiply 1 0x53 8 0x1B = 0x53"
  using gf2n_ring [of 8 "0x1B" "0x53" "0xCA" 1] by (simp add: fits_less)

end
