(* ===== verification/Bch.thy ===== *)
theory Bch
  imports Gf2n
begin

text \<open>
  The systematic BCH code of \<open>src/fec/BCH.c\<close>: every encoded word is valid and gives its data
  back, and every burst of errors no longer than the check bits is detected.
\<close>

section \<open>The code\<close>

definition BCHEncode :: "u32 \<Rightarrow> u32 \<Rightarrow> u32 \<Rightarrow> u32 \<Rightarrow> u32 res" where
  "BCHEncode data generator n k =
     (let gendeg = n - k; sdata = shl data gendeg in
      andthen (GF2NMod sdata generator) (\<lambda>r. Inr (shl data gendeg OR r)))"

definition BCHValidate :: "u32 \<Rightarrow> u32 \<Rightarrow> u32 res" where
  "BCHValidate codeword generator =
     andthen (GF2NMod codeword generator) (\<lambda>r. Inr (if r \<noteq> 0 then 0 else 1))"

definition BCHRecoverErrorFreeCodeword :: "u32 \<Rightarrow> u32 \<Rightarrow> u32 \<Rightarrow> u32" where
  "BCHRecoverErrorFreeCodeword codeword n k = shr codeword (n - k)"

definition BCHDecode :: "u32 \<Rightarrow> u32 \<Rightarrow> u32 \<Rightarrow> u32 \<Rightarrow> u32" where
  "BCHDecode codeword generator n k = 0"

section \<open>Syndromes\<close>

text \<open>The remainder by a generator of degree \<open>d\<close>.\<close>

definition syndrome :: "nat \<Rightarrow> u32 \<Rightarrow> u32 \<Rightarrow> u32" where
  "syndrome d g a = gf2_rem (31 - d) g d a"

lemma GF2NMod_syndrome: "a \<noteq> 0 \<Longrightarrow> has_degree g d \<Longrightarrow> GF2NMod a g = Inr (syndrome d g a)"
  by (simp add: GF2NMod_rem syndrome_def)

lemma syndrome_xor: "syndrome d g (a XOR b) = syndrome d g a XOR syndrome d g b"
  by (simp add: syndrome_def gf2_rem_xor)

lemma syndrome_0: "syndrome d g 0 = 0"
  using syndrome_xor [of d g 0 0] by simp

lemma syndrome_fits: "has_degree g d \<Longrightarrow> fits d (syndrome d g a)"
  unfolding syndrome_def using degree_nonzero [of g d]
  by (intro gf2_rem_fits) (auto simp: fits_def dest: bit_u32)

lemma syndrome_id: "fits d a \<Longrightarrow> syndrome d g a = a"
  by (simp add: syndrome_def gf2_rem_id)

lemma BCHValidate_syndrome:
  "c \<noteq> 0 \<Longrightarrow> has_degree g d \<Longrightarrow> BCHValidate c g = Inr (if syndrome d g c = 0 then 1 else 0)"
  by (simp add: BCHValidate_def GF2NMod_syndrome)

text \<open>A shift cannot turn a non-zero remainder into zero when the generator has a constant term.\<close>

lemma red_double_zero:
  assumes g: "bit g 0" and r: "fits 31 r" and z: "gf2_red g d 0 (push_bit 1 r) = 0"
  shows "r = 0"
proof -
  let ?y = "push_bit 1 r"
  have y: "bit ?y i \<longleftrightarrow> 1 \<le> i \<and> i < 32 \<and> bit r (i - 1)" for i by (auto simp only: bit_push_bit_iff) auto
  have "?y \<noteq> g" using g y [of 0] by auto
  moreover have "gf2_red g d 0 ?y = (if bit ?y d then ?y XOR g else ?y)" by (simp add: gf2_red_def)
  ultimately have "?y = 0" using z xor_zero_iff [of ?y g] by (auto split: if_splits)
  show ?thesis
  proof (rule bit_word_eqI)
    fix i :: nat
    assume "i < LENGTH(32)"
    then show "bit r i = bit 0 i" using y [of "Suc i"] \<open>?y = 0\<close> r by (cases "i = 31") (auto simp: fits_def)
  qed
qed

lemma syndrome_shift:
  assumes d: "has_degree g d" and g: "bit g 0" and a: "fits 31 a" and s: "syndrome d g (push_bit 1 a) = 0"
  shows "syndrome d g a = 0"
proof (cases "d = 31")
  case True
  then have "gf2_red g 31 0 (push_bit 1 a) = 0" using s by (simp add: syndrome_def)
  then have "a = 0" by (rule red_double_zero [OF g a])
  then show ?thesis by (simp add: syndrome_0)
next
  case False
  then have "d < 31" using degree_nonzero [OF d] by simp
  then have k: "31 - d = Suc (30 - d)" "Suc (30 - d) + d < 32" by simp_all
  have r: "syndrome d g a = gf2_rem (30 - d) g d a"
    unfolding syndrome_def using gf2_rem_more [of "30 - d" d a 1 g] a k by simp
  have "gf2_red g d 0 (push_bit 1 (syndrome d g a)) = 0"
    using s gf2_rem_shift [OF k(2), of g a] unfolding r unfolding syndrome_def k(1) by (simp only:)
  moreover have "fits 31 (syndrome d g a)"
    by (rule fits_mono [OF syndrome_fits [OF d]]) (use degree_nonzero [OF d] in simp)
  ultimately show ?thesis using red_double_zero [OF g] by blast
qed

lemma syndrome_burst:
  assumes "has_degree g d" and "bit g 0" and "fits d p" and "p \<noteq> 0" and "fits (32 - i) p" and "i < 32"
  shows "syndrome d g (push_bit i p) \<noteq> 0"
  using assms(5,6)
proof (induction i)
  case 0
  then show ?case using assms(3,4) by (simp add: syndrome_id)
next
  case (Suc i)
  have p: "fits (32 - i) p" using Suc.prems by (rule_tac fits_mono) auto
  have f: "fits 31 (push_bit i p)"
    using Suc.prems by (auto simp: fits_def bit_push_bit_iff)
  have "syndrome d g (push_bit i p) \<noteq> 0" using Suc.IH p Suc.prems(2) by simp
  then have "syndrome d g (push_bit 1 (push_bit i p)) \<noteq> 0"
    using syndrome_shift [OF assms(1,2) f] by blast
  then show ?case unfolding push_bit_push_bit plus_1_eq_Suc .
qed

section \<open>Properties\<close>

text \<open>
  Every encoded word is valid, and its data can be read back. For a generator of degree
  \<open>n - k\<close>, up to 32 code bits and non-zero data of \<open>k\<close> bits, \<open>BCHEncode\<close> terminates with a word that
  \<open>BCHValidate\<close> accepts and from which \<open>BCHRecoverErrorFreeCodeword\<close> recovers the data.
\<close>
lemma bch_encode_valid:
  assumes "k \<le> n" and "unat n \<le> 32" and "0 < unat k" and "has_degree generator (unat n - unat k)"
    and "fits (unat k) data" and "data \<noteq> 0"
  shows "\<exists>c. BCHEncode data generator n k = Inr c \<and> BCHValidate c generator = Inr 1 \<and>
    BCHRecoverErrorFreeCodeword c n k = data"
proof -
  let ?d = "unat n - unat k"
  have d: "unat (n - k) = ?d" using assms(1) by (rule unat_sub)
  have d32: "?d < 32" using assms(2,3) by simp
  have sh: "unat ((n - k) AND 31) = ?d"
  proof -
    have "n - k = of_nat ?d" unfolding word_unat_eq_iff d using d32 by simp
    then show ?thesis using shift_word [OF d32] by simp
  qed
  let ?s = "push_bit ?d data"
  have bits: "bit ?s i \<longleftrightarrow> ?d \<le> i \<and> i < 32 \<and> bit data (i - ?d)" for i
    by (auto simp: bit_push_bit_iff)
  have undo: "bit (drop_bit ?d ?s) i = bit data i" for i
  proof -
    have "bit data i \<Longrightarrow> i < unat k" using assms(5) by (meson fits_def not_less)
    then show ?thesis using bits [of "?d + i"] assms(1,2) by (auto simp: bit_drop_bit_eq word_le_nat_alt)
  qed
  then have ds: "drop_bit ?d ?s = data" by (simp add: bit_eq_iff)
  then have s0: "?s \<noteq> 0" using assms(6) by auto
  let ?r = "syndrome ?d generator ?s"
  have rf: "fits ?d ?r" by (rule syndrome_fits [OF assms(4)])
  have disj: "?s OR ?r = ?s XOR ?r"
    using rf by (intro bit_word_eqI) (auto simp: bit_or_iff bit_xor_iff bits fits_def)
  have enc: "BCHEncode data generator n k = Inr (?s OR ?r)"
    by (simp add: BCHEncode_def Let_def shl_def sh GF2NMod_syndrome [OF s0 assms(4)])
  have "syndrome ?d generator (?s OR ?r) = 0"
    unfolding disj syndrome_xor syndrome_id [OF rf] by simp
  moreover have "?s OR ?r \<noteq> 0" using s0 by (simp add: or_eq_0_iff)
  ultimately have "BCHValidate (?s OR ?r) generator = Inr 1"
    by (simp add: BCHValidate_syndrome [OF _ assms(4)])
  moreover have "drop_bit ?d (?s OR ?r) = data"
    using ds rf drop_bit_0_iff [of ?d ?r] by simp
  ultimately show ?thesis using enc by (simp add: BCHRecoverErrorFreeCodeword_def shr_def sh)
qed

lemma bch_encode_valid_witness:
  "\<exists>c. BCHEncode 5 0x537 15 5 = Inr c \<and> BCHValidate c 0x537 = Inr 1 \<and> BCHRecoverErrorFreeCodeword c 15 5 = 5"
  by (rule bch_encode_valid) (simp_all add: has_degree_def fits_less bit_numeral_rec)

text \<open>
  A valid word that is hit by one burst of errors, of at most as many bits as the generator's
  degree and at any position, is no longer valid, if the generator has a constant term.
\<close>
lemma bch_detects_bursts:
  assumes "has_degree generator d" and "bit generator 0"
    and "c \<noteq> 0" and "BCHValidate c generator = Inr 1"
    and "burst \<noteq> 0" and "fits d burst" and "fits (32 - i) burst" and "i < 32"
  shows "BCHValidate (c XOR push_bit i burst) generator = Inr 0"
proof -
  have c: "syndrome d generator c = 0"
    using assms(3,4) BCHValidate_syndrome [OF assms(3,1)] by (auto split: if_splits)
  have e: "syndrome d generator (push_bit i burst) \<noteq> 0"
    using syndrome_burst assms by blast
  have "c XOR push_bit i burst \<noteq> 0"
    using c e by (auto simp: xor_zero_iff)
  then show ?thesis using c e by (simp add: BCHValidate_syndrome [OF _ assms(1)] syndrome_xor)
qed

lemma bch_detects_bursts_witness:
  "BCHValidate (0x537 XOR push_bit 3 0x2A5) 0x537 = Inr 0"
proof -
  have "BCHValidate 0x537 0x537 = Inr 1" by code_simp
  then show ?thesis
    by (rule bch_detects_bursts [rotated 3, where d = 10]) (simp_all add: has_degree_def fits_less bit_numeral_rec)
qed

text \<open>
  The search for the degree never ends on a zero word: \<open>GF2NMod\<close> returns exactly when
  both of its arguments are non-zero, and so \<open>BCHEncode\<close> hangs on the data word 0.
\<close>
lemma bch_zero_hangs:
  "(GF2NMod a b = Inl Hang \<longleftrightarrow> a = 0 \<or> b = 0) \<and> BCHEncode 0 generator n k = Inl Hang"
proof -
  have z: "gf2_digits 31 0 = Inl Hang"
    using gf2_digits_degree [of 31 0] by (auto simp: has_degree_def)
  have "\<exists>r. GF2NMod a b = Inr r" if "a \<noteq> 0" "b \<noteq> 0"
    using GF2NMod_rem [OF that(1)] degree_exists [OF that(2)] by blast
  moreover have "GF2NMod a b = Inl Hang" if "a = 0 \<or> b = 0"
    using that z degree_exists [of a] by (cases "a = 0") (auto simp: GF2NMod_def)
  ultimately have "GF2NMod a b = Inl Hang \<longleftrightarrow> a = 0 \<or> b = 0" by (metis Inl_Inr_False)
  then show ?thesis using z by (simp add: BCHEncode_def Let_def shl_def GF2NMod_def)
qed

end
