(* ===== verification/Pdu_State.thy ===== *)
theory Pdu_State
  imports Rpc Buffers
begin

text \<open>
  The global variables of the PDU firmware (\<open>src/PDUFirmware\<close>) as a record that extends the machine,
  grouped by the file that defines them, and the relation \<open>evolves\<close> that every operation of the
  firmware is shown to stay in: it is reflexive and transitive, and holds the facts that the
  properties spanning several components rest on.
\<close>

section \<open>Configuration\<close>

text \<open>
  What the C files take from outside the repository: the opcodes of the Ethernet MAC and the
  ethertypes come from generated headers whose sources are not in it, the build time is a
  compiler macro, and \<open>stack_oid\<close>, \<open>stack_community\<close> are what an uninitialised local array holds.
\<close>

record pdu_cfg =
  ETH_RESET :: u32
  ETH_SET_MAC :: u32
  ETH_REGISTER_TYPE :: u32
  ETH_SET_DSTMAC :: u32
  ETH_SEND_FRAME :: u32
  ETH_FRAME_READY :: u32
  ETH_LINK_STATE :: u32
  ETHERTYPE_ARP :: u16
  ETHERTYPE_IPV4 :: u16
  build_time :: "u8 list"
  stack_oid :: "u32 list"
  stack_community :: "u8 list"

section \<open>Global variables\<close>

type_synonym mac = "u16 \<times> u16 \<times> u16"

record ARPTableEntry =
  arp_valid :: u8
  arp_mac :: mac
  arp_ip :: u32

datatype dhcp_state =
    DHCP_STATE_IDLE
  | DHCP_STATE_LINK_UP_0
  | DHCP_STATE_LINK_UP_1
  | DHCP_STATE_WAIT_FOR_OFFER
  | DHCP_STATE_WAIT_FOR_ACK
  | DHCP_STATE_BOUND

record pdu = cpu +
  cfg :: pdu_cfg
  g_periphAddr :: u32
  g_ramAddr :: u32
  g_sysinfoAddr :: u32
  g_uptime :: u32
  g_vnom :: u32
  g_vlockout :: u32
  g_faultled :: u32
  g_thermalshutdown :: u32
  g_outputStageAddr :: u32
  g_currentLimits :: "u32 list"
  g_inrushTimers :: "u32 list"
  g_linkState :: u32
  g_linkSpeed :: u32
  g_mac :: mac
  g_ethAddr :: u32
  g_nextArpSet :: u8
  g_arpTable :: "ARPTableEntry list"
  g_ipAddress :: u32
  g_broadcastAddress :: u32
  g_subnetMask :: u32
  g_routerAddress :: u32
  g_dhcpState :: dhcp_state
  g_dhcpServerAddress :: u32
  g_hostname :: "u8 list"

abbreviation (input) ARP_TABLE_SIZE :: nat where "ARP_TABLE_SIZE \<equiv> 32"
abbreviation (input) TIMER_HZ :: u32 where "TIMER_HZ \<equiv> 4"

section \<open>Opcodes of the peripherals\<close>

abbreviation (input) PERIPH_I2C_SET_CLKDIV :: u32 where "PERIPH_I2C_SET_CLKDIV \<equiv> 1"
abbreviation (input) PERIPH_I2C_SEND_START :: u32 where "PERIPH_I2C_SEND_START \<equiv> 2"
abbreviation (input) PERIPH_I2C_SEND_STOP :: u32 where "PERIPH_I2C_SEND_STOP \<equiv> 4"
abbreviation (input) PERIPH_I2C_SEND_BYTE :: u32 where "PERIPH_I2C_SEND_BYTE \<equiv> 5"
abbreviation (input) PERIPH_I2C_RECV_BYTE :: u32 where "PERIPH_I2C_RECV_BYTE \<equiv> 6"
abbreviation (input) PERIPH_SPI_SET_CLKDIV :: u32 where "PERIPH_SPI_SET_CLKDIV \<equiv> 7"
abbreviation (input) PERIPH_SPI_ASSERT_CS :: u32 where "PERIPH_SPI_ASSERT_CS \<equiv> 8"
abbreviation (input) PERIPH_SPI_SEND_BYTE :: u32 where "PERIPH_SPI_SEND_BYTE \<equiv> 9"
abbreviation (input) PERIPH_SPI_RECV_BYTE :: u32 where "PERIPH_SPI_RECV_BYTE \<equiv> 0xa"
abbreviation (input) PERIPH_SPI_DEASSERT_CS :: u32 where "PERIPH_SPI_DEASSERT_CS \<equiv> 0xb"
abbreviation (input) PERIPH_SET_BOARD_FAULT :: u32 where "PERIPH_SET_BOARD_FAULT \<equiv> 0xc"
abbreviation (input) PERIPH_GPIO_RDWR :: u32 where "PERIPH_GPIO_RDWR \<equiv> 0xd"
abbreviation (input) PERIPH_TIMER_SET_COUNT :: u32 where "PERIPH_TIMER_SET_COUNT \<equiv> 0xe"
abbreviation (input) PERIPH_TIMER_START :: u32 where "PERIPH_TIMER_START \<equiv> 0xf"
abbreviation (input) PERIPH_VOLTAGE_MODE :: u32 where "PERIPH_VOLTAGE_MODE \<equiv> 0x11"
abbreviation (input) PERIPH_INT_TIMER :: u32 where "PERIPH_INT_TIMER \<equiv> 0x80"
abbreviation (input) OUTSTAGE_POWER_STATE :: u32 where "OUTSTAGE_POWER_STATE \<equiv> 1"
abbreviation (input) OUTSTAGE_INRUSH_TIME :: u32 where "OUTSTAGE_INRUSH_TIME \<equiv> 2"
abbreviation (input) OUTSTAGE_GET_STATUS :: u32 where "OUTSTAGE_GET_STATUS \<equiv> 3"
abbreviation (input) SYSINFO_CHIP_SERIAL :: u32 where "SYSINFO_CHIP_SERIAL \<equiv> 1"
abbreviation (input) SYSINFO_GET_CYCFREQ :: u32 where "SYSINFO_GET_CYCFREQ \<equiv> 2"
abbreviation (input) RAM_ALLOCATE :: u32 where "RAM_ALLOCATE \<equiv> 2"
abbreviation (input) RAM_FREE :: u32 where "RAM_FREE \<equiv> 3"
abbreviation (input) RAM_CHOWN :: u32 where "RAM_CHOWN \<equiv> 5"

section \<open>Well-formed states\<close>

definition arp_row_ok :: "nat \<Rightarrow> ARPTableEntry \<Rightarrow> bool" where
  "arp_row_ok row e \<longleftrightarrow> (arp_valid e \<noteq> 0 \<longrightarrow> row div 2 = unat (arp_ip e AND 0xf))"

text \<open>
  The cache: 32 rows, a valid entry stands in one of the two rows of its address, no
  address is stored twice, and the set to fill next is 0 or 1.
\<close>

definition arp_ok :: "ARPTableEntry list \<Rightarrow> u8 \<Rightarrow> bool" where
  "arp_ok t nxt \<longleftrightarrow> length t = ARP_TABLE_SIZE \<and> (nxt = 0 \<or> nxt = 1) \<and>
     (\<forall>i < length t. arp_row_ok i (t ! i)) \<and>
     (\<forall>i < length t. \<forall>j < length t. arp_valid (t ! i) \<noteq> 0 \<longrightarrow> arp_valid (t ! j) \<noteq> 0 \<longrightarrow>
        arp_ip (t ! i) = arp_ip (t ! j) \<longrightarrow> i = j)"

definition pdu_ok :: "pdu \<Rightarrow> bool" where
  "pdu_ok s \<longleftrightarrow> intq_ok (pend s) \<and> arp_ok (g_arpTable s) (g_nextArpSet s) \<and>
     length (g_currentLimits s) = 10 \<and> (\<forall>l \<in> set (g_currentLimits s). l \<le> 5000) \<and>
     length (g_inrushTimers s) = 10 \<and>
     length (g_hostname s) = 32 \<and> g_hostname s ! 31 = 0 \<and>
     length (stack_oid (cfg s)) = 24 \<and> length (stack_community (cfg s)) = 32"

section \<open>Evolution\<close>

text \<open>The addresses that the boot code fills in; the output stage is a host of its own.\<close>

definition hosts :: "pdu \<Rightarrow> u32 \<times> u32 \<times> u32 \<times> u32 \<times> u32" where
  "hosts s = (g_periphAddr s, g_ramAddr s, g_sysinfoAddr s, g_ethAddr s, g_outputStageAddr s)"

definition output_apart :: "pdu \<Rightarrow> bool" where
  "output_apart s \<longleftrightarrow> g_outputStageAddr s \<notin> {g_periphAddr s, g_ramAddr s, g_sysinfoAddr s, g_ethAddr s}"

text \<open>The command that switches an output on.\<close>

fun power_on :: "u32 \<Rightarrow> io_event \<Rightarrow> bool" where
  "power_on stage (Sent m) \<longleftrightarrow> m_to m = stage \<and> m_callnum m = OUTSTAGE_POWER_STATE \<and>
     m_type m = RPC_TYPE_CALL \<and> m_d1 m \<noteq> 0"
| "power_on stage _ \<longleftrightarrow> False"

text \<open>
  \<open>evolves fs s s'\<close>: an operation of the firmware has taken \<open>s\<close> to \<open>s'\<close>. The state is well formed, the
  addresses of the peripherals are unchanged, lockout and thermal shutdown are never reset, during a
  lockout no output is switched on, and the pages mapped in addition to those of \<open>s\<close> are the frames
  in \<open>fs\<close>, the ones the caller has still to send or to free. (Page 0 is left out: the code takes a
  null pointer for a failed allocation.)
\<close>

definition evolves :: "u32 list \<Rightarrow> pdu \<Rightarrow> pdu \<Rightarrow> bool" where
  "evolves fs s s' \<longleftrightarrow> pdu_ok s \<and> output_apart s \<and> pdu_ok s' \<and>
     hosts s' = hosts s \<and> cfg s' = cfg s \<and> g_vnom s' = g_vnom s \<and>
     (g_vlockout s \<noteq> 0 \<longrightarrow> g_vlockout s' \<noteq> 0) \<and>
     (g_thermalshutdown s \<noteq> 0 \<longrightarrow> g_thermalshutdown s' \<noteq> 0) \<and>
     (\<forall>a. mmu s' a \<noteq> PAGE_GUARD \<longrightarrow> a = 0 \<or> a \<in> set fs \<or> mmu s a \<noteq> PAGE_GUARD) \<and>
     (\<exists>evs. io s' = io s @ evs \<and>
        (g_vlockout s \<noteq> 0 \<longrightarrow> (\<forall>e \<in> set evs. \<not> power_on (g_outputStageAddr s) e)))"

lemma evolves_refl: "pdu_ok s \<Longrightarrow> output_apart s \<Longrightarrow> evolves [] s s"
  by (simp add: evolves_def)

lemma evolves_ok: "evolves fs s s' \<Longrightarrow> pdu_ok s'"
  by (simp add: evolves_def)

lemma evolves_apart: "evolves fs s s' \<Longrightarrow> output_apart s'"
  by (simp add: evolves_def output_apart_def hosts_def)

lemma evolves_pages:
  "evolves fs s s' \<Longrightarrow> mmu s' a \<noteq> PAGE_GUARD \<Longrightarrow> a = 0 \<or> a \<in> set fs \<or> mmu s a \<noteq> PAGE_GUARD"
  unfolding evolves_def by blast

text \<open>One operation after another: the frames in hand are those of the second, the others may be mapped no more.\<close>

lemma evolves_extend:
  assumes "evolves fs s s'" and "evolves gs s' s''"
    and "\<And>a. mmu s'' a \<noteq> PAGE_GUARD \<Longrightarrow> a = 0 \<or> a \<in> set hs \<or> mmu s a \<noteq> PAGE_GUARD"
  shows "evolves hs s s''"
proof -
  obtain evs where 1: "io s' = io s @ evs" "g_vlockout s \<noteq> 0 \<longrightarrow> (\<forall>e \<in> set evs. \<not> power_on (g_outputStageAddr s) e)"
    using assms(1) unfolding evolves_def by blast
  obtain evs' where 2: "io s'' = io s' @ evs'" "g_vlockout s' \<noteq> 0 \<longrightarrow> (\<forall>e \<in> set evs'. \<not> power_on (g_outputStageAddr s') e)"
    using assms(2) unfolding evolves_def by blast
  have l: "g_vlockout s \<noteq> 0 \<longrightarrow> g_vlockout s' \<noteq> 0" "g_outputStageAddr s' = g_outputStageAddr s"
    using assms(1) by (simp_all add: evolves_def hosts_def)
  have "\<exists>evs. io s'' = io s @ evs \<and>
      (g_vlockout s \<noteq> 0 \<longrightarrow> (\<forall>e \<in> set evs. \<not> power_on (g_outputStageAddr s) e))"
    using 1 2 l by (intro exI [of _ "evs @ evs'"]) auto
  then show ?thesis using assms unfolding evolves_def by simp
qed

lemma evolves_trans: "evolves [] s s' \<Longrightarrow> evolves fs s' s'' \<Longrightarrow> evolves fs s s''"
  by (rule evolves_extend) (auto dest!: evolves_pages)

lemma pdu_more:
  fixes s s' :: pdu
  assumes "cpu.more s' = cpu.more s"
  shows "cfg s' = cfg s \<and> hosts s' = hosts s \<and> g_uptime s' = g_uptime s \<and> g_vnom s' = g_vnom s \<and>
    g_vlockout s' = g_vlockout s \<and> g_faultled s' = g_faultled s \<and> g_thermalshutdown s' = g_thermalshutdown s \<and>
    g_currentLimits s' = g_currentLimits s \<and> g_inrushTimers s' = g_inrushTimers s \<and>
    g_linkState s' = g_linkState s \<and> g_linkSpeed s' = g_linkSpeed s \<and> g_mac s' = g_mac s \<and>
    g_nextArpSet s' = g_nextArpSet s \<and> g_arpTable s' = g_arpTable s \<and> g_ipAddress s' = g_ipAddress s \<and>
    g_broadcastAddress s' = g_broadcastAddress s \<and> g_subnetMask s' = g_subnetMask s \<and>
    g_routerAddress s' = g_routerAddress s \<and> g_dhcpState s' = g_dhcpState s \<and>
    g_dhcpServerAddress s' = g_dhcpServerAddress s \<and> g_hostname s' = g_hostname s"
  using assms by (cases s; cases s') (simp add: hosts_def cpu.defs)

lemma pdu_helper_simps [simp]:
  fixes s :: pdu
  shows
  "cfg (MmapHelper a b c d s) = cfg s" "cfg (FlushDsideL1Cache a n s) = cfg s"
  "hosts (MmapHelper a b c d s) = hosts s" "hosts (FlushDsideL1Cache a n s) = hosts s"
  "g_periphAddr (MmapHelper a b c d s) = g_periphAddr s" "g_periphAddr (FlushDsideL1Cache a n s) = g_periphAddr s"
  "g_ramAddr (MmapHelper a b c d s) = g_ramAddr s" "g_ramAddr (FlushDsideL1Cache a n s) = g_ramAddr s"
  "g_sysinfoAddr (MmapHelper a b c d s) = g_sysinfoAddr s" "g_sysinfoAddr (FlushDsideL1Cache a n s) = g_sysinfoAddr s"
  "g_uptime (MmapHelper a b c d s) = g_uptime s" "g_uptime (FlushDsideL1Cache a n s) = g_uptime s"
  "g_vnom (MmapHelper a b c d s) = g_vnom s" "g_vnom (FlushDsideL1Cache a n s) = g_vnom s"
  "g_vlockout (MmapHelper a b c d s) = g_vlockout s" "g_vlockout (FlushDsideL1Cache a n s) = g_vlockout s"
  "g_faultled (MmapHelper a b c d s) = g_faultled s" "g_faultled (FlushDsideL1Cache a n s) = g_faultled s"
  "g_thermalshutdown (MmapHelper a b c d s) = g_thermalshutdown s" "g_thermalshutdown (FlushDsideL1Cache a n s) = g_thermalshutdown s"
  "g_outputStageAddr (MmapHelper a b c d s) = g_outputStageAddr s" "g_outputStageAddr (FlushDsideL1Cache a n s) = g_outputStageAddr s"
  "g_currentLimits (MmapHelper a b c d s) = g_currentLimits s" "g_currentLimits (FlushDsideL1Cache a n s) = g_currentLimits s"
  "g_inrushTimers (MmapHelper a b c d s) = g_inrushTimers s" "g_inrushTimers (FlushDsideL1Cache a n s) = g_inrushTimers s"
  "g_linkState (MmapHelper a b c d s) = g_linkState s" "g_linkState (FlushDsideL1Cache a n s) = g_linkState s"
  "g_linkSpeed (MmapHelper a b c d s) = g_linkSpeed s" "g_linkSpeed (FlushDsideL1Cache a n s) = g_linkSpeed s"
  "g_mac (MmapHelper a b c d s) = g_mac s" "g_mac (FlushDsideL1Cache a n s) = g_mac s"
  "g_ethAddr (MmapHelper a b c d s) = g_ethAddr s" "g_ethAddr (FlushDsideL1Cache a n s) = g_ethAddr s"
  "g_nextArpSet (MmapHelper a b c d s) = g_nextArpSet s" "g_nextArpSet (FlushDsideL1Cache a n s) = g_nextArpSet s"
  "g_arpTable (MmapHelper a b c d s) = g_arpTable s" "g_arpTable (FlushDsideL1Cache a n s) = g_arpTable s"
  "g_ipAddress (MmapHelper a b c d s) = g_ipAddress s" "g_ipAddress (FlushDsideL1Cache a n s) = g_ipAddress s"
  "g_broadcastAddress (MmapHelper a b c d s) = g_broadcastAddress s" "g_broadcastAddress (FlushDsideL1Cache a n s) = g_broadcastAddress s"
  "g_subnetMask (MmapHelper a b c d s) = g_subnetMask s" "g_subnetMask (FlushDsideL1Cache a n s) = g_subnetMask s"
  "g_routerAddress (MmapHelper a b c d s) = g_routerAddress s" "g_routerAddress (FlushDsideL1Cache a n s) = g_routerAddress s"
  "g_dhcpState (MmapHelper a b c d s) = g_dhcpState s" "g_dhcpState (FlushDsideL1Cache a n s) = g_dhcpState s"
  "g_dhcpServerAddress (MmapHelper a b c d s) = g_dhcpServerAddress s" "g_dhcpServerAddress (FlushDsideL1Cache a n s) = g_dhcpServerAddress s"
  "g_hostname (MmapHelper a b c d s) = g_hostname s" "g_hostname (FlushDsideL1Cache a n s) = g_hostname s"
  by (simp_all add: MmapHelper_def FlushDsideL1Cache_def hosts_def)

lemma evolves_only:
  assumes e: "evolves fs s0 s"
    and o: "only P s s'" and "\<And>e. P e \<Longrightarrow> g_vlockout s \<noteq> 0 \<Longrightarrow> \<not> power_on (g_outputStageAddr s) e"
    and "\<And>a. mmu s' a \<noteq> PAGE_GUARD \<Longrightarrow> mmu s a = PAGE_GUARD \<or> a \<in> set fs - set gs \<Longrightarrow> a \<in> set gs"
  shows "evolves gs s0 s'"
proof (rule evolves_extend [OF e])
  have "pdu_ok s'"
    using evolves_ok [OF e] pdu_more [OF only_more [OF o]] only_intq [OF o] by (simp add: pdu_ok_def)
  then show "evolves gs s s'"
    using evolves_ok [OF e] evolves_apart [OF e] pdu_more [OF only_more [OF o]] assms(2-)
    by (auto simp: evolves_def only_def)
next
  fix a
  assume "mmu s' a \<noteq> PAGE_GUARD"
  then show "a = 0 \<or> a \<in> set gs \<or> mmu s0 a \<noteq> PAGE_GUARD"
    using assms(4) [of a] evolves_pages [OF e, of a] by blast
qed

text \<open>The rule for a remote call: any call that does not switch an output on during a lockout.\<close>

lemma call_evolves [vcg]:
  assumes "evolves fs s0 s"
    and "addr = g_outputStageAddr s \<Longrightarrow> g_vlockout s \<noteq> 0 \<Longrightarrow> callnum = OUTSTAGE_POWER_STATE \<Longrightarrow> d1 = 0"
    and "\<And>rc r s'. evolves fs s0 s' \<Longrightarrow> cpu.more s' = cpu.more s \<Longrightarrow> same_memory s s' \<Longrightarrow> Q (rc, r, s')"
  shows "wp no_overrun Q (RPCFunctionCall addr callnum d0 d1 d2 s)"
proof (rule RPCFunctionCall_vcg)
  fix rc r s'
  assume o: "only (\<lambda>e. e = Sent (rpc_request addr callnum d0 d1 d2) \<or> (\<exists>m. e = Received m)) s s'"
    and m: "same_memory s s'"
  have "evolves fs s0 s'"
    by (rule evolves_only [OF assms(1) o]) (use assms(2) m in \<open>auto simp: rpc_request_def same_memory_def\<close>)
  then show "Q (rc, r, s')"
    using assms(3) only_more [OF o] m by blast
qed simp

lemma memory_evolves:
  assumes "evolves fs s0 s"
  shows "evolves fs s0 (s\<lparr>mem := m\<rparr>)" "evolves fs s0 (FlushDsideL1Cache a n s)"
    "evolves ((a AND PAGE_MASK) # fs) s0 (MmapHelper a b c d s)"
  by (rule evolves_only [OF assms only_mem [of "\<lambda>_. False"]], simp_all)
    (rule evolves_only [OF assms, of "\<lambda>e. e = Flushed a n"], auto simp: only_flush,
     rule evolves_only [OF assms, of "\<lambda>e. e = Mapped a b c d"], auto simp: only_mmap split: if_splits)

text \<open>Unmapping the frame that was taken last.\<close>

lemma unmap_evolves:
  assumes "evolves (page # fs) s0 s" and "page = a AND PAGE_MASK"
  shows "evolves fs s0 (MmapHelper a b c PAGE_GUARD s)"
  by (rule evolves_only [OF assms(1), of "\<lambda>e. e = Mapped a b c PAGE_GUARD"])
    (use assms(2) in \<open>auto simp: only_mmap split: if_splits\<close>)

text \<open>A remote call for its exact effect: one more request, no global variable changed.\<close>

lemma pdu_call_sends:
  fixes s0 s :: pdu
  assumes "sends s0 s xs"
    and "\<And>rc r s'. cpu.more s' = cpu.more s \<Longrightarrow> g_periphAddr s' = g_periphAddr s \<Longrightarrow> g_ramAddr s' = g_ramAddr s \<Longrightarrow>
      g_sysinfoAddr s' = g_sysinfoAddr s \<Longrightarrow> g_ethAddr s' = g_ethAddr s \<Longrightarrow>
      g_outputStageAddr s' = g_outputStageAddr s \<Longrightarrow> cfg s' = cfg s \<Longrightarrow> same_memory s s' \<Longrightarrow>
      rpc_answer addr r \<Longrightarrow> rc = rpc_status r \<Longrightarrow>
      sends s0 s' (xs @ [rpc_request addr c d0 d1 d2]) \<Longrightarrow> Q (rc, r, s')"
  shows "wp only_blocks Q (RPCFunctionCall addr c d0 d1 d2 s)"
proof (rule call_sends_vcg [OF assms(1)])
  fix rc r s'
  assume "rpc_answer addr r" "rc = rpc_status r" "same_memory s s'" "cpu.more s' = cpu.more s"
    "sends s0 s' (xs @ [rpc_request addr c d0 d1 d2])"
  then show "Q (rc, r, s')"
    using assms(2) [of s' r rc] pdu_more [of s' s] by (auto simp: hosts_def)
qed simp

section \<open>A concrete state\<close>

text \<open>Hosts at 0x10 to 0x14, an empty cache, and a network that grants the first few calls to each.\<close>

definition blank_cfg :: pdu_cfg where
  "blank_cfg = \<lparr>ETH_RESET = 0, ETH_SET_MAC = 1, ETH_REGISTER_TYPE = 2, ETH_SET_DSTMAC = 3, ETH_SEND_FRAME = 4,
     ETH_FRAME_READY = 0x90, ETH_LINK_STATE = 0x91, ETHERTYPE_ARP = 0x0806, ETHERTYPE_IPV4 = 0x0800,
     build_time = [], stack_oid = replicate 24 0, stack_community = replicate 32 0\<rparr>"

definition granted :: "u32 \<Rightarrow> u32 \<Rightarrow> RPCMessage" where
  "granted host v = \<lparr>m_from = host, m_to = 0, m_callnum = 0, m_type = RPC_TYPE_RETURN_SUCCESS,
     m_d0 = v, m_d1 = v, m_d2 = v\<rparr>"

definition blank_pdu :: pdu where
  "blank_pdu = cpu.extend blank_cpu \<lparr>cfg = blank_cfg, g_periphAddr = 0x10, g_ramAddr = 0x11, g_sysinfoAddr = 0x12,
     g_uptime = 0, g_vnom = 5000, g_vlockout = 0, g_faultled = 0, g_thermalshutdown = 0,
     g_outputStageAddr = 0x13, g_currentLimits = replicate 10 50, g_inrushTimers = replicate 10 1,
     g_linkState = 0, g_linkSpeed = 0, g_mac = (0x0200, 0, 1), g_ethAddr = 0x14, g_nextArpSet = 0,
     g_arpTable = replicate 32 \<lparr>arp_valid = 0, arp_mac = (0, 0, 0), arp_ip = 0\<rparr>,
     g_ipAddress = 0, g_broadcastAddress = 0, g_subnetMask = 0, g_routerAddress = 0,
     g_dhcpState = DHCP_STATE_IDLE, g_dhcpServerAddress = 0, g_hostname = replicate 32 0\<rparr>"

lemma blank_pdu_simps [simp]:
  "inbox blank_pdu = []" "io blank_pdu = []" "intq_ok (pend blank_pdu)" "queued (pend blank_pdu) = []"
  "mem blank_pdu = (\<lambda>_. 0)" "mmu blank_pdu = (\<lambda>_. 6)" "cfg blank_pdu = blank_cfg"
  "g_periphAddr blank_pdu = 0x10" "g_ramAddr blank_pdu = 0x11" "g_sysinfoAddr blank_pdu = 0x12"
  "g_outputStageAddr blank_pdu = 0x13" "g_ethAddr blank_pdu = 0x14" "g_vlockout blank_pdu = 0"
  "g_thermalshutdown blank_pdu = 0" "g_vnom blank_pdu = 5000"
  "g_currentLimits blank_pdu = replicate 10 50" "g_inrushTimers blank_pdu = replicate 10 1"
  "g_arpTable blank_pdu = replicate 32 \<lparr>arp_valid = 0, arp_mac = (0, 0, 0), arp_ip = 0\<rparr>"
  "g_nextArpSet blank_pdu = 0" "g_ipAddress blank_pdu = 0" "g_hostname blank_pdu = replicate 32 0"
  "g_dhcpState blank_pdu = DHCP_STATE_IDLE" "g_mac blank_pdu = (0x0200, 0, 1)"
  by (simp_all add: blank_pdu_def cpu.defs blank_cpu_def queued_init intq_ok_init)

lemma blank_pdu_ok [simp]: "pdu_ok blank_pdu" "output_apart blank_pdu"
  by (simp_all add: pdu_ok_def arp_ok_def arp_row_ok_def blank_cfg_def output_apart_def)

text \<open>A call that is granted at once.\<close>

lemma granted_call:
  "inbox s = granted addr v # ms \<Longrightarrow> RPCFunctionCall addr c d0 d1 d2 s = Inr (0, granted addr v, s\<lparr>inbox := ms,
      io := io s @ [Sent (rpc_request addr c d0 d1 d2), Received (granted addr v)]\<rparr>)"
proof -
  assume i: "inbox s = granted addr v # ms"
  have "from_answer addr (inbox s) = granted addr v # ms" "overtaken addr (inbox s) = []"
    by (simp_all add: i from_answer_def overtaken_def rpc_answer_def granted_def)
  from call_answered [OF this(1) refl refl, unfolded this(2)] show ?thesis
    by (cases s) (simp add: rpc_status_def granted_def)
qed

lemma granted_simps [simp]: "m_d0 (granted h v) = v" "m_d1 (granted h v) = v" "m_d2 (granted h v) = v"
  by (simp_all add: granted_def)

end
