(* ===== verification/Pdu_Hw.thy ===== *)
theory Pdu_Hw
  imports Pdu_State
begin

text \<open>
  The drivers of the PDU firmware: A-D converters (\<open>ADC.c\<close>), the sensors read through them
  (\<open>VoltageSensor.c\<close>, \<open>CurrentSensor.c\<close>), temperature sensors (\<open>TempSensor.c\<close>), D-A
  converters (\<open>DAC.c\<close>), I2C and GPIO initialisation and the output stage (\<open>Output.c\<close>).
\<close>

section \<open>Initialisation\<close>

definition ADCInitialize :: "pdu \<Rightarrow> pdu res" where
  "ADCInitialize s =
     andthen (RPCFunctionCall (g_sysinfoAddr s) SYSINFO_GET_CYCFREQ 0 (250 * 1000) 0 s) (\<lambda>(rc, rmsg, s).
     let spiclk = m_d1 rmsg in
     foreach [0..<3] (\<lambda>i s.
       andthen (RPCFunctionCall (g_periphAddr s) PERIPH_SPI_SET_CLKDIV spiclk (of_nat i) 0 s)
         (\<lambda>(rc, rmsg, s). Inr s)) s)"

definition I2CInitialize :: "pdu \<Rightarrow> pdu res" where
  "I2CInitialize s =
     andthen (RPCFunctionCall (g_sysinfoAddr s) SYSINFO_GET_CYCFREQ 0 (100 * 1000) 0 s) (\<lambda>(rc, rmsg, s).
     andthen (RPCFunctionCall (g_periphAddr s) PERIPH_I2C_SET_CLKDIV (m_d1 rmsg) 0 0 s) (\<lambda>(rc, rmsg, s). Inr s))"

definition GPIOSetFaultLED :: "u32 \<Rightarrow> pdu \<Rightarrow> pdu res" where
  "GPIOSetFaultLED fault s =
     andthen (RPCFunctionCall (g_periphAddr s) PERIPH_SET_BOARD_FAULT fault 0 0 s) (\<lambda>(rc, rmsg, s). Inr s)"

definition GPIOInitialize :: "pdu \<Rightarrow> pdu res" where
  "GPIOInitialize s =
     andthen (RPCFunctionCall (g_periphAddr s) PERIPH_GPIO_RDWR 0 0 0 s) (\<lambda>(rc, rmsg, s).
     GPIOSetFaultLED 0 s)"

section \<open>Sensors\<close>

definition ADCRead :: "u8 \<Rightarrow> u8 \<Rightarrow> pdu \<Rightarrow> (u32 \<times> pdu) res" where
  "ADCRead spi_channel adc_channel s =
     (let opcode = push_bit 1 (0x30 OR push_bit 1 adc_channel) :: u8; chan = ucast spi_channel in
      andthen (RPCFunctionCall (g_periphAddr s) PERIPH_SPI_ASSERT_CS 0 chan 0 s) (\<lambda>(rc, rmsg, s).
      andthen (RPCFunctionCall (g_periphAddr s) PERIPH_SPI_SEND_BYTE (ucast opcode) chan 0 s) (\<lambda>(rc, rmsg, s).
      andthen (RPCFunctionCall (g_periphAddr s) PERIPH_SPI_RECV_BYTE 0 chan 0 s) (\<lambda>(rc, rmsg, s).
      let d0 = m_d0 rmsg in
      andthen (RPCFunctionCall (g_periphAddr s) PERIPH_SPI_RECV_BYTE 0 chan 0 s) (\<lambda>(rc, rmsg, s).
      let d1 = m_d0 rmsg in
      andthen (RPCFunctionCall (g_periphAddr s) PERIPH_SPI_DEASSERT_CS 0 chan 0 s) (\<lambda>(rc, rmsg, s).
      Inr ((push_bit 4 d0 AND 0xFF0) OR (drop_bit 4 d1 AND 0xF), s)))))))"

definition GetTemperature :: "u8 \<Rightarrow> pdu \<Rightarrow> (u32 \<times> pdu) res" where
  "GetTemperature sensor s =
     (let addr = 0x90 OR push_bit 1 sensor :: u8 in
      andthen (RPCFunctionCall (g_periphAddr s) PERIPH_I2C_SEND_START 0 0 0 s) (\<lambda>(rc, rmsg, s).
      andthen (RPCFunctionCall (g_periphAddr s) PERIPH_I2C_SEND_BYTE (ucast addr OR 1) 0 0 s) (\<lambda>(rc, rmsg, s).
      andthen (RPCFunctionCall (g_periphAddr s) PERIPH_I2C_RECV_BYTE 0 0 0 s) (\<lambda>(rc, rmsg, s).
      let temp_mant = m_d0 rmsg AND 0xFF in
      andthen (RPCFunctionCall (g_periphAddr s) PERIPH_I2C_RECV_BYTE 1 0 0 s) (\<lambda>(rc, rmsg, s).
      andthen (RPCFunctionCall (g_periphAddr s) PERIPH_I2C_SEND_STOP 0 0 0 s) (\<lambda>(rc, rmsg, s).
      Inr (if temp_mant > 127 then 0 else temp_mant, s)))))))"

definition GetVoltage :: "u8 \<Rightarrow> pdu \<Rightarrow> (u32 \<times> pdu) res" where
  "GetVoltage sensor s =
     (let (spi_channel, adc_channel) = (if sensor = 1 then (2, 3) else (0, 0)) in
      andthen (ADCRead spi_channel adc_channel s) (\<lambda>(v, s). Inr (drop_bit 12 (v * 10000), s)))"

definition spi_channels :: "u8 list" where "spi_channels = [0, 0, 0, 1, 1, 1, 1, 2, 2, 2]"
definition adc_channels :: "u8 list" where "adc_channels = [1, 2, 3, 0, 1, 2, 3, 0, 1, 2]"

definition GetCurrent :: "u8 \<Rightarrow> pdu \<Rightarrow> (u32 \<times> pdu) res" where
  "GetCurrent sensor s =
     (let sensor = (if sensor > 9 then 0 else sensor) in
      andthen (aget spi_channels (unat sensor)) (\<lambda>spi_channel.
      andthen (aget adc_channels (unat sensor)) (\<lambda>adc_channel.
      andthen (ADCRead spi_channel adc_channel s) (\<lambda>(v, s). Inr (drop_bit 12 (v * 5000), s)))))"

section \<open>Outputs\<close>

definition DACWrite :: "u32 \<Rightarrow> u32 \<Rightarrow> u32 \<Rightarrow> pdu \<Rightarrow> pdu res" where
  "DACWrite daddr chan code s =
     (let opcode = 0x10 OR push_bit 1 chan in
      andthen (RPCFunctionCall (g_periphAddr s) PERIPH_I2C_SEND_START 0 0 0 s) (\<lambda>(rc, rmsg, s).
      andthen (RPCFunctionCall (g_periphAddr s) PERIPH_I2C_SEND_BYTE (daddr OR 0) 0 0 s) (\<lambda>(rc, rmsg, s).
      andthen (RPCFunctionCall (g_periphAddr s) PERIPH_I2C_SEND_BYTE opcode 0 0 s) (\<lambda>(rc, rmsg, s).
      andthen (RPCFunctionCall (g_periphAddr s) PERIPH_I2C_SEND_BYTE code 0 0 s) (\<lambda>(rc, rmsg, s).
      andthen (RPCFunctionCall (g_periphAddr s) PERIPH_I2C_SEND_BYTE 0 0 0 s) (\<lambda>(rc, rmsg, s).
      andthen (RPCFunctionCall (g_periphAddr s) PERIPH_I2C_SEND_STOP 0 0 0 s) (\<lambda>(rc, rmsg, s).
      Inr s)))))))"

definition OutputGetStatus :: "u8 \<Rightarrow> pdu \<Rightarrow> (u32 \<times> pdu) res" where
  "OutputGetStatus chnum s =
     andthen (RPCFunctionCall (g_outputStageAddr s) OUTSTAGE_GET_STATUS (ucast chnum) 0 0 s)
       (\<lambda>(rc, rmsg, s). Inr (m_d0 rmsg, s))"

definition dac_addr :: "u8 list" where
  "dac_addr = [0x98, 0x98, 0x98, 0x98, 0x9A, 0x9A, 0x9A, 0x9A, 0x9C, 0x9C]"
definition chan_num :: "u8 list" where
  "chan_num = [0, 1, 2, 3, 0, 1, 2, 3, 0, 1]"

definition OutputSetCurrentLimit :: "u32 \<Rightarrow> u32 \<Rightarrow> pdu \<Rightarrow> pdu res" where
  "OutputSetCurrentLimit channel limit s =
     (if channel > 9 then Inr s else
      let limit = (if limit > 5000 then 5000 else limit) in
      andthen (aset (g_currentLimits s) (unat channel) limit) (\<lambda>ls.
      let s = s\<lparr>g_currentLimits := ls\<rparr>; code = (limit * 256) div 5000 in
      andthen (aget dac_addr (unat channel)) (\<lambda>da.
      andthen (aget chan_num (unat channel)) (\<lambda>cn.
      DACWrite (ucast da) (ucast cn) code s))))"

definition OutputSetInrushTime :: "u32 \<Rightarrow> u32 \<Rightarrow> pdu \<Rightarrow> pdu res" where
  "OutputSetInrushTime channel ms s =
     (if channel > 9 then Inr s else
      andthen (aset (g_inrushTimers s) (unat channel) ms) (\<lambda>ts.
      let s = s\<lparr>g_inrushTimers := ts\<rparr>; inrush_hz = 1000 in
      andthen (RPCFunctionCall (g_sysinfoAddr s) SYSINFO_GET_CYCFREQ 0 inrush_hz 0 s) (\<lambda>(rc, rmsg, s).
      let clocks_per_ms = m_d1 rmsg in
      andthen (RPCFunctionCall (g_outputStageAddr s) OUTSTAGE_INRUSH_TIME channel (ms * clocks_per_ms) 0 s)
        (\<lambda>(rc, rmsg, s). Inr s))))"

definition OutputInitialize :: "pdu \<Rightarrow> pdu res" where
  "OutputInitialize s =
     andthen (LookupHostByName (cstr ''outputs'') s) (\<lambda>(a, s).
     let s = s\<lparr>g_outputStageAddr := a\<rparr> in
     foreach [0..<10] (\<lambda>i s.
       andthen (RPCFunctionCall (g_outputStageAddr s) OUTSTAGE_POWER_STATE (of_nat i) 0 0 s) (\<lambda>(rc, rmsg, s).
       andthen (OutputSetCurrentLimit (of_nat i) 50 s) (\<lambda>s.
       OutputSetInrushTime (of_nat i) 1 s))) s)"

section \<open>Every driver evolves the state\<close>

lemma globals_evolve:
  assumes "evolves fs s0 s"
  shows "evolves fs s0 (s\<lparr>g_uptime := u\<rparr>)" "evolves fs s0 (s\<lparr>g_faultled := u\<rparr>)"
    "evolves fs s0 (s\<lparr>g_linkState := u\<rparr>)" "evolves fs s0 (s\<lparr>g_linkSpeed := u\<rparr>)"
    "evolves fs s0 (s\<lparr>g_ipAddress := u\<rparr>)" "evolves fs s0 (s\<lparr>g_broadcastAddress := u\<rparr>)"
    "evolves fs s0 (s\<lparr>g_subnetMask := u\<rparr>)" "evolves fs s0 (s\<lparr>g_routerAddress := u\<rparr>)"
    "evolves fs s0 (s\<lparr>g_dhcpState := d\<rparr>)" "evolves fs s0 (s\<lparr>g_dhcpServerAddress := u\<rparr>)"
    "evolves fs s0 (s\<lparr>g_vlockout := 1\<rparr>)" "evolves fs s0 (s\<lparr>g_thermalshutdown := 1\<rparr>)"
    "arp_ok t n \<Longrightarrow> evolves fs s0 (s\<lparr>g_arpTable := t, g_nextArpSet := n\<rparr>)"
    "length l = 10 \<Longrightarrow> \<forall>x \<in> set l. x \<le> 5000 \<Longrightarrow> evolves fs s0 (s\<lparr>g_currentLimits := l\<rparr>)"
    "length l = 10 \<Longrightarrow> evolves fs s0 (s\<lparr>g_inrushTimers := l\<rparr>)"
    "length h = 32 \<Longrightarrow> h ! 31 = 0 \<Longrightarrow> evolves fs s0 (s\<lparr>g_hostname := h\<rparr>)"
  using assms by (auto simp: evolves_def pdu_ok_def hosts_def)

lemma evolve_parts:
  assumes "evolves fs s0 s"
  shows "length (g_currentLimits s) = 10" "\<forall>x \<in> set (g_currentLimits s). x \<le> 5000"
    "length (g_inrushTimers s) = 10" "length (g_hostname s) = 32" "g_hostname s ! 31 = 0"
    "length (g_arpTable s) = 32" "arp_ok (g_arpTable s) (g_nextArpSet s)" "intq_ok (pend s)"
    "length (stack_oid (cfg s)) = 24" "length (stack_community (cfg s)) = 32"
  using evolves_ok [OF assms] by (simp_all add: pdu_ok_def arp_ok_def)

lemma apart_iff:
  assumes "evolves fs s0 s"
  shows "g_periphAddr s \<noteq> g_outputStageAddr s" "g_ramAddr s \<noteq> g_outputStageAddr s"
    "g_sysinfoAddr s \<noteq> g_outputStageAddr s" "g_ethAddr s \<noteq> g_outputStageAddr s"
  using evolves_apart [OF assms] by (auto simp: output_apart_def)

text \<open>Calls to the hosts other than the output stage, and to it with a harmless command.\<close>

lemma host_calls [vcg]:
  assumes "evolves fs s0 s"
    and "addr = g_periphAddr s \<or> addr = g_ramAddr s \<or> addr = g_sysinfoAddr s \<or> addr = g_ethAddr s \<or>
      addr = g_outputStageAddr s \<and> (c \<noteq> OUTSTAGE_POWER_STATE \<or> d1 = 0 \<or> g_vlockout s = 0)"
    and "\<And>rc r s'. evolves fs s0 s' \<Longrightarrow> cpu.more s' = cpu.more s \<Longrightarrow> same_memory s s' \<Longrightarrow> Q (rc, r, s')"
  shows "wp no_overrun Q (RPCFunctionCall addr c d0 d1 d2 s)"
  using apart_iff [OF assms(1)] assms by (auto intro!: call_evolves [OF assms(1)])

lemma GPIOSetFaultLED_evolves [vcg]:
  assumes "evolves fs s0 s" and "\<And>s'. evolves fs s0 s' \<Longrightarrow> Q s'"
  shows "wp no_overrun Q (GPIOSetFaultLED fault s)"
  using assms unfolding GPIOSetFaultLED_def by (auto intro!: host_calls)

lemma adc_value:
  fixes d0 d1 :: u32
  shows "(push_bit 4 d0 AND 0xFF0) OR (drop_bit 4 d1 AND 0xF) \<le> 4095" (is "?v \<le> _")
proof -
  have "?v AND 4095 = ?v"
    unfolding bit.conj_disj_distrib2 and.assoc by simp
  then show ?thesis by (metis word_and_le1)
qed

lemma ADCRead_evolves [vcg]:
  assumes "evolves fs s0 s" and "\<And>v s'. evolves fs s0 s' \<Longrightarrow> v \<le> 4095 \<Longrightarrow> Q (v, s')"
  shows "wp no_overrun Q (ADCRead spi adc s)"
  using assms(1) unfolding ADCRead_def Let_def by (auto intro!: host_calls assms(2) adc_value)

lemma GetTemperature_evolves [vcg]:
  assumes "evolves fs s0 s" and "\<And>v s'. evolves fs s0 s' \<Longrightarrow> v \<le> 127 \<Longrightarrow> Q (v, s')"
  shows "wp no_overrun Q (GetTemperature sensor s)"
  using assms(1) unfolding GetTemperature_def Let_def by (auto intro!: host_calls assms(2) simp: not_less)

lemma scaled_reading:
  assumes "v \<le> (4095 :: u32)"
  shows "drop_bit 12 (v * 10000) \<le> 9997" "drop_bit 12 (v * 5000) \<le> 4998"
proof -
  have v: "unat v \<le> 4095" using assms by (simp add: word_le_nat_alt)
  have "unat (v * of_nat k) = unat v * k" if "k \<le> 10000" for k
    using v that mult_mono [OF v that] by (simp add: unat_word_ariths unat_of_nat take_bit_nat_eq_self)
  from this [of 10000] this [of 5000] v
  show "drop_bit 12 (v * 10000) \<le> 9997" "drop_bit 12 (v * 5000) \<le> 4998"
    by (simp_all only: word_le_nat_alt unat_drop_bit_eq) (simp_all add: drop_bit_eq_div)
qed

lemma GetVoltage_evolves [vcg]:
  assumes "evolves fs s0 s" and "\<And>v s'. evolves fs s0 s' \<Longrightarrow> v \<le> 9997 \<Longrightarrow> Q (v, s')"
  shows "wp no_overrun Q (GetVoltage sensor s)"
  using assms(1) unfolding GetVoltage_def Let_def
  by (auto intro!: ADCRead_evolves assms(2) scaled_reading)

lemma GetCurrent_evolves [vcg]:
  assumes "evolves fs s0 s" and "\<And>v s'. evolves fs s0 s' \<Longrightarrow> v \<le> 4998 \<Longrightarrow> Q (v, s')"
  shows "wp no_overrun Q (GetCurrent sensor s)"
proof -
  have "unat (if sensor > 9 then 0 else sensor) < 10" by (auto simp: word_less_nat_alt)
  then show ?thesis
    using assms(1) unfolding GetCurrent_def Let_def
    by (auto intro!: ADCRead_evolves assms(2) scaled_reading simp: spi_channels_def adc_channels_def split del: if_split)
qed

lemma DACWrite_evolves [vcg]:
  assumes "evolves fs s0 s" and "\<And>s'. evolves fs s0 s' \<Longrightarrow> cpu.more s' = cpu.more s \<Longrightarrow> Q s'"
  shows "wp no_overrun Q (DACWrite daddr chan code s)"
  using assms(1) unfolding DACWrite_def Let_def by (auto intro!: host_calls assms(2))

lemma OutputGetStatus_evolves [vcg]:
  assumes "evolves fs s0 s" and "\<And>v s'. evolves fs s0 s' \<Longrightarrow> Q (v, s')"
  shows "wp no_overrun Q (OutputGetStatus ch s)"
  using assms(1) unfolding OutputGetStatus_def by (auto intro!: host_calls assms(2))

lemma OutputSetCurrentLimit_evolves [vcg]:
  assumes e: "evolves fs s0 s" and "\<And>s'. evolves fs s0 s' \<Longrightarrow> Q s'"
  shows "wp no_overrun Q (OutputSetCurrentLimit channel limit s)"
proof (cases "channel > 9")
  case True
  then show ?thesis using assms by (simp add: OutputSetCurrentLimit_def)
next
  case False
  then have ch: "unat channel < 10" by (simp add: word_less_nat_alt)
  let ?l = "(g_currentLimits s)[unat channel := if limit > 5000 then 5000 else limit]"
  have "\<forall>x \<in> set ?l. x \<le> 5000"
    using evolve_parts(2) [OF e] set_update_subset_insert [of "g_currentLimits s"] by fastforce
  then have "evolves fs s0 (s\<lparr>g_currentLimits := ?l\<rparr>)"
    using globals_evolve(14) [OF e, of ?l] evolve_parts(1) [OF e] by simp
  then show ?thesis
    using False ch evolve_parts(1) [OF e] unfolding OutputSetCurrentLimit_def Let_def
    by (auto intro!: DACWrite_evolves assms(2) simp: dac_addr_def chan_num_def split del: if_split)
qed

lemma OutputSetInrushTime_evolves [vcg]:
  assumes e: "evolves fs s0 s" and "\<And>s'. evolves fs s0 s' \<Longrightarrow> Q s'"
  shows "wp no_overrun Q (OutputSetInrushTime channel ms s)"
proof (cases "channel > 9")
  case True
  then show ?thesis using assms by (simp add: OutputSetInrushTime_def)
next
  case False
  then have ch: "unat channel < 10" by (simp add: word_less_nat_alt)
  have "evolves fs s0 (s\<lparr>g_inrushTimers := (g_inrushTimers s)[unat channel := ms]\<rparr>)"
    using globals_evolve(15) [OF e] evolve_parts(3) [OF e] by simp
  then show ?thesis
    using False ch evolve_parts(3) [OF e] unfolding OutputSetInrushTime_def Let_def
    by (auto intro!: host_calls assms(2))
qed

section \<open>The exact programming of a converter\<close>

definition dac_frame :: "u32 \<Rightarrow> u32 \<Rightarrow> u32 \<Rightarrow> u32 \<Rightarrow> RPCMessage list" where
  "dac_frame periph daddr chan code =
     rpc_request periph PERIPH_I2C_SEND_START 0 0 0 #
     map (\<lambda>b. rpc_request periph PERIPH_I2C_SEND_BYTE b 0 0) [daddr, 0x10 OR push_bit 1 chan, code, 0] @
     [rpc_request periph PERIPH_I2C_SEND_STOP 0 0 0]"

text \<open>The code for a limit in mA, rounded down; 5000 mA is full scale.\<close>

definition dac_code :: "u32 \<Rightarrow> nat" where
  "dac_code limit = min (unat limit) 5000 * 256 div 5000"

lemma dac_code_word: "(min limit 5000 * 256) div 5000 = (of_nat (dac_code limit) :: u32)"
proof -
  have "unat (min limit 5000) = min (unat limit) 5000" by (auto simp: min_def word_le_nat_alt)
  then have e: "unat ((min limit 5000 * 256) div 5000) = dac_code limit"
    by (simp add: unat_div unat_word_ariths dac_code_def)
  show ?thesis unfolding e [symmetric] by simp
qed

lemma DACWrite_sends:
  assumes "sends s0 s []" and "\<And>s'. cpu.more s' = cpu.more s \<Longrightarrow>
      sends s0 s' (dac_frame (g_periphAddr s) da cn k) \<Longrightarrow> Q s'"
  shows "wp only_blocks Q (DACWrite da cn k s)"
  unfolding DACWrite_def Let_def wp_simps
  by (insert assms(1), (rule pdu_call_sends, assumption, simp only: prod.case wp_simps)+,
      intro assms(2)) (simp_all add: dac_frame_def)

section \<open>Properties\<close>

text \<open>
  C40: whatever the converters answer, a voltage is at most 9997 mV, a current at most 4998 mA and a
  temperature at most 127 degrees (negative ones read as 0); a reading only ever waits for the
  network, it never stops for another reason, for any sensor number.
\<close>
theorem sensor_bounds:
  "wp only_blocks (\<lambda>(v, s'). v \<le> 9997 \<and> cpu.more s' = cpu.more s) (GetVoltage sensor s) \<and>
   wp only_blocks (\<lambda>(v, s'). v \<le> 4998 \<and> cpu.more s' = cpu.more s) (GetCurrent sensor s) \<and>
   wp only_blocks (\<lambda>(v, s'). v \<le> 127 \<and> cpu.more s' = cpu.more s) (GetTemperature sensor s)"
proof -
  have adc: "wp only_blocks (\<lambda>(v, s'). v \<le> 4095 \<and> cpu.more s' = cpu.more s) (ADCRead spi adc s)" for spi adc
    unfolding ADCRead_def Let_def
    by (auto intro!: RPCFunctionCall_vcg adc_value dest!: only_more)
  have "unat (if sensor > 9 then 0 else sensor) < 10" by (auto simp: word_less_nat_alt)
  then have "wp only_blocks (\<lambda>(v, s'). v \<le> 4998 \<and> cpu.more s' = cpu.more s) (GetCurrent sensor s)"
    unfolding GetCurrent_def Let_def
    by (auto intro!: wp_mono [OF adc] scaled_reading simp: spi_channels_def adc_channels_def split del: if_split)
  moreover have "wp only_blocks (\<lambda>(v, s'). v \<le> 9997 \<and> cpu.more s' = cpu.more s) (GetVoltage sensor s)"
    unfolding GetVoltage_def Let_def by (auto intro!: wp_mono [OF adc] scaled_reading)
  moreover have "wp only_blocks (\<lambda>(v, s'). v \<le> 127 \<and> cpu.more s' = cpu.more s) (GetTemperature sensor s)"
    unfolding GetTemperature_def Let_def
    by (auto intro!: RPCFunctionCall_vcg dest!: only_more simp: not_less)
  ultimately show ?thesis by blast
qed

text \<open>
  the current limit of a channel. The stored limit is clamped to 5 A; the code sent to the
  converter of the channel (address and port from the tables) is the limit in units of
  5000/256 mA, rounded down. From 5 A on the code is 256, which does not fit the data byte.
\<close>
lemma current_limit_programmed:
  assumes "channel \<le> 9" and "length (g_currentLimits s) = 10"
  shows "wp only_blocks (\<lambda>s'. g_currentLimits s' = (g_currentLimits s)[unat channel := min limit 5000] \<and>
      sends s s' (dac_frame (g_periphAddr s) (ucast (dac_addr ! unat channel))
        (ucast (chan_num ! unat channel)) (of_nat (dac_code limit))))
    (OutputSetCurrentLimit channel limit s) \<and>
    dac_code limit \<le> 256 \<and> (dac_code limit = 256 \<longleftrightarrow> limit \<ge> 5000)"
proof (intro conjI)
  have ch: "unat channel < 10" using assms(1) by (simp add: word_le_nat_alt)
  let ?s = "s\<lparr>g_currentLimits := (g_currentLimits s)[unat channel := min limit 5000]\<rparr>"
  have "(if limit > 5000 then 5000 else limit) = min limit 5000" by (auto simp: min_def)
  moreover have "sends s ?s []" by (rule sends_same_log [OF sends_refl]) simp
  ultimately show "wp only_blocks (\<lambda>s'. g_currentLimits s' = (g_currentLimits s)[unat channel := min limit 5000] \<and>
      sends s s' (dac_frame (g_periphAddr s) (ucast (dac_addr ! unat channel))
        (ucast (chan_num ! unat channel)) (of_nat (dac_code limit))))
    (OutputSetCurrentLimit channel limit s)"
    using ch assms unfolding OutputSetCurrentLimit_def Let_def
    by (auto intro!: DACWrite_sends dest!: pdu_more simp: dac_addr_def chan_num_def dac_code_word not_less)
  show "dac_code limit \<le> 256" by (auto simp: dac_code_def min_def)
  show "dac_code limit = 256 \<longleftrightarrow> limit \<ge> 5000"
    by (auto simp: dac_code_def word_le_nat_alt min_def)
qed

lemma current_limit_programmed_witness:
  "let s = blank_pdu\<lparr>inbox := replicate 6 (granted 0x10 0)\<rparr> in
   wp only_blocks (\<lambda>s'. g_currentLimits s' = (replicate 10 50)[3 := min 6000 5000] \<and>
      sends s s' (dac_frame 0x10 0x98 3 256)) (OutputSetCurrentLimit 3 6000 s)"
  using current_limit_programmed [of 3 "blank_pdu\<lparr>inbox := replicate 6 (granted 0x10 0)\<rparr>" 6000]
  by (simp add: Let_def dac_code_def dac_addr_def chan_num_def)

end
