(* ===== verification/Pdu_Eth.thy ===== *)
theory Pdu_Eth
  imports Pdu_Hw
begin

text \<open>
  The transmit side of \<open>src/PDUFirmware/Ethernet.c\<close>: frames are pages of the RAM controller, mapped at
  a fixed stride from \<open>ETH_VADDR_BASE\<close>; a frame that is sent is handed to the MAC and unmapped.
  Also the stores of word arrays that every protocol module uses.
\<close>

section \<open>Word arrays\<close>

text \<open>\<open>p[i] = w\<close> for each pair in turn.\<close>

definition store_words :: "u32 \<Rightarrow> (nat \<times> u32) list \<Rightarrow> 'a cpu_scheme \<Rightarrow> 'a cpu_scheme res" where
  "store_words p iws = foreach iws (\<lambda>(i, w). store32 (word_at p (of_nat i)) w)"

definition words_writable :: "'a cpu_scheme \<Rightarrow> u32 \<Rightarrow> nat \<Rightarrow> bool" where
  "words_writable s p n \<longleftrightarrow> (\<forall>i < n. writable (word_at p (of_nat i)) s)"

definition put_words :: "u32 \<Rightarrow> (nat \<times> u32) list \<Rightarrow> (u32 \<Rightarrow> u8) \<Rightarrow> (u32 \<Rightarrow> u8)" where
  "put_words p iws m = fold (\<lambda>(i, w) m. put32 m (word_at p (of_nat i)) w) iws m"

lemma store_words_ok:
  "(\<And>i w. (i, w) \<in> set iws \<Longrightarrow> writable (word_at p (of_nat i)) s) \<Longrightarrow>
   store_words p iws s = Inr (s\<lparr>mem := put_words p iws (mem s)\<rparr>)"
proof (induction iws arbitrary: s)
  case Nil
  then show ?case by (simp add: store_words_def put_words_def)
next
  case (Cons iw iws)
  obtain i w where iw: "iw = (i, w)" by (cases iw)
  let ?s = "s\<lparr>mem := put32 (mem s) (word_at p (of_nat i)) w\<rparr>"
  have "store_words p iws ?s = Inr (?s\<lparr>mem := put_words p iws (mem ?s)\<rparr>)"
    by (rule Cons.IH) (use Cons.prems in auto)
  then show ?case
    using Cons.prems [of i w] by (simp add: store_words_def put_words_def iw store32_def)
qed

lemma word_at_apart:
  assumes "i < 1073741824" and "j < 1073741824" and "i \<noteq> j"
  shows "4 \<le> word_at p (of_nat i) - word_at p (of_nat j)"
proof -
  let ?a = "word_at p (of_nat i)" and ?b = "word_at p (of_nat j)"
  have d: "?a - ?b = of_nat (4 * i) - of_nat (4 * j)" by (simp add: word_at_def)
  show ?thesis
  proof (cases "j < i")
    case True
    then have "?a - ?b = of_nat (4 * (i - j))" unfolding d by (simp add: of_nat_diff right_diff_distrib')
    moreover have "unat (of_nat (4 * (i - j)) :: u32) = 4 * (i - j)"
      by (rule u32_of_nat_unat_id) (use assms(1) in simp)
    ultimately show ?thesis using True by (simp add: word_le_nat_alt)
  next
    case False
    then have "?a - ?b = - of_nat (4 * (j - i))" unfolding d by (simp add: of_nat_diff right_diff_distrib')
    also have "\<dots> = of_nat (4294967296 - 4 * (j - i))"
      using assms(2) by (simp add: of_nat_diff)
    finally have e: "?a - ?b = of_nat (4294967296 - 4 * (j - i))" .
    have "unat (of_nat (4294967296 - 4 * (j - i)) :: u32) = 4294967296 - 4 * (j - i)"
      by (rule u32_of_nat_unat_id) (use assms False in simp)
    then show ?thesis using e assms False by (simp add: word_le_nat_alt)
  qed
qed

lemma be32_put_words:
  assumes "k < 1073741824" and "\<forall>(i, w) \<in> set iws. i < 1073741824"
  shows "be32 (put_words p iws m) (word_at p (of_nat k)) =
    (case map_of (rev iws) k of Some w \<Rightarrow> w | None \<Rightarrow> be32 m (word_at p (of_nat k)))"
  using assms(2)
proof (induction iws rule: rev_induct)
  case Nil
  then show ?case by (simp add: put_words_def)
next
  case (snoc iw iws)
  obtain i w where iw: "iw = (i, w)" by (cases iw)
  have i: "i < 1073741824" using snoc.prems iw by simp
  have e: "put_words p (iws @ [iw]) m = put32 (put_words p iws m) (word_at p (of_nat i)) w"
    by (simp add: put_words_def iw)
  show ?case
  proof (cases "i = k")
    case True
    then show ?thesis unfolding e by (simp add: iw)
  next
    case False
    then show ?thesis
      using snoc be32_put32_other [OF word_at_apart [OF assms(1) i] word_at_apart [OF i assms(1)]]
      unfolding e by (auto simp: iw)
  qed
qed

lemma store_words_wp [vcg]:
  assumes "evolves fs s0 s" and "\<And>m. evolves fs s0 (s\<lparr>mem := m\<rparr>) \<Longrightarrow> Q (s\<lparr>mem := m\<rparr>)"
  shows "wp no_overrun Q (store_words p iws s)"
proof -
  have "wp no_overrun (\<lambda>t. \<exists>m. t = s\<lparr>mem := m\<rparr>) (store_words p iws s)"
  proof (induction iws arbitrary: s)
    case Nil
    have "s = s\<lparr>mem := mem s\<rparr>" by simp
    then show ?case unfolding store_words_def foreach.simps wp_simps by blast
  next
    case (Cons iw iws)
    obtain i w where iw: "iw = (i, w)" by (cases iw)
    have "wp no_overrun (\<lambda>t. wp no_overrun (\<lambda>t. \<exists>m. t = s\<lparr>mem := m\<rparr>) (store_words p iws t))
        (store32 (word_at p (of_nat i)) w s)"
      by (rule store32_vcg) (use Cons in \<open>auto intro!: wp_mono [OF Cons]\<close>)
    then show ?case by (simp add: store_words_def iw)
  qed
  then show ?thesis
    by (rule wp_mono) (use assms memory_evolves(1) in blast)
qed

lemma load_no_overrun [vcg]:
  "(\<And>v. Q v) \<Longrightarrow> wp no_overrun Q (load32 a s)" "(\<And>v. R v) \<Longrightarrow> wp no_overrun R (load16 a s)"
  "(\<And>v. P v) \<Longrightarrow> wp no_overrun P (load8 a s)"
  by (simp_all add: load32_def load16_def load8_def)

section \<open>Frames\<close>

abbreviation (input) ETH_VADDR_BASE :: u32 where "ETH_VADDR_BASE \<equiv> 0x40030800"

text \<open>\<open>ETH_VADDR_BASE + phyaddr\<close> on \<open>unsigned int*\<close>, and the pointer difference that undoes it.\<close>

definition frame_addr :: "u32 \<Rightarrow> u32" where
  "frame_addr phyaddr = word_at ETH_VADDR_BASE phyaddr"

definition frame_phys :: "u32 \<Rightarrow> u32" where
  "frame_phys frame = signed_drop_bit 2 (frame - ETH_VADDR_BASE)"

definition EthernetAllocateFrame :: "pdu \<Rightarrow> (u32 \<times> pdu) res" where
  "EthernetAllocateFrame s =
     andthen (RPCFunctionCall (g_ramAddr s) RAM_ALLOCATE 0 0 0 s) (\<lambda>(rc, rmsg, s).
     if rc \<noteq> 0 then Inr (0, s)
     else let phyaddr = m_d1 rmsg; vaddr = frame_addr phyaddr;
              s = MmapHelper vaddr phyaddr (g_ramAddr s) PAGE_READ_WRITE s
          in Inr (vaddr, s))"

definition EthernetFreeFrame :: "u32 \<Rightarrow> pdu \<Rightarrow> pdu res" where
  "EthernetFreeFrame frame s =
     andthen (RPCFunctionCall (g_ramAddr s) RAM_FREE 0 (frame_phys frame) 0 s) (\<lambda>(rc, rmsg, s).
     Inr (MmapHelper frame 0 0 PAGE_GUARD s))"

text \<open>The loop \<open>while(wordlen < 13) packet[wordlen++] = 0\<close>; \<open>wordlen\<close> is a signed \<open>int\<close>.\<close>

function eth_pad :: "u32 \<Rightarrow> u32 \<Rightarrow> pdu \<Rightarrow> (u32 \<times> pdu) res" where
  "eth_pad packet wordlen s =
     (if sint wordlen < 13
      then andthen (store32 (word_at packet wordlen) 0 s) (\<lambda>s. eth_pad packet (wordlen + 1) s)
      else Inr (wordlen, s))"
  by pat_completeness auto

lemma sint_next:
  assumes "sint (w :: u32) < 13"
  shows "sint (w + 1) = sint w + 1"
proof -
  have "- (2 ^ 31) \<le> sint w" using sint_greater_eq [of w] by simp
  then show ?thesis using assms by (simp add: sint_word_ariths signed_take_bit_int_eq_self)
qed

termination eth_pad
  by (relation "measure (\<lambda>(packet, wordlen, s). nat (13 - sint wordlen))") (auto simp: sint_next)

declare eth_pad.simps [simp del]

definition EthernetSendFrame :: "u32 \<Rightarrow> u16 \<Rightarrow> u32 \<Rightarrow> u16 \<Rightarrow> u32 \<Rightarrow> pdu \<Rightarrow> (int \<times> pdu) res" where
  "EthernetSendFrame packet dstmac_hi dstmac_lo ethertype wordlen s =
     andthen (eth_pad packet wordlen s) (\<lambda>(wordlen, s).
     let s = FlushDsideL1Cache packet (wordlen * 4) s; phyaddr = frame_phys packet in
     andthen (RPCFunctionCall (g_ethAddr s) (ETH_SET_DSTMAC (cfg s)) (ucast dstmac_hi) dstmac_lo 0 s)
       (\<lambda>(rc, rmsg, s).
     if rc \<noteq> 0 then andthen (EthernetFreeFrame packet s) (\<lambda>s. Inr (-1, s)) else
     andthen (RPCFunctionCall (g_ramAddr s) RAM_CHOWN 0 phyaddr (g_ethAddr s) s) (\<lambda>(rc, rmsg, s).
     if rc \<noteq> 0 then andthen (EthernetFreeFrame packet s) (\<lambda>s. Inr (-1, s)) else
     let s = MmapHelper packet 0 0 PAGE_GUARD s in
     andthen (RPCFunctionCall (g_ethAddr s) (ETH_SEND_FRAME (cfg s)) (g_ramAddr s) phyaddr
       (wordlen OR push_bit 16 (ucast ethertype)) s) (\<lambda>(rc, rmsg, s).
     if rc \<noteq> 0 then Inr (-1, s) else Inr (0, s)))))"

section \<open>Evolution\<close>

lemma evolves_null: "evolves (0 # fs) s0 s \<Longrightarrow> evolves fs s0 s"
  unfolding evolves_def by auto

lemma EthernetAllocateFrame_evolves [vcg]:
  assumes "evolves fs s0 s" and "\<And>s'. evolves fs s0 s' \<Longrightarrow> cpu.more s' = cpu.more s \<Longrightarrow> Q (0, s')"
    and "\<And>f s'. f \<noteq> 0 \<Longrightarrow> evolves ((f AND PAGE_MASK) # fs) s0 s' \<Longrightarrow> cpu.more s' = cpu.more s \<Longrightarrow> Q (f, s')"
  shows "wp no_overrun Q (EthernetAllocateFrame s)"
  unfolding EthernetAllocateFrame_def Let_def wp_simps
proof (rule host_calls [OF assms(1)], simp, simp (no_asm) only: prod.case wp_simps wp_if, intro conjI impI)
  fix rc r s' assume e: "evolves fs s0 s'" and m: "cpu.more s' = cpu.more s"
  then show "Q (0, s')" by (rule assms(2))
  let ?f = "frame_addr (m_d1 r)"
  let ?s = "MmapHelper ?f (m_d1 r) (g_ramAddr s') PAGE_READ_WRITE s'"
  have e': "evolves ((?f AND PAGE_MASK) # fs) s0 ?s" by (rule memory_evolves [OF e])
  show "Q (?f, ?s)"
  proof (cases "?f = 0")
    case True
    then have "evolves fs s0 ?s" using evolves_null [of fs s0 ?s] e' by simp
    then show ?thesis using assms(2) [of ?s] m True by simp
  next
    case False
    then show ?thesis using assms(3) e' m by simp
  qed
qed

lemma EthernetFreeFrame_evolves [vcg]:
  assumes "evolves ((f AND PAGE_MASK) # fs) s0 s"
    and "\<And>s'. evolves fs s0 s' \<Longrightarrow> cpu.more s' = cpu.more s \<Longrightarrow> Q s'"
  shows "wp no_overrun Q (EthernetFreeFrame f s)"
  using assms(1) unfolding EthernetFreeFrame_def
  by (auto intro!: host_calls [OF assms(1)] assms(2) unmap_evolves)

lemma eth_pad_evolves [vcg]:
  assumes "evolves fs s0 s" and "\<And>n m. evolves fs s0 (s\<lparr>mem := m\<rparr>) \<Longrightarrow> Q (n, s\<lparr>mem := m\<rparr>)"
  shows "wp no_overrun Q (eth_pad packet wordlen s)"
proof -
  have "wp no_overrun (\<lambda>(n, t). \<exists>m. t = s\<lparr>mem := m\<rparr>) (eth_pad packet wordlen s)"
  proof (induction packet wordlen s rule: eth_pad.induct)
    case (1 packet wordlen s)
    show ?case
    proof (cases "sint wordlen < 13")
      case True
      show ?thesis
      proof (cases "writable (word_at packet wordlen) s")
        case w: True
        let ?s = "s\<lparr>mem := put32 (mem s) (word_at packet wordlen) 0\<rparr>"
        have "wp no_overrun (\<lambda>(n, t). \<exists>m. t = ?s\<lparr>mem := m\<rparr>) (eth_pad packet (wordlen + 1) ?s)"
          by (rule "1.IH" [OF True]) (simp add: store32_def w)
        then show ?thesis using True w by (subst eth_pad.simps) (simp add: store32_def)
      next
        case False
        then show ?thesis using True by (subst eth_pad.simps) (simp add: store32_def)
      qed
    next
      case False
      then show ?thesis by (subst eth_pad.simps) (auto intro: exI [of _ "mem s"])
    qed
  qed
  then show ?thesis
    by (rule wp_mono) (use assms memory_evolves(1) in auto)
qed

lemma EthernetSendFrame_evolves [vcg]:
  assumes e: "evolves ((p AND PAGE_MASK) # fs) s0 s"
    and "\<And>r s'. evolves fs s0 s' \<Longrightarrow> cpu.more s' = cpu.more s \<Longrightarrow> Q (r, s')"
  shows "wp no_overrun Q (EthernetSendFrame p hi lo et n s)"
  unfolding EthernetSendFrame_def Let_def wp_simps
proof (rule eth_pad_evolves [OF e], simp only: prod.case wp_simps, rule host_calls [OF memory_evolves(2)],
    assumption, simp, simp (no_asm) only: prod.case wp_simps wp_if, intro conjI impI)
  fix n m rc r s1
  assume e1: "evolves ((p AND PAGE_MASK) # fs) s0 s1"
    and m1: "cpu.more s1 = cpu.more (FlushDsideL1Cache p (n * 4) (s\<lparr>mem := m\<rparr>))"
  then show "wp no_overrun (\<lambda>x. Q (- 1, x)) (EthernetFreeFrame p s1)"
    by (auto intro!: EthernetFreeFrame_evolves assms(2))
  show "wp no_overrun (\<lambda>x. wp no_overrun Q (case x of (rc, rmsg, s) \<Rightarrow>
      if rc \<noteq> 0 then andthen (EthernetFreeFrame p s) (\<lambda>s. Inr (- 1, s))
      else andthen (RPCFunctionCall (g_ethAddr (MmapHelper p 0 0 0 s)) (ETH_SEND_FRAME (cfg (MmapHelper p 0 0 0 s)))
          (g_ramAddr (MmapHelper p 0 0 0 s)) (frame_phys p) (n OR push_bit 16 (ucast et)) (MmapHelper p 0 0 0 s))
        (\<lambda>(rc, rmsg, s). if rc \<noteq> 0 then Inr (- 1, s) else Inr (0, s))))
    (RPCFunctionCall (g_ramAddr s1) RAM_CHOWN 0 (frame_phys p) (g_ethAddr s1) s1)"
  proof (rule host_calls [OF e1], simp, simp (no_asm) only: prod.case wp_simps wp_if, intro conjI impI)
    fix rc r s2
    assume e2: "evolves ((p AND PAGE_MASK) # fs) s0 s2" and m2: "cpu.more s2 = cpu.more s1"
    then show "wp no_overrun (\<lambda>x. Q (- 1, x)) (EthernetFreeFrame p s2)"
      using m1 by (auto intro!: EthernetFreeFrame_evolves assms(2))
    show "wp no_overrun (\<lambda>x. wp no_overrun Q (case x of (rc, rmsg, s) \<Rightarrow> if rc \<noteq> 0 then Inr (- 1, s) else Inr (0, s)))
      (RPCFunctionCall (g_ethAddr (MmapHelper p 0 0 0 s2)) (ETH_SEND_FRAME (cfg (MmapHelper p 0 0 0 s2)))
          (g_ramAddr (MmapHelper p 0 0 0 s2)) (frame_phys p) (n OR push_bit 16 (ucast et)) (MmapHelper p 0 0 0 s2))"
      using m1 m2 by (auto intro!: host_calls [OF unmap_evolves [OF e2 refl]] assms(2))
  qed
qed

section \<open>The life of a frame\<close>

lemma frame_phys_addr:
  assumes "phy < 536870912"
  shows "frame_phys (frame_addr phy) = phy"
proof -
  have u: "unat phy < 536870912" using assms by (simp add: word_less_nat_alt)
  have "frame_addr phy - ETH_VADDR_BASE = push_bit 2 phy"
    by (simp add: frame_addr_def word_at_def push_bit_eq_mult mult.commute)
  then have "frame_phys (frame_addr phy) = signed_drop_bit 2 (push_bit 2 phy)" by (simp add: frame_phys_def)
  also have "\<dots> = phy"
  proof (rule bit_word_eqI)
    fix n assume "n < LENGTH(32)"
    have top: "\<not> bit phy k" if "29 \<le> k" for k
    proof -
      have "take_bit 29 phy = phy"
        using u by (simp add: word_unat_eq_iff unsigned_take_bit_eq take_bit_nat_eq_self)
      then show ?thesis using that by (metis bit_take_bit_iff not_less)
    qed
    show "bit (signed_drop_bit 2 (push_bit 2 phy)) n = bit phy n"
      using \<open>n < LENGTH(32)\<close> top [of n] top [of 29]
      by (cases "29 \<le> n") (auto simp: bit_signed_drop_bit_iff bit_push_bit_iff)
  qed
  finally show ?thesis .
qed

text \<open>All 512 words of a page-aligned frame lie in its page.\<close>

definition aligned :: "u32 \<Rightarrow> bool" where
  "aligned a \<longleftrightarrow> unat a mod 2048 = 0"

lemma page_mask: "(a :: u32) AND PAGE_MASK = a - of_nat (unat a mod 2048)"
proof -
  have "(PAGE_MASK :: u32) = NOT (mask 11)" by (simp add: mask_numeral)
  moreover have "a AND NOT (mask 11) = push_bit 11 (drop_bit 11 a)"
    by (rule bit_word_eqI) (auto simp: bit_simps)
  moreover have "push_bit 11 (drop_bit 11 a) = a - (a AND mask 11)"
    using bits_ident [of 11 a] by (simp add: take_bit_eq_mask eq_diff_eq)
  moreover have "a AND mask 11 = of_nat (unat a mod 2048)"
  proof -
    have "unat (take_bit 11 a) = take_bit 11 (unat a)" by (rule unsigned_take_bit_eq)
    then have "unat (take_bit 11 a) = unat a mod 2048" by (simp only: take_bit_eq_mod) simp
    moreover have "take_bit 11 a = of_nat (unat (take_bit 11 a))" by simp
    ultimately show ?thesis by (simp only: take_bit_eq_mask)
  qed
  ultimately show ?thesis by (simp only:)
qed

lemma page_of_word:
  assumes "aligned p" and "i < 512"
  shows "word_at p (of_nat i) AND PAGE_MASK = p"
proof -
  obtain k where k: "unat p = 2048 * k" using assms(1) by (auto simp: aligned_def)
  then have "k < 2097152" using unat_u32_bound [of p] by simp
  then have "unat (p + of_nat (4 * i)) = unat p + 4 * i"
    using assms(2) k by (intro unat_add_of_nat) simp
  then have "unat (p + of_nat (4 * i)) mod 2048 = 4 * i" using k assms(2) by simp
  then show ?thesis by (simp add: page_mask word_at_def)
qed

lemma page_self: "aligned p \<Longrightarrow> p AND PAGE_MASK = p"
  by (simp add: page_mask aligned_def)

lemma frame_addr_aligned:
  assumes "unat phy mod 512 = 0"
  shows "aligned (frame_addr phy)"
proof -
  obtain k where "unat phy = 512 * k" using assms by auto
  moreover have "phy = of_nat (unat phy)" by simp
  ultimately have "phy = of_nat (512 * k)" by (simp only:)
  then have "frame_addr phy = of_nat (2048 * (0x80061 + k))"
    by (simp add: frame_addr_def word_at_def algebra_simps)
  then have "unat (frame_addr phy) = 2048 * (0x80061 + k) mod 2 ^ 32"
    by (simp add: unat_of_nat take_bit_eq_mod del: of_nat_mult of_nat_add)
  moreover have "(2048 * (0x80061 + k) mod 2 ^ 32) mod 2048 = 2048 * (0x80061 + k) mod 2048"
    by (rule mod_mod_cancel) simp
  ultimately show ?thesis by (simp add: aligned_def)
qed

lemma eth_pad_exact:
  assumes "n \<le> 512" and "\<And>i. n \<le> i \<Longrightarrow> i < 13 \<Longrightarrow> writable (word_at packet (of_nat i)) s"
  shows "eth_pad packet (of_nat n) s =
    Inr (of_nat (max 13 n), s\<lparr>mem := put_words packet (map (\<lambda>i. (i, 0)) [n..<13]) (mem s)\<rparr>)"
  using assms
proof (induction "13 - n" arbitrary: n s)
  case 0
  then have "sint (of_nat n :: u32) = int n"
    by (simp add: signed_of_nat signed_take_bit_int_eq_self)
  then show ?case using 0 by (subst eth_pad.simps) (simp add: put_words_def max_def)
next
  case (Suc k)
  then have n: "n < 13" by simp
  then have s: "sint (of_nat n :: u32) = int n"
    by (simp add: signed_of_nat signed_take_bit_int_eq_self)
  let ?s = "s\<lparr>mem := put32 (mem s) (word_at packet (of_nat n)) 0\<rparr>"
  have "eth_pad packet (of_nat n) s = eth_pad packet (of_nat (Suc n)) ?s"
    using n s Suc.prems(2) [of n] by (subst eth_pad.simps) (simp add: store32_def add.commute)
  also have "eth_pad packet (of_nat (Suc n)) ?s = Inr (of_nat (max 13 (Suc n)), ?s\<lparr>mem := put_words packet (map (\<lambda>i. (i, 0)) [Suc n..<13]) (mem ?s)\<rparr>)"
    by (rule Suc.hyps(1)) (use Suc n in \<open>auto simp: writable_def\<close>)
  finally have "eth_pad packet (of_nat n) s = Inr (of_nat (max 13 (Suc n)),
      ?s\<lparr>mem := put_words packet (map (\<lambda>i. (i, 0)) [Suc n..<13]) (mem ?s)\<rparr>)" .
  moreover have "max 13 (Suc n) = 13" "max 13 n = 13" using n by simp_all
  ultimately show ?case using n by (simp add: put_words_def upt_conv_Cons)
qed

section \<open>Exact traces\<close>

lemma sends_helper:
  "sends s0 s xs \<Longrightarrow> sends s0 (MmapHelper a b c d s) xs" "sends s0 s xs \<Longrightarrow> sends s0 (FlushDsideL1Cache a n s) xs"
  "sends s0 s xs \<Longrightarrow> sends s0 (s\<lparr>mem := m\<rparr>) xs"
  by (erule sends_quiet [where evs = "[Mapped a b c d]"] sends_quiet [where evs = "[Flushed a n]"] sends_same_log, simp, simp?)+

lemma EthernetFreeFrame_sends:
  assumes "sends s0 s xs" and "\<And>s'. sends s0 s' (xs @ [rpc_request (g_ramAddr s) RAM_FREE 0 (frame_phys f) 0]) \<Longrightarrow>
      cpu.more s' = cpu.more s \<Longrightarrow> mem s' = mem s \<Longrightarrow> mmu s' = (mmu s)(f AND PAGE_MASK := PAGE_GUARD) \<Longrightarrow> Q s'"
  shows "wp only_blocks Q (EthernetFreeFrame f s)"
  unfolding EthernetFreeFrame_def wp_simps
  by (rule pdu_call_sends [OF assms(1)], simp only: prod.case wp_simps, rule assms(2))
    (simp_all add: sends_helper same_memory_def)

lemma EthernetAllocateFrame_sends:
  assumes "sends s0 s xs"
    and "\<And>s'. sends s0 s' (xs @ [rpc_request (g_ramAddr s) RAM_ALLOCATE 0 0 0]) \<Longrightarrow>
      cpu.more s' = cpu.more s \<Longrightarrow> same_memory s s' \<Longrightarrow> Q (0, s')"
    and "\<And>r s'. rpc_answer (g_ramAddr s) r \<Longrightarrow> rpc_status r = 0 \<Longrightarrow>
      sends s0 s' (xs @ [rpc_request (g_ramAddr s) RAM_ALLOCATE 0 0 0]) \<Longrightarrow>
      cpu.more s' = cpu.more s \<Longrightarrow> mem s' = mem s \<Longrightarrow>
      mmu s' = (mmu s)(frame_addr (m_d1 r) AND PAGE_MASK := PAGE_READ_WRITE) \<Longrightarrow> Q (frame_addr (m_d1 r), s')"
  shows "wp only_blocks Q (EthernetAllocateFrame s)"
  unfolding EthernetAllocateFrame_def Let_def wp_simps
  by (rule pdu_call_sends [OF assms(1)], simp (no_asm) only: prod.case wp_simps wp_if)
    (intro conjI impI assms(2,3); simp add: sends_helper same_memory_def)

text \<open>The requests of a frame that goes out, and those of the two ways in which it does not.\<close>

definition frame_out :: "pdu \<Rightarrow> u32 \<Rightarrow> u16 \<Rightarrow> u32 \<Rightarrow> u16 \<Rightarrow> nat \<Rightarrow> RPCMessage list" where
  "frame_out s packet hi lo ethertype words =
     [rpc_request (g_ethAddr s) (ETH_SET_DSTMAC (cfg s)) (ucast hi) lo 0,
      rpc_request (g_ramAddr s) RAM_CHOWN 0 (frame_phys packet) (g_ethAddr s),
      rpc_request (g_ethAddr s) (ETH_SEND_FRAME (cfg s)) (g_ramAddr s) (frame_phys packet)
        (of_nat words OR push_bit 16 (ucast ethertype))]"

definition frame_kept :: "pdu \<Rightarrow> u32 \<Rightarrow> RPCMessage" where
  "frame_kept s packet = rpc_request (g_ramAddr s) RAM_FREE 0 (frame_phys packet) 0"

definition frame_fate :: "pdu \<Rightarrow> u32 \<Rightarrow> u16 \<Rightarrow> u32 \<Rightarrow> u16 \<Rightarrow> nat \<Rightarrow> int \<Rightarrow> RPCMessage list \<Rightarrow> bool" where
  "frame_fate s packet hi lo ethertype words r reqs \<longleftrightarrow>
     (let out = frame_out s packet hi lo ethertype words in
      (r = 0 \<or> r = -1) \<and> reqs = out \<or>
      r = -1 \<and> (reqs = [out ! 0, frame_kept s packet] \<or> reqs = [out ! 0, out ! 1, frame_kept s packet]))"

lemma frame_fate_more:
  "cpu.more s' = cpu.more s \<Longrightarrow> frame_fate s' = frame_fate s"
  by (intro ext) (drule pdu_more, simp add: frame_fate_def frame_out_def frame_kept_def hosts_def)

lemma EthernetSendFrame_sends:
  assumes n: "n \<le> 512" and w: "\<And>i. n \<le> i \<Longrightarrow> i < 13 \<Longrightarrow> writable (word_at packet (of_nat i)) s"
    and x: "sends s0 s xs"
    and Q: "\<And>r s' reqs. sends s0 s' (xs @ reqs) \<Longrightarrow> frame_fate s packet hi lo ethertype (max 13 n) r reqs \<Longrightarrow>
      cpu.more s' = cpu.more s \<Longrightarrow> mem s' = put_words packet (map (\<lambda>i. (i, 0)) [n..<13]) (mem s) \<Longrightarrow>
      mmu s' = (mmu s)(packet AND PAGE_MASK := PAGE_GUARD) \<Longrightarrow> Q (r, s')"
  shows "wp only_blocks Q (EthernetSendFrame packet hi lo ethertype (of_nat n) s)"
proof -
  have pad: "eth_pad packet (of_nat n) s =
    Inr (of_nat (max 13 n), s\<lparr>mem := put_words packet (map (\<lambda>i. (i, 0)) [n..<13]) (mem s)\<rparr>)"
    by (rule eth_pad_exact [OF n]) (rule w)
  show ?thesis
  unfolding EthernetSendFrame_def Let_def pad andthen_simps prod.case wp_simps
proof (rule pdu_call_sends, rule sends_helper(2), rule sends_helper(3), rule x, simp (no_asm) only: prod.case wp_simps wp_if,
    intro conjI impI)
  let ?m = "put_words packet (map (\<lambda>i. (i, 0)) [n..<13]) (mem s)"
  let ?t = "FlushDsideL1Cache packet (of_nat (max 13 n) * 4) (s\<lparr>mem := ?m\<rparr>)"
  let ?out = "frame_out s packet hi lo ethertype (max 13 n)"
  fix rc r s1
  assume s1: "cpu.more s1 = cpu.more ?t" "g_ramAddr s1 = g_ramAddr ?t" "g_ethAddr s1 = g_ethAddr ?t" "cfg s1 = cfg ?t"
    "same_memory ?t s1" "sends s0 s1 (xs @ [rpc_request (g_ethAddr ?t) (ETH_SET_DSTMAC (cfg ?t)) (ucast hi) lo 0])"
  have x1: "sends s0 s1 (xs @ [?out ! 0])" using s1 by (simp add: frame_out_def)
  show "wp only_blocks (\<lambda>x. Q (- 1, x)) (EthernetFreeFrame packet s1)"
    by (rule EthernetFreeFrame_sends [OF x1], rule Q [of _ "[?out ! 0, frame_kept s packet]"])
      (use s1 in \<open>simp_all add: frame_fate_def frame_kept_def same_memory_def Let_def\<close>)
  show "wp only_blocks (\<lambda>x. wp only_blocks Q (case x of (rc, rmsg, s) \<Rightarrow>
      if rc \<noteq> 0 then andthen (EthernetFreeFrame packet s) (\<lambda>s. Inr (- 1, s))
      else andthen (RPCFunctionCall (g_ethAddr (MmapHelper packet 0 0 0 s)) (ETH_SEND_FRAME (cfg (MmapHelper packet 0 0 0 s)))
          (g_ramAddr (MmapHelper packet 0 0 0 s)) (frame_phys packet)
          (of_nat (max 13 n) OR push_bit 16 (ucast ethertype)) (MmapHelper packet 0 0 0 s))
        (\<lambda>(rc, rmsg, s). if rc \<noteq> 0 then Inr (- 1, s) else Inr (0, s))))
    (RPCFunctionCall (g_ramAddr s1) RAM_CHOWN 0 (frame_phys packet) (g_ethAddr s1) s1)"
  proof (rule pdu_call_sends, rule x1, simp (no_asm) only: prod.case wp_simps wp_if, intro conjI impI)
    fix rc r s2
    assume s2: "cpu.more s2 = cpu.more s1" "g_ramAddr s2 = g_ramAddr s1" "g_ethAddr s2 = g_ethAddr s1" "cfg s2 = cfg s1"
      "same_memory s1 s2" "sends s0 s2 ((xs @ [?out ! 0]) @ [rpc_request (g_ramAddr s1) RAM_CHOWN 0 (frame_phys packet) (g_ethAddr s1)])"
    have x2: "sends s0 s2 (xs @ [?out ! 0, ?out ! 1])" using s1 s2 by (simp add: frame_out_def)
    show "wp only_blocks (\<lambda>x. Q (- 1, x)) (EthernetFreeFrame packet s2)"
      by (rule EthernetFreeFrame_sends [OF x2], rule Q [of _ "[?out ! 0, ?out ! 1, frame_kept s packet]"])
        (use s1 s2 in \<open>simp_all add: frame_fate_def frame_kept_def same_memory_def Let_def\<close>)
    let ?u = "MmapHelper packet 0 0 0 s2"
    show "wp only_blocks (\<lambda>x. wp only_blocks Q (case x of (rc, rmsg, s) \<Rightarrow> if rc \<noteq> 0 then Inr (- 1, s) else Inr (0, s)))
      (RPCFunctionCall (g_ethAddr ?u) (ETH_SEND_FRAME (cfg ?u)) (g_ramAddr ?u) (frame_phys packet)
        (of_nat (max 13 n) OR push_bit 16 (ucast ethertype)) ?u)"
    proof (rule pdu_call_sends, rule sends_helper(1), rule x2, simp (no_asm) only: prod.case wp_simps wp_if, intro conjI impI)
      fix rc r s3
      assume s3: "cpu.more s3 = cpu.more ?u" "same_memory ?u s3"
        "sends s0 s3 ((xs @ [?out ! 0, ?out ! 1]) @ [rpc_request (g_ethAddr ?u) (ETH_SEND_FRAME (cfg ?u)) (g_ramAddr ?u)
           (frame_phys packet) (of_nat (max 13 n) OR push_bit 16 (ucast ethertype))])"
      have "sends s0 s3 (xs @ ?out)" using s1 s2 s3 by (simp add: frame_out_def)
      then show "Q (- 1, s3)" "Q (0, s3)"
        using s1 s2 s3 by (auto intro!: Q simp: frame_fate_def same_memory_def Let_def)
    qed
  qed
qed
qed

text \<open>The pages of the RAM controller: 512 words each, below the end of the address space.\<close>

definition ram_page :: "u32 \<Rightarrow> bool" where
  "ram_page phy \<longleftrightarrow> unat phy mod 512 = 0 \<and> phy < 536870912"

lemma mapped_frame:
  assumes "aligned p" and "mmu s p = PAGE_READ_WRITE" and "i < 512"
  shows "writable (word_at p (of_nat i)) s" "readable (word_at p (of_nat i)) s"
proof -
  have "bit (PAGE_READ_WRITE :: u32) 1" "bit (PAGE_READ_WRITE :: u32) 2" by (simp_all add: bit_word_iff_drop_bit_and)
  then show "writable (word_at p (of_nat i)) s" "readable (word_at p (of_nat i)) s"
    using assms by (simp_all add: writable_def readable_def page_of_word)
qed

text \<open>A frame that was granted, in the state after \<open>EthernetAllocateFrame\<close>.\<close>

lemma alloc_granted:
  assumes "EthernetAllocateFrame s = Inr (frame_addr phy, s1)" and "ram_page phy"
  shows "aligned (frame_addr phy)" "frame_addr phy AND PAGE_MASK = frame_addr phy" "frame_addr phy \<noteq> 0"
    "sends s s1 [rpc_request (g_ramAddr s) RAM_ALLOCATE 0 0 0]" "cpu.more s1 = cpu.more s" "mem s1 = mem s"
    "mmu s1 = (mmu s)(frame_addr phy := PAGE_READ_WRITE)" "frame_phys (frame_addr phy) = phy"
proof -
  show a: "aligned (frame_addr phy)" and pg: "frame_addr phy AND PAGE_MASK = frame_addr phy"
    and f: "frame_phys (frame_addr phy) = phy"
    using assms(2) frame_addr_aligned page_self by (simp_all add: ram_page_def frame_phys_addr)
  show nz: "frame_addr phy \<noteq> 0" using f assms(2) by (auto simp: frame_phys_def ram_page_def)
  have w: "wp only_blocks (\<lambda>(f, s'). sends s s' [rpc_request (g_ramAddr s) RAM_ALLOCATE 0 0 0] \<and> cpu.more s' = cpu.more s \<and>
      mem s' = mem s \<and> (f = 0 \<and> mmu s' = mmu s \<or> mmu s' = (mmu s)(f AND PAGE_MASK := PAGE_READ_WRITE))) (EthernetAllocateFrame s)"
    by (rule EthernetAllocateFrame_sends [OF sends_refl]) (auto simp: same_memory_def)
  then show "sends s s1 [rpc_request (g_ramAddr s) RAM_ALLOCATE 0 0 0]" "cpu.more s1 = cpu.more s" "mem s1 = mem s"
    "mmu s1 = (mmu s)(frame_addr phy := PAGE_READ_WRITE)"
    using wp_Inr [OF w assms(1)] nz pg by simp_all
qed

definition frame_words :: "(u32 \<Rightarrow> u8) \<Rightarrow> u32 \<Rightarrow> nat \<Rightarrow> u32 list" where
  "frame_words m p n = map (\<lambda>i. be32 m (word_at p (of_nat i))) [0..<n]"

lemma length_frame_words [simp]: "length (frame_words m p n) = n"
  by (simp add: frame_words_def)

lemma store_words_frame:
  assumes "aligned p" and "mmu s p = PAGE_READ_WRITE" and "\<forall>(i, w) \<in> set iws. i < 512"
  shows "store_words p iws s = Inr (s\<lparr>mem := put_words p iws (mem s)\<rparr>)"
  by (rule store_words_ok) (use assms mapped_frame in fastforce)

lemma put_words_append: "put_words p (xs @ ys) m = put_words p ys (put_words p xs m)"
  by (simp add: put_words_def)

lemma put_words_frame:
  assumes "map fst iws = [0..<n]" and "n \<le> 512"
  shows "frame_words (put_words p iws m) p n = map snd iws"
proof (rule nth_equalityI)
  have len: "length iws = n" using assms(1) by (metis length_map length_upt diff_zero)
  then show "length (frame_words (put_words p iws m) p n) = length (map snd iws)" by (simp add: frame_words_def)
  fix i assume "i < length (frame_words (put_words p iws m) p n)"
  then have i: "i < n" by (simp add: frame_words_def)
  then have "iws ! i \<in> set iws" "fst (iws ! i) = i" using len assms(1) by (simp_all flip: nth_map [of i iws fst])
  then have "(i, snd (iws ! i)) \<in> set (rev iws)" by (metis prod.collapse set_rev)
  moreover have "distinct (map fst (rev iws))" using assms(1) by (simp add: rev_map [symmetric])
  ultimately have "map_of (rev iws) i = Some (snd (iws ! i))" by simp
  moreover have "\<forall>(i, w) \<in> set iws. i < 1073741824"
  proof -
    have "fst x \<in> set [0..<n]" if "x \<in> set iws" for x using that assms(1) by (metis image_eqI set_map)
    then show ?thesis using assms(2) by fastforce
  qed
  ultimately show "frame_words (put_words p iws m) p n ! i = map snd iws ! i"
    using i len assms(2) by (simp add: frame_words_def be32_put_words)
qed

section \<open>Properties\<close>

text \<open>
  The life of a frame. \<open>EthernetAllocateFrame\<close> asks the RAM controller once for a page; a refusal gives
  the null pointer and maps nothing, otherwise one page is mapped. When the page granted is a page of the RAM
  (512 words, below the end of the address space), all of its words can be read and written at the
  address returned, and \<open>EthernetFreeFrame\<close> on that address gives back the very page that was granted
  and unmaps it.
\<close>
lemma frame_alloc_free:
  assumes "EthernetAllocateFrame s = Inr (frame_addr phy, s1)" and "ram_page phy"
  shows "wp only_blocks (\<lambda>(f, s'). sends s s' [rpc_request (g_ramAddr s) RAM_ALLOCATE 0 0 0] \<and>
      (f = 0 \<and> mmu s' = mmu s \<or> mmu s' = (mmu s)(f AND PAGE_MASK := PAGE_READ_WRITE))) (EthernetAllocateFrame s) \<and>
    (\<forall>i < 512. writable (word_at (frame_addr phy) (of_nat i)) s1 \<and> readable (word_at (frame_addr phy) (of_nat i)) s1) \<and>
    wp only_blocks (\<lambda>s2. sends s1 s2 [rpc_request (g_ramAddr s) RAM_FREE 0 phy 0] \<and>
       mmu s2 = (mmu s)(frame_addr phy := PAGE_GUARD)) (EthernetFreeFrame (frame_addr phy) s1)"
proof -
  let ?f = "frame_addr phy"
  have w: "wp only_blocks (\<lambda>(f, s'). sends s s' [rpc_request (g_ramAddr s) RAM_ALLOCATE 0 0 0] \<and> g_ramAddr s' = g_ramAddr s \<and>
      (f = 0 \<and> mmu s' = mmu s \<or> mmu s' = (mmu s)(f AND PAGE_MASK := PAGE_READ_WRITE))) (EthernetAllocateFrame s)"
    by (rule EthernetAllocateFrame_sends [OF sends_refl]) (auto dest!: pdu_more simp: same_memory_def hosts_def)
  have a: "aligned ?f" and f: "frame_phys ?f = phy" and pg: "?f AND PAGE_MASK = ?f"
    using assms(2) frame_addr_aligned page_self by (simp_all add: ram_page_def frame_phys_addr)
  have "?f \<noteq> 0" using f assms(2) by (auto simp: frame_phys_def ram_page_def)
  then have m: "mmu s1 = (mmu s)(?f := PAGE_READ_WRITE)" "g_ramAddr s1 = g_ramAddr s"
    using wp_Inr [OF w assms(1)] pg by simp_all
  have "\<forall>i < 512. writable (word_at ?f (of_nat i)) s1 \<and> readable (word_at ?f (of_nat i)) s1"
    using mapped_frame [OF a, of s1] m by simp
  moreover have "wp only_blocks (\<lambda>s2. sends s1 s2 [rpc_request (g_ramAddr s) RAM_FREE 0 phy 0] \<and>
       mmu s2 = (mmu s)(?f := PAGE_GUARD)) (EthernetFreeFrame ?f s1)"
    by (rule EthernetFreeFrame_sends [OF sends_refl]) (use m pg f in simp)
  ultimately show ?thesis using w by (auto elim!: wp_mono)
qed

theorem frame_alloc_free_witness:
  "let s = blank_pdu\<lparr>inbox := [granted 0x11 0x200]\<rparr> in
   \<exists>s1. EthernetAllocateFrame s = Inr (frame_addr 0x200, s1) \<and> writable (word_at (frame_addr 0x200) 511) s1 \<and>
     wp only_blocks (\<lambda>s2. sends s1 s2 [rpc_request 0x11 RAM_FREE 0 0x200 0] \<and>
       mmu s2 = (\<lambda>_. 6)(frame_addr 0x200 := PAGE_GUARD)) (EthernetFreeFrame (frame_addr 0x200) s1)"
proof -
  let ?s = "blank_pdu\<lparr>inbox := [granted 0x11 0x200]\<rparr>"
  obtain s1 where s1: "EthernetAllocateFrame ?s = Inr (frame_addr 0x200, s1)"
    by (simp add: EthernetAllocateFrame_def granted_call Let_def)
  show ?thesis
    using frame_alloc_free [OF s1] s1 by (auto simp: ram_page_def Let_def dest: spec [of _ "511 :: nat"])
qed

text \<open>
  \<open>EthernetSendFrame\<close> on a frame of up to 512 words whose padding is writable. The frame is filled
  with zeros up to the 13 words that Ethernet needs and nothing else in memory changes; the MAC
  learns the destination, then owns the page, then sends it; when it refuses the address or the page
  cannot be handed over, the page is freed instead and the result is -1. On every path the frame
  is unmapped at the end, and 0 is returned only when all three requests were granted.
\<close>
lemma frame_send_exact:
  assumes "n \<le> 512" and "\<And>i. n \<le> i \<Longrightarrow> i < 13 \<Longrightarrow> writable (word_at packet (of_nat i)) s"
  shows "wp only_blocks (\<lambda>(r, s'). mem s' = put_words packet (map (\<lambda>i. (i, 0)) [n..<13]) (mem s) \<and>
      mmu s' = (mmu s)(packet AND PAGE_MASK := PAGE_GUARD) \<and> cpu.more s' = cpu.more s \<and>
      (\<exists>reqs. sends s s' reqs \<and> frame_fate s packet hi lo ethertype (max 13 n) r reqs))
    (EthernetSendFrame packet hi lo ethertype (of_nat n) s)"
  by (rule EthernetSendFrame_sends [OF assms(1) _ sends_refl]) (use assms(2) in auto)

lemma frame_send_exact_witness:
  "let s = blank_pdu\<lparr>inbox := [granted 0x14 0, granted 0x11 0, granted 0x14 0]\<rparr>; p = frame_addr 0x200 in
   wp only_blocks (\<lambda>(r, s'). mem s' = put_words p (map (\<lambda>i. (i, 0)) [7..<13]) (\<lambda>_. 0) \<and>
      mmu s' = (\<lambda>_. 6)(p AND PAGE_MASK := 0) \<and> cpu.more s' = cpu.more s \<and>
      (\<exists>reqs. sends s s' reqs \<and> frame_fate s p 1 2 0x0806 13 r reqs))
    (EthernetSendFrame p 1 2 0x0806 (of_nat 7) s)"
  using frame_send_exact [of 7 "frame_addr 0x200" "blank_pdu\<lparr>inbox := [granted 0x14 0, granted 0x11 0, granted 0x14 0]\<rparr>"]
  by (simp add: Let_def writable_def bit_word_iff_drop_bit_and)

end
