(* ===== verification/Pdu_Arp.thy ===== *)
theory Pdu_Arp
  imports Pdu_Eth
begin

text \<open>
  \<open>src/PDUFirmware/ARP.c\<close>: the two-way set associative cache of MAC addresses, the answers to ARP
  requests and the probes. The cache is shown to meet the contract of a cache: it may forget, but
  what it returns is the newest address recorded.
\<close>

section \<open>The cache\<close>

definition ARPInitialize :: "pdu \<Rightarrow> pdu res" where
  "ARPInitialize s = foreach [0..<ARP_TABLE_SIZE] (\<lambda>i s.
     andthen (aget (g_arpTable s) i) (\<lambda>e.
     andthen (aset (g_arpTable s) i (e\<lparr>arp_valid := 0\<rparr>)) (\<lambda>t. Inr (s\<lparr>g_arpTable := t\<rparr>))))
     (s\<lparr>g_nextArpSet := 0\<rparr>)"

text \<open>The loop of \<open>ARPAddRecord\<close>; the flag tells whether it has returned from within.\<close>

fun arp_scan :: "nat list \<Rightarrow> mac \<Rightarrow> u32 \<Rightarrow> ARPTableEntry list \<Rightarrow> (bool \<times> ARPTableEntry list) res" where
  "arp_scan [] mac ip t = Inr (False, t)"
| "arp_scan (i # rows) mac ip t = andthen (aget t i) (\<lambda>e.
     if arp_valid e = 0 then arp_scan rows mac ip t else
     let ip_match = (arp_ip e = ip); mac_match = (arp_mac e = mac) in
     if ip_match \<and> mac_match then Inr (True, t)
     else if ip_match \<and> \<not> mac_match then andthen (aset t i (e\<lparr>arp_mac := mac\<rparr>)) (\<lambda>t. Inr (True, t))
     else if mac_match \<and> \<not> ip_match then andthen (aset t i (e\<lparr>arp_valid := 0\<rparr>)) (\<lambda>t. arp_scan rows mac ip t)
     else arp_scan rows mac ip t)"

definition arp_row :: "u32 \<Rightarrow> u8 \<Rightarrow> nat" where
  "arp_row ip nxt = unat (push_bit 1 (ip AND 0xf) OR ucast nxt)"

definition arp_update :: "mac \<Rightarrow> u32 \<Rightarrow> ARPTableEntry list \<times> u8 \<Rightarrow> (ARPTableEntry list \<times> u8) res" where
  "arp_update mac ip = (\<lambda>(t, nxt). andthen (arp_scan [0..<ARP_TABLE_SIZE] mac ip t) (\<lambda>(found, t).
     if found then Inr (t, nxt) else
     let row = arp_row ip nxt in
     andthen (aget t row) (\<lambda>e.
     andthen (aset t row (e\<lparr>arp_valid := 1, arp_ip := ip, arp_mac := mac\<rparr>)) (\<lambda>t.
     Inr (t, if nxt = 0 then 1 else 0)))))"

definition ARPAddRecord :: "mac \<Rightarrow> u32 \<Rightarrow> pdu \<Rightarrow> pdu res" where
  "ARPAddRecord mac ip s = andthen (arp_update mac ip (g_arpTable s, g_nextArpSet s)) (\<lambda>(t, nxt).
     Inr (s\<lparr>g_arpTable := t, g_nextArpSet := nxt\<rparr>))"

text \<open>The result and the array \<open>mac\<close> that the caller passes, which stays as it is on a miss.\<close>

fun arp_find :: "nat list \<Rightarrow> u32 \<Rightarrow> mac \<Rightarrow> ARPTableEntry list \<Rightarrow> (int \<times> mac) res" where
  "arp_find [] ip mac t = Inr (0, mac)"
| "arp_find (row # rows) ip mac t = andthen (aget t row) (\<lambda>e.
     if arp_valid e = 0 then arp_find rows ip mac t
     else if arp_ip e = ip then Inr (1, arp_mac e)
     else arp_find rows ip mac t)"

definition ARPLookupRecord :: "u32 \<Rightarrow> mac \<Rightarrow> pdu \<Rightarrow> (int \<times> mac) res" where
  "ARPLookupRecord ip mac s =
     (if ip = 0xffffffff then Inr (1, (0xffff, 0xffff, 0xffff))
      else let base = unat (push_bit 1 (ip AND 0xf)) in
        arp_find [base..<base + 2] ip mac (g_arpTable s))"

section \<open>Frames\<close>

definition mac_lo :: "mac \<Rightarrow> u32" where
  "mac_lo = (\<lambda>(m0, m1, m2). push_bit 16 (ucast m1) OR ucast m2)"

definition arp_sender_words :: "pdu \<Rightarrow> u32 \<Rightarrow> (nat \<times> u32) list" where
  "arp_sender_words s opcode = (let (m0, m1, m2) = g_mac s in
     [(0, 0x00010000 OR ucast (ETHERTYPE_IPV4 (cfg s))),
      (1, 0x06040000 OR opcode),
      (2, push_bit 16 (ucast m0) OR ucast m1),
      (3, push_bit 16 (ucast m2) OR drop_bit 16 (g_ipAddress s))])"

definition ARPSendProbeResponseTo :: "u32 \<Rightarrow> mac \<Rightarrow> pdu \<Rightarrow> pdu res" where
  "ARPSendProbeResponseTo ip mac s =
     andthen (EthernetAllocateFrame s) (\<lambda>(frame, s).
     if frame = 0 then Inr s else
     let (m0, m1, m2) = mac in
     andthen (store_words frame (arp_sender_words s 2 @
       [(4, push_bit 16 (g_ipAddress s) OR ucast m0), (5, mac_lo mac), (6, ip)]) s) (\<lambda>s.
     andthen (EthernetSendFrame frame m0 (mac_lo mac) (ETHERTYPE_ARP (cfg s)) 7 s) (\<lambda>(r, s). Inr s)))"

definition ARPSendProbeRequestTo :: "u32 \<Rightarrow> pdu \<Rightarrow> pdu res" where
  "ARPSendProbeRequestTo ip s =
     andthen (EthernetAllocateFrame s) (\<lambda>(frame, s).
     if frame = 0 then Inr s else
     andthen (store_words frame (arp_sender_words s 1 @
       [(4, push_bit 16 (g_ipAddress s) OR 0), (5, 0), (6, ip)]) s) (\<lambda>s.
     andthen (EthernetSendFrame frame 0xffff 0xffffffff (ETHERTYPE_ARP (cfg s)) 7 s) (\<lambda>(r, s). Inr s)))"

definition ARPProcessFrame :: "u32 \<Rightarrow> pdu \<Rightarrow> pdu res" where
  "ARPProcessFrame frame s =
     andthen (load32 (word_at frame 0) s) (\<lambda>f0.
     let htype = ucast (drop_bit 16 f0) :: u16 in
     if htype \<noteq> 1 then Inr s else
     let ptype = ucast (f0 AND 0xffff) :: u16 in
     if ptype \<noteq> ETHERTYPE_IPV4 (cfg s) then Inr s else
     andthen (load32 (word_at frame 1) s) (\<lambda>f1.
     let lens = ucast (drop_bit 16 f1) :: u16 in
     if lens \<noteq> 0x0604 then Inr s else
     let opcode = ucast (f1 AND 0xffff) :: u8 in
     andthen (load32 (word_at frame 2) s) (\<lambda>f2.
     andthen (load32 (word_at frame 3) s) (\<lambda>f3.
     andthen (load32 (word_at frame 4) s) (\<lambda>f4.
     andthen (load32 (word_at frame 6) s) (\<lambda>target_ip.
     let sender_mac = (ucast (drop_bit 16 f2), ucast (f2 AND 0xffff), ucast (drop_bit 16 f3)) :: mac;
         sender_ip = push_bit 16 (f3 AND 0xffff) OR drop_bit 16 f4 in
     andthen (if sender_ip \<noteq> 0 then ARPAddRecord sender_mac sender_ip s else Inr s) (\<lambda>s.
     if opcode = 1 then
       if target_ip = g_ipAddress s then ARPSendProbeResponseTo sender_ip sender_mac s else Inr s
     else Inr s)))))))"

section \<open>The cache as a map\<close>

definition arp_live :: "ARPTableEntry list \<Rightarrow> nat \<Rightarrow> u32 \<Rightarrow> mac \<Rightarrow> bool" where
  "arp_live t i ip mac \<longleftrightarrow> i < length t \<and> arp_valid (t ! i) \<noteq> 0 \<and> arp_ip (t ! i) = ip \<and> arp_mac (t ! i) = mac"

definition arp_map :: "ARPTableEntry list \<Rightarrow> u32 \<Rightarrow> mac option" where
  "arp_map t ip = map_option arp_mac (find (\<lambda>e. arp_valid e \<noteq> 0 \<and> arp_ip e = ip) t)"

lemma arp_unique:
  "arp_ok t n \<Longrightarrow> arp_live t i ip m \<Longrightarrow> arp_live t j ip m' \<Longrightarrow> i = j"
  unfolding arp_ok_def arp_live_def by metis

lemma arp_map_Some:
  assumes "arp_ok t n"
  shows "arp_map t ip = Some mac \<longleftrightarrow> (\<exists>i. arp_live t i ip mac)"
proof
  assume "arp_map t ip = Some mac"
  then show "\<exists>i. arp_live t i ip mac"
    by (auto simp: arp_map_def arp_live_def find_Some_iff)
next
  assume "\<exists>i. arp_live t i ip mac"
  then obtain i where i: "arp_live t i ip mac" by blast
  then have "find (\<lambda>e. arp_valid e \<noteq> 0 \<and> arp_ip e = ip) t = Some (t ! i)"
    unfolding find_Some_iff
    using arp_unique [OF assms, of i ip mac]
    by (intro exI [of _ i]) (fastforce simp: arp_live_def)
  then show "arp_map t ip = Some mac" using i by (simp add: arp_map_def arp_live_def)
qed

lemma arp_map_None: "arp_map t ip = None \<longleftrightarrow> (\<forall>i mac. \<not> arp_live t i ip mac)"
  by (auto simp: arp_map_def arp_live_def find_None_iff in_set_conv_nth)

text \<open>
  What the scan of the rows does: on a hit the entry holds the new address; otherwise no row scanned
  holds the IP any more. Every row keeps its IP, and a row of another IP is untouched or emptied.
\<close>

definition scanned :: "nat \<Rightarrow> mac \<Rightarrow> u32 \<Rightarrow> ARPTableEntry list \<Rightarrow> bool \<times> ARPTableEntry list \<Rightarrow> bool" where
  "scanned k mac ip t = (\<lambda>(found, t'). length t' = length t \<and>
     (\<forall>i < length t. arp_ip (t' ! i) = arp_ip (t ! i) \<and> (arp_valid (t' ! i) \<noteq> 0 \<longrightarrow> arp_valid (t ! i) \<noteq> 0) \<and>
        (arp_ip (t ! i) \<noteq> ip \<longrightarrow> arp_valid (t' ! i) \<noteq> 0 \<longrightarrow> arp_mac (t' ! i) = arp_mac (t ! i))) \<and>
     (if found then \<exists>i. arp_live t' i ip mac
      else \<forall>i. k \<le> i \<longrightarrow> (\<forall>m. \<not> arp_live t' i ip m)))"

lemma arp_scan_spec:
  assumes "length t = 32" and "k \<le> 32"
  shows "\<exists>found t'. arp_scan [k..<32] mac ip t = Inr (found, t') \<and> scanned k mac ip t (found, t') \<and> (\<forall>i < k. t' ! i = t ! i)"
  using assms
proof (induction "32 - k" arbitrary: k t)
  case 0
  then show ?case by (auto simp: scanned_def arp_live_def)
next
  case (Suc n)
  then have k: "k < 32" "k < length t" "[k..<32] = k # [Suc k..<32]" by (simp_all add: upt_conv_Cons)
  let ?e = "t ! k"
  have IH: "\<exists>found t''. arp_scan [Suc k..<32] mac ip t' = Inr (found, t'') \<and> scanned (Suc k) mac ip t' (found, t'') \<and>
      (\<forall>i < Suc k. t'' ! i = t' ! i)" if "length t' = 32" for t'
    by (rule Suc.hyps(1)) (use that k Suc.hyps(2) in simp_all)
  have skip: ?case if "arp_scan [k..<32] mac ip t = arp_scan [Suc k..<32] mac ip t'"
    "t' = t \<and> (arp_valid ?e = 0 \<or> arp_ip ?e \<noteq> ip) \<or> t' = t[k := ?e\<lparr>arp_valid := 0\<rparr>] \<and> arp_ip ?e \<noteq> ip" for t'
  proof -
    have l: "length t' = 32" using that(2) Suc.prems by auto
    then obtain found t'' where r: "arp_scan [Suc k..<32] mac ip t' = Inr (found, t'')"
      "scanned (Suc k) mac ip t' (found, t'')" "\<forall>i < Suc k. t'' ! i = t' ! i"
      using IH by blast
    have t': "t' ! k = ?e \<or> t' ! k = ?e\<lparr>arp_valid := 0\<rparr>" "\<forall>i < 32. i \<noteq> k \<longrightarrow> t' ! i = t ! i"
      "arp_valid (t' ! k) = 0 \<or> arp_ip (t' ! k) \<noteq> ip"
      using that(2) k by auto
    have "scanned k mac ip t (found, t'')"
      unfolding scanned_def prod.case
    proof (intro conjI allI impI)
      show "length t'' = length t" using r(2) l Suc.prems by (simp add: scanned_def)
      fix i assume i: "i < length t"
      have s: "arp_ip (t'' ! i) = arp_ip (t' ! i)" "arp_valid (t'' ! i) \<noteq> 0 \<Longrightarrow> arp_valid (t' ! i) \<noteq> 0"
        "arp_ip (t' ! i) \<noteq> ip \<Longrightarrow> arp_valid (t'' ! i) \<noteq> 0 \<Longrightarrow> arp_mac (t'' ! i) = arp_mac (t' ! i)"
        using r(2) i l Suc.prems by (simp_all add: scanned_def)
      show "arp_ip (t'' ! i) = arp_ip (t ! i)" "arp_valid (t'' ! i) \<noteq> 0 \<Longrightarrow> arp_valid (t ! i) \<noteq> 0"
        "arp_ip (t ! i) \<noteq> ip \<Longrightarrow> arp_valid (t'' ! i) \<noteq> 0 \<Longrightarrow> arp_mac (t'' ! i) = arp_mac (t ! i)"
        using s t' i Suc.prems by (cases "i = k"; auto)+
    next
      have n: "\<not> arp_live t'' k ip m" for m using r(3) t'(3) by (auto simp: arp_live_def)
      then show "if found then \<exists>i. arp_live t'' i ip mac else \<forall>i. k \<le> i \<longrightarrow> (\<forall>m. \<not> arp_live t'' i ip m)"
        using r(2) by (auto simp: scanned_def split: if_splits) (metis Suc_leI le_neq_implies_less)
    qed
    moreover have "\<forall>i < k. t'' ! i = t ! i" using r(3) t'(2) k by auto
    ultimately show ?thesis using r(1) that(1) by auto
  qed
  show ?case
  proof (cases "arp_valid ?e = 0")
    case True
    then show ?thesis using k by (intro skip [of t]) simp_all
  next
    case v: False
    show ?thesis
    proof (cases "arp_ip ?e = ip")
      case True
      define t' where "t' = t[k := ?e\<lparr>arp_mac := mac\<rparr>]"
      have "arp_scan [k..<32] mac ip t = Inr (True, t')"
        using True v k by (auto simp: t'_def Let_def intro: nth_equalityI nth_list_update)
      moreover have "scanned k mac ip t (True, t')"
        using True v k by (auto simp: scanned_def t'_def nth_list_update arp_live_def)
      moreover have "\<forall>i < k. t' ! i = t ! i" by (simp add: t'_def)
      ultimately show ?thesis by blast
    next
      case False
      then show ?thesis
        using v k skip [of t] skip [of "t[k := ?e\<lparr>arp_valid := 0\<rparr>]"]
        by (cases "arp_mac ?e = mac") (auto simp: Let_def)
    qed
  qed
qed

lemma arp_row_parts:
  assumes "nxt = 0 \<or> nxt = 1"
  shows "arp_row ip nxt = 2 * unat (ip AND 0xf) + unat nxt" "arp_row ip nxt < 32" "arp_row ip nxt div 2 = unat (ip AND 0xf)"
proof -
  have f: "ip AND 0xf \<le> 15" by (rule word_and_le1)
  then have u: "unat (ip AND 0xf) \<le> 15" by (simp add: word_le_nat_alt)
  have p: "unat (push_bit 1 (ip AND 0xf)) = 2 * unat (ip AND 0xf)"
    using u by (simp add: push_bit_eq_mult unat_word_ariths)
  have "push_bit 1 (ip AND 0xf) OR (1 :: u32) = push_bit 1 (ip AND 0xf) + 1"
    by (rule disjunctive_add_eq_or [symmetric]) (auto intro!: bit_word_eqI simp: bit_simps)
  then have "unat (push_bit 1 (ip AND 0xf) OR 1) = 2 * unat (ip AND 0xf) + 1"
    using p u by (simp add: unat_word_ariths)
  then show e: "arp_row ip nxt = 2 * unat (ip AND 0xf) + unat nxt"
    using assms p by (auto simp: arp_row_def)
  show "arp_row ip nxt < 32" "arp_row ip nxt div 2 = unat (ip AND 0xf)"
    using assms u unfolding e by auto
qed

text \<open>The effect of a record: it is found afterwards, and no other address changes but to be forgotten.\<close>

lemma arp_update_spec:
  assumes ok: "arp_ok t nxt"
  shows "\<exists>t' nxt'. arp_update mac ip (t, nxt) = Inr (t', nxt') \<and> arp_ok t' nxt' \<and> arp_map t' ip = Some mac \<and>
    (\<forall>a. a \<noteq> ip \<longrightarrow> arp_map t' a = arp_map t a \<or> arp_map t' a = None)"
proof -
  have len: "length t = 32" and nx: "nxt = 0 \<or> nxt = 1" using ok by (simp_all add: arp_ok_def)
  obtain found t1 where s: "arp_scan [0..<32] mac ip t = Inr (found, t1)" "scanned 0 mac ip t (found, t1)"
    using arp_scan_spec [OF len, of 0 mac ip] by blast
  have len1: "length t1 = 32" using s(2) len by (simp add: scanned_def)
  have kept: "arp_live t1 i a m \<Longrightarrow> a \<noteq> ip \<Longrightarrow> arp_live t i a m" for i a m
    using s(2) len unfolding scanned_def arp_live_def by auto
  have ok1: "arp_ok t1 nxt"
    using ok s(2) unfolding arp_ok_def scanned_def arp_row_ok_def by auto
  define row where "row = arp_row ip nxt"
  define t2 where "t2 = (if found then t1 else t1[row := (t1 ! row)\<lparr>arp_valid := 1, arp_ip := ip, arp_mac := mac\<rparr>])"
  define nxt2 where "nxt2 = (if found then nxt else if nxt = 0 then 1 else 0)"
  have row: "row < 32" "row div 2 = unat (ip AND 0xf)" using arp_row_parts [OF nx] by (simp_all add: row_def)
  have upd: "arp_update mac ip (t, nxt) = Inr (t2, nxt2)"
    using s row(1) len1 by (auto simp: arp_update_def t2_def nxt2_def row_def Let_def)
  have live2: "\<exists>i. arp_live t2 i ip mac"
    using s(2) row(1) len1 by (cases found) (auto simp: scanned_def t2_def arp_live_def)
  have other: "arp_live t2 i a m \<Longrightarrow> a \<noteq> ip \<Longrightarrow> arp_live t i a m" for i a m
  proof (rule kept)
    assume a: "arp_live t2 i a m" "a \<noteq> ip"
    then have "i \<noteq> row \<or> found" using row(1) len1 by (cases found) (auto simp: t2_def arp_live_def)
    then show "arp_live t1 i a m" using a(1) by (cases found) (auto simp: t2_def arp_live_def)
  qed
  have "arp_ok t2 nxt2"
  proof (cases found)
    case True
    then show ?thesis using ok1 by (simp add: t2_def nxt2_def)
  next
    case False
    then have none: "\<not> arp_live t1 i ip m" for i m using s(2) by (simp add: scanned_def del: split_paired_All)
    have "i = j" if "i < 32" "j < 32" "arp_valid (t2 ! i) \<noteq> 0" "arp_valid (t2 ! j) \<noteq> 0" "arp_ip (t2 ! i) = arp_ip (t2 ! j)" for i j
      using that none [of i "arp_mac (t1 ! i)"] none [of j "arp_mac (t1 ! j)"] arp_unique [OF ok1, of i _ _ j] False len1
      by (cases "i = row"; cases "j = row") (auto simp: t2_def arp_live_def)
    moreover have "arp_row_ok i (t2 ! i)" if "i < 32" for i
      using that row ok1 False len1 by (cases "i = row") (auto simp: t2_def arp_row_ok_def arp_ok_def)
    ultimately show ?thesis using len1 False by (auto simp: arp_ok_def t2_def nxt2_def)
  qed
  moreover from this have "arp_map t2 ip = Some mac" using live2 by (simp add: arp_map_Some)
  moreover have "arp_map t2 a = arp_map t a \<or> arp_map t2 a = None" if "a \<noteq> ip" for a
  proof (cases "arp_map t2 a")
    case (Some m)
    then obtain i where "arp_live t2 i a m" using arp_map_Some [OF \<open>arp_ok t2 nxt2\<close>] by blast
    then have "arp_map t a = Some m" using other [OF _ that] arp_map_Some [OF ok, of a m] by blast
    then show ?thesis using Some by simp
  qed simp
  ultimately show ?thesis using upd by blast
qed

lemma arp_lookup_spec:
  assumes ok: "arp_ok (g_arpTable s) (g_nextArpSet s)" and "ip \<noteq> 0xffffffff"
  shows "ARPLookupRecord ip mac s =
    Inr (case arp_map (g_arpTable s) ip of Some m \<Rightarrow> (1, m) | None \<Rightarrow> (0, mac))"
proof -
  let ?t = "g_arpTable s" and ?b = "2 * unat (ip AND 0xf)"
  have b: "unat (push_bit 1 (ip AND 0xf)) = ?b" "?b + 1 < 32" "length ?t = 32"
    using arp_row_parts [of 0 ip] arp_row_parts [of 1 ip] ok by (simp_all add: arp_row_def arp_ok_def)
  have row: "i = ?b \<or> i = ?b + 1" if "arp_live ?t i ip m" for i m
  proof -
    have "i div 2 = unat (ip AND 0xf)" using that ok by (auto simp: arp_live_def arp_ok_def arp_row_ok_def)
    then show ?thesis using div_mult_mod_eq [of i 2] by (cases "even i") (auto elim!: evenE oddE)
  qed
  have f: "arp_find [?b..<?b + 2] ip mac ?t =
      (if arp_valid (?t ! ?b) \<noteq> 0 \<and> arp_ip (?t ! ?b) = ip then Inr (1, arp_mac (?t ! ?b))
       else if arp_valid (?t ! (?b + 1)) \<noteq> 0 \<and> arp_ip (?t ! (?b + 1)) = ip then Inr (1, arp_mac (?t ! (?b + 1)))
       else Inr (0, mac))"
    using b by (simp add: upt_rec)
  have "arp_live ?t i ip m \<Longrightarrow> arp_find [?b..<?b + 2] ip mac ?t = Inr (1, m)" for i m
    using row [of i m] arp_unique [OF ok, of i ip m ?b] b
    unfolding f by (auto simp: arp_live_def)
  then have hit: "arp_map ?t ip = Some m \<Longrightarrow> arp_find [?b..<?b + 2] ip mac ?t = Inr (1, m)" for m
    using arp_map_Some [OF ok, of ip m] by blast
  have "arp_map ?t ip = None \<Longrightarrow> arp_find [?b..<?b + 2] ip mac ?t = Inr (0, mac)"
    using b unfolding f arp_map_None by (auto simp: arp_live_def)
  with hit have "arp_find [?b..<?b + 2] ip mac ?t =
      Inr (case arp_map ?t ip of Some m \<Rightarrow> (1, m) | None \<Rightarrow> (0, mac))"
    by (cases "arp_map ?t ip") simp_all
  then show ?thesis using assms(2) b(1) by (simp add: ARPLookupRecord_def Let_def)
qed

section \<open>The contract of a cache\<close>

text \<open>
  A cache that takes every record: the key just recorded is found, the others keep their value or
  are forgotten.
\<close>

locale address_cache =
  fixes invar :: "'c \<Rightarrow> bool"
    and remember :: "'a \<Rightarrow> 'k \<Rightarrow> 'c \<Rightarrow> 'c res"
    and lookup :: "'c \<Rightarrow> 'k \<Rightarrow> 'a option"
  assumes remember_total: "invar c \<Longrightarrow> \<exists>c'. remember a k c = Inr c' \<and> invar c' \<and> lookup c' k = Some a \<and>
    (\<forall>j. j \<noteq> k \<longrightarrow> lookup c' j = lookup c j \<or> lookup c' j = None)"
begin

definition newest :: "'c \<Rightarrow> ('a \<times> 'k) list \<Rightarrow> 'k \<Rightarrow> 'a option" where
  "newest c h k = (case find (\<lambda>(a, j). j = k) (rev h) of Some (a, j) \<Rightarrow> Some a | None \<Rightarrow> lookup c k)"

lemma newest_snoc: "newest c (h @ [(a, k)]) j = (if j = k then Some a else newest c h j)"
  by (simp add: newest_def)

lemma history:
  assumes "invar c"
  shows "\<exists>c'. foreach h (\<lambda>(a, k). remember a k) c = Inr c' \<and> invar c' \<and>
    (\<forall>k. lookup c' k = newest c h k \<or> lookup c' k = None) \<and>
    (h \<noteq> [] \<longrightarrow> lookup c' (snd (last h)) = Some (fst (last h)))"
proof (induction h rule: rev_induct)
  case Nil
  then show ?case using assms by (simp add: newest_def)
next
  case (snoc x h)
  obtain a k where x: "x = (a, k)" by (cases x)
  obtain c1 where c1: "foreach h (\<lambda>(a, k). remember a k) c = Inr c1" "invar c1"
    "\<forall>k. lookup c1 k = newest c h k \<or> lookup c1 k = None"
    using snoc by blast
  obtain c2 where c2: "remember a k c1 = Inr c2" "invar c2" "lookup c2 k = Some a"
    "\<forall>j. j \<noteq> k \<longrightarrow> lookup c2 j = lookup c1 j \<or> lookup c2 j = None"
    using remember_total [OF c1(2)] by blast
  have "foreach (h @ [x]) (\<lambda>(a, k). remember a k) c = Inr c2"
    using c1(1) c2(1) by (simp add: foreach_append x)
  moreover have "\<forall>j. lookup c2 j = newest c (h @ [x]) j \<or> lookup c2 j = None"
    using c1(3) c2(3,4) unfolding x newest_snoc by (metis option.distinct(1))
  ultimately show ?case using c2(2,3) by (simp add: x)
qed

end

interpretation arp: address_cache "\<lambda>(t, n). arp_ok t n" arp_update "\<lambda>(t, n). arp_map t"
  using arp_update_spec by unfold_locales fastforce

lemma arp_history:
  "foreach h (\<lambda>(mac, ip). ARPAddRecord mac ip) s =
   andthen (foreach h (\<lambda>(mac, ip). arp_update mac ip) (g_arpTable s, g_nextArpSet s))
     (\<lambda>(t, n). Inr (s\<lparr>g_arpTable := t, g_nextArpSet := n\<rparr>))"
proof (induction h arbitrary: s)
  case (Cons x h)
  obtain mac ip where x: "x = (mac, ip)" by (cases x)
  have head: "ARPAddRecord mac ip s = andthen (arp_update mac ip (g_arpTable s, g_nextArpSet s))
      (\<lambda>(t, nxt). Inr (s\<lparr>g_arpTable := t, g_nextArpSet := nxt\<rparr>))"
    by (simp add: ARPAddRecord_def)
  show ?case
    by (cases "arp_update mac ip (g_arpTable s, g_nextArpSet s)") (auto simp: x head Cons)
qed simp

section \<open>Evolution\<close>

lemma ARPInitialize_exact:
  assumes "length (g_arpTable s) = 32"
  shows "ARPInitialize s = Inr (s\<lparr>g_arpTable := map (\<lambda>e. e\<lparr>arp_valid := 0\<rparr>) (g_arpTable s), g_nextArpSet := 0\<rparr>)"
proof -
  let ?z = "\<lambda>e. e\<lparr>arp_valid := 0\<rparr>"
  let ?body = "\<lambda>i s. andthen (aget (g_arpTable s) i) (\<lambda>e.
     andthen (aset (g_arpTable s) i (e\<lparr>arp_valid := 0\<rparr>)) (\<lambda>t. Inr (s\<lparr>g_arpTable := t\<rparr>)))"
  have "k \<le> 32 \<Longrightarrow> foreach [0..<k] ?body (s\<lparr>g_nextArpSet := 0\<rparr>) =
      Inr (s\<lparr>g_arpTable := map ?z (take k (g_arpTable s)) @ drop k (g_arpTable s), g_nextArpSet := 0\<rparr>)" for k
  proof (induction k)
    case 0
    then show ?case by simp
  next
    case (Suc k)
    let ?t = "map ?z (take k (g_arpTable s)) @ drop k (g_arpTable s)"
    have k: "k < length (g_arpTable s)" using Suc.prems assms by simp
    then have "?t ! k = g_arpTable s ! k" "length ?t = 32" using assms by (simp_all add: nth_append)
    moreover have "?t[k := ?z (g_arpTable s ! k)] = map ?z (take (Suc k) (g_arpTable s)) @ drop (Suc k) (g_arpTable s)"
      using k by (simp add: list_update_append take_Suc_conv_app_nth Cons_nth_drop_Suc [symmetric])
    ultimately show ?case using Suc by (simp add: foreach_append)
  qed
  from this [of 32] show ?thesis using assms by (simp add: ARPInitialize_def)
qed

lemma ARPInitialize_evolves [vcg]:
  assumes e: "evolves fs s0 s" and "\<And>s'. evolves fs s0 s' \<Longrightarrow> Q s'"
  shows "wp no_overrun Q (ARPInitialize s)"
proof -
  have "arp_ok (map (\<lambda>e. e\<lparr>arp_valid := 0\<rparr>) (g_arpTable s)) 0"
    using evolve_parts(6) [OF e] by (simp add: arp_ok_def arp_row_ok_def)
  from assms(2) [OF globals_evolve(13) [OF e this]] show ?thesis
    by (simp add: ARPInitialize_exact [OF evolve_parts(6) [OF e]])
qed

lemma ARPAddRecord_evolves [vcg]:
  assumes e: "evolves fs s0 s" and "\<And>s'. evolves fs s0 s' \<Longrightarrow> g_ipAddress s' = g_ipAddress s \<Longrightarrow> Q s'"
  shows "wp no_overrun Q (ARPAddRecord mac ip s)"
proof -
  obtain t n where "arp_update mac ip (g_arpTable s, g_nextArpSet s) = Inr (t, n)" "arp_ok t n"
    using arp_update_spec [OF evolve_parts(7) [OF e]] by blast
  then show ?thesis
    using assms(2) [OF globals_evolve(13) [OF e, of t n]] by (simp add: ARPAddRecord_def)
qed

lemma ARPLookupRecord_ok [vcg]:
  assumes "evolves fs s0 s" and "\<And>r m. Q (r, m)"
  shows "wp no_overrun Q (ARPLookupRecord ip mac s)"
  using arp_lookup_spec [OF evolve_parts(7) [OF assms(1)], of ip mac] assms(2)
  by (cases "ip = 0xffffffff") (auto simp: ARPLookupRecord_def split: option.splits)

lemma ARPSendProbeResponseTo_evolves [vcg]:
  assumes e: "evolves fs s0 s" and "\<And>s'. evolves fs s0 s' \<Longrightarrow> cpu.more s' = cpu.more s \<Longrightarrow> Q s'"
  shows "wp no_overrun Q (ARPSendProbeResponseTo ip mac s)"
  unfolding ARPSendProbeResponseTo_def
  by (cases mac) (auto intro!: EthernetAllocateFrame_evolves [OF e] store_words_wp EthernetSendFrame_evolves assms(2))

lemma ARPSendProbeRequestTo_evolves [vcg]:
  assumes e: "evolves fs s0 s" and "\<And>s'. evolves fs s0 s' \<Longrightarrow> cpu.more s' = cpu.more s \<Longrightarrow> Q s'"
  shows "wp no_overrun Q (ARPSendProbeRequestTo ip s)"
  unfolding ARPSendProbeRequestTo_def
  by (auto intro!: EthernetAllocateFrame_evolves [OF e] store_words_wp EthernetSendFrame_evolves assms(2))

lemma ARPProcessFrame_evolves [vcg]:
  assumes e: "evolves fs s0 s" and "\<And>s'. evolves fs s0 s' \<Longrightarrow> Q s'"
  shows "wp no_overrun Q (ARPProcessFrame frame s)"
  unfolding ARPProcessFrame_def Let_def
  by (auto intro!: load_no_overrun ARPAddRecord_evolves [OF e] ARPSendProbeResponseTo_evolves assms e)

section \<open>Packets\<close>

text \<open>An ARP packet for IPv4 over Ethernet: opcode, sender and target, each with both addresses.\<close>

definition arp_packet :: "u16 \<Rightarrow> u16 \<Rightarrow> mac \<Rightarrow> u32 \<Rightarrow> mac \<Rightarrow> u32 \<Rightarrow> u32 list" where
  "arp_packet ipv4 opcode smac sip tmac tip = (let (s0, s1, s2) = smac; (t0, t1, t2) = tmac in
     [halves 1 ipv4, halves 0x0604 opcode, halves s0 s1, halves s2 (ucast (drop_bit 16 sip)),
      halves (ucast sip) t0, halves t1 t2, tip])"

lemma arp_words_packet:
  "map snd (arp_sender_words s (ucast opcode) @ [(4, push_bit 16 (g_ipAddress s) OR ucast t0), (5, mac_lo (t0, t1, t2)), (6, tip)]) =
   arp_packet (ETHERTYPE_IPV4 (cfg s)) opcode (g_mac s) (g_ipAddress s) (t0, t1, t2) tip"
proof -
  obtain m0 m1 m2 where "g_mac s = (m0, m1, m2)" by (cases "g_mac s") auto
  then show ?thesis
    by (simp add: arp_sender_words_def arp_packet_def mac_lo_def Let_def halves_def)
qed

lemma arp_ip_halves: "push_bit 16 (halves h (ucast (drop_bit 16 ip)) AND 0xffff) OR drop_bit 16 (halves (ucast ip) t) = (ip :: u32)"
  by (rule bit_word_eqI) (auto simp: halves_def and_mask_u32 bit_simps dest: bit_imp_le_length)

lemma arp_ip_join: "push_bit 16 (drop_bit 16 ip) OR ucast (ucast ip :: u16) = (ip :: u32)"
  by (rule bit_word_eqI) (auto simp: bit_simps)

text \<open>A reply that is built in a frame just allocated, and its fate.\<close>

lemma arp_reply_exact:
  assumes "EthernetAllocateFrame s = Inr (frame_addr phy, s1)" and "ram_page phy"
  shows "wp only_blocks (\<lambda>s'. cpu.more s' = cpu.more s \<and> mmu s' = (mmu s)(frame_addr phy := PAGE_GUARD) \<and>
      frame_words (mem s') (frame_addr phy) 13 =
        arp_packet (ETHERTYPE_IPV4 (cfg s)) 2 (g_mac s) (g_ipAddress s) mac ip @ replicate 6 0 \<and>
      (\<exists>r reqs. sends s s' (rpc_request (g_ramAddr s) RAM_ALLOCATE 0 0 0 # reqs) \<and>
         frame_fate s (frame_addr phy) (fst mac) (mac_lo mac) (ETHERTYPE_ARP (cfg s)) 13 r reqs))
    (ARPSendProbeResponseTo ip mac s)"
proof -
  let ?f = "frame_addr phy"
  obtain m0 m1 m2 where mac: "mac = (m0, m1, m2)" by (cases mac) auto
  note a = alloc_granted(1) [OF assms] and pg = alloc_granted(2) [OF assms] and nz = alloc_granted(3) [OF assms]
    and s1 = alloc_granted(4-7) [OF assms]
  have g: "cfg s1 = cfg s" "g_mac s1 = g_mac s" "g_ipAddress s1 = g_ipAddress s" using pdu_more [OF s1(2)] by simp_all
  let ?iws = "arp_sender_words s1 2 @ [(4, push_bit 16 (g_ipAddress s1) OR ucast m0), (5, mac_lo mac), (6, ip)]"
  let ?s2 = "s1\<lparr>mem := put_words ?f ?iws (mem s1)\<rparr>"
  have idx: "map fst ?iws = [0..<7]" "\<forall>(i, w) \<in> set ?iws. i < 512"
    by (auto simp: arp_sender_words_def Let_def upt_rec split: prod.splits)
  have st: "store_words ?f ?iws s1 = Inr ?s2"
    by (rule store_words_frame [OF a]) (use s1(4) idx in simp_all)
  have pk: "map snd ?iws = arp_packet (ETHERTYPE_IPV4 (cfg s)) 2 (g_mac s) (g_ipAddress s) mac ip"
    using arp_words_packet [of s1 2 m0 m1 m2 ip] g mac by simp
  have m2: "mem ?s2 = put_words ?f ?iws (mem s1)" by simp
  have "frame_words (put_words ?f (map (\<lambda>i. (i, 0)) [7..<13]) (mem ?s2)) ?f 13 = map snd (?iws @ map (\<lambda>i. (i, 0)) [7..<13])"
    unfolding m2 put_words_append [symmetric]
    by (rule put_words_frame) (use idx in \<open>simp_all add: upt_rec\<close>)
  moreover have "map snd (map (\<lambda>i. (i, 0 :: u32)) [7..<13]) = replicate 6 0" by (simp add: upt_rec numeral_eq_Suc)
  ultimately have pad: "frame_words (put_words ?f (map (\<lambda>i. (i, 0)) [7..<13]) (mem ?s2)) ?f 13 =
      arp_packet (ETHERTYPE_IPV4 (cfg s)) 2 (g_mac s) (g_ipAddress s) mac ip @ replicate 6 0"
    by (simp only: map_append [of snd ?iws] pk)
  have "wp only_blocks (\<lambda>(r, s'). cpu.more s' = cpu.more s \<and> mmu s' = (mmu s)(?f := PAGE_GUARD) \<and>
      frame_words (mem s') ?f 13 = arp_packet (ETHERTYPE_IPV4 (cfg s)) 2 (g_mac s) (g_ipAddress s) mac ip @ replicate 6 0 \<and>
      (\<exists>r reqs. sends s s' (rpc_request (g_ramAddr s) RAM_ALLOCATE 0 0 0 # reqs) \<and>
         frame_fate s ?f (fst mac) (mac_lo mac) (ETHERTYPE_ARP (cfg s)) 13 r reqs))
    (EthernetSendFrame ?f m0 (mac_lo mac) (ETHERTYPE_ARP (cfg ?s2)) (of_nat 7) ?s2)"
  proof (rule EthernetSendFrame_sends [OF _ _ sends_helper(3) [OF s1(1)]], goal_cases)
    case (2 i)
    then show ?case using mapped_frame [OF a, of s1 i] s1(4) by (simp add: writable_def)
  next
    case (3 r s' reqs)
    have "frame_fate ?s2 = frame_fate s" by (rule frame_fate_more) (simp add: s1)
    then have "frame_fate s ?f (fst mac) (mac_lo mac) (ETHERTYPE_ARP (cfg s)) 13 r reqs"
      using 3(2) g mac by simp
    then show ?case using 3 s1 pad pg by auto
  qed simp
  then show ?thesis
    using nz st assms(1) g by (simp add: ARPSendProbeResponseTo_def mac split_def Let_def)
qed

text \<open>What \<open>ARPProcessFrame\<close> does with a well-formed packet; the opcode is cut to its low byte.\<close>

lemma ARPProcessFrame_packet:
  assumes r: "\<And>i. i < 7 \<Longrightarrow> readable (word_at frame (of_nat i)) s"
    and pk: "frame_words (mem s) frame 7 = arp_packet (ETHERTYPE_IPV4 (cfg s)) opcode smac sip tmac tip"
  shows "ARPProcessFrame frame s =
    andthen (if sip \<noteq> 0 then ARPAddRecord smac sip s else Inr s) (\<lambda>s.
      if (ucast opcode :: u8) = 1 then if tip = g_ipAddress s then ARPSendProbeResponseTo sip smac s else Inr s
      else Inr s)"
proof -
  obtain s0 s1 s2 where smac: "smac = (s0, s1, s2)" by (cases smac) auto
  obtain t0 t1 t2 where tmac: "tmac = (t0, t1, t2)" by (cases tmac) auto
  have ld: "load32 (word_at frame (of_nat i)) s = Inr (frame_words (mem s) frame 7 ! i)" if "i < 7" for i
    using r [OF that] that by (simp add: load32_def frame_words_def)
  show ?thesis
    using ld [of 0] ld [of 1] ld [of 2] ld [of 3] ld [of 4] ld [of 6]
    unfolding pk ARPProcessFrame_def
    by (simp add: arp_packet_def smac tmac Let_def arp_ip_halves arp_ip_join del: push_bit_and cong: if_cong)
qed

section \<open>Properties\<close>

text \<open>
  The cache after any sequence of records, whatever it held before. It stays well formed; a lookup
  finds either nothing, and leaves the caller's array alone, or the newest MAC address recorded for
  this IP address; the last record is always found. So the cache may forget, but never lies.
\<close>
lemma arp_cache_newest:
  assumes "arp_ok (g_arpTable s) (g_nextArpSet s)"
  shows "\<exists>s'. foreach h (\<lambda>(mac, ip). ARPAddRecord mac ip) s = Inr s' \<and> arp_ok (g_arpTable s') (g_nextArpSet s') \<and>
    (\<forall>ip mac0. ip \<noteq> 0xffffffff \<longrightarrow> ARPLookupRecord ip mac0 s' = Inr (0, mac0) \<or>
       (\<exists>mac. ARPLookupRecord ip mac0 s' = Inr (1, mac) \<and>
          (case find (\<lambda>(m, a). a = ip) (rev h) of Some (m, a) \<Rightarrow> Some m | None \<Rightarrow> arp_map (g_arpTable s) ip) = Some mac)) \<and>
    (\<forall>mac0. h \<noteq> [] \<longrightarrow> snd (last h) \<noteq> 0xffffffff \<longrightarrow> ARPLookupRecord (snd (last h)) mac0 s' = Inr (1, fst (last h)))"
proof -
  obtain t n where h: "foreach h (\<lambda>(mac, ip). arp_update mac ip) (g_arpTable s, g_nextArpSet s) = Inr (t, n)"
    "arp_ok t n" "\<forall>ip. arp_map t ip = arp.newest (g_arpTable s, g_nextArpSet s) h ip \<or> arp_map t ip = None"
    "h \<noteq> [] \<longrightarrow> arp_map t (snd (last h)) = Some (fst (last h))"
    using arp.history [of "(g_arpTable s, g_nextArpSet s)" h] assms by auto
  let ?s = "s\<lparr>g_arpTable := t, g_nextArpSet := n\<rparr>"
  have look: "ip \<noteq> 0xffffffff \<Longrightarrow> ARPLookupRecord ip mac0 ?s =
      Inr (case arp_map t ip of Some m \<Rightarrow> (1, m) | None \<Rightarrow> (0, mac0))" for ip mac0
    using arp_lookup_spec [of ?s ip mac0] h(2) by simp
  have "ARPLookupRecord ip mac0 ?s = Inr (0, mac0) \<or>
       (\<exists>mac. ARPLookupRecord ip mac0 ?s = Inr (1, mac) \<and>
          (case find (\<lambda>(m, a). a = ip) (rev h) of Some (m, a) \<Rightarrow> Some m | None \<Rightarrow> arp_map (g_arpTable s) ip) = Some mac)"
    if "ip \<noteq> 0xffffffff" for ip mac0
  proof (cases "arp_map t ip")
    case (Some mac)
    then have "arp.newest (g_arpTable s, g_nextArpSet s) h ip = Some mac" using h(3) [rule_format, of ip] by simp
    then show ?thesis using Some unfolding look [OF that] arp.newest_def prod.case
      by (intro disjI2 exI [of _ mac]) simp
  qed (simp add: look [OF that])
  then show ?thesis
    using h(1,2,4) by (intro exI [of _ ?s]) (auto simp: arp_history look)
qed

lemma arp_cache_newest_witness:
  "\<exists>s'. foreach [((1, 2, 3), 0x0A000001), ((4, 5, 6), 0x0A000001)] (\<lambda>(mac, ip). ARPAddRecord mac ip) blank_pdu = Inr s' \<and>
     ARPLookupRecord 0x0A000001 (0, 0, 0) s' = Inr (1, (4, 5, 6))"
  using arp_cache_newest [of blank_pdu "[((1, 2, 3), 0x0A000001), ((4, 5, 6), 0x0A000001)]"] blank_pdu_ok(1)
  by (auto simp: pdu_ok_def)

text \<open>
  a well-formed ARP request for the firmware's own address. The sender is in the cache afterwards;
  the reply is built in a page of the RAM controller and names the firmware as the sender and the asker as the
  target, padded with zeros to the Ethernet minimum; it is sent to the asker's MAC address, and the
  page is unmapped. Nothing but a silent network stops it.
\<close>
lemma arp_request_answered:
  assumes "arp_ok (g_arpTable s) (g_nextArpSet s)"
    and "\<And>i. i < 7 \<Longrightarrow> readable (word_at frame (of_nat i)) s"
    and "frame_words (mem s) frame 7 = arp_packet (ETHERTYPE_IPV4 (cfg s)) 1 smac sip tmac (g_ipAddress s)"
    and "sip \<noteq> 0"
    and s1: "ARPAddRecord smac sip s = Inr s1"
    and alloc: "EthernetAllocateFrame s1 = Inr (frame_addr phy, s2)" "ram_page phy"
  shows "arp_map (g_arpTable s1) sip = Some smac \<and>
    wp only_blocks (\<lambda>s'. cpu.more s' = cpu.more s1 \<and> mmu s' = (mmu s)(frame_addr phy := PAGE_GUARD) \<and>
      frame_words (mem s') (frame_addr phy) 13 =
        arp_packet (ETHERTYPE_IPV4 (cfg s)) 2 (g_mac s) (g_ipAddress s) smac sip @ replicate 6 0 \<and>
      (\<exists>r reqs. sends s s' (rpc_request (g_ramAddr s) RAM_ALLOCATE 0 0 0 # reqs) \<and>
         frame_fate s (frame_addr phy) (fst smac) (mac_lo smac) (ETHERTYPE_ARP (cfg s)) 13 r reqs))
    (ARPProcessFrame frame s)"
proof
  obtain t n where u: "arp_update smac sip (g_arpTable s, g_nextArpSet s) = Inr (t, n)" "arp_map t sip = Some smac"
    using arp_update_spec [OF assms(1), of smac sip] by blast
  then have e: "s1 = s\<lparr>g_arpTable := t, g_nextArpSet := n\<rparr>" using s1 by (simp add: ARPAddRecord_def)
  show "arp_map (g_arpTable s1) sip = Some smac" using u(2) by (simp add: e)
  have "sends s s' xs = sends s1 s' xs" "frame_fate s = frame_fate s1" for s' xs
    unfolding sends_def frame_fate_def frame_out_def frame_kept_def by (simp_all add: e fun_eq_iff)
  then show "wp only_blocks (\<lambda>s'. cpu.more s' = cpu.more s1 \<and> mmu s' = (mmu s)(frame_addr phy := PAGE_GUARD) \<and>
      frame_words (mem s') (frame_addr phy) 13 =
        arp_packet (ETHERTYPE_IPV4 (cfg s)) 2 (g_mac s) (g_ipAddress s) smac sip @ replicate 6 0 \<and>
      (\<exists>r reqs. sends s s' (rpc_request (g_ramAddr s) RAM_ALLOCATE 0 0 0 # reqs) \<and>
         frame_fate s (frame_addr phy) (fst smac) (mac_lo smac) (ETHERTYPE_ARP (cfg s)) 13 r reqs))
    (ARPProcessFrame frame s)"
    using arp_reply_exact [OF alloc, of smac sip] ARPProcessFrame_packet [OF assms(2,3)] s1 assms(4)
    by (simp add: e)
qed

lemma arp_request_answered_witness:
  "let s = blank_pdu\<lparr>inbox := [granted 0x11 0x200],
       mem := put_words 0x1000 (zip [0..<7] (arp_packet 0x0800 1 (1, 2, 3) 0x0A000001 (0, 0, 0) 0)) (\<lambda>_. 0)\<rparr>
   in \<exists>s1. ARPAddRecord (1, 2, 3) 0x0A000001 s = Inr s1 \<and> arp_map (g_arpTable s1) 0x0A000001 = Some (1, 2, 3) \<and>
     wp only_blocks (\<lambda>s'. frame_words (mem s') (frame_addr 0x200) 13 =
        arp_packet 0x0800 2 (0x0200, 0, 1) 0 (1, 2, 3) 0x0A000001 @ replicate 6 0) (ARPProcessFrame 0x1000 s)"
proof -
  let ?iws = "zip [0..<7] (arp_packet 0x0800 1 (1, 2, 3) 0x0A000001 (0, 0, 0) 0)"
  let ?s = "blank_pdu\<lparr>inbox := [granted 0x11 0x200], mem := put_words 0x1000 ?iws (\<lambda>_. 0)\<rparr>"
  have ok: "arp_ok (g_arpTable ?s) (g_nextArpSet ?s)" using blank_pdu_ok(1) by (simp add: pdu_ok_def)
  obtain t n where "arp_update (1, 2, 3) 0x0A000001 (g_arpTable ?s, g_nextArpSet ?s) = Inr (t, n)"
    using arp_update_spec [OF ok] by blast
  then have s1: "ARPAddRecord (1, 2, 3) 0x0A000001 ?s = Inr (?s\<lparr>g_arpTable := t, g_nextArpSet := n\<rparr>)"
    by (simp add: ARPAddRecord_def)
  obtain s2 where s2: "EthernetAllocateFrame (?s\<lparr>g_arpTable := t, g_nextArpSet := n\<rparr>) = Inr (frame_addr 0x200, s2)"
    by (simp add: EthernetAllocateFrame_def granted_call Let_def)
  have len: "length (arp_packet 0x0800 1 (1, 2, 3) 0x0A000001 (0, 0, 0) 0) = 7" by (simp add: arp_packet_def)
  then have fw: "frame_words (mem ?s) 0x1000 7 = arp_packet (ETHERTYPE_IPV4 (cfg ?s)) 1 (1, 2, 3) 0x0A000001 (0, 0, 0) (g_ipAddress ?s)"
    using put_words_frame [of ?iws 7 "0x1000" "\<lambda>_. 0"] by (simp add: blank_cfg_def)
  have "readable a ?s" for a by (simp add: readable_def bit_word_iff_drop_bit_and)
  from arp_request_answered [OF ok this fw _ s1 s2] show ?thesis
    using s1 by (auto simp: ram_page_def Let_def blank_cfg_def elim!: wp_mono)
qed

end
