(* ===== verification/Pdu_Ip.thy ===== *)
theory Pdu_Ip
  imports Pdu_Arp
begin

text \<open>
  \<open>src/PDUFirmware/IPv4.c\<close> and the transmit side of \<open>UDPv4.c\<close>: the Internet checksum, IPv4 headers,
  the choice of the next hop, and UDP datagrams. The checksum is proved equal to the
  ones'-complement sum of its data, and the headers to carry a checksum that verifies.
\<close>

abbreviation (input) IP_PROTOCOL_ICMP :: u32 where "IP_PROTOCOL_ICMP \<equiv> 1"
abbreviation (input) IP_PROTOCOL_UDP :: u32 where "IP_PROTOCOL_UDP \<equiv> 0x11"

section \<open>The code\<close>

definition IPv4Initialize :: "pdu \<Rightarrow> pdu" where
  "IPv4Initialize s = s\<lparr>g_ipAddress := 0, g_broadcastAddress := 0, g_subnetMask := 0, g_routerAddress := 0\<rparr>"

text \<open>The summing loop; \<open>count\<close> is a signed \<open>int\<close>.\<close>

function ip_sum :: "int \<Rightarrow> u32 \<Rightarrow> u32 \<Rightarrow> pdu \<Rightarrow> u32 res" where
  "ip_sum count addr tot s =
     (if count > 1 then andthen (load16 addr s) (\<lambda>h. ip_sum (count - 2) (addr + 2) (tot + ucast h) s)
      else if count > 0 then andthen (load8 addr s) (\<lambda>b. Inr (tot + ucast b))
      else Inr tot)"
  by pat_completeness auto
termination by (relation "measure (\<lambda>(count, addr, tot, s). nat count)") auto

declare ip_sum.simps [simp del]

lemma carry_less:
  assumes "drop_bit 16 (x :: u32) \<noteq> 0"
  shows "unat ((x AND 0xffff) + drop_bit 16 x) < unat x"
    "unat ((x AND 0xffff) + drop_bit 16 x) = unat x mod 65536 + unat x div 65536"
proof -
  have "unat (drop_bit 16 x) = drop_bit 16 (unat x)" by (rule unat_drop_bit_eq)
  then have d: "unat (drop_bit 16 x) = unat x div 65536" by (simp only: drop_bit_eq_div) simp
  have m: "unat (x AND 0xffff) = unat x mod 65536"
    unfolding and_mask_u32 unsigned_take_bit_eq by (simp add: take_bit_eq_mod)
  have "unat x div 65536 < 65536" using unat_u32_bound [of x] by simp
  then show e: "unat ((x AND 0xffff) + drop_bit 16 x) = unat x mod 65536 + unat x div 65536"
    using d m by (simp add: unat_word_ariths)
  have "unat x div 65536 \<noteq> 0" using assms d by (metis unat_eq_zero)
  then show "unat ((x AND 0xffff) + drop_bit 16 x) < unat x"
    unfolding e using div_mult_mod_eq [of "unat x" 65536] by linarith
qed

function fold_carry :: "u32 \<Rightarrow> u32" where
  "fold_carry tot = (if drop_bit 16 tot \<noteq> 0 then fold_carry ((tot AND 0xffff) + drop_bit 16 tot) else tot)"
  by pat_completeness auto
termination by (relation "measure unat") (use carry_less(1) in simp_all)

declare fold_carry.simps [simp del]

definition InternetChecksum :: "int \<Rightarrow> u32 \<Rightarrow> pdu \<Rightarrow> u16 res" where
  "InternetChecksum count addr s = andthen (ip_sum count addr 0 s) (\<lambda>tot. Inr (ucast (fold_carry tot)))"

definition IPv4AddHeaders :: "u32 \<Rightarrow> u32 \<Rightarrow> u32 \<Rightarrow> u32 \<Rightarrow> u32 \<Rightarrow> pdu \<Rightarrow> pdu res" where
  "IPv4AddHeaders frame from_addr to_addr ip_protocol payload_length s =
     (let packet_bytesize = payload_length + 20 in
      andthen (store_words frame [(0, 0x45000000 OR packet_bytesize), (1, 0x00004000),
        (2, 0xFF000000 OR push_bit 16 ip_protocol), (3, from_addr), (4, to_addr)] s) (\<lambda>s.
      andthen (InternetChecksum 20 frame s) (\<lambda>tot.
      let header_checksum = NOT tot in
      andthen (load32 (word_at frame 2) s) (\<lambda>f2.
      store32 (word_at frame 2) ((f2 AND 0xFFFF0000) OR ucast header_checksum) s))))"

definition IPv4SendFrame :: "u32 \<Rightarrow> u32 \<Rightarrow> u32 \<Rightarrow> u32 \<Rightarrow> u32 \<Rightarrow> pdu \<Rightarrow> pdu res" where
  "IPv4SendFrame frame from_addr to_addr ip_protocol payload_length s =
     andthen (IPv4AddHeaders frame from_addr to_addr ip_protocol payload_length s) (\<lambda>s.
     let packet_wordsize = drop_bit 2 payload_length + 5;
         packet_wordsize = (if payload_length AND 3 \<noteq> 0 then packet_wordsize + 1 else packet_wordsize);
         dest_mac = (0xffff, 0xffff, 0xffff);
         send = (\<lambda>(m0, m1, m2) s. andthen (EthernetSendFrame frame m0 (mac_lo (m0, m1, m2)) (ETHERTYPE_IPV4 (cfg s))
           packet_wordsize s) (\<lambda>(r, s). Inr s))
     in if g_ipAddress s \<noteq> 0 \<and> (to_addr AND g_subnetMask s) \<noteq> (g_ipAddress s AND g_subnetMask s) then
          andthen (ARPLookupRecord (g_routerAddress s) dest_mac s) (\<lambda>(found, dest_mac).
          if found = 0 then
            andthen (ARPSendProbeRequestTo (g_routerAddress s) s) (\<lambda>s. EthernetFreeFrame frame s)
          else send dest_mac s)
        else
          andthen (ARPLookupRecord to_addr dest_mac s) (\<lambda>(found, dest_mac).
          if found = 0 then andthen (ARPSendProbeRequestTo to_addr s) (\<lambda>s. send dest_mac s)
          else send dest_mac s))"

definition IPv4GetTxBodyPtr :: "u32 \<Rightarrow> u32" where
  "IPv4GetTxBodyPtr frame = word_at frame 5"

definition UDPv4GetTxBodyPtr :: "u32 \<Rightarrow> u32" where
  "UDPv4GetTxBodyPtr frame = word_at (IPv4GetTxBodyPtr frame) 2"

definition UDPv4SendPacket :: "u32 \<Rightarrow> u32 \<Rightarrow> u16 \<Rightarrow> u16 \<Rightarrow> u32 \<Rightarrow> pdu \<Rightarrow> pdu res" where
  "UDPv4SendPacket frame to_addr srcport dstport payload_length s =
     (let body = IPv4GetTxBodyPtr frame; payload_length = payload_length + 8 in
      andthen (store_words body [(0, push_bit 16 (ucast srcport) OR ucast dstport), (1, push_bit 16 payload_length)] s) (\<lambda>s.
      IPv4SendFrame frame (g_ipAddress s) to_addr IP_PROTOCOL_UDP payload_length s))"

section \<open>Evolution\<close>

lemma ip_sum_ok:
  assumes "\<And>v. Q v"
  shows "wp no_overrun Q (ip_sum count addr tot s)"
proof -
  have "wp no_overrun (\<lambda>_. True) (ip_sum count addr tot s)"
  proof (induction count addr tot s rule: ip_sum.induct)
    case (1 count addr tot s)
    then show ?case by (subst ip_sum.simps) (auto simp: load16_def load8_def)
  qed
  then show ?thesis by (rule wp_mono) (rule assms)
qed

lemma InternetChecksum_ok [vcg]: "(\<And>v. Q v) \<Longrightarrow> wp no_overrun Q (InternetChecksum count addr s)"
  by (auto simp: InternetChecksum_def intro!: ip_sum_ok)

lemma store32_evolves [vcg]:
  assumes "evolves fs s0 s" and "\<And>m. evolves fs s0 (s\<lparr>mem := m\<rparr>) \<Longrightarrow> Q (s\<lparr>mem := m\<rparr>)"
  shows "wp no_overrun Q (store32 a v s)"
  using assms memory_evolves(1) [OF assms(1)] by (simp add: store32_def)

lemma IPv4AddHeaders_evolves [vcg]:
  assumes e: "evolves fs s0 s" and "\<And>m. evolves fs s0 (s\<lparr>mem := m\<rparr>) \<Longrightarrow> Q (s\<lparr>mem := m\<rparr>)"
  shows "wp no_overrun Q (IPv4AddHeaders frame from to p n s)"
  unfolding IPv4AddHeaders_def Let_def wp_simps
proof (rule store_words_wp [OF e], rule InternetChecksum_ok, rule load_no_overrun(1))
  fix m tot v
  assume "evolves fs s0 (s\<lparr>mem := m\<rparr>)"
  then show "wp no_overrun Q (store32 (word_at frame 2) ((v AND 0xFFFF0000) OR ucast (NOT tot)) (s\<lparr>mem := m\<rparr>))"
    by (rule store32_evolves) (use assms(2) in simp)
qed

lemma IPv4SendFrame_evolves [vcg]:
  assumes e: "evolves ((frame AND PAGE_MASK) # fs) s0 s"
    and "\<And>s'. evolves fs s0 s' \<Longrightarrow> cpu.more s' = cpu.more s \<Longrightarrow> Q s'"
  shows "wp no_overrun Q (IPv4SendFrame frame from to p n s)"
  unfolding IPv4SendFrame_def Let_def
  by (auto intro!: IPv4AddHeaders_evolves [OF e] ARPLookupRecord_ok [of "(frame AND PAGE_MASK) # fs"]
      ARPSendProbeRequestTo_evolves [of "(frame AND PAGE_MASK) # fs"]
      EthernetFreeFrame_evolves EthernetSendFrame_evolves assms(2))

lemma UDPv4SendPacket_evolves [vcg]:
  assumes e: "evolves ((frame AND PAGE_MASK) # fs) s0 s"
    and "\<And>s'. evolves fs s0 s' \<Longrightarrow> cpu.more s' = cpu.more s \<Longrightarrow> Q s'"
  shows "wp no_overrun Q (UDPv4SendPacket frame to sp dp n s)"
  unfolding UDPv4SendPacket_def Let_def
  by (auto intro!: store_words_wp [OF e] IPv4SendFrame_evolves assms(2))

section \<open>The checksum as a ones'-complement sum\<close>

definition ones_add :: "nat \<Rightarrow> nat \<Rightarrow> nat" where
  "ones_add a b = (if a + b < 65536 then a + b else a + b - 65535)"

definition ones_sum :: "u16 list \<Rightarrow> nat" where
  "ones_sum hs = fold (\<lambda>h acc. ones_add acc (unat h)) hs 0"

text \<open>The representative of a sum modulo 65535 in \<open>1..65535\<close>, and 0 for 0.\<close>

definition ones_rep :: "nat \<Rightarrow> nat" where
  "ones_rep n = (if n = 0 then 0 else (n - 1) mod 65535 + 1)"

lemma ones_rep_less: "ones_rep n < 65536" "ones_rep n = 0 \<longleftrightarrow> n = 0" "n < 65536 \<Longrightarrow> ones_rep n = n"
  by (simp_all add: ones_rep_def)

lemma ones_rep_step: "0 < n \<Longrightarrow> ones_rep (n + 65535 * k) = ones_rep n"
proof -
  assume "0 < n"
  then have "(n + 65535 * k - 1) mod 65535 = ((n - 1) + 65535 * k) mod 65535" by simp
  also have "\<dots> = (n - 1) mod 65535" by (rule mod_mult_self2)
  finally show ?thesis using \<open>0 < n\<close> unfolding ones_rep_def by simp
qed

lemma ones_rep_split: "\<exists>k. n = ones_rep n + 65535 * k"
proof (cases "n = 0")
  case False
  have "n - 1 = (n - 1) mod 65535 + 65535 * ((n - 1) div 65535)" by simp
  moreover have "ones_rep n = (n - 1) mod 65535 + 1" using False by (simp add: ones_rep_def)
  ultimately have "n = ones_rep n + 65535 * ((n - 1) div 65535)" using False by linarith
  then show ?thesis by blast
qed (simp add: ones_rep_def)

lemma ones_rep_add: "h < 65536 \<Longrightarrow> ones_rep (n + h) = ones_add (ones_rep n) h"
proof -
  assume h: "h < 65536"
  obtain k where k: "n = ones_rep n + 65535 * k" using ones_rep_split by blast
  show ?thesis
  proof (cases "ones_rep n + h = 0")
    case True
    then have "n = 0" "h = 0" using ones_rep_less(2) by simp_all
    then show ?thesis by (simp add: ones_add_def ones_rep_def)
  next
    case False
    have "n + h = (ones_rep n + h) + 65535 * k" using k by linarith
    then have e: "ones_rep (n + h) = ones_rep (ones_rep n + h)"
      using ones_rep_step [of "ones_rep n + h" k] False by (metis neq0_conv)
    show ?thesis
    proof (cases "ones_rep n + h < 65536")
      case True
      then show ?thesis unfolding e by (simp add: ones_add_def ones_rep_less(3))
    next
      case carry: False
      define r where "r = ones_rep n + h - 65535"
      have r: "ones_rep n + h = r + 65535 * 1" "0 < r" "r < 65536"
        using carry h ones_rep_less(1) [of n] by (simp_all add: r_def)
      then have "ones_rep (ones_rep n + h) = r" using ones_rep_step [of r 1] ones_rep_less(3) [of r] by simp
      then show ?thesis using carry unfolding e by (simp add: ones_add_def r_def)
    qed
  qed
qed

lemma ones_sum_rep: "ones_sum hs = ones_rep (sum_list (map unat hs))"
proof (induction hs rule: rev_induct)
  case (snoc h hs)
  have "unat h < 65536" using unsigned_less [of h] by simp
  then show ?case using snoc by (simp add: ones_sum_def ones_rep_add)
qed (simp add: ones_sum_def ones_rep_def)

lemma fold_carry_rep: "unat (fold_carry x) = ones_rep (unat x)"
proof (induction x rule: fold_carry.induct)
  case (1 x)
  show ?case
  proof (cases "drop_bit 16 x = 0")
    case True
    have "unat (drop_bit 16 x) = drop_bit 16 (unat x)" by (rule unat_drop_bit_eq)
    then have "unat x div 65536 = 0" using True by (simp add: drop_bit_eq_div)
    then have "unat x < 65536" by (simp add: div_eq_0_iff)
    then show ?thesis using True by (subst fold_carry.simps) (simp add: ones_rep_less(3))
  next
    case False
    let ?n = "unat x" and ?y = "(x AND 0xffff) + drop_bit 16 x"
    have y: "unat ?y = ?n mod 65536 + ?n div 65536" using carry_less(2) [OF False] .
    have n: "?n = unat ?y + 65535 * (?n div 65536)"
      unfolding y using div_mult_mod_eq [of ?n 65536] by linarith
    have "?n \<noteq> 0" using False by (auto simp: unat_eq_zero)
    then have "0 < unat ?y" unfolding y by (metis add_is_0 div_mult_mod_eq mult_0 neq0_conv)
    then have "ones_rep ?n = ones_rep (unat ?y)" using n ones_rep_step by metis
    then show ?thesis using 1 False by (subst fold_carry.simps) simp
  qed
qed

definition halfwords :: "(u32 \<Rightarrow> u8) \<Rightarrow> u32 \<Rightarrow> nat \<Rightarrow> u16 list" where
  "halfwords m a k = map (\<lambda>i. be16 m (a + of_nat (2 * i))) [0..<k]"

lemma halfwords_Suc: "halfwords m a (Suc k) = be16 m a # halfwords m (a + 2) k"
  by (simp add: halfwords_def upt_rec [of 0] map_Suc_upt [symmetric] algebra_simps del: upt_Suc)

lemma ip_sum_exact:
  assumes "\<And>i. i < k \<Longrightarrow> readable (a + of_nat (2 * i)) s" and "rest \<le> 1" and "0 \<le> rest"
    and "rest = 1 \<Longrightarrow> readable (a + of_nat (2 * k)) s"
  shows "ip_sum (int (2 * k) + rest) a tot s =
    Inr (tot + of_nat (sum_list (map unat (halfwords (mem s) a k))) + (if rest = 1 then ucast (mem s (a + of_nat (2 * k))) else 0))"
  using assms
proof (induction k arbitrary: a tot)
  case 0
  then have "rest = 0 \<or> rest = 1" by arith
  then show ?case using 0 by (subst ip_sum.simps) (auto simp: halfwords_def load8_def)
next
  case (Suc k)
  have "readable (a + 2 + of_nat (2 * i)) s" if "i < k" for i
    using Suc.prems(1) [of "Suc i"] that by (simp add: algebra_simps)
  moreover have "rest = 1 \<Longrightarrow> readable (a + 2 + of_nat (2 * k)) s"
    using Suc.prems(4) by (simp add: algebra_simps)
  ultimately have IH: "ip_sum (int (2 * k) + rest) (a + 2) (tot + ucast (be16 (mem s) a)) s =
    Inr (tot + ucast (be16 (mem s) a) + of_nat (sum_list (map unat (halfwords (mem s) (a + 2) k))) +
      (if rest = 1 then ucast (mem s (a + 2 + of_nat (2 * k))) else 0))"
    by (intro Suc.IH) (use Suc.prems in auto)
  have "int (2 * Suc k) + rest > 1" "int (2 * Suc k) + rest - 2 = int (2 * k) + rest" using Suc.prems(3) by simp_all
  then show ?case
    using Suc.prems(1) [of 0] IH
    by (subst ip_sum.simps) (simp add: load16_def halfwords_Suc algebra_simps)
qed

lemma halfwords_bound: "sum_list (map unat (hs :: u16 list)) \<le> 65535 * length hs"
proof (induction hs)
  case (Cons h hs)
  have "unat h < 65536" using unsigned_less [of h] by simp
  then show ?case using Cons by simp
qed simp

lemma ucast_u16_of: "unat (x :: u32) = n \<Longrightarrow> (ucast x :: u16) = of_nat n"
  by (auto simp: word_unat_eq_iff unsigned_ucast_eq unat_of_nat take_bit_eq_mod)

lemma checksum_exact:
  assumes "k \<le> 65536" and "\<And>i. i < k \<Longrightarrow> readable (a + of_nat (2 * i)) s"
  shows "InternetChecksum (int (2 * k)) a s = Inr (of_nat (ones_sum (halfwords (mem s) a k)))"
    "readable (a + of_nat (2 * k)) s \<Longrightarrow> InternetChecksum (int (2 * k) + 1) a s =
       Inr (of_nat (ones_add (ones_sum (halfwords (mem s) a k)) (unat (mem s (a + of_nat (2 * k))))))"
proof -
  let ?hs = "halfwords (mem s) a k" and ?b = "mem s (a + of_nat (2 * k))"
  have S: "sum_list (map unat ?hs) \<le> 65535 * 65536"
    using halfwords_bound [of ?hs] assms(1) by (simp add: halfwords_def)
  have b: "unat ?b < 256" using unsigned_less [of ?b] by simp
  have u: "unat (of_nat (sum_list (map unat ?hs)) :: u32) = sum_list (map unat ?hs)"
    by (rule u32_of_nat_unat_id) (use S in simp)
  have sum0: "ip_sum (int (2 * k)) a 0 s = Inr (of_nat (sum_list (map unat ?hs)))"
    using ip_sum_exact [of k a s 0 0] assms(2) by simp
  show "InternetChecksum (int (2 * k)) a s = Inr (of_nat (ones_sum ?hs))"
    unfolding InternetChecksum_def sum0
    using ucast_u16_of [OF fold_carry_rep [of "of_nat (sum_list (map unat ?hs))"]]
    unfolding u by (simp add: ones_sum_rep)
  assume r: "readable (a + of_nat (2 * k)) s"
  have sum1: "ip_sum (int (2 * k) + 1) a 0 s = Inr (of_nat (sum_list (map unat ?hs)) + ucast ?b)"
    using ip_sum_exact [of k a s 1 0] assms(2) r by simp
  have ub: "unat (ucast ?b :: u32) = unat ?b" using b by (simp add: unsigned_ucast_eq take_bit_nat_eq_self)
  have u1: "unat (of_nat (sum_list (map unat ?hs)) + ucast ?b :: u32) = sum_list (map unat ?hs) + unat ?b"
    using u b S ub by (simp add: unat_word_ariths)
  show "InternetChecksum (int (2 * k) + 1) a s = Inr (of_nat (ones_add (ones_sum ?hs) (unat ?b)))"
    unfolding InternetChecksum_def sum1
    using ucast_u16_of [OF fold_carry_rep [of "of_nat (sum_list (map unat ?hs)) + ucast ?b"]] b
    unfolding u1 by (simp add: ones_sum_rep ones_rep_add)
qed

lemma ones_sum_less: "ones_sum hs < 65536"
  by (simp add: ones_sum_rep ones_rep_less)

lemma ones_sum_verifies:
  assumes "sum_list (map unat (xs @ ys)) > 0"
  shows "ones_sum (xs @ NOT (of_nat (ones_sum (xs @ 0 # ys))) # ys) = 65535"
proof -
  define n where "n = sum_list (map unat (xs @ ys))"
  have "unat (NOT (of_nat (ones_rep n)) :: u16) = 65535 - ones_rep n"
  proof -
    have "unat (NOT x) = 65535 - unat x" for x :: u16
    proof -
      have "NOT x = 65535 - x" by (simp add: not_eq_complement)
      moreover have "unat (65535 - x) = unat (65535 :: u16) - unat x"
        by (rule unat_sub) (use unat_u16_bound [of x] in \<open>simp add: word_le_nat_alt\<close>)
      ultimately show ?thesis by simp
    qed
    moreover have "unat (of_nat (ones_rep n) :: u16) = ones_rep n"
      using ones_rep_less(1) [of n] by (simp add: unat_of_nat take_bit_nat_eq_self)
    ultimately show ?thesis by simp
  qed
  then have s: "sum_list (map unat (xs @ NOT (of_nat (ones_rep n)) # ys)) = n + (65535 - ones_rep n)"
    by (simp add: n_def)
  obtain k where k: "n = ones_rep n + 65535 * k" using ones_rep_split by blast
  have "n + (65535 - ones_rep n) = 65535 + 65535 * k" using k ones_rep_less(1) [of n] by linarith
  then have "ones_rep (n + (65535 - ones_rep n)) = 65535"
    using ones_rep_step [of 65535 k] ones_rep_less(3) [of 65535] by simp
  moreover have "ones_sum (xs @ 0 # ys) = ones_rep n" by (simp add: ones_sum_rep n_def)
  ultimately show ?thesis using s by (simp only: ones_sum_rep)
qed

text \<open>The halfwords of a frame, as the halves of its words.\<close>

definition split_words :: "u32 list \<Rightarrow> u16 list" where
  "split_words ws = concat (map (\<lambda>w. [ucast (drop_bit 16 w), ucast w]) ws)"

lemma be16_halves: "be16 m a = ucast (drop_bit 16 (be32 m a))" "be16 m (a + 2) = ucast (be32 m a)"
proof -
  show "be16 m a = ucast (drop_bit 16 (be32 m a))"
  proof (rule bit_word_eqI)
    fix n assume "n < LENGTH(16)"
    then show "bit (be16 m a) n = bit (ucast (drop_bit 16 (be32 m a)) :: u16) n"
      by (cases "n < 8") (auto simp: be16_def be32_def bit_simps)
  qed
  show "be16 m (a + 2) = ucast (be32 m a)"
  proof (rule bit_word_eqI)
    fix n assume "n < LENGTH(16)"
    then show "bit (be16 m (a + 2)) n = bit (ucast (be32 m a) :: u16) n"
      by (cases "n < 8") (auto simp: be16_def be32_def bit_simps add.commute)
  qed
qed

lemma halfwords_frame: "halfwords m p (2 * n) = split_words (frame_words m p n)"
proof (induction n)
  case (Suc n)
  have "halfwords m p (2 * Suc n) = halfwords m p (2 * n) @ [be16 m (p + of_nat (4 * n)), be16 m (p + of_nat (4 * n) + 2)]"
    by (simp add: halfwords_def add.commute add.left_commute)
  moreover have "be32 m (p + of_nat (4 * n)) = be32 m (word_at p (of_nat n))" by (simp add: word_at_def)
  ultimately show ?case
    using Suc unfolding be16_halves(1) [of m "p + of_nat (4 * n)"] be16_halves(2) by (simp add: frame_words_def split_words_def)
qed (simp add: halfwords_def frame_words_def split_words_def)

section \<open>Headers\<close>

text \<open>An IPv4 header without options, given its checksum.\<close>

definition ipv4_header :: "u32 \<Rightarrow> u32 \<Rightarrow> u32 \<Rightarrow> u32 \<Rightarrow> u16 \<Rightarrow> u32 list" where
  "ipv4_header proto payload from_addr to_addr cs =
     [0x45000000 OR (payload + 20), 0x00004000, halves (0xFF00 OR ucast proto) cs, from_addr, to_addr]"

definition ipv4_checksum :: "u32 \<Rightarrow> u32 \<Rightarrow> u32 \<Rightarrow> u32 \<Rightarrow> u16" where
  "ipv4_checksum proto payload from_addr to_addr =
     NOT (of_nat (ones_sum (split_words (ipv4_header proto payload from_addr to_addr 0))))"

lemma frame_halfwords_readable:
  assumes "aligned p" and "mmu s p = PAGE_READ_WRITE" and "i < 1024"
  shows "readable (p + of_nat (2 * i)) s"
proof -
  obtain k where k: "unat p = 2048 * k" using assms(1) by (auto simp: aligned_def)
  then have "k < 2097152" using unat_u32_bound [of p] by simp
  then have "unat (p + of_nat (2 * i)) = unat p + 2 * i"
    using assms(3) k by (intro unat_add_of_nat) simp
  then have "unat (p + of_nat (2 * i)) mod 2048 = 2 * i" using k assms(3) by simp
  then have "(p + of_nat (2 * i)) AND PAGE_MASK = p" by (simp add: page_mask)
  moreover have "bit (PAGE_READ_WRITE :: u32) 2" by (simp add: bit_word_iff_drop_bit_and)
  ultimately show ?thesis using assms(2) by (simp add: readable_def)
qed

lemma frame_words_update:
  assumes "i < n" and "n \<le> 512"
  shows "frame_words (put32 m (word_at p (of_nat i)) v) p n = (frame_words m p n)[i := v]"
proof (rule nth_equalityI)
  fix j assume "j < length (frame_words (put32 m (word_at p (of_nat i)) v) p n)"
  then have j: "j < n" by (simp add: frame_words_def)
  then show "frame_words (put32 m (word_at p (of_nat i)) v) p n ! j = (frame_words m p n)[i := v] ! j"
    using assms word_at_apart [of i j p] word_at_apart [of j i p]
    by (cases "i = j") (simp_all add: frame_words_def be32_put32_other)
qed (simp add: frame_words_def)

lemma IPv4AddHeaders_exact:
  assumes a: "aligned p" and m: "mmu s p = PAGE_READ_WRITE" and pr: "unat proto < 256"
  shows "\<exists>m'. IPv4AddHeaders p from_addr to_addr proto n s = Inr (s\<lparr>mem := m'\<rparr>) \<and>
    m' = put_words p (zip [0..<5] (ipv4_header proto n from_addr to_addr 0)
      @ [(2, halves (0xFF00 OR ucast proto) (ipv4_checksum proto n from_addr to_addr))]) (mem s)"
proof -
  let ?h = "ipv4_header proto n from_addr to_addr 0"
  let ?m = "put_words p (zip [0..<5] ?h) (mem s)"
  let ?s = "s\<lparr>mem := ?m\<rparr>"
  have up: "(ucast (ucast proto :: u16) :: u32) = proto"
    using pr by (simp add: word_unat_eq_iff unsigned_ucast_eq unsigned_take_bit_eq take_bit_nat_eq_self)
  have w2: "0xFF000000 OR push_bit 16 proto = halves (0xFF00 OR ucast proto) 0"
    using push_bit_or [of 16 "0xFF00" proto] by (simp add: halves_def unsigned_or_eq up)
  have st: "store_words p [(0, 0x45000000 OR (n + 20)), (1, 0x00004000), (2, 0xFF000000 OR push_bit 16 proto),
      (3, from_addr), (4, to_addr)] s = Inr ?s"
  proof -
    have "[0..<5] = [0, 1, 2, 3, 4 :: nat]" by (simp add: upt_rec numeral_eq_Suc)
    then have "zip [0..<5] ?h = [(0, 0x45000000 OR (n + 20)), (1, 0x00004000), (2, 0xFF000000 OR push_bit 16 proto),
        (3, from_addr), (4, to_addr)]"
      by (simp add: ipv4_header_def w2)
    moreover from this have "\<forall>(i, w) \<in> set (zip [0..<5] ?h). i < 512" by simp
    ultimately show ?thesis using store_words_frame [OF a m, of "zip [0..<5] ?h"] by simp
  qed
  have fw: "frame_words ?m p 5 = ?h"
    using put_words_frame [of "zip [0..<5] ?h" 5 p "mem s"] by (simp add: ipv4_header_def)
  have "InternetChecksum (int (2 * 10)) p ?s = Inr (of_nat (ones_sum (halfwords (mem ?s) p 10)))"
    by (rule checksum_exact(1)) (use frame_halfwords_readable [OF a, of ?s] m in simp_all)
  moreover have "halfwords (mem ?s) p 10 = split_words ?h" using halfwords_frame [of ?m p 5] fw by simp
  ultimately have cs: "InternetChecksum 20 p ?s = Inr (of_nat (ones_sum (split_words ?h)))" by simp
  have "load32 (word_at p 2) ?s = Inr (?h ! 2)"
    using mapped_frame(2) [OF a, of ?s 2] m arg_cong [OF fw, of "\<lambda>ws. ws ! 2"]
    by (simp add: load32_def frame_words_def)
  then have ld: "load32 (word_at p 2) ?s = Inr (halves (0xFF00 OR ucast proto) 0)" by (simp add: ipv4_header_def)
  have hv: "(halves (0xFF00 OR ucast proto) 0 AND 0xFFFF0000) OR ucast c = halves (0xFF00 OR ucast proto) c" for c
  proof -
    have "(0xFFFF0000 :: u32) = NOT (mask 16)" by (simp add: mask_numeral)
    moreover have "(halves h 0 AND NOT (mask 16)) OR ucast c = halves h c" for h
      by (rule bit_word_eqI) (auto simp: halves_def bit_simps)
    ultimately show ?thesis by (simp only:)
  qed
  have wr: "writable (word_at p 2) ?s" using mapped_frame(1) [OF a, of ?s 2] m by simp
  show ?thesis
    unfolding IPv4AddHeaders_def Let_def st andthen_simps cs ld
    using wr by (simp add: hv ipv4_checksum_def put_words_append store32_def) (simp add: put_words_def)
qed

section \<open>Routing\<close>

definition next_hop :: "pdu \<Rightarrow> u32 \<Rightarrow> u32" where
  "next_hop s to_addr =
     (if g_ipAddress s \<noteq> 0 \<and> (to_addr AND g_subnetMask s) \<noteq> (g_ipAddress s AND g_subnetMask s)
      then g_routerAddress s else to_addr)"

definition hop_mac :: "pdu \<Rightarrow> u32 \<Rightarrow> mac option" where
  "hop_mac s ip = (if ip = 0xffffffff then Some (0xffff, 0xffff, 0xffff) else arp_map (g_arpTable s) ip)"

lemma hop_mem [simp]: "hop_mac (s\<lparr>mem := m\<rparr>) = hop_mac s" "next_hop (s\<lparr>mem := m\<rparr>) = next_hop s"
  by (simp_all add: hop_mac_def next_hop_def fun_eq_iff)

lemma hop_lookup:
  "arp_ok (g_arpTable s) (g_nextArpSet s) \<Longrightarrow>
   ARPLookupRecord ip mac s = Inr (case hop_mac s ip of Some m \<Rightarrow> (1, m) | None \<Rightarrow> (0, mac))"
  using arp_lookup_spec [of s ip mac] by (auto simp: hop_mac_def ARPLookupRecord_def)

definition ip_words :: "nat \<Rightarrow> nat" where
  "ip_words n = (n + 3) div 4 + 5"

lemma ip_words_code:
  assumes "unat n \<le> 2028"
  shows "(if n AND 3 \<noteq> 0 then drop_bit 2 n + 5 + 1 else drop_bit 2 n + 5) = (of_nat (ip_words (unat n)) :: u32)"
    "ip_words (unat n) \<le> 512"
proof -
  have "unat (drop_bit 2 n) = drop_bit 2 (unat n)" by (rule unat_drop_bit_eq)
  then have d: "unat (drop_bit 2 n) = unat n div 4" by (simp only: drop_bit_eq_div) simp
  have "unat (take_bit 2 n) = take_bit 2 (unat n)" by (rule unsigned_take_bit_eq)
  then have "unat (n AND 3) = unat n mod 4" by (simp only: and_mask_u32 take_bit_eq_mod) simp
  then have m: "n AND 3 = 0 \<longleftrightarrow> unat n mod 4 = 0" by (metis unat_eq_zero unsigned_0)
  have "drop_bit 2 n = of_nat (unat n div 4)" unfolding d [symmetric] by simp
  moreover have "ip_words (unat n) = (if unat n mod 4 = 0 then unat n div 4 + 5 else unat n div 4 + 6)"
    unfolding ip_words_def by (cases "unat n mod 4 = 0") presburger+
  ultimately show "(if n AND 3 \<noteq> 0 then drop_bit 2 n + 5 + 1 else drop_bit 2 n + 5) = (of_nat (ip_words (unat n)) :: u32)"
    using m by simp
  show "ip_words (unat n) \<le> 512" using assms by (simp add: ip_words_def)
qed

text \<open>Memory after the headers are in place and the frame is padded.\<close>

definition ipv4_memory :: "u32 \<Rightarrow> u32 \<Rightarrow> u32 \<Rightarrow> u32 \<Rightarrow> u32 \<Rightarrow> (u32 \<Rightarrow> u8) \<Rightarrow> (u32 \<Rightarrow> u8)" where
  "ipv4_memory p from_addr to_addr proto n m =
     put_words p (zip [0..<5] (ipv4_header proto n from_addr to_addr 0)
       @ [(2, halves (0xFF00 OR ucast proto) (ipv4_checksum proto n from_addr to_addr))]
       @ map (\<lambda>i. (i, 0)) [ip_words (unat n)..<13]) m"

lemma IPv4SendFrame_sends:
  assumes a: "aligned p" and m: "mmu s p = PAGE_READ_WRITE" and pr: "unat proto < 256" and n: "unat n \<le> 2028"
    and ok: "arp_ok (g_arpTable s) (g_nextArpSet s)" and hop: "hop_mac s (next_hop s to_addr) = Some mac"
    and x: "sends s0 s xs"
    and Q: "\<And>s' r reqs. sends s0 s' (xs @ reqs) \<Longrightarrow>
      frame_fate s p (fst mac) (mac_lo mac) (ETHERTYPE_IPV4 (cfg s)) (max 13 (ip_words (unat n))) r reqs \<Longrightarrow>
      cpu.more s' = cpu.more s \<Longrightarrow> mmu s' = (mmu s)(p := PAGE_GUARD) \<Longrightarrow>
      mem s' = ipv4_memory p from_addr to_addr proto n (mem s) \<Longrightarrow> Q s'"
  shows "wp only_blocks Q (IPv4SendFrame p from_addr to_addr proto n s)"
proof -
  obtain m0 m1 m2 where mac: "mac = (m0, m1, m2)" by (cases mac) auto
  let ?ws = "zip [0..<5] (ipv4_header proto n from_addr to_addr 0)
      @ [(2, halves (0xFF00 OR ucast proto) (ipv4_checksum proto n from_addr to_addr))]"
  let ?s = "s\<lparr>mem := put_words p ?ws (mem s)\<rparr>"
  have h: "IPv4AddHeaders p from_addr to_addr proto n s = Inr ?s"
    using IPv4AddHeaders_exact [OF a m pr] by auto
  have "wp only_blocks (\<lambda>(r, s'). Q s') (EthernetSendFrame p m0 (mac_lo mac) (ETHERTYPE_IPV4 (cfg ?s)) (of_nat (ip_words (unat n))) ?s)"
  proof (rule EthernetSendFrame_sends [OF ip_words_code(2) [OF n] _ sends_helper(3) [OF x]], goal_cases)
    case (1 i)
    then show ?case using mapped_frame(1) [OF a, of ?s i] m by simp
  next
    case (2 r s' reqs)
    have "frame_fate ?s = frame_fate s" by (rule frame_fate_more) simp
    then show ?case
      using 2 mac page_self [OF a] by (auto intro!: Q simp: ipv4_memory_def simp flip: put_words_append)
  qed
  moreover have "hop_mac ?s = hop_mac s" "next_hop ?s = next_hop s" by (simp_all add: hop_mac_def next_hop_def fun_eq_iff)
  moreover have "arp_ok (g_arpTable ?s) (g_nextArpSet ?s)" using ok by simp
  ultimately show ?thesis
    using hop unfolding IPv4SendFrame_def h andthen_simps Let_def ip_words_code(1) [OF n]
    by (cases "g_ipAddress s \<noteq> 0 \<and> (to_addr AND g_subnetMask s) \<noteq> (g_ipAddress s AND g_subnetMask s)")
      (auto simp: hop_lookup [OF \<open>arp_ok (g_arpTable ?s) (g_nextArpSet ?s)\<close>] next_hop_def mac split_def)
qed

section \<open>The words of a datagram\<close>

lemma frame_words_nth: "i < n \<Longrightarrow> frame_words m p n ! i = be32 m (word_at p (of_nat i))"
  by (simp add: frame_words_def)

lemma frame_words_put:
  assumes "i < n" and "n \<le> 512" and "\<forall>(j, w) \<in> set iws. j < 512"
  shows "frame_words (put_words p iws m) p n ! i =
    (case map_of (rev iws) i of Some w \<Rightarrow> w | None \<Rightarrow> frame_words m p n ! i)"
proof -
  have "\<forall>(j, w) \<in> set iws. j < 1073741824" using assms(3) by fastforce
  then show ?thesis using assms(1,2) by (simp add: frame_words_nth be32_put_words cong: option.case_cong)
qed

lemma map_of_zeros: "map_of (rev (map (\<lambda>i. (i, 0 :: u32)) [a..<b])) i = (if a \<le> i \<and> i < b then Some 0 else None)"
proof -
  have d: "distinct (map fst (rev (map (\<lambda>i. (i, 0 :: u32)) [a..<b])))" by (simp add: rev_map [symmetric] o_def)
  show ?thesis
  proof (cases "a \<le> i \<and> i < b")
    case True
    then have "(i, 0) \<in> set (rev (map (\<lambda>i. (i, 0 :: u32)) [a..<b]))" by auto
    then show ?thesis using True d by (simp add: map_of_is_SomeI)
  next
    case False
    then show ?thesis by (auto simp: map_of_eq_None_iff)
  qed
qed

lemma ipv4_header_nth:
  "map_of (rev (zip [0..<5] (ipv4_header proto n f t cs0) @ [(2, halves (0xFF00 OR ucast proto) cs)])) i =
   (if i < 5 then Some (ipv4_header proto n f t cs ! i) else None)"
proof -
  have u: "[0..<5] = [0, 1, 2, 3, 4 :: nat]" by (simp add: upt_rec numeral_eq_Suc)
  consider "i = 0" | "i = 1" | "i = 2" | "i = 3" | "i = 4" | "5 \<le> i" by linarith
  then show ?thesis unfolding u by cases (simp_all add: ipv4_header_def)
qed

lemma frame_words_memory:
  assumes n: "unat n \<le> 2028"
  shows "frame_words (ipv4_memory p f t proto n m) p (max 13 (ip_words (unat n))) =
    ipv4_header proto n f t (ipv4_checksum proto n f t) @ drop 5 (frame_words m p (ip_words (unat n)))
      @ replicate (13 - ip_words (unat n)) 0" (is "?l = ?r")
proof -
  let ?W = "ip_words (unat n)"
  have W: "5 \<le> ?W" "?W \<le> 512" "max 13 ?W \<le> 512" using n by (simp_all add: ip_words_def)
  let ?iws = "zip [0..<5] (ipv4_header proto n f t 0) @ [(2, halves (0xFF00 OR ucast proto) (ipv4_checksum proto n f t))]
       @ map (\<lambda>i. (i, 0)) [?W..<13]"
  have lenh: "length (ipv4_header proto n f t c) = 5" for c by (simp add: ipv4_header_def)
  have idx: "\<forall>(j, w) \<in> set ?iws. j < 512" by (auto dest: set_zip_leftD)
  have mo: "map_of (rev ?iws) i = (if i < 5 then Some (ipv4_header proto n f t (ipv4_checksum proto n f t) ! i)
      else if ?W \<le> i \<and> i < 13 then Some 0 else None)" for i
  proof -
    have r: "map_of (rev ?iws) = map_of (rev (zip [0..<5] (ipv4_header proto n f t 0)
        @ [(2, halves (0xFF00 OR ucast proto) (ipv4_checksum proto n f t))])) ++ map_of (rev (map (\<lambda>i. (i, 0)) [?W..<13]))"
      by simp
    show ?thesis unfolding r map_add_def map_of_zeros ipv4_header_nth using W(1) by auto
  qed
  show ?thesis
  proof (rule nth_equalityI)
    show "length ?l = length ?r" using W by (simp add: frame_words_def lenh)
    fix i assume "i < length ?l"
    then have i: "i < max 13 ?W" by (simp add: frame_words_def)
    have l: "?l ! i = (case map_of (rev ?iws) i of Some w \<Rightarrow> w | None \<Rightarrow> frame_words m p (max 13 ?W) ! i)"
      unfolding ipv4_memory_def by (rule frame_words_put [OF i W(3) idx])
    consider "i < 5" | "5 \<le> i" "i < ?W" | "?W \<le> i" "i < 13" using i W(1) by linarith
    then show "?l ! i = ?r ! i"
      unfolding l mo using W i by cases (simp_all add: nth_append lenh frame_words_nth less_diff_iff)
  qed
qed

text \<open>A UDP datagram in its frame: IPv4 header, ports, length (with the 8 octets of the UDP header), payload.\<close>

definition udp_frame :: "u32 \<Rightarrow> u32 \<Rightarrow> u16 \<Rightarrow> u16 \<Rightarrow> u32 \<Rightarrow> u32 list \<Rightarrow> u32 list" where
  "udp_frame from_addr to_addr sp dp n payload =
     ipv4_header IP_PROTOCOL_UDP (n + 8) from_addr to_addr (ipv4_checksum IP_PROTOCOL_UDP (n + 8) from_addr to_addr) @
     [halves sp dp, halves (ucast (n + 8)) 0] @ payload"

lemma store_words_shift:
  "store_words (word_at p (of_nat k)) iws s = store_words p (map (\<lambda>(i, w). (k + i, w)) iws) s"
proof (induction iws arbitrary: s)
  case (Cons iw iws)
  have "word_at (word_at p (of_nat k)) (of_nat i) = word_at p (of_nat (k + i))" for i
    by (simp add: word_at_def algebra_simps)
  then show ?case
    using Cons by (cases iw) (simp add: store_words_def cong: andthen_cong)
qed (simp add: store_words_def)

lemma UDPv4SendPacket_sends:
  assumes a: "aligned p" and m: "mmu s p = PAGE_READ_WRITE" and n: "unat n \<le> 2020"
    and ok: "arp_ok (g_arpTable s) (g_nextArpSet s)" and hop: "hop_mac s (next_hop s to_addr) = Some mac"
    and x: "sends s0 s xs"
    and Q: "\<And>s' r reqs. sends s0 s' (xs @ reqs) \<Longrightarrow>
      frame_fate s p (fst mac) (mac_lo mac) (ETHERTYPE_IPV4 (cfg s)) (max 13 (ip_words (unat n + 8))) r reqs \<Longrightarrow>
      cpu.more s' = cpu.more s \<Longrightarrow> mmu s' = (mmu s)(p := PAGE_GUARD) \<Longrightarrow>
      frame_words (mem s') p (max 13 (ip_words (unat n + 8))) =
        udp_frame (g_ipAddress s) to_addr sp dp n (drop 7 (frame_words (mem s) p (ip_words (unat n + 8))))
        @ replicate (13 - ip_words (unat n + 8)) 0 \<Longrightarrow> Q s'"
  shows "wp only_blocks Q (UDPv4SendPacket p to_addr sp dp n s)"
proof -
  have n8: "unat (n + 8) = unat n + 8" using n by (simp add: unat_word_ariths)
  let ?W = "ip_words (unat n + 8)"
  have W: "7 \<le> ?W" "?W \<le> 512" using n by (simp_all add: ip_words_def)
  have h: "push_bit 16 (ucast sp) OR ucast dp = halves sp dp" "push_bit 16 (n + 8) = halves (ucast (n + 8)) 0"
    by (simp_all add: halves_def)
  let ?m = "put_words p [(5, halves sp dp), (6, halves (ucast (n + 8)) 0)] (mem s)"
  let ?s = "s\<lparr>mem := ?m\<rparr>"
  have st: "store_words (IPv4GetTxBodyPtr p) [(0, halves sp dp), (1, halves (ucast (n + 8)) 0)] s = Inr ?s"
    using store_words_shift [of p 5 "[(0, halves sp dp), (1, halves (ucast (n + 8)) 0)]" s]
      store_words_frame [OF a m, of "[(5, halves sp dp), (6, halves (ucast (n + 8)) 0)]"]
    by (simp add: IPv4GetTxBodyPtr_def)
  have body: "drop 5 (frame_words ?m p ?W) = [halves sp dp, halves (ucast (n + 8)) 0] @ drop 7 (frame_words (mem s) p ?W)"
  proof (rule nth_equalityI)
    show "length (drop 5 (frame_words ?m p ?W)) = length ([halves sp dp, halves (ucast (n + 8)) 0] @ drop 7 (frame_words (mem s) p ?W))"
      using W by (simp add: frame_words_def)
    fix i assume "i < length (drop 5 (frame_words ?m p ?W))"
    then have i: "5 + i < ?W" by (simp add: frame_words_def)
    have "frame_words ?m p ?W ! (5 + i) = (if i = 0 then halves sp dp else if i = 1 then halves (ucast (n + 8)) 0
        else frame_words (mem s) p ?W ! (5 + i))"
      using frame_words_put [OF i W(2), of "[(5, halves sp dp), (6, halves (ucast (n + 8)) 0)]" p "mem s"] by simp
    note v = this
    show "drop 5 (frame_words ?m p ?W) ! i =
        ([halves sp dp, halves (ucast (n + 8)) 0] @ drop 7 (frame_words (mem s) p ?W)) ! i"
    proof -
      consider "i = 0" | "i = 1" | j where "i = j + 2" by (metis add.commute add_2_eq_Suc' One_nat_def not0_implies_Suc)
      then show ?thesis
        using v i W
        by cases (auto simp: nth_append frame_words_def)
    qed
  qed
  have hop': "hop_mac ?s (next_hop ?s to_addr) = Some mac" using hop by simp
  have "wp only_blocks Q (IPv4SendFrame p (g_ipAddress ?s) to_addr IP_PROTOCOL_UDP (n + 8) ?s)"
  proof (rule IPv4SendFrame_sends [OF a _ _ _ _ hop' sends_helper(3) [OF x]], goal_cases)
    case (5 s' r reqs)
    have "frame_fate ?s = frame_fate s" by (rule frame_fate_more) simp
    then show ?case
      using 5 frame_words_memory [of "n + 8" p "g_ipAddress s" to_addr IP_PROTOCOL_UDP ?m] n body
      by (intro Q [of s' reqs r]) (simp_all add: n8 udp_frame_def)
  qed (use m ok n in \<open>simp_all add: n8\<close>)
  then show ?thesis unfolding UDPv4SendPacket_def Let_def h st andthen_simps .
qed

section \<open>Properties\<close>

text \<open>
  \<open>InternetChecksum\<close> is the ones'-complement sum of RFC 1071 of the halfwords at the address, for up
  to 65536 of them (the 32-bit accumulator cannot overflow). An odd last octet is added as
  it is, not in the high half as the RFC has it on this big-endian machine.
\<close>
lemma internet_checksum_rfc:
  assumes "k \<le> 65536" and "\<And>i. i \<le> k \<Longrightarrow> readable (a + of_nat (2 * i)) s"
  shows "InternetChecksum (int (2 * k)) a s = Inr (of_nat (ones_sum (halfwords (mem s) a k))) \<and>
    InternetChecksum (int (2 * k) + 1) a s =
      Inr (of_nat (ones_add (ones_sum (halfwords (mem s) a k)) (unat (mem s (a + of_nat (2 * k))))))"
  using checksum_exact [OF assms(1), of a s] assms(2) by simp

lemma internet_checksum_rfc_witness:
  "let s = blank_pdu\<lparr>mem := (\<lambda>_. 0xff)\<rparr> in InternetChecksum 5 0x1000 s = Inr 0x00ff"
proof -
  let ?s = "blank_pdu\<lparr>mem := (\<lambda>_. 0xff)\<rparr>"
  have "readable a ?s" for a by (simp add: readable_def bit_word_iff_drop_bit_and)
  then have "InternetChecksum (int (2 * 2) + 1) 0x1000 ?s =
      Inr (of_nat (ones_add (ones_sum (halfwords (mem ?s) 0x1000 2)) (unat (mem ?s (0x1000 + of_nat (2 * 2))))))"
    using internet_checksum_rfc [of 2 "0x1000" ?s] by simp
  moreover have "halfwords (mem ?s) 0x1000 2 = [0xffff, 0xffff]"
    by (simp add: halfwords_def be16_def upt_rec)
  ultimately show ?thesis by (simp add: ones_sum_def ones_add_def Let_def)
qed

text \<open>
  The headers that \<open>IPv4AddHeaders\<close> writes: version 4 without options, the length with the header,
  no fragmentation, hop count 255, protocol and addresses; the checksum over the finished header is
  0xffff, which is how a receiver verifies it. The rest of the frame is not touched.
\<close>
lemma ipv4_header_verifies:
  assumes "aligned p" and "mmu s p = PAGE_READ_WRITE" and "unat proto < 256"
  shows "\<exists>s'. IPv4AddHeaders p from_addr to_addr proto n s = Inr s' \<and> s' = s\<lparr>mem := mem s'\<rparr> \<and>
    frame_words (mem s') p 512 = ipv4_header proto n from_addr to_addr (ipv4_checksum proto n from_addr to_addr)
      @ drop 5 (frame_words (mem s) p 512) \<and>
    InternetChecksum 20 p s' = Inr 0xffff"
proof -
  let ?cs = "ipv4_checksum proto n from_addr to_addr"
  let ?h = "ipv4_header proto n from_addr to_addr"
  let ?iws = "zip [0..<5] (?h 0) @ [(2, halves (0xFF00 OR ucast proto) ?cs)]"
  let ?s = "s\<lparr>mem := put_words p ?iws (mem s)\<rparr>"
  have h: "IPv4AddHeaders p from_addr to_addr proto n s = Inr ?s" using IPv4AddHeaders_exact [OF assms] by auto
  have lenh: "length (?h c) = 5" for c by (simp add: ipv4_header_def)
  have idx: "\<forall>(j, w) \<in> set ?iws. j < 512" by (auto dest: set_zip_leftD)
  have fw: "frame_words (mem ?s) p k = ?h ?cs @ drop 5 (frame_words (mem s) p k)" if "5 \<le> k" "k \<le> 512" for k
  proof (rule nth_equalityI)
    show "length (frame_words (mem ?s) p k) = length (?h ?cs @ drop 5 (frame_words (mem s) p k))"
      using that by (simp add: frame_words_def lenh)
    fix i assume "i < length (frame_words (mem ?s) p k)"
    then have i: "i < k" by (simp add: frame_words_def)
    have "frame_words (put_words p ?iws (mem s)) p k ! i = (if i < 5 then ?h ?cs ! i else frame_words (mem s) p k ! i)"
      using frame_words_put [OF i that(2), of ?iws p "mem s"] idx unfolding ipv4_header_nth by auto
    then show "frame_words (mem ?s) p k ! i = (?h ?cs @ drop 5 (frame_words (mem s) p k)) ! i"
      using that i by (simp add: nth_append lenh frame_words_nth)
  qed
  define w where "w = (0x45000000 OR (n + 20) :: u32)"
  have split: "split_words (?h c) = [ucast (drop_bit 16 w), ucast w, 0, 0x4000, 0xFF00 OR ucast proto] @ c #
      [ucast (drop_bit 16 from_addr), ucast from_addr, ucast (drop_bit 16 to_addr), ucast to_addr]" for c
    by (simp add: split_words_def ipv4_header_def w_def)
  have "InternetChecksum (int (2 * 10)) p ?s = Inr (of_nat (ones_sum (halfwords (mem ?s) p 10)))"
    by (rule checksum_exact(1)) (use frame_halfwords_readable [OF assms(1), of ?s] assms(2) in simp_all)
  moreover have "halfwords (mem ?s) p 10 = split_words (?h ?cs)" using halfwords_frame [of "mem ?s" p 5] fw [of 5] by (simp add: frame_words_def)
  moreover have "ones_sum (split_words (?h ?cs)) = 65535"
    unfolding ipv4_checksum_def unfolding split by (rule ones_sum_verifies) simp
  ultimately have "InternetChecksum 20 p ?s = Inr 0xffff" by simp
  then show ?thesis using h fw [of 512] by (intro exI [of _ ?s]) simp
qed

theorem ipv4_header_verifies_witness:
  "\<exists>s'. IPv4AddHeaders (frame_addr 0x200) 0x0A000001 0x0A000002 1 8 blank_pdu = Inr s' \<and>
     InternetChecksum 20 (frame_addr 0x200) s' = Inr 0xffff"
  using ipv4_header_verifies [of "frame_addr 0x200" blank_pdu 1 "0x0A000001" "0x0A000002" 8] frame_addr_aligned [of "0x200"] by auto

text \<open>
  The route of a frame with a known next hop. Off the own subnet (once there is an address) the next
  hop is the router, otherwise the destination itself; the limited broadcast is always known. The
  frame goes to the MAC address of the next hop, as IPv4, with its finished header, its body as it was,
  zeros up to the Ethernet minimum and a length rounded up to words; it is unmapped.
\<close>
lemma ipv4_route_exact:
  assumes "aligned p" and "mmu s p = PAGE_READ_WRITE" and "unat proto < 256" and "unat n \<le> 2028"
    and "arp_ok (g_arpTable s) (g_nextArpSet s)" and "hop_mac s (next_hop s to_addr) = Some mac"
  shows "wp only_blocks (\<lambda>s'. cpu.more s' = cpu.more s \<and> mmu s' = (mmu s)(p := PAGE_GUARD) \<and>
      frame_words (mem s') p (max 13 (ip_words (unat n))) =
        ipv4_header proto n from_addr to_addr (ipv4_checksum proto n from_addr to_addr)
        @ drop 5 (frame_words (mem s) p (ip_words (unat n))) @ replicate (13 - ip_words (unat n)) 0 \<and>
      (\<exists>r reqs. sends s s' reqs \<and>
         frame_fate s p (fst mac) (mac_lo mac) (ETHERTYPE_IPV4 (cfg s)) (max 13 (ip_words (unat n))) r reqs))
    (IPv4SendFrame p from_addr to_addr proto n s)"
  by (rule IPv4SendFrame_sends [OF assms sends_refl]) (auto simp: frame_words_memory [OF assms(4)])

theorem ipv4_route_exact_witness:
  "hop_mac (blank_pdu\<lparr>g_ipAddress := 0x0A000001, g_routerAddress := 0xffffffff, g_subnetMask := 0xff000000\<rparr>)
     (next_hop (blank_pdu\<lparr>g_ipAddress := 0x0A000001, g_routerAddress := 0xffffffff, g_subnetMask := 0xff000000\<rparr>) 0x0B000001)
     = Some (0xffff, 0xffff, 0xffff) \<and>
   wp only_blocks (\<lambda>s'. \<exists>r reqs. sends (blank_pdu\<lparr>inbox := [granted 0x14 0, granted 0x11 0, granted 0x14 0]\<rparr>) s' reqs \<and>
        frame_fate (blank_pdu\<lparr>inbox := [granted 0x14 0, granted 0x11 0, granted 0x14 0]\<rparr>) (frame_addr 0x200) 0xffff 0xffffffff 0x0800 13 r reqs)
     (IPv4SendFrame (frame_addr 0x200) 0 0xffffffff 0x11 30 (blank_pdu\<lparr>inbox := [granted 0x14 0, granted 0x11 0, granted 0x14 0]\<rparr>))"
proof -
  have "arp_ok (g_arpTable blank_pdu) (g_nextArpSet blank_pdu)" using blank_pdu_ok(1) by (simp only: pdu_ok_def)
  then show ?thesis
    using ipv4_route_exact [of "frame_addr 0x200" "(blank_pdu\<lparr>inbox := [granted 0x14 0, granted 0x11 0, granted 0x14 0]\<rparr>)" "0x11" 30 "0xffffffff" "(0xffff, 0xffff, 0xffff)" 0]
      frame_addr_aligned [of "0x200"]
    by (auto simp: hop_mac_def next_hop_def mac_lo_def blank_cfg_def ip_words_def elim!: wp_mono)
qed

text \<open>
  a UDP datagram of up to 2020 octets to a known next hop. The frame holds the IPv4 header with the
  own address as the source, the ports, the length with its 8 octets of header, no UDP checksum, and the payload
  that the caller had written.
\<close>
lemma udp_datagram_exact:
  assumes "aligned p" and "mmu s p = PAGE_READ_WRITE" and "unat n \<le> 2020"
    and "arp_ok (g_arpTable s) (g_nextArpSet s)" and "hop_mac s (next_hop s to_addr) = Some mac"
  shows "wp only_blocks (\<lambda>s'. cpu.more s' = cpu.more s \<and> mmu s' = (mmu s)(p := PAGE_GUARD) \<and>
      frame_words (mem s') p (max 13 (ip_words (unat n + 8))) =
        udp_frame (g_ipAddress s) to_addr sp dp n (drop 7 (frame_words (mem s) p (ip_words (unat n + 8))))
        @ replicate (13 - ip_words (unat n + 8)) 0 \<and>
      (\<exists>r reqs. sends s s' reqs \<and>
         frame_fate s p (fst mac) (mac_lo mac) (ETHERTYPE_IPV4 (cfg s)) (max 13 (ip_words (unat n + 8))) r reqs))
    (UDPv4SendPacket p to_addr sp dp n s)"
  by (rule UDPv4SendPacket_sends [OF assms sends_refl]) auto

lemma udp_datagram_exact_witness:
  "wp only_blocks (\<lambda>s'. frame_words (mem s') (frame_addr 0x200) 13 =
       udp_frame 0 0xffffffff 68 67 8 [0, 0] @ replicate 4 0)
     (UDPv4SendPacket (frame_addr 0x200) 0xffffffff 68 67 8 (blank_pdu\<lparr>inbox := [granted 0x14 0, granted 0x11 0, granted 0x14 0]\<rparr>))"
proof -
  have "arp_ok (g_arpTable blank_pdu) (g_nextArpSet blank_pdu)" using blank_pdu_ok(1) by (simp only: pdu_ok_def)
  moreover have "drop 7 (frame_words (\<lambda>_. 0) p 9) = [0, 0]" for p
    by (simp add: frame_words_def be32_def upt_rec)
  ultimately show ?thesis
    using udp_datagram_exact [of "frame_addr 0x200" "(blank_pdu\<lparr>inbox := [granted 0x14 0, granted 0x11 0, granted 0x14 0]\<rparr>)" 8 "0xffffffff" "(0xffff, 0xffff, 0xffff)" 68 67]
      frame_addr_aligned [of "0x200"]
    by (auto simp: hop_mac_def next_hop_def ip_words_def elim!: wp_mono)
qed

end
