(* ===== verification/Pdu_Dhcp.thy ===== *)
theory Pdu_Dhcp
  imports Pdu_Ip
begin

text \<open>
  \<open>src/PDUFirmware/DHCPv4.c\<close>: the client state machine, the parser of the options, the
  DHCPDISCOVER and DHCPREQUEST messages and the link and timer events. A pointer into the packet is
  the packet and an offset in octets, so \<open>options < packet_end\<close> compares offsets.
\<close>

abbreviation (input) DHCP_SERVER_PORT :: u16 where "DHCP_SERVER_PORT \<equiv> 67"
abbreviation (input) DHCP_CLIENT_PORT :: u16 where "DHCP_CLIENT_PORT \<equiv> 68"
abbreviation (input) DHCP_XID :: u32 where "DHCP_XID \<equiv> 0xbaadc0de"
abbreviation (input) DHCP_MAGIC_COOKIE :: u32 where "DHCP_MAGIC_COOKIE \<equiv> 0x63825363"
abbreviation (input) DHCP_OPTION_PAD :: u8 where "DHCP_OPTION_PAD \<equiv> 0"
abbreviation (input) DHCP_OPTION_SUBNET :: u8 where "DHCP_OPTION_SUBNET \<equiv> 1"
abbreviation (input) DHCP_OPTION_ROUTER :: u8 where "DHCP_OPTION_ROUTER \<equiv> 3"
abbreviation (input) DHCP_OPTION_HOSTNAME :: u8 where "DHCP_OPTION_HOSTNAME \<equiv> 12"
abbreviation (input) DHCP_OPTION_BCAST :: u8 where "DHCP_OPTION_BCAST \<equiv> 28"
abbreviation (input) DHCP_OPTION_TYPE :: u8 where "DHCP_OPTION_TYPE \<equiv> 53"
abbreviation (input) DHCP_OPTION_SERVER :: u8 where "DHCP_OPTION_SERVER \<equiv> 54"
abbreviation (input) DHCP_OPTION_END :: u8 where "DHCP_OPTION_END \<equiv> 255"

section \<open>The code\<close>

definition DHCPInitialize :: "pdu \<Rightarrow> pdu res" where
  "DHCPInitialize s =
     (let s = s\<lparr>g_dhcpState := DHCP_STATE_IDLE, g_dhcpServerAddress := 0\<rparr> in
      andthen (strcpy (g_hostname s) (cstr ''pdu'')) (\<lambda>h. Inr (s\<lparr>g_hostname := h\<rparr>)))"

text \<open>The first 60 words of the two messages: BOOTP header, padding and magic cookie.\<close>

definition dhcp_boot_words :: "u32 \<Rightarrow> u32 \<Rightarrow> pdu \<Rightarrow> (nat \<times> u32) list" where
  "dhcp_boot_words ciaddr siaddr s = (let (m0, m1, m2) = g_mac s in
     [(0, 0x01010600), (1, DHCP_XID), (2, 0), (3, ciaddr), (4, 0), (5, siaddr), (6, 0),
      (7, push_bit 16 (ucast m0) OR ucast m1), (8, push_bit 16 (ucast m2)), (9, 0), (10, 0)] @
     map (\<lambda>i. (i, 0)) [11..<59] @ [(59, DHCP_MAGIC_COOKIE)])"

definition DHCPSendDiscover :: "pdu \<Rightarrow> pdu res" where
  "DHCPSendDiscover s =
     andthen (EthernetAllocateFrame s) (\<lambda>(frame, s).
     if frame = 0 then Inr s else
     let body = UDPv4GetTxBodyPtr frame in
     andthen (store_words body (dhcp_boot_words 0 0 s @ [(60, 0x350101ff)]) s) (\<lambda>s.
     let s = s\<lparr>g_dhcpState := DHCP_STATE_WAIT_FOR_OFFER\<rparr> in
     UDPv4SendPacket frame 0xffffffff DHCP_CLIENT_PORT DHCP_SERVER_PORT (61 * 4) s))"

definition DHCPSendRequest :: "pdu \<Rightarrow> pdu res" where
  "DHCPSendRequest s =
     (let s = s\<lparr>g_dhcpState := DHCP_STATE_WAIT_FOR_ACK\<rparr> in
     andthen (EthernetAllocateFrame s) (\<lambda>(frame, s).
     if frame = 0 then Inr s else
     let body = UDPv4GetTxBodyPtr frame in
     andthen (store_words body (dhcp_boot_words (g_ipAddress s) (g_dhcpServerAddress s) s @
       [(60, 0x35010300), (61, 0x00003604), (62, g_dhcpServerAddress s), (63, 0x00003204),
        (64, g_ipAddress s), (65, 0x000000ff)]) s) (\<lambda>s.
     let s = s\<lparr>g_dhcpState := DHCP_STATE_WAIT_FOR_ACK\<rparr>; temp = g_ipAddress s; s = s\<lparr>g_ipAddress := 0\<rparr> in
     andthen (UDPv4SendPacket frame 0xffffffff DHCP_CLIENT_PORT DHCP_SERVER_PORT (66 * 4) s) (\<lambda>s.
     Inr (s\<lparr>g_ipAddress := temp\<rparr>)))))"

text \<open>The local variables that the options fill in.\<close>

record dhcp_options =
  our_subnet :: u32
  router_ip :: u32
  bcast_addr :: u32
  message_type :: u8
  dhcp_server_ip :: u32

definition option_address :: "u32 \<Rightarrow> pdu \<Rightarrow> u32 res" where
  "option_address body s =
     andthen (load8 body s) (\<lambda>b0. andthen (load8 (body + 1) s) (\<lambda>b1.
     andthen (load8 (body + 2) s) (\<lambda>b2. andthen (load8 (body + 3) s) (\<lambda>b3.
     Inr (push_bit 24 (ucast b0) OR push_bit 16 (ucast b1) OR push_bit 8 (ucast b2) OR ucast b3)))))"

text \<open>The switch on the option code; \<open>len\<close> is returned as the code leaves it.\<close>

definition dhcp_option :: "u8 \<Rightarrow> u8 \<Rightarrow> u32 \<Rightarrow> dhcp_options \<Rightarrow> pdu \<Rightarrow> (u8 \<times> dhcp_options \<times> pdu) res" where
  "dhcp_option code len body o' s =
     (if code = DHCP_OPTION_SUBNET then
        andthen (option_address body s) (\<lambda>a. Inr (len, o'\<lparr>our_subnet := a\<rparr>, s))
      else if code = DHCP_OPTION_ROUTER then
        if router_ip o' = 0 then andthen (option_address body s) (\<lambda>a. Inr (len, o'\<lparr>router_ip := a\<rparr>, s))
        else Inr (len, o', s)
      else if code = DHCP_OPTION_HOSTNAME then
        let len = (if len \<ge> 32 then 31 else len) in
        andthen (foreach [0..<unat len] (\<lambda>i s.
          andthen (load8 (body + of_nat i) s) (\<lambda>b.
          andthen (aset (g_hostname s) i b) (\<lambda>h. Inr (s\<lparr>g_hostname := h\<rparr>)))) s) (\<lambda>s.
        andthen (aset (g_hostname s) (unat len) 0) (\<lambda>h. Inr (len, o', s\<lparr>g_hostname := h\<rparr>)))
      else if code = DHCP_OPTION_TYPE then
        andthen (load8 body s) (\<lambda>b. Inr (len, o'\<lparr>message_type := b\<rparr>, s))
      else if code = DHCP_OPTION_BCAST then
        andthen (option_address body s) (\<lambda>a. Inr (len, o'\<lparr>bcast_addr := a\<rparr>, s))
      else if code = DHCP_OPTION_SERVER then
        andthen (option_address body s) (\<lambda>a. Inr (len, o'\<lparr>dhcp_server_ip := a\<rparr>, s))
      else Inr (len, o', s))"

function dhcp_parse :: "u32 \<Rightarrow> nat \<Rightarrow> nat \<Rightarrow> dhcp_options \<Rightarrow> pdu \<Rightarrow> (dhcp_options \<times> pdu) res" where
  "dhcp_parse packet bytelen off o' s =
     (if off < bytelen then
        andthen (load8 (packet + of_nat off) s) (\<lambda>code.
        andthen (load8 (packet + of_nat (off + 1)) s) (\<lambda>len.
        let body = packet + of_nat (off + 2) in
        if code = DHCP_OPTION_END then Inr (o', s)
        else if code = DHCP_OPTION_PAD then dhcp_parse packet bytelen (off + 1) o' s
        else andthen (dhcp_option code len body o' s) (\<lambda>(len, o', s).
          dhcp_parse packet bytelen (off + (unat len + 2)) o' s)))
      else Inr (o', s))"
  by pat_completeness auto
termination by (relation "measure (\<lambda>(packet, bytelen, off, o', s). bytelen - off)") auto

declare dhcp_parse.simps [simp del]

definition DHCPProcessPacket :: "u32 \<Rightarrow> u32 \<Rightarrow> u32 \<Rightarrow> u16 \<Rightarrow> pdu \<Rightarrow> pdu res" where
  "DHCPProcessPacket packet srcip srcport bytelen s =
     (if srcport \<noteq> ucast DHCP_SERVER_PORT then Inr s else
      andthen (load32 (word_at packet 0) s) (\<lambda>p0.
      let opcode = drop_bit 24 p0 in
      if opcode \<noteq> 2 then Inr s else
      andthen (load32 (word_at packet 1) s) (\<lambda>p1.
      if p1 \<noteq> DHCP_XID then Inr s else
      andthen (load32 (word_at packet 59) s) (\<lambda>p59.
      if p59 \<noteq> DHCP_MAGIC_COOKIE then Inr s else
      andthen (load32 (word_at packet 4) s) (\<lambda>our_ip.
      andthen (load32 (word_at packet 5) s) (\<lambda>siaddr.
      andthen (dhcp_parse packet (unat bytelen) (60 * 4)
        \<lparr>our_subnet = 0, router_ip = 0, bcast_addr = 0, message_type = 0, dhcp_server_ip = siaddr\<rparr> s) (\<lambda>(o', s).
      case g_dhcpState s of
        DHCP_STATE_WAIT_FOR_OFFER \<Rightarrow>
          if message_type o' \<noteq> 2 then Inr s else
          let s = s\<lparr>g_dhcpServerAddress := dhcp_server_ip o', g_ipAddress := our_ip, g_subnetMask := our_subnet o',
                    g_broadcastAddress := bcast_addr o', g_routerAddress := router_ip o'\<rparr> in
          andthen (ARPSendProbeRequestTo (router_ip o') s) (\<lambda>s. DHCPSendRequest s)
      | DHCP_STATE_WAIT_FOR_ACK \<Rightarrow>
          if message_type o' \<noteq> 5 then Inr s else
          if srcip \<noteq> g_dhcpServerAddress s then Inr s else
          let s = s\<lparr>g_dhcpState := DHCP_STATE_BOUND\<rparr>; leds = 0x2A0 in
          andthen (RPCFunctionCall (g_periphAddr s) PERIPH_GPIO_RDWR 0x2AA leds 0 s) (\<lambda>(rc, rmsg, s). Inr s)
      | _ \<Rightarrow> Inr s)))))))"

definition DHCPOnLinkUp :: "pdu \<Rightarrow> pdu" where
  "DHCPOnLinkUp s = s\<lparr>g_dhcpState := DHCP_STATE_LINK_UP_0\<rparr>"

definition DHCPOnLinkDown :: "pdu \<Rightarrow> pdu" where
  "DHCPOnLinkDown s = s\<lparr>g_dhcpState := DHCP_STATE_IDLE\<rparr>"

definition DHCPOnTimer :: "pdu \<Rightarrow> pdu res" where
  "DHCPOnTimer s = (case g_dhcpState s of
       DHCP_STATE_LINK_UP_0 \<Rightarrow> Inr (s\<lparr>g_dhcpState := DHCP_STATE_LINK_UP_1\<rparr>)
     | DHCP_STATE_LINK_UP_1 \<Rightarrow> DHCPSendDiscover s
     | _ \<Rightarrow> Inr s)"

section \<open>Evolution\<close>

lemma pdu_hostname:
  assumes "length h = 32"
  shows "strcpy h (cstr ''pdu'') = Inr (h[0 := 112, 1 := 100, 2 := 117])"
proof -
  have c: "cstr ''pdu'' = [112, 100, 117, 0]" by (simp add: cstr_def)
  show ?thesis unfolding strcpy_def c
    using assms by (simp add: strcpy_from.simps [of _ _ "_ :: nat"]) (simp flip: numeral_2_eq_2)
qed


lemma DHCPInitialize_evolves [vcg]:
  assumes e: "evolves fs s0 s" and "\<And>s'. evolves fs s0 s' \<Longrightarrow> Q s'"
  shows "wp no_overrun Q (DHCPInitialize s)"
proof -
  let ?s = "s\<lparr>g_dhcpState := DHCP_STATE_IDLE, g_dhcpServerAddress := 0\<rparr>"
  have "evolves fs s0 ?s" using e by (intro globals_evolve)
  then have "evolves fs s0 (?s\<lparr>g_hostname := (g_hostname s)[0 := 112, 1 := 100, 2 := 117]\<rparr>)"
    using evolve_parts(4,5) [OF e] by (intro globals_evolve(16)) simp_all
  then show ?thesis
    using evolve_parts(4) [OF e] assms(2) by (simp add: DHCPInitialize_def pdu_hostname)
qed

lemma DHCPSendDiscover_evolves [vcg]:
  assumes e: "evolves fs s0 s"
    and Q: "\<And>s'. evolves fs s0 s' \<Longrightarrow> cpu.more s' = cpu.more s \<or> cpu.more s' = cpu.more (s\<lparr>g_dhcpState := DHCP_STATE_WAIT_FOR_OFFER\<rparr>) \<Longrightarrow> Q s'"
  shows "wp no_overrun Q (DHCPSendDiscover s)"
  unfolding DHCPSendDiscover_def Let_def wp_simps
proof (rule EthernetAllocateFrame_evolves [OF e], simp_all (no_asm) only: prod.case wp_simps wp_if simp_thms if_True)
  fix s'
  assume "evolves fs s0 s'" "cpu.more s' = cpu.more s"
  then show "Q s'" using Q by blast
next
  fix f s'
  assume f: "f \<noteq> 0" and e': "evolves ((f AND PAGE_MASK) # fs) s0 s'" and m: "cpu.more s' = cpu.more s"
  have "wp no_overrun Q (UDPv4SendPacket f 0xffffffff DHCP_CLIENT_PORT DHCP_SERVER_PORT (61 * 4)
      (s'\<lparr>mem := x, g_dhcpState := DHCP_STATE_WAIT_FOR_OFFER\<rparr>))"
    if "evolves ((f AND PAGE_MASK) # fs) s0 (s'\<lparr>mem := x\<rparr>)" for x
  proof (rule UDPv4SendPacket_evolves [OF globals_evolve(9) [OF that]], rule Q, assumption, rule disjI2)
    fix s''
    assume "cpu.more s'' = cpu.more (s'\<lparr>mem := x, g_dhcpState := DHCP_STATE_WAIT_FOR_OFFER\<rparr>)"
    then show "cpu.more s'' = cpu.more (s\<lparr>g_dhcpState := DHCP_STATE_WAIT_FOR_OFFER\<rparr>)"
      using m by (cases s; cases s') (simp add: cpu.defs)
  qed
  then show "(f = 0 \<longrightarrow> Q s') \<and> (f \<noteq> 0 \<longrightarrow> wp no_overrun (\<lambda>x. wp no_overrun Q
      (UDPv4SendPacket f 0xffffffff DHCP_CLIENT_PORT DHCP_SERVER_PORT (61 * 4) (x\<lparr>g_dhcpState := DHCP_STATE_WAIT_FOR_OFFER\<rparr>)))
      (store_words (UDPv4GetTxBodyPtr f) (dhcp_boot_words 0 0 s' @ [(60, 0x350101ff)]) s'))"
    using f by (auto intro!: store_words_wp [OF e'])
qed


lemma DHCPSendRequest_evolves [vcg]:
  assumes e: "evolves fs s0 s"
    and Q: "\<And>s'. evolves fs s0 s' \<Longrightarrow> cpu.more s' = cpu.more (s\<lparr>g_dhcpState := DHCP_STATE_WAIT_FOR_ACK\<rparr>) \<Longrightarrow> Q s'"
  shows "wp no_overrun Q (DHCPSendRequest s)"
  unfolding DHCPSendRequest_def Let_def wp_simps
proof (rule EthernetAllocateFrame_evolves [OF globals_evolve(9) [OF e]], simp_all (no_asm) only: prod.case wp_simps wp_if simp_thms if_True)
  let ?t = "s\<lparr>g_dhcpState := DHCP_STATE_WAIT_FOR_ACK\<rparr>"
  fix s'
  assume "evolves fs s0 s'" "cpu.more s' = cpu.more ?t"
  then show "Q s'" using Q by blast
next
  let ?t = "s\<lparr>g_dhcpState := DHCP_STATE_WAIT_FOR_ACK\<rparr>"
  fix f s'
  assume f: "f \<noteq> 0" and e': "evolves ((f AND PAGE_MASK) # fs) s0 s'" and m: "cpu.more s' = cpu.more ?t"
  have "wp no_overrun (\<lambda>y. Q (y\<lparr>g_ipAddress := g_ipAddress s'\<rparr>)) (UDPv4SendPacket f 0xffffffff DHCP_CLIENT_PORT DHCP_SERVER_PORT (66 * 4)
      (s'\<lparr>mem := x, g_dhcpState := DHCP_STATE_WAIT_FOR_ACK, g_ipAddress := 0\<rparr>))"
    if "evolves ((f AND PAGE_MASK) # fs) s0 (s'\<lparr>mem := x\<rparr>)" for x
  proof (rule UDPv4SendPacket_evolves [OF globals_evolve(5) [OF globals_evolve(9) [OF that]]], rule Q, erule globals_evolve)
    fix s''
    assume "cpu.more s'' = cpu.more (s'\<lparr>mem := x, g_dhcpState := DHCP_STATE_WAIT_FOR_ACK, g_ipAddress := 0\<rparr>)"
    then show "cpu.more (s''\<lparr>g_ipAddress := g_ipAddress s'\<rparr>) = cpu.more ?t"
      using m by (cases s; cases s'; cases s'') (simp add: cpu.defs)
  qed
  then show "(f = 0 \<longrightarrow> Q s') \<and> (f \<noteq> 0 \<longrightarrow> wp no_overrun (\<lambda>x. wp no_overrun (\<lambda>y. Q (y\<lparr>g_ipAddress := g_ipAddress (x\<lparr>g_dhcpState := DHCP_STATE_WAIT_FOR_ACK\<rparr>)\<rparr>))
      (UDPv4SendPacket f 0xffffffff DHCP_CLIENT_PORT DHCP_SERVER_PORT (66 * 4) (x\<lparr>g_dhcpState := DHCP_STATE_WAIT_FOR_ACK, g_ipAddress := 0\<rparr>)))
      (store_words (UDPv4GetTxBodyPtr f) (dhcp_boot_words (g_ipAddress s') (g_dhcpServerAddress s') s' @
       [(60, 0x35010300), (61, 0x00003604), (62, g_dhcpServerAddress s'), (63, 0x00003204),
        (64, g_ipAddress s'), (65, 0x000000ff)]) s'))"
    using f by (auto intro!: store_words_wp [OF e'])
qed

lemma option_address_ok [vcg]: "(\<And>a. Q a) \<Longrightarrow> wp no_overrun Q (option_address body s)"
  by (auto simp: option_address_def intro!: load_no_overrun)

text \<open>Of the globals, the options only ever change the host name.\<close>

lemma dhcp_option_evolves [vcg]:
  assumes e: "evolves fs s0 s"
    and Q: "\<And>l o' h. evolves fs s0 (s\<lparr>g_hostname := h\<rparr>) \<Longrightarrow> Q (l, o', s\<lparr>g_hostname := h\<rparr>)"
  shows "wp no_overrun Q (dhcp_option code len body o' s)"
proof (cases "code = DHCP_OPTION_HOSTNAME")
  case True
  define n where "n = unat (if len \<ge> 32 then 31 else len)"
  have n: "n < 32" by (auto simp: n_def not_le word_less_nat_alt)
  let ?I = "\<lambda>t. \<exists>h. t = s\<lparr>g_hostname := h\<rparr> \<and> evolves fs s0 t"
  have step: "wp no_overrun ?I (andthen (load8 (body + of_nat i) t) (\<lambda>b.
      andthen (aset (g_hostname t) i b) (\<lambda>h. Inr (t\<lparr>g_hostname := h\<rparr>))))" if "i \<in> set [0..<n]" "?I t" for i t
  proof -
    from that(2) obtain h where h: "t = s\<lparr>g_hostname := h\<rparr>" "evolves fs s0 t" by blast
    have l: "length h = 32" "h ! 31 = 0" using evolve_parts(4,5) [OF h(2)] by (simp_all add: h(1))
    have "evolves fs s0 (t\<lparr>g_hostname := h[i := b]\<rparr>)" for b
      using that(1) n l by (intro globals_evolve(16) [OF h(2)]) (simp_all add: nth_list_update)
    then show ?thesis using that(1) n l by (auto intro!: load_no_overrun simp: h(1))
  qed
  have "wp no_overrun (\<lambda>t. wp no_overrun Q (andthen (aset (g_hostname t) n 0)
      (\<lambda>h. Inr (if len \<ge> 32 then 31 else len, o', t\<lparr>g_hostname := h\<rparr>))))
    (foreach [0..<n] (\<lambda>i t. andthen (load8 (body + of_nat i) t) (\<lambda>b.
      andthen (aset (g_hostname t) i b) (\<lambda>h. Inr (t\<lparr>g_hostname := h\<rparr>)))) s)"
  proof (rule wp_foreach_inv [where I = ?I])
    show "?I s" using e by (intro exI [of _ "g_hostname s"]) simp
  next
    fix t assume "?I t"
    then obtain h where h: "t = s\<lparr>g_hostname := h\<rparr>" "evolves fs s0 t" by blast
    have l: "length h = 32" "h ! 31 = 0" using evolve_parts(4,5) [OF h(2)] by (simp_all add: h(1))
    have "evolves fs s0 (t\<lparr>g_hostname := h[n := 0]\<rparr>)"
      using n l by (intro globals_evolve(16) [OF h(2)]) (simp_all add: nth_list_update)
    then show "wp no_overrun Q (andthen (aset (g_hostname t) n 0)
      (\<lambda>h. Inr (if len \<ge> 32 then 31 else len, o', t\<lparr>g_hostname := h\<rparr>)))"
      using n l Q by (simp add: h(1))
  qed (rule step)
  then show ?thesis using True unfolding dhcp_option_def Let_def n_def by simp
next
  case False
  have "Q (l, o'', s)" for l o'' using Q [of "g_hostname s"] e by simp
  then show ?thesis using False unfolding dhcp_option_def by (auto intro!: option_address_ok load_no_overrun)
qed

lemma dhcp_parse_evolves [vcg]:
  assumes "evolves fs s0 s"
    and "\<And>o' h. dhcp_parse packet bytelen off o0 s = Inr (o', s\<lparr>g_hostname := h\<rparr>) \<Longrightarrow>
      evolves fs s0 (s\<lparr>g_hostname := h\<rparr>) \<Longrightarrow> Q (o', s\<lparr>g_hostname := h\<rparr>)"
  shows "wp no_overrun Q (dhcp_parse packet bytelen off o0 s)"
proof -
  let ?P = "\<lambda>s (o', t). \<exists>h. t = s\<lparr>g_hostname := h\<rparr> \<and> evolves fs s0 t"
  have "wp no_overrun (?P s) (dhcp_parse packet bytelen off o0 s)"
    using assms(1)
  proof (induction packet bytelen off o0 s rule: dhcp_parse.induct)
    case (1 packet bytelen off o0 s)
    have self: "?P s (o0, s)" using "1.prems" by (auto intro: exI [of _ "g_hostname s"])
    show ?case
    proof (cases "off < bytelen \<and> readable (packet + of_nat off) s \<and> readable (packet + of_nat (off + 1)) s")
      case True
      let ?c = "mem s (packet + of_nat off)" and ?l = "mem s (packet + of_nat (off + 1))"
      have ld: "load8 (packet + of_nat off) s = Inr ?c" "load8 (packet + of_nat (off + 1)) s = Inr ?l"
        using True by (simp_all add: load8_def)
      have pad: "wp no_overrun (?P s) (dhcp_parse packet bytelen (off + 1) o0 s)" if "?c = 0"
        using "1.IH"(1) [OF _ ld refl] True that "1.prems" by simp
      have opt: "wp no_overrun (?P s) (andthen (dhcp_option ?c ?l (packet + of_nat (off + 2)) o0 s)
          (\<lambda>(len, o', s). dhcp_parse packet bytelen (off + (unat len + 2)) o' s))" if "?c \<noteq> 255" "?c \<noteq> 0"
      proof -
        have "wp no_overrun (\<lambda>(l, o', t). \<exists>h. t = s\<lparr>g_hostname := h\<rparr> \<and> evolves fs s0 t)
            (dhcp_option ?c ?l (packet + of_nat (off + 2)) o0 s)"
          by (rule dhcp_option_evolves [OF "1.prems"]) auto
        then show ?thesis
          unfolding wp_simps
        proof (rule wp_result, clarify)
          fix l o' h assume "dhcp_option ?c ?l (packet + of_nat (off + 2)) o0 s = Inr (l, o', s\<lparr>g_hostname := h\<rparr>)"
            and e: "evolves fs s0 (s\<lparr>g_hostname := h\<rparr>)"
          from "1.IH"(2) [OF _ ld refl that this(1) refl refl e] True
          show "wp no_overrun (?P s) (dhcp_parse packet bytelen (off + (unat l + 2)) o' (s\<lparr>g_hostname := h\<rparr>))"
            by (auto elim!: wp_mono)
        qed
      qed
      show ?thesis
        using True pad opt self by (subst dhcp_parse.simps) (simp only: ld andthen_simps Let_def, simp)
    next
      case False
      then show ?thesis using self by (subst dhcp_parse.simps) (auto simp: load8_def)
    qed
  qed
  then show ?thesis by (rule wp_result) (use assms(2) in auto)
qed

section \<open>The effect of a packet\<close>

definition dhcp_defaults :: "u32 \<Rightarrow> dhcp_options" where
  "dhcp_defaults siaddr = \<lparr>our_subnet = 0, router_ip = 0, bcast_addr = 0, message_type = 0, dhcp_server_ip = siaddr\<rparr>"

text \<open>A reply to one of our messages: from the server port, a boot reply with our XID and the magic cookie.\<close>

definition dhcp_accepts :: "u32 \<Rightarrow> u32 \<Rightarrow> pdu \<Rightarrow> bool" where
  "dhcp_accepts packet srcport s \<longleftrightarrow> srcport = 67 \<and> drop_bit 24 (be32 (mem s) (word_at packet 0)) = 2 \<and>
     be32 (mem s) (word_at packet 1) = DHCP_XID \<and> be32 (mem s) (word_at packet 59) = DHCP_MAGIC_COOKIE"

text \<open>The transitions of the client: an offer is taken when one is awaited, an acknowledgement from the chosen server when that is.\<close>

definition dhcp_next :: "u32 \<Rightarrow> u32 \<Rightarrow> dhcp_options \<Rightarrow> pdu \<Rightarrow> pdu" where
  "dhcp_next our_ip srcip o' s = (case g_dhcpState s of
       DHCP_STATE_WAIT_FOR_OFFER \<Rightarrow>
         if message_type o' = 2
         then s\<lparr>g_dhcpServerAddress := dhcp_server_ip o', g_ipAddress := our_ip, g_subnetMask := our_subnet o',
                g_broadcastAddress := bcast_addr o', g_routerAddress := router_ip o', g_dhcpState := DHCP_STATE_WAIT_FOR_ACK\<rparr>
         else s
     | DHCP_STATE_WAIT_FOR_ACK \<Rightarrow>
         if message_type o' = 5 \<and> srcip = g_dhcpServerAddress s then s\<lparr>g_dhcpState := DHCP_STATE_BOUND\<rparr> else s
     | _ \<Rightarrow> s)"

definition dhcp_effect :: "u32 \<Rightarrow> u32 \<Rightarrow> u32 \<Rightarrow> u16 \<Rightarrow> pdu \<Rightarrow> pdu \<Rightarrow> bool" where
  "dhcp_effect packet srcip srcport bytelen s s' \<longleftrightarrow>
     (if dhcp_accepts packet srcport s then
        \<exists>o' h. dhcp_parse packet (unat bytelen) 240 (dhcp_defaults (be32 (mem s) (word_at packet 5))) s = Inr (o', s\<lparr>g_hostname := h\<rparr>) \<and>
          cpu.more s' = cpu.more (dhcp_next (be32 (mem s) (word_at packet 4)) srcip o' (s\<lparr>g_hostname := h\<rparr>))
      else s' = s)"

lemma dhcp_take_offer:
  assumes e: "evolves fs s0 t" and st: "g_dhcpState t = DHCP_STATE_WAIT_FOR_OFFER" and ty: "message_type o' = 2"
    and Q: "\<And>s'. evolves fs s0 s' \<Longrightarrow> cpu.more s' = cpu.more (dhcp_next our_ip srcip o' t) \<Longrightarrow> Q s'"
  shows "wp no_overrun Q (andthen (ARPSendProbeRequestTo (router_ip o')
      (t\<lparr>g_dhcpServerAddress := dhcp_server_ip o', g_ipAddress := our_ip, g_subnetMask := our_subnet o',
         g_broadcastAddress := bcast_addr o', g_routerAddress := router_ip o'\<rparr>)) (\<lambda>s. DHCPSendRequest s))"
    (is "wp _ _ (andthen (ARPSendProbeRequestTo _ ?t) _)")
  unfolding wp_simps
proof (rule ARPSendProbeRequestTo_evolves [where fs = fs and ?s0.0 = s0])
  show "evolves fs s0 ?t" using e by (intro globals_evolve)
  fix s' assume e': "evolves fs s0 s'" and m: "cpu.more s' = cpu.more ?t"
  show "wp no_overrun Q (DHCPSendRequest s')"
  proof (rule DHCPSendRequest_evolves [OF e'], rule Q, assumption)
    fix s'' assume "cpu.more s'' = cpu.more (s'\<lparr>g_dhcpState := DHCP_STATE_WAIT_FOR_ACK\<rparr>)"
    then show "cpu.more s'' = cpu.more (dhcp_next our_ip srcip o' t)"
      using m st ty by (cases t; cases s'; cases s'') (simp add: dhcp_next_def cpu.defs)
  qed
qed

lemma DHCPProcessPacket_evolves [vcg]:
  assumes e: "evolves fs s0 s"
    and Q: "\<And>s'. evolves fs s0 s' \<Longrightarrow> dhcp_effect packet srcip srcport bytelen s s' \<Longrightarrow> Q s'"
  shows "wp no_overrun Q (DHCPProcessPacket packet srcip srcport bytelen s)"
proof (cases "dhcp_accepts packet srcport s")
  case False
  then have "Q s" using e by (intro Q) (simp_all add: dhcp_effect_def)
  then show ?thesis
    using False unfolding DHCPProcessPacket_def dhcp_accepts_def Let_def by (simp add: load32_def)
next
  case True
  let ?o = "dhcp_defaults (be32 (mem s) (word_at packet 5))" and ?ip = "be32 (mem s) (word_at packet 4)"
  have main: "wp no_overrun (\<lambda>(o', s). wp no_overrun Q (case g_dhcpState s of
        DHCP_STATE_WAIT_FOR_OFFER \<Rightarrow>
          if message_type o' \<noteq> 2 then Inr s else
          andthen (ARPSendProbeRequestTo (router_ip o')
            (s\<lparr>g_dhcpServerAddress := dhcp_server_ip o', g_ipAddress := ?ip, g_subnetMask := our_subnet o',
                    g_broadcastAddress := bcast_addr o', g_routerAddress := router_ip o'\<rparr>)) (\<lambda>s. DHCPSendRequest s)
      | DHCP_STATE_WAIT_FOR_ACK \<Rightarrow>
          if message_type o' \<noteq> 5 then Inr s else
          if srcip \<noteq> g_dhcpServerAddress s then Inr s else
          andthen (RPCFunctionCall (g_periphAddr (s\<lparr>g_dhcpState := DHCP_STATE_BOUND\<rparr>)) PERIPH_GPIO_RDWR 0x2AA 0x2A0 0
            (s\<lparr>g_dhcpState := DHCP_STATE_BOUND\<rparr>)) (\<lambda>(rc, rmsg, s). Inr s)
      | _ \<Rightarrow> Inr s)) (dhcp_parse packet (unat bytelen) 240 ?o s)"
  proof (rule dhcp_parse_evolves [OF e], unfold prod.case)
    fix o' h
    let ?t = "s\<lparr>g_hostname := h\<rparr>"
    assume p: "dhcp_parse packet (unat bytelen) 240 ?o s = Inr (o', ?t)" and e': "evolves fs s0 ?t"
    have Q': "Q s'" if "evolves fs s0 s'" "cpu.more s' = cpu.more (dhcp_next ?ip srcip o' ?t)" for s'
      by (rule Q [OF that(1)]) (use True p that(2) in \<open>auto simp: dhcp_effect_def\<close>)
    have same: "dhcp_next ?ip srcip o' ?t = ?t \<Longrightarrow> Q ?t" using Q' e' by simp
    have bound: "wp no_overrun Q (andthen (RPCFunctionCall (g_periphAddr (?t\<lparr>g_dhcpState := DHCP_STATE_BOUND\<rparr>)) PERIPH_GPIO_RDWR 0x2AA 0x2A0 0
            (?t\<lparr>g_dhcpState := DHCP_STATE_BOUND\<rparr>)) (\<lambda>(rc, rmsg, s). Inr s))"
      if "g_dhcpState ?t = DHCP_STATE_WAIT_FOR_ACK" "message_type o' = 5" "srcip = g_dhcpServerAddress ?t"
      unfolding wp_simps
      by (rule host_calls [OF globals_evolve(9) [OF e']]) (use that in \<open>auto intro!: Q' simp: dhcp_next_def\<close>)
    have offer: "wp no_overrun Q (andthen (ARPSendProbeRequestTo (router_ip o')
            (?t\<lparr>g_dhcpServerAddress := dhcp_server_ip o', g_ipAddress := ?ip, g_subnetMask := our_subnet o',
                    g_broadcastAddress := bcast_addr o', g_routerAddress := router_ip o'\<rparr>)) (\<lambda>s. DHCPSendRequest s))"
      if "g_dhcpState ?t = DHCP_STATE_WAIT_FOR_OFFER" "message_type o' = 2"
      by (rule dhcp_take_offer [OF e' that]) (rule Q')
    show "wp no_overrun Q (case g_dhcpState ?t of
        DHCP_STATE_WAIT_FOR_OFFER \<Rightarrow>
          if message_type o' \<noteq> 2 then Inr ?t else
          andthen (ARPSendProbeRequestTo (router_ip o')
            (?t\<lparr>g_dhcpServerAddress := dhcp_server_ip o', g_ipAddress := ?ip, g_subnetMask := our_subnet o',
                    g_broadcastAddress := bcast_addr o', g_routerAddress := router_ip o'\<rparr>)) (\<lambda>s. DHCPSendRequest s)
      | DHCP_STATE_WAIT_FOR_ACK \<Rightarrow>
          if message_type o' \<noteq> 5 then Inr ?t else
          if srcip \<noteq> g_dhcpServerAddress ?t then Inr ?t else
          andthen (RPCFunctionCall (g_periphAddr (?t\<lparr>g_dhcpState := DHCP_STATE_BOUND\<rparr>)) PERIPH_GPIO_RDWR 0x2AA 0x2A0 0
            (?t\<lparr>g_dhcpState := DHCP_STATE_BOUND\<rparr>)) (\<lambda>(rc, rmsg, s). Inr s)
      | _ \<Rightarrow> Inr ?t)"
    proof (cases "g_dhcpState ?t")
      case DHCP_STATE_WAIT_FOR_OFFER
      then show ?thesis using offer same by (cases "message_type o' = 2") (simp_all add: dhcp_next_def del: wp_simps(3))
    next
      case DHCP_STATE_WAIT_FOR_ACK
      then show ?thesis using bound same by (cases "message_type o' = 5 \<and> srcip = g_dhcpServerAddress ?t")
          (auto simp: dhcp_next_def simp del: wp_simps(3))
    qed (use same in \<open>simp_all add: dhcp_next_def\<close>)
  qed
  show ?thesis
    using True main unfolding DHCPProcessPacket_def dhcp_accepts_def Let_def
    by (simp add: load32_def dhcp_defaults_def del: wp_simps(3)) (simp add: split_def)
qed

section \<open>The options a server writes\<close>

datatype dhcp_item = Pad | Opt u8 "u8 list"

fun item_bytes :: "dhcp_item \<Rightarrow> u8 list" where
  "item_bytes Pad = [0]"
| "item_bytes (Opt c b) = c # of_nat (length b) # b"

fun item_ok :: "dhcp_item \<Rightarrow> bool" where
  "item_ok Pad \<longleftrightarrow> True"
| "item_ok (Opt c b) \<longleftrightarrow> c \<noteq> 0 \<and> c \<noteq> 255 \<and> length b < 256 \<and> (c \<in> {1, 3, 28, 54} \<longrightarrow> 4 \<le> length b) \<and>
     (c = 53 \<longrightarrow> b \<noteq> []) \<and> (c = 12 \<longrightarrow> length b < 32)"

definition address_of :: "u8 list \<Rightarrow> u32" where
  "address_of b = push_bit 24 (ucast (b ! 0)) OR push_bit 16 (ucast (b ! 1)) OR push_bit 8 (ucast (b ! 2)) OR ucast (b ! 3)"

text \<open>What each option means: the router that counts is the first one given, of the others the last.\<close>

fun item_value :: "dhcp_item \<Rightarrow> dhcp_options \<times> u8 list \<Rightarrow> dhcp_options \<times> u8 list" where
  "item_value Pad v = v"
| "item_value (Opt c b) (o', h) =
     (if c = DHCP_OPTION_SUBNET then (o'\<lparr>our_subnet := address_of b\<rparr>, h)
      else if c = DHCP_OPTION_ROUTER then (if router_ip o' = 0 then o'\<lparr>router_ip := address_of b\<rparr> else o', h)
      else if c = DHCP_OPTION_HOSTNAME then (o', b @ 0 # drop (Suc (length b)) h)
      else if c = DHCP_OPTION_TYPE then (o'\<lparr>message_type := hd b\<rparr>, h)
      else if c = DHCP_OPTION_BCAST then (o'\<lparr>bcast_addr := address_of b\<rparr>, h)
      else if c = DHCP_OPTION_SERVER then (o'\<lparr>dhcp_server_ip := address_of b\<rparr>, h)
      else (o', h))"

lemma reads_nth: "reads s a bs \<Longrightarrow> i < length bs \<Longrightarrow> load8 (a + of_nat i) s = Inr (bs ! i)"
  using spans_nth [of "can_read s" a "length bs" i] by (simp add: reads_def holds_bytes_def load8_ok)

lemma reads_hostname [simp]: "reads (s\<lparr>g_hostname := h\<rparr>) a bs = reads s a bs"
proof -
  have "can_read (s\<lparr>g_hostname := h\<rparr>) = can_read s" by (simp add: can_read_def readable_def fun_eq_iff)
  then show ?thesis by (simp add: reads_def)
qed

lemma option_address_reads: "reads s body b \<Longrightarrow> 4 \<le> length b \<Longrightarrow> option_address body s = Inr (address_of b)"
  using reads_nth [of s body b 0] reads_nth [of s body b 1] reads_nth [of s body b 2] reads_nth [of s body b 3]
  by (cases "b = []") (simp_all add: option_address_def address_of_def)

lemma hostname_copy:
  assumes "reads s body b" and "length b < length (g_hostname s)" and "n \<le> length b"
  shows "foreach [0..<n] (\<lambda>i s. andthen (load8 (body + of_nat i) s) (\<lambda>b.
      andthen (aset (g_hostname s) i b) (\<lambda>h. Inr (s\<lparr>g_hostname := h\<rparr>)))) s =
    Inr (s\<lparr>g_hostname := take n b @ drop n (g_hostname s)\<rparr>)"
  using assms(3)
proof (induction n)
  case (Suc n)
  let ?h = "take n b @ drop n (g_hostname s)"
  have n: "n < length b" "n < length (g_hostname s)" using Suc.prems assms(2) by simp_all
  have "?h[n := b ! n] = take (Suc n) b @ drop (Suc n) (g_hostname s)"
    using n by (simp add: list_update_append take_Suc_conv_app_nth Cons_nth_drop_Suc [symmetric])
  moreover have "load8 (body + of_nat n) (s\<lparr>g_hostname := ?h\<rparr>) = Inr (b ! n)"
    by (rule reads_nth) (use assms(1) n in simp_all)
  ultimately show ?case using Suc n by (simp add: foreach_append)
qed simp

lemma dhcp_option_item:
  assumes ok: "item_ok (Opt c b)" and r: "reads s body b" and h: "length (g_hostname s) = 32"
    and v: "item_value (Opt c b) (o', g_hostname s) = (o'', h')"
  shows "dhcp_option c (of_nat (length b)) body o' s = Inr (of_nat (length b), o'', s\<lparr>g_hostname := h'\<rparr>)"
proof -
  have u: "unat (of_nat (length b) :: u8) = length b" using ok by (simp add: unat_of_nat take_bit_nat_eq_self)
  have s: "s\<lparr>g_hostname := g_hostname s\<rparr> = s" by simp
  show ?thesis
  proof (cases "c = 12")
    case True
    then have l: "length b < 32" using ok by simp
    then have "\<not> (of_nat (length b) :: u8) \<ge> 32" using u by (simp add: word_le_nat_alt)
    moreover have "(b @ drop (length b) (g_hostname s))[length b := 0] = b @ 0 # drop (Suc (length b)) (g_hostname s)"
      using l h by (simp add: list_update_append Cons_nth_drop_Suc [symmetric])
    ultimately show ?thesis
      using hostname_copy [OF r, of "length b"] l h v u True by (simp add: dhcp_option_def Let_def)
  next
    case False
    have a: "c \<in> {1, 3, 28, 54} \<Longrightarrow> option_address body s = Inr (address_of b)"
      using option_address_reads [OF r] ok by simp
    have b: "c = 53 \<Longrightarrow> load8 body s = Inr (hd b)"
      using reads_nth [OF r, of 0] ok by (simp add: hd_conv_nth)
    consider "c = 1" | "c = 3" "router_ip o' = 0" | "c = 3" "router_ip o' \<noteq> 0" | "c = 53" | "c = 28" | "c = 54"
      | "c \<notin> {1, 3, 53, 28, 54}" by blast
    then show ?thesis using False a b v s by cases (simp_all add: dhcp_option_def)
  qed
qed

lemma dhcp_parse_items:
  assumes "reads s (packet + of_nat off) (concat (map item_bytes items) @ [DHCP_OPTION_END, x])"
    and "off + length (concat (map item_bytes items)) < bytelen" and "\<forall>i \<in> set items. item_ok i"
    and "length (g_hostname s) = 32" and "fold item_value items (o', g_hostname s) = (o'', h')"
  shows "dhcp_parse packet bytelen off o' s = Inr (o'', s\<lparr>g_hostname := h'\<rparr>)"
  using assms
proof (induction items arbitrary: off o' s)
  case Nil
  then have "load8 (packet + of_nat off) s = Inr 255" "load8 (packet + of_nat (off + 1)) s = Inr x"
    by (simp_all add: reads_Cons algebra_simps)
  then show ?case using Nil by (subst dhcp_parse.simps) simp
next
  case (Cons i items)
  show ?case
  proof (cases i)
    case Pad
    have l0: "load8 (packet + of_nat off) s = Inr 0" using Cons.prems(1) Pad by (simp add: reads_Cons)
    have r: "reads s (packet + of_nat (off + 1)) (concat (map item_bytes items) @ [DHCP_OPTION_END, x])"
      using Cons.prems(1) Pad by (simp add: reads_Cons algebra_simps)
    then obtain y where l1: "load8 (packet + of_nat (off + 1)) s = Inr y"
      using reads_nth [OF r, of 0] by auto
    have "dhcp_parse packet bytelen (off + 1) o' s = Inr (o'', s\<lparr>g_hostname := h'\<rparr>)"
      by (rule Cons.IH [OF r]) (use Cons.prems Pad in simp_all)
    then show ?thesis using Cons.prems l0 l1 by (subst dhcp_parse.simps) simp
  next
    case (Opt c b)
    obtain o1 h1 where v: "item_value (Opt c b) (o', g_hostname s) = (o1, h1)" by fastforce
    let ?s = "s\<lparr>g_hostname := h1\<rparr>"
    have ok: "item_ok (Opt c b)" using Cons.prems(3) Opt by simp
    then have c: "c \<noteq> 0" "c \<noteq> 255" "length b < 256" by simp_all
    have ld: "load8 (packet + of_nat off) s = Inr c" "load8 (packet + of_nat (off + 1)) s = Inr (of_nat (length b))"
      using Cons.prems(1) Opt by (simp_all add: reads_Cons algebra_simps)
    have r: "reads s (packet + of_nat (off + 2)) b"
      "reads s (packet + of_nat (off + (length b + 2))) (concat (map item_bytes items) @ [DHCP_OPTION_END, x])"
      using Cons.prems(1) Opt by (simp_all add: reads_Cons reads_append algebra_simps)
    have h1: "length h1 = 32" using v Cons.prems(4) ok by (auto split: if_splits)
    have "dhcp_parse packet bytelen (off + (length b + 2)) o1 ?s = Inr (o'', ?s\<lparr>g_hostname := h'\<rparr>)"
      by (rule Cons.IH) (use Cons.prems Opt r h1 v in simp_all)
    moreover have "unat (of_nat (length b) :: u8) = length b" using c by (simp add: unat_of_nat take_bit_nat_eq_self)
    ultimately show ?thesis
      using Cons.prems(2) ld c dhcp_option_item [OF ok r(1) Cons.prems(4) v] by (subst dhcp_parse.simps) simp
  qed
qed

section \<open>The messages sent\<close>

definition dhcp_message :: "u32 \<Rightarrow> u32 \<Rightarrow> mac \<Rightarrow> u32 list \<Rightarrow> u32 list" where
  "dhcp_message ciaddr siaddr mac opts = (let (m0, m1, m2) = mac in
     [0x01010600, DHCP_XID, 0, ciaddr, 0, siaddr, 0, halves m0 m1, halves m2 0, 0, 0] @ replicate 48 0 @
     [DHCP_MAGIC_COOKIE] @ opts)"

definition discover_options :: "u32 list" where
  "discover_options = [0x350101ff]"

definition request_options :: "u32 \<Rightarrow> u32 \<Rightarrow> u32 list" where
  "request_options server ip = [0x35010300, 0x00003604, server, 0x00003204, ip, 0x000000ff]"

lemma dhcp_boot_message:
  "map fst (dhcp_boot_words ci si s @ zip [60..<60 + length opts] opts) = [0..<60 + length opts]"
  "map snd (dhcp_boot_words ci si s @ zip [60..<60 + length opts] opts) = dhcp_message ci si (g_mac s) opts"
proof -
  obtain m0 m1 m2 where m: "g_mac s = (m0, m1, m2)" by (cases "g_mac s") auto
  have "[0..<60 + length opts] = [0..<60] @ [60..<60 + length opts]" by (simp add: upt_add_eq_append [of 0 60])
  moreover have "[0..<60] = [0, 1, 2, 3, 4, 5, 6, 7, 8, 9, 10] @ [11..<59] @ [59 :: nat]"
    by (simp add: upt_rec [of _ 60] upt_rec [of _ 59] eval_nat_numeral)
  ultimately show "map fst (dhcp_boot_words ci si s @ zip [60..<60 + length opts] opts) = [0..<60 + length opts]"
    by (simp add: dhcp_boot_words_def m o_def)
  have "map (\<lambda>i. 0 :: u32) [11..<59] = replicate 48 0" by (simp only: map_replicate_const length_upt) simp
  then show "map snd (dhcp_boot_words ci si s @ zip [60..<60 + length opts] opts) = dhcp_message ci si (g_mac s) opts"
    by (simp add: dhcp_boot_words_def dhcp_message_def m o_def halves_def)
qed

text \<open>The payload of a datagram, written word by word behind the headers.\<close>

lemma store_payload:
  assumes a: "aligned p" and m: "mmu s p = PAGE_READ_WRITE" and f: "map fst iws = [0..<n]" and n: "7 + n \<le> 512"
  shows "\<exists>m. store_words (UDPv4GetTxBodyPtr p) iws s = Inr (s\<lparr>mem := m\<rparr>) \<and>
    drop 7 (frame_words m p (7 + n)) = map snd iws"
proof -
  let ?iws = "map (\<lambda>(i, w). (7 + i, w)) iws"
  have b: "UDPv4GetTxBodyPtr p = word_at p (of_nat 7)"
    by (simp add: UDPv4GetTxBodyPtr_def IPv4GetTxBodyPtr_def word_at_def)
  have len: "length iws = n" using f by (metis length_map length_upt diff_zero)
  have "fst iw < n" if "iw \<in> set iws" for iw
  proof -
    have "fst iw \<in> set (map fst iws)" using that by simp
    then show ?thesis unfolding f by simp
  qed
  then have idx: "\<forall>(j, w) \<in> set ?iws. j < 512" using n by fastforce
  have "drop 7 (frame_words (put_words p ?iws (mem s)) p (7 + n)) = map snd iws"
  proof (rule nth_equalityI)
    fix i assume "i < length (drop 7 (frame_words (put_words p ?iws (mem s)) p (7 + n)))"
    then have i: "i < n" by simp
    have "iws ! i \<in> set iws" "fst (iws ! i) = i" using i len f by (simp_all flip: nth_map [of i iws fst])
    then have "(i, snd (iws ! i)) \<in> set iws" by (metis prod.collapse)
    then have "(7 + i, snd (iws ! i)) \<in> set (rev ?iws)" by force
    moreover have "distinct (map fst (rev ?iws))"
    proof -
      have "map fst ?iws = map ((+) 7) (map fst iws)" by (auto simp: split_def)
      then have "distinct (map fst ?iws)" unfolding f by (simp add: distinct_map)
      then show ?thesis by (simp add: rev_map [symmetric])
    qed
    ultimately have "map_of (rev ?iws) (7 + i) = Some (snd (iws ! i))" by simp
    then show "drop 7 (frame_words (put_words p ?iws (mem s)) p (7 + n)) ! i = map snd iws ! i"
      using frame_words_put [of "7 + i" "7 + n" ?iws p "mem s"] n i len idx by simp
  qed (simp add: len)
  moreover have "store_words (UDPv4GetTxBodyPtr p) iws s = Inr (s\<lparr>mem := put_words p ?iws (mem s)\<rparr>)"
    unfolding b store_words_shift by (rule store_words_frame [OF a m idx])
  ultimately show ?thesis by blast
qed

lemma frame_fate_hosts:
  "hosts s' = hosts s \<Longrightarrow> cfg s' = cfg s \<Longrightarrow> frame_fate s' = frame_fate s"
  by (simp add: fun_eq_iff frame_fate_def frame_out_def frame_kept_def hosts_def)

text \<open>
  Both messages are sent this way: the words go into a frame that was just allocated, a few
  globals are set, and the frame goes out as a broadcast datagram.
\<close>

lemma dhcp_send_exact:
  assumes alloc: "EthernetAllocateFrame s = Inr (frame_addr phy, s1)" and phy: "ram_page phy"
    and ok: "arp_ok (g_arpTable s) (g_nextArpSet s)"
    and upd: "\<And>t. io (upd t) = io t \<and> mmu (upd t) = mmu t \<and> mem (upd t) = mem t \<and> hosts (upd t) = hosts t \<and> cfg (upd t) = cfg t \<and>
      g_arpTable (upd t) = g_arpTable t \<and> g_nextArpSet (upd t) = g_nextArpSet t"
    and more: "\<And>t. cpu.more t = cpu.more s \<Longrightarrow> hop_mac (upd t) (next_hop (upd t) 0xffffffff) = Some mac"
    and len: "60 + length opts \<le> 500"
    and Q: "\<And>s' t r reqs. cpu.more t = cpu.more s \<Longrightarrow> cpu.more s' = cpu.more (upd t) \<Longrightarrow>
      mmu s' = (mmu s)(frame_addr phy := PAGE_GUARD) \<Longrightarrow>
      frame_words (mem s') (frame_addr phy) (67 + length opts) =
        udp_frame (g_ipAddress (upd t)) 0xffffffff DHCP_CLIENT_PORT DHCP_SERVER_PORT (of_nat (4 * (60 + length opts)))
          (dhcp_message ci si (g_mac s) opts) \<Longrightarrow>
      sends s s' (rpc_request (g_ramAddr s) RAM_ALLOCATE 0 0 0 # reqs) \<Longrightarrow>
      frame_fate s (frame_addr phy) (fst mac) (mac_lo mac) (ETHERTYPE_IPV4 (cfg s)) (67 + length opts) r reqs \<Longrightarrow> Q s'"
  shows "wp only_blocks Q (andthen (store_words (UDPv4GetTxBodyPtr (frame_addr phy))
      (dhcp_boot_words ci si s1 @ zip [60..<60 + length opts] opts) s1) (\<lambda>t.
      UDPv4SendPacket (frame_addr phy) 0xffffffff DHCP_CLIENT_PORT DHCP_SERVER_PORT (of_nat (4 * (60 + length opts))) (upd t)))"
proof -
  let ?f = "frame_addr phy" and ?n = "of_nat (4 * (60 + length opts)) :: u32"
  note g = alloc_granted [OF alloc phy]
  have n: "unat ?n = 4 * (60 + length opts)" by (rule u32_of_nat_unat_id) (use len in simp)
  have W: "ip_words (unat ?n + 8) = 67 + length opts" unfolding n by (simp add: ip_words_def)
  obtain m where m: "store_words (UDPv4GetTxBodyPtr ?f) (dhcp_boot_words ci si s1 @ zip [60..<60 + length opts] opts) s1 = Inr (s1\<lparr>mem := m\<rparr>)"
    "drop 7 (frame_words m ?f (7 + (60 + length opts))) = dhcp_message ci si (g_mac s) opts"
    using store_payload [OF g(1) _ dhcp_boot_message(1) [of ci si s1 opts], of s1] len g(7) pdu_more [OF g(5)]
    unfolding dhcp_boot_message(2) by auto
  let ?t = "s1\<lparr>mem := m\<rparr>"
  have x: "sends s (upd ?t) [rpc_request (g_ramAddr s) RAM_ALLOCATE 0 0 0]"
    by (rule sends_same_log [OF g(4)]) (simp add: upd)
  have t: "cpu.more ?t = cpu.more s" using g(5) by simp
  note tm = pdu_more [OF t]
  have ok': "arp_ok (g_arpTable (upd ?t)) (g_nextArpSet (upd ?t))" using ok tm by (simp add: upd)
  have fate: "frame_fate (upd ?t) = frame_fate s"
    by (rule frame_fate_hosts) (use tm in \<open>simp_all add: upd\<close>)
  have mm: "mmu (upd ?t) ?f = PAGE_READ_WRITE" by (simp add: upd g(7))
  have c: "cfg (upd ?t) = cfg s" using tm by (simp add: upd)
  have "wp only_blocks Q (UDPv4SendPacket ?f 0xffffffff DHCP_CLIENT_PORT DHCP_SERVER_PORT ?n (upd ?t))"
  proof (rule UDPv4SendPacket_sends [OF g(1) mm _ ok' more [OF t] x], goal_cases)
    case 1
    show ?case using len n by simp
  next
    case (2 s' r reqs)
    note 2 [unfolded W fate c]
    moreover have "max 13 (67 + length opts) = 67 + length opts" by simp
    moreover have "mem (upd ?t) = m" "mmu (upd ?t) = (mmu s)(?f := PAGE_READ_WRITE)" by (simp_all add: upd g(7))
    ultimately show ?case using m(2) by (intro Q [OF t, of s' reqs r]) simp_all
  qed
  then show ?thesis by (simp add: m(1))
qed

lemma upt_60: "[60..<61] = [60 :: nat]" "[60..<66] = [60, 61, 62, 63, 64, 65 :: nat]"
  by (simp_all add: upt_rec)

lemma DHCPSendDiscover_sends:
  assumes alloc: "EthernetAllocateFrame s = Inr (frame_addr phy, s1)" "ram_page phy"
    and ok: "arp_ok (g_arpTable s) (g_nextArpSet s)" and hop: "hop_mac s (next_hop s 0xffffffff) = Some mac"
  shows "wp only_blocks (\<lambda>s'. cpu.more s' = cpu.more (s\<lparr>g_dhcpState := DHCP_STATE_WAIT_FOR_OFFER\<rparr>) \<and>
      mmu s' = (mmu s)(frame_addr phy := PAGE_GUARD) \<and>
      frame_words (mem s') (frame_addr phy) 68 = udp_frame (g_ipAddress s) 0xffffffff DHCP_CLIENT_PORT DHCP_SERVER_PORT 244
        (dhcp_message 0 0 (g_mac s) discover_options) \<and>
      (\<exists>r reqs. sends s s' (rpc_request (g_ramAddr s) RAM_ALLOCATE 0 0 0 # reqs) \<and>
         frame_fate s (frame_addr phy) (fst mac) (mac_lo mac) (ETHERTYPE_IPV4 (cfg s)) 68 r reqs))
    (DHCPSendDiscover s)"
proof -
  let ?upd = "\<lambda>t :: pdu. t\<lparr>g_dhcpState := DHCP_STATE_WAIT_FOR_OFFER\<rparr>"
  have more: "cpu.more (?upd t) = cpu.more (?upd s)" if "cpu.more t = cpu.more s" for t
    using that by (cases t; cases s) (simp add: cpu.defs)
  have hops: "hop_mac (?upd t) (next_hop (?upd t) 0xffffffff) = Some mac" "g_ipAddress t = g_ipAddress s"
    if "cpu.more t = cpu.more s" for t
  proof -
    have "next_hop (?upd t) = next_hop s" "hop_mac (?upd t) = hop_mac s"
      using pdu_more [OF that] by (simp_all add: hop_mac_def next_hop_def fun_eq_iff)
    then show "hop_mac (?upd t) (next_hop (?upd t) 0xffffffff) = Some mac" using hop by (simp only:)
  qed (use pdu_more [OF that] in simp)
  have "wp only_blocks (\<lambda>s'. cpu.more s' = cpu.more (?upd s) \<and> mmu s' = (mmu s)(frame_addr phy := PAGE_GUARD) \<and>
      frame_words (mem s') (frame_addr phy) 68 = udp_frame (g_ipAddress s) 0xffffffff DHCP_CLIENT_PORT DHCP_SERVER_PORT 244
        (dhcp_message 0 0 (g_mac s) discover_options) \<and>
      (\<exists>r reqs. sends s s' (rpc_request (g_ramAddr s) RAM_ALLOCATE 0 0 0 # reqs) \<and>
         frame_fate s (frame_addr phy) (fst mac) (mac_lo mac) (ETHERTYPE_IPV4 (cfg s)) 68 r reqs))
    (andthen (store_words (UDPv4GetTxBodyPtr (frame_addr phy)) (dhcp_boot_words 0 0 s1 @ zip [60..<60 + length discover_options] discover_options) s1)
      (\<lambda>t. UDPv4SendPacket (frame_addr phy) 0xffffffff DHCP_CLIENT_PORT DHCP_SERVER_PORT (of_nat (4 * (60 + length discover_options))) (?upd t)))"
  proof (rule dhcp_send_exact [OF alloc ok, where upd = ?upd and mac = mac], goal_cases)
    case (4 s' t r reqs)
    then show ?case using more [OF 4(1)] hops(2) [OF 4(1)] by (auto simp: discover_options_def)
  qed (use hops(1) in \<open>simp_all add: hosts_def discover_options_def\<close>)
  then show ?thesis
    unfolding DHCPSendDiscover_def alloc(1) using alloc_granted(3) [OF alloc]
    by (simp add: discover_options_def upt_60 Let_def del: wp_simps(3))
qed

lemma DHCPSendRequest_sends:
  assumes alloc: "EthernetAllocateFrame (s\<lparr>g_dhcpState := DHCP_STATE_WAIT_FOR_ACK\<rparr>) = Inr (frame_addr phy, s1)" "ram_page phy"
    and ok: "arp_ok (g_arpTable s) (g_nextArpSet s)"
  shows "wp only_blocks (\<lambda>s'. cpu.more s' = cpu.more (s\<lparr>g_dhcpState := DHCP_STATE_WAIT_FOR_ACK\<rparr>) \<and>
      mmu s' = (mmu s)(frame_addr phy := PAGE_GUARD) \<and>
      frame_words (mem s') (frame_addr phy) 73 = udp_frame 0 0xffffffff DHCP_CLIENT_PORT DHCP_SERVER_PORT 264
        (dhcp_message (g_ipAddress s) (g_dhcpServerAddress s) (g_mac s) (request_options (g_dhcpServerAddress s) (g_ipAddress s))) \<and>
      (\<exists>r reqs. sends s s' (rpc_request (g_ramAddr s) RAM_ALLOCATE 0 0 0 # reqs) \<and>
         frame_fate s (frame_addr phy) 0xffff 0xffffffff (ETHERTYPE_IPV4 (cfg s)) 73 r reqs))
    (DHCPSendRequest s)"
proof -
  let ?s = "s\<lparr>g_dhcpState := DHCP_STATE_WAIT_FOR_ACK\<rparr>" and ?opts = "request_options (g_dhcpServerAddress s) (g_ipAddress s)"
  let ?upd = "\<lambda>t :: pdu. t\<lparr>g_dhcpState := DHCP_STATE_WAIT_FOR_ACK, g_ipAddress := 0\<rparr>"
  have len: "length ?opts = 6" by (simp add: request_options_def)
  have ml: "mac_lo (0xffff, 0xffff, 0xffff) = 0xffffffff" by (simp add: mac_lo_def)
  have more: "hop_mac (?upd t) (next_hop (?upd t) 0xffffffff) = Some (0xffff, 0xffff, 0xffff)" for t
    by (simp add: hop_mac_def next_hop_def)
  have restored: "cpu.more (s'\<lparr>g_ipAddress := g_ipAddress s\<rparr>) = cpu.more ?s" if "cpu.more t = cpu.more ?s" "cpu.more s' = cpu.more (?upd t)" for s' t
    using that by (cases t; cases s; cases s') (simp add: cpu.defs)
  have io: "io s' = io t \<Longrightarrow> sends ?s s' xs \<Longrightarrow> sends s t xs" for s' t xs by (simp add: sends_def)
  have g1: "g_ipAddress s1 = g_ipAddress s" "g_dhcpServerAddress s1 = g_dhcpServerAddress s"
    using pdu_more [OF alloc_granted(5) [OF alloc]] by simp_all
  have w: "wp only_blocks (\<lambda>s'. (\<lambda>s'. cpu.more s' = cpu.more ?s \<and> mmu s' = (mmu s)(frame_addr phy := PAGE_GUARD) \<and>
      frame_words (mem s') (frame_addr phy) 73 = udp_frame 0 0xffffffff DHCP_CLIENT_PORT DHCP_SERVER_PORT 264
        (dhcp_message (g_ipAddress s) (g_dhcpServerAddress s) (g_mac s) ?opts) \<and>
      (\<exists>r reqs. sends s s' (rpc_request (g_ramAddr s) RAM_ALLOCATE 0 0 0 # reqs) \<and>
         frame_fate s (frame_addr phy) 0xffff 0xffffffff (ETHERTYPE_IPV4 (cfg s)) 73 r reqs)) (s'\<lparr>g_ipAddress := g_ipAddress s\<rparr>))
    (andthen (store_words (UDPv4GetTxBodyPtr (frame_addr phy)) (dhcp_boot_words (g_ipAddress s) (g_dhcpServerAddress s) s1 @ zip [60..<60 + length ?opts] ?opts) s1)
      (\<lambda>t. UDPv4SendPacket (frame_addr phy) 0xffffffff DHCP_CLIENT_PORT DHCP_SERVER_PORT (of_nat (4 * (60 + length ?opts))) (?upd t)))"
  proof (rule dhcp_send_exact [OF alloc, where upd = ?upd and mac = "(0xffff, 0xffff, 0xffff)"], goal_cases)
    case (5 s' t r reqs)
    have fate: "frame_fate ?s = frame_fate s" by (rule frame_fate_hosts) (simp_all add: hosts_def)
    have snd: "sends s (s'\<lparr>g_ipAddress := g_ipAddress s\<rparr>) (rpc_request (g_ramAddr s) RAM_ALLOCATE 0 0 0 # reqs)"
      by (rule io [of s']) (use 5(5) in simp_all)
    show ?case
      using 5 restored [OF 5(1,2)] len ml fate snd by auto
  qed (use ok len more in \<open>auto simp: hosts_def\<close>)
  obtain m where st: "store_words (UDPv4GetTxBodyPtr (frame_addr phy))
      (dhcp_boot_words (g_ipAddress s) (g_dhcpServerAddress s) s1 @ zip [60..<60 + length ?opts] ?opts) s1 = Inr (s1\<lparr>mem := m\<rparr>)"
    using store_payload [OF alloc_granted(1) [OF alloc] _ dhcp_boot_message(1) [of "g_ipAddress s" "g_dhcpServerAddress s" s1 ?opts], of s1]
      alloc_granted(7) [OF alloc] len by auto
  show ?thesis
    unfolding DHCPSendRequest_def Let_def alloc(1)
    using alloc_granted(3) [OF alloc] w [unfolded st] st g1
    by (simp add: request_options_def upt_60)
qed

section \<open>Properties\<close>

text \<open>
  The options that a server writes, with padding anywhere, are read back by the loop of \<open>DHCPProcessPacket\<close>:
  the last subnet mask, broadcast address, server address and type, the first router, and the
  host name with its terminator. Names are shorter than 32 octets here: for a longer one
  the code clamps the length that it then skips by, and reads on inside the name. The octet after
  the end marker is read as well, so it has to be readable.
\<close>
lemma dhcp_options_parsed:
  assumes "reads s (packet + 240) (concat (map item_bytes items) @ [DHCP_OPTION_END, x])"
    and "240 + length (concat (map item_bytes items)) < bytelen" and "\<forall>i \<in> set items. item_ok i"
    and "length (g_hostname s) = 32"
  shows "dhcp_parse packet bytelen 240 o' s =
    Inr (fst (fold item_value items (o', g_hostname s)), s\<lparr>g_hostname := snd (fold item_value items (o', g_hostname s))\<rparr>)"
  using dhcp_parse_items [of s packet 240 items x bytelen o'] assms by simp

theorem dhcp_options_parsed_witness:
  "let s = blank_pdu\<lparr>mem := put_list (\<lambda>_. 0) (0x1000 + 240) [53, 1, 2, 0, 1, 4, 255, 255, 255, 0, 255, 0]\<rparr> in
   \<exists>t. dhcp_parse 0x1000 300 240 (dhcp_defaults 7) s = Inr (\<lparr>our_subnet = 0xffffff00, router_ip = 0, bcast_addr = 0,
     message_type = 2, dhcp_server_ip = 7\<rparr>, t)"
proof -
  let ?s = "blank_pdu\<lparr>mem := put_list (\<lambda>_. 0) (0x1000 + 240) [53, 1, 2, 0, 1, 4, 255, 255, 255, 0, 255, 0]\<rparr>"
  let ?items = "[Opt 53 [2], Pad, Opt 1 [255, 255, 255, 0]]"
  have "can_read ?s a" for a by (simp add: can_read_def readable_def bit_word_iff_drop_bit_and)
  then have "reads ?s (0x1000 + 240) (concat (map item_bytes ?items) @ [DHCP_OPTION_END, 0])"
    using holds_put_list [of "[53, 1, 2, 0, 1, 4, 255, 255, 255, 0, 255, 0]" "\<lambda>_. 0" "0x1000 + 240"]
    by (simp add: reads_def spans_all)
  from dhcp_options_parsed [OF this, of 300 "dhcp_defaults 7"] show ?thesis
    by (simp add: Let_def dhcp_defaults_def address_of_def)
qed



text \<open>
  The DHCPREQUEST, in a frame that the RAM controller granted. It names the address and the server of the
  offer in the header and in the options, comes from address 0 and goes to the broadcast address on
  both layers, whatever the ARP cache and the subnet mask are; afterwards the client waits for the
  acknowledgement and its address is what it was.
\<close>
lemma dhcp_request_exact:
  assumes "EthernetAllocateFrame (s\<lparr>g_dhcpState := DHCP_STATE_WAIT_FOR_ACK\<rparr>) = Inr (frame_addr phy, s1)" and "ram_page phy"
    and "arp_ok (g_arpTable s) (g_nextArpSet s)"
  shows "wp only_blocks (\<lambda>s'. cpu.more s' = cpu.more (s\<lparr>g_dhcpState := DHCP_STATE_WAIT_FOR_ACK\<rparr>) \<and>
      mmu s' = (mmu s)(frame_addr phy := PAGE_GUARD) \<and>
      frame_words (mem s') (frame_addr phy) 73 = udp_frame 0 0xffffffff DHCP_CLIENT_PORT DHCP_SERVER_PORT 264
        (dhcp_message (g_ipAddress s) (g_dhcpServerAddress s) (g_mac s) (request_options (g_dhcpServerAddress s) (g_ipAddress s))) \<and>
      (\<exists>r reqs. sends s s' (rpc_request (g_ramAddr s) RAM_ALLOCATE 0 0 0 # reqs) \<and>
         frame_fate s (frame_addr phy) 0xffff 0xffffffff (ETHERTYPE_IPV4 (cfg s)) 73 r reqs))
    (DHCPSendRequest s)"
  by (rule DHCPSendRequest_sends [OF assms])

lemma dhcp_request_exact_witness:
  "let s = blank_pdu\<lparr>inbox := [granted 0x11 0x200], g_ipAddress := 0x0A000001\<rparr> in
   wp only_blocks (\<lambda>s'. g_dhcpState s' = DHCP_STATE_WAIT_FOR_ACK \<and>
      frame_words (mem s') (frame_addr 0x200) 73 = udp_frame 0 0xffffffff 68 67 264
        (dhcp_message 0x0A000001 (g_dhcpServerAddress s) (0x0200, 0, 1) (request_options (g_dhcpServerAddress s) 0x0A000001)))
     (DHCPSendRequest s)"
proof -
  let ?s = "blank_pdu\<lparr>inbox := [granted 0x11 0x200], g_ipAddress := 0x0A000001\<rparr>"
  obtain s1 where s1: "EthernetAllocateFrame (?s\<lparr>g_dhcpState := DHCP_STATE_WAIT_FOR_ACK\<rparr>) = Inr (frame_addr 0x200, s1)"
    by (simp add: EthernetAllocateFrame_def granted_call Let_def)
  have "arp_ok (g_arpTable ?s) (g_nextArpSet ?s)" using blank_pdu_ok(1) by (simp add: pdu_ok_def)
  from dhcp_request_exact [OF s1 _ this] show ?thesis
    by (auto simp: Let_def ram_page_def dest!: pdu_more elim!: wp_mono)
qed

text \<open>
  After the link has come up, the second timer tick sends a DHCPDISCOVER and the client awaits offers. When
  the RAM controller has no page, the client stays where it is, so that every later tick
  tries again; the first tick only counts.
\<close>
lemma dhcp_link_up_discovers:
  assumes "DHCPOnTimer (DHCPOnLinkUp s) = Inr s1"
  shows "cpu.more s1 = cpu.more (s\<lparr>g_dhcpState := DHCP_STATE_LINK_UP_1\<rparr>) \<and> io s1 = io s \<and>
    (\<forall>phy s2. arp_ok (g_arpTable s) (g_nextArpSet s) \<longrightarrow> g_ipAddress s = 0 \<longrightarrow> ram_page phy \<longrightarrow>
       EthernetAllocateFrame s1 = Inr (frame_addr phy, s2) \<longrightarrow>
       wp only_blocks (\<lambda>s'. g_dhcpState s' = DHCP_STATE_WAIT_FOR_OFFER \<and>
           frame_words (mem s') (frame_addr phy) 68 = udp_frame 0 0xffffffff DHCP_CLIENT_PORT DHCP_SERVER_PORT 244
             (dhcp_message 0 0 (g_mac s) discover_options) \<and>
           (\<exists>r reqs. sends s s' (rpc_request (g_ramAddr s) RAM_ALLOCATE 0 0 0 # reqs) \<and>
              frame_fate s (frame_addr phy) 0xffff 0xffffffff (ETHERTYPE_IPV4 (cfg s)) 68 r reqs))
         (DHCPOnTimer s1)) \<and>
    (\<forall>s2. EthernetAllocateFrame s1 = Inr (0, s2) \<longrightarrow> DHCPOnTimer s1 = Inr s2 \<and> g_dhcpState s2 = DHCP_STATE_LINK_UP_1)"
proof -
  have s1: "s1 = s\<lparr>g_dhcpState := DHCP_STATE_LINK_UP_1\<rparr>"
    using assms by (simp add: DHCPOnTimer_def DHCPOnLinkUp_def)
  have io': "sends s1 s' xs = sends s s' xs" for s' xs by (simp add: s1 sends_def)
  have fate: "frame_fate s1 = frame_fate s" by (rule frame_fate_hosts) (simp_all add: s1 hosts_def)
  have d: "DHCPOnTimer s1 = DHCPSendDiscover s1" by (simp add: DHCPOnTimer_def s1)
  have ml: "mac_lo (0xffff, 0xffff, 0xffff) = 0xffffffff" by (simp add: mac_lo_def)
  have sent: "wp only_blocks (\<lambda>s'. g_dhcpState s' = DHCP_STATE_WAIT_FOR_OFFER \<and>
           frame_words (mem s') (frame_addr phy) 68 = udp_frame 0 0xffffffff DHCP_CLIENT_PORT DHCP_SERVER_PORT 244
             (dhcp_message 0 0 (g_mac s) discover_options) \<and>
           (\<exists>r reqs. sends s s' (rpc_request (g_ramAddr s) RAM_ALLOCATE 0 0 0 # reqs) \<and>
              frame_fate s (frame_addr phy) 0xffff 0xffffffff (ETHERTYPE_IPV4 (cfg s)) 68 r reqs)) (DHCPOnTimer s1)"
    if "arp_ok (g_arpTable s) (g_nextArpSet s)" "g_ipAddress s = 0" "ram_page phy"
      "EthernetAllocateFrame s1 = Inr (frame_addr phy, s2)" for phy s2
    unfolding d
    by (rule wp_mono [OF DHCPSendDiscover_sends [OF that(4,3), of "(0xffff, 0xffff, 0xffff)"]])
      (use that in \<open>auto simp: hop_mac_def next_hop_def io' [unfolded s1] fate [unfolded s1] s1 ml dest!: pdu_more\<close>)
  have refused: "DHCPOnTimer s1 = Inr s2 \<and> g_dhcpState s2 = DHCP_STATE_LINK_UP_1" if "EthernetAllocateFrame s1 = Inr (0, s2)" for s2
  proof -
    have "wp only_blocks (\<lambda>(f, s'). cpu.more s' = cpu.more s1) (EthernetAllocateFrame s1)"
      by (rule EthernetAllocateFrame_sends [OF sends_refl]) auto
    then have "cpu.more s2 = cpu.more s1" using that by (simp add: wp_def)
    from pdu_more [OF this] show ?thesis by (simp add: d DHCPSendDiscover_def that) (simp add: s1)
  qed
  show ?thesis using sent refused by (simp add: s1)
qed

theorem dhcp_link_up_discovers_witness:
  "let s = blank_pdu\<lparr>inbox := [granted 0x11 0x200]\<rparr> in \<exists>s1. DHCPOnTimer (DHCPOnLinkUp s) = Inr s1 \<and>
     wp only_blocks (\<lambda>s'. g_dhcpState s' = DHCP_STATE_WAIT_FOR_OFFER) (DHCPOnTimer s1)"
proof -
  let ?s = "blank_pdu\<lparr>inbox := [granted 0x11 0x200]\<rparr>"
  obtain s1 where s1: "DHCPOnTimer (DHCPOnLinkUp ?s) = Inr s1" "s1 = ?s\<lparr>g_dhcpState := DHCP_STATE_LINK_UP_1\<rparr>"
    by (simp add: DHCPOnTimer_def DHCPOnLinkUp_def)
  obtain s2 where s2: "EthernetAllocateFrame s1 = Inr (frame_addr 0x200, s2)"
    by (simp add: EthernetAllocateFrame_def granted_call Let_def s1(2))
  have "arp_ok (g_arpTable ?s) (g_nextArpSet ?s)" using blank_pdu_ok(1) by (simp add: pdu_ok_def)
  moreover have "ram_page 0x200" by (simp add: ram_page_def)
  ultimately show ?thesis
    using dhcp_link_up_discovers [OF s1(1)] s1(1) s2 by (auto simp: Let_def elim!: wp_mono)
qed

end
