(* ===== verification/Pdu_Oid.thy ===== *)
theory Pdu_Oid
  imports Pdu_Dhcp Ber_Spec "HOL-Library.List_Lexorder"
begin

text \<open>
  The object identifiers of \<open>src/PDUFirmware/SNMP.c\<close>: the table of the agent, their comparison and the search. An
  OID received is an array and a length; a row of the table starts with its length, and the prefix
  1.3.6.1 of every row is left out. The comparison is proved to be the lexicographic order, and
  the search to find what a manager is due for GET and for GETNEXT.
\<close>

section \<open>The code\<close>

abbreviation (input) DRAWERSTEAK_PEN :: u16 where "DRAWERSTEAK_PEN \<equiv> 42453"

definition g_oids :: "u16 list list" where
  "g_oids =
    [[5, 2, 1, 1, 1, 0, 0],
     [5, 2, 1, 1, 2, 0, 0],
     [5, 2, 1, 1, 3, 0, 0],
     [5, 2, 1, 1, 5, 0, 0],
     [5, 2, 1, 1, 7, 0, 0],
     [6, 4, 1, DRAWERSTEAK_PEN, 2, 1, 1],
     [6, 4, 1, DRAWERSTEAK_PEN, 2, 1, 2],
     [6, 4, 1, DRAWERSTEAK_PEN, 2, 2, 1],
     [6, 4, 1, DRAWERSTEAK_PEN, 2, 2, 2],
     [6, 4, 1, DRAWERSTEAK_PEN, 2, 2, 3],
     [6, 4, 1, DRAWERSTEAK_PEN, 2, 2, 4],
     [6, 4, 1, DRAWERSTEAK_PEN, 2, 2, 5],
     [6, 4, 1, DRAWERSTEAK_PEN, 2, 2, 6],
     [6, 4, 1, DRAWERSTEAK_PEN, 2, 2, 7],
     [6, 4, 1, DRAWERSTEAK_PEN, 2, 2, 8],
     [6, 4, 1, DRAWERSTEAK_PEN, 2, 2, 9],
     [6, 4, 1, DRAWERSTEAK_PEN, 2, 2, 10],
     [6, 4, 1, DRAWERSTEAK_PEN, 2, 3, 1],
     [6, 4, 1, DRAWERSTEAK_PEN, 2, 3, 2],
     [6, 4, 1, DRAWERSTEAK_PEN, 2, 4, 1],
     [6, 4, 1, DRAWERSTEAK_PEN, 2, 4, 2],
     [6, 4, 1, DRAWERSTEAK_PEN, 2, 4, 3],
     [6, 4, 1, DRAWERSTEAK_PEN, 2, 4, 4],
     [6, 4, 1, DRAWERSTEAK_PEN, 2, 4, 5],
     [6, 4, 1, DRAWERSTEAK_PEN, 2, 4, 6],
     [6, 4, 1, DRAWERSTEAK_PEN, 2, 4, 7],
     [6, 4, 1, DRAWERSTEAK_PEN, 2, 4, 8],
     [6, 4, 1, DRAWERSTEAK_PEN, 2, 4, 9],
     [6, 4, 1, DRAWERSTEAK_PEN, 2, 4, 10],
     [6, 4, 1, DRAWERSTEAK_PEN, 2, 5, 1],
     [6, 4, 1, DRAWERSTEAK_PEN, 2, 5, 2],
     [6, 4, 1, DRAWERSTEAK_PEN, 2, 5, 3],
     [6, 4, 1, DRAWERSTEAK_PEN, 2, 5, 4],
     [6, 4, 1, DRAWERSTEAK_PEN, 2, 5, 5],
     [6, 4, 1, DRAWERSTEAK_PEN, 2, 5, 6],
     [6, 4, 1, DRAWERSTEAK_PEN, 2, 5, 7],
     [6, 4, 1, DRAWERSTEAK_PEN, 2, 5, 8],
     [6, 4, 1, DRAWERSTEAK_PEN, 2, 5, 9],
     [6, 4, 1, DRAWERSTEAK_PEN, 2, 5, 10],
     [6, 4, 1, DRAWERSTEAK_PEN, 2, 6, 1],
     [6, 4, 1, DRAWERSTEAK_PEN, 2, 6, 2],
     [6, 4, 1, DRAWERSTEAK_PEN, 2, 6, 3],
     [6, 4, 1, DRAWERSTEAK_PEN, 2, 6, 4],
     [6, 4, 1, DRAWERSTEAK_PEN, 2, 6, 5],
     [6, 4, 1, DRAWERSTEAK_PEN, 2, 6, 6],
     [6, 4, 1, DRAWERSTEAK_PEN, 2, 6, 7],
     [6, 4, 1, DRAWERSTEAK_PEN, 2, 6, 8],
     [6, 4, 1, DRAWERSTEAK_PEN, 2, 6, 9],
     [6, 4, 1, DRAWERSTEAK_PEN, 2, 6, 10],
     [6, 4, 1, DRAWERSTEAK_PEN, 2, 7, 1]]"

definition g_deviceOid :: "u16 list" where
  "g_deviceOid = [5, 4, 1, DRAWERSTEAK_PEN, 1, 1]"

abbreviation (input) g_oidListSize :: nat where "g_oidListSize \<equiv> 50"
abbreviation (input) g_oidListMax :: nat where "g_oidListMax \<equiv> 49"

datatype oidsearch_results = OID_SEARCH_TOO_LOW | OID_SEARCH_HIT | OID_SEARCH_MISS | OID_SEARCH_TOO_HIGH

text \<open>The endless loop of \<open>SNMPCompareOIDs\<close>, which only the end of one of the arrays could stop otherwise.\<close>

function compare_from :: "nat \<Rightarrow> u32 list \<Rightarrow> u32 \<Rightarrow> u16 list \<Rightarrow> u32 \<Rightarrow> int res" where
  "compare_from i oidA lenA oidB lenB =
     andthen (aget oidA i) (\<lambda>a. andthen (aget oidB i) (\<lambda>b.
     if a > ucast b then Inr 1
     else if a < ucast b then Inr (-1)
     else let eoa = (lenA = of_nat (i + 1)); eob = (lenB = of_nat (i + 1)) in
       if eoa \<and> \<not> eob then Inr (-1)
       else if eob \<and> \<not> eoa then Inr 1
       else if eoa \<and> eob then Inr 0
       else compare_from (i + 1) oidA lenA oidB lenB))"
  by pat_completeness auto
termination
  by (relation "measure (\<lambda>(i, oidA, lenA, oidB, lenB). length oidA - i)") (auto simp: aget_def split: if_splits)

declare compare_from.simps [simp del]

definition SNMPCompareOIDs :: "u32 list \<Rightarrow> u32 \<Rightarrow> u16 list \<Rightarrow> u32 \<Rightarrow> int res" where
  "SNMPCompareOIDs oidA lenA oidB lenB = compare_from 0 oidA lenA oidB lenB"

text \<open>\<open>SNMPCompareOIDs(suboid, sublen, g_oids[i] + 1, g_oids[i][0])\<close>.\<close>

definition compare_row :: "u32 list \<Rightarrow> u32 \<Rightarrow> nat \<Rightarrow> int res" where
  "compare_row suboid sublen i =
     andthen (aget g_oids i) (\<lambda>row. andthen (aget row 0) (\<lambda>n.
     SNMPCompareOIDs suboid sublen (drop 1 row) (ucast n)))"

text \<open>The check of the prefix; \<open>None\<close> lets the search go on.\<close>

fun oid_prefix :: "nat list \<Rightarrow> u32 list \<Rightarrow> u32 \<Rightarrow> (oidsearch_results \<times> u32) option res" where
  "oid_prefix [] oid oidlen = Inr None"
| "oid_prefix (i # ks) oid oidlen =
     andthen (aget oid i) (\<lambda>d. andthen (aget [1, 3, 6, 1 :: u32] i) (\<lambda>p.
     if d > p then Inr (Some (OID_SEARCH_TOO_HIGH, of_nat g_oidListMax))
     else if d < p \<or> oidlen < of_nat (i + 1) then Inr (Some (OID_SEARCH_TOO_LOW, 0))
     else oid_prefix ks oid oidlen))"

fun oid_search :: "nat list \<Rightarrow> u32 list \<Rightarrow> u32 \<Rightarrow> (oidsearch_results \<times> u32) res" where
  "oid_search [] suboid sublen = Inr (OID_SEARCH_TOO_HIGH, of_nat g_oidListMax)"
| "oid_search (i # ks) suboid sublen = andthen (compare_row suboid sublen i) (\<lambda>comp.
     if comp = 0 then Inr (OID_SEARCH_HIT, of_nat i)
     else if comp < 0 then Inr (OID_SEARCH_MISS, of_nat i - 1)
     else oid_search ks suboid sublen)"

definition SNMPFindOID :: "u32 list \<Rightarrow> u32 \<Rightarrow> (oidsearch_results \<times> u32) res" where
  "SNMPFindOID oid oidlen =
     andthen (oid_prefix [0..<4] oid oidlen) (\<lambda>r. case r of Some found \<Rightarrow> Inr found | None \<Rightarrow>
     let suboid = drop 4 oid; sublen = oidlen - 4 in
     andthen (compare_row suboid sublen 0) (\<lambda>c.
     if c < 0 then Inr (OID_SEARCH_TOO_LOW, 0) else
     andthen (compare_row suboid sublen g_oidListMax) (\<lambda>c.
     if c > 0 then Inr (OID_SEARCH_TOO_HIGH, of_nat g_oidListMax) else
     oid_search [0..<g_oidListSize] suboid sublen)))"

text \<open>Which entry a GET or a GETNEXT is answered with: -1 for the end of the list, -2 for an unknown object.\<close>

definition snmp_index :: "bool \<Rightarrow> oidsearch_results \<Rightarrow> u32 \<Rightarrow> int" where
  "snmp_index getnext status oidpos =
     (let index = sint oidpos in
      if getnext then
        if status = OID_SEARCH_TOO_LOW then 0
        else if status = OID_SEARCH_TOO_HIGH \<or> oidpos = of_nat g_oidListMax then -1
        else index + 1
      else if status \<noteq> OID_SEARCH_HIT then -2
      else index)"

section \<open>The order of object identifiers\<close>

lemma compare_from_lex:
  assumes "length ps = length qs" and "xs \<noteq> []" and "ys \<noteq> []"
    and "length ps + length xs < 4294967296" and "length ps + length ys < 4294967296"
  shows "compare_from (length ps) (ps @ xs @ ja) (of_nat (length ps + length xs)) (qs @ ys @ jb) (of_nat (length ps + length ys)) =
    Inr (if xs = map ucast ys then 0 else if xs < map ucast ys then -1 else 1)"
  using assms
proof (induction xs arbitrary: ps qs ys)
  case (Cons x xs)
  obtain y ys' where ys: "ys = y # ys'" using Cons.prems(3) by (cases ys) auto
  have i: "(ps @ (x # xs) @ ja) ! length ps = x" "(qs @ (y # ys') @ jb) ! length ps = y"
    using Cons.prems(1) by (simp_all add: nth_append)
  have l: "length ps < length (ps @ (x # xs) @ ja)" "length ps < length (qs @ (y # ys') @ jb)"
    using Cons.prems(1) by simp_all
  have e: "(of_nat (length ps + length (x # xs)) = (of_nat (length ps + 1) :: u32)) = (xs = [])"
    "(of_nat (length ps + length (y # ys')) = (of_nat (length ps + 1) :: u32)) = (ys' = [])"
    using Cons.prems(4,5) ys of_nat_u32_eq [of "length ps + length (x # xs)" "length ps + 1"]
      of_nat_u32_eq [of "length ps + length (y # ys')" "length ps + 1"] by simp_all
  have rec: "compare_from (length ps + 1) (ps @ (x # xs) @ ja) (of_nat (length ps + length (x # xs)))
      (qs @ (y # ys') @ jb) (of_nat (length ps + length (y # ys'))) =
    Inr (if xs = map ucast ys' then 0 else if xs < map ucast ys' then -1 else 1)" if "xs \<noteq> []" "ys' \<noteq> []"
    using Cons.IH [of "ps @ [x]" "qs @ [y]" ys'] Cons.prems that ys by simp
  have nil: "([] < map ucast ys') = (ys' \<noteq> [])" by (cases ys') simp_all
  show ?case
    unfolding ys by (subst compare_from.simps)
      (use i l e rec nil in \<open>auto simp del: of_nat_add append.simps simp: Let_def\<close>)
qed simp

text \<open>The objects of the agent without and with the prefix that the code leaves out.\<close>

definition subtree :: "u32 list list" where
  "subtree = map (\<lambda>row. map ucast (take (unat (hd row)) (tl row))) g_oids"

definition mib :: "u32 list list" where
  "mib = map ((@) [1, 3, 6, 1]) subtree"

lemma length_g_oids [simp]: "length g_oids = 50" "length subtree = 50" "length mib = 50"
  by (simp_all add: subtree_def mib_def g_oids_def)

lemma rows_ok: "\<forall>row \<in> set g_oids. length row = 7 \<and> (hd row = 5 \<or> hd row = 6)"
  by (simp add: g_oids_def)

lemma subtree_sorted: "sorted_wrt (<) subtree"
  by (simp add: subtree_def g_oids_def)

lemma compare_lex:
  assumes "xs \<noteq> []" and "ys \<noteq> []" and "length xs < 4294967296" and "length ys < 4294967296"
  shows "SNMPCompareOIDs (xs @ ja) (of_nat (length xs)) (ys @ jb) (of_nat (length ys)) =
    Inr (if xs = map ucast ys then 0 else if xs < map ucast ys then -1 else 1)"
  using compare_from_lex [of "[]" "[]" xs ys ja jb] assms by (simp add: SNMPCompareOIDs_def)

lemma compare_row_lex:
  assumes "i < 50" and "xs \<noteq> []" and "length xs < 4294967296"
  shows "compare_row (xs @ ja) (of_nat (length xs)) i =
    Inr (if xs = subtree ! i then 0 else if xs < subtree ! i then -1 else 1)"
proof -
  let ?row = "g_oids ! i" and ?n = "unat (hd (g_oids ! i))"
  have "?row \<in> set g_oids" using assms(1) by simp
  then have r: "length ?row = 7" "hd ?row = 5 \<or> hd ?row = 6" using rows_ok by blast+
  then have n: "?n = 5 \<or> ?n = 6" by auto
  let ?ys = "take ?n (tl ?row)"
  have ys: "length ?ys = ?n" using r n by (auto simp: min_def)
  then have ne: "?ys \<noteq> []" using n by force
  have "aget ?row 0 = Inr (hd ?row)" using r by (cases ?row) simp_all
  moreover have "drop 1 ?row = ?ys @ drop ?n (tl ?row)" by (simp add: drop_Suc)
  moreover have "ucast (hd ?row) = (of_nat (length ?ys) :: u32)" using r(2) ys by auto
  ultimately have "compare_row (xs @ ja) (of_nat (length xs)) i =
      SNMPCompareOIDs (xs @ ja) (of_nat (length xs)) (?ys @ drop ?n (tl ?row)) (of_nat (length ?ys))"
    using assms(1) by (simp add: compare_row_def)
  also have "\<dots> = Inr (if xs = map ucast ?ys then 0 else if xs < map ucast ?ys then -1 else 1)"
    by (rule compare_lex) (use assms ys ne n in auto)
  finally show ?thesis using assms(1) by (simp add: subtree_def)
qed

text \<open>The rank of an OID in the table: how many rows are smaller.\<close>

definition oid_rank :: "u32 list \<Rightarrow> nat" where
  "oid_rank xs = length (filter (\<lambda>row. row < xs) subtree)"

lemma sorted_rank:
  fixes x :: "'a :: linorder"
  assumes "sorted_wrt (<) ys" and "i < length ys"
  shows "ys ! i < x \<longleftrightarrow> i < length (filter (\<lambda>y. y < x) ys)"
  using assms
proof (induction ys arbitrary: i)
  case (Cons y ys)
  show ?case
  proof (cases "y < x")
    case True
    then show ?thesis using Cons by (cases i) simp_all
  next
    case False
    then have "filter (\<lambda>y. y < x) ys = []" "\<not> (y # ys) ! i < x"
      using Cons.prems by (auto simp: filter_empty_conv nth_Cons split: nat.splits dest!: nth_mem)
    then show ?thesis using False by simp
  qed
qed simp

lemma rank_less: "i < 50 \<Longrightarrow> subtree ! i < xs \<longleftrightarrow> i < oid_rank xs"
  using sorted_rank [OF subtree_sorted, of i xs] by (simp add: oid_rank_def)

lemma rank_le: "oid_rank xs \<le> 50"
  using length_filter_le [of "\<lambda>row. row < xs" subtree] by (simp add: oid_rank_def)

lemma rank_eq: "i < 50 \<Longrightarrow> subtree ! i = xs \<longleftrightarrow> oid_rank xs < 50 \<and> i = oid_rank xs \<and> subtree ! oid_rank xs = xs"
proof
  assume i: "i < 50" and e: "subtree ! i = xs"
  have "\<not> i < oid_rank xs" using rank_less [OF i, of xs] e by simp
  moreover have "\<not> oid_rank xs < i"
  proof
    assume l: "oid_rank xs < i"
    then have "subtree ! oid_rank xs < subtree ! i" using sorted_wrt_nth_less [OF subtree_sorted] i by simp
    then show False using rank_less [of "oid_rank xs" xs] l i e by simp
  qed
  ultimately have "i = oid_rank xs" by simp
  then show "oid_rank xs < 50 \<and> i = oid_rank xs \<and> subtree ! oid_rank xs = xs" using i e by simp
qed auto

lemma oid_search_rank:
  assumes "xs \<noteq> []" and "length xs < 4294967296" and "i \<le> oid_rank xs"
  shows "oid_search [i..<50] (xs @ ja) (of_nat (length xs)) =
    Inr (if oid_rank xs = 50 then (OID_SEARCH_TOO_HIGH, 49)
         else if subtree ! oid_rank xs = xs then (OID_SEARCH_HIT, of_nat (oid_rank xs))
         else (OID_SEARCH_MISS, of_nat (oid_rank xs) - 1))"
  using assms(3)
proof (induction "50 - i" arbitrary: i)
  case 0
  then show ?case using rank_le [of xs] by simp
next
  case (Suc n)
  then have i: "i < 50" "[i..<50] = i # [Suc i..<50]" by (simp_all add: upt_conv_Cons)
  note c = compare_row_lex [OF i(1) assms(1,2), of ja] and r = rank_less [OF i(1), of xs] rank_eq [OF i(1), of xs]
  show ?case
  proof (cases "i < oid_rank xs")
    case True
    then show ?thesis using Suc i c r by auto
  next
    case False
    then have "i = oid_rank xs" using Suc.prems by simp
    then show ?thesis using i c r by auto
  qed
qed

section \<open>The search\<close>

text \<open>What a manager is due: the index of the object itself, or of the first object after it.\<close>

definition mib_get :: "u32 list \<Rightarrow> int" where
  "mib_get oid = (case find (\<lambda>i. mib ! i = oid) [0..<50] of Some i \<Rightarrow> int i | None \<Rightarrow> -2)"

definition mib_next :: "u32 list \<Rightarrow> int" where
  "mib_next oid = (case find (\<lambda>i. oid < mib ! i) [0..<50] of Some i \<Rightarrow> int i | None \<Rightarrow> -1)"

lemma find_upt_unique: "k < n \<Longrightarrow> P k \<Longrightarrow> (\<And>i. i < k \<Longrightarrow> \<not> P i) \<Longrightarrow> find P [0..<n] = Some k"
  unfolding find_Some_iff by (intro exI [of _ k]) simp

lemma append_less_iff:
  fixes p q :: "'a :: linorder list"
  shows "length p = length q \<Longrightarrow> p @ xs < q @ ys \<longleftrightarrow> p < q \<or> p = q \<and> xs < ys"
  by (induction p q rule: list_induct2) auto

lemma oid_prefix_spec:
  assumes "length p = 4" and "4 \<le> oidlen"
  shows "oid_prefix [0..<4] (p @ rest) oidlen =
    Inr (if p = [1, 3, 6, 1] then None else if p < [1, 3, 6, 1] then Some (OID_SEARCH_TOO_LOW, 0)
      else Some (OID_SEARCH_TOO_HIGH, 49))"
proof -
  obtain a b c d where p: "p = [a, b, c, d]"
    using assms(1) by (auto simp: numeral_eq_Suc length_Suc_conv)
  have u: "[0..<4] = [0, 1, 2, 3 :: nat]" by (simp add: upt_rec numeral_eq_Suc)
  have lo: "\<not> oidlen < 1" "\<not> oidlen < 2" "\<not> oidlen < 3" "\<not> oidlen < 4"
    using assms(2) by (auto simp: not_less word_le_nat_alt)
  show ?thesis
    unfolding u p
    by (rule linorder_cases [of a 1]; rule linorder_cases [of b 3]; rule linorder_cases [of c 6]; rule linorder_cases [of d 1])
      (use lo in \<open>auto simp: aget_def\<close>)
qed

lemma mib_nth: "i < 50 \<Longrightarrow> mib ! i = [1, 3, 6, 1] @ subtree ! i"
  by (simp add: mib_def)

lemma sint_index: "k < 100 \<Longrightarrow> sint (of_nat k :: u32) = int k"
  by (simp add: signed_of_nat signed_take_bit_int_eq_self)

lemma SNMPFindOID_rank:
  assumes "xs \<noteq> []" and "length xs < 1000"
  shows "SNMPFindOID (([1, 3, 6, 1] @ xs) @ ja) (of_nat (4 + length xs)) =
    Inr (if oid_rank xs = 0 \<and> subtree ! 0 \<noteq> xs then (OID_SEARCH_TOO_LOW, 0)
         else if oid_rank xs = 50 then (OID_SEARCH_TOO_HIGH, 49)
         else if subtree ! oid_rank xs = xs then (OID_SEARCH_HIT, of_nat (oid_rank xs))
         else (OID_SEARCH_MISS, of_nat (oid_rank xs) - 1))"
proof -
  let ?n = "of_nat (length xs) :: u32"
  have "unat (of_nat (4 + length xs) :: u32) = 4 + length xs" by (rule u32_of_nat_unat_id) (use assms in simp)
  then have "4 \<le> (of_nat (4 + length xs) :: u32)" by (simp add: word_le_nat_alt del: of_nat_add)
  then have pre: "oid_prefix [0..<4] ([1, 3, 6, 1] @ xs @ ja) (of_nat (4 + length xs)) = Inr None"
    using oid_prefix_spec [of "[1, 3, 6, 1]" "of_nat (4 + length xs)" "xs @ ja"] by simp
  have ends: "xs < subtree ! 0 \<longleftrightarrow> oid_rank xs = 0 \<and> subtree ! 0 \<noteq> xs"
    "subtree ! 49 < xs \<longleftrightarrow> oid_rank xs = 50"
    using rank_less [of 0 xs] rank_less [of 49 xs] rank_le [of xs] by (auto simp: not_less)
  obtain c where c: "compare_row (xs @ ja) ?n 0 = Inr c" "c < 0 \<longleftrightarrow> oid_rank xs = 0 \<and> subtree ! 0 \<noteq> xs"
    using compare_row_lex [of 0 xs ja] assms ends(1) by auto
  have "oid_rank xs = 50 \<Longrightarrow> xs \<noteq> subtree ! 49" using rank_eq [of 49 xs] by auto
  then obtain d where d: "compare_row (xs @ ja) ?n 49 = Inr d" "0 < d \<longleftrightarrow> oid_rank xs = 50"
    using compare_row_lex [of 49 xs ja] assms ends(2) by (auto split: if_splits)
  have s: "oid_search [0..<50] (xs @ ja) ?n = Inr (if oid_rank xs = 50 then (OID_SEARCH_TOO_HIGH, 49)
         else if subtree ! oid_rank xs = xs then (OID_SEARCH_HIT, of_nat (oid_rank xs))
         else (OID_SEARCH_MISS, of_nat (oid_rank xs) - 1))"
    using oid_search_rank [of xs 0 ja] assms by simp
  show ?thesis
    using pre by (simp add: SNMPFindOID_def Let_def c d s del: upt.simps)
qed

text \<open>Both answers in terms of the rank.\<close>

lemma mib_rank:
  "mib_get ([1, 3, 6, 1] @ xs) = (if oid_rank xs < 50 \<and> subtree ! oid_rank xs = xs then int (oid_rank xs) else -2)"
  "mib_next ([1, 3, 6, 1] @ xs) = (let k = (if oid_rank xs < 50 \<and> subtree ! oid_rank xs = xs then oid_rank xs + 1 else oid_rank xs)
     in if k < 50 then int k else -1)"
proof -
  let ?r = "oid_rank xs"
  show "mib_get ([1, 3, 6, 1] @ xs) = (if ?r < 50 \<and> subtree ! ?r = xs then int ?r else -2)"
  proof (cases "?r < 50 \<and> subtree ! ?r = xs")
    case True
    have "find (\<lambda>i. mib ! i = [1, 3, 6, 1] @ xs) [0..<50] = Some ?r"
    proof (rule find_upt_unique)
      fix i assume "i < ?r"
      then show "mib ! i \<noteq> [1, 3, 6, 1] @ xs" using True rank_eq [of i xs] mib_nth [of i] by simp
    qed (use True mib_nth [of ?r] in simp_all)
    then show ?thesis using True by (simp add: mib_get_def)
  next
    case False
    have "mib ! i \<noteq> [1, 3, 6, 1] @ xs" if "i < 50" for i using rank_eq [OF that, of xs] mib_nth [OF that] False by auto
    then have "find (\<lambda>i. mib ! i = [1, 3, 6, 1] @ xs) [0..<50] = None" by (simp add: find_None_iff)
    then show ?thesis using False by (simp add: mib_get_def)
  qed
  define k where "k = (if ?r < 50 \<and> subtree ! ?r = xs then ?r + 1 else ?r)"
  have above: "[1, 3, 6, 1] @ xs < mib ! i \<longleftrightarrow> k \<le> i" if "i < 50" for i
  proof -
    have "[1, 3, 6, 1] @ xs < mib ! i \<longleftrightarrow> xs < subtree ! i" using mib_nth [OF that] by simp
    also have "\<dots> \<longleftrightarrow> \<not> subtree ! i < xs \<and> subtree ! i \<noteq> xs" by auto
    also have "\<dots> \<longleftrightarrow> k \<le> i" unfolding rank_less [OF that] rank_eq [OF that] using that by (auto simp: k_def)
    finally show ?thesis .
  qed
  have "find (\<lambda>i. [1, 3, 6, 1] @ xs < mib ! i) [0..<50] = (if k < 50 then Some k else None)"
  proof (cases "k < 50")
    case True
    then have "find (\<lambda>i. [1, 3, 6, 1] @ xs < mib ! i) [0..<50] = Some k"
      using above by (intro find_upt_unique) simp_all
    then show ?thesis using True by simp
  next
    case False
    then show ?thesis using above by (auto simp: find_None_iff)
  qed
  then show "mib_next ([1, 3, 6, 1] @ xs) = (let k = (if ?r < 50 \<and> subtree ! ?r = xs then ?r + 1 else ?r)
     in if k < 50 then int k else -1)"
    unfolding mib_next_def Let_def k_def [symmetric] by simp
qed

lemma snmp_lookup:
  assumes "5 \<le> length oid" and "length oid < 1000"
  shows "\<exists>st pos. SNMPFindOID (oid @ junk) (of_nat (length oid)) = Inr (st, pos) \<and>
    snmp_index False st pos = mib_get oid \<and> snmp_index True st pos = mib_next oid"
proof -
  define p where "p = take 4 oid"
  define xs where "xs = drop 4 oid"
  have oid: "oid = p @ xs" and p4: "length p = 4" and xs: "xs \<noteq> []" "length xs < 1000" "length oid = 4 + length xs"
    using assms by (auto simp: p_def xs_def)
  have p40: "(4 :: u32) \<le> of_nat (length oid)"
    using assms u32_of_nat_unat_id [of "length oid"] by (simp add: word_le_nat_alt)
  show ?thesis
  proof (cases "p = [1, 3, 6, 1]")
    case True
    let ?r = "oid_rank xs"
    have r: "?r \<le> 50" by (rule rank_le)
    have "of_nat ?r - 1 = (of_nat (?r - 1) :: u32)" if "0 < ?r" using that by (cases ?r) simp_all
    moreover have "sint (of_nat (?r - 1) :: u32) = int ?r - 1" if "0 < ?r"
      using sint_index [of "?r - 1"] that r by (simp add: of_nat_diff)
    moreover have "sint (of_nat ?r :: u32) = int ?r" by (rule sint_index) (use r in simp)
    moreover have "(of_nat ?r :: u32) = 49 \<longleftrightarrow> ?r = 49" "(of_nat (?r - 1) :: u32) = 49 \<longleftrightarrow> ?r - 1 = 49"
      using of_nat_u32_eq [of ?r 49] of_nat_u32_eq [of "?r - 1" 49] r by simp_all
    note num = calculation this
    have o': "[1, 3, 6, 1] @ xs = oid" using oid True by simp
    note F = SNMPFindOID_rank [OF xs(1,2), of junk, unfolded o', folded xs(3)] and M = mib_rank [of xs, unfolded o']
    consider "?r = 0" "subtree ! 0 \<noteq> xs" | "?r = 50" | "?r < 50" "subtree ! ?r = xs" | "0 < ?r" "?r < 50" "subtree ! ?r \<noteq> xs"
      using r by (cases "?r = 50"; cases "?r = 0"; cases "subtree ! ?r = xs") auto
    then show ?thesis
      using num by cases (cases "?r = 0"; simp add: F M snmp_index_def Let_def)+
  next
    case False
    have mib: "oid < mib ! i \<longleftrightarrow> p < [1, 3, 6, 1]" "mib ! i \<noteq> oid" if "i < 50" for i
      using mib_nth [OF that] append_less_iff [of p "[1, 3, 6, 1]" xs "subtree ! i"]
        append_eq_append_conv [of p "[1, 3, 6, 1]" xs "subtree ! i"] False p4 oid by auto
    have "mib_get oid = -2" using mib(2) by (simp add: mib_get_def find_None_iff split: option.split)
    moreover have "mib_next oid = (if p < [1, 3, 6, 1] then 0 else -1)"
    proof (cases "p < [1, 3, 6, 1]")
      case True
      then have "find (\<lambda>i. oid < mib ! i) [0..<50] = Some 0" using mib(1) by (intro find_upt_unique) simp_all
      then show ?thesis using True by (simp add: mib_next_def)
    next
      case False
      then have "find (\<lambda>i. oid < mib ! i) [0..<50] = None" using mib(1) by (simp add: find_None_iff)
      then show ?thesis using False by (simp add: mib_next_def)
    qed
    ultimately show ?thesis
      using oid_prefix_spec [OF p4 p40, of "xs @ junk", folded append_assoc, folded oid] False
      by (simp add: SNMPFindOID_def snmp_index_def Let_def oid [symmetric] del: upt.simps)
  qed
qed

text \<open>
  A manager that walks the agent: it asks for the next object again and again, each time with the
  object it was given, until it is told that there is none.
\<close>

fun snmp_walk :: "nat \<Rightarrow> u32 list \<Rightarrow> int list res" where
  "snmp_walk 0 oid = Inr []"
| "snmp_walk (Suc n) oid =
     andthen (SNMPFindOID (oid @ replicate (24 - length oid) 0) (of_nat (length oid))) (\<lambda>(status, oidpos).
     let index = snmp_index True status oidpos in
     if index < 0 then Inr [index]
     else andthen (snmp_walk n (mib ! nat index)) (\<lambda>rest. Inr (index # rest)))"

lemma mib_sorted: "sorted_wrt (<) mib"
proof -
  have "([1, 3, 6, 1] @ xs < [1, 3, 6, 1] @ ys) = (xs < ys)" for xs ys :: "u32 list" by simp
  then show ?thesis using subtree_sorted unfolding mib_def sorted_wrt_map by simp
qed

lemma mib_lengths: "i < 50 \<Longrightarrow> length (mib ! i) = 9 \<or> length (mib ! i) = 10"
proof -
  assume i: "i < 50"
  then have "g_oids ! i \<in> set g_oids" by simp
  then have "length (g_oids ! i) = 7" "hd (g_oids ! i) = 5 \<or> hd (g_oids ! i) = 6" using rows_ok by blast+
  then show ?thesis using i mib_nth [OF i] by (auto simp: subtree_def)
qed

lemma mib_next_row: "i < 50 \<Longrightarrow> mib_next (mib ! i) = (if i < 49 then int i + 1 else -1)"
  using mib_rank(2) [of "subtree ! i"] mib_nth [of i] rank_eq [of i "subtree ! i"] by (auto simp: Let_def)

lemma walk_from:
  assumes "mib_next oid = int k" and "k < 50" and "5 \<le> length oid" and "length oid < 1000" and "50 - k < n"
  shows "snmp_walk n oid = Inr (map int [k..<50] @ [-1])"
  using assms
proof (induction n arbitrary: oid k)
  case (Suc n)
  obtain st pos where f: "SNMPFindOID (oid @ replicate (24 - length oid) 0) (of_nat (length oid)) = Inr (st, pos)"
    "snmp_index True st pos = int k"
    using snmp_lookup [of oid "replicate (24 - length oid) 0"] Suc.prems by auto
  have len: "5 \<le> length (mib ! k)" "length (mib ! k) < 1000" using mib_lengths [OF Suc.prems(2)] by auto
  have up: "[k..<50] = k # [Suc k..<50]" using Suc.prems(2) by (simp add: upt_conv_Cons)
  have "snmp_walk n (mib ! k) = Inr (map int [Suc k..<50] @ [-1])"
  proof (cases "k = 49")
    case True
    obtain m where n: "n = Suc m" using Suc.prems(5) True by (cases n) auto
    have "mib_next (mib ! k) = -1" using mib_next_row [of k] True by simp
    then show ?thesis
      using snmp_lookup [OF len, of "replicate (24 - length (mib ! k)) 0"] True by (auto simp: n Let_def)
  next
    case False
    then have "mib_next (mib ! k) = int (Suc k)" using mib_next_row [of k] Suc.prems(2) by simp
    then show ?thesis using Suc.IH [of "mib ! k" "Suc k"] Suc.prems False len by simp
  qed
  then show ?case using f up by (simp add: Let_def)
qed simp

section \<open>Properties\<close>

text \<open>
  the table of the agent. It has 50 rows of 7 numbers; the first number of a row counts those that follow
  and is 5 or 6; read as identifiers the rows are strictly increasing, as the comment asks; and the enum
  \<open>oid_names\<close> names the rows it should: temperatures, currents, voltages, power switches, limits and inrush
  timers stand at its indices, each with its channel as the last number.
\<close>
lemma oid_table_wellformed:
  "map length g_oids = replicate 50 7 \<and> map hd g_oids = replicate 5 5 @ replicate 45 6 \<and> sorted_wrt (<) mib \<and>
   mib = map (\<lambda>n. [1, 3, 6, 1, 2, 1, 1, n, 0]) [1, 2, 3, 5, 7] @
     concat (map (\<lambda>(group, count). map (\<lambda>n. [1, 3, 6, 1, 4, 1, ucast DRAWERSTEAK_PEN, 2, group, of_nat n]) [1..<count + 1])
       [(1, 2), (2, 10), (3, 2), (4, 10), (5, 10), (6, 10), (7, 1)])"
proof (intro conjI)
  show "map length g_oids = replicate 50 7" "map hd g_oids = replicate 5 5 @ replicate 45 6"
    by (simp_all add: g_oids_def numeral_eq_Suc)
  show "sorted_wrt (<) mib" by (rule mib_sorted)
  show "mib = map (\<lambda>n. [1, 3, 6, 1, 2, 1, 1, n, 0]) [1, 2, 3, 5, 7] @
     concat (map (\<lambda>(group, count). map (\<lambda>n. [1, 3, 6, 1, 4, 1, ucast DRAWERSTEAK_PEN, 2, group, of_nat n]) [1..<count + 1])
       [(1, 2), (2, 10), (3, 2), (4, 10), (5, 10), (6, 10), (7, 1)])"
    by (simp add: mib_def subtree_def g_oids_def upt_rec)
qed

text \<open>
  \<open>SNMPCompareOIDs\<close> decides the lexicographic order of identifiers, a proper prefix being smaller, for arrays of
  any size that hold at least one number each; it never looks beyond them.
\<close>
lemma oid_compare_lexicographic:
  assumes "xs \<noteq> []" and "ys \<noteq> []" and "length xs < 4294967296" and "length ys < 4294967296"
  shows "SNMPCompareOIDs (xs @ more_a) (of_nat (length xs)) (ys @ more_b) (of_nat (length ys)) =
    Inr (if xs = map ucast ys then 0 else if xs < map ucast ys then -1 else 1)"
  by (rule compare_lex [OF assms])

theorem oid_compare_lexicographic_witness:
  "SNMPCompareOIDs [1, 5] (of_nat 2) [1, 5, 9] (of_nat 3) = Inr (-1)"
  using oid_compare_lexicographic [of "[1, 5]" "[1, 5, 9]" "[]" "[]"] by simp

text \<open>
  C19: what a request for an identifier of at least five numbers is answered with, whatever the rest of its buffer
  holds. GET: the index of exactly this object, or -2; GETNEXT: the first object of the table
  that is greater, in or out of 1.3.6.1, or -1 when there is none.
\<close>
theorem snmp_lookup_exact:
  assumes "5 \<le> length oid" and "length oid < 1000"
  shows "\<exists>st pos. SNMPFindOID (oid @ junk) (of_nat (length oid)) = Inr (st, pos) \<and>
    snmp_index False st pos = mib_get oid \<and> snmp_index True st pos = mib_next oid"
  by (rule snmp_lookup [OF assms])

theorem snmp_lookup_exact_witness:
  "\<exists>st pos. SNMPFindOID [1, 3, 6, 1, 2, 1, 1, 4] (of_nat 8) = Inr (st, pos) \<and>
     snmp_index False st pos = mib_get [1, 3, 6, 1, 2, 1, 1, 4] \<and> snmp_index True st pos = mib_next [1, 3, 6, 1, 2, 1, 1, 4]"
  using snmp_lookup_exact [of "[1, 3, 6, 1, 2, 1, 1, 4]" "[]"] by simp

text \<open>
  C20: a walk ends. Started at any identifier of at least five numbers it visits every greater object of the
  table once, in order, and is then told that the list has ended, after at most 51 requests.
\<close>
theorem snmp_walk_terminates:
  assumes "5 \<le> length oid" and "length oid < 1000"
  shows "\<exists>k \<le> 50. (\<forall>i < 50. k \<le> i \<longleftrightarrow> oid < mib ! i) \<and> snmp_walk 51 oid = Inr (map int [k..<50] @ [-1])"
proof (cases "find (\<lambda>i. oid < mib ! i) [0..<50]")
  case None
  then have n: "\<forall>i < 50. \<not> oid < mib ! i" "mib_next oid = -1"
    by (simp add: find_None_iff, simp add: mib_next_def)
  have "snmp_walk 51 oid = Inr [-1]"
    using snmp_lookup [OF assms, of "replicate (24 - length oid) 0"] n(2) by (auto simp: eval_nat_numeral Let_def)
  then show ?thesis using n(1) by (intro exI [of _ 50]) simp
next
  case (Some k)
  then have k: "k < 50" "oid < mib ! k" "\<And>i. i < k \<Longrightarrow> \<not> oid < mib ! i" "mib_next oid = int k"
    by (auto simp: find_Some_iff, simp add: mib_next_def)
  have "oid < mib ! i" if "k \<le> i" "i < 50" for i
    using k(2) that sorted_wrt_nth_less [OF mib_sorted, of k i]
    by (cases "i = k") auto
  then have "\<forall>i < 50. k \<le> i \<longleftrightarrow> oid < mib ! i" using k(3) not_less by blast
  then show ?thesis using walk_from [OF k(4,1) assms, of 51] k(1) by (intro exI [of _ k]) simp
qed

theorem snmp_walk_terminates_witness:
  "\<exists>k \<le> 50. snmp_walk 51 [1, 3, 6, 1, 2] = Inr (map int [k..<50] @ [-1])"
  using snmp_walk_terminates [of "[1, 3, 6, 1, 2]"] by auto

end
