(* ===== verification/Pdu_Snmp.thy ===== *)
theory Pdu_Snmp
  imports Pdu_Oid
begin

text \<open>
  \<open>src/PDUFirmware/SNMP.c\<close>: the requests of the SNMP agent, from the packet to the response. A buffer on
  the stack that the code does not initialise holds what \<open>cfg\<close> says; the outputs of a search are only used when
  it succeeds. A \<open>case\<close> list with consecutive labels is written as a range.
\<close>

section \<open>Names of the objects\<close>

abbreviation (input) OID_SOFTWARE_VERSION :: int where "OID_SOFTWARE_VERSION \<equiv> 0"
abbreviation (input) OID_DEVICE_OID :: int where "OID_DEVICE_OID \<equiv> 1"
abbreviation (input) OID_UPTIME :: int where "OID_UPTIME \<equiv> 2"
abbreviation (input) OID_HOSTNAME :: int where "OID_HOSTNAME \<equiv> 3"
abbreviation (input) OID_SERVICES :: int where "OID_SERVICES \<equiv> 4"
abbreviation (input) OID_TEMP0 :: int where "OID_TEMP0 \<equiv> 5"
abbreviation (input) OID_TEMP1 :: int where "OID_TEMP1 \<equiv> 6"
abbreviation (input) OID_CUR0 :: int where "OID_CUR0 \<equiv> 7"
abbreviation (input) OID_CUR9 :: int where "OID_CUR9 \<equiv> 16"
abbreviation (input) OID_VOLT0 :: int where "OID_VOLT0 \<equiv> 17"
abbreviation (input) OID_VOLT1 :: int where "OID_VOLT1 \<equiv> 18"
abbreviation (input) OID_PWR0 :: int where "OID_PWR0 \<equiv> 19"
abbreviation (input) OID_PWR9 :: int where "OID_PWR9 \<equiv> 28"
abbreviation (input) OID_LIMIT0 :: int where "OID_LIMIT0 \<equiv> 29"
abbreviation (input) OID_LIMIT9 :: int where "OID_LIMIT9 \<equiv> 38"
abbreviation (input) OID_INRUSH0 :: int where "OID_INRUSH0 \<equiv> 39"
abbreviation (input) OID_INRUSH9 :: int where "OID_INRUSH9 \<equiv> 48"
abbreviation (input) OID_VNOM :: int where "OID_VNOM \<equiv> 49"

abbreviation (input) SNMP_VERSION_2C :: u32 where "SNMP_VERSION_2C \<equiv> 1"
abbreviation (input) SNMP_AGENT_PORT :: u16 where "SNMP_AGENT_PORT \<equiv> 161"

definition g_communityString :: "u8 list" where
  "g_communityString = cstr ''public''"

text \<open>The version string, with the date and the time of the compilation in its middle.\<close>

definition software_version :: "pdu_cfg \<Rightarrow> u8 list" where
  "software_version c =
     map of_char ''5V/12V managed power distribution unit (firmware compiled '' @ build_time c @
     cstr (CHR '')'' # CHR 0x0A # CHR 0x0A #
       ''License: 3-clause ('' @ CHR 0x22 # ''new'' @ CHR 0x22 # '' or '' @ CHR 0x22 # ''modified'' @ CHR 0x22 # '') BSD.'' @ CHR 0x0A #
       ''This is open hardware: you are free to change, clone, or redistribute it.'' @ CHR 0x0A #
       ''There is NO WARRANTY, to the extent permitted by law.'' @ CHR 0x0A # CHR 0x0A #
       ''PCB design files: http://tinyurl.com/azboard005'' @ CHR 0x0A #
       ''Firmware source: TODO'' @ CHR 0x0A #
       ''Firmware source: http://redmine.drawersteak.com/projects/achd-soc/repository/show/trunk/src/PDUFirmware'')"

section \<open>Responses\<close>

definition SNMPInitialize :: "pdu \<Rightarrow> pdu" where
  "SNMPInitialize s = s"

definition SNMPGenerateGetPacketBody :: "u32 \<Rightarrow> u32 \<Rightarrow> int \<Rightarrow> pdu \<Rightarrow> (u32 \<times> pdu) res" where
  "SNMPGenerateGetPacketBody message startpos oid_index s =
     (if oid_index < 0 then
        if oid_index = -2 then
          andthen (emit message startpos ASN1_TYPE_SNMP_NO_SUCH_OBJECT s) (\<lambda>(startpos, s). emit message startpos 0 s)
        else
          andthen (emit message startpos ASN1_TYPE_SNMP_END_OF_MIB s) (\<lambda>(startpos, s). emit message startpos 0 s)
      else if oid_index = OID_SOFTWARE_VERSION then BEREncodeString message startpos (software_version (cfg s)) s
      else if oid_index = OID_DEVICE_OID then BEREncodeOID message startpos g_deviceOid s
      else if oid_index = OID_UPTIME then BEREncodeInteger message startpos (g_uptime s * 100 div TIMER_HZ) s
      else if oid_index = OID_HOSTNAME then BEREncodeString message startpos (g_hostname s) s
      else if oid_index = OID_SERVICES then BEREncodeInteger message startpos 0x48 s
      else if OID_TEMP0 \<le> oid_index \<and> oid_index \<le> OID_TEMP1 then
        andthen (GetTemperature (of_int (oid_index - OID_TEMP0)) s) (\<lambda>(v, s). BEREncodeInteger message startpos v s)
      else if OID_CUR0 \<le> oid_index \<and> oid_index \<le> OID_CUR9 then
        andthen (GetCurrent (of_int (oid_index - OID_CUR0)) s) (\<lambda>(v, s). BEREncodeInteger message startpos v s)
      else if OID_VOLT0 \<le> oid_index \<and> oid_index \<le> OID_VOLT1 then
        andthen (GetVoltage (of_int (oid_index - OID_VOLT0)) s) (\<lambda>(v, s). BEREncodeInteger message startpos v s)
      else if OID_PWR0 \<le> oid_index \<and> oid_index \<le> OID_PWR9 then
        andthen (OutputGetStatus (of_int (oid_index - OID_PWR0)) s) (\<lambda>(v, s). BEREncodeInteger message startpos v s)
      else if OID_LIMIT0 \<le> oid_index \<and> oid_index \<le> OID_LIMIT9 then
        andthen (aget (g_currentLimits s) (nat (oid_index - OID_LIMIT0))) (\<lambda>v. BEREncodeInteger message startpos v s)
      else if OID_INRUSH0 \<le> oid_index \<and> oid_index \<le> OID_INRUSH9 then
        andthen (aget (g_inrushTimers s) (nat (oid_index - OID_INRUSH0))) (\<lambda>v. BEREncodeInteger message startpos v s)
      else if oid_index = OID_VNOM then BEREncodeInteger message startpos (g_vnom s) s
      else BEREncodeInteger message startpos 42 s)"

definition SNMPSendGetResponse :: "u32 \<Rightarrow> u32 \<Rightarrow> u32 \<Rightarrow> int \<Rightarrow> pdu \<Rightarrow> pdu res" where
  "SNMPSendGetResponse srcip srcport request_id oid_index s =
     andthen (EthernetAllocateFrame s) (\<lambda>(frame, s).
     if frame = 0 then Inr s else
     let body = UDPv4GetTxBodyPtr frame; packlen = 0 in
     andthen (aget g_oids (if oid_index < 0 then g_oidListMax else nat oid_index)) (\<lambda>oid_entry.
     andthen (BEREncodeSequenceHeader body packlen (ucast ASN1_TYPE_SEQUENCE_CONSTRUCTED) s) (\<lambda>(packlen, packet_len_ptr, s).
     andthen (BEREncodeInteger body packlen SNMP_VERSION_2C s) (\<lambda>(packlen, s).
     andthen (BEREncodeString body packlen g_communityString s) (\<lambda>(packlen, s).
     andthen (BEREncodeSequenceHeader body packlen ASN1_TYPE_SNMP_GETRESPONSE s) (\<lambda>(packlen, body_len_ptr, s).
     andthen (BEREncodeInteger body packlen request_id s) (\<lambda>(packlen, s).
     andthen (BEREncodeInteger body packlen 0 s) (\<lambda>(packlen, s).
     andthen (BEREncodeInteger body packlen 0 s) (\<lambda>(packlen, s).
     andthen (BEREncodeSequenceHeader body packlen (ucast ASN1_TYPE_SEQUENCE_CONSTRUCTED) s) (\<lambda>(packlen, varbind_list_len_ptr, s).
     andthen (BEREncodeSequenceHeader body packlen (ucast ASN1_TYPE_SEQUENCE_CONSTRUCTED) s) (\<lambda>(packlen, varbind_len_ptr, s).
     andthen (BEREncodeOID body packlen oid_entry s) (\<lambda>(packlen, s).
     andthen (SNMPGenerateGetPacketBody body packlen oid_index s) (\<lambda>(packlen, s).
     andthen (BEREndSequence body packlen varbind_len_ptr s) (\<lambda>s.
     andthen (BEREndSequence body packlen varbind_list_len_ptr s) (\<lambda>s.
     andthen (BEREndSequence body packlen body_len_ptr s) (\<lambda>s.
     andthen (BEREndSequence body packlen packet_len_ptr s) (\<lambda>s.
     UDPv4SendPacket frame srcip SNMP_AGENT_PORT (ucast srcport) packlen s)))))))))))))))))"

section \<open>Requests\<close>

text \<open>The header of a varbind and its OID, with which both kinds of requests begin; \<open>None\<close> drops the packet.\<close>

definition snmp_varbind :: "u32 \<Rightarrow> u32 \<Rightarrow> pdu \<Rightarrow> (u32 list \<times> u32 \<times> u32) option res" where
  "snmp_varbind bpacket pos s =
     andthen (BERDecodeChunkHeader bpacket pos s) (\<lambda>r. case r of None \<Rightarrow> Inr None | Some (type, len, pos) \<Rightarrow>
     if type \<noteq> ASN1_TYPE_SEQUENCE_CONSTRUCTED then Inr None else
     andthen (BERDecodeChunkHeader bpacket pos s) (\<lambda>r. case r of None \<Rightarrow> Inr None | Some (type, len, pos) \<Rightarrow>
     if type \<noteq> ASN1_TYPE_OID then Inr None else
     andthen (BERDecodeOID bpacket pos len 24 (stack_oid (cfg s)) s) (\<lambda>r. case r of None \<Rightarrow> Inr None
     | Some (oidlen, oidbuf, pos) \<Rightarrow> Inr (Some (oidbuf, of_nat oidlen, pos)))))"

definition SNMPProcessGetOrGetNextRequest :: "u32 \<Rightarrow> u32 \<Rightarrow> u32 \<Rightarrow> u32 \<Rightarrow> u32 \<Rightarrow> bool \<Rightarrow> pdu \<Rightarrow> pdu res" where
  "SNMPProcessGetOrGetNextRequest bpacket pos srcip srcport request_id getnext s =
     andthen (snmp_varbind bpacket pos s) (\<lambda>r. case r of None \<Rightarrow> Inr s | Some (oidbuf, oidlen, pos) \<Rightarrow>
     andthen (SNMPFindOID oidbuf oidlen) (\<lambda>(status, oidpos).
     SNMPSendGetResponse srcip srcport request_id (snmp_index getnext status oidpos) s))"

definition SNMPProcessSetRequest :: "u32 \<Rightarrow> u32 \<Rightarrow> u32 \<Rightarrow> u32 \<Rightarrow> u32 \<Rightarrow> pdu \<Rightarrow> pdu res" where
  "SNMPProcessSetRequest bpacket pos srcip srcport request_id s =
     andthen (snmp_varbind bpacket pos s) (\<lambda>r. case r of None \<Rightarrow> Inr s | Some (oidbuf, oidlen, pos) \<Rightarrow>
     andthen (SNMPFindOID oidbuf oidlen) (\<lambda>(status, oidpos).
     let index = sint oidpos in
     if status \<noteq> OID_SEARCH_HIT then SNMPSendGetResponse srcip srcport request_id (-2) s else
     andthen (BERDecodeExpectedInteger bpacket pos s) (\<lambda>r. case r of
       None \<Rightarrow> SNMPSendGetResponse srcip srcport request_id (-2) s
     | Some (new_value, pos) \<Rightarrow>
         if OID_PWR0 \<le> uint oidpos \<and> uint oidpos \<le> OID_PWR9 then
           andthen (if g_vlockout s = 0 then
               andthen (RPCFunctionCall (g_outputStageAddr s) OUTSTAGE_POWER_STATE (oidpos - of_int OID_PWR0) new_value 0 s)
                 (\<lambda>(rc, rmsg, s). Inr s)
             else Inr s) (\<lambda>s. SNMPSendGetResponse srcip srcport request_id index s)
         else if OID_LIMIT0 \<le> uint oidpos \<and> uint oidpos \<le> OID_LIMIT9 then
           andthen (OutputSetCurrentLimit (oidpos - of_int OID_LIMIT0) new_value s) (\<lambda>s.
           SNMPSendGetResponse srcip srcport request_id index s)
         else if OID_INRUSH0 \<le> uint oidpos \<and> uint oidpos \<le> OID_INRUSH9 then
           andthen (OutputSetInrushTime (oidpos - of_int OID_INRUSH0) new_value s) (\<lambda>s.
           SNMPSendGetResponse srcip srcport request_id index s)
         else SNMPSendGetResponse srcip srcport request_id (-2) s)))"

definition SNMPProcessPacket :: "u32 \<Rightarrow> u32 \<Rightarrow> u32 \<Rightarrow> u16 \<Rightarrow> pdu \<Rightarrow> pdu res" where
  "SNMPProcessPacket packet srcip srcport bytelen s =
     (let bpacket = packet; pos = 0 in
     andthen (BERDecodeChunkHeader bpacket pos s) (\<lambda>r. case r of None \<Rightarrow> Inr s | Some (type, len, pos) \<Rightarrow>
     if type \<noteq> ASN1_TYPE_SEQUENCE_CONSTRUCTED then Inr s else
     andthen (BERDecodeExpectedInteger bpacket pos s) (\<lambda>r. case r of None \<Rightarrow> Inr s | Some (snmp_version, pos) \<Rightarrow>
     if snmp_version \<noteq> SNMP_VERSION_2C then Inr s else
     andthen (BERDecodeChunkHeader bpacket pos s) (\<lambda>r. case r of None \<Rightarrow> Inr s | Some (type, len, pos) \<Rightarrow>
     if type \<noteq> ASN1_TYPE_OCTET_STRING then Inr s else
     andthen (BERDecodeString bpacket pos len 32 (stack_community (cfg s)) s) (\<lambda>r. case r of None \<Rightarrow> Inr s | Some (community, pos) \<Rightarrow>
     andthen (strcmp community g_communityString) (\<lambda>c. if c \<noteq> 0 then Inr s else
     andthen (BERDecodeChunkHeader bpacket pos s) (\<lambda>r. case r of None \<Rightarrow> Inr s | Some (pdu_type, len, pos) \<Rightarrow>
     andthen (BERDecodeExpectedInteger bpacket pos s) (\<lambda>r. case r of None \<Rightarrow> Inr s | Some (request_id, pos) \<Rightarrow>
     andthen (BERDecodeExpectedInteger bpacket pos s) (\<lambda>r. case r of None \<Rightarrow> Inr s | Some (error_id, pos) \<Rightarrow>
     andthen (BERDecodeExpectedInteger bpacket pos s) (\<lambda>r. case r of None \<Rightarrow> Inr s | Some (error_index, pos) \<Rightarrow>
     andthen (BERDecodeChunkHeader bpacket pos s) (\<lambda>r. case r of None \<Rightarrow> Inr s | Some (type, len, pos) \<Rightarrow>
     if type \<noteq> ASN1_TYPE_SEQUENCE_CONSTRUCTED then Inr s else
     if pdu_type = ASN1_TYPE_SNMP_GETREQUEST then SNMPProcessGetOrGetNextRequest bpacket pos srcip srcport request_id False s
     else if pdu_type = ASN1_TYPE_SNMP_GETNEXTREQUEST then SNMPProcessGetOrGetNextRequest bpacket pos srcip srcport request_id True s
     else if pdu_type = ASN1_TYPE_SNMP_SETREQUEST then SNMPProcessSetRequest bpacket pos srcip srcport request_id s
     else Inr s)))))))))))"

section \<open>The search always answers\<close>

lemma compare_from_total:
  assumes "i < unat lenB" and "unat lenB \<le> length oidB" and "unat lenB \<le> length oidA"
  shows "\<exists>c. compare_from i oidA lenA oidB lenB = Inr c"
  using assms
proof (induction "unat lenB - i" arbitrary: i rule: less_induct)
  case less
  have step: "\<exists>c. compare_from (i + 1) oidA lenA oidB lenB = Inr c" if "lenB \<noteq> of_nat (i + 1)"
  proof (rule less.hyps)
    have "unat lenB \<noteq> i + 1"
    proof
      assume "unat lenB = i + 1"
      from arg_cong [OF this, of "of_nat :: nat \<Rightarrow> u32"] show False using that by simp
    qed
    then show "unat lenB - (i + 1) < unat lenB - i" "i + 1 < unat lenB" using less.prems(1) by simp_all
  qed (use less.prems in simp_all)
  show ?case
    using less.prems step by (subst compare_from.simps) (auto simp: Let_def)
qed

lemma compare_row_total:
  assumes "i < 50" and "6 \<le> length suboid"
  shows "\<exists>c. compare_row suboid sublen i = Inr c"
proof -
  have "g_oids ! i \<in> set g_oids" using assms(1) by simp
  then have r: "length (g_oids ! i) = 7" "hd (g_oids ! i) = 5 \<or> hd (g_oids ! i) = 6" using rows_ok by blast+
  then have h: "aget (g_oids ! i) 0 = Inr (hd (g_oids ! i))" by (cases "g_oids ! i") simp_all
  have "unat (ucast (hd (g_oids ! i)) :: u32) = 5 \<or> unat (ucast (hd (g_oids ! i)) :: u32) = 6" using r(2) by auto
  then have "\<exists>c. compare_from 0 suboid sublen (drop 1 (g_oids ! i)) (ucast (hd (g_oids ! i))) = Inr c"
    using r(1) assms(2) by (intro compare_from_total) auto
  then show ?thesis using assms(1) h by (simp add: compare_row_def SNMPCompareOIDs_def)
qed

lemma oid_search_total:
  assumes "1 \<le> i" and "i \<le> 50" and "6 \<le> length suboid"
  shows "\<exists>st k. oid_search [i..<50] suboid sublen = Inr (st, of_nat k) \<and> k < 50"
  using assms(1,2)
proof (induction "50 - i" arbitrary: i)
  case 0
  then show ?case by (auto intro!: exI [of _ "49 :: nat"])
next
  case (Suc n)
  then have i: "i < 50" "[i..<50] = i # [Suc i..<50]" by (simp_all add: upt_conv_Cons)
  obtain c where c: "compare_row suboid sublen i = Inr c" using compare_row_total [OF i(1) assms(3)] by blast
  have "\<exists>st k. oid_search [Suc i..<50] suboid sublen = Inr (st, of_nat k) \<and> k < 50"
    by (rule Suc.hyps(1)) (use Suc i in simp_all)
  moreover have "(of_nat i :: u32) - 1 = of_nat (i - 1)" using Suc.prems by (cases i) simp_all
  ultimately show ?case using i c by (auto intro: less_imp_diff_less)
qed

lemma find_total:
  assumes "length oid = 24"
  shows "\<exists>st k. SNMPFindOID oid oidlen = Inr (st, of_nat k) \<and> k < 50"
proof -
  have pre: "\<exists>r. oid_prefix [0..<4] oid oidlen = Inr r \<and> (\<forall>st pos. r = Some (st, pos) \<longrightarrow> pos = 0 \<or> pos = 49)"
  proof -
    have "[0..<4] = [0, 1, 2, 3 :: nat]" by (simp add: upt_rec numeral_eq_Suc)
    then show ?thesis using assms by (simp add: aget_def)
  qed
  have ends: "\<exists>st' k. Inr (st, 0 :: u32) = (Inr (st', of_nat k) :: (oidsearch_results \<times> u32) res) \<and> k < 50"
    "\<exists>st' k. Inr (st, 49 :: u32) = (Inr (st', of_nat k) :: (oidsearch_results \<times> u32) res) \<and> k < 50" for st
    by (auto intro: exI [of _ "0 :: nat"] exI [of _ "49 :: nat"])
  let ?sub = "drop 4 oid" and ?n = "oidlen - 4"
  have l: "6 \<le> length ?sub" using assms by simp
  obtain c d where c: "compare_row ?sub ?n 0 = Inr c" and d: "compare_row ?sub ?n 49 = Inr d"
    using compare_row_total [OF _ l, of 0 ?n] compare_row_total [OF _ l, of 49 ?n] by auto
  have u: "[0..<50] = 0 # [1..<50 :: nat]" by (simp add: upt_conv_Cons del: upt.simps)
  obtain st k where s: "oid_search [1..<50] ?sub ?n = Inr (st, of_nat k)" "k < 50"
    using oid_search_total [of 1 ?sub ?n] l by auto
  have "\<exists>st k. oid_search [0..<50] ?sub ?n = Inr (st, of_nat k) \<and> k < 50" if "\<not> c < 0"
    unfolding u using that c s by (cases "c = 0") (auto intro: exI [of _ "0 :: nat"])
  note search = this
  obtain r where r: "oid_prefix [0..<4] oid oidlen = Inr r" "\<forall>st pos. r = Some (st, pos) \<longrightarrow> pos = 0 \<or> pos = 49"
    using pre by blast
  show ?thesis
  proof (cases r)
    case None
    then show ?thesis
      using search ends c d r(1) unfolding SNMPFindOID_def Let_def
      by (cases "c < 0"; cases "0 < d") (simp_all del: upt.simps)
  next
    case (Some f)
    then show ?thesis using r ends by (cases f) (auto simp: SNMPFindOID_def simp del: upt.simps)
  qed
qed

lemma snmp_index_range:
  "k < 50 \<Longrightarrow> -2 \<le> snmp_index getnext st (of_nat k) \<and> snmp_index getnext st (of_nat k) < 50"
  using sint_index [of k] of_nat_u32_eq [of k 49] by (auto simp: snmp_index_def Let_def)

section \<open>Evolution\<close>

text \<open>The decoders read and the encoders write inside their arrays.\<close>

lemma ber_octets_ok [vcg]: "(\<And>r. Q r) \<Longrightarrow> wp no_overrun Q (ber_octets message n x pos s)"
  by (induction n arbitrary: x pos) (auto intro!: load_no_overrun)

lemma BERDecodeChunkHeader_ok [vcg]: "(\<And>r. Q r) \<Longrightarrow> wp no_overrun Q (BERDecodeChunkHeader message pos s)"
  unfolding BERDecodeChunkHeader_def Let_def by (auto intro!: load_no_overrun ber_octets_ok)

lemma BERDecodeExpectedInteger_ok [vcg]: "(\<And>r. Q r) \<Longrightarrow> wp no_overrun Q (BERDecodeExpectedInteger message pos s)"
  unfolding BERDecodeExpectedInteger_def BERDecodeInteger_def
  by (auto intro!: BERDecodeChunkHeader_ok ber_octets_ok split: option.split)

lemma ber_copy_ok:
  assumes "i + n \<le> length dout" and "\<And>d p. length d = length dout \<Longrightarrow> Q (d, p)"
  shows "wp no_overrun Q (ber_copy message n i pos dout s)"
  using assms
proof (induction n arbitrary: i pos dout)
  case (Suc n)
  then show ?case by (auto intro!: load_no_overrun Suc.IH)
qed simp

lemma BERDecodeString_ok [vcg]:
  assumes "unat maxlen \<le> length dout" and "Q None"
    and "\<And>d p. length d = length dout \<Longrightarrow> terminated d \<Longrightarrow> Q (Some (d, p))"
  shows "wp no_overrun Q (BERDecodeString message pos len maxlen dout s)"
proof (cases "len \<ge> maxlen")
  case False
  then have l: "unat len < length dout" using assms(1) by (simp add: word_le_nat_alt)
  have "terminated (d[unat len := 0])" if "length d = length dout" for d
    using l that set_update_memI [of "unat len" d 0] by (simp add: terminated_def)
  then show ?thesis using False l assms(3) unfolding BERDecodeString_def by (auto intro!: ber_copy_ok)
qed (simp add: BERDecodeString_def assms(2))

lemma ber_base128_ok:
  assumes "\<And>r. Q r"
  shows "wp no_overrun Q (ber_base128 fuel message fval pos s)"
proof -
  have "wp no_overrun (\<lambda>_. True) (ber_base128 fuel message fval pos s)"
  proof (induction fuel message fval pos s rule: ber_base128.induct)
    case (1 fuel message fval pos s)
    then show ?case by (subst ber_base128.simps) (auto simp: load8_def Let_def)
  qed
  then show ?thesis by (rule wp_mono) (rule assms)
qed

lemma ber_oid_loop_ok:
  assumes "nbuflen \<le> length dout" and "Q None" and "\<And>n d p. length d = length dout \<Longrightarrow> Q (Some (n, d, p))"
  shows "wp no_overrun Q (ber_oid_loop message endp nbuflen pos outpos dout s)"
  using assms
proof (induction "nbuflen - outpos" arbitrary: pos outpos dout rule: less_induct)
  case less
  show ?case
  proof (subst ber_oid_loop.simps, simp only: wp_if wp_simps, intro conjI impI)
    show "wp no_overrun (\<lambda>x. wp no_overrun Q (case x of (fval, pos) \<Rightarrow> if nbuflen \<le> outpos then Inr None
        else andthen (aset dout outpos fval) (\<lambda>dout. ber_oid_loop message endp nbuflen pos (outpos + 1) dout s)))
      (ber_base128 (2 ^ 32) message 0 pos s)"
      by (rule ber_base128_ok) (use less.prems in \<open>auto intro!: aset_wp less.hyps split: prod.split\<close>)
    show "Q (Some (outpos, dout, pos))" by (rule less.prems) simp
  qed
qed

lemma BERDecodeOID_ok [vcg]:
  assumes "buflen \<le> length dout" and "Q None" and "\<And>n d p. length d = length dout \<Longrightarrow> Q (Some (n, d, p))"
  shows "wp no_overrun Q (BERDecodeOID message pos len buflen dout s)"
  using assms unfolding BERDecodeOID_def Let_def by (auto intro!: load_no_overrun aset_wp ber_oid_loop_ok)

text \<open>\<open>writes s\<close>: the position and the state that an encoder leaves, with another memory and nothing else.\<close>

definition writes :: "pdu \<Rightarrow> u32 \<times> pdu \<Rightarrow> bool" where
  "writes s = (\<lambda>(p, t). \<exists>m. t = s\<lparr>mem := m\<rparr>)"

lemma writes_mem [simp]: "writes s (p, s\<lparr>mem := m\<rparr>)"
  by (auto simp: writes_def)

lemma writes_from: "writes (s\<lparr>mem := m\<rparr>) r = writes s r"
  by (cases r) (simp add: writes_def)

lemma writes_self [simp]: "writes s (p, s)"
  unfolding writes_def by (auto intro: exI [of _ "mem s"])

lemma store8_mem: "(\<And>m. Q (s\<lparr>mem := m\<rparr>)) \<Longrightarrow> wp no_overrun Q (store8 a v s)"
  by (rule store8_vcg) simp_all

lemma emit_mem: "(\<And>m. Q (pos + 1, s\<lparr>mem := m\<rparr>)) \<Longrightarrow> wp no_overrun Q (emit message pos b s)"
  by (rule emit_vcg) simp_all

lemma BEREncodeInteger_writes: "wp no_overrun (writes s) (BEREncodeInteger message pos d s)"
  unfolding BEREncodeInteger_def Let_def by (auto intro!: emit_mem store8_mem)

lemma strcpy_mem_writes:
  assumes "terminated src"
  shows "wp no_overrun (\<lambda>t. \<exists>m. t = s\<lparr>mem := m\<rparr>) (strcpy_mem d src s)"
proof -
  have "wp no_overrun (\<lambda>t. \<exists>m. t = s\<lparr>mem := m\<rparr>) (strcpy_from (\<lambda>i c s. store8 (d + of_nat i) c s) src i s)"
    if "0 \<in> set (drop i src)" for i
    using that
  proof (induction "length src - i" arbitrary: i s rule: less_induct)
    case less
    then have i: "i < length src" by (cases "i < length src") auto
    have step: "wp no_overrun (\<lambda>t. \<exists>m. t = s\<lparr>mem := m\<rparr>) (strcpy_from (\<lambda>i c s. store8 (d + of_nat i) c s) src (i + 1) (s\<lparr>mem := m\<rparr>))"
      if "src ! i \<noteq> 0" for m
    proof -
      have "0 \<in> set (drop (i + 1) src)" using less.prems that i by (simp add: Cons_nth_drop_Suc [symmetric])
      from less.hyps [OF _ this, of "s\<lparr>mem := m\<rparr>"] i show ?thesis by simp
    qed
    have "\<exists>m. s = s\<lparr>mem := m\<rparr>" by (rule exI [of _ "mem s"]) simp
    then show ?case using i step by (subst strcpy_from.simps) (auto intro!: store8_mem)
  qed
  from this [of 0] assms show ?thesis by (simp add: strcpy_mem_def terminated_def)
qed

lemma BEREncodeString_writes:
  assumes "terminated data"
  shows "wp no_overrun (writes s) (BEREncodeString message pos data s)"
proof -
  have c: "wp no_overrun (\<lambda>t. writes s (p, t)) (strcpy_mem a data (s\<lparr>mem := m\<rparr>))" for p a m
    by (rule wp_mono [OF strcpy_mem_writes [OF assms]]) (auto simp: writes_def)
  show ?thesis
    unfolding BEREncodeString_def Let_def strlen_text [OF assms] by (auto intro!: emit_mem c)
qed

lemma BEREncodeSequenceHeader_writes:
  "wp no_overrun (\<lambda>(p, q, t). writes s (p, t)) (BEREncodeSequenceHeader message pos type s)"
  unfolding BEREncodeSequenceHeader_def Let_def by (auto intro!: emit_mem)

lemma BEREndSequence_writes: "wp no_overrun (\<lambda>t. writes s (p, t)) (BEREndSequence message pos lenptr s)"
  unfolding BEREndSequence_def Let_def by (auto intro!: store8_mem)

lemma BEREncodeOID_writes:
  assumes "unat (hd oid) < length oid"
  shows "wp no_overrun (writes s) (BEREncodeOID message pos oid s)"
proof -
  have h: "aget oid 0 = Inr (hd oid)" using assms by (cases oid) simp_all
  have digit: "wp no_overrun (writes s) (ber_encode_digit message d p t)" if "writes s (q, t)" for d p q t
  proof -
    from that obtain m where "t = s\<lparr>mem := m\<rparr>" by (auto simp: writes_def)
    then show ?thesis unfolding ber_encode_digit_def by (auto intro!: emit_mem)
  qed
  have loop: "wp no_overrun (writes s) (foreach [0..<unat (hd oid)] (\<lambda>i (startpos, s).
        andthen (aget oid (i + 1)) (\<lambda>digit. ber_encode_digit message (ucast digit) startpos s)) (p, s\<lparr>mem := m\<rparr>))" for p m
    by (rule wp_foreach_inv [where I = "writes s"]) (use assms in \<open>auto intro!: digit\<close>)
  have patch: "wp no_overrun (writes s) (andthen (store8 a (g p) t) (\<lambda>t. Inr (p, t)))" if "writes s (p, t)" for a g p t
  proof -
    from that obtain m where "t = s\<lparr>mem := m\<rparr>" by (auto simp: writes_def)
    then show ?thesis by (auto intro!: store8_mem)
  qed
  have tail: "wp no_overrun (writes s) (andthen (foreach [0..<unat (hd oid)] (\<lambda>i (startpos, s).
        andthen (aget oid (i + 1)) (\<lambda>digit. ber_encode_digit message (ucast digit) startpos s)) (p, s\<lparr>mem := m\<rparr>))
      (\<lambda>(startpos, t). andthen (store8 a (g startpos) t) (\<lambda>t. Inr (startpos, t))))" for p m a g
    unfolding wp_simps by (rule wp_mono [OF loop]) (auto intro: patch simp del: wp_simps(3))
  show ?thesis
    unfolding BEREncodeOID_def Let_def h andthen_simps
    by (auto intro!: emit_mem tail [unfolded wp_simps Suc_eq_plus1 [symmetric]])
qed

lemma writes_evolves:
  assumes "wp no_overrun (writes s) m" and "evolves fs s0 s"
    and "\<And>p m. evolves fs s0 (s\<lparr>mem := m\<rparr>) \<Longrightarrow> Q (p, s\<lparr>mem := m\<rparr>)"
  shows "wp no_overrun Q m"
  by (rule wp_mono [OF assms(1)]) (use assms(2,3) memory_evolves(1) in \<open>auto simp: writes_def\<close>)

lemma header_evolves:
  assumes "evolves fs s0 s" and "\<And>p q m. evolves fs s0 (s\<lparr>mem := m\<rparr>) \<Longrightarrow> Q (p, q, s\<lparr>mem := m\<rparr>)"
  shows "wp no_overrun Q (BEREncodeSequenceHeader message pos type s)"
  by (rule wp_mono [OF BEREncodeSequenceHeader_writes]) (use assms memory_evolves(1) in \<open>auto simp: writes_def\<close>)

lemma end_evolves:
  assumes "evolves fs s0 s" and "\<And>m. evolves fs s0 (s\<lparr>mem := m\<rparr>) \<Longrightarrow> Q (s\<lparr>mem := m\<rparr>)"
  shows "wp no_overrun Q (BEREndSequence message pos lenptr s)"
  by (rule wp_mono [OF BEREndSequence_writes [of s 0]]) (use assms memory_evolves(1) in \<open>auto simp: writes_def\<close>)

lemma cstr_terminated [simp]: "terminated (cstr cs)" "terminated (xs @ cstr cs)"
  by (simp_all add: terminated_def cstr_def)

lemma rows_oid: "i < 50 \<Longrightarrow> unat (hd (g_oids ! i)) < length (g_oids ! i)"
proof -
  assume "i < 50"
  then have "g_oids ! i \<in> set g_oids" by simp
  then have "length (g_oids ! i) = 7" "hd (g_oids ! i) = 5 \<or> hd (g_oids ! i) = 6" using rows_ok by blast+
  then show ?thesis by auto
qed

text \<open>The value of an object: reading a sensor or the status of an output changes no global.\<close>

lemma SNMPGenerateGetPacketBody_evolves [vcg]:
  assumes e: "evolves fs s0 s" and Q: "\<And>p s'. evolves fs s0 s' \<Longrightarrow> Q (p, s')"
  shows "wp no_overrun Q (SNMPGenerateGetPacketBody message pos i s)"
proof -
  have host: "terminated (g_hostname s)"
    using evolve_parts(4,5) [OF e] nth_mem [of 31 "g_hostname s"] by (simp add: terminated_def)
  have sw: "terminated (software_version (cfg s))" 
    unfolding terminated_def software_version_def cstr_def by (simp only: set_append list.set Un_iff insert_iff simp_thms)
  have dev: "unat (hd g_deviceOid) < length g_deviceOid" by (simp add: g_deviceOid_def)
  have em: "wp no_overrun Q (andthen (emit message pos b s) (\<lambda>(p, s). emit message p c s))" for b c
    using memory_evolves(1) [OF e] Q by (auto intro!: emit_mem)
  note int = writes_evolves [OF BEREncodeInteger_writes]
  have read: "wp no_overrun Q (andthen (GetTemperature x s) (\<lambda>(v, s). BEREncodeInteger message pos v s))"
    "wp no_overrun Q (andthen (GetCurrent x s) (\<lambda>(v, s). BEREncodeInteger message pos v s))"
    "wp no_overrun Q (andthen (GetVoltage x s) (\<lambda>(v, s). BEREncodeInteger message pos v s))"
    "wp no_overrun Q (andthen (OutputGetStatus x s) (\<lambda>(v, s). BEREncodeInteger message pos v s))" for x
    by (auto intro!: GetTemperature_evolves [OF e] GetCurrent_evolves [OF e] GetVoltage_evolves [OF e]
        OutputGetStatus_evolves [OF e] int Q)
  show ?thesis
    unfolding SNMPGenerateGetPacketBody_def
    by (auto intro!: em read Q e writes_evolves [OF BEREncodeString_writes] writes_evolves [OF BEREncodeOID_writes] host sw dev int
        simp: evolve_parts [OF e] simp del: wp_simps(3))
qed

lemma SNMPSendGetResponse_evolves [vcg]:
  assumes e: "evolves fs s0 s" and i: "-2 \<le> i" "i < 50" and Q: "\<And>s'. evolves fs s0 s' \<Longrightarrow> Q s'"
  shows "wp no_overrun Q (SNMPSendGetResponse srcip srcport reqid i s)"
proof -
  define k where "k = (if i < 0 then g_oidListMax else nat i)"
  have k: "k < 50" using i by (auto simp: k_def)
  have pub: "terminated g_communityString" by (simp add: g_communityString_def)
  note int = writes_evolves [OF BEREncodeInteger_writes] and str = writes_evolves [OF BEREncodeString_writes [OF pub]]
    and oid = writes_evolves [OF BEREncodeOID_writes [OF rows_oid [OF k]]]
  show ?thesis
    unfolding SNMPSendGetResponse_def Let_def k_def [symmetric]
    by (auto intro!: EthernetAllocateFrame_evolves [OF e] header_evolves int str oid end_evolves
        SNMPGenerateGetPacketBody_evolves UDPv4SendPacket_evolves Q simp: k)
qed

lemma snmp_varbind_ok [vcg]:
  assumes e: "evolves fs s0 s" and "Q None" and "\<And>oidbuf n pos. length oidbuf = 24 \<Longrightarrow> Q (Some (oidbuf, n, pos))"
  shows "wp no_overrun Q (snmp_varbind bpacket pos s)"
proof -
  have l: "24 \<le> length (stack_oid (cfg s))" "length (stack_oid (cfg s)) = 24" using evolve_parts(9) [OF e] by simp_all
  show ?thesis
    unfolding snmp_varbind_def using assms(2,3) l
    by (auto intro!: BERDecodeChunkHeader_ok BERDecodeOID_ok split: option.split)
qed

lemma SNMPProcessGetOrGetNextRequest_evolves [vcg]:
  assumes e: "evolves fs s0 s" and Q: "\<And>s'. evolves fs s0 s' \<Longrightarrow> Q s'"
  shows "wp no_overrun Q (SNMPProcessGetOrGetNextRequest bpacket pos srcip srcport reqid getnext s)"
proof -
  have respond: "wp no_overrun Q (andthen (SNMPFindOID oidbuf n) (\<lambda>(status, oidpos).
      SNMPSendGetResponse srcip srcport reqid (snmp_index getnext status oidpos) s))" if "length oidbuf = 24" for oidbuf n
  proof -
    obtain st k where f: "SNMPFindOID oidbuf n = Inr (st, of_nat k)" "k < 50" using find_total [OF \<open>length oidbuf = 24\<close>] by blast
    show ?thesis
      using snmp_index_range [OF f(2), of getnext st] by (simp add: f(1)) (intro SNMPSendGetResponse_evolves [OF e] Q; simp)
  qed
  show ?thesis
    unfolding SNMPProcessGetOrGetNextRequest_def
    by (auto intro!: snmp_varbind_ok [OF e] respond [unfolded wp_simps] Q e)
qed

lemma SNMPProcessSetRequest_evolves [vcg]:
  assumes e: "evolves fs s0 s" and Q: "\<And>s'. evolves fs s0 s' \<Longrightarrow> Q s'"
  shows "wp no_overrun Q (SNMPProcessSetRequest bpacket pos srcip srcport reqid s)"
proof -
  have send: "wp no_overrun Q (SNMPSendGetResponse srcip srcport reqid i t)" if "evolves fs s0 t" "-2 \<le> i" "i < 50" for i t
    by (rule SNMPSendGetResponse_evolves [OF that Q])
  have act: "wp no_overrun Q (andthen (SNMPFindOID oidbuf n) (\<lambda>(status, oidpos).
     let index = sint oidpos in
     if status \<noteq> OID_SEARCH_HIT then SNMPSendGetResponse srcip srcport reqid (-2) s else
     andthen (BERDecodeExpectedInteger bpacket pos s) (\<lambda>r. case r of
       None \<Rightarrow> SNMPSendGetResponse srcip srcport reqid (-2) s
     | Some (new_value, pos) \<Rightarrow>
         if OID_PWR0 \<le> uint oidpos \<and> uint oidpos \<le> OID_PWR9 then
           andthen (if g_vlockout s = 0 then
               andthen (RPCFunctionCall (g_outputStageAddr s) OUTSTAGE_POWER_STATE (oidpos - of_int OID_PWR0) new_value 0 s)
                 (\<lambda>(rc, rmsg, s). Inr s)
             else Inr s) (\<lambda>s. SNMPSendGetResponse srcip srcport reqid index s)
         else if OID_LIMIT0 \<le> uint oidpos \<and> uint oidpos \<le> OID_LIMIT9 then
           andthen (OutputSetCurrentLimit (oidpos - of_int OID_LIMIT0) new_value s) (\<lambda>s.
           SNMPSendGetResponse srcip srcport reqid index s)
         else if OID_INRUSH0 \<le> uint oidpos \<and> uint oidpos \<le> OID_INRUSH9 then
           andthen (OutputSetInrushTime (oidpos - of_int OID_INRUSH0) new_value s) (\<lambda>s.
           SNMPSendGetResponse srcip srcport reqid index s)
         else SNMPSendGetResponse srcip srcport reqid (-2) s)))" if "length oidbuf = 24" for oidbuf n pos
  proof -
    obtain st k where f: "SNMPFindOID oidbuf n = Inr (st, of_nat k)" "k < 50" using find_total [OF \<open>length oidbuf = 24\<close>] by blast
    have i: "-2 \<le> sint (of_nat k :: u32)" "sint (of_nat k :: u32) < 50" using sint_index [of k] f(2) by simp_all
    show ?thesis
      unfolding f(1) andthen_simps prod.case Let_def
      by (auto intro!: BERDecodeExpectedInteger_ok send [OF e] send [OF _ i] host_calls [OF e]
          OutputSetCurrentLimit_evolves [OF e] OutputSetInrushTime_evolves [OF e] e simp del: of_nat_numeral split: option.split)
  qed
  show ?thesis
    unfolding SNMPProcessSetRequest_def
    by (auto intro!: snmp_varbind_ok [OF e] Q e simp del: wp_simps(3) simp: wp_simps(3) [of _ _ "snmp_varbind bpacket pos s"])
      (rule act, assumption)
qed

lemma SNMPProcessPacket_evolves [vcg]:
  assumes e: "evolves fs s0 s" and Q: "\<And>s'. evolves fs s0 s' \<Longrightarrow> Q s'"
  shows "wp no_overrun Q (SNMPProcessPacket packet srcip srcport bytelen s)"
proof -
  have l: "unat (32 :: u32) \<le> length (stack_community (cfg s))" using evolve_parts(10) [OF e] by simp
  have cmp: "wp no_overrun R (strcmp c g_communityString)" if "terminated c" "\<And>r. R r" for c R
  proof -
    have "terminated g_communityString" by (simp add: g_communityString_def)
    from strcmp_text [OF that(1) this] that(2) show ?thesis by auto
  qed
  show ?thesis
    unfolding SNMPProcessPacket_def Let_def
    by (auto intro!: BERDecodeChunkHeader_ok BERDecodeExpectedInteger_ok BERDecodeString_ok l cmp Q e
        SNMPProcessGetOrGetNextRequest_evolves [OF e] SNMPProcessSetRequest_evolves [OF e] split: option.split)
qed

end
