(* ===== verification/Pdu_Snmp_Spec.thy ===== *)
theory Pdu_Snmp_Spec
  imports Pdu_Snmp
begin

text \<open>
  What the SNMP agent does on the wire. A message is the nesting of BER values that both a manager and the
  agent write (\<open>snmp_message\<close>); the agent is proved to take a request apart, to act on it and to answer with the
  message that is due, and to leave everything alone when the community string is another one.
\<close>

section \<open>Messages\<close>

definition public_name :: "u8 list" where
  "public_name = map of_char ''public''"

definition snmp_message :: "u8 \<Rightarrow> u32 \<Rightarrow> u8 list \<Rightarrow> u8 list" where
  "snmp_message t request_id varbind = ber_seq 0x30 (ber_integer SNMP_VERSION_2C @ ber_string public_name @
     ber_seq t (ber_integer request_id @ ber_integer 0 @ ber_integer 0 @ ber_seq 0x30 (ber_seq 0x30 varbind)))"

lemma community_text: "c_text g_communityString = public_name" "terminated g_communityString" "length public_name = 6"
  by (simp_all add: g_communityString_def cstr_def c_text_def public_name_def terminated_def)

lemma header_seq:
  assumes "reads s (message + pos) (ber_seq t body)" and "t AND 0x1F \<noteq> 0x1F"
  shows "\<exists>len. BERDecodeChunkHeader message pos s = Inr (Some (ucast t, len, pos + 4))"
    "reads s (message + (pos + 4)) body"
proof -
  have e: "ber_seq t body = (t # 0x82 # [of_nat (length body div 256), of_nat (length body)]) @ body"
    by (simp add: ber_seq_def)
  have "reads s (message + pos) (t # 0x82 # [of_nat (length body div 256), of_nat (length body)])"
    using assms(1) unfolding e by (simp only: reads_append)
  from header_long [OF this assms(2)]
  show "\<exists>len. BERDecodeChunkHeader message pos s = Inr (Some (ucast t, len, pos + 4))" by (simp add: adv_def)
  show "reads s (message + (pos + 4)) body"
    by (rule reads_inner [OF assms(1) [unfolded e]]) (simp add: add.assoc)
qed

lemma reads_prefix: "reads s a (xs @ ys) \<Longrightarrow> reads s a xs"
  by (simp add: reads_append)

lemma expected_integer:
  assumes "reads s (message + pos) (ber_integer d @ rest)"
  shows "BERDecodeExpectedInteger message pos s = Inr (Some (be_value 0 (ber_content d), adv pos (ber_integer d)))"
    "reads s (message + adv pos (ber_integer d)) rest"
  by (rule BERDecodeExpectedInteger_reads [OF reads_prefix [OF assms]], rule reads_inner [OF assms]) (simp add: adv_def add.assoc)

text \<open>The value that an integer is read back as, which is the integer itself when it has no interior zero octet.\<close>

definition as_read :: "u32 \<Rightarrow> u32" where
  "as_read d = be_value 0 (ber_content d)"

lemma as_read_small: "gap_free d \<Longrightarrow> as_read d = d" "as_read 0 = 0" "as_read 1 = 1"
  using content_value_iff by (simp_all add: as_read_def gap_free_def)

lemma ucast_u8_inj: "(ucast (t :: u8) :: u32) = ucast v \<longleftrightarrow> t = v"
  by (rule ucast_u8_eq)

lemma snmp_parse:
  assumes r: "reads s packet (snmp_message t request_id varbind)" and t: "t AND 0x1F \<noteq> 0x1F"
    and stack: "length (stack_community (cfg s)) = 32"
  shows "\<exists>p. reads s (packet + p) (ber_seq 0x30 varbind) \<and> unat p < 100 \<and>
    SNMPProcessPacket packet srcip srcport bytelen s =
      (if t = 0xA0 then SNMPProcessGetOrGetNextRequest packet p srcip srcport (as_read request_id) False s
       else if t = 0xA1 then SNMPProcessGetOrGetNextRequest packet p srcip srcport (as_read request_id) True s
       else if t = 0xA3 then SNMPProcessSetRequest packet p srcip srcport (as_read request_id) s
       else Inr s)"
proof -
  have x30: "(0x30 :: u8) AND 0x1F \<noteq> 0x1F" by simp
  let ?vbl = "ber_seq 0x30 (ber_seq 0x30 varbind)"
  let ?pdu = "ber_integer request_id @ ber_integer 0 @ ber_integer 0 @ ?vbl"
  have r0: "reads s (packet + 0) (ber_seq 0x30 (ber_integer 1 @ ber_string public_name @ ber_seq t ?pdu))"
    using r by (simp add: snmp_message_def)
  obtain l0 where h0: "BERDecodeChunkHeader packet 0 s = Inr (Some (0x30, l0, 4))"
    using header_seq(1) [OF r0 x30] by auto
  have r1: "reads s (packet + 4) (ber_integer 1 @ ber_string public_name @ ber_seq t ?pdu)"
    using header_seq(2) [OF r0 x30] by simp
  define p2 where "p2 = adv 4 (ber_integer 1)"
  have v: "BERDecodeExpectedInteger packet 4 s = Inr (Some (1, p2))"
    using expected_integer(1) [OF r1] as_read_small(3) by (simp add: p2_def as_read_def)
  have r2: "reads s (packet + p2) (ber_string public_name @ ber_seq t ?pdu)"
    using expected_integer(2) [OF r1] by (simp add: p2_def)
  obtain p3 where c: "BERDecodeChunkHeader packet p2 s = Inr (Some (4, 6, p3))" "reads s (packet + p3) public_name"
    "adv p3 public_name = adv p2 (ber_string public_name)"
    using BERDecodeHeader_string [OF reads_prefix [OF r2]] community_text(3) by auto
  define p4 where "p4 = adv p2 (ber_string public_name)"
  have cs: "BERDecodeString packet p3 6 32 (stack_community (cfg s)) s =
      Inr (Some (public_name @ 0 # drop 7 (stack_community (cfg s)), p4))"
    using BERDecodeString_reads [OF c(2), of 32 "stack_community (cfg s)" 6] stack community_text(3) c(3)
    by (simp add: p4_def)
  have "terminated (public_name @ 0 # drop 7 (stack_community (cfg s)))"
    "c_text (public_name @ 0 # drop 7 (stack_community (cfg s))) = public_name"
    by (simp_all add: terminated_def c_text_def public_name_def)
  then have cmp: "strcmp (public_name @ 0 # drop 7 (stack_community (cfg s))) g_communityString = Inr 0"
    using strcmp_text [of _ g_communityString] community_text by metis
  have r4: "reads s (packet + p4) (ber_seq t ?pdu)"
    using reads_inner [OF r2] by (simp add: p4_def adv_def add.assoc)
  obtain l4 where h4: "BERDecodeChunkHeader packet p4 s = Inr (Some (ucast t, l4, p4 + 4))"
    using header_seq(1) [OF r4 t] by blast
  note r5 = header_seq(2) [OF r4 t]
  define p6 where "p6 = adv (p4 + 4) (ber_integer request_id)"
  define p7 where "p7 = adv p6 (ber_integer 0)"
  define p8 where "p8 = adv p7 (ber_integer 0)"
  note i6 = expected_integer(1) [OF r5, folded p6_def as_read_def] and r6 = expected_integer(2) [OF r5, folded p6_def]
  note i7 = expected_integer(1) [OF r6, folded p7_def] and r7 = expected_integer(2) [OF r6, folded p7_def]
  note i8 = expected_integer(1) [OF r7, folded p8_def] and r8 = expected_integer(2) [OF r7, folded p8_def]
  obtain l8 where h8: "BERDecodeChunkHeader packet p8 s = Inr (Some (0x30, l8, p8 + 4))"
    using header_seq(1) [OF r8 x30] by auto
  note r9 = header_seq(2) [OF r8 x30]
  have small: "unat (p8 + 4) < 100"
  proof -
    have l: "length (ber_integer d) \<le> 6" for d using length_ber_content(1) [of d] by (simp add: ber_integer_def)
    have "p8 + 4 = of_nat (4 + length (ber_integer 1) + length (ber_string public_name) + 4 + length (ber_integer request_id)
        + length (ber_integer 0) + length (ber_integer 0) + 4)"
      by (simp add: p8_def p7_def p6_def p4_def p2_def adv_def)
    moreover have "length (ber_string public_name) = 8" by (simp add: ber_string_def community_text(3))
    ultimately show ?thesis using l [of 1] l [of request_id] l [of 0] by (simp only: u32_of_nat_unat_id)
  qed
  have sw: "(ucast t = (0xA0 :: u32)) = (t = 0xA0)" "(ucast t = (0xA1 :: u32)) = (t = 0xA1)" "(ucast t = (0xA3 :: u32)) = (t = 0xA3)"
    using ucast_u8_eq [of t "0xA0"] ucast_u8_eq [of t "0xA1"] ucast_u8_eq [of t "0xA3"] by simp_all
  have "SNMPProcessPacket packet srcip srcport bytelen s =
      (if t = 0xA0 then SNMPProcessGetOrGetNextRequest packet (p8 + 4) srcip srcport (as_read request_id) False s
       else if t = 0xA1 then SNMPProcessGetOrGetNextRequest packet (p8 + 4) srcip srcport (as_read request_id) True s
       else if t = 0xA3 then SNMPProcessSetRequest packet (p8 + 4) srcip srcport (as_read request_id) s
       else Inr s)"
    by (simp add: SNMPProcessPacket_def Let_def h0 v c(1) cs cmp h4 i6 i7 i8 h8 sw)
  then show ?thesis using r9 small by blast
qed

lemma snmp_varbind_reads:
  assumes r: "reads s (packet + p) (ber_seq 0x30 (ber_oid ds @ v))" and p: "unat p < 100" and ds: "length ds \<le> 20"
    and stack: "length (stack_oid (cfg s)) = 24"
  shows "\<exists>p'. snmp_varbind packet p s = Inr (Some (([1, 3, 6, 1] @ map ucast ds) @ drop (4 + length ds) (stack_oid (cfg s)),
      of_nat (4 + length ds), p')) \<and> reads s (packet + p') v"
proof -
  have x30: "(0x30 :: u8) AND 0x1F \<noteq> 0x1F" by simp
  obtain l where h: "BERDecodeChunkHeader packet p s = Inr (Some (0x30, l, p + 4))"
    using header_seq(1) [OF r x30] by auto
  note r1 = header_seq(2) [OF r x30]
  have "unat (p + 4) = unat p + 4" using unat_add_of_nat [of p 4] p by simp
  then have b: "unat (p + 4) + length (ber_oid ds) < 4294967296"
    using p length_ber_digits [of ds] ds by (simp add: ber_oid_def)
  have "length ds \<le> 60" "4 + length ds \<le> 24" "8 \<le> (24 :: nat)" "24 \<le> length (stack_oid (cfg s))" using ds stack by simp_all
  note o = BERDecodeOID_reads [OF reads_prefix [OF r1] this b]
  have "reads s (packet + adv (p + 4) (ber_oid ds)) v"
    by (rule reads_inner [OF r1]) (simp add: adv_def add.assoc)
  then show ?thesis
    using o h by (intro exI [of _ "adv (p + 4) (ber_oid ds)"]) (simp add: snmp_varbind_def)
qed

section \<open>Setting an object\<close>

text \<open>What a SET of the object with index \<open>k\<close> does before the response, and the index that is answered with.\<close>

definition snmp_set_action :: "nat \<Rightarrow> u32 \<Rightarrow> pdu \<Rightarrow> (int \<times> pdu) res" where
  "snmp_set_action k value s =
     (if 19 \<le> k \<and> k \<le> 28 then
        if g_vlockout s = 0
        then andthen (RPCFunctionCall (g_outputStageAddr s) OUTSTAGE_POWER_STATE (of_nat (k - 19)) value 0 s) (\<lambda>(rc, rmsg, s). Inr (int k, s))
        else Inr (int k, s)
      else if 29 \<le> k \<and> k \<le> 38 then andthen (OutputSetCurrentLimit (of_nat (k - 29)) value s) (\<lambda>s. Inr (int k, s))
      else if 39 \<le> k \<and> k \<le> 48 then andthen (OutputSetInrushTime (of_nat (k - 39)) value s) (\<lambda>s. Inr (int k, s))
      else Inr (-2, s))"

lemma find_hit:
  assumes "mib_get ([1, 3, 6, 1] @ xs) = int k" and "xs \<noteq> []" and "length xs < 1000"
  shows "SNMPFindOID (([1, 3, 6, 1] @ xs) @ junk) (of_nat (4 + length xs)) = Inr (OID_SEARCH_HIT, of_nat k) \<and> k < 50"
  using SNMPFindOID_rank [OF assms(2,3), of junk] mib_rank(1) [of xs] assms(1) by (auto split: if_splits)

lemma find_miss:
  assumes "mib_get ([1, 3, 6, 1] @ xs) = -2" and "xs \<noteq> []" and "length xs < 1000"
  shows "\<exists>st pos. SNMPFindOID (([1, 3, 6, 1] @ xs) @ junk) (of_nat (4 + length xs)) = Inr (st, pos) \<and> st \<noteq> OID_SEARCH_HIT"
  using SNMPFindOID_rank [OF assms(2,3), of junk] mib_rank(1) [of xs] assms(1) rank_le [of xs] by (auto split: if_splits)

lemma snmp_set:
  assumes r: "reads s packet (snmp_message 0xA3 request_id (ber_oid ds @ ber_integer v))"
    and ds: "ds \<noteq> []" "length ds \<le> 20"
    and stack: "length (stack_community (cfg s)) = 32" "length (stack_oid (cfg s)) = 24"
  shows "SNMPProcessPacket packet srcip srcport bytelen s =
    (case find (\<lambda>k. mib ! k = [1, 3, 6, 1] @ map ucast ds) [0..<50] of
       None \<Rightarrow> SNMPSendGetResponse srcip srcport (as_read request_id) (-2) s
     | Some k \<Rightarrow> andthen (snmp_set_action k (as_read v) s) (\<lambda>(i, s). SNMPSendGetResponse srcip srcport (as_read request_id) i s))"
proof -
  let ?xs = "map ucast ds :: u32 list"
  have xs: "?xs \<noteq> []" "length ?xs < 1000" using ds by simp_all
  obtain p where p: "reads s (packet + p) (ber_seq 0x30 (ber_oid ds @ ber_integer v))" "unat p < 100"
    "SNMPProcessPacket packet srcip srcport bytelen s = SNMPProcessSetRequest packet p srcip srcport (as_read request_id) s"
    using snmp_parse [OF r _ stack(1), of srcip srcport bytelen] by auto
  obtain p' where b: "snmp_varbind packet p s = Inr (Some (([1, 3, 6, 1] @ ?xs) @ drop (4 + length ds) (stack_oid (cfg s)),
      of_nat (4 + length ds), p'))" "reads s (packet + p') (ber_integer v)"
    using snmp_varbind_reads [OF p(1,2) ds(2) stack(2)] by blast
  have e: "BERDecodeExpectedInteger packet p' s = Inr (Some (as_read v, adv p' (ber_integer v)))"
    using BERDecodeExpectedInteger_reads [OF b(2)] by (simp add: as_read_def)
  let ?junk = "drop (4 + length ds) (stack_oid (cfg s))"
  show ?thesis
  proof (cases "find (\<lambda>k. mib ! k = [1, 3, 6, 1] @ ?xs) [0..<50]")
    case None
    then have "mib_get ([1, 3, 6, 1] @ ?xs) = -2" unfolding mib_get_def by simp
    then obtain st pos where "SNMPFindOID (([1, 3, 6, 1] @ ?xs) @ ?junk) (of_nat (4 + length ?xs)) = Inr (st, pos)" "st \<noteq> OID_SEARCH_HIT"
      using find_miss [OF _ xs] by blast
    then show ?thesis using None by (simp add: p(3) SNMPProcessSetRequest_def b(1))
  next
    case (Some k)
    then have "mib_get ([1, 3, 6, 1] @ ?xs) = int k" unfolding mib_get_def by simp
    then have f: "SNMPFindOID (([1, 3, 6, 1] @ ?xs) @ ?junk) (of_nat (4 + length ds)) = Inr (OID_SEARCH_HIT, of_nat k)" "k < 50"
      using find_hit [OF _ xs, of k ?junk] by simp_all
    have u: "uint (of_nat k :: u32) = int k" using f(2) by (simp add: uint_nat)
    have sub: "(of_nat k :: u32) - of_int (int d) = of_nat (k - d)" if "d \<le> k" for d using that by (simp add: of_nat_diff)
    have num: "(of_int OID_PWR0 :: u32) = of_int (int 19)" "(of_int OID_LIMIT0 :: u32) = of_int (int 29)"
      "(of_int OID_INRUSH0 :: u32) = of_int (int 39)" by simp_all
    have "SNMPProcessSetRequest packet p srcip srcport (as_read request_id) s =
        andthen (snmp_set_action k (as_read v) s) (\<lambda>(i, s). SNMPSendGetResponse srcip srcport (as_read request_id) i s)"
      unfolding SNMPProcessSetRequest_def b(1) andthen_simps option.case prod.case f(1) Let_def e u num snmp_set_action_def
      using sint_index [of k] f(2) sub [of 19] sub [of 29] sub [of 39]
      by (auto simp: andthen_assoc split_def simp del: of_int_of_nat_eq)
    then show ?thesis using Some p(3) by simp
  qed
qed

section \<open>The community string\<close>

text \<open>A packet of version 2c whose community string begins as ours and ends or has a null there.\<close>

definition snmp_authorised :: "u32 \<Rightarrow> pdu \<Rightarrow> bool" where
  "snmp_authorised packet s \<longleftrightarrow> (\<exists>l0 p0 p1 len p2.
     BERDecodeChunkHeader packet 0 s = Inr (Some (ASN1_TYPE_SEQUENCE_CONSTRUCTED, l0, p0)) \<and>
     BERDecodeExpectedInteger packet p0 s = Inr (Some (SNMP_VERSION_2C, p1)) \<and>
     BERDecodeChunkHeader packet p1 s = Inr (Some (ASN1_TYPE_OCTET_STRING, len, p2)) \<and> 6 \<le> unat len \<and>
     holds_bytes (mem s) (packet + p2) public_name \<and> (unat len = 6 \<or> mem s (packet + p2 + 6) = 0))"

lemma ber_copy_result:
  assumes "ber_copy message n i pos dout s = Inr (d, p)" and "i + n \<le> length dout"
  shows "d = take i dout @ map (\<lambda>j. mem s (message + pos + of_nat j)) [0..<n] @ drop (i + n) dout"
  using assms
proof (induction n arbitrary: i pos dout)
  case (Suc n)
  then obtain b where b: "load8 (message + pos) s = Inr b" "ber_copy message n (i + 1) (pos + 1) (dout[i := b]) s = Inr (d, p)"
    by (auto simp: andthen_Inr_iff aset_def split: if_splits)
  have m: "b = mem s (message + pos)" using b(1) by (simp add: load8_def split: if_splits)
  have "d = take (i + 1) (dout[i := b]) @ map (\<lambda>j. mem s (message + (pos + 1) + of_nat j)) [0..<n] @ drop (i + 1 + n) (dout[i := b])"
    by (rule Suc.IH [OF b(2)]) (use Suc.prems in simp)
  moreover have "take (i + 1) (dout[i := b]) = take i dout @ [b]" using Suc.prems(2) by (simp add: take_Suc_conv_app_nth)
  moreover have "[b] @ map (\<lambda>j. mem s (message + (pos + 1) + of_nat j)) [0..<n] = map (\<lambda>j. mem s (message + pos + of_nat j)) [0..<Suc n]"
    by (simp add: upt_rec [of 0] map_Suc_upt [symmetric] m algebra_simps del: upt_Suc)
  ultimately show ?case by simp
qed simp

lemma octets_faults: "(\<And>r. Q r) \<Longrightarrow> (\<And>a. E (MMUFault a)) \<Longrightarrow> wp E Q (ber_octets message n x pos s)"
  by (induction n arbitrary: x pos) (auto intro!: load8_vcg)

lemma header_faults: "(\<And>r. Q r) \<Longrightarrow> (\<And>a. E (MMUFault a)) \<Longrightarrow> wp E Q (BERDecodeChunkHeader message pos s)"
  unfolding BERDecodeChunkHeader_def Let_def by (auto intro!: load8_vcg octets_faults)

lemma integer_faults: "(\<And>r. Q r) \<Longrightarrow> (\<And>a. E (MMUFault a)) \<Longrightarrow> wp E Q (BERDecodeExpectedInteger message pos s)"
  unfolding BERDecodeExpectedInteger_def BERDecodeInteger_def
  by (auto intro!: header_faults octets_faults split: option.split)

lemma copy_faults:
  "i + n \<le> length dout \<Longrightarrow> (\<And>r. Q r) \<Longrightarrow> (\<And>a. E (MMUFault a)) \<Longrightarrow> wp E Q (ber_copy message n i pos dout s)"
  by (induction n arbitrary: i pos dout) (auto intro!: load8_vcg)

lemma string_faults:
  assumes "unat maxlen \<le> length dout" and "\<And>r. Q r" and "\<And>a. E (MMUFault a)"
  shows "wp E Q (BERDecodeString message pos len maxlen dout s)"
proof (cases "len \<ge> maxlen")
  case False
  then have l: "unat len < length dout" using assms(1) by (simp add: word_le_nat_alt)
  have "wp E (\<lambda>(d, p). length d = length dout) (ber_copy message (unat len) 0 pos dout s)"
    by (rule wp_result [OF copy_faults [where Q = "\<lambda>_. True"]])
      (use l assms(3) ber_copy_result [of message "unat len" 0 pos dout s] in auto)
  then show ?thesis
    using False l assms(2) unfolding BERDecodeString_def
    by (auto elim!: wp_mono intro: aset_wp)
qed (simp add: BERDecodeString_def assms(2))

lemma string_shape:
  assumes s: "BERDecodeString message pos len 32 dout s = Inr (Some (d, p'))" and l: "length dout = 32"
  shows "unat len < 32" "d = map (\<lambda>j. mem s (message + pos + of_nat j)) [0..<unat len] @ 0 # drop (Suc (unat len)) dout"
    "terminated d"
proof -
  show lt: "unat len < 32" using s by (auto simp: BERDecodeString_def word_le_nat_alt split: if_splits)
  from s obtain d0 where d0: "ber_copy message (unat len) 0 pos dout s = Inr (d0, p')" "aset d0 (unat len) 0 = Inr d"
    by (auto simp: BERDecodeString_def andthen_Inr_iff split: if_splits)
  let ?bs = "map (\<lambda>j. mem s (message + pos + of_nat j)) [0..<unat len]"
  have e: "d0 = ?bs @ drop (unat len) dout" using ber_copy_result [OF d0(1)] lt l by simp
  show d: "d = ?bs @ 0 # drop (Suc (unat len)) dout"
    using d0(2) lt l by (simp add: e list_update_append Cons_nth_drop_Suc [symmetric])
  then show "terminated d" by (simp add: terminated_def)
qed

lemma community_accepted:
  assumes s: "BERDecodeString message pos len 32 dout s = Inr (Some (d, p'))" and l: "length dout = 32"
    and c: "strcmp d g_communityString = Inr 0"
  shows "6 \<le> unat len \<and> holds_bytes (mem s) (message + pos) public_name \<and> (unat len = 6 \<or> mem s (message + pos + 6) = 0)"
proof -
  let ?bs = "map (\<lambda>j. mem s (message + pos + of_nat j)) [0..<unat len]"
  note d = string_shape [OF s l]
  have "c_text d = takeWhile (\<lambda>c. c \<noteq> 0) ?bs" unfolding d(2) c_text_def by (rule takeWhile_tail) simp
  then have tw: "takeWhile (\<lambda>c. c \<noteq> 0) ?bs = public_name"
    using strcmp_text [of d g_communityString] d(3) community_text c by auto
  then have le: "6 \<le> unat len" using length_takeWhile_le [of "\<lambda>c. c \<noteq> 0" ?bs] community_text(3) by simp
  have tk: "take 6 ?bs = public_name" using takeWhile_eq_take [of "\<lambda>c. c \<noteq> 0" ?bs] tw community_text(3) by simp
  have "mem s (message + pos + of_nat j) = public_name ! j" if "j < 6" for j
    using arg_cong [OF tk, of "\<lambda>xs. xs ! j"] that le by simp
  then have "holds_bytes (mem s) (message + pos) public_name"
    using community_text(3) by (simp add: holds_bytes_def)
  moreover have "unat len = 6 \<or> mem s (message + pos + 6) = 0"
    using nth_length_takeWhile [of "\<lambda>c. c \<noteq> 0" ?bs] tw community_text(3) le by (cases "unat len = 6") auto
  ultimately show ?thesis using le by blast
qed

lemma snmp_gate:
  assumes l: "length (stack_community (cfg s)) = 32" and n: "\<not> snmp_authorised packet s"
  shows "wp (\<lambda>h. \<exists>a. h = MMUFault a) (\<lambda>s'. s' = s)
    (andthen (BERDecodeChunkHeader packet 0 s) (\<lambda>r. case r of None \<Rightarrow> Inr s | Some (type, len, pos) \<Rightarrow>
     if type \<noteq> ASN1_TYPE_SEQUENCE_CONSTRUCTED then Inr s else
     andthen (BERDecodeExpectedInteger packet pos s) (\<lambda>r. case r of None \<Rightarrow> Inr s | Some (snmp_version, pos) \<Rightarrow>
     if snmp_version \<noteq> SNMP_VERSION_2C then Inr s else
     andthen (BERDecodeChunkHeader packet pos s) (\<lambda>r. case r of None \<Rightarrow> Inr s | Some (type, len, pos) \<Rightarrow>
     if type \<noteq> ASN1_TYPE_OCTET_STRING then Inr s else
     andthen (BERDecodeString packet pos len 32 (stack_community (cfg s)) s) (\<lambda>r. case r of None \<Rightarrow> Inr s | Some (community, pos) \<Rightarrow>
     andthen (strcmp community g_communityString) (\<lambda>c. if c \<noteq> 0 then Inr s else request pos))))))"
proof -
  have step: "wp E Q (andthen m (\<lambda>r. case r of None \<Rightarrow> Inr s | Some x \<Rightarrow> f x))"
    if "wp E (\<lambda>_. True) m" "Q s" "\<And>x. m = Inr (Some x) \<Longrightarrow> wp E Q (f x)"
    for E Q and m :: "'b option res" and f :: "'b \<Rightarrow> pdu res"
    using that by (auto simp: wp_def split: sum.splits option.splits)
  have cmp: "wp E Q (andthen (strcmp d g_communityString) (\<lambda>c. if c \<noteq> 0 then Inr s else f c))"
    if "BERDecodeString packet p2 len 32 (stack_community (cfg s)) s = Inr (Some (d, p'))" "Q s"
      "BERDecodeChunkHeader packet 0 s = Inr (Some (ASN1_TYPE_SEQUENCE_CONSTRUCTED, l0, p0))"
      "BERDecodeExpectedInteger packet p0 s = Inr (Some (SNMP_VERSION_2C, p1))"
      "BERDecodeChunkHeader packet p1 s = Inr (Some (ASN1_TYPE_OCTET_STRING, len, p2))"
    for E Q p0 p1 p2 p' len d l0 and f :: "int \<Rightarrow> pdu res"
  proof -
    note terminated = string_shape(3) [OF that(1) l]
    obtain r where r: "strcmp d g_communityString = Inr r"
      using strcmp_text [OF terminated community_text(2)] by blast
    have "r \<noteq> 0" using community_accepted [OF that(1) l] r n that(3-5) unfolding snmp_authorised_def by blast
    then show ?thesis using r that(2) by simp
  qed
  have "unat (32 :: u32) \<le> length (stack_community (cfg s))" using l by simp
  then show ?thesis
    by (auto simp del: wp_simps(3) intro!: step cmp header_faults integer_faults string_faults) ((assumption | rule refl)+)
qed

lemma snmp_needs_community:
  assumes "length (stack_community (cfg s)) = 32" and "\<not> snmp_authorised packet s"
  shows "wp (\<lambda>h. \<exists>a. h = MMUFault a) (\<lambda>s'. s' = s) (SNMPProcessPacket packet srcip srcport bytelen s)"
  unfolding SNMPProcessPacket_def Let_def by (rule snmp_gate [OF assms])

end
