(* ===== verification/Pdu_Snmp_Get.thy ===== *)
theory Pdu_Snmp_Get
  imports Pdu_Snmp_Spec
begin

text \<open>
  The response of the SNMP agent, byte for byte: the value of an object that the firmware keeps in its memory, the
  message around it, and the frame it goes out in; with the properties of the agent.
\<close>

section \<open>Values\<close>

text \<open>
  The value of the object with index \<open>i\<close> of the table, for the objects whose value is in memory (those of the sensors
  and the output states are asked from the peripherals); a negative index is one of the two exceptions.
\<close>

definition snmp_value :: "pdu \<Rightarrow> int \<Rightarrow> u8 list option" where
  "snmp_value s i =
     (if i = -2 then Some [0x80, 0]
      else if i < 0 then Some [0x82, 0]
      else if i = 0 then Some (ber_string (c_text (software_version (cfg s))))
      else if i = 1 then Some (ber_oid [4, 1, DRAWERSTEAK_PEN, 1, 1])
      else if i = 2 then Some (ber_integer (g_uptime s * 100 div 4))
      else if i = 3 then Some (ber_string (c_text (g_hostname s)))
      else if i = 4 then Some (ber_integer 0x48)
      else if 29 \<le> i \<and> i \<le> 38 then Some (ber_integer (g_currentLimits s ! nat (i - 29)))
      else if 39 \<le> i \<and> i \<le> 48 then Some (ber_integer (g_inrushTimers s ! nat (i - 39)))
      else if i = 49 then Some (ber_integer (g_vnom s))
      else None)"

text \<open>The name that a response carries: of the object, or of the last one of the table when there is none.\<close>

definition snmp_name :: "int \<Rightarrow> u16 list" where
  "snmp_name i = (let row = g_oids ! (if i < 0 then 49 else nat i) in take (unat (hd row)) (tl row))"

lemma wrote_globals:
  fixes s :: pdu
  shows "cfg (wrote s a bs) = cfg s" "g_uptime (wrote s a bs) = g_uptime s" "g_hostname (wrote s a bs) = g_hostname s"
    "g_currentLimits (wrote s a bs) = g_currentLimits s" "g_inrushTimers (wrote s a bs) = g_inrushTimers s"
    "g_vnom (wrote s a bs) = g_vnom s" "hosts (wrote s a bs) = hosts s"
  by (simp_all add: wrote_def hosts_def)

lemma ber_string_length: "length bs \<le> length (ber_string bs)"
  by (simp add: ber_string_def)

lemma snmp_body_wrote:
  assumes r: "room s (message + pos) n" and v: "snmp_value s i = Some v" and l: "length (bs @ v) \<le> n" and n: "n < 65536"
    and ok: "pdu_ok s"
  shows "SNMPGenerateGetPacketBody message (adv pos bs) i (wrote s (message + pos) bs) =
    Inr (adv pos (bs @ v), wrote s (message + pos) (bs @ v))"
proof -
  have sw: "terminated (software_version (cfg s))"
    unfolding terminated_def software_version_def cstr_def by (simp only: set_append list.set Un_iff insert_iff simp_thms)
  have host: "terminated (g_hostname s)"
    using ok nth_mem [of 31 "g_hostname s"] by (simp add: pdu_ok_def terminated_def)
  have dev: "g_deviceOid = of_nat (length [4, 1, DRAWERSTEAK_PEN, 1, 1]) # [4, 1, DRAWERSTEAK_PEN, 1, 1] @ []"
    by (simp add: g_deviceOid_def)
  have lens: "length (g_currentLimits s) = 10" "length (g_inrushTimers s) = 10" using ok by (simp_all add: pdu_ok_def)
  have text_len: "length (c_text t) < 65536" if "v = ber_string (c_text t)" for t
    using ber_string_length [of "c_text t"] l n that by simp
  show ?thesis
    using v l text_len lens
    by (auto simp: snmp_value_def SNMPGenerateGetPacketBody_def wrote_globals emit_wrote [OF r] BEREncodeInteger_wrote [OF r]
        BEREncodeString_wrote [OF r _ sw] BEREncodeString_wrote [OF r _ host] BEREncodeOID_wrote [OF r _ dev]
        split: if_splits)
qed

section \<open>The message\<close>

lemma snmp_row:
  assumes "i < 50"
  shows "g_oids ! (if i < 0 then 49 else nat i) = of_nat (length (snmp_name i)) # snmp_name i @
      drop (unat (hd (g_oids ! (if i < 0 then 49 else nat i)))) (tl (g_oids ! (if i < 0 then 49 else nat i)))"
    "length (snmp_name i) < 80"
proof -
  let ?r = "g_oids ! (if i < 0 then 49 else nat i)"
  have "?r \<in> set g_oids" using assms by simp
  then have r: "length ?r = 7" "hd ?r = 5 \<or> hd ?r = 6" using rows_ok by blast+
  then have n: "unat (hd ?r) \<le> length (tl ?r)" by auto
  then have l: "length (snmp_name i) = unat (hd ?r)" by (simp add: snmp_name_def Let_def)
  have "?r = hd ?r # take (unat (hd ?r)) (tl ?r) @ drop (unat (hd ?r)) (tl ?r)" using r(1) by (cases ?r) simp_all
  then show "?r = of_nat (length (snmp_name i)) # snmp_name i @ drop (unat (hd ?r)) (tl ?r)"
    unfolding l by (simp add: snmp_name_def Let_def)
  show "length (snmp_name i) < 80" using l r(2) by auto
qed

text \<open>
  A message as the agent and its clients write it: with the type \<open>t\<close>, the community string, the request identifier, the name and what \<open>put\<close>
  writes for the value; \<open>k\<close> is what follows.
\<close>

definition snmp_encode :: "u32 \<Rightarrow> u8 \<Rightarrow> u8 list \<Rightarrow> u32 \<Rightarrow> u16 list \<Rightarrow> (u32 \<Rightarrow> 'a cpu_scheme \<Rightarrow> (u32 \<times> 'a cpu_scheme) res) \<Rightarrow>
    (u32 \<Rightarrow> 'a cpu_scheme \<Rightarrow> 'b res) \<Rightarrow> 'a cpu_scheme \<Rightarrow> 'b res" where
  "snmp_encode body t community request_id oid_entry put k s =
     andthen (BEREncodeSequenceHeader body 0 (ucast ASN1_TYPE_SEQUENCE_CONSTRUCTED) s) (\<lambda>(packlen, packet_len_ptr, s).
     andthen (BEREncodeInteger body packlen SNMP_VERSION_2C s) (\<lambda>(packlen, s).
     andthen (BEREncodeString body packlen community s) (\<lambda>(packlen, s).
     andthen (BEREncodeSequenceHeader body packlen t s) (\<lambda>(packlen, body_len_ptr, s).
     andthen (BEREncodeInteger body packlen request_id s) (\<lambda>(packlen, s).
     andthen (BEREncodeInteger body packlen 0 s) (\<lambda>(packlen, s).
     andthen (BEREncodeInteger body packlen 0 s) (\<lambda>(packlen, s).
     andthen (BEREncodeSequenceHeader body packlen (ucast ASN1_TYPE_SEQUENCE_CONSTRUCTED) s) (\<lambda>(packlen, varbind_list_len_ptr, s).
     andthen (BEREncodeSequenceHeader body packlen (ucast ASN1_TYPE_SEQUENCE_CONSTRUCTED) s) (\<lambda>(packlen, varbind_len_ptr, s).
     andthen (BEREncodeOID body packlen oid_entry s) (\<lambda>(packlen, s).
     andthen (put packlen s) (\<lambda>(packlen, s).
     andthen (BEREndSequence body packlen varbind_len_ptr s) (\<lambda>s.
     andthen (BEREndSequence body packlen varbind_list_len_ptr s) (\<lambda>s.
     andthen (BEREndSequence body packlen body_len_ptr s) (\<lambda>s.
     andthen (BEREndSequence body packlen packet_len_ptr s) (\<lambda>s. k packlen s)))))))))))))))"

lemma snmp_response_code:
  "SNMPSendGetResponse srcip srcport request_id i s =
     andthen (EthernetAllocateFrame s) (\<lambda>(frame, s). if frame = 0 then Inr s else
     andthen (aget g_oids (if i < 0 then g_oidListMax else nat i)) (\<lambda>oid_entry.
     snmp_encode (UDPv4GetTxBodyPtr frame) ASN1_TYPE_SNMP_GETRESPONSE g_communityString request_id oid_entry
       (\<lambda>packlen. SNMPGenerateGetPacketBody (UDPv4GetTxBodyPtr frame) packlen i)
       (UDPv4SendPacket frame srcip SNMP_AGENT_PORT (ucast srcport)) s))"
  by (simp only: SNMPSendGetResponse_def snmp_encode_def Let_def)

lemma snmp_encode_wrote:
  assumes r: "room s body n" and n: "n < 65536" and com: "terminated community" "c_text community = public_name"
    and row: "row = of_nat (length ds) # ds @ unused" "length ds < 80"
    and put: "\<And>bs. length (bs @ v) \<le> n \<Longrightarrow> put (adv 0 bs) (wrote s body bs) = Inr (adv 0 (bs @ v), wrote s body (bs @ v))"
    and l: "length (snmp_message t request_id (ber_oid ds @ v)) \<le> n"
  shows "snmp_encode body t community request_id row put k s =
    k (of_nat (length (snmp_message t request_id (ber_oid ds @ v)))) (wrote s body (snmp_message t request_id (ber_oid ds @ v)))"
proof -
  have r0: "room s (body + 0) n" using r by simp
  define H where "H = [0x30, 0x82, 0xCC, 0xCC :: u8]"
  define B where "B = [t, 0x82, 0xCC, 0xCC :: u8]"
  let ?I = "ber_integer 1" and ?S = "ber_string public_name" and ?R = "ber_integer request_id" and ?Z = "ber_integer 0"
    and ?O = "ber_oid ds"
  have len: "length H = 4" "length B = 4" by (simp_all add: H_def B_def)
  have tot: "length ?I + length ?S + length ?R + 2 * length ?Z + length ?O + length v + 16 \<le> n"
    using l by (simp add: snmp_message_def ber_seq_def)
  let ?w = "wrote s body"
  have hdr: "BEREncodeSequenceHeader body (adv 0 bs) 0x30 (?w bs) = Inr (adv 0 (bs @ H), adv 0 (bs @ [0x30, 0x82]), ?w (bs @ H))"
    "BEREncodeSequenceHeader body (adv 0 bs) t (?w bs) = Inr (adv 0 (bs @ B), adv 0 (bs @ [t, 0x82]), ?w (bs @ B))"
    if "length bs + 4 \<le> n" for bs
    using BEREncodeSequenceHeader_wrote [OF r0 that] by (simp_all add: H_def B_def)
  have start: "BEREncodeSequenceHeader body 0 0x30 s = Inr (adv 0 H, adv 0 [0x30, 0x82], ?w H)"
    using hdr(1) [of "[]"] tot by (simp add: adv_Nil wrote_Nil)
  note int = BEREncodeInteger_wrote [OF r0, unfolded add_0_right]
  have str: "BEREncodeString body (adv 0 bs) community (?w bs) = Inr (adv 0 (bs @ ?S), ?w (bs @ ?S))"
    if "length (bs @ ?S) \<le> n" for bs
    using BEREncodeString_wrote [OF r0, of bs community] that com community_text(3) by simp
  have oid: "BEREncodeOID body (adv 0 bs) row (?w bs) = Inr (adv 0 (bs @ ?O), ?w (bs @ ?O))"
    if "length (bs @ ?O) \<le> n" for bs
    using BEREncodeOID_wrote [OF r0 that row] by simp
  have fin: "BEREndSequence body (adv 0 bs) (adv 0 (pre @ [u, 0x82])) (?w (pre @ h @ c)) = Inr (?w (pre @ ber_seq u c))"
    if "h = [u, 0x82, 0xCC, 0xCC]" "length bs = length (pre @ h @ c)" "length bs \<le> n" for bs pre h u c
  proof -
    have "adv 0 bs = adv 0 (pre @ h @ c)" using that(2) by (simp add: adv_def)
    then show ?thesis using BEREndSequence_wrote [OF r0, of pre u c] that n by simp
  qed
  let ?all = "H @ ?I @ ?S @ B @ ?R @ ?Z @ ?Z @ H @ H @ ?O @ v"
  have sl: "length (ber_seq u c) = 4 + length c" for u c by (simp add: ber_seq_def)
  note e1 = fin [OF H_def, of ?all "H @ ?I @ ?S @ B @ ?R @ ?Z @ ?Z @ H" "?O @ v"]
  note e2 = fin [OF H_def, of ?all "H @ ?I @ ?S @ B @ ?R @ ?Z @ ?Z" "ber_seq 0x30 (?O @ v)"]
  note e3 = fin [OF B_def, of ?all "H @ ?I @ ?S" "?R @ ?Z @ ?Z @ ber_seq 0x30 (ber_seq 0x30 (?O @ v))"]
  note e4 = fin [OF H_def, of ?all "[]" "?I @ ?S @ ber_seq t (?R @ ?Z @ ?Z @ ber_seq 0x30 (ber_seq 0x30 (?O @ v)))"]
  have fins: "BEREndSequence body (adv 0 ?all) (adv 0 (H @ ?I @ ?S @ B @ ?R @ ?Z @ ?Z @ H @ [0x30, 0x82])) (?w ?all) =
      Inr (?w (H @ ?I @ ?S @ B @ ?R @ ?Z @ ?Z @ H @ ber_seq 0x30 (?O @ v)))"
    "BEREndSequence body (adv 0 ?all) (adv 0 (H @ ?I @ ?S @ B @ ?R @ ?Z @ ?Z @ [0x30, 0x82]))
       (?w (H @ ?I @ ?S @ B @ ?R @ ?Z @ ?Z @ H @ ber_seq 0x30 (?O @ v))) =
      Inr (?w (H @ ?I @ ?S @ B @ ?R @ ?Z @ ?Z @ ber_seq 0x30 (ber_seq 0x30 (?O @ v))))"
    "BEREndSequence body (adv 0 ?all) (adv 0 (H @ ?I @ ?S @ [t, 0x82]))
       (?w (H @ ?I @ ?S @ B @ ?R @ ?Z @ ?Z @ ber_seq 0x30 (ber_seq 0x30 (?O @ v)))) =
      Inr (?w (H @ ?I @ ?S @ ber_seq t (?R @ ?Z @ ?Z @ ber_seq 0x30 (ber_seq 0x30 (?O @ v)))))"
    "BEREndSequence body (adv 0 ?all) (adv 0 [0x30, 0x82])
       (?w (H @ ?I @ ?S @ ber_seq t (?R @ ?Z @ ?Z @ ber_seq 0x30 (ber_seq 0x30 (?O @ v))))) =
      Inr (?w (ber_seq 0x30 (?I @ ?S @ ber_seq t (?R @ ?Z @ ?Z @ ber_seq 0x30 (ber_seq 0x30 (?O @ v))))))"
    using e1 e2 e3 e4 tot by (simp_all add: len sl)
  have "snmp_encode body t community request_id row put k s = k (adv 0 ?all) (?w (snmp_message t request_id (?O @ v)))"
    using tot unfolding snmp_encode_def
    by (simp add: start hdr int str oid put fins len snmp_message_def del: if_split)
  moreover have "adv 0 ?all = of_nat (length (snmp_message t request_id (?O @ v)))"
    by (simp add: adv_def snmp_message_def sl len)
  ultimately show ?thesis by simp
qed

lemma snmp_encode_exact:
  assumes r: "room s body n" and v: "snmp_value s i = Some v" and i: "i < 50" and ok: "pdu_ok s" and n: "n < 65536"
    and l: "length (snmp_message 0xA2 request_id (ber_oid (snmp_name i) @ v)) \<le> n"
  shows "snmp_encode body 0xA2 g_communityString request_id (g_oids ! (if i < 0 then 49 else nat i))
      (\<lambda>packlen. SNMPGenerateGetPacketBody body packlen i) k s =
    k (of_nat (length (snmp_message 0xA2 request_id (ber_oid (snmp_name i) @ v))))
      (wrote s body (snmp_message 0xA2 request_id (ber_oid (snmp_name i) @ v)))"
proof (rule snmp_encode_wrote [OF r n community_text(2,1) snmp_row [OF i] _ l])
  have "room s (body + 0) n" using r by simp
  from snmp_body_wrote [OF this v _ n ok]
  show "SNMPGenerateGetPacketBody body (adv 0 bs) i (wrote s body bs) = Inr (adv 0 (bs @ v), wrote s body (bs @ v))"
    if "length (bs @ v) \<le> n" for bs
    using that by simp
qed

section \<open>The frame\<close>

lemma page_of_byte:
  assumes "aligned p" and "k < 2048"
  shows "(p + of_nat k) AND PAGE_MASK = p"
proof -
  obtain q where q: "unat p = 2048 * q" using assms(1) by (auto simp: aligned_def)
  then have "q < 2097152" using unat_u32_bound [of p] by simp
  then have "unat (p + of_nat k) = unat p + k" using assms(2) q by (intro unat_add_of_nat) simp
  then have "unat (p + of_nat k) mod 2048 = k" using q assms(2) by simp
  then show ?thesis by (simp add: page_mask)
qed

lemma body_ptr: "UDPv4GetTxBodyPtr p = p + of_nat 28"
  by (simp add: UDPv4GetTxBodyPtr_def IPv4GetTxBodyPtr_def word_at_def)

lemma body_room:
  assumes "aligned p" and "mmu s p = PAGE_READ_WRITE"
  shows "room s (UDPv4GetTxBodyPtr p) 2020"
proof -
  have "writable (UDPv4GetTxBodyPtr p + of_nat i) s" if "i < 2020" for i
  proof -
    have a: "UDPv4GetTxBodyPtr p + of_nat i = p + of_nat (28 + i)" by (simp add: body_ptr)
    have "(p + of_nat (28 + i)) AND PAGE_MASK = p" using that by (intro page_of_byte [OF assms(1)]) simp
    moreover have "bit (PAGE_READ_WRITE :: u32) 1" by (simp add: bit_word_iff_drop_bit_and)
    ultimately show ?thesis using assms(2) unfolding writable_def a by (simp only:)
  qed
  then show ?thesis by (simp add: room_def spans_def can_write_def)
qed

lemma be32_bytes:
  assumes "be32 m a = be32 m' a"
  shows "m a = m' a" "m (a + 1) = m' (a + 1)" "m (a + 2) = m' (a + 2)" "m (a + 3) = m' (a + 3)"
proof -
  have b: "(ucast (drop_bit 24 (be32 m a)) :: u8) = m a" "(ucast (drop_bit 16 (be32 m a)) :: u8) = m (a + 1)"
    "(ucast (drop_bit 8 (be32 m a)) :: u8) = m (a + 2)" "(ucast (be32 m a) :: u8) = m (a + 3)" for m
    by (rule bit_word_eqI; auto simp: be32_def bit_simps dest: bit_imp_le_length)+
  show "m a = m' a" "m (a + 1) = m' (a + 1)" "m (a + 2) = m' (a + 2)" "m (a + 3) = m' (a + 3)"
    using b [of m] b [of m'] assms by simp_all
qed

lemma words_bytes:
  assumes w: "\<And>i. k \<le> i \<Longrightarrow> i < n \<Longrightarrow> be32 m (word_at p (of_nat i)) = be32 m' (word_at p (of_nat i))"
    and h: "holds_bytes m (p + of_nat (4 * k)) bs" and l: "4 * k + length bs \<le> 4 * n"
  shows "holds_bytes m' (p + of_nat (4 * k)) bs"
  unfolding holds_bytes_def
proof (intro allI impI)
  fix j assume j: "j < length bs"
  let ?i = "k + j div 4" and ?r = "j mod 4"
  have a: "p + of_nat (4 * k) + of_nat j = word_at p (of_nat ?i) + of_nat ?r"
  proof -
    have "j = 4 * (j div 4) + j mod 4" by simp
    from arg_cong [OF this, of of_nat] have "(of_nat j :: u32) = 4 * of_nat (j div 4) + of_nat (j mod 4)"
      by (simp only: of_nat_add of_nat_mult of_nat_numeral)
    then show ?thesis by (simp add: word_at_def algebra_simps)
  qed
  have "j div 4 < n - k" using l j by linarith
  then have "k \<le> ?i" "?i < n" by linarith+
  note e = be32_bytes [OF w [OF this]]
  have "?r = 0 \<or> ?r = 1 \<or> ?r = 2 \<or> ?r = 3" by linarith
  then have "m (word_at p (of_nat ?i) + of_nat ?r) = m' (word_at p (of_nat ?i) + of_nat ?r)"
    using e by (elim disjE) simp_all
  then show "m' (p + of_nat (4 * k) + of_nat j) = bs ! j"
    using h j unfolding holds_bytes_def a [symmetric] by simp
qed

lemma hop_more: "cpu.more t = cpu.more s \<Longrightarrow> hop_mac t = hop_mac s" "cpu.more t = cpu.more s \<Longrightarrow> next_hop t = next_hop s"
  using pdu_more [of t s] by (simp_all add: fun_eq_iff hop_mac_def next_hop_def)

lemma SNMPSendGetResponse_sends:
  assumes alloc: "EthernetAllocateFrame s = Inr (frame_addr phy, s1)" and phy: "ram_page phy"
    and ok: "pdu_ok s" "output_apart s" and hop: "hop_mac s (next_hop s srcip) = Some mac"
    and v: "snmp_value s i = Some v" and i: "i < 50"
    and msg: "msg = snmp_message 0xA2 request_id (ber_oid (snmp_name i) @ v)" "length msg \<le> 2020"
  shows "wp only_blocks (\<lambda>s'. cpu.more s' = cpu.more s \<and> mmu s' = (mmu s)(frame_addr phy := PAGE_GUARD) \<and>
      take 7 (frame_words (mem s') (frame_addr phy) (max 13 (ip_words (length msg + 8)))) =
        udp_frame (g_ipAddress s) srcip SNMP_AGENT_PORT (ucast srcport) (of_nat (length msg)) [] \<and>
      holds_bytes (mem s') (UDPv4GetTxBodyPtr (frame_addr phy)) msg \<and>
      (\<exists>r reqs. sends s s' (rpc_request (g_ramAddr s) RAM_ALLOCATE 0 0 0 # reqs) \<and>
         frame_fate s (frame_addr phy) (fst mac) (mac_lo mac) (ETHERTYPE_IPV4 (cfg s)) (max 13 (ip_words (length msg + 8))) r reqs))
    (SNMPSendGetResponse srcip srcport request_id i s)"
proof -
  let ?f = "frame_addr phy" and ?n = "of_nat (length msg) :: u32"
  note g = alloc_granted [OF alloc phy]
  note more = pdu_more [OF g(5)]
  let ?t = "wrote s1 (UDPv4GetTxBodyPtr ?f) msg"
  have mm: "mmu s1 ?f = PAGE_READ_WRITE" using g(7) by simp
  have "wp no_overrun (\<lambda>(f, t). pdu_ok t) (EthernetAllocateFrame s)"
    by (rule EthernetAllocateFrame_evolves [OF evolves_refl [OF ok]]) (simp_all add: evolves_ok)
  from wp_Inr [OF this alloc] have ok1: "pdu_ok s1" by simp
  have "snmp_value s1 = snmp_value s" by (simp add: fun_eq_iff snmp_value_def more)
  then have v1: "snmp_value s1 i = Some v" using v by simp
  have n: "unat ?n = length msg" by (rule u32_of_nat_unat_id) (use msg(2) in simp)
  have enc: "snmp_encode (UDPv4GetTxBodyPtr ?f) 0xA2 g_communityString request_id (g_oids ! (if i < 0 then 49 else nat i))
      (\<lambda>packlen. SNMPGenerateGetPacketBody (UDPv4GetTxBodyPtr ?f) packlen i) k s1 = k ?n ?t" for k
    unfolding msg(1) by (rule snmp_encode_exact [OF body_room [OF g(1) mm] v1 i ok1]) (use msg in simp_all)
  have tm: "cpu.more ?t = cpu.more s" using g(5) by simp
  have hop': "hop_mac ?t (next_hop ?t srcip) = Some mac"
    using hop by (simp only: hop_more [OF tm])
  have x: "sends s ?t [rpc_request (g_ramAddr s) RAM_ALLOCATE 0 0 0]"
    by (rule sends_same_log [OF g(4)]) simp
  have holds: "holds_bytes (mem ?t) (?f + of_nat (4 * 7)) msg"
    using holds_put_list [of msg "mem s1" "UDPv4GetTxBodyPtr ?f"] msg(2) by (simp add: wrote_def body_ptr)
  let ?W = "ip_words (length msg + 8)"
  have "wp only_blocks (\<lambda>s'. cpu.more s' = cpu.more s \<and> mmu s' = (mmu s)(?f := PAGE_GUARD) \<and>
      take 7 (frame_words (mem s') ?f (max 13 ?W)) = udp_frame (g_ipAddress s) srcip SNMP_AGENT_PORT (ucast srcport) ?n [] \<and>
      holds_bytes (mem s') (UDPv4GetTxBodyPtr ?f) msg \<and>
      (\<exists>r reqs. sends s s' (rpc_request (g_ramAddr s) RAM_ALLOCATE 0 0 0 # reqs) \<and>
         frame_fate s ?f (fst mac) (mac_lo mac) (ETHERTYPE_IPV4 (cfg s)) (max 13 ?W) r reqs))
    (UDPv4SendPacket ?f srcip SNMP_AGENT_PORT (ucast srcport) ?n ?t)"
  proof (rule UDPv4SendPacket_sends [OF g(1) _ _ _ hop' x], goal_cases)
    case (4 s' r reqs)
    have fate: "frame_fate ?t = frame_fate s"
      by (rule frame_fate_hosts) (use pdu_more [OF tm] in simp_all)
    note w = 4(5) [unfolded n]
    have W: "7 \<le> ?W" "4 * 7 + length msg \<le> 4 * ?W" by (simp_all add: ip_words_def)
    let ?h = "udp_frame (g_ipAddress s) srcip SNMP_AGENT_PORT (ucast srcport) ?n"
    have h7: "length (?h []) = 7" "?h ws = ?h [] @ ws" for ws
      by (simp_all add: udp_frame_def ipv4_header_def)
    have w': "frame_words (mem s') ?f (max 13 ?W) = ?h [] @ drop 7 (frame_words (mem ?t) ?f ?W) @ replicate (13 - ?W) 0"
      using w pdu_more [OF tm] by (simp add: h7(2) [of "drop 7 (frame_words (mem ?t) ?f ?W)"])
    have "be32 (mem ?t) (word_at ?f (of_nat i)) = be32 (mem s') (word_at ?f (of_nat i))" if "7 \<le> i" "i < ?W" for i
    proof -
      have "frame_words (mem s') ?f (max 13 ?W) ! i = frame_words (mem ?t) ?f ?W ! i"
        unfolding w' using that h7(1) diff_less_mono [OF that(2,1)] by (simp add: nth_append)
      then show ?thesis using that by (simp add: frame_words_nth)
    qed
    from words_bytes [OF this holds W(2)] have "holds_bytes (mem s') (UDPv4GetTxBodyPtr ?f) msg" by (simp add: body_ptr)
    moreover have "take 7 (frame_words (mem s') ?f (max 13 ?W)) = ?h []" unfolding w' using h7(1) by simp
    ultimately show ?case
      using 4(1-4) fate pdu_more [OF tm] g(7) n tm by auto
  qed (use mm msg(2) n ok1 in \<open>simp_all add: pdu_ok_def wrote_def\<close>)
  moreover have "aget g_oids (if i < 0 then 49 else nat i) = Inr (g_oids ! (if i < 0 then 49 else nat i))" using i by simp
  ultimately show ?thesis
    unfolding snmp_response_code alloc andthen_simps prod.case by (simp only: g(3) if_False andthen_simps enc)
qed

section \<open>Requests\<close>

lemma mib_name: "k < 50 \<Longrightarrow> mib ! k = [1, 3, 6, 1] @ map ucast (snmp_name (int k))"
  by (simp add: mib_nth subtree_def snmp_name_def Let_def)

lemma ucast_map_inj: "map ucast (xs :: u16 list) = map (ucast :: u16 \<Rightarrow> u32) ys \<longleftrightarrow> xs = ys"
proof -
  have "inj (ucast :: u16 \<Rightarrow> u32)" by (rule injI) (metis halves_of_word(3))
  then show ?thesis by (simp add: inj_map_eq_map)
qed

lemma mib_index_range: "mib_get oid < 50" "mib_next oid < 50"
proof -
  have "i < 50" if "find P [0..<50] = Some i" for P and i :: nat using that by (auto simp: find_Some_iff)
  then show "mib_get oid < 50" "mib_next oid < 50"
    by (auto simp: mib_get_def mib_next_def split: option.split)
qed

lemma mib_get_name: "mib_get ([1, 3, 6, 1] @ map ucast ds) = i \<Longrightarrow> 0 \<le> i \<Longrightarrow> snmp_name i = ds"
proof -
  assume g: "mib_get ([1, 3, 6, 1] @ map ucast ds) = i" "0 \<le> i"
  then obtain k where "find (\<lambda>i. mib ! i = [1, 3, 6, 1] @ map ucast ds) [0..<50] = Some k" "i = int k"
    by (auto simp: mib_get_def split: option.splits)
  then have "k < 50" "mib ! k = [1, 3, 6, 1] @ map ucast ds" by (auto simp: find_Some_iff)
  then show ?thesis using mib_name [of k] ucast_map_inj \<open>i = int k\<close> by simp
qed

lemma snmp_get:
  assumes r: "reads s packet (snmp_message t request_id (ber_oid ds @ v))" and t: "t = 0xA0 \<or> t = 0xA1"
    and ds: "ds \<noteq> []" "length ds \<le> 20"
    and stack: "length (stack_community (cfg s)) = 32" "length (stack_oid (cfg s)) = 24"
  shows "SNMPProcessPacket packet srcip srcport bytelen s = SNMPSendGetResponse srcip srcport (as_read request_id)
    (if t = 0xA0 then mib_get ([1, 3, 6, 1] @ map ucast ds) else mib_next ([1, 3, 6, 1] @ map ucast ds)) s"
proof -
  let ?oid = "[1, 3, 6, 1] @ map ucast ds :: u32 list" and ?junk = "drop (4 + length ds) (stack_oid (cfg s))"
  have "t AND 0x1F \<noteq> 0x1F" using t by auto
  from snmp_parse [OF r this stack(1), of srcip srcport bytelen] t
  obtain p where p: "reads s (packet + p) (ber_seq 0x30 (ber_oid ds @ v))" "unat p < 100"
    "SNMPProcessPacket packet srcip srcport bytelen s =
       SNMPProcessGetOrGetNextRequest packet p srcip srcport (as_read request_id) (t = 0xA1) s" by auto
  obtain p' where b: "snmp_varbind packet p s = Inr (Some (?oid @ ?junk, of_nat (4 + length ds), p'))"
    using snmp_varbind_reads [OF p(1,2) ds(2) stack(2)] by blast
  have len: "5 \<le> length ?oid" "length ?oid < 1000" "length ?oid = 4 + length ds" using ds by (cases ds; simp)+
  obtain st pos where f: "SNMPFindOID (?oid @ ?junk) (of_nat (4 + length ds)) = Inr (st, pos)"
    "snmp_index False st pos = mib_get ?oid" "snmp_index True st pos = mib_next ?oid"
    using snmp_lookup [OF len(1,2), of ?junk] unfolding len(3) by blast
  show ?thesis
    unfolding p(3) SNMPProcessGetOrGetNextRequest_def b andthen_simps option.case prod.case f(1)
    using t f(2,3) by auto
qed

section \<open>Properties\<close>

text \<open>
  The community string guards the agent. A packet that is not a version 2c message whose community
  begins with the one of the firmware (and ends there, or has a null next) does nothing whatever: no request
  is sent and no variable, memory or mapping changes; all that can happen is that the
  packet points outside the mapped pages and faults.
\<close>
lemma snmp_community_required:
  assumes "pdu_ok s" and "\<not> snmp_authorised packet s"
  shows "wp (\<lambda>h. \<exists>a. h = MMUFault a) (\<lambda>s'. s' = s) (SNMPProcessPacket packet srcip srcport bytelen s)"
  by (rule snmp_needs_community) (use assms in \<open>simp_all add: pdu_ok_def\<close>)

lemma snmp_community_required_witness:
  "\<not> snmp_authorised 0x1000 blank_pdu \<and>
   wp (\<lambda>h. \<exists>a. h = MMUFault a) (\<lambda>s'. s' = blank_pdu) (SNMPProcessPacket 0x1000 1 2 3 blank_pdu)"
proof -
  have "BERDecodeChunkHeader 0x1000 0 blank_pdu \<noteq> Inr (Some (0x30, l, p))" for l p
    by (simp add: BERDecodeChunkHeader_def load8_def readable_def Let_def)
  then have "\<not> snmp_authorised 0x1000 blank_pdu" by (simp add: snmp_authorised_def)
  then show ?thesis using snmp_community_required [of blank_pdu "0x1000"] by simp
qed

lemma snmp_get_response:
  assumes "reads s packet (snmp_message t request_id (ber_oid ds @ v))" and "t = 0xA0 \<or> t = 0xA1"
    and "ds \<noteq> []" and "length ds \<le> 20" and "pdu_ok s" and "output_apart s"
    and "i = (if t = 0xA0 then mib_get ([1, 3, 6, 1] @ map ucast ds) else mib_next ([1, 3, 6, 1] @ map ucast ds))"
    and "snmp_value s i = Some value"
    and "msg = snmp_message 0xA2 (as_read request_id) (ber_oid (snmp_name i) @ value)" and "length msg \<le> 2020"
    and "EthernetAllocateFrame s = Inr (frame_addr phy, s1)" and "ram_page phy"
    and "hop_mac s (next_hop s srcip) = Some mac"
  shows "(t = 0xA0 \<and> 0 \<le> i \<longrightarrow> snmp_name i = ds) \<and>
    wp only_blocks (\<lambda>s'. cpu.more s' = cpu.more s \<and> mmu s' = (mmu s)(frame_addr phy := PAGE_GUARD) \<and>
      take 7 (frame_words (mem s') (frame_addr phy) (max 13 (ip_words (length msg + 8)))) =
        udp_frame (g_ipAddress s) srcip SNMP_AGENT_PORT (ucast srcport) (of_nat (length msg)) [] \<and>
      holds_bytes (mem s') (UDPv4GetTxBodyPtr (frame_addr phy)) msg \<and>
      (\<exists>r reqs. sends s s' (rpc_request (g_ramAddr s) RAM_ALLOCATE 0 0 0 # reqs) \<and>
         frame_fate s (frame_addr phy) (fst mac) (mac_lo mac) (ETHERTYPE_IPV4 (cfg s)) (max 13 (ip_words (length msg + 8))) r reqs))
    (SNMPProcessPacket packet srcip srcport bytelen s)"
proof -
  have "i < 50" using assms(7) mib_index_range by simp
  note response = SNMPSendGetResponse_sends [OF assms(11,12,5,6,13,8) this assms(9,10)]
  have "SNMPProcessPacket packet srcip srcport bytelen s = SNMPSendGetResponse srcip srcport (as_read request_id) i s"
    using snmp_get [OF assms(1-4)] assms(5,7) by (simp add: pdu_ok_def)
  then show ?thesis using response mib_get_name assms(7) by auto
qed


lemma blank_reads:
  assumes "mem s = put_list (\<lambda>_. 0) a bs" and "mmu s = (\<lambda>_. 6)" and "length bs \<le> 4294967296"
  shows "reads s a bs"
  using assms holds_put_list [of bs "\<lambda>_. 0" a]
  by (auto simp: reads_def can_read_def readable_def bit_word_iff_drop_bit_and intro!: spans_all)

lemma mib_get_services: "mib_get ([1, 3, 6, 1] @ map ucast [2, 1, 1, 7, 0 :: u16]) = 4" "mib_get ([1, 3, 6, 1] @ map ucast [2, 1 :: u16]) = -2"
  by (simp_all add: mib_get_def mib_def subtree_def g_oids_def upt_rec)


text \<open>
  C15: a SET request, from the packet to the action. The object is looked up by its whole name; a name that
  is not in the table is answered with \<open>noSuchObject\<close>. Otherwise the action of the object runs, with the value as
  it is read: switching an output (only while the supply voltage has not locked the unit out), setting a current limit or
  an inrush time of the channel that the index counts; for any other object nothing is done. The response
  to the request comes after the action.
\<close>
theorem snmp_set_exact:
  assumes "reads s packet (snmp_message 0xA3 request_id (ber_oid ds @ ber_integer v))"
    and "ds \<noteq> []" and "length ds \<le> 20" and "pdu_ok s"
  shows "SNMPProcessPacket packet srcip srcport bytelen s =
    (case find (\<lambda>k. mib ! k = [1, 3, 6, 1] @ map ucast ds) [0..<50] of
       None \<Rightarrow> SNMPSendGetResponse srcip srcport (as_read request_id) (-2) s
     | Some k \<Rightarrow> andthen (snmp_set_action k (as_read v) s) (\<lambda>(i, s). SNMPSendGetResponse srcip srcport (as_read request_id) i s))"
  by (rule snmp_set [OF assms(1-3)]) (use assms(4) in \<open>simp_all add: pdu_ok_def\<close>)

theorem snmp_set_exact_witness:
  "let s = blank_pdu\<lparr>mem := put_list (\<lambda>_. 0) 0x1000 (snmp_message 0xA3 5 (ber_oid [2, 1] @ ber_integer 1))\<rparr> in
   SNMPProcessPacket 0x1000 1 2 3 s = SNMPSendGetResponse 1 2 5 (-2) s"
proof -
  let ?req = "snmp_message 0xA3 5 (ber_oid [2, 1] @ ber_integer 1)"
  let ?s = "blank_pdu\<lparr>mem := put_list (\<lambda>_. 0) 0x1000 ?req\<rparr>"
  have l: "length ?req \<le> 4294967296"
    by (simp add: snmp_message_def ber_seq_def ber_integer_def ber_content_def ber_string_def public_name_def ber_oid_def
        ber_digits_def ber_digit_def)
  have r: "reads ?s 0x1000 ?req" by (rule blank_reads) (use l in simp_all)
  have "pdu_ok ?s" using blank_pdu_ok by (simp add: pdu_ok_def)
  moreover have "as_read 5 = 5" by (simp add: as_read_def ber_content_def be_value_def)
  moreover have "find (\<lambda>k. mib ! k = [1, 3, 6, 1] @ map ucast [2, 1 :: u16]) [0..<50] = None"
    using mib_get_services(2) by (auto simp: mib_get_def split: option.splits)
  ultimately show ?thesis using snmp_set_exact [OF r] by (simp add: Let_def)
qed

end
