(* ===== verification/Pdu_Net.thy ===== *)
theory Pdu_Net
  imports Pdu_Snmp_Get
begin

text \<open>
  The receive side of the PDU firmware: \<open>src/PDUFirmware/ICMPv4.c\<close>, \<open>UDPv4ProcessPacket\<close>, \<open>IPv4ProcessFrame\<close>, and the
  entry points of \<open>Ethernet.c\<close> that the main loop calls, down to the protocol handlers.
\<close>

section \<open>ICMP\<close>

abbreviation (input) ICMP_TYPE_ECHO_REPLY :: u32 where "ICMP_TYPE_ECHO_REPLY \<equiv> 0"
abbreviation (input) ICMP_TYPE_ECHO_REQUEST :: u32 where "ICMP_TYPE_ECHO_REQUEST \<equiv> 8"
abbreviation (input) ICMP_CODE_ECHO_REPLY :: u32 where "ICMP_CODE_ECHO_REPLY \<equiv> 0"
abbreviation (input) ICMP_CODE_ECHO_REQUEST :: u32 where "ICMP_CODE_ECHO_REQUEST \<equiv> 0"

text \<open>The checksum is computed over \<open>body_len_halfwords\<close> octets, as the call has it.\<close>

definition ICMPv4ProcessPacket :: "u32 \<Rightarrow> u32 \<Rightarrow> u32 \<Rightarrow> pdu \<Rightarrow> pdu res" where
  "ICMPv4ProcessPacket frame srcip body_len s =
     andthen (load32 (word_at frame 0) s) (\<lambda>f0.
     let type = drop_bit 24 f0; code = drop_bit 16 f0 AND 0xff;
         body_len_halfwords = (if body_len AND 1 \<noteq> 0 then drop_bit 1 body_len + 1 else drop_bit 1 body_len);
         body_len_words = (if body_len AND 3 \<noteq> 0 then drop_bit 2 body_len + 1 else drop_bit 2 body_len) in
     if type = ICMP_TYPE_ECHO_REQUEST \<and> code = ICMP_CODE_ECHO_REQUEST then
       andthen (EthernetAllocateFrame s) (\<lambda>(txframe, s).
       if txframe = 0 then Inr s else
       let txbody = IPv4GetTxBodyPtr txframe in
       andthen (store32 (word_at txbody 0) (push_bit 24 ICMP_TYPE_ECHO_REPLY OR push_bit 16 ICMP_CODE_ECHO_REPLY) s) (\<lambda>s.
       andthen (load32 (word_at frame 1) s) (\<lambda>f1.
       andthen (store32 (word_at txbody 1) f1 s) (\<lambda>s.
       andthen (foreach [2..<unat body_len_words] (\<lambda>i s.
         andthen (load32 (word_at frame (of_nat i)) s) (\<lambda>w. store32 (word_at txbody (of_nat i)) w s)) s) (\<lambda>s.
       andthen (load32 (word_at txbody 0) s) (\<lambda>t0.
       andthen (InternetChecksum (sint body_len_halfwords) txbody s) (\<lambda>checksum.
       andthen (store32 (word_at txbody 0) (t0 OR ucast checksum) s) (\<lambda>s.
       IPv4SendFrame txframe (g_ipAddress s) srcip IP_PROTOCOL_ICMP body_len s))))))))
     else Inr s)"

section \<open>Dispatch\<close>

definition UDPv4ProcessPacket :: "u32 \<Rightarrow> u32 \<Rightarrow> pdu \<Rightarrow> pdu res" where
  "UDPv4ProcessPacket packet srcip s =
     andthen (load32 (word_at packet 0) s) (\<lambda>p0.
     let srcport = ucast (drop_bit 16 p0) :: u16; dstport = ucast (p0 AND 0xffff) :: u16 in
     andthen (load32 (word_at packet 1) s) (\<lambda>p1.
     let bytelen = ucast (drop_bit 16 p1) :: u16 in
     if dstport = DHCP_CLIENT_PORT then DHCPProcessPacket (word_at packet 2) srcip (ucast srcport) bytelen s
     else if dstport = SNMP_AGENT_PORT then SNMPProcessPacket (word_at packet 2) srcip (ucast srcport) bytelen s
     else Inr s))"

definition IPv4ProcessFrame :: "u32 \<Rightarrow> pdu \<Rightarrow> pdu res" where
  "IPv4ProcessFrame frame s =
     andthen (load32 (word_at frame 0) s) (\<lambda>f0.
     let ip_version = drop_bit 28 f0 in
     if ip_version \<noteq> 4 then Inr s else
     andthen (load32 (word_at frame 1) s) (\<lambda>f1.
     if f1 AND 0x00002000 \<noteq> 0 \<or> f1 AND 0x00001FFF \<noteq> 0 then Inr s else
     andthen (load32 (word_at frame 2) s) (\<lambda>f2.
     andthen (load32 (word_at frame 3) s) (\<lambda>srcip.
     andthen (load32 (word_at frame 4) s) (\<lambda>dstip.
     let header_len = drop_bit 24 f0 AND 0xF; protocol = drop_bit 16 f2 AND 0xFF;
         frame_body = word_at frame header_len; total_length = f0 AND 0xff;
         body_length = total_length - 4 * header_len in
     if g_ipAddress s \<noteq> 0 \<and> dstip \<noteq> 0xffffffff \<and> dstip \<noteq> g_ipAddress s then Inr s
     else if protocol = IP_PROTOCOL_ICMP then ICMPv4ProcessPacket frame_body srcip body_length s
     else if protocol = IP_PROTOCOL_UDP then UDPv4ProcessPacket frame_body srcip s
     else Inr s)))))"

definition EthernetProcessFrame :: "RPCMessage \<Rightarrow> pdu \<Rightarrow> pdu res" where
  "EthernetProcessFrame frame_msg s =
     (let phyaddr = m_d1 frame_msg; noc_addr = m_d2 frame_msg AND 0xFFFF; ethertype = drop_bit 16 (m_d2 frame_msg);
          frame = frame_addr phyaddr;
          s = FlushDsideL1Cache frame 2048 s;
          s = MmapHelper frame phyaddr noc_addr PAGE_READ_WRITE s in
      andthen (if ethertype = ucast (ETHERTYPE_IPV4 (cfg s)) then IPv4ProcessFrame frame s
        else if ethertype = ucast (ETHERTYPE_ARP (cfg s)) then ARPProcessFrame frame s
        else Inr s) (\<lambda>s.
      EthernetFreeFrame frame s))"

section \<open>Link state and initialisation\<close>

definition EthernetOnLinkUp :: "pdu \<Rightarrow> pdu" where
  "EthernetOnLinkUp s = DHCPOnLinkUp s"

definition EthernetOnLinkDown :: "pdu \<Rightarrow> pdu res" where
  "EthernetOnLinkDown s =
     (let s = DHCPOnLinkDown s; s = s\<lparr>g_ipAddress := 0\<rparr> in ARPInitialize s)"

definition EthernetInitialize :: "pdu \<Rightarrow> pdu res" where
  "EthernetInitialize s =
     (let s = s\<lparr>g_linkSpeed := 0, g_linkState := 0\<rparr> in
      andthen (LookupHostByName (cstr ''eth0'') s) (\<lambda>(addr, s).
      let s = s\<lparr>g_ethAddr := addr\<rparr> in
      andthen (RPCFunctionCall (g_ethAddr s) (ETH_RESET (cfg s)) 0 0 0 s) (\<lambda>(rc, rmsg, s).
      andthen (RPCFunctionCall (g_sysinfoAddr s) SYSINFO_CHIP_SERIAL 0 0 0 s) (\<lambda>(rc, rmsg, s).
      let s = s\<lparr>g_mac := (push_bit 8 0x02 OR ucast (m_d2 rmsg AND 0xff), ucast (drop_bit 16 (m_d1 rmsg)), ucast (m_d1 rmsg AND 0xffff))\<rparr>;
          (m0, m1, m2) = g_mac s in
      andthen (RPCFunctionCall (g_ethAddr s) (ETH_SET_MAC (cfg s)) (ucast m0) (push_bit 16 (ucast m1) OR ucast m2) 0 s) (\<lambda>(rc, rmsg, s).
      andthen (RPCFunctionCall (g_ethAddr s) (ETH_REGISTER_TYPE (cfg s)) (ucast (ETHERTYPE_ARP (cfg s))) 0 0 s) (\<lambda>(rc, rmsg, s).
      andthen (RPCFunctionCall (g_ethAddr s) (ETH_REGISTER_TYPE (cfg s)) (ucast (ETHERTYPE_IPV4 (cfg s))) 0 0 s) (\<lambda>(rc, rmsg, s).
      let s = IPv4Initialize s in
      andthen (DHCPInitialize s) (\<lambda>s.
      andthen (ARPInitialize s) (\<lambda>s.
      Inr (SNMPInitialize s))))))))))"

section \<open>Evolution\<close>

lemma ICMPv4ProcessPacket_evolves [vcg]:
  assumes e: "evolves fs s0 s" and Q: "\<And>s'. evolves fs s0 s' \<Longrightarrow> Q s'"
  shows "wp no_overrun Q (ICMPv4ProcessPacket frame srcip body_len s)"
proof -
  have copied: "wp no_overrun (evolves fs' s0) (foreach ks (\<lambda>i s.
      andthen (load32 (word_at frame (of_nat i)) s) (\<lambda>w. store32 (word_at b (of_nat i)) w s)) t)"
    if "evolves fs' s0 t" for fs' b t and ks :: "nat list"
    by (rule wp_foreach_inv [where I = "evolves fs' s0", OF that])
      (auto intro!: load_no_overrun elim!: store32_evolves)
  have reply: "wp no_overrun Q (andthen (store32 (word_at (IPv4GetTxBodyPtr f) 0) a s') (\<lambda>s.
       andthen (load32 (word_at frame 1) s) (\<lambda>f1.
       andthen (store32 (word_at (IPv4GetTxBodyPtr f) 1) f1 s) (\<lambda>s.
       andthen (foreach ks (\<lambda>i s.
         andthen (load32 (word_at frame (of_nat i)) s) (\<lambda>w. store32 (word_at (IPv4GetTxBodyPtr f) (of_nat i)) w s)) s) (\<lambda>s.
       andthen (load32 (word_at (IPv4GetTxBodyPtr f) 0) s) (\<lambda>t0.
       andthen (InternetChecksum n (IPv4GetTxBodyPtr f) s) (\<lambda>checksum.
       andthen (store32 (word_at (IPv4GetTxBodyPtr f) 0) (t0 OR ucast checksum) s) (\<lambda>s.
       IPv4SendFrame f (g_ipAddress s) srcip IP_PROTOCOL_ICMP body_len s))))))))"
    if ev: "evolves ((f AND PAGE_MASK) # fs) s0 s'" for f a s' n and ks :: "nat list"
    unfolding wp_simps
    by (rule store32_evolves [OF ev], rule load_no_overrun(1), rule store32_evolves, assumption,
        rule wp_mono [OF copied], assumption, rule load_no_overrun(1), rule InternetChecksum_ok,
        rule store32_evolves, assumption, rule IPv4SendFrame_evolves, assumption, rule Q)
  show ?thesis
    unfolding ICMPv4ProcessPacket_def Let_def
    by (auto intro!: load_no_overrun EthernetAllocateFrame_evolves [OF e] Q e reply simp del: wp_simps(3)
        simp: wp_simps(3) [of _ _ "load32 (word_at frame 0) s"] wp_simps(3) [of _ _ "EthernetAllocateFrame s"])
qed

lemma UDPv4ProcessPacket_evolves [vcg]:
  assumes e: "evolves fs s0 s" and Q: "\<And>s'. evolves fs s0 s' \<Longrightarrow> Q s'"
  shows "wp no_overrun Q (UDPv4ProcessPacket packet srcip s)"
  unfolding UDPv4ProcessPacket_def Let_def
  by (auto intro!: load_no_overrun DHCPProcessPacket_evolves [OF e] SNMPProcessPacket_evolves [OF e] Q e)

lemma IPv4ProcessFrame_evolves [vcg]:
  assumes e: "evolves fs s0 s" and Q: "\<And>s'. evolves fs s0 s' \<Longrightarrow> Q s'"
  shows "wp no_overrun Q (IPv4ProcessFrame frame s)"
  unfolding IPv4ProcessFrame_def Let_def
  by (auto intro!: load_no_overrun UDPv4ProcessPacket_evolves [OF e] ICMPv4ProcessPacket_evolves [OF e] Q e)

lemma EthernetProcessFrame_evolves [vcg]:
  assumes e: "evolves fs s0 s" and Q: "\<And>s'. evolves fs s0 s' \<Longrightarrow> Q s'"
  shows "wp no_overrun Q (EthernetProcessFrame msg s)"
proof -
  let ?f = "frame_addr (m_d1 msg)"
  have e': "evolves ((?f AND PAGE_MASK) # fs) s0 (MmapHelper ?f (m_d1 msg) noc PAGE_READ_WRITE (FlushDsideL1Cache ?f 2048 s))" for noc
    by (intro memory_evolves e)
  show ?thesis
    unfolding EthernetProcessFrame_def Let_def
    by (auto intro!: IPv4ProcessFrame_evolves [OF e'] ARPProcessFrame_evolves [OF e'] EthernetFreeFrame_evolves e' Q)
qed

lemma EthernetOnLinkUp_evolves: "evolves fs s0 s \<Longrightarrow> evolves fs s0 (EthernetOnLinkUp s)"
  by (simp add: EthernetOnLinkUp_def DHCPOnLinkUp_def globals_evolve)

lemma EthernetOnLinkDown_evolves [vcg]:
  assumes "evolves fs s0 s" and "\<And>s'. evolves fs s0 s' \<Longrightarrow> Q s'"
  shows "wp no_overrun Q (EthernetOnLinkDown s)"
  unfolding EthernetOnLinkDown_def DHCPOnLinkDown_def Let_def
  by (rule ARPInitialize_evolves) (use assms in \<open>auto intro: globals_evolve\<close>)

section \<open>The echo reply\<close>

text \<open>Words of two different pages do not overlap.\<close>

lemma word_unat:
  assumes "aligned p" and "i < 512"
  shows "unat (word_at p (of_nat i)) mod 4 = 0"
proof -
  obtain k where k: "unat p = 2048 * k" using assms(1) by (auto simp: aligned_def)
  then have "k < 2097152" using unat_u32_bound [of p] by simp
  then have "unat (p + of_nat (4 * i)) = unat p + 4 * i" using assms(2) k by (intro unat_add_of_nat) simp
  moreover have "word_at p (of_nat i) = p + of_nat (4 * i)" by (simp add: word_at_def)
  ultimately have "unat (word_at p (of_nat i)) = 4 * (512 * k + i)" using k by simp
  then show ?thesis by simp
qed

lemma multiples_apart:
  fixes a b :: u32
  assumes "unat a mod 4 = 0" and "unat b mod 4 = 0" and "a \<noteq> b"
  shows "4 \<le> a - b"
proof -
  have "(unat a + 4294967296 - unat b) mod 4 = 0" "b \<le> a \<Longrightarrow> (unat a - unat b) mod 4 = 0"
    using assms(1,2) unat_u32_bound [of b] by (simp_all add: word_le_nat_alt) presburger+
  moreover have "unat (a - b) = (if b \<le> a then unat a - unat b else unat a + 4294967296 - unat b)"
    by (simp add: unat_sub_if_size word_size word_le_nat_alt)
  ultimately have "unat (a - b) mod 4 = 0" by (auto split: if_splits)
  moreover have "unat (a - b) \<noteq> 0" using assms(3) by (simp add: unat_eq_0)
  ultimately have "4 \<le> unat (a - b)" by presburger
  then show ?thesis by (simp add: word_le_nat_alt)
qed

lemma other_page:
  assumes "aligned p" and "aligned q" and "p \<noteq> q" and "i < 512" and "j < 512"
  shows "be32 (put32 m (word_at p (of_nat i)) v) (word_at q (of_nat j)) = be32 m (word_at q (of_nat j))"
proof -
  have "word_at p (of_nat i) \<noteq> word_at q (of_nat j)" using page_of_word [OF assms(1,4)] page_of_word [OF assms(2,5)] assms(3) by metis
  then show ?thesis
    using multiples_apart [OF word_unat [OF assms(1,4)] word_unat [OF assms(2,5)]]
      multiples_apart [OF word_unat [OF assms(2,5)] word_unat [OF assms(1,4)]]
    by (intro be32_put32_other) auto
qed

text \<open>
  One frame being read at word \<open>h\<close> of page \<open>q\<close> and one being written in page \<open>p\<close>: the words received stay what they
  are, those written are updated one by one.
\<close>

definition copying :: "u32 \<Rightarrow> nat \<Rightarrow> u32 list \<Rightarrow> u32 \<Rightarrow> u32 list \<Rightarrow> pdu \<Rightarrow> bool" where
  "copying q h rx p tx s \<longleftrightarrow> aligned p \<and> aligned q \<and> p \<noteq> q \<and> mmu s p = PAGE_READ_WRITE \<and> mmu s q = PAGE_READ_WRITE \<and>
     h + length rx \<le> 512 \<and> length tx \<le> 512 \<and>
     frame_words (mem s) (word_at q (of_nat h)) (length rx) = rx \<and> frame_words (mem s) p (length tx) = tx"

lemma copying_load:
  "copying q h rx p tx s \<Longrightarrow> i < length rx \<Longrightarrow> load32 (word_at (word_at q (of_nat h)) (of_nat i)) s = Inr (rx ! i)"
proof -
  assume c: "copying q h rx p tx s" and i: "i < length rx"
  have w: "word_at (word_at q (of_nat h)) (of_nat i) = word_at q (of_nat (h + i))" by (simp add: word_at_def algebra_simps)
  have "readable (word_at q (of_nat (h + i))) s" by (rule mapped_frame) (use c i in \<open>simp_all add: copying_def\<close>)
  moreover have "be32 (mem s) (word_at (word_at q (of_nat h)) (of_nat i)) = rx ! i"
    using c i frame_words_nth [of i "length rx" "mem s" "word_at q (of_nat h)"] by (simp add: copying_def)
  ultimately show ?thesis unfolding load32_def w by simp
qed

lemma body_word: "word_at (IPv4GetTxBodyPtr p) (of_nat i) = word_at p (of_nat (5 + i))"
  by (simp add: IPv4GetTxBodyPtr_def word_at_def algebra_simps)

lemma copying_store:
  assumes c: "copying q h rx p tx s" and i: "5 + i < length tx"
  shows "\<exists>m. store32 (word_at (IPv4GetTxBodyPtr p) (of_nat i)) v s = Inr (s\<lparr>mem := m\<rparr>) \<and>
    copying q h rx p (tx[5 + i := v]) (s\<lparr>mem := m\<rparr>)"
proof -
  let ?m = "put32 (mem s) (word_at p (of_nat (5 + i))) v"
  have w: "writable (word_at p (of_nat (5 + i))) s" by (rule mapped_frame) (use c i in \<open>simp_all add: copying_def\<close>)
  have k: "be32 ?m (word_at (word_at q (of_nat h)) (of_nat j)) = be32 (mem s) (word_at (word_at q (of_nat h)) (of_nat j))"
    if "j < length rx" for j
  proof -
    have "word_at (word_at q (of_nat h)) (of_nat j) = word_at q (of_nat (h + j))" by (simp add: word_at_def algebra_simps)
    moreover have "be32 ?m (word_at q (of_nat (h + j))) = be32 (mem s) (word_at q (of_nat (h + j)))"
      by (rule other_page) (use c i that in \<open>simp_all add: copying_def\<close>)
    ultimately show ?thesis by (simp only:)
  qed
  have "frame_words ?m (word_at q (of_nat h)) (length rx) = frame_words (mem s) (word_at q (of_nat h)) (length rx)"
    by (rule nth_equalityI) (simp_all only: length_frame_words frame_words_nth k)
  moreover have "frame_words ?m p (length tx) = tx[5 + i := v]"
    using frame_words_update [OF i, of "mem s" p v] c by (simp add: copying_def)
  ultimately show ?thesis using c w unfolding body_word by (intro exI [of _ ?m]) (simp add: store32_def copying_def)
qed

lemma copying_loop:
  assumes c: "copying q h rx p tx s" and k: "2 \<le> k" "k \<le> length rx" and l: "length tx = 5 + length rx"
  shows "\<exists>m. foreach [2..<k] (\<lambda>i s. andthen (load32 (word_at (word_at q (of_nat h)) (of_nat i)) s)
        (\<lambda>w. store32 (word_at (IPv4GetTxBodyPtr p) (of_nat i)) w s)) s = Inr (s\<lparr>mem := m\<rparr>) \<and>
    copying q h rx p (take 7 tx @ drop 2 (take k rx) @ drop (5 + k) tx) (s\<lparr>mem := m\<rparr>)"
  using k
proof (induction k rule: nat_induct_at_least)
  case base
  have "take 7 tx @ drop 7 tx = tx" by simp
  then show ?case using c by (intro exI [of _ "mem s"]) simp
next
  case (Suc k)
  let ?tx = "take 7 tx @ drop 2 (take k rx) @ drop (5 + k) tx"
  obtain m where m: "foreach [2..<k] (\<lambda>i s. andthen (load32 (word_at (word_at q (of_nat h)) (of_nat i)) s)
        (\<lambda>w. store32 (word_at (IPv4GetTxBodyPtr p) (of_nat i)) w s)) s = Inr (s\<lparr>mem := m\<rparr>)"
    "copying q h rx p ?tx (s\<lparr>mem := m\<rparr>)" using Suc by auto
  have tx: "length ?tx = 5 + length rx" using Suc.prems Suc.hyps l by simp
  obtain m' where m': "store32 (word_at (IPv4GetTxBodyPtr p) (of_nat k)) (rx ! k) (s\<lparr>mem := m\<rparr>) = Inr (s\<lparr>mem := m'\<rparr>)"
    "copying q h rx p (?tx[5 + k := rx ! k]) (s\<lparr>mem := m'\<rparr>)"
    using copying_store [OF m(2), of k "rx ! k", unfolded tx] Suc.prems by auto
  have "?tx[5 + k := rx ! k] = take 7 tx @ drop 2 (take (Suc k) rx) @ drop (5 + Suc k) tx"
  proof -
    have "length (take 7 tx) = 7" "length (drop 2 (take k rx)) = k - 2" "5 + k = 7 + (k - 2)" using Suc l by simp_all
    moreover have "drop (5 + k) tx = tx ! (5 + k) # drop (5 + Suc k) tx"
      using Cons_nth_drop_Suc [of "5 + k" tx] l Suc.prems by simp
    moreover have "drop 2 (take (Suc k) rx) = drop 2 (take k rx) @ [rx ! k]"
      using Suc by (simp add: take_Suc_conv_app_nth)
    ultimately show ?thesis by (simp add: list_update_append)
  qed
  then show ?case
    using m(1) m' copying_load [OF m(2), of k] Suc.prems Suc.hyps by (intro exI [of _ m']) (simp add: foreach_append)
qed

text \<open>
  The reply as the code builds it: type and code 0, the identifier, the sequence number and the data of the request. Of
  the \<open>m\<close> words only the first half of their halfwords is summed, and the sum is not complemented.
\<close>

definition echo_reply :: "u32 list \<Rightarrow> u32 list" where
  "echo_reply request = (let rest = tl request in
     ucast (of_nat (ones_sum (take (length request) (split_words (0 # rest)))) :: u16) # rest)"

lemma half_of: "4 * n < 4294967296 \<Longrightarrow> (of_nat (4 * n) :: u32) AND 1 = 0" "4 * n < 4294967296 \<Longrightarrow> (of_nat (4 * n) :: u32) AND 3 = 0"
  "4 * n < 4294967296 \<Longrightarrow> drop_bit 1 (of_nat (4 * n) :: u32) = of_nat (2 * n)" "4 * n < 4294967296 \<Longrightarrow> drop_bit 2 (of_nat (4 * n) :: u32) = of_nat n"
proof -
  assume n: "4 * n < 4294967296"
  have u: "unat (of_nat (4 * n) :: u32) = 4 * n" by (rule u32_of_nat_unat_id [OF n])
  have "unat (take_bit k (of_nat (4 * n) :: u32)) = 4 * n mod 2 ^ k" for k
    unfolding unsigned_take_bit_eq u by (simp only: take_bit_eq_mod)
  from this [of 1] this [of 2] show "(of_nat (4 * n) :: u32) AND 1 = 0" "(of_nat (4 * n) :: u32) AND 3 = 0"
    by (simp_all only: and_mask_u32) (simp_all add: unat_eq_0 mod_mult_left_eq [of 4])
  have "unat (drop_bit k (of_nat (4 * n) :: u32)) = 4 * n div 2 ^ k" for k
    unfolding unat_drop_bit_eq u by (simp only: drop_bit_eq_div)
  from this [of 1] this [of 2] show "drop_bit 1 (of_nat (4 * n) :: u32) = of_nat (2 * n)" "drop_bit 2 (of_nat (4 * n) :: u32) = of_nat n"
    using n u32_of_nat_unat_id [of "2 * n"] by (simp_all add: word_unat_eq_iff)
qed

lemma halfwords_take: "k \<le> 2 * n \<Longrightarrow> halfwords m p k = take k (split_words (frame_words m p n))"
  unfolding halfwords_frame [symmetric] by (simp add: halfwords_def take_map)

lemma copying_globals: "copying q h rx p tx (s\<lparr>mem := m\<rparr>) \<Longrightarrow> mmu s p = PAGE_READ_WRITE \<and> mmu s q = PAGE_READ_WRITE"
  by (simp add: copying_def)

text \<open>What the echo handler leaves in the frame, with the checksum in place.\<close>

lemma echo_built:
  assumes c: "copying q h rx p tx s" and l: "length tx = 5 + length rx" "2 \<le> length rx"
  shows "\<exists>m. (\<forall>k :: pdu \<Rightarrow> pdu res. andthen (store32 (word_at (IPv4GetTxBodyPtr p) 0) 0 s) (\<lambda>s.
       andthen (load32 (word_at (word_at q (of_nat h)) 1) s) (\<lambda>f1.
       andthen (store32 (word_at (IPv4GetTxBodyPtr p) 1) f1 s) (\<lambda>s.
       andthen (foreach [2..<length rx] (\<lambda>i s.
         andthen (load32 (word_at (word_at q (of_nat h)) (of_nat i)) s) (\<lambda>w. store32 (word_at (IPv4GetTxBodyPtr p) (of_nat i)) w s)) s) (\<lambda>s.
       andthen (load32 (word_at (IPv4GetTxBodyPtr p) 0) s) (\<lambda>t0.
       andthen (InternetChecksum (int (2 * length rx)) (IPv4GetTxBodyPtr p) s) (\<lambda>checksum.
       andthen (store32 (word_at (IPv4GetTxBodyPtr p) 0) (t0 OR ucast checksum) s) k)))))) = k (s\<lparr>mem := m\<rparr>)) \<and>
    drop 5 (frame_words m p (5 + length rx)) = echo_reply rx"
proof -
  let ?b = "IPv4GetTxBodyPtr p" and ?n = "length rx"
  obtain m1 where m1: "store32 (word_at ?b (of_nat 0)) 0 s = Inr (s\<lparr>mem := m1\<rparr>)" "copying q h rx p (tx[5 := 0]) (s\<lparr>mem := m1\<rparr>)"
    using copying_store [OF c, of 0 0] l by (cases rx) auto
  have f1: "load32 (word_at (word_at q (of_nat h)) (of_nat 1)) (s\<lparr>mem := m1\<rparr>) = Inr (rx ! 1)"
    by (rule copying_load [OF m1(2)]) (use l in simp)
  obtain m2 where m2: "store32 (word_at ?b (of_nat 1)) (rx ! 1) (s\<lparr>mem := m1\<rparr>) = Inr (s\<lparr>mem := m2\<rparr>)"
    "copying q h rx p (tx[5 := 0, 6 := rx ! 1]) (s\<lparr>mem := m2\<rparr>)"
    using copying_store [OF m1(2), of 1 "rx ! 1"] l by auto
  have "rx \<noteq> []" using l(2) by auto
  then obtain pre x y post where tx: "tx = pre @ x # y # post" "length pre = 5"
    using l Cons_nth_drop_Suc [of 5 tx] Cons_nth_drop_Suc [of 6 tx] append_take_drop_id [of 5 tx]
    by (intro that [of "take 5 tx" "tx ! 5" "tx ! 6" "drop 7 tx"]) simp_all
  have upd: "tx[5 := 0, 6 := rx ! 1] = pre @ 0 # rx ! 1 # post" by (simp add: tx list_update_append)
  have lp: "Suc (Suc (length post)) = length rx" using l(1) tx by simp
  have rx: "tl rx = rx ! 1 # drop 2 rx" using l(2) by (cases rx; cases "tl rx") auto
  obtain m3 where m3: "foreach [2..<?n] (\<lambda>i s. andthen (load32 (word_at (word_at q (of_nat h)) (of_nat i)) s)
        (\<lambda>w. store32 (word_at ?b (of_nat i)) w s)) (s\<lparr>mem := m2\<rparr>) = Inr (s\<lparr>mem := m3\<rparr>)"
    "copying q h rx p (pre @ 0 # tl rx) (s\<lparr>mem := m3\<rparr>)"
    using copying_loop [OF m2(2) l(2) order_refl] lp unfolding upd by (auto simp: tx(2) rx)
  let ?t = "s\<lparr>mem := m3\<rparr>"
  have al: "aligned p" "mmu ?t p = PAGE_READ_WRITE" "5 + ?n \<le> 512" and fw: "frame_words m3 p (5 + ?n) = pre @ 0 # tl rx"
    using m3(2) l tx(2) by (auto simp: copying_def)
  have t0: "load32 (word_at ?b (of_nat 0)) ?t = Inr 0"
  proof -
    have "readable (word_at p (of_nat 5)) ?t" by (rule mapped_frame [OF al(1,2)]) simp
    moreover have "be32 m3 (word_at p (of_nat 5)) = 0"
      using frame_words_nth [of 5 "5 + ?n" m3 p] \<open>rx \<noteq> []\<close> unfolding fw by (simp add: nth_append tx(2))
    ultimately show ?thesis unfolding body_word by (simp add: load32_def)
  qed
  have body: "frame_words m3 ?b ?n = 0 # tl rx"
  proof -
    have "frame_words m3 ?b ?n = drop 5 (frame_words m3 p (5 + ?n))"
      by (rule nth_equalityI) (simp_all only: length_frame_words length_drop diff_add_inverse frame_words_nth nth_drop body_word
          le_add1 add_less_cancel_left)
    then show ?thesis unfolding fw by (simp add: tx(2))
  qed
  have "readable (?b + of_nat (2 * i)) ?t" if "i < ?n" for i
  proof -
    have "?b + of_nat (2 * i) = p + of_nat (2 * (10 + i))" by (simp add: IPv4GetTxBodyPtr_def word_at_def)
    moreover have "readable (p + of_nat (2 * (10 + i))) ?t"
      by (rule frame_halfwords_readable [OF al(1,2)]) (use al(3) that in simp)
    ultimately show ?thesis by (simp only:)
  qed
  then have "InternetChecksum (int (2 * ?n)) ?b ?t = Inr (of_nat (ones_sum (halfwords m3 ?b ?n)))"
    using checksum_exact(1) [of ?n ?b ?t] al(3) by simp
  also have "halfwords m3 ?b ?n = take ?n (split_words (0 # tl rx))" using halfwords_take [of ?n ?n m3 ?b] body by simp
  finally have ck: "InternetChecksum (int (2 * ?n)) ?b ?t = Inr (of_nat (ones_sum (take ?n (split_words (0 # tl rx)))))" .
  obtain m4 where m4: "store32 (word_at ?b (of_nat 0)) (ucast (of_nat (ones_sum (take ?n (split_words (0 # tl rx)))) :: u16)) ?t = Inr (s\<lparr>mem := m4\<rparr>)"
    "copying q h rx p (pre @ echo_reply rx) (s\<lparr>mem := m4\<rparr>)"
    using copying_store [OF m3(2), of 0 "ucast (of_nat (ones_sum (take ?n (split_words (0 # tl rx)))) :: u16)"]
    by (auto simp: tx(2) echo_reply_def Let_def list_update_append)
  have "frame_words m4 p (length (pre @ echo_reply rx)) = pre @ echo_reply rx" using m4(2) by (simp add: copying_def)
  moreover have "length (pre @ echo_reply rx) = 5 + ?n" using l(2) by (simp add: tx(2) echo_reply_def Let_def)
  ultimately have "drop 5 (frame_words m4 p (5 + ?n)) = echo_reply rx" by (simp add: tx(2))
  then show ?thesis
    using m1(1) f1 m2(1) m3(1) t0 ck m4(1) by (intro exI [of _ m4]) (simp del: of_nat_mult)
qed

lemma ICMPv4ProcessPacket_echo:
  assumes alloc: "EthernetAllocateFrame s = Inr (frame_addr phy, s1)" and phy: "ram_page phy"
    and q: "aligned q" "mmu s q = PAGE_READ_WRITE" "q \<noteq> frame_addr phy"
    and rx: "frame_words (mem s) (word_at q (of_nat h)) (length rx) = rx" "h + length rx \<le> 512" "2 \<le> length rx" "length rx \<le> 507"
    and echo: "drop_bit 16 (hd rx) = 0x0800"
    and ok: "arp_ok (g_arpTable s) (g_nextArpSet s)" and hop: "hop_mac s (next_hop s srcip) = Some mac"
  shows "wp only_blocks (\<lambda>s'. cpu.more s' = cpu.more s \<and> mmu s' = (mmu s)(frame_addr phy := PAGE_GUARD) \<and>
      frame_words (mem s') (frame_addr phy) (max 13 (5 + length rx)) =
        ipv4_header IP_PROTOCOL_ICMP (of_nat (4 * length rx)) (g_ipAddress s) srcip
          (ipv4_checksum IP_PROTOCOL_ICMP (of_nat (4 * length rx)) (g_ipAddress s) srcip)
        @ echo_reply rx @ replicate (8 - length rx) 0 \<and>
      (\<exists>r reqs. sends s s' (rpc_request (g_ramAddr s) RAM_ALLOCATE 0 0 0 # reqs) \<and>
         frame_fate s (frame_addr phy) (fst mac) (mac_lo mac) (ETHERTYPE_IPV4 (cfg s)) (max 13 (5 + length rx)) r reqs))
    (ICMPv4ProcessPacket (word_at q (of_nat h)) srcip (of_nat (4 * length rx)) s)"
proof -
  let ?f = "frame_addr phy" and ?n = "of_nat (4 * length rx) :: u32"
  note g = alloc_granted [OF alloc phy]
  note more = pdu_more [OF g(5)]
  have n: "unat ?n = 4 * length rx" by (rule u32_of_nat_unat_id) (use rx(4) in simp)
  have W: "ip_words (unat ?n) = 5 + length rx" unfolding n by (simp add: ip_words_def)
  have c: "copying q h rx ?f (frame_words (mem s) ?f (5 + length rx)) s1"
    using g(1,6,7) q rx by (simp add: copying_def)
  have ld: "load32 (word_at (word_at q (of_nat h)) 0) s = Inr (hd rx)"
  proof -
    have "readable (word_at q (of_nat (h + 0))) s" by (rule mapped_frame [OF q(1,2)]) (use rx in simp)
    moreover have "be32 (mem s) (word_at (word_at q (of_nat h)) (of_nat 0)) = hd rx"
      using frame_words_nth [of 0 "length rx" "mem s" "word_at q (of_nat h)"] rx by (cases rx) auto
    ultimately show ?thesis by (simp add: load32_def word_at_def)
  qed
  have ty: "drop_bit 24 (hd rx) = 8" "drop_bit 16 (hd rx) AND 0xff = 0"
  proof -
    have "drop_bit 24 (hd rx) = drop_bit 8 (drop_bit 16 (hd rx))" by simp
    then show "drop_bit 24 (hd rx) = 8" unfolding echo by simp
    show "drop_bit 16 (hd rx) AND 0xff = 0" unfolding echo by simp
  qed
  have hw: "sint (of_nat (2 * length rx) :: u32) = int (2 * length rx)"
    using rx(4) by (simp add: signed_of_nat signed_take_bit_int_eq_self del: of_nat_mult)
  have wn: "unat (of_nat (length rx) :: u32) = length rx" by (rule u32_of_nat_unat_id) (use rx(4) in simp)
  obtain m where m: "\<forall>k. andthen (store32 (word_at (IPv4GetTxBodyPtr ?f) 0) 0 s1) (\<lambda>s.
       andthen (load32 (word_at (word_at q (of_nat h)) 1) s) (\<lambda>f1.
       andthen (store32 (word_at (IPv4GetTxBodyPtr ?f) 1) f1 s) (\<lambda>s.
       andthen (foreach [2..<length rx] (\<lambda>i s.
         andthen (load32 (word_at (word_at q (of_nat h)) (of_nat i)) s) (\<lambda>w. store32 (word_at (IPv4GetTxBodyPtr ?f) (of_nat i)) w s)) s) (\<lambda>s.
       andthen (load32 (word_at (IPv4GetTxBodyPtr ?f) 0) s) (\<lambda>t0.
       andthen (InternetChecksum (int (2 * length rx)) (IPv4GetTxBodyPtr ?f) s) (\<lambda>checksum.
       andthen (store32 (word_at (IPv4GetTxBodyPtr ?f) 0) (t0 OR ucast checksum) s) k)))))) = (k (s1\<lparr>mem := m\<rparr>) :: pdu res)"
    "drop 5 (frame_words m ?f (5 + length rx)) = echo_reply rx"
    using echo_built [OF c _ rx(3)] by auto
  let ?t = "s1\<lparr>mem := m\<rparr>"
  have tm: "cpu.more ?t = cpu.more s" using g(5) by simp
  have hop': "hop_mac ?t (next_hop ?t srcip) = Some mac" using hop by (simp only: hop_more [OF tm])
  have x: "sends s ?t [rpc_request (g_ramAddr s) RAM_ALLOCATE 0 0 0]" by (rule sends_same_log [OF g(4)]) simp
  have "wp only_blocks (\<lambda>s'. cpu.more s' = cpu.more s \<and> mmu s' = (mmu s)(?f := PAGE_GUARD) \<and>
      frame_words (mem s') ?f (max 13 (5 + length rx)) =
        ipv4_header IP_PROTOCOL_ICMP ?n (g_ipAddress s) srcip (ipv4_checksum IP_PROTOCOL_ICMP ?n (g_ipAddress s) srcip)
        @ echo_reply rx @ replicate (8 - length rx) 0 \<and>
      (\<exists>r reqs. sends s s' (rpc_request (g_ramAddr s) RAM_ALLOCATE 0 0 0 # reqs) \<and>
         frame_fate s ?f (fst mac) (mac_lo mac) (ETHERTYPE_IPV4 (cfg s)) (max 13 (5 + length rx)) r reqs))
    (IPv4SendFrame ?f (g_ipAddress ?t) srcip IP_PROTOCOL_ICMP ?n ?t)"
  proof (rule IPv4SendFrame_sends [OF g(1) _ _ _ _ hop' x], goal_cases)
    case (5 s' r reqs)
    have fate: "frame_fate ?t = frame_fate s" by (rule frame_fate_hosts) (use pdu_more [OF tm] in simp_all)
    note w = frame_words_memory [of ?n ?f "g_ipAddress s" srcip IP_PROTOCOL_ICMP m, unfolded n W [unfolded n]]
    show ?case
      using 5(1-4) 5(5) fate pdu_more [OF tm] g(7) tm w m(2) rx(4) unfolding W by (auto simp: n)
  qed (use g(7) n rx(4) ok more in simp_all)
  moreover have "4 * length rx < 4294967296" using rx(4) by simp
  note half = half_of [OF this]
  have z: "push_bit 24 ICMP_TYPE_ECHO_REPLY OR push_bit 16 ICMP_CODE_ECHO_REPLY = (0 :: u32)" by simp
  have "ICMPv4ProcessPacket (word_at q (of_nat h)) srcip ?n s = IPv4SendFrame ?f (g_ipAddress ?t) srcip IP_PROTOCOL_ICMP ?n ?t"
    unfolding ICMPv4ProcessPacket_def Let_def ld
    by (simp only: andthen_simps ty half simp_thms if_True if_False alloc prod.case g(3) hw wn z m(1) [rule_format])
  ultimately show ?thesis by (simp only:)
qed

section \<open>From the frame to the reply\<close>

text \<open>An ICMP echo request in an IPv4 frame without options and not fragmented, of at most 252 octets.\<close>

definition echo_request_frame :: "u32 list \<Rightarrow> u32 \<Rightarrow> u32 \<Rightarrow> u32 list \<Rightarrow> bool" where
  "echo_request_frame ws srcip dstip icmp \<longleftrightarrow> (\<exists>w0 w1 w2. ws = [w0, w1, w2, srcip, dstip] @ icmp \<and>
     drop_bit 24 w0 = 0x45 \<and> w0 AND 0xff = of_nat (20 + 4 * length icmp) \<and> w1 AND 0x3fff = 0 \<and>
     drop_bit 16 w2 AND 0xff = IP_PROTOCOL_ICMP \<and> drop_bit 16 (hd icmp) = 0x0800 \<and> 2 \<le> length icmp \<and> length icmp \<le> 58)"

lemma IPv4ProcessFrame_echo:
  assumes q: "aligned q" "mmu s q = PAGE_READ_WRITE"
    and f: "frame_words (mem s) q (5 + length icmp) = ws" "echo_request_frame ws srcip dstip icmp"
    and dst: "g_ipAddress s = 0 \<or> dstip = 0xffffffff \<or> dstip = g_ipAddress s"
  shows "IPv4ProcessFrame q s = ICMPv4ProcessPacket (word_at q (of_nat 5)) srcip (of_nat (4 * length icmp)) s"
    "frame_words (mem s) (word_at q (of_nat 5)) (length icmp) = icmp"
proof -
  from f(2) obtain w0 w1 w2 where w: "ws = [w0, w1, w2, srcip, dstip] @ icmp" "drop_bit 24 w0 = 0x45"
    "w0 AND 0xff = of_nat (20 + 4 * length icmp)" "w1 AND 0x3fff = 0" "drop_bit 16 w2 AND 0xff = IP_PROTOCOL_ICMP"
    "length icmp \<le> 58" by (auto simp: echo_request_frame_def)
  have ld: "load32 (word_at q (of_nat i)) s = Inr (ws ! i)" if "i < 5 + length icmp" for i
  proof -
    have "readable (word_at q (of_nat i)) s" by (rule mapped_frame [OF q]) (use that w(6) in simp)
    then show ?thesis using frame_words_nth [OF that, of "mem s" q] f(1) by (simp add: load32_def)
  qed
  have ld': "load32 (word_at q 0) s = Inr w0" "load32 (word_at q 1) s = Inr w1" "load32 (word_at q 2) s = Inr w2"
    "load32 (word_at q 3) s = Inr srcip" "load32 (word_at q 4) s = Inr dstip"
    using ld [of 0] ld [of 1] ld [of 2] ld [of 3] ld [of 4] by (simp_all add: w(1))
  have "drop_bit 28 w0 = drop_bit 4 (drop_bit 24 w0)" by simp
  then have v: "drop_bit 28 w0 = 4" unfolding w(2) by simp
  have h: "drop_bit 24 w0 AND 0xF = 5" unfolding w(2) by simp
  have "w1 AND 0x2000 = (w1 AND 0x3fff) AND 0x2000" "w1 AND 0x1FFF = (w1 AND 0x3fff) AND 0x1FFF" by (simp_all add: and.assoc)
  then have fr: "w1 AND 0x2000 = 0" "w1 AND 0x1FFF = 0" unfolding w(4) by simp_all
  have len: "(w0 AND 0xff) - 4 * 5 = of_nat (4 * length icmp)" unfolding w(3) by simp
  show "IPv4ProcessFrame q s = ICMPv4ProcessPacket (word_at q (of_nat 5)) srcip (of_nat (4 * length icmp)) s"
    unfolding IPv4ProcessFrame_def Let_def ld' andthen_simps v fr h len w(5) using dst by auto
  show "frame_words (mem s) (word_at q (of_nat 5)) (length icmp) = icmp"
  proof -
    have wa: "word_at (word_at q (of_nat 5)) (of_nat i) = word_at q (of_nat (5 + i))" for i by (simp add: word_at_def algebra_simps)
    have "frame_words (mem s) (word_at q (of_nat 5)) (length icmp) = drop 5 (frame_words (mem s) q (5 + length icmp))"
      by (rule nth_equalityI) (simp_all only: length_frame_words length_drop diff_add_inverse frame_words_nth nth_drop wa
          le_add1 add_less_cancel_left)
    then show ?thesis unfolding f(1) w(1) by simp
  qed
qed

section \<open>Properties\<close>



text \<open>
  A ping. The frame of an echo request to the own address (any address before one is known) is answered with one
  frame to the next hop of the sender: an IPv4 header from the own address, and the ICMP message of type 0 with
  the identifier, sequence number and data of the request. The checksum in it is \<open>echo_reply\<close>'s, which is not the one of
  RFC 792. Then the page of the request is given back, and neither page stays mapped.
\<close>
lemma ping_answered:
  assumes "ram_page qphy" and "m_d1 msg = qphy" and "drop_bit 16 (m_d2 msg) = ucast (ETHERTYPE_IPV4 (cfg s))"
    and "frame_words (mem s) (frame_addr qphy) (5 + length icmp) = ws" and "echo_request_frame ws srcip dstip icmp"
    and "g_ipAddress s = 0 \<or> dstip = 0xffffffff \<or> dstip = g_ipAddress s"
    and "arp_ok (g_arpTable s) (g_nextArpSet s)" and "hop_mac s (next_hop s srcip) = Some mac"
    and "s0 = MmapHelper (frame_addr qphy) qphy (m_d2 msg AND 0xFFFF) PAGE_READ_WRITE (FlushDsideL1Cache (frame_addr qphy) 2048 s)"
    and "EthernetAllocateFrame s0 = Inr (frame_addr phy, s1)" and "ram_page phy" and "phy \<noteq> qphy"
  shows "wp only_blocks (\<lambda>s'. cpu.more s' = cpu.more s \<and>
      mmu s' = (mmu s)(frame_addr qphy := PAGE_GUARD, frame_addr phy := PAGE_GUARD) \<and>
      frame_words (mem s') (frame_addr phy) (max 13 (5 + length icmp)) =
        ipv4_header IP_PROTOCOL_ICMP (of_nat (4 * length icmp)) (g_ipAddress s) srcip
          (ipv4_checksum IP_PROTOCOL_ICMP (of_nat (4 * length icmp)) (g_ipAddress s) srcip)
        @ echo_reply icmp @ replicate (8 - length icmp) 0 \<and>
      (\<exists>r reqs. sends s s' (rpc_request (g_ramAddr s) RAM_ALLOCATE 0 0 0 # reqs @ [rpc_request (g_ramAddr s) RAM_FREE 0 qphy 0]) \<and>
         frame_fate s (frame_addr phy) (fst mac) (mac_lo mac) (ETHERTYPE_IPV4 (cfg s)) (max 13 (5 + length icmp)) r reqs))
    (EthernetProcessFrame msg s)"
proof -
  let ?q = "frame_addr qphy" and ?p = "frame_addr phy"
  have q: "aligned ?q" "?q AND PAGE_MASK = ?q" "frame_phys ?q = qphy"
    using assms(1) frame_addr_aligned page_self by (simp_all add: ram_page_def frame_phys_addr)
  have pq: "?q \<noteq> ?p" using assms(1,11,12) frame_phys_addr by (metis ram_page_def)
  have m0: "cpu.more s0 = cpu.more s" "mem s0 = mem s" "mmu s0 = (mmu s)(?q := PAGE_READ_WRITE)"
    using q(2) by (simp_all add: assms(9))
  have sent: "sends s s' xs" if "sends s0 s' xs" for s' xs
  proof -
    from that obtain evs ns where e: "io s' = io s0 @ evs" "length ns = length xs" "sent_of evs = repeats xs ns"
      by (auto simp: sends_def)
    then show ?thesis
      unfolding sends_def assms(9)
      by (intro exI [of _ "Flushed ?q 2048 # Mapped ?q qphy (m_d2 msg AND 0xFFFF) PAGE_READ_WRITE # evs"] exI [of _ ns]) simp
  qed
  note g0 = pdu_more [OF m0(1)]
  have mq: "mmu s0 ?q = PAGE_READ_WRITE" by (simp add: m0)
  have fw: "frame_words (mem s0) ?q (5 + length icmp) = ws" using assms(4) m0(2) by simp
  have dst: "g_ipAddress s0 = 0 \<or> dstip = 0xffffffff \<or> dstip = g_ipAddress s0" using assms(6) g0 by simp
  note ip = IPv4ProcessFrame_echo [OF q(1) mq fw assms(5) dst]
  have l: "2 \<le> length icmp" "length icmp \<le> 58" "drop_bit 16 (hd icmp) = 0x0800"
    using assms(5) by (auto simp: echo_request_frame_def)
  have ok: "arp_ok (g_arpTable s0) (g_nextArpSet s0)" using assms(7) g0 by simp
  have hop: "hop_mac s0 (next_hop s0 srcip) = Some mac" using assms(8) by (simp only: hop_more [OF m0(1)])
  have h5: "5 + length icmp \<le> 512" "length icmp \<le> 507" using l(2) by simp_all
  have code: "EthernetProcessFrame msg s = andthen (IPv4ProcessFrame ?q s0) (EthernetFreeFrame ?q)"
    using assms(3) g0 by (simp add: EthernetProcessFrame_def Let_def assms(2,9))
  show ?thesis
    unfolding code ip(1) wp_simps
  proof (rule wp_mono [OF ICMPv4ProcessPacket_echo [OF assms(10,11) q(1) mq pq ip(2) h5(1) l(1) h5(2) l(3) ok hop]], elim conjE exE, goal_cases)
    case (1 t r reqs)
    have "wp only_blocks (\<lambda>s'. sends s s' (rpc_request (g_ramAddr s0) RAM_ALLOCATE 0 0 0 # reqs @ [rpc_request (g_ramAddr t) RAM_FREE 0 (frame_phys ?q) 0]) \<and>
        cpu.more s' = cpu.more t \<and> mem s' = mem t \<and> mmu s' = (mmu t)(?q AND PAGE_MASK := PAGE_GUARD)) (EthernetFreeFrame ?q t)"
      by (rule EthernetFreeFrame_sends [OF sent [OF 1(4)]]) simp
    moreover have "frame_fate s0 = frame_fate s" by (rule frame_fate_more [OF m0(1)])
    moreover have "g_ramAddr t = g_ramAddr s" using pdu_more [of t s] 1(1) m0(1) by (simp add: hosts_def)
    moreover have "g_ramAddr s0 = g_ramAddr s" using g0 by (simp add: hosts_def)
    ultimately show ?case
      using 1 g0 m0 q(2,3) pq by (auto elim!: wp_mono simp: fun_upd_twist)
  qed
qed

lemma ping_answered_witness:
  "let ws = [0x4500001c, 0, 0xFF010000, 0xFFFFFFFF, 0x0A000001, 0x08001234, 0x00010002];
       msg = (granted 0x14 0x400)\<lparr>m_d2 := 0x08000011\<rparr>;
       s = blank_pdu\<lparr>inbox := [granted 0x11 0x200], mem := put_words (frame_addr 0x400) (zip [0..<7] ws) (\<lambda>_. 0)\<rparr> in
   wp only_blocks (\<lambda>s'. frame_words (mem s') (frame_addr 0x200) 13 =
       ipv4_header IP_PROTOCOL_ICMP 8 0 0xFFFFFFFF (ipv4_checksum IP_PROTOCOL_ICMP 8 0 0xFFFFFFFF) @ [0, 0x00010002] @ replicate 6 0)
     (EthernetProcessFrame msg s)"
proof -
  let ?ws = "[0x4500001c, 0, 0xFF010000, 0xFFFFFFFF, 0x0A000001, 0x08001234, 0x00010002] :: u32 list"
  let ?icmp = "[0x08001234, 0x00010002] :: u32 list"
  let ?msg = "(granted 0x14 0x400)\<lparr>m_d2 := 0x08000011\<rparr>" and ?q = "frame_addr 0x400"
  let ?s = "blank_pdu\<lparr>inbox := [granted 0x11 0x200], mem := put_words (frame_addr 0x400) (zip [0..<7] ?ws) (\<lambda>_. 0)\<rparr>"
  let ?t = "MmapHelper ?q 0x400 (m_d2 ?msg AND 0xFFFF) PAGE_READ_WRITE (FlushDsideL1Cache ?q 2048 ?s)"
  obtain s1 where s1: "EthernetAllocateFrame ?t = Inr (frame_addr 0x200, s1)"
    by (simp add: EthernetAllocateFrame_def granted_call Let_def)
  have fw: "frame_words (mem ?s) ?q (5 + length ?icmp) = ?ws"
    using put_words_frame [of "zip [0..<7] ?ws" 7 ?q "\<lambda>_. 0"] by simp
  have req: "echo_request_frame ?ws 0xFFFFFFFF 0x0A000001 ?icmp" by (simp add: echo_request_frame_def)
  have reply: "echo_reply ?icmp = [0, 0x00010002]"
    by (simp add: echo_reply_def split_words_def ones_sum_def ones_add_def)
  have "ram_page 0x400" "m_d1 ?msg = 0x400" "drop_bit 16 (m_d2 ?msg) = ucast (ETHERTYPE_IPV4 (cfg ?s))"
    "g_ipAddress ?s = 0 \<or> (0x0A000001 :: u32) = 0xffffffff \<or> 0x0A000001 = g_ipAddress ?s"
    "arp_ok (g_arpTable ?s) (g_nextArpSet ?s)" "hop_mac ?s (next_hop ?s 0xFFFFFFFF) = Some (0xffff, 0xffff, 0xffff)"
    "ram_page 0x200" "(0x200 :: u32) \<noteq> 0x400"
    using blank_pdu_ok(1) by (simp_all add: ram_page_def granted_def blank_cfg_def pdu_ok_def hop_mac_def next_hop_def)
  from ping_answered [OF this(1,2,3) fw req this(4,5,6) refl s1 this(7,8)] show ?thesis
    by (simp add: Let_def reply) (auto elim!: wp_mono)
qed

end
