(* ===== verification/Pdu_Main.thy ===== *)
theory Pdu_Main
  imports Pdu_Net
begin

text \<open>
  \<open>src/PDUFirmware/main.c\<close>: initialisation, the interrupt dispatcher, the timer with its checks, and the main loop,
  as a step relation between the states in which the firmware waits for its next interrupt.
\<close>

section \<open>The code\<close>

definition FaultLockout :: "pdu \<Rightarrow> pdu res" where
  "FaultLockout s =
     foreach [0..<10] (\<lambda>i s.
       andthen (RPCFunctionCall (g_outputStageAddr s) OUTSTAGE_POWER_STATE (of_nat i) 0 0 s) (\<lambda>(rc, rmsg, s). Inr s))
     (s\<lparr>g_vlockout := 1\<rparr>)"

text \<open>The body of the loop of \<open>ErrorCheck\<close>, for the supply and the temperature sensor \<open>i\<close>.\<close>

definition check_sensor :: "nat \<Rightarrow> pdu \<Rightarrow> pdu res" where
  "check_sensor i s =
     andthen (GetVoltage (of_nat i) s) (\<lambda>(v, s).
     let dv = (if v > g_vnom s then v - g_vnom s else g_vnom s - v) in
     andthen (if dv > 250 then andthen (FaultLockout s) (GPIOSetFaultLED 1) else Inr s) (\<lambda>s.
     andthen (GetTemperature (of_nat i) s) (\<lambda>(t, s).
     if t < 5 \<or> t > 60 then FaultLockout (s\<lparr>g_thermalshutdown := 1\<rparr>) else Inr s)))"

definition ErrorCheck :: "pdu \<Rightarrow> pdu res" where
  "ErrorCheck s = foreach [0..<2] check_sensor s"

definition OnTimer :: "pdu \<Rightarrow> pdu res" where
  "OnTimer s =
     (let s = s\<lparr>g_uptime := g_uptime s + 1\<rparr> in
      andthen (DHCPOnTimer s) (\<lambda>s.
      if g_thermalshutdown s \<noteq> 0 then
        andthen (GPIOSetFaultLED (g_faultled s) s) (\<lambda>s. Inr (s\<lparr>g_faultled := if g_faultled s = 0 then 1 else 0\<rparr>))
      else ErrorCheck s))"

definition ProcessInterrupt :: "RPCMessage \<Rightarrow> pdu \<Rightarrow> pdu res" where
  "ProcessInterrupt rmsg s =
     (if m_from rmsg = g_periphAddr s \<and> m_callnum rmsg = PERIPH_INT_TIMER then OnTimer s
      else if m_from rmsg = g_ethAddr s then
        if m_callnum rmsg = ETH_FRAME_READY (cfg s) then EthernetProcessFrame rmsg s
        else if m_callnum rmsg = ETH_LINK_STATE (cfg s) then
          let linkState = m_d0 rmsg AND 1 in
          andthen (if linkState \<noteq> 0 then Inr (EthernetOnLinkUp s) else EthernetOnLinkDown s) (\<lambda>s.
          Inr (s\<lparr>g_linkState := linkState, g_linkSpeed := drop_bit 2 (m_d0 rmsg) AND 3\<rparr>))
        else Inr s
      else Inr s)"

definition Initialize :: "pdu \<Rightarrow> pdu res" where
  "Initialize s =
     (let s = s\<lparr>pend := InterruptQueueInit (pend s)\<rparr> in
      andthen (LookupHostByName (cstr ''periph'') s) (\<lambda>(a, s). let s = s\<lparr>g_periphAddr := a\<rparr> in
      andthen (LookupHostByName (cstr ''ram'') s) (\<lambda>(a, s). let s = s\<lparr>g_ramAddr := a\<rparr> in
      andthen (LookupHostByName (cstr ''sysinfo'') s) (\<lambda>(a, s). let s = s\<lparr>g_sysinfoAddr := a\<rparr> in
      andthen (EthernetInitialize s) (\<lambda>s.
      andthen (ADCInitialize s) (\<lambda>s.
      andthen (I2CInitialize s) (\<lambda>s.
      andthen (OutputInitialize s) (\<lambda>s.
      andthen (GPIOInitialize s) (\<lambda>s.
      andthen (RPCFunctionCall (g_periphAddr s) PERIPH_VOLTAGE_MODE 0 0 0 s) (\<lambda>(rc, rmsg, s).
      let s = s\<lparr>g_vnom := m_d0 rmsg, g_vlockout := 0, g_faultled := 0, g_thermalshutdown := 0\<rparr> in
      andthen (RPCFunctionCall (g_sysinfoAddr s) SYSINFO_GET_CYCFREQ 0 TIMER_HZ 0 s) (\<lambda>(rc, rmsg, s).
      andthen (RPCFunctionCall (g_periphAddr s) PERIPH_TIMER_SET_COUNT 0 (m_d1 rmsg) 0 s) (\<lambda>(rc, rmsg, s).
      andthen (RPCFunctionCall (g_periphAddr s) PERIPH_TIMER_START 0 0 0 s) (\<lambda>(rc, rmsg, s).
      Inr (s\<lparr>g_uptime := 0\<rparr>))))))))))))))"

text \<open>
  The main loop. One step takes an interrupt and processes it; meanwhile the network delivers messages and the
  Ethernet MAC writes received frames to memory.
\<close>

inductive main_step :: "pdu \<Rightarrow> pdu \<Rightarrow> bool" where
  interrupt: "GetRPCInterrupt s = Inr (rmsg, t) \<Longrightarrow> ProcessInterrupt rmsg t = Inr s' \<Longrightarrow> main_step s s'"
| network: "main_step s (s\<lparr>inbox := inbox s @ ms\<rparr>)"
| received: "main_step s (s\<lparr>mem := m\<rparr>)"

inductive_cases main_stepE: "main_step s s'"

section \<open>Evolution\<close>

lemma FaultLockout_evolves [vcg]:
  assumes e: "evolves fs s0 s" and Q: "\<And>s'. evolves fs s0 s' \<Longrightarrow> Q s'"
  shows "wp no_overrun Q (FaultLockout s)"
  unfolding FaultLockout_def
  by (rule wp_foreach_inv [where I = "evolves fs s0", OF globals_evolve(11) [OF e] _ Q]) (auto intro!: host_calls)

lemma check_sensor_evolves [vcg]:
  assumes e: "evolves fs s0 s" and Q: "\<And>s'. evolves fs s0 s' \<Longrightarrow> Q s'"
  shows "wp no_overrun Q (check_sensor i s)"
proof -
  have temp: "wp no_overrun Q (andthen (GetTemperature (of_nat i) s) (\<lambda>(t, s).
       if t < 5 \<or> t > 60 then FaultLockout (s\<lparr>g_thermalshutdown := 1\<rparr>) else Inr s))" if "evolves fs s0 s" for s
    by (auto intro!: GetTemperature_evolves [OF that] FaultLockout_evolves globals_evolve(12) Q)
  show ?thesis
    unfolding check_sensor_def wp_simps Let_def
    by (rule GetVoltage_evolves [OF e], simp (no_asm) only: prod.case wp_simps wp_if, intro conjI impI)
      (rule FaultLockout_evolves, assumption, rule GPIOSetFaultLED_evolves, assumption, rule temp [unfolded wp_simps], assumption,
        rule temp [unfolded wp_simps], assumption)
qed

lemma ErrorCheck_evolves [vcg]:
  assumes e: "evolves fs s0 s" and Q: "\<And>s'. evolves fs s0 s' \<Longrightarrow> Q s'"
  shows "wp no_overrun Q (ErrorCheck s)"
  unfolding ErrorCheck_def by (rule wp_foreach_inv [where I = "evolves fs s0", OF e _ Q]) (rule check_sensor_evolves)

lemma DHCPOnTimer_evolves [vcg]:
  assumes e: "evolves fs s0 s" and Q: "\<And>s'. evolves fs s0 s' \<Longrightarrow> Q s'"
  shows "wp no_overrun Q (DHCPOnTimer s)"
  unfolding DHCPOnTimer_def
  by (auto intro!: DHCPSendDiscover_evolves [OF e] Q e globals_evolve(9) split: dhcp_state.split)

lemma OnTimer_evolves [vcg]:
  assumes e: "evolves fs s0 s" and Q: "\<And>s'. evolves fs s0 s' \<Longrightarrow> Q s'"
  shows "wp no_overrun Q (OnTimer s)"
  unfolding OnTimer_def Let_def
  by (auto intro!: DHCPOnTimer_evolves [OF globals_evolve(1) [OF e]] GPIOSetFaultLED_evolves ErrorCheck_evolves
      Q globals_evolve(2))

lemma ProcessInterrupt_evolves [vcg]:
  assumes e: "evolves fs s0 s" and Q: "\<And>s'. evolves fs s0 s' \<Longrightarrow> Q s'"
  shows "wp no_overrun Q (ProcessInterrupt msg s)"
proof -
  have link: "Q (t\<lparr>g_linkState := a, g_linkSpeed := b\<rparr>)" if "evolves fs s0 t" for t a b
    using globals_evolve(4) [OF globals_evolve(3) [OF that]] by (rule Q)
  show ?thesis
    unfolding ProcessInterrupt_def Let_def
    by (auto intro!: OnTimer_evolves [OF e Q] EthernetProcessFrame_evolves [OF e Q] EthernetOnLinkDown_evolves [OF e]
        link EthernetOnLinkUp_evolves [OF e] Q [OF e])
qed

lemma interrupt_wait_only:
  "wp E (\<lambda>(m, s'). only (\<lambda>e. \<exists>m. e = Received m) s s' \<and> same_memory s s') (interrupt_wait s)" if "E Blocked"
proof (induction s rule: interrupt_wait.induct)
  case (1 s)
  show ?case
  proof (cases "inbox s")
    case Nil
    then show ?thesis using that by (subst interrupt_wait.simps) (simp add: RecvRPCMessage_def)
  next
    case (Cons m ms)
    let ?s = "s\<lparr>inbox := ms, io := io s @ [Received m]\<rparr>"
    have o: "only (\<lambda>e. \<exists>m. e = Received m) s ?s" "same_memory s ?s" by (simp_all add: only_def same_memory_def)
    have "wp E (\<lambda>(m, s'). only (\<lambda>e. \<exists>m. e = Received m) ?s s' \<and> same_memory ?s s') (interrupt_wait ?s)"
      if "m_type m \<noteq> RPC_TYPE_INTERRUPT"
      using 1 [of "(m, ?s)" m ?s] that Cons by (simp add: RecvRPCMessage_def)
    then show ?thesis
      using o Cons by (subst interrupt_wait.simps)
        (auto simp: RecvRPCMessage_def same_memory_def elim!: wp_mono intro: only_trans)
  qed
qed

lemma GetRPCInterrupt_evolves [vcg]:
  assumes e: "evolves fs s0 s" and Q: "\<And>m s'. evolves fs s0 s' \<Longrightarrow> Q (m, s')"
  shows "wp no_overrun Q (GetRPCInterrupt s)"
proof (cases "g_pendingInterruptCount (pend s) > 0")
  case True
  then have "queued (pend s) \<noteq> []" by (metis length_queued less_numeral_extra(3) list.size(3))
  then have "intq_ok (snd (PopInterrupt (pend s)))" using intq_ok_pop [of "pend s"] evolve_parts(8) [OF e] by simp
  then have "evolves fs s0 (s\<lparr>pend := snd (PopInterrupt (pend s))\<rparr>)"
    using e by (simp add: evolves_def pdu_ok_def hosts_def)
  then show ?thesis using True Q by (simp add: GetRPCInterrupt_def split_def Let_def)
next
  case False
  have "wp no_overrun (\<lambda>(m, s'). only (\<lambda>e. \<exists>m. e = Received m) s s' \<and> same_memory s s') (interrupt_wait s)"
    by (rule interrupt_wait_only) simp
  then have "wp no_overrun Q (interrupt_wait s)"
  proof (rule wp_mono)
    fix r :: "RPCMessage \<times> pdu"
    assume "case r of (m, s') \<Rightarrow> only (\<lambda>e. \<exists>m. e = Received m) s s' \<and> same_memory s s'"
    then obtain m s' where r: "r = (m, s')" "only (\<lambda>e. \<exists>m. e = Received m) s s'" "same_memory s s'" by (cases r) auto
    have "evolves fs s0 s'" by (rule evolves_only [OF e r(2)]) (use r(3) in \<open>auto simp: same_memory_def\<close>)
    then show "Q r" using Q r(1) by simp
  qed
  then show ?thesis using False by (simp add: GetRPCInterrupt_def)
qed

text \<open>A step, and by rule induction a run, evolves the state and holds no frame.\<close>

lemma step_evolves: "main_step s s' \<Longrightarrow> pdu_ok s \<Longrightarrow> output_apart s \<Longrightarrow> evolves [] s s'"
proof (induction rule: main_step.induct)
  case (interrupt s rmsg t s')
  have "wp no_overrun (\<lambda>(m, t). evolves [] s t) (GetRPCInterrupt s)"
    by (rule GetRPCInterrupt_evolves [OF evolves_refl]) (use interrupt in simp_all)
  then have "evolves [] s t" using interrupt(1) by (simp add: wp_def)
  then have "wp no_overrun (evolves [] s) (ProcessInterrupt rmsg t)" by (rule ProcessInterrupt_evolves)
  then show ?case using interrupt(2) by (simp add: wp_def)
next
  case (network s ms)
  then show ?case by (simp add: evolves_def pdu_ok_def hosts_def)
next
  case (received s m)
  then show ?case by (simp add: memory_evolves(1) evolves_refl)
qed

lemma run_evolves:
  assumes "main_step\<^sup>*\<^sup>* s s'" and "pdu_ok s" and "output_apart s"
  shows "evolves [] s s'"
  using assms(1)
proof (induction rule: rtranclp_induct)
  case base
  show ?case by (rule evolves_refl [OF assms(2,3)])
next
  case (step t u)
  then show ?case using step_evolves evolves_trans evolves_ok evolves_apart by blast
qed

section \<open>The lockout\<close>

definition all_off :: "u32 \<Rightarrow> RPCMessage list" where
  "all_off stage = map (\<lambda>i. rpc_request stage OUTSTAGE_POWER_STATE (of_nat i) 0 0) [0..<10]"

lemma power_off_sends:
  fixes s0 t :: pdu
  assumes "sends s0 t xs" and "\<And>s'. sends s0 s' (xs @ map (\<lambda>i. rpc_request (g_outputStageAddr t) OUTSTAGE_POWER_STATE (of_nat i) 0 0) is) \<Longrightarrow>
      cpu.more s' = cpu.more t \<Longrightarrow> mem s' = mem t \<Longrightarrow> mmu s' = mmu t \<Longrightarrow> Q s'"
  shows "wp only_blocks Q (foreach is (\<lambda>i s.
       andthen (RPCFunctionCall (g_outputStageAddr s) OUTSTAGE_POWER_STATE (of_nat i) 0 0 s) (\<lambda>(rc, rmsg, s). Inr s)) t)"
  using assms
proof (induction "is" arbitrary: t xs)
  case (Cons i "is")
  show ?case
    unfolding foreach.simps andthen_assoc wp_simps
  proof (rule pdu_call_sends [OF Cons.prems(1)], simp only: prod.case wp_simps andthen_simps, rule Cons.IH, assumption, goal_cases)
    case (1 rc r s' s'')
    then show ?case by (intro Cons.prems(2)) (simp_all add: same_memory_def)
  qed
qed simp

lemma FaultLockout_sends:
  assumes x: "sends s0 s xs" and Q: "\<And>s'. sends s0 s' (xs @ all_off (g_outputStageAddr s)) \<Longrightarrow>
    cpu.more s' = cpu.more (s\<lparr>g_vlockout := 1\<rparr>) \<Longrightarrow> mem s' = mem s \<Longrightarrow> mmu s' = mmu s \<Longrightarrow> Q s'"
  shows "wp only_blocks Q (FaultLockout s)"
  unfolding FaultLockout_def
  by (rule power_off_sends, rule sends_same_log [OF x]) (auto intro!: Q simp: all_off_def)

lemma GPIOSetFaultLED_sends:
  assumes "sends s0 s xs" and "\<And>s'. sends s0 s' (xs @ [rpc_request (g_periphAddr s) PERIPH_SET_BOARD_FAULT fault 0 0]) \<Longrightarrow>
    cpu.more s' = cpu.more s \<Longrightarrow> Q s'"
  shows "wp only_blocks Q (GPIOSetFaultLED fault s)"
  unfolding GPIOSetFaultLED_def wp_simps
  by (rule pdu_call_sends [OF assms(1)], simp only: prod.case wp_simps, rule assms(2)) simp_all

lemma sensors_only:
  "wp only_blocks (\<lambda>(v, s'). cpu.more s' = cpu.more s) (GetVoltage sensor s)"
  "wp only_blocks (\<lambda>(v, s'). cpu.more s' = cpu.more s) (GetTemperature sensor s)"
  unfolding GetVoltage_def ADCRead_def GetTemperature_def Let_def
  by (auto intro!: RPCFunctionCall_vcg dest!: only_more)

definition deviates :: "u32 \<Rightarrow> u32 \<Rightarrow> bool" where
  "deviates v nominal \<longleftrightarrow> \<bar>uint v - uint nominal\<bar> > 250"

lemma deviates_code: "((if v > n then v - n else n - v) > 250) = deviates v n"
proof -
  have "uint (a - b) = uint a - uint b" if "b \<le> a" for a b :: u32 using that by (simp add: uint_minus_simple_alt)
  then show ?thesis unfolding deviates_def word_less_def by (auto simp: word_less_def not_less word_le_def)
qed

text \<open>The two halves of a check.\<close>

lemma hot_lockout:
  assumes w: "cpu.more w = cpu.more (u :: pdu)"
  shows "wp only_blocks (\<lambda>s'. sends w s' (all_off (g_outputStageAddr u)) \<and>
      cpu.more s' = cpu.more (u\<lparr>g_vlockout := 1, g_thermalshutdown := 1\<rparr>)) (FaultLockout (w\<lparr>g_thermalshutdown := 1\<rparr>))"
proof (rule FaultLockout_sends [OF sends_same_log [OF sends_refl]])
  fix s'
  assume 1: "sends w s' ([] @ all_off (g_outputStageAddr (w\<lparr>g_thermalshutdown := 1\<rparr>)))"
    "cpu.more s' = cpu.more (w\<lparr>g_thermalshutdown := 1, g_vlockout := 1\<rparr>)"
  have "cpu.more (w\<lparr>g_thermalshutdown := 1, g_vlockout := 1\<rparr>) = cpu.more (u\<lparr>g_vlockout := 1, g_thermalshutdown := 1\<rparr>)"
    using w by (cases w; cases u) (simp add: cpu.defs)
  then show "sends w s' (all_off (g_outputStageAddr u)) \<and> cpu.more s' = cpu.more (u\<lparr>g_vlockout := 1, g_thermalshutdown := 1\<rparr>)"
    using 1 pdu_more [OF w] by (simp add: hosts_def)
qed simp

definition temperature_handled :: "nat \<Rightarrow> pdu \<Rightarrow> pdu \<Rightarrow> bool" where
  "temperature_handled i u s' \<longleftrightarrow> (\<exists>t u3. GetTemperature (of_nat i) u = Inr (t, u3) \<and>
      sends u3 s' (if t < 5 \<or> t > 60 then all_off (g_outputStageAddr u) else []) \<and>
      cpu.more s' = cpu.more (u\<lparr>g_vlockout := if t < 5 \<or> t > 60 then 1 else g_vlockout u,
        g_thermalshutdown := if t < 5 \<or> t > 60 then 1 else g_thermalshutdown u\<rparr>))"

lemma temperature_exact:
  "wp only_blocks (temperature_handled i u) (andthen (GetTemperature (of_nat i) u) (\<lambda>(t, s).
       if t < 5 \<or> t > 60 then FaultLockout (s\<lparr>g_thermalshutdown := 1\<rparr>) else Inr s))"
  unfolding wp_simps
proof (rule wp_result [OF sensors_only(2)])
  fix r assume r: "GetTemperature (of_nat i) u = Inr r" "case r of (v, s') \<Rightarrow> cpu.more s' = cpu.more u"
  then obtain t w where "r = (t, w)" "cpu.more w = cpu.more u" by (cases r) auto
  then show "wp only_blocks (temperature_handled i u)
      (case r of (t, s) \<Rightarrow> if t < 5 \<or> t > 60 then FaultLockout (s\<lparr>g_thermalshutdown := 1\<rparr>) else Inr s)"
    using r(1) hot_lockout [of w u] sends_refl unfolding temperature_handled_def by (auto elim!: wp_mono)
qed

definition voltage_handled :: "u32 \<Rightarrow> pdu \<Rightarrow> pdu \<Rightarrow> bool" where
  "voltage_handled v u s' \<longleftrightarrow>
     sends u s' (if deviates v (g_vnom u)
       then all_off (g_outputStageAddr u) @ [rpc_request (g_periphAddr u) PERIPH_SET_BOARD_FAULT 1 0 0] else []) \<and>
     cpu.more s' = cpu.more (u\<lparr>g_vlockout := if deviates v (g_vnom u) then 1 else g_vlockout u\<rparr>)"

lemma voltage_exact:
  "wp only_blocks (voltage_handled v u) (if (if v > g_vnom u then v - g_vnom u else g_vnom u - v) > 250
     then andthen (FaultLockout u) (GPIOSetFaultLED 1) else Inr u)"
  unfolding deviates_code
proof (cases "deviates v (g_vnom u)")
  case True
  have "wp only_blocks (voltage_handled v u) (GPIOSetFaultLED 1 t)"
    if t: "sends u t (all_off (g_outputStageAddr u))" "cpu.more t = cpu.more (u\<lparr>g_vlockout := 1\<rparr>)" for t
  proof (rule GPIOSetFaultLED_sends [OF t(1)])
    have "g_periphAddr t = g_periphAddr u" using pdu_more [OF t(2)] by (simp add: hosts_def)
    then show "sends u s' (all_off (g_outputStageAddr u) @ [rpc_request (g_periphAddr t) PERIPH_SET_BOARD_FAULT 1 0 0]) \<Longrightarrow>
        cpu.more s' = cpu.more t \<Longrightarrow> voltage_handled v u s'" for s'
      using True t(2) by (simp add: voltage_handled_def)
  qed
  then have "wp only_blocks (voltage_handled v u) (andthen (FaultLockout u) (GPIOSetFaultLED 1))"
    unfolding wp_simps by (intro FaultLockout_sends [OF sends_refl]) simp
  then show "wp only_blocks (voltage_handled v u) (if deviates v (g_vnom u) then andthen (FaultLockout u) (GPIOSetFaultLED 1) else Inr u)"
    using True by simp
qed (simp add: voltage_handled_def sends_refl)

definition checked :: "nat \<Rightarrow> pdu \<Rightarrow> pdu \<Rightarrow> bool" where
  "checked i s s' \<longleftrightarrow> (\<exists>v u1 u2. GetVoltage (of_nat i) s = Inr (v, u1) \<and> cpu.more u1 = cpu.more s \<and>
     voltage_handled v u1 u2 \<and> temperature_handled i u2 s')"

lemma check_sensor_exact: "wp only_blocks (checked i s) (check_sensor i s)"
  unfolding check_sensor_def Let_def wp_simps(3)
proof (rule wp_result [OF sensors_only(1)])
  fix r assume r: "GetVoltage (of_nat i) s = Inr r" "case r of (v, u1) \<Rightarrow> cpu.more u1 = cpu.more s"
  then obtain v u1 where v: "r = (v, u1)" "cpu.more u1 = cpu.more s" by (cases r) auto
  have "temperature_handled i u2 s' \<Longrightarrow> voltage_handled v u1 u2 \<Longrightarrow> checked i s s'" for u2 s'
    using r(1) v unfolding checked_def by blast
  then show "wp only_blocks (checked i s) (case r of (v, s) \<Rightarrow>
      andthen (if 250 < (if g_vnom s < v then v - g_vnom s else g_vnom s - v) then andthen (FaultLockout s) (GPIOSetFaultLED 1) else Inr s)
       (\<lambda>s. andthen (GetTemperature (of_nat i) s) (\<lambda>(t, s).
          if t < 5 \<or> 60 < t then FaultLockout (s\<lparr>g_thermalshutdown := 1\<rparr>) else Inr s)))"
    unfolding v(1) prod.case wp_simps(3) [of _ _ "if _ then _ else _"]
    by (intro wp_mono [OF voltage_exact] wp_mono [OF temperature_exact])
qed

section \<open>Properties\<close>



text \<open>
  C2: a lockout is final. Once a fault has set it, no sequence of interrupts, frames and SNMP requests switches an output on again or
  clears it; a thermal shutdown is not cleared either.
\<close>
theorem lockout_permanent:
  assumes "main_step\<^sup>*\<^sup>* s s'" and "pdu_ok s" and "output_apart s" and "g_vlockout s \<noteq> 0"
  shows "g_vlockout s' \<noteq> 0 \<and> (g_thermalshutdown s \<noteq> 0 \<longrightarrow> g_thermalshutdown s' \<noteq> 0) \<and>
    (\<exists>evs. io s' = io s @ evs \<and> (\<forall>e \<in> set evs. \<not> power_on (g_outputStageAddr s) e))"
  using run_evolves [OF assms(1-3)] assms(4) unfolding evolves_def by blast

theorem lockout_permanent_witness:
  "let s = blank_pdu\<lparr>g_vlockout := 1\<rparr>; s' = s\<lparr>inbox := [granted 0x10 0]\<rparr> in
   main_step\<^sup>*\<^sup>* s s' \<and> g_vlockout s' \<noteq> 0"
proof -
  let ?s = "blank_pdu\<lparr>g_vlockout := 1\<rparr>"
  have s: "main_step\<^sup>*\<^sup>* ?s (?s\<lparr>inbox := [granted 0x10 0]\<rparr>)"
    using main_step.network [of ?s "[granted 0x10 0]"] by auto
  have "pdu_ok ?s" "output_apart ?s" using blank_pdu_ok by (simp_all add: pdu_ok_def output_apart_def)
  then show ?thesis using lockout_permanent [OF s] s by (simp add: Let_def)
qed

text \<open>
  C5: the checks at a timer tick, for whatever the sensors read: first the supply and the temperature sensor 0, then those of number 1. When
  a voltage is more than 250 mV away from the nominal one, all ten outputs are switched off, in order, the fault LED is lit and the unit
  is locked out; when a temperature is below 5 or above 60 degrees, all ten are switched off (again), and the unit is locked out
  and its thermal shutdown latched. Otherwise no variable changes, and nothing is sent but the requests of the sensors. After a
  thermal shutdown the checks are left out and the LED blinks instead.
\<close>
theorem error_check_exact:
  "wp only_blocks (\<lambda>s'. \<exists>m. checked 0 s m \<and> checked 1 m s') (ErrorCheck s) \<and>
   (g_thermalshutdown s \<noteq> 0 \<longrightarrow> g_dhcpState s \<noteq> DHCP_STATE_LINK_UP_0 \<longrightarrow> g_dhcpState s \<noteq> DHCP_STATE_LINK_UP_1 \<longrightarrow>
      wp only_blocks (\<lambda>s'. sends s s' [rpc_request (g_periphAddr s) PERIPH_SET_BOARD_FAULT (g_faultled s) 0 0] \<and>
        cpu.more s' = cpu.more (s\<lparr>g_uptime := g_uptime s + 1, g_faultled := if g_faultled s = 0 then 1 else 0\<rparr>)) (OnTimer s))"
proof (intro conjI impI)
  have l: "[0..<2] = [0, 1 :: nat]" by (simp add: upt_rec)
  have "wp only_blocks (\<lambda>m. wp only_blocks (\<lambda>s'. \<exists>m. checked 0 s m \<and> checked 1 m s') (andthen (check_sensor 1 m) Inr)) (check_sensor 0 s)"
  proof (rule wp_mono [OF check_sensor_exact])
    fix m assume "checked 0 s m"
    then show "wp only_blocks (\<lambda>s'. \<exists>m. checked 0 s m \<and> checked 1 m s') (andthen (check_sensor 1 m) Inr)"
      unfolding wp_simps by (intro wp_mono [OF check_sensor_exact]) blast
  qed
  then show "wp only_blocks (\<lambda>s'. \<exists>m. checked 0 s m \<and> checked 1 m s') (ErrorCheck s)"
    unfolding ErrorCheck_def l by (simp (no_asm_use) only: foreach.simps wp_simps(3))
next
  let ?s = "s\<lparr>g_uptime := g_uptime s + 1\<rparr>"
  assume t: "g_thermalshutdown s \<noteq> 0" "g_dhcpState s \<noteq> DHCP_STATE_LINK_UP_0" "g_dhcpState s \<noteq> DHCP_STATE_LINK_UP_1"
  have d: "DHCPOnTimer ?s = Inr ?s" using t(2,3) by (cases "g_dhcpState s") (simp_all add: DHCPOnTimer_def)
  have m: "cpu.more (u\<lparr>g_faultled := if g_faultled u = 0 then 1 else 0\<rparr>) =
      cpu.more (s\<lparr>g_uptime := g_uptime s + 1, g_faultled := if g_faultled s = 0 then 1 else 0\<rparr>)" if "cpu.more u = cpu.more ?s" for u
    using that by (cases u; cases s) (simp add: cpu.defs)
  have th: "g_thermalshutdown ?s \<noteq> 0" using t(1) by simp
  have "sends s ?s []" by (rule sends_same_log [OF sends_refl]) simp
  then show "wp only_blocks (\<lambda>s'. sends s s' [rpc_request (g_periphAddr s) PERIPH_SET_BOARD_FAULT (g_faultled s) 0 0] \<and>
        cpu.more s' = cpu.more (s\<lparr>g_uptime := g_uptime s + 1, g_faultled := if g_faultled s = 0 then 1 else 0\<rparr>)) (OnTimer s)"
    unfolding OnTimer_def Let_def d andthen_simps if_P [OF th] wp_simps(3)
  proof (rule GPIOSetFaultLED_sends)
    fix u
    assume "sends s u ([] @ [rpc_request (g_periphAddr ?s) PERIPH_SET_BOARD_FAULT (g_faultled ?s) 0 0])" "cpu.more u = cpu.more ?s"
    then show "wp only_blocks (\<lambda>s'. sends s s' [rpc_request (g_periphAddr s) PERIPH_SET_BOARD_FAULT (g_faultled s) 0 0] \<and>
        cpu.more s' = cpu.more (s\<lparr>g_uptime := g_uptime s + 1, g_faultled := if g_faultled s = 0 then 1 else 0\<rparr>))
      (Inr (u\<lparr>g_faultled := if g_faultled u = 0 then 1 else 0\<rparr>))"
      unfolding wp_simps using m by (simp add: sends_same_log)
  qed
qed

theorem error_check_exact_witness:
  "let s = blank_pdu\<lparr>g_thermalshutdown := 1\<rparr> in
   wp only_blocks (\<lambda>s'. g_uptime s' = 1 \<and> g_faultled s' = 1) (OnTimer s)"
proof -
  let ?s = "blank_pdu\<lparr>g_thermalshutdown := 1\<rparr>"
  have u: "g_uptime s' = 1 \<and> g_faultled s' = 1" if "cpu.more s' = cpu.more (blank_pdu\<lparr>g_thermalshutdown := 1, g_uptime := 1, g_faultled := 1\<rparr>)"
    for s' :: pdu using that by (cases s') (simp add: blank_pdu_def cpu.defs)
  have "g_dhcpState ?s = DHCP_STATE_IDLE" "g_thermalshutdown ?s \<noteq> 0" by simp_all
  then have "wp only_blocks (\<lambda>s'. cpu.more s' = cpu.more (?s\<lparr>g_uptime := g_uptime ?s + 1, g_faultled := if g_faultled ?s = 0 then 1 else 0\<rparr>)) (OnTimer ?s)"
    using error_check_exact [of ?s] by (auto elim!: wp_mono)
  moreover have "g_uptime blank_pdu = 0" "g_faultled blank_pdu = 0" by (simp_all add: blank_pdu_def cpu.defs)
  ultimately show ?thesis unfolding Let_def by (auto elim!: wp_mono dest!: u)
qed

end
