(* ===== verification/Bridge_Crc.thy ===== *)
theory Bridge_Crc
  imports Antikernel_Prelude
begin

text \<open>
  The checksums of the JTAG bridge of the network on chip (\<open>src/src/nocbridge/JTAGNOCBridgeInterface.cpp\<close>): the table-driven
  CRC-8 of the frame headers and CRC-32 of the payloads. Both tables are shown to hold the remainders of the bit-by-bit division,
  and which errors the checksums detect follows from two facts about one step of the division, in the locale \<open>crc_register\<close>.
\<close>

section \<open>The code\<close>

definition g_crc8Table :: "u8 list" where
  "g_crc8Table =
   [0x00, 0x07, 0x0e, 0x09, 0x1c, 0x1b, 0x12, 0x15, 0x38, 0x3f, 0x36, 0x31, 0x24, 0x23, 0x2a, 0x2d,
    0x70, 0x77, 0x7e, 0x79, 0x6c, 0x6b, 0x62, 0x65, 0x48, 0x4f, 0x46, 0x41, 0x54, 0x53, 0x5a, 0x5d,
    0xe0, 0xe7, 0xee, 0xe9, 0xfc, 0xfb, 0xf2, 0xf5, 0xd8, 0xdf, 0xd6, 0xd1, 0xc4, 0xc3, 0xca, 0xcd,
    0x90, 0x97, 0x9e, 0x99, 0x8c, 0x8b, 0x82, 0x85, 0xa8, 0xaf, 0xa6, 0xa1, 0xb4, 0xb3, 0xba, 0xbd,
    0xc7, 0xc0, 0xc9, 0xce, 0xdb, 0xdc, 0xd5, 0xd2, 0xff, 0xf8, 0xf1, 0xf6, 0xe3, 0xe4, 0xed, 0xea,
    0xb7, 0xb0, 0xb9, 0xbe, 0xab, 0xac, 0xa5, 0xa2, 0x8f, 0x88, 0x81, 0x86, 0x93, 0x94, 0x9d, 0x9a,
    0x27, 0x20, 0x29, 0x2e, 0x3b, 0x3c, 0x35, 0x32, 0x1f, 0x18, 0x11, 0x16, 0x03, 0x04, 0x0d, 0x0a,
    0x57, 0x50, 0x59, 0x5e, 0x4b, 0x4c, 0x45, 0x42, 0x6f, 0x68, 0x61, 0x66, 0x73, 0x74, 0x7d, 0x7a,
    0x89, 0x8e, 0x87, 0x80, 0x95, 0x92, 0x9b, 0x9c, 0xb1, 0xb6, 0xbf, 0xb8, 0xad, 0xaa, 0xa3, 0xa4,
    0xf9, 0xfe, 0xf7, 0xf0, 0xe5, 0xe2, 0xeb, 0xec, 0xc1, 0xc6, 0xcf, 0xc8, 0xdd, 0xda, 0xd3, 0xd4,
    0x69, 0x6e, 0x67, 0x60, 0x75, 0x72, 0x7b, 0x7c, 0x51, 0x56, 0x5f, 0x58, 0x4d, 0x4a, 0x43, 0x44,
    0x19, 0x1e, 0x17, 0x10, 0x05, 0x02, 0x0b, 0x0c, 0x21, 0x26, 0x2f, 0x28, 0x3d, 0x3a, 0x33, 0x34,
    0x4e, 0x49, 0x40, 0x47, 0x52, 0x55, 0x5c, 0x5b, 0x76, 0x71, 0x78, 0x7f, 0x6a, 0x6d, 0x64, 0x63,
    0x3e, 0x39, 0x30, 0x37, 0x22, 0x25, 0x2c, 0x2b, 0x06, 0x01, 0x08, 0x0f, 0x1a, 0x1d, 0x14, 0x13,
    0xae, 0xa9, 0xa0, 0xa7, 0xb2, 0xb5, 0xbc, 0xbb, 0x96, 0x91, 0x98, 0x9f, 0x8a, 0x8d, 0x84, 0x83,
    0xde, 0xd9, 0xd0, 0xd7, 0xc2, 0xc5, 0xcc, 0xcb, 0xe6, 0xe1, 0xe8, 0xef, 0xfa, 0xfd, 0xf4, 0xf3]"

definition g_crc32Table :: "u32 list" where
  "g_crc32Table =
   [0x00000000, 0x77073096, 0xee0e612c, 0x990951ba, 0x076dc419, 0x706af48f, 0xe963a535, 0x9e6495a3,
    0x0edb8832, 0x79dcb8a4, 0xe0d5e91e, 0x97d2d988, 0x09b64c2b, 0x7eb17cbd, 0xe7b82d07, 0x90bf1d91,
    0x1db71064, 0x6ab020f2, 0xf3b97148, 0x84be41de, 0x1adad47d, 0x6ddde4eb, 0xf4d4b551, 0x83d385c7,
    0x136c9856, 0x646ba8c0, 0xfd62f97a, 0x8a65c9ec, 0x14015c4f, 0x63066cd9, 0xfa0f3d63, 0x8d080df5,
    0x3b6e20c8, 0x4c69105e, 0xd56041e4, 0xa2677172, 0x3c03e4d1, 0x4b04d447, 0xd20d85fd, 0xa50ab56b,
    0x35b5a8fa, 0x42b2986c, 0xdbbbc9d6, 0xacbcf940, 0x32d86ce3, 0x45df5c75, 0xdcd60dcf, 0xabd13d59,
    0x26d930ac, 0x51de003a, 0xc8d75180, 0xbfd06116, 0x21b4f4b5, 0x56b3c423, 0xcfba9599, 0xb8bda50f,
    0x2802b89e, 0x5f058808, 0xc60cd9b2, 0xb10be924, 0x2f6f7c87, 0x58684c11, 0xc1611dab, 0xb6662d3d,
    0x76dc4190, 0x01db7106, 0x98d220bc, 0xefd5102a, 0x71b18589, 0x06b6b51f, 0x9fbfe4a5, 0xe8b8d433,
    0x7807c9a2, 0x0f00f934, 0x9609a88e, 0xe10e9818, 0x7f6a0dbb, 0x086d3d2d, 0x91646c97, 0xe6635c01,
    0x6b6b51f4, 0x1c6c6162, 0x856530d8, 0xf262004e, 0x6c0695ed, 0x1b01a57b, 0x8208f4c1, 0xf50fc457,
    0x65b0d9c6, 0x12b7e950, 0x8bbeb8ea, 0xfcb9887c, 0x62dd1ddf, 0x15da2d49, 0x8cd37cf3, 0xfbd44c65,
    0x4db26158, 0x3ab551ce, 0xa3bc0074, 0xd4bb30e2, 0x4adfa541, 0x3dd895d7, 0xa4d1c46d, 0xd3d6f4fb,
    0x4369e96a, 0x346ed9fc, 0xad678846, 0xda60b8d0, 0x44042d73, 0x33031de5, 0xaa0a4c5f, 0xdd0d7cc9,
    0x5005713c, 0x270241aa, 0xbe0b1010, 0xc90c2086, 0x5768b525, 0x206f85b3, 0xb966d409, 0xce61e49f,
    0x5edef90e, 0x29d9c998, 0xb0d09822, 0xc7d7a8b4, 0x59b33d17, 0x2eb40d81, 0xb7bd5c3b, 0xc0ba6cad,
    0xedb88320, 0x9abfb3b6, 0x03b6e20c, 0x74b1d29a, 0xead54739, 0x9dd277af, 0x04db2615, 0x73dc1683,
    0xe3630b12, 0x94643b84, 0x0d6d6a3e, 0x7a6a5aa8, 0xe40ecf0b, 0x9309ff9d, 0x0a00ae27, 0x7d079eb1,
    0xf00f9344, 0x8708a3d2, 0x1e01f268, 0x6906c2fe, 0xf762575d, 0x806567cb, 0x196c3671, 0x6e6b06e7,
    0xfed41b76, 0x89d32be0, 0x10da7a5a, 0x67dd4acc, 0xf9b9df6f, 0x8ebeeff9, 0x17b7be43, 0x60b08ed5,
    0xd6d6a3e8, 0xa1d1937e, 0x38d8c2c4, 0x4fdff252, 0xd1bb67f1, 0xa6bc5767, 0x3fb506dd, 0x48b2364b,
    0xd80d2bda, 0xaf0a1b4c, 0x36034af6, 0x41047a60, 0xdf60efc3, 0xa867df55, 0x316e8eef, 0x4669be79,
    0xcb61b38c, 0xbc66831a, 0x256fd2a0, 0x5268e236, 0xcc0c7795, 0xbb0b4703, 0x220216b9, 0x5505262f,
    0xc5ba3bbe, 0xb2bd0b28, 0x2bb45a92, 0x5cb36a04, 0xc2d7ffa7, 0xb5d0cf31, 0x2cd99e8b, 0x5bdeae1d,
    0x9b64c2b0, 0xec63f226, 0x756aa39c, 0x026d930a, 0x9c0906a9, 0xeb0e363f, 0x72076785, 0x05005713,
    0x95bf4a82, 0xe2b87a14, 0x7bb12bae, 0x0cb61b38, 0x92d28e9b, 0xe5d5be0d, 0x7cdcefb7, 0x0bdbdf21,
    0x86d3d2d4, 0xf1d4e242, 0x68ddb3f8, 0x1fda836e, 0x81be16cd, 0xf6b9265b, 0x6fb077e1, 0x18b74777,
    0x88085ae6, 0xff0f6a70, 0x66063bca, 0x11010b5c, 0x8f659eff, 0xf862ae69, 0x616bffd3, 0x166ccf45,
    0xa00ae278, 0xd70dd2ee, 0x4e048354, 0x3903b3c2, 0xa7672661, 0xd06016f7, 0x4969474d, 0x3e6e77db,
    0xaed16a4a, 0xd9d65adc, 0x40df0b66, 0x37d83bf0, 0xa9bcae53, 0xdebb9ec5, 0x47b2cf7f, 0x30b5ffe9,
    0xbdbdf21c, 0xcabac28a, 0x53b39330, 0x24b4a3a6, 0xbad03605, 0xcdd70693, 0x54de5729, 0x23d967bf,
    0xb3667a2e, 0xc4614ab8, 0x5d681b02, 0x2a6f2b94, 0xb40bbe37, 0xc30c8ea1, 0x5a05df1b, 0x2d02ef8d]"

text \<open>
  \<open>CRC8\<close> takes the octets of a word from the top, \<open>CRC32\<close> from the bottom. \<open>flip\<close> stands for \<open>FlipEndian32Array\<close> on the one
  word of the result, a function of the \<open>xptools\<close> submodule.
\<close>

fun crc8_word :: "nat \<Rightarrow> u32 \<Rightarrow> u8 \<Rightarrow> u8 res" where
  "crc8_word 0 d crc = Inr crc"
| "crc8_word (Suc n) d crc =
     (let b = ucast (drop_bit 24 d AND 0xff) :: u8 in
      andthen (aget g_crc8Table (unat (crc XOR b))) (crc8_word n (push_bit 8 d)))"

function crc8_from :: "nat \<Rightarrow> u32 list \<Rightarrow> nat \<Rightarrow> u8 \<Rightarrow> u8 res" where
  "crc8_from i data len crc =
     (if i < len then
        andthen (aget data (i div 4)) (\<lambda>d. andthen (crc8_word (min 4 (len - i)) d crc) (crc8_from (i + 4) data len))
      else Inr crc)"
  by pat_completeness auto
termination by (relation "measure (\<lambda>(i, data, len, crc). len - i)") auto

definition CRC8 :: "u32 list \<Rightarrow> nat \<Rightarrow> u8 res" where
  "CRC8 data len = crc8_from 0 data len 0"

fun crc32_word :: "nat \<Rightarrow> u32 \<Rightarrow> u32 \<Rightarrow> u32 res" where
  "crc32_word 0 d crc = Inr crc"
| "crc32_word (Suc n) d crc =
     (let b = d AND 0xff in
      andthen (aget g_crc32Table (unat ((crc XOR b) AND 0xff))) (\<lambda>t. crc32_word n (drop_bit 8 d) (t XOR drop_bit 8 crc)))"

function crc32_from :: "nat \<Rightarrow> u32 list \<Rightarrow> nat \<Rightarrow> u32 \<Rightarrow> u32 res" where
  "crc32_from i data len crc =
     (if i < len then
        andthen (aget data (i div 4)) (\<lambda>d. andthen (crc32_word (min 4 (len - i)) d crc) (crc32_from (i + 4) data len))
      else Inr crc)"
  by pat_completeness auto
termination by (relation "measure (\<lambda>(i, data, len, crc). len - i)") auto

definition CRC32 :: "(u32 \<Rightarrow> u32) \<Rightarrow> u32 list \<Rightarrow> nat \<Rightarrow> u32 res" where
  "CRC32 flip data len = andthen (crc32_from 0 data len 0xffffffff) (\<lambda>crc. Inr (NOT (flip crc)))"

declare crc8_from.simps [simp del] crc32_from.simps [simp del]

section \<open>Bit-by-bit division\<close>

text \<open>One step of the division, for \<open>x^8 + x^2 + x + 1\<close> and, reflected, for the polynomial of CRC-32.\<close>

definition crc8_step :: "u8 \<Rightarrow> u8" where
  "crc8_step c = push_bit 1 c XOR (if bit c 7 then 7 else 0)"

definition crc32_step :: "u32 \<Rightarrow> u32" where
  "crc32_step c = drop_bit 1 c XOR (if bit c 0 then 0xEDB88320 else 0)"

text \<open>What the checksums rest on: a step is linear and loses nothing.\<close>

locale crc_register =
  fixes step :: "'w :: len word \<Rightarrow> 'w word"
  assumes step_xor: "step (x XOR y) = step x XOR step y"
    and step_zero: "step x = 0 \<Longrightarrow> x = 0"
begin

lemma steps_xor: "(step ^^ n) (x XOR y) = (step ^^ n) x XOR (step ^^ n) y"
  by (induction n) (simp_all add: step_xor)

lemma steps_0 [simp]: "(step ^^ n) 0 = 0"
  using steps_xor [of n 0 0] by simp

lemma steps_eq_0_iff [simp]: "(step ^^ n) x = 0 \<longleftrightarrow> x = 0"
proof
  show "(step ^^ n) x = 0 \<Longrightarrow> x = 0" by (induction n) (auto dest: step_zero)
qed simp

lemma steps_inj: "(step ^^ n) x = (step ^^ n) y \<longleftrightarrow> x = y"
  using steps_eq_0_iff [of n "x XOR y"] by (metis steps_xor xor_self_eq xor.right_neutral xor.assoc)

end

fun xor_span :: "'w :: len word list \<Rightarrow> 'w word list" where
  "xor_span [] = [0]"
| "xor_span (v # vs) = xor_span vs @ map (\<lambda>x. x XOR v) (xor_span vs)"

lemma length_xor_span [simp]: "length (xor_span vs) = 2 ^ length vs"
  by (induction vs) simp_all

lemma xor_span_nth:
  fixes f :: "'v :: len word \<Rightarrow> 'w :: len word"
  assumes lin: "\<And>x y. f (x XOR y) = f x XOR f y" and "n < 2 ^ k" and "k \<le> LENGTH('v)"
  shows "xor_span (map (\<lambda>i. f (2 ^ i)) (rev [0..<k])) ! n = f (of_nat n)"
  using assms(2,3)
proof (induction k arbitrary: n)
  case 0
  have "f 0 = f 0 XOR f 0" using lin [of 0 0] by simp
  then show ?case using 0 by simp
next
  case (Suc k)
  let ?t = "xor_span (map (\<lambda>i. f (2 ^ i)) (rev [0..<k]))"
  show ?case
  proof (cases "n < 2 ^ k")
    case True
    then show ?thesis using Suc by (simp add: nth_append)
  next
    case False
    then obtain m where m: "n = m + 2 ^ k" "m < 2 ^ k" using Suc.prems(1) by (metis add.commute le_add_diff_inverse2 less_diff_conv2 mult_2 not_less power_Suc)
    have "\<not> bit m k" using m(2) by (simp add: bit_iff_odd)
    then have "(of_nat m :: 'v word) AND 2 ^ k = 0"
      by (simp add: and_exp_eq_0_iff_not_bit bit_of_nat_iff)
    then have "(of_nat m :: 'v word) XOR 2 ^ k = of_nat n"
      unfolding m(1) by (simp add: disjunctive_add_eq_xor)
    then show ?thesis using Suc m lin [of "of_nat m" "2 ^ k"] by (simp add: nth_append)
  qed
qed

lemma crc8_step_bit: "bit (crc8_step c) n \<longleftrightarrow> n < 8 \<and> ((0 < n \<and> bit c (n - 1)) \<noteq> (n < 3 \<and> bit c 7))"
proof -
  have m: "(7 :: u8) = mask 3" by (simp add: mask_numeral)
  have "bit (push_bit 1 c) n \<longleftrightarrow> n < 8 \<and> 0 < n \<and> bit c (n - 1)"
    by (auto simp only: bit_push_bit_iff) auto
  then show ?thesis unfolding crc8_step_def m bit_xor_iff by (auto simp: bit_mask_iff)
qed

interpretation crc8: crc_register crc8_step
proof
  fix x y :: u8
  show "crc8_step (x XOR y) = crc8_step x XOR crc8_step y"
    by (rule bit_word_eqI) (auto simp: crc8_step_bit bit_xor_iff)
  show "x = 0" if "crc8_step x = 0"
  proof (rule bit_word_eqI)
    fix n
    assume "n < LENGTH(8)"
    moreover have "\<not> bit (crc8_step x) (Suc n)" "\<not> bit (crc8_step x) 0" using that by simp_all
    ultimately show "bit x n = bit 0 n" by (cases "n = 7") (auto simp: crc8_step_bit)
  qed
qed

interpretation crc32: crc_register crc32_step
proof
  fix x y :: u32
  show "crc32_step (x XOR y) = crc32_step x XOR crc32_step y"
    by (auto simp: crc32_step_def bit_xor_iff drop_bit_xor xor.assoc xor.left_commute)
  show "x = 0" if z: "crc32_step x = 0"
  proof -
    have "bit (0xEDB88320 :: u32) 31" by simp
    moreover have "\<not> bit (crc32_step x) 31" using z by simp
    ultimately have b: "\<not> bit x 0" by (auto simp: crc32_step_def bit_simps split: if_splits)
    then have d: "drop_bit 1 x = 0" using z by (simp add: crc32_step_def)
    show ?thesis
    proof (rule bit_word_eqI)
      fix n
      assume "n < LENGTH(32)"
      have "bit x n = bit (drop_bit 1 x) (n - 1)" if "0 < n" using that by (simp add: bit_drop_bit_eq)
      then show "bit x n = bit 0 n" using b d by (cases n) auto
    qed
  qed
qed

section \<open>The tables\<close>

lemma g_crc8Table_span: "g_crc8Table = xor_span (map (\<lambda>i. (crc8_step ^^ 8) (2 ^ i)) (rev [0..<8]))"
  by code_simp

lemma g_crc32Table_span: "g_crc32Table = xor_span (map (\<lambda>i. (crc32_step ^^ 8) (ucast ((2 :: u8) ^ i))) (rev [0..<8]))"
  by code_simp

lemma length_tables [simp]: "length g_crc8Table = 256" "length g_crc32Table = 256"
  by (simp_all add: g_crc8Table_span g_crc32Table_span)

lemma unat_u8_bound: "unat (b :: u8) < 256"
  using unsigned_less [of b] by simp

lemma crc8_table: "aget g_crc8Table (unat b) = Inr ((crc8_step ^^ 8) b)"
proof -
  have "unat b < 2 ^ 8" using unat_u8_bound [of b] by simp
  then have "g_crc8Table ! unat b = (crc8_step ^^ 8) (of_nat (unat b))"
    unfolding g_crc8Table_span by (intro xor_span_nth crc8.steps_xor) simp_all
  then show ?thesis using unat_u8_bound [of b] by simp
qed

lemma crc32_table: "aget g_crc32Table (unat b) = Inr ((crc32_step ^^ 8) (ucast (b :: u8)))"
proof -
  have l: "(crc32_step ^^ 8) (ucast (x XOR y)) = (crc32_step ^^ 8) (ucast x) XOR (crc32_step ^^ 8) (ucast y)" for x y :: u8
    by (simp add: unsigned_xor_eq crc32.steps_xor)
  have "unat b < 2 ^ 8" using unat_u8_bound [of b] by simp
  then have "g_crc32Table ! unat b = (crc32_step ^^ 8) (ucast (of_nat (unat b) :: u8))"
    unfolding g_crc32Table_span by (intro xor_span_nth [where f = "\<lambda>b :: u8. (crc32_step ^^ 8) (ucast b)"] l) simp_all
  then show ?thesis using unat_u8_bound [of b] by simp
qed

section \<open>The checksums as divisions of octet lists\<close>

definition be_octets :: "u32 \<Rightarrow> u8 list" where
  "be_octets d = [ucast (drop_bit 24 d), ucast (drop_bit 16 d), ucast (drop_bit 8 d), ucast d]"

definition le_octets :: "u32 \<Rightarrow> u8 list" where
  "le_octets d = [ucast d, ucast (drop_bit 8 d), ucast (drop_bit 16 d), ucast (drop_bit 24 d)]"

definition crc8 :: "u8 list \<Rightarrow> u8 \<Rightarrow> u8" where
  "crc8 bs c = foldl (\<lambda>c b. (crc8_step ^^ 8) (c XOR b)) c bs"

definition crc32 :: "u8 list \<Rightarrow> u32 \<Rightarrow> u32" where
  "crc32 bs c = foldl (\<lambda>c b. (crc32_step ^^ 8) (c XOR ucast b)) c bs"

lemma crc_simps [simp]:
  "crc8 [] c = c" "crc8 (b # bs) c = crc8 bs ((crc8_step ^^ 8) (c XOR b))" "crc8 (bs @ cs) c = crc8 cs (crc8 bs c)"
  "crc32 [] d = d" "crc32 (b # bs) d = crc32 bs ((crc32_step ^^ 8) (d XOR ucast b))" "crc32 (bs @ cs) d = crc32 cs (crc32 bs d)"
  by (simp_all add: crc8_def crc32_def)

lemma octets_shift:
  "(ucast (drop_bit 24 d AND 0xff) :: u8) = ucast (drop_bit 24 d)"
  "(ucast (drop_bit 24 (push_bit 8 d)) :: u8) = ucast (drop_bit 16 d)"
  "(ucast (drop_bit 24 (push_bit 16 d)) :: u8) = ucast (drop_bit 8 d)"
  "(ucast (drop_bit 24 (push_bit 24 d)) :: u8) = ucast d" for d :: u32
  by (rule bit_word_eqI; auto simp: and_mask_u32 bit_simps)+

lemma crc8_word_Suc: "crc8_word (Suc n) d c = crc8_word n (push_bit 8 d) ((crc8_step ^^ 8) (c XOR ucast (drop_bit 24 d)))"
  by (simp add: Let_def crc8_table octets_shift del: funpow.simps)

lemma crc32_steps_low: "(\<And>j. j < n \<Longrightarrow> \<not> bit x j) \<Longrightarrow> (crc32_step ^^ n) x = drop_bit n x"
proof (induction n arbitrary: x)
  case (Suc n)
  have "crc32_step x = drop_bit 1 x" using Suc.prems [of 0] by (simp add: crc32_step_def)
  moreover have "(crc32_step ^^ n) (drop_bit 1 x) = drop_bit n (drop_bit 1 x)"
    by (rule Suc.IH) (use Suc.prems in \<open>simp add: bit_drop_bit_eq\<close>)
  ultimately show ?case unfolding funpow_Suc_right comp_def by (simp add: drop_bit_drop_bit)
qed simp

lemma crc32_word_Suc: "crc32_word (Suc n) d c = crc32_word n (drop_bit 8 d) ((crc32_step ^^ 8) (c XOR ucast (ucast d :: u8)))"
proof -
  let ?b = "ucast c XOR ucast d :: u8"
  have i: "(c XOR (d AND 0xff)) AND 0xff = ucast ?b"
    by (rule bit_word_eqI) (auto simp: and_mask_u32 bit_simps)
  have c: "c XOR ucast (ucast d :: u8) = ucast ?b XOR push_bit 8 (drop_bit 8 c)"
    by (rule bit_word_eqI) (auto simp: bit_simps)
  have d: "drop_bit 8 (push_bit 8 (drop_bit 8 c)) = drop_bit 8 c"
    by (rule bit_word_eqI) (auto simp: bit_simps dest: bit_u32)
  have "(crc32_step ^^ 8) (push_bit 8 (drop_bit 8 c)) = drop_bit 8 c"
    by (subst crc32_steps_low) (simp_all only: bit_push_bit_iff d, auto)
  moreover have "unat ((c XOR (d AND 0xff)) AND 0xff) = unat ?b"
    unfolding i using unat_u8_bound [of ?b] by (simp add: unsigned_ucast_eq take_bit_nat_eq_self)
  ultimately show ?thesis unfolding c crc32.steps_xor by (simp add: Let_def crc32_table del: funpow.simps)
qed

lemma crc8_word_octets: "n \<le> 4 \<Longrightarrow> crc8_word n d c = Inr (crc8 (take n (be_octets d)) c)"
proof -
  assume "n \<le> 4"
  then consider "n = 0" | "n = Suc 0" | "n = Suc (Suc 0)" | "n = Suc (Suc (Suc 0))" | "n = Suc (Suc (Suc (Suc 0)))" by linarith
  then show ?thesis
    by cases (simp_all add: be_octets_def crc8_word_Suc octets_shift push_bit_push_bit del: crc8_word.simps(2) funpow.simps)
qed

lemma le_octets_shift:
  "(ucast (drop_bit 8 (drop_bit 8 d)) :: u8) = ucast (drop_bit 16 d)" for d :: u32
  by (simp add: drop_bit_drop_bit)

lemma crc32_word_octets: "n \<le> 4 \<Longrightarrow> crc32_word n d c = Inr (crc32 (take n (le_octets d)) c)"
proof -
  assume "n \<le> 4"
  then consider "n = 0" | "n = Suc 0" | "n = Suc (Suc 0)" | "n = Suc (Suc (Suc 0))" | "n = Suc (Suc (Suc (Suc 0)))" by linarith
  then show ?thesis
    by cases (simp_all add: le_octets_def crc32_word_Suc drop_bit_drop_bit del: crc32_word.simps(2) funpow.simps)
qed

text \<open>A list of words, four octets at a time.\<close>

lemma take_octets:
  assumes four: "\<And>x. length (f x) = 4" and "4 * k < n" and "k < length data"
  shows "drop (4 * k) (take n (concat (map f data))) =
    take (min 4 (n - 4 * k)) (f (data ! k)) @ drop (4 * Suc k) (take n (concat (map f data)))"
proof -
  have d: "drop (4 * k) (concat (map f ds)) = concat (map f (drop k ds))" for k and ds
  proof (induction k arbitrary: ds)
    case (Suc k)
    then show ?case using four by (cases ds) simp_all
  qed simp
  have "drop k data = data ! k # drop (Suc k) data" using assms(3) by (rule Cons_nth_drop_Suc [symmetric])
  then have e: "concat (map f (drop k data)) = f (data ! k) @ concat (map f (drop (Suc k) data))" by simp
  have "take (n - 4 * k) (f (data ! k)) = take (min 4 (n - 4 * k)) (f (data ! k))" using four by (simp add: min_def)
  moreover have "n - 4 * k - length (f (data ! k)) = n - 4 * Suc k" using four by simp
  ultimately show ?thesis unfolding drop_take d e take_append by (simp only:)
qed

lemma crc8_from_octets:
  "len \<le> 4 * length data \<Longrightarrow> crc8_from (4 * k) data len c = Inr (crc8 (drop (4 * k) (take len (concat (map be_octets data)))) c)"
proof (induction "len - 4 * k" arbitrary: k c rule: less_induct)
  case less
  have four: "length (be_octets d) = 4" for d by (simp add: be_octets_def)
  show ?case
  proof (cases "4 * k < len")
    case True
    then have k: "k < length data" using less.prems by simp
    have i: "4 * k + 4 = 4 * Suc k" by simp
    have l: "len - 4 * Suc k < len - 4 * k" using True by simp
    show ?thesis
      unfolding take_octets [where f = be_octets, OF four True k] crc_simps
      using less.hyps [OF l less.prems] True k
      by (subst crc8_from.simps) (simp add: crc8_word_octets i del: mult_Suc_right)
  next
    case False
    then show ?thesis by (subst crc8_from.simps) simp
  qed
qed

lemma crc32_from_octets:
  "len \<le> 4 * length data \<Longrightarrow> crc32_from (4 * k) data len c = Inr (crc32 (drop (4 * k) (take len (concat (map le_octets data)))) c)"
proof (induction "len - 4 * k" arbitrary: k c rule: less_induct)
  case less
  have four: "length (le_octets d) = 4" for d by (simp add: le_octets_def)
  show ?case
  proof (cases "4 * k < len")
    case True
    then have k: "k < length data" using less.prems by simp
    have i: "4 * k + 4 = 4 * Suc k" by simp
    have l: "len - 4 * Suc k < len - 4 * k" using True by simp
    show ?thesis
      unfolding take_octets [where f = le_octets, OF four True k] crc_simps
      using less.hyps [OF l less.prems] True k
      by (subst crc32_from.simps) (simp add: crc32_word_octets i del: mult_Suc_right)
  next
    case False
    then show ?thesis by (subst crc32_from.simps) simp
  qed
qed

section \<open>Errors in the header\<close>

lemma linear_eqI:
  fixes f g :: "'v :: len word \<Rightarrow> 'w :: len word"
  assumes "\<And>x y. f (x XOR y) = f x XOR f y" and "\<And>x y. g (x XOR y) = g x XOR g y"
    and "\<And>i. i < LENGTH('v) \<Longrightarrow> f (2 ^ i) = g (2 ^ i)"
  shows "f x = g x"
proof -
  have e: "map (\<lambda>i. f (2 ^ i)) (rev [0..<LENGTH('v)]) = map (\<lambda>i. g (2 ^ i)) (rev [0..<LENGTH('v)])"
    using assms(3) by simp
  have n: "unat x < 2 ^ LENGTH('v)" by (rule unsigned_less)
  have "f (of_nat (unat x)) = g (of_nat (unat x))"
    using xor_span_nth [where f = f, OF assms(1) n order_refl] xor_span_nth [where f = g, OF assms(2) n order_refl]
    unfolding e by (rule trans [OF sym])
  then show ?thesis by simp
qed

text \<open>The header as 64 bits, the first word on top. The last octet is the checksum of the other seven when the syndrome is zero.\<close>

definition header_bits :: "u32 \<Rightarrow> u32 \<Rightarrow> 64 word" where
  "header_bits w0 w1 = push_bit 32 (ucast w0) OR ucast w1"

definition header_octet :: "nat \<Rightarrow> 64 word \<Rightarrow> u8" where
  "header_octet i h = ucast (drop_bit (8 * i) h)"

definition syndrome8 :: "64 word \<Rightarrow> u8" where
  "syndrome8 h = crc8 (map (\<lambda>i. header_octet i h) [7, 6, 5, 4, 3, 2, 1]) 0 XOR header_octet 0 h"

lemma header_octet_xor: "header_octet i (x XOR y) = header_octet i x XOR header_octet i y"
  by (simp add: header_octet_def drop_bit_xor) (rule bit_word_eqI, simp add: bit_simps)

lemma syndrome8_xor: "syndrome8 (x XOR y) = syndrome8 x XOR syndrome8 y"
  by (simp add: syndrome8_def header_octet_xor crc8.steps_xor xor.assoc xor.left_commute xor.commute del: funpow.simps)

lemma header_octet_push:
  "q < 8 \<Longrightarrow> i < 8 \<Longrightarrow> header_octet i (push_bit (8 * q) (ucast (b :: u8))) = (if i = q then b else 0)"
proof -
  assume q: "q < 8" "i < 8"
  show ?thesis
  proof (rule bit_word_eqI)
    fix n
    assume n: "n < LENGTH(8)"
    have "bit (header_octet i (push_bit (8 * q) (ucast b))) n \<longleftrightarrow> 8 * q \<le> 8 * i + n \<and> bit b (8 * i + n - 8 * q)"
      using n q by (auto simp: header_octet_def bit_simps dest: bit_imp_le_length)
    moreover have "\<not> bit b (8 * i + n - 8 * q)" if "q < i" using that n bit_imp_le_length [of b "8 * i + n - 8 * q"] by auto
    moreover have "\<not> 8 * q \<le> 8 * i + n" if "i < q" using that n by simp
    ultimately show "bit (header_octet i (push_bit (8 * q) (ucast b))) n = bit (if i = q then b else 0) n"
      by (cases i q rule: linorder_cases) auto
  qed
qed

lemma syndrome8_octet: "q < 8 \<Longrightarrow> syndrome8 (push_bit (8 * q) (ucast b)) = (crc8_step ^^ (8 * q)) b"
proof -
  assume q: "q < 8"
  define S where "S = crc8_step ^^ 8"
  have S: "S 0 = 0" "(crc8_step ^^ (8 * q)) b = (S ^^ q) b" by (simp_all only: S_def crc8.steps_0 funpow_mult)
  have m: "syndrome8 (push_bit (8 * q) (ucast b)) =
    foldl (\<lambda>c i. S (c XOR (if i = q then b else 0))) 0 [7, 6, 5, 4, 3, 2, 1] XOR (if 0 = q then b else 0)"
    by (simp add: syndrome8_def crc8_def header_octet_push [OF q] flip: S_def)
  consider "q = 0" | "q = 1" | "q = 2" | "q = 3" | "q = 4" | "q = 5" | "q = 6" | "q = 7" using q by linarith
  then show ?thesis unfolding m S(2) by cases (simp_all add: S(1) numeral_eq_Suc)
qed

lemma crc8_step_power: "r < 8 \<Longrightarrow> (crc8_step ^^ r) 1 = 2 ^ r"
proof (induction r)
  case (Suc r)
  have "crc8_step (2 ^ r) = 2 ^ Suc r"
    using Suc.prems by (intro bit_word_eqI) (auto simp: crc8_step_bit bit_simps)
  then show ?case using Suc by simp
qed simp

lemma syndrome8_bit:
  assumes "j < 64"
  shows "syndrome8 (2 ^ j) = (crc8_step ^^ j) 1"
proof -
  obtain q r where j: "j = 8 * q + r" "r < 8" "q < 8"
    by (rule that [of "j div 8" "j mod 8"]) (use assms in auto)
  have "(2 :: 64 word) ^ j = push_bit (8 * q) (ucast ((2 :: u8) ^ r))"
    unfolding j(1) by (rule bit_word_eqI) (use j(2) in \<open>auto simp: bit_simps\<close>)
  then have "syndrome8 (2 ^ j) = (crc8_step ^^ (8 * q)) ((crc8_step ^^ r) 1)"
    using j by (simp add: syndrome8_octet crc8_step_power)
  then show ?thesis unfolding j(1) funpow_add by simp
qed

lemma syndrome8_burst:
  assumes "k \<le> 56"
  shows "syndrome8 (push_bit k (ucast (w :: u8))) = (crc8_step ^^ k) w"
proof (rule linear_eqI [where f = "\<lambda>w :: u8. syndrome8 (push_bit k (ucast w))"])
  fix i
  assume i: "i < LENGTH(8)"
  then have e: "push_bit k (ucast ((2 :: u8) ^ i)) = (2 :: 64 word) ^ (k + i)"
    using assms by (intro bit_word_eqI) (auto simp: bit_simps)
  show "syndrome8 (push_bit k (ucast ((2 :: u8) ^ i))) = (crc8_step ^^ k) (2 ^ i)"
    unfolding e using assms i by (simp add: syndrome8_bit funpow_add crc8_step_power)
qed (simp_all add: syndrome8_xor crc8.steps_xor push_bit_xor unsigned_xor_eq)

text \<open>The order of the step is more than 63, and it keeps the parity.\<close>

primrec never_one :: "nat \<Rightarrow> u8 \<Rightarrow> bool" where
  "never_one 0 c \<longleftrightarrow> True"
| "never_one (Suc n) c \<longleftrightarrow> c \<noteq> 1 \<and> never_one n (crc8_step c)"

lemma never_oneD: "never_one n c \<Longrightarrow> d < n \<Longrightarrow> (crc8_step ^^ d) c \<noteq> 1"
proof (induction d arbitrary: n c)
  case 0
  then show ?case by (cases n) simp_all
next
  case (Suc d)
  from Suc.prems obtain m where m: "n = Suc m" "never_one m (crc8_step c)" "d < m" by (cases n) simp_all
  show ?case using Suc.IH [OF m(2,3)] by (simp add: funpow_swap1)
qed

lemma crc8_distinct: "a < 64 \<Longrightarrow> b < 64 \<Longrightarrow> (crc8_step ^^ a) 1 = (crc8_step ^^ b) 1 \<Longrightarrow> a = b"
proof (induction a b rule: linorder_wlog)
  case (le a b)
  then obtain d where d: "b = a + d" by (metis le_add_diff_inverse)
  have "never_one 63 (crc8_step 1)" by code_simp
  then have "(crc8_step ^^ (d - 1)) (crc8_step 1) \<noteq> 1" if "0 < d" by (rule never_oneD) (use le d that in simp)
  then have "(crc8_step ^^ d) 1 \<noteq> 1" if "0 < d" using that by (cases d) (simp_all add: funpow_swap1)
  moreover have "(crc8_step ^^ d) 1 = 1" using le(4) unfolding d funpow_add comp_def crc8.steps_inj by simp
  ultimately show ?case using d by auto
qed auto

primrec odd_below :: "nat \<Rightarrow> u8 \<Rightarrow> bool" where
  "odd_below 0 c \<longleftrightarrow> False"
| "odd_below (Suc n) c \<longleftrightarrow> bit c n \<noteq> odd_below n c"

definition odd_parity :: "u8 \<Rightarrow> bool" where
  "odd_parity c \<longleftrightarrow> odd_below 8 c"

lemma xor_eq_0: "a XOR b = 0 \<longleftrightarrow> a = (b :: 'w :: len word)"
  by (auto simp: word_bits_iff bit_xor_iff)

lemma odd_parity_xor: "odd_parity (x XOR y) \<longleftrightarrow> odd_parity x \<noteq> odd_parity y"
proof -
  have "odd_below n (x XOR y) \<longleftrightarrow> odd_below n x \<noteq> odd_below n y" for n
    by (induction n) (auto simp: bit_xor_iff)
  then show ?thesis by (simp add: odd_parity_def)
qed

lemma odd_parity_const [simp]: "odd_parity 1" "\<not> odd_parity 0"
  by code_simp+

lemma odd_parity_step: "odd_parity (crc8_step c) \<longleftrightarrow> odd_parity c"
proof -
  have b: "bit (crc8_step c) 0 \<longleftrightarrow> bit c 7" "bit (crc8_step c) 1 \<longleftrightarrow> (bit c 0 \<noteq> bit c 7)"
    "bit (crc8_step c) 2 \<longleftrightarrow> (bit c 1 \<noteq> bit c 7)" "bit (crc8_step c) 3 \<longleftrightarrow> bit c 2" "bit (crc8_step c) 4 \<longleftrightarrow> bit c 3"
    "bit (crc8_step c) 5 \<longleftrightarrow> bit c 4" "bit (crc8_step c) 6 \<longleftrightarrow> bit c 5" "bit (crc8_step c) 7 \<longleftrightarrow> bit c 6"
    unfolding crc8_step_bit by simp_all
  have e: "odd_below 8 d \<longleftrightarrow> (bit d 7 \<noteq> (bit d 6 \<noteq> (bit d 5 \<noteq> (bit d 4 \<noteq> (bit d 3 \<noteq> (bit d 2 \<noteq> (bit d 1 \<noteq> (bit d 0 \<noteq> False))))))))"
    for d by (simp only: numeral_eq_Suc pred_numeral_simps arith_simps odd_below.simps One_nat_def)
  have "(p6 \<noteq> (p5 \<noteq> (p4 \<noteq> (p3 \<noteq> (p2 \<noteq> ((p1 \<noteq> p7) \<noteq> ((p0 \<noteq> p7) \<noteq> (p7 \<noteq> False)))))))) \<longleftrightarrow>
    (p7 \<noteq> (p6 \<noteq> (p5 \<noteq> (p4 \<noteq> (p3 \<noteq> (p2 \<noteq> (p1 \<noteq> (p0 \<noteq> False))))))))" for p0 p1 p2 p3 p4 p5 p6 p7
    by (cases p0; cases p1; cases p2; cases p3; cases p4; cases p5; cases p6; cases p7; simp only: simp_thms)
  then show ?thesis unfolding odd_parity_def e b .
qed

lemma odd_parity_steps: "odd_parity ((crc8_step ^^ n) 1)"
proof (induction n)
  case 0
  show ?case by simp
qed (simp add: odd_parity_step)

text \<open>One, two or three wrong bits, or wrong bits within eight neighbours.\<close>

definition detectable :: "64 word \<Rightarrow> bool" where
  "detectable e \<longleftrightarrow> e \<noteq> 0 \<and> (card {i. bit e i} \<le> 3 \<or> (\<exists>k. \<forall>i. bit e i \<longrightarrow> k \<le> i \<and> i < k + 8))"

lemma bit_u64: "bit (e :: 64 word) i \<Longrightarrow> i < 64"
  using bit_imp_le_length [of e i] by simp

lemma finite_bits: "finite {i. bit (e :: 64 word) i}"
  by (rule finite_subset [of _ "{..<64}"]) (auto dest: bit_u64)

lemma syndrome8_few:
  assumes "e \<noteq> 0" and "card {i. bit e i} \<le> 3"
  shows "syndrome8 e \<noteq> 0"
proof -
  let ?E = "{i. bit e i}"
  have E: "e = f" if "\<And>i. i < 64 \<Longrightarrow> bit f i \<longleftrightarrow> i \<in> ?E" for f
    by (rule bit_word_eqI) (use that in auto)
  have p: "bit ((2 :: 64 word) ^ a) i \<longleftrightarrow> i = a \<and> a < 64" for a i by (auto simp: bit_simps)
  have "?E \<noteq> {}" using assms(1) by (auto intro: bit_word_eqI)
  then have "card ?E \<noteq> 0" using finite_bits by simp
  then consider "card ?E = 1" | "card ?E = 2" | "card ?E = 3" using assms(2) by linarith
  then show ?thesis
  proof cases
    case 1
    then obtain a where a: "?E = {a}" by (rule card_1_singletonE)
    then have "a < 64" using bit_u64 [of e a] by auto
    moreover have "e = 2 ^ a" by (rule E) (use a in \<open>auto simp: p\<close>)
    ultimately show ?thesis using syndrome8_bit [of a] by simp
  next
    case 2
    then obtain a b where a: "?E = {a, b}" "a \<noteq> b" by (auto simp: card_2_iff)
    then have l: "a < 64" "b < 64" using bit_u64 [of e a] bit_u64 [of e b] by auto
    have "e = 2 ^ a XOR 2 ^ b" by (rule E) (use a in \<open>auto simp: p bit_xor_iff\<close>)
    moreover have "syndrome8 (2 ^ a) \<noteq> syndrome8 (2 ^ b)" using crc8_distinct [OF l] a(2) l by (auto simp: syndrome8_bit)
    ultimately show ?thesis by (simp add: syndrome8_xor xor_eq_0)
  next
    case 3
    then obtain a b c where a: "?E = {a, b, c}" "a \<noteq> b" "b \<noteq> c" "a \<noteq> c" by (auto simp: card_3_iff)
    then have l: "a < 64" "b < 64" "c < 64" using bit_u64 [of e a] bit_u64 [of e b] bit_u64 [of e c] by auto
    have "e = 2 ^ a XOR 2 ^ b XOR 2 ^ c" by (rule E) (use a in \<open>auto simp: p bit_xor_iff\<close>)
    then have "odd_parity (syndrome8 e)" using l by (simp add: syndrome8_xor syndrome8_bit odd_parity_xor odd_parity_steps)
    then show ?thesis using odd_parity_const(2) by metis
  qed
qed

lemma syndrome8_near:
  assumes "e \<noteq> 0" and "\<And>i. bit e i \<Longrightarrow> k \<le> i \<and> i < k + 8"
  shows "syndrome8 e \<noteq> 0"
proof -
  let ?k = "min k 56"
  let ?w = "ucast (drop_bit ?k e) :: u8"
  have "e = push_bit ?k (ucast ?w)"
  proof (rule bit_word_eqI)
    fix i
    assume "i < LENGTH(64)"
    then show "bit e i = bit (push_bit ?k (ucast ?w) :: 64 word) i" using assms(2) [of i] by (auto simp: bit_simps)
  qed
  moreover from this have "?w \<noteq> 0" using assms(1) by force
  ultimately show ?thesis using syndrome8_burst [of ?k ?w] by simp
qed

lemma detectable_syndrome: "detectable e \<Longrightarrow> syndrome8 e \<noteq> 0"
  unfolding detectable_def using syndrome8_few syndrome8_near by blast

text \<open>The syndrome of a header is the difference between the checksum computed and the one it holds.\<close>

lemma header_octets:
  "header_octet 7 (header_bits w0 w1) = ucast (drop_bit 24 w0)" "header_octet 6 (header_bits w0 w1) = ucast (drop_bit 16 w0)"
  "header_octet 5 (header_bits w0 w1) = ucast (drop_bit 8 w0)" "header_octet 4 (header_bits w0 w1) = ucast w0"
  "header_octet 3 (header_bits w0 w1) = ucast (drop_bit 24 w1)" "header_octet 2 (header_bits w0 w1) = ucast (drop_bit 16 w1)"
  "header_octet 1 (header_bits w0 w1) = ucast (drop_bit 8 w1)" "header_octet 0 (header_bits w0 w1) = ucast w1"
  by (rule bit_word_eqI; auto simp: header_octet_def header_bits_def bit_simps dest: bit_u32)+

lemma header_bits_xor: "header_bits (w0 XOR e0) (w1 XOR e1) = header_bits w0 w1 XOR header_bits e0 e1"
  by (rule bit_word_eqI) (auto simp: header_bits_def bit_simps dest: bit_u32)

lemma CRC8_header: "CRC8 [w0, w1] 7 = Inr (ucast w1 XOR syndrome8 (header_bits w0 w1))"
proof -
  let ?c = "crc8 (take 7 (be_octets w0 @ be_octets w1)) 0"
  have "CRC8 [w0, w1] 7 = Inr ?c"
    using crc8_from_octets [of 7 "[w0, w1]" 0 0] by (simp add: CRC8_def)
  moreover have "syndrome8 (header_bits w0 w1) = ?c XOR ucast w1"
    by (simp add: syndrome8_def header_octets header_octets(7) [unfolded One_nat_def] be_octets_def del: funpow.simps)
  moreover have "x XOR (y XOR x) = y" for x y :: u8
    by (rule bit_word_eqI) (auto simp: bit_xor_iff)
  ultimately show ?thesis by simp
qed

section \<open>Errors in the payload\<close>

text \<open>A word at a time, \<open>CRC32\<close> is a register of 32 bits that takes a word and makes 32 steps.\<close>

lemma crc32_word: "crc32 (le_octets w) c = (crc32_step ^^ 32) (c XOR w)"
proof -
  let ?S = "crc32_step ^^ 8"
  have s: "?S (d XOR v) = ?S (d XOR ucast (ucast v :: u8)) XOR drop_bit 8 v" for d v
  proof -
    have "drop_bit 8 (push_bit 8 (drop_bit 8 v)) = drop_bit 8 v"
      by (rule bit_word_eqI) (auto simp: bit_simps dest: bit_u32)
    then have "?S (push_bit 8 (drop_bit 8 v)) = drop_bit 8 v"
      by (subst crc32_steps_low) (simp_all only: bit_push_bit_iff, auto)
    moreover have "d XOR v = (d XOR ucast (ucast v :: u8)) XOR push_bit 8 (drop_bit 8 v)"
      by (rule bit_word_eqI) (auto simp: bit_simps)
    ultimately show ?thesis by (simp only: crc32.steps_xor)
  qed
  have e: "drop_bit 32 w = 0" by (rule bit_word_eqI) (auto simp: bit_simps dest: bit_u32)
  have "(crc32_step ^^ 32) (c XOR w) = ?S (?S (?S (?S (c XOR w))))"
    using funpow_add [of 8 24 crc32_step] funpow_add [of 8 16 crc32_step] funpow_add [of 8 8 crc32_step] by simp
  also have "\<dots> = crc32 (le_octets w) c"
    using s [of c w] s [of _ "drop_bit 8 w"] s [of _ "drop_bit 16 w"] s [of _ "drop_bit 24 w"]
    by (simp only: le_octets_def crc_simps drop_bit_drop_bit) (simp add: e)
  finally show ?thesis by simp
qed

definition word_register :: "u32 list \<Rightarrow> u32 \<Rightarrow> u32" where
  "word_register ws c = foldl (\<lambda>c w. (crc32_step ^^ 32) (c XOR w)) c ws"

lemma word_register_simps [simp]:
  "word_register [] c = c" "word_register (w # ws) c = word_register ws ((crc32_step ^^ 32) (c XOR w))"
  by (simp_all add: word_register_def)

lemma crc32_words: "crc32 (concat (map le_octets ws)) c = word_register ws c"
  by (induction ws arbitrary: c) (simp_all add: crc32_word del: funpow.simps)

definition xor_words :: "u32 list \<Rightarrow> u32 list \<Rightarrow> u32 list" where
  "xor_words ws es = map2 (\<lambda>w e. w XOR e) ws es"

lemma word_register_xor:
  "length es = length ws \<Longrightarrow> word_register (xor_words ws es) (c XOR d) = word_register ws c XOR word_register es d"
proof (induction ws arbitrary: es c d)
  case (Cons w ws)
  from Cons.prems obtain e es' where es: "es = e # es'" "length es' = length ws" by (cases es) simp_all
  have "(c XOR d) XOR (w XOR e) = (c XOR w) XOR (d XOR e)" by (simp add: xor.assoc xor.left_commute)
  then have "(crc32_step ^^ 32) ((c XOR d) XOR (w XOR e)) = (crc32_step ^^ 32) (c XOR w) XOR (crc32_step ^^ 32) (d XOR e)"
    by (simp only: crc32.steps_xor)
  moreover have "xor_words (w # ws) (e # es') = (w XOR e) # xor_words ws es'" by (simp add: xor_words_def)
  ultimately show ?case by (simp only: es(1) word_register_simps Cons.IH [OF es(2)])
qed (simp add: xor_words_def)

text \<open>Errors within 32 neighbouring bits, the words one after the other from their low bits.\<close>

definition burst32 :: "u32 list \<Rightarrow> bool" where
  "burst32 es \<longleftrightarrow> (\<exists>e \<in> set es. e \<noteq> 0) \<and>
     (\<exists>p. \<forall>i < length es. \<forall>j. bit (es ! i) j \<longrightarrow> p \<le> 32 * i + j \<and> 32 * i + j < p + 32)"

lemma word_register_zero: "(\<And>e. e \<in> set es \<Longrightarrow> e = 0) \<Longrightarrow> word_register es c = 0 \<longleftrightarrow> c = 0"
proof (induction es arbitrary: c)
  case (Cons a es)
  have "a = 0" "\<And>e. e \<in> set es \<Longrightarrow> e = 0" using Cons.prems by simp_all
  then show ?case using Cons.IH by simp
qed simp

lemma word_register_start:
  assumes "length es = length (tl es) + 1"
    and "\<And>i j. i < length es \<Longrightarrow> bit (es ! i) j \<Longrightarrow> s \<le> 32 * i + j \<and> 32 * i + j < s + 32"
    and "s < 32" and "e \<in> set es" and "e \<noteq> 0"
  shows "word_register es 0 \<noteq> 0"
proof -
  obtain a fs where es: "es = a # fs" using assms(1) by (cases es) simp_all
  have a: "\<not> bit a j" if "j < s" for j using assms(2) [of 0 j] that es by auto
  have split: "(crc32_step ^^ 32) a = (crc32_step ^^ (32 - s)) (drop_bit s a)"
  proof -
    have "(crc32_step ^^ (32 - s + s)) a = (crc32_step ^^ (32 - s)) (drop_bit s a)"
      unfolding funpow_add comp_def using crc32_steps_low [of s a] a by simp
    then show ?thesis using assms(3) by simp
  qed
  show ?thesis
  proof (cases fs)
    case Nil
    then have "a \<noteq> 0" using assms(4,5) es by simp
    then show ?thesis by (simp add: es Nil)
  next
    case (Cons b gs)
    have b: "j < s" if "bit b j" for j using assms(2) [of 1 j] that es Cons by simp
    have g: "g = 0" if "g \<in> set gs" for g
    proof -
      from that obtain i where i: "i < length gs" "g = gs ! i" by (metis in_set_conv_nth)
      then have "\<not> bit g j" for j using assms(2) [of "Suc (Suc i)" j] assms(3) es Cons by auto
      then show ?thesis by (intro bit_word_eqI) simp
    qed
    let ?v = "drop_bit s a XOR push_bit (32 - s) b"
    have pb: "bit (push_bit (32 - s) b) k \<longleftrightarrow> 32 - s \<le> k \<and> k < 32 \<and> bit b (k - (32 - s))" for k
      by (auto simp: bit_simps)
    have "drop_bit (32 - s) (push_bit (32 - s) b) = b"
      by (rule bit_word_eqI) (use b assms(3) in \<open>fastforce simp: bit_drop_bit_eq pb\<close>)
    then have "(crc32_step ^^ (32 - s)) (push_bit (32 - s) b) = b"
      by (subst crc32_steps_low) (simp_all add: pb)
    then have r: "(crc32_step ^^ 32) a XOR b = (crc32_step ^^ (32 - s)) ?v" by (simp only: split crc32.steps_xor)
    have "?v \<noteq> 0"
    proof
      assume "?v = 0"
      then have v: "drop_bit s a = push_bit (32 - s) b" by (simp add: xor_eq_0)
      have "\<not> bit a j" for j
      proof (cases "j < s \<or> 32 \<le> j")
        case False
        then show ?thesis using arg_cong [OF v, of "\<lambda>x. bit x (j - s)"] assms(3) by (auto simp: bit_drop_bit_eq pb)
      qed (use a bit_u32 in force)
      then have z: "a = 0" by (intro bit_word_eqI) simp
      have "\<not> bit b j" for j
        using arg_cong [OF v, of "\<lambda>x. bit x (j + (32 - s))"] b [of j] assms(3) by (auto simp: z pb)
      then have "b = 0" by (intro bit_word_eqI) simp
      then show False using z g assms(4,5) by (auto simp: es Cons)
    qed
    then have "(crc32_step ^^ 32) a XOR b \<noteq> 0" unfolding r by simp
    then show ?thesis using g by (simp add: es Cons word_register_zero)
  qed
qed

lemma word_register_burst: "burst32 es \<Longrightarrow> word_register es 0 \<noteq> 0"
proof -
  have "word_register es 0 \<noteq> 0"
    if "\<And>i j. i < length es \<Longrightarrow> bit (es ! i) j \<Longrightarrow> p \<le> 32 * i + j \<and> 32 * i + j < p + 32" and "e \<in> set es" "e \<noteq> 0" for p e
    using that
  proof (induction es arbitrary: p)
    case (Cons a es)
    show ?case
    proof (cases "p < 32")
      case True
      then show ?thesis using word_register_start [of "a # es" p e] Cons.prems by simp
    next
      case False
      have "\<not> bit a j" for j using Cons.prems(1) [of 0 j] False bit_u32 [of a j] by auto
      then have a: "a = 0" by (intro bit_word_eqI) simp
      have "word_register es 0 \<noteq> 0"
      proof (rule Cons.IH [of "p - 32"])
        show "p - 32 \<le> 32 * i + j \<and> 32 * i + j < p - 32 + 32" if "i < length es" "bit (es ! i) j" for i j
          using Cons.prems(1) [of "Suc i" j] that False by auto
      qed (use Cons.prems(2,3) a in auto)
      then show ?thesis by (simp add: a)
    qed
  qed simp
  then show "burst32 es \<Longrightarrow> word_register es 0 \<noteq> 0" unfolding burst32_def by blast
qed

lemma CRC32_words:
  "CRC32 flip ws (4 * length ws) = Inr (NOT (flip (word_register ws 0xffffffff)))"
proof -
  have l: "length (concat (map le_octets ws)) = 4 * length ws" by (induction ws) (simp_all add: le_octets_def)
  have "crc32_from 0 ws (4 * length ws) c = Inr (word_register ws c)" for c
    using crc32_from_octets [of "4 * length ws" ws 0 c] by (simp add: l crc32_words)
  then show ?thesis by (simp add: CRC32_def)
qed

section \<open>Properties\<close>

text \<open>
  C13: the table-driven checksums are the remainders of the bit-by-bit division. For every length that the buffer holds,
  \<open>CRC8\<close> and \<open>CRC32\<close> read inside the buffer and their tables, and give the register of the division of the octets, taken from the top
  of each word for the one and from the bottom for the other.
\<close>
theorem bridge_crc_exact:
  assumes "len \<le> 4 * length data"
  shows "CRC8 data len = Inr (crc8 (take len (concat (map be_octets data))) 0) \<and>
    CRC32 flip data len = Inr (NOT (flip (crc32 (take len (concat (map le_octets data))) 0xffffffff)))"
  using crc8_from_octets [OF assms, of 0 0] crc32_from_octets [OF assms, of 0 "0xffffffff"]
  by (simp_all add: CRC8_def CRC32_def)

text \<open>The check values of the two codes, for the text \<open>123456789\<close>.\<close>

text \<open>The check values of the two codes, for the text \<open>123456789\<close>.\<close>

theorem bridge_crc_exact_witness:
  "CRC8 [0x31323334, 0x35363738, 0x39000000] 9 = Inr 0xF4 \<and>
   CRC32 (\<lambda>x. x) [0x34333231, 0x38373635, 0x00000039] 9 = Inr 0xCBF43926"
proof -
  have f: "(f ^^ 8) x = f (f (f (f (f (f (f (f x)))))))" for f :: "'a \<Rightarrow> 'a" and x by (simp add: numeral_eq_Suc)
  have s8: "crc8_step (numeral w) = (if bit (numeral w :: u8) 7 then push_bit 1 (numeral w) XOR 7 else push_bit 1 (numeral w))" for w
    by (simp add: crc8_step_def)
  have s32: "crc32_step (numeral w) =
    (if even (numeral w :: u32) then drop_bit 1 (numeral w) else drop_bit 1 (numeral w) XOR 0xEDB88320)" for w
    by (simp add: crc32_step_def bit_0)
  have "crc8 (take 9 (concat (map be_octets [0x31323334, 0x35363738, 0x39000000]))) 0 = 0xF4"
    by (simp add: be_octets_def f s8)
  moreover have "NOT (crc32 (take 9 (concat (map le_octets [0x34333231, 0x38373635, 0x00000039]))) 0xffffffff) = 0xCBF43926"
    by (simp add: le_octets_def f s32)
  ultimately show ?thesis
    using bridge_crc_exact [of 9 "[0x31323334, 0x35363738, 0x39000000]"]
      bridge_crc_exact [of 9 "[0x34333231, 0x38373635, 0x00000039]" "\<lambda>x. x"] by simp
qed

text \<open>A burst in the payload changes the value sent after it.\<close>

lemma xor_words_length: "length es = length ws \<Longrightarrow> length (xor_words ws es) = length ws"
  by (simp add: xor_words_def)

lemma burst_register:
  assumes "length es = length ws" and "burst32 es" and "inj flip"
  shows "NOT (flip (word_register (xor_words ws es) 0xffffffff)) \<noteq> NOT (flip (word_register ws 0xffffffff))"
proof -
  have "word_register (xor_words ws es) 0xffffffff = word_register ws 0xffffffff XOR word_register es 0"
    using word_register_xor [OF assms(1), of "0xffffffff" 0] by simp
  then have "word_register (xor_words ws es) 0xffffffff \<noteq> word_register ws 0xffffffff"
    using word_register_burst [OF assms(2)] xor_eq_0 [of "word_register ws 0xffffffff XOR word_register es 0" "word_register ws 0xffffffff"]
    by (simp add: xor.commute [of "_ XOR _"] flip: xor.assoc)
  then show ?thesis using assms(3) by (simp add: inj_eq)
qed

end
