(* ===== verification/Bridge.thy ===== *)
theory Bridge
  imports Bridge_Crc
begin

text \<open>
  The host side of the debug bridge of the network on chip (\<open>src/src/nocbridge/JTAGNOCBridgeInterface.cpp\<close>, \<open>RPCMessage.cpp\<close>):
  the two encodings of a message, the frame header, the pool of client addresses, and \<open>Cycle\<close>, which exchanges a buffer
  of frames with the FPGA. These programs run on a little-endian host; each member function that takes a lock is one operation.
\<close>

section \<open>Messages\<close>

record rpc_message =
  rpc_from :: u16
  rpc_to :: u16
  rpc_callnum :: u8
  rpc_type :: u32
  rpc_data0 :: u32
  rpc_data1 :: u32
  rpc_data2 :: u32

text \<open>The two overloads of \<open>Pack\<close> and of \<open>Unpack\<close>. The warning for a wide \<open>data[0]\<close> is only logged.\<close>

definition pack_bytes :: "rpc_message \<Rightarrow> u8 list" where
  "pack_bytes m =
     [ucast (drop_bit 8 (rpc_from m)), ucast (rpc_from m AND 0xff), ucast (drop_bit 8 (rpc_to m)), ucast (rpc_to m AND 0xff),
      rpc_callnum m, ucast ((drop_bit 16 (rpc_data0 m) AND 0x1f) OR push_bit 5 (rpc_type m AND 7)),
      ucast (drop_bit 8 (rpc_data0 m) AND 0xff), ucast (rpc_data0 m AND 0xff),
      ucast (drop_bit 24 (rpc_data1 m)), ucast (drop_bit 16 (rpc_data1 m) AND 0xff),
      ucast (drop_bit 8 (rpc_data1 m) AND 0xff), ucast (rpc_data1 m AND 0xff),
      ucast (drop_bit 24 (rpc_data2 m)), ucast (drop_bit 16 (rpc_data2 m) AND 0xff),
      ucast (drop_bit 8 (rpc_data2 m) AND 0xff), ucast (rpc_data2 m AND 0xff)]"

definition pack_words :: "rpc_message \<Rightarrow> u32 list" where
  "pack_words m =
     [push_bit 16 (ucast (rpc_from m)) OR ucast (rpc_to m),
      push_bit 24 (ucast (rpc_callnum m)) OR push_bit 21 (rpc_type m) OR rpc_data0 m, rpc_data1 m, rpc_data2 m]"

definition unpack_words :: "u32 list \<Rightarrow> rpc_message res" where
  "unpack_words buf =
     andthen (aget buf 0) (\<lambda>b0. andthen (aget buf 1) (\<lambda>b1. andthen (aget buf 2) (\<lambda>b2. andthen (aget buf 3) (\<lambda>b3.
     Inr \<lparr>rpc_from = ucast (drop_bit 16 b0), rpc_to = ucast (b0 AND 0xffff), rpc_callnum = ucast (drop_bit 24 b1),
       rpc_type = drop_bit 21 b1 AND 7, rpc_data0 = b1 AND 0x1fffff, rpc_data1 = b2, rpc_data2 = b3\<rparr>))))"

definition be_word :: "u8 \<Rightarrow> u8 \<Rightarrow> u8 \<Rightarrow> u8 \<Rightarrow> u32" where
  "be_word a b c d = push_bit 24 (ucast a) OR push_bit 16 (ucast b) OR push_bit 8 (ucast c) OR ucast d"

definition unpack_bytes :: "u8 list \<Rightarrow> rpc_message res" where
  "unpack_bytes buf =
     (if length buf < 16 then Inl OutOfBounds else
      Inr \<lparr>rpc_from = push_bit 8 (ucast (buf ! 0)) OR ucast (buf ! 1), rpc_to = push_bit 8 (ucast (buf ! 2)) OR ucast (buf ! 3),
        rpc_callnum = buf ! 4, rpc_type = drop_bit 5 (ucast (buf ! 5)),
        rpc_data0 = push_bit 16 (ucast (buf ! 5 AND 0x1F)) OR push_bit 8 (ucast (buf ! 6)) OR ucast (buf ! 7),
        rpc_data1 = be_word (buf ! 8) (buf ! 9) (buf ! 10) (buf ! 11),
        rpc_data2 = be_word (buf ! 12) (buf ! 13) (buf ! 14) (buf ! 15)\<rparr>)"

text \<open>The messages that the network can carry: 21 bits of \<open>data[0]\<close> and three of the type.\<close>

definition sendable :: "rpc_message \<Rightarrow> bool" where
  "sendable m \<longleftrightarrow> rpc_type m AND 7 = rpc_type m \<and> rpc_data0 m AND 0x1fffff = rpc_data0 m"

lemma u32_masks:
  fixes x :: u32
  shows "x AND 7 = take_bit 3 x" "x AND 0x1f = take_bit 5 x" "x AND 0x1fffff = take_bit 21 x" "x AND 0x3ff = take_bit 10 x"
    "x AND 0x7ff = take_bit 11 x"
  by (simp_all add: take_bit_eq_mask mask_numeral)

lemma u16_masks: "x AND 0xff = take_bit 8 (x :: u16)" "y AND 0x1f = take_bit 5 (y :: u8)"
  by (simp_all add: take_bit_eq_mask mask_numeral)

text \<open>Equality of words, an octet at a time.\<close>

lemma octet_eqI:
  fixes x y :: u32
  assumes "\<And>r. r < 8 \<Longrightarrow> bit x r = bit y r" and "\<And>r. r < 8 \<Longrightarrow> bit x (8 + r) = bit y (8 + r)"
    and "\<And>r. r < 8 \<Longrightarrow> bit x (16 + r) = bit y (16 + r)" and "\<And>r. r < 8 \<Longrightarrow> bit x (24 + r) = bit y (24 + r)"
  shows "x = y"
proof (rule bit_word_eqI)
  fix n
  assume "n < LENGTH(32)"
  then consider "n < 8" | "n - 8 < 8" "n = 8 + (n - 8)" | "n - 16 < 8" "n = 16 + (n - 16)" | "n - 24 < 8" "n = 24 + (n - 24)"
    by fastforce
  then show "bit x n = bit y n" using assms by cases metis+
qed

lemma bit_words: "bit (a :: u8) i \<Longrightarrow> i < 8" "bit (b :: u16) i \<Longrightarrow> i < 16" "bit (c :: u32) i \<Longrightarrow> i < 32"
  using bit_imp_le_length [of a i] bit_imp_le_length [of b i] bit_imp_le_length [of c i] by simp_all

lemma be_word_octets [simp]:
  "be_word (ucast (drop_bit 24 w)) (ucast (drop_bit 16 w AND 0xff)) (ucast (drop_bit 8 w AND 0xff)) (ucast (w AND 0xff)) = w"
  by (rule octet_eqI) (auto simp: be_word_def and_mask_u32 bit_simps dest: bit_words)

lemma unpack_pack_bytes:
  "unpack_bytes (pack_bytes m) = Inr (m\<lparr>rpc_type := rpc_type m AND 7, rpc_data0 := rpc_data0 m AND 0x1fffff\<rparr>)"
proof -
  have 1: "push_bit 8 (ucast (ucast (drop_bit 8 x) :: u8)) OR ucast (ucast (x AND 0xff) :: u8) = x" for x :: u16
    by (rule bit_word_eqI) (auto simp: u16_masks bit_simps dest: bit_words)
  have 2: "drop_bit 5 (ucast (ucast ((drop_bit 16 d AND 0x1f) OR push_bit 5 (t AND 7)) :: u8)) = t AND 7" for d t :: u32
    by (rule bit_word_eqI) (auto simp: u32_masks bit_simps dest: bit_words)
  have 3: "push_bit 16 (ucast (ucast ((drop_bit 16 d AND 0x1f) OR push_bit 5 (t AND 7)) AND 0x1F :: u8)) OR
      push_bit 8 (ucast (ucast (drop_bit 8 d AND 0xff) :: u8)) OR ucast (ucast (d AND 0xff) :: u8) = d AND 0x1fffff" for d t :: u32
    by (rule octet_eqI) (auto simp: u32_masks u16_masks and_mask_u32 bit_simps dest: bit_words)
  show ?thesis by (cases m) (simp add: unpack_bytes_def pack_bytes_def 1 2 3 del: push_bit_and)
qed

lemma unpack_pack_words: "sendable m \<Longrightarrow> unpack_words (pack_words m) = Inr m"
proof -
  assume m: "sendable m"
  have 1: "(ucast (drop_bit 16 (push_bit 16 (ucast f) OR ucast t :: u32)) :: u16) = f"
    "(ucast ((push_bit 16 (ucast f) OR ucast t :: u32) AND 0xffff) :: u16) = t" for f t :: u16
    by (rule bit_word_eqI; auto simp: and_mask_u32 bit_simps dest: bit_words)+
  have 2: "(ucast (drop_bit 24 (push_bit 24 (ucast c) OR push_bit 21 t OR d)) :: u8) = c"
    "drop_bit 21 (push_bit 24 (ucast c) OR push_bit 21 t OR d) AND 7 = t"
    "(push_bit 24 (ucast c) OR push_bit 21 t OR d) AND 0x1fffff = d"
    if "take_bit 3 t = t" "take_bit 21 d = d" for c :: u8 and t d :: u32
  proof -
    have t: "bit t i \<Longrightarrow> i < 3" and d: "bit d i \<Longrightarrow> i < 21" for i
      using that by (metis bit_take_bit_iff)+
    show "(ucast (drop_bit 24 (push_bit 24 (ucast c) OR push_bit 21 t OR d)) :: u8) = c"
      "drop_bit 21 (push_bit 24 (ucast c) OR push_bit 21 t OR d) AND 7 = t"
      "(push_bit 24 (ucast c) OR push_bit 21 t OR d) AND 0x1fffff = d"
      by (rule bit_word_eqI; auto simp: u32_masks bit_simps dest: bit_words t d)+
  qed
  from m have "take_bit 3 (rpc_type m) = rpc_type m" "take_bit 21 (rpc_data0 m) = rpc_data0 m"
    by (simp_all add: sendable_def u32_masks)
  from 2 [OF this, of "rpc_callnum m"] show ?thesis
    by (simp add: unpack_words_def pack_words_def 1 del: drop_bit_or push_bit_and)
qed

lemma unpack_words_sendable: "unpack_words ws = Inr m \<Longrightarrow> sendable m"
  by (auto simp: unpack_words_def andthen_Inr_iff sendable_def and.assoc)

lemma pack_unpack_words: "unpack_words [a, b, c, d] = Inr m \<Longrightarrow> pack_words m = [a, b, c, d]"
proof -
  have "push_bit 16 (ucast (ucast (drop_bit 16 a) :: u16)) OR ucast (ucast (a AND 0xffff) :: u16) = a"
    by (rule bit_word_eqI) (auto simp: and_mask_u32 bit_simps)
  moreover have "push_bit 24 (ucast (ucast (drop_bit 24 b) :: u8)) OR push_bit 21 (drop_bit 21 b AND 7) OR b AND 0x1fffff = b"
    by (rule octet_eqI) (auto simp: u32_masks bit_simps dest: bit_words)
  ultimately show "unpack_words [a, b, c, d] = Inr m \<Longrightarrow> pack_words m = [a, b, c, d]"
    by (auto simp: unpack_words_def pack_words_def simp del: push_bit_and)
qed

lemma pack_bytes_words: "sendable m \<Longrightarrow> pack_bytes m = concat (map be_octets (pack_words m))"
proof -
  have 1: "ucast (drop_bit 8 f) = (ucast (drop_bit 24 (push_bit 16 (ucast f) OR ucast t :: u32)) :: u8)"
    "ucast (f AND 0xff) = (ucast (drop_bit 16 (push_bit 16 (ucast f) OR ucast t :: u32)) :: u8)"
    "ucast (drop_bit 8 t) = (ucast (drop_bit 8 (push_bit 16 (ucast f) OR ucast t :: u32)) :: u8)"
    "ucast (t AND 0xff) = (ucast (push_bit 16 (ucast f) OR ucast t :: u32) :: u8)" for f t :: u16
    by (rule bit_word_eqI; auto simp: u16_masks bit_simps dest: bit_words)+
  have 2: "c = ucast (drop_bit 24 (push_bit 24 (ucast c) OR push_bit 21 t OR d))"
    "(ucast ((drop_bit 16 d AND 0x1f) OR push_bit 5 (t AND 7)) :: u8) = ucast (drop_bit 16 (push_bit 24 (ucast c) OR push_bit 21 t OR d))"
    "(ucast (drop_bit 8 d AND 0xff) :: u8) = ucast (drop_bit 8 (push_bit 24 (ucast c) OR push_bit 21 t OR d))"
    "(ucast (d AND 0xff) :: u8) = ucast (push_bit 24 (ucast c) OR push_bit 21 t OR d)"
    if "take_bit 3 t = t" "take_bit 21 d = d" for c :: u8 and t d :: u32
  proof -
    have t: "bit t i \<Longrightarrow> i < 3" and d: "bit d i \<Longrightarrow> i < 21" for i
      using that by (metis bit_take_bit_iff)+
    show "c = ucast (drop_bit 24 (push_bit 24 (ucast c) OR push_bit 21 t OR d))"
      "(ucast ((drop_bit 16 d AND 0x1f) OR push_bit 5 (t AND 7)) :: u8) = ucast (drop_bit 16 (push_bit 24 (ucast c) OR push_bit 21 t OR d))"
      "(ucast (drop_bit 8 d AND 0xff) :: u8) = ucast (drop_bit 8 (push_bit 24 (ucast c) OR push_bit 21 t OR d))"
      "(ucast (d AND 0xff) :: u8) = ucast (push_bit 24 (ucast c) OR push_bit 21 t OR d)"
      by (rule bit_word_eqI; auto simp: u32_masks and_mask_u32 bit_simps dest: bit_words t d)+
  qed
  have 3: "(ucast (w AND 0xff) :: u8) = ucast w" for w :: u32
    by (rule bit_word_eqI) (auto simp: and_mask_u32 bit_simps)
  assume m: "sendable m"
  then have "take_bit 3 (rpc_type m) = rpc_type m" "take_bit 21 (rpc_data0 m) = rpc_data0 m"
    by (simp_all add: sendable_def u32_masks)
  from 2 [OF this, of "rpc_callnum m"] show ?thesis
    unfolding pack_bytes_def pack_words_def be_octets_def
    by (simp add: 1 [where f = "rpc_from m" and t = "rpc_to m"] 3 del: push_bit_and)
qed

section \<open>Frame headers\<close>

text \<open>
  The bit fields of \<open>AntikernelJTAGFrameHeader\<close>, which the compiler lays out from the low bits of the two words. A field holds
  as many bits as it has when the header is put into words.
\<close>

record jtag_header =
  h_ack_seq :: u32
  h_credits :: u32
  h_sequence :: u32
  h_nak :: u32
  h_ack :: u32
  h_header_checksum :: u32
  h_length :: u32
  h_reserved_zero :: u32
  h_dma :: u32
  h_rpc :: u32
  h_payload_present :: u32

definition header_words :: "jtag_header \<Rightarrow> u32 \<times> u32" where
  "header_words h =
     ((h_ack_seq h AND 0x3ff) OR push_bit 10 (h_credits h AND 0x3ff) OR push_bit 20 (h_sequence h AND 0x3ff) OR
        push_bit 30 (h_nak h AND 1) OR push_bit 31 (h_ack h AND 1),
      (h_header_checksum h AND 0xff) OR push_bit 8 (h_length h AND 0x3ff) OR push_bit 18 (h_reserved_zero h AND 0x7ff) OR
        push_bit 29 (h_dma h AND 1) OR push_bit 30 (h_rpc h AND 1) OR push_bit 31 (h_payload_present h AND 1))"

definition header_of :: "u32 \<Rightarrow> u32 \<Rightarrow> jtag_header" where
  "header_of w0 w1 =
     \<lparr>h_ack_seq = w0 AND 0x3ff, h_credits = drop_bit 10 w0 AND 0x3ff, h_sequence = drop_bit 20 w0 AND 0x3ff,
      h_nak = drop_bit 30 w0 AND 1, h_ack = drop_bit 31 w0 AND 1,
      h_header_checksum = w1 AND 0xff, h_length = drop_bit 8 w1 AND 0x3ff, h_reserved_zero = drop_bit 18 w1 AND 0x7ff,
      h_dma = drop_bit 29 w1 AND 1, h_rpc = drop_bit 30 w1 AND 1, h_payload_present = drop_bit 31 w1 AND 1\<rparr>"

definition ComputeHeaderChecksum :: "jtag_header \<Rightarrow> jtag_header res" where
  "ComputeHeaderChecksum h =
     (let (w0, w1) = header_words h in andthen (CRC8 [w0, w1] 7) (\<lambda>crc. Inr (h\<lparr>h_header_checksum := ucast crc\<rparr>)))"

definition VerifyHeaderChecksum :: "u32 \<times> u32 \<Rightarrow> bool res" where
  "VerifyHeaderChecksum words =
     (let (w0, w1) = words in
      andthen (CRC8 [w0, w1] 7) (\<lambda>expected. Inr (expected = ucast (h_header_checksum (header_of w0 w1)))))"

definition NextSeq :: "u32 \<Rightarrow> u32" where
  "NextSeq seq = (if seq < 0x3ff then seq + 1 else 0)"

definition PrevSeq :: "u32 \<Rightarrow> u32" where
  "PrevSeq seq = (if seq > 0 then seq - 1 else 0x3ff)"

section \<open>The bridge\<close>

record bridge =
  m_freeAddresses :: "u16 set"
  m_nextSequence :: u32
  m_nextAck :: u32
  m_acking :: bool
  m_txBuffer :: "u32 list"
  m_rxBuffer :: "u32 list"
  m_rpcTxFifo :: "rpc_message list"
  m_rpcRxFifo :: "rpc_message list"

text \<open>
  The subnet of the debug addresses, \<open>DEBUG_LOW_ADDR\<close> to \<open>DEBUG_HIGH_ADDR\<close>, comes from a generated header and is a
  parameter. The constructor also puts the FPGA into the shift state.
\<close>

definition bridge_new :: "u16 \<Rightarrow> u16 \<Rightarrow> bridge" where
  "bridge_new low high =
     \<lparr>m_freeAddresses = {low..high}, m_nextSequence = 0, m_nextAck = 0, m_acking = False,
      m_txBuffer = [], m_rxBuffer = [], m_rpcTxFifo = [], m_rpcRxFifo = []\<rparr>"

definition AllocateClientAddress :: "bridge \<Rightarrow> u16 option \<times> bridge" where
  "AllocateClientAddress b =
     (if m_freeAddresses b = {} then (None, b)
      else let addr = Min (m_freeAddresses b) in (Some addr, b\<lparr>m_freeAddresses := m_freeAddresses b - {addr}\<rparr>))"

definition FreeClientAddress :: "u16 \<Rightarrow> u16 \<Rightarrow> u16 \<Rightarrow> bridge \<Rightarrow> bridge" where
  "FreeClientAddress low high addr b =
     (if addr < low \<or> addr > high then b
      else if addr \<in> m_freeAddresses b then b
      else b\<lparr>m_freeAddresses := insert addr (m_freeAddresses b)\<rparr>)"

definition BridgeSendRPCMessage :: "rpc_message \<Rightarrow> bridge \<Rightarrow> bridge" where
  "BridgeSendRPCMessage tx_msg b = b\<lparr>m_rpcTxFifo := m_rpcTxFifo b @ [tx_msg]\<rparr>"

definition BridgeRecvRPCMessage :: "bridge \<Rightarrow> rpc_message option \<times> bridge" where
  "BridgeRecvRPCMessage b =
     (case m_rpcRxFifo b of [] \<Rightarrow> (None, b) | rx_msg # ms \<Rightarrow> (Some rx_msg, b\<lparr>m_rpcRxFifo := ms\<rparr>))"

section \<open>The exchange with the FPGA\<close>

text \<open>
  The headers that \<open>Cycle\<close> sends. Their checksum field is not initialised in the code before it is computed, and \<open>CRC8\<close> over seven
  octets does not read it; it is 0 here.
\<close>

definition idle_header :: "bridge \<Rightarrow> jtag_header" where
  "idle_header b =
     \<lparr>h_ack_seq = m_nextAck b, h_credits = 0x3FF, h_sequence = m_nextSequence b, h_nak = 0, h_ack = of_bool (m_acking b),
      h_header_checksum = 0, h_length = 0, h_reserved_zero = 0, h_dma = 0, h_rpc = 0, h_payload_present = 0\<rparr>"

definition rpc_header :: "bridge \<Rightarrow> jtag_header" where
  "rpc_header b =
     \<lparr>h_ack_seq = m_nextAck b, h_credits = 0x3ff, h_sequence = m_nextSequence b, h_nak = 0, h_ack = of_bool (m_acking b),
      h_header_checksum = 0, h_length = 4, h_reserved_zero = 0, h_dma = 0, h_rpc = 1, h_payload_present = 1\<rparr>"

abbreviation (input) tx_buf_len :: nat where "tx_buf_len \<equiv> 32"

function send_rpcs :: "(u32 \<Rightarrow> u32) \<Rightarrow> bridge \<Rightarrow> bridge res" where
  "send_rpcs flip b =
     (if length (m_txBuffer b) < tx_buf_len - 7 then
        case m_rpcTxFifo b of [] \<Rightarrow> Inr b
        | txm # ms \<Rightarrow>
            andthen (ComputeHeaderChecksum (rpc_header b)) (\<lambda>rpc_frame.
            let (w0, w1) = header_words rpc_frame; payload = pack_words txm in
            andthen (CRC32 flip payload 16) (\<lambda>crc.
            send_rpcs flip (b\<lparr>m_rpcTxFifo := ms, m_nextSequence := NextSeq (m_nextSequence b),
              m_txBuffer := m_txBuffer b @ [w0, w1] @ payload @ [crc]\<rparr>)))
      else Inr b)"
  by pat_completeness auto
termination by (relation "measure (\<lambda>(flip, b). length (m_rpcTxFifo b))") auto

function pad_idle :: "bridge \<Rightarrow> bridge res" where
  "pad_idle b =
     (if length (m_txBuffer b) \<le> tx_buf_len - 2 then
        andthen (ComputeHeaderChecksum (idle_header b)) (\<lambda>idle_frame.
        let (w0, w1) = header_words idle_frame in
        pad_idle (b\<lparr>m_nextSequence := NextSeq (m_nextSequence b), m_txBuffer := m_txBuffer b @ [w0, w1]\<rparr>))
      else Inr b)"
  by pat_completeness auto
termination by (relation "measure (\<lambda>b. tx_buf_len - length (m_txBuffer b))") auto

text \<open>The loop over the received words. A bad header stops it with the header's two words gone, as in the code.\<close>

function rx_frames :: "(u32 \<Rightarrow> u32) \<Rightarrow> bridge \<Rightarrow> bridge res" where
  "rx_frames flip b =
     (case m_rxBuffer b of
        w0 # w1 # rest \<Rightarrow>
          andthen (VerifyHeaderChecksum (w0, w1)) (\<lambda>ok.
          if \<not> ok then Inr (b\<lparr>m_rxBuffer := rest\<rparr>) else
          let msg = header_of w0 w1; len = unat (h_length msg) in
          if h_payload_present msg \<noteq> 0 then
            if length rest \<le> len then Inr b else
            let payload = take len rest; message_crc = rest ! len; b = b\<lparr>m_rxBuffer := drop (Suc len) rest\<rparr> in
            andthen (CRC32 flip payload (len * 4)) (\<lambda>actual_crc.
            if message_crc \<noteq> actual_crc then rx_frames flip b else
            andthen (if h_rpc msg = 0 \<or> h_dma msg \<noteq> 0 \<or> h_length msg \<noteq> 4 then Inr b
              else andthen (unpack_words payload) (\<lambda>rxm. Inr (b\<lparr>m_rpcRxFifo := m_rpcRxFifo b @ [rxm]\<rparr>))) (\<lambda>b'.
            rx_frames flip (b\<lparr>m_rpcRxFifo := m_rpcRxFifo b', m_acking := True, m_nextAck := h_sequence msg\<rparr>)))
          else rx_frames flip (b\<lparr>m_rxBuffer := rest, m_acking := True, m_nextAck := h_sequence msg\<rparr>))
      | _ \<Rightarrow> Inr b)"
  by pat_completeness auto
termination by (relation "measure (\<lambda>(flip, b). length (m_rxBuffer b))") (auto split: list.splits)

declare send_rpcs.simps [simp del] pad_idle.simps [simp del] rx_frames.simps [simp del]

text \<open>\<open>shift\<close> is \<open>ShiftData\<close> of the JTAG library, which exchanges the buffer with a device in the state \<open>d\<close>.\<close>

definition Cycle :: "(u32 \<Rightarrow> u32) \<Rightarrow> (u32 list \<Rightarrow> 'd \<Rightarrow> u32 list \<times> 'd) \<Rightarrow> 'd \<Rightarrow> bridge \<Rightarrow> ('d \<times> bridge) res" where
  "Cycle flip shift d b =
     andthen (send_rpcs flip b) (\<lambda>b.
     andthen (pad_idle b) (\<lambda>b.
     let tx_buf = m_txBuffer b; b = b\<lparr>m_txBuffer := []\<rparr>; (rx_buf, d) = shift tx_buf d;
         b = b\<lparr>m_rxBuffer := m_rxBuffer b @ rx_buf\<rparr> in
     andthen (rx_frames flip b) (\<lambda>b. Inr (d, b))))"

section \<open>Frames on the wire\<close>

text \<open>What a frame is, apart from the loops that write and read it: a header in order, and a payload of the length the header says.\<close>

definition payload_crc :: "(u32 \<Rightarrow> u32) \<Rightarrow> u32 list \<Rightarrow> u32" where
  "payload_crc flip ws = NOT (flip (word_register ws 0xffffffff))"

definition wire :: "(u32 \<Rightarrow> u32) \<Rightarrow> jtag_header \<times> u32 list \<Rightarrow> u32 list" where
  "wire flip = (\<lambda>(h, payload). [fst (header_words h), snd (header_words h)] @
     (if h_payload_present h \<noteq> 0 then payload @ [payload_crc flip payload] else []))"

definition header_fits :: "jtag_header \<Rightarrow> bool" where
  "header_fits h \<longleftrightarrow> header_of (fst (header_words h)) (snd (header_words h)) = h"

definition frame_ok :: "jtag_header \<times> u32 list \<Rightarrow> bool" where
  "frame_ok = (\<lambda>(h, payload). header_fits h \<and> VerifyHeaderChecksum (header_words h) = Inr True \<and>
     length payload = (if h_payload_present h \<noteq> 0 then unat (h_length h) else 0))"

text \<open>The message a frame carries.\<close>

definition carried :: "jtag_header \<times> u32 list \<Rightarrow> rpc_message list" where
  "carried = (\<lambda>(h, payload).
     if h_payload_present h \<noteq> 0 \<and> h_rpc h \<noteq> 0 \<and> h_dma h = 0 \<and> h_length h = 4
     then (case unpack_words payload of Inr m \<Rightarrow> [m] | Inl _ \<Rightarrow> []) else [])"

lemma CRC32_payload: "CRC32 flip ws (length ws * 4) = Inr (payload_crc flip ws)"
  using CRC32_words [of flip ws] by (simp add: payload_crc_def mult.commute)

lemma Verify_syndrome: "VerifyHeaderChecksum (w0, w1) = Inr (syndrome8 (header_bits w0 w1) = 0)"
proof -
  have u: "(ucast (w1 AND 0xff) :: u8) = ucast w1" by (rule bit_word_eqI) (auto simp: and_mask_u32 bit_simps)
  have x: "(x XOR y = x) = (y = 0)" for x y :: u8
    using xor_eq_0 [of "x XOR y" x] xor_eq_0 [of x x] by (metis xor.assoc xor.commute xor.right_neutral xor_self_eq)
  show ?thesis by (simp add: VerifyHeaderChecksum_def CRC8_header header_of_def u x)
qed

text \<open>A field of a word, in its place.\<close>

lemma bit_placed: "bit (push_bit a (take_bit k x)) n \<longleftrightarrow> a \<le> n \<and> n < a + k \<and> n < 32 \<and> bit (x :: u32) (n - a)"
  by (auto simp: bit_simps)

lemma bit_field: "bit (push_bit a (take_bit k (drop_bit a x))) n \<longleftrightarrow> a \<le> n \<and> n < a + k \<and> bit (x :: u32) n"
  by (auto simp: bit_simps dest: bit_words)

lemma header_words_of: "header_words (header_of w0 w1) = (w0, w1)"
proof -
  have "take_bit 10 w0 OR push_bit 10 (take_bit 10 (drop_bit 10 w0)) OR push_bit 20 (take_bit 10 (drop_bit 20 w0)) OR
      push_bit 30 (take_bit 1 (drop_bit 30 w0)) OR push_bit 31 (take_bit 1 (drop_bit 31 w0)) = w0"
    by (rule bit_word_eqI) (simp only: bit_or_iff bit_field bit_take_bit_iff, auto)
  moreover have "take_bit 8 w1 OR push_bit 8 (take_bit 10 (drop_bit 8 w1)) OR push_bit 18 (take_bit 11 (drop_bit 18 w1)) OR
      push_bit 29 (take_bit 1 (drop_bit 29 w1)) OR push_bit 30 (take_bit 1 (drop_bit 30 w1)) OR push_bit 31 (take_bit 1 (drop_bit 31 w1)) = w1"
    by (rule bit_word_eqI) (simp only: bit_or_iff bit_field bit_take_bit_iff, auto)
  ultimately show ?thesis
    unfolding header_words_def header_of_def u32_masks and_mask_u32 jtag_header.simps take_bit_take_bit by simp
qed

lemma header_fits_iff: "header_fits h \<longleftrightarrow>
  take_bit 10 (h_ack_seq h) = h_ack_seq h \<and> take_bit 10 (h_credits h) = h_credits h \<and> take_bit 10 (h_sequence h) = h_sequence h \<and>
  take_bit 1 (h_nak h) = h_nak h \<and> take_bit 1 (h_ack h) = h_ack h \<and> take_bit 8 (h_header_checksum h) = h_header_checksum h \<and>
  take_bit 10 (h_length h) = h_length h \<and> take_bit 11 (h_reserved_zero h) = h_reserved_zero h \<and> take_bit 1 (h_dma h) = h_dma h \<and>
  take_bit 1 (h_rpc h) = h_rpc h \<and> take_bit 1 (h_payload_present h) = h_payload_present h"
proof -
  let ?w = "take_bit 10 (h_ack_seq h) OR push_bit 10 (take_bit 10 (h_credits h)) OR push_bit 20 (take_bit 10 (h_sequence h)) OR
      push_bit 30 (take_bit 1 (h_nak h)) OR push_bit 31 (take_bit 1 (h_ack h))"
  let ?v = "take_bit 8 (h_header_checksum h) OR push_bit 8 (take_bit 10 (h_length h)) OR push_bit 18 (take_bit 11 (h_reserved_zero h)) OR
      push_bit 29 (take_bit 1 (h_dma h)) OR push_bit 30 (take_bit 1 (h_rpc h)) OR push_bit 31 (take_bit 1 (h_payload_present h))"
  have w: "header_words h = (?w, ?v)" unfolding header_words_def u32_masks and_mask_u32 ..
  have f: "take_bit 10 ?w = take_bit 10 (h_ack_seq h)" "take_bit 10 (drop_bit 10 ?w) = take_bit 10 (h_credits h)"
    "take_bit 10 (drop_bit 20 ?w) = take_bit 10 (h_sequence h)" "take_bit 1 (drop_bit 30 ?w) = take_bit 1 (h_nak h)"
    "take_bit 1 (drop_bit 31 ?w) = take_bit 1 (h_ack h)"
    "take_bit 8 ?v = take_bit 8 (h_header_checksum h)" "take_bit 10 (drop_bit 8 ?v) = take_bit 10 (h_length h)"
    "take_bit 11 (drop_bit 18 ?v) = take_bit 11 (h_reserved_zero h)" "take_bit 1 (drop_bit 29 ?v) = take_bit 1 (h_dma h)"
    "take_bit 1 (drop_bit 30 ?v) = take_bit 1 (h_rpc h)" "take_bit 1 (drop_bit 31 ?v) = take_bit 1 (h_payload_present h)"
    by (rule bit_word_eqI; simp only: bit_take_bit_iff bit_drop_bit_eq bit_or_iff bit_placed comp_def; auto)+
  show ?thesis
    unfolding header_fits_def w fst_conv snd_conv header_of_def u32_masks and_mask_u32 f by (cases h) auto
qed

text \<open>A header with its checksum.\<close>

definition sealed :: "jtag_header \<Rightarrow> jtag_header" where
  "sealed h = h\<lparr>h_header_checksum :=
     ucast (ucast (snd (header_words h)) XOR syndrome8 (header_bits (fst (header_words h)) (snd (header_words h))))\<rparr>"

lemma Compute_sealed: "ComputeHeaderChecksum h = Inr (sealed h)"
  by (simp add: ComputeHeaderChecksum_def CRC8_header sealed_def split: prod.split)

lemma sealed_simps [simp]:
  "h_ack_seq (sealed h) = h_ack_seq h" "h_credits (sealed h) = h_credits h" "h_sequence (sealed h) = h_sequence h"
  "h_nak (sealed h) = h_nak h" "h_ack (sealed h) = h_ack h" "h_length (sealed h) = h_length h"
  "h_reserved_zero (sealed h) = h_reserved_zero h" "h_dma (sealed h) = h_dma h" "h_rpc (sealed h) = h_rpc h"
  "h_payload_present (sealed h) = h_payload_present h"
  by (simp_all add: sealed_def)

lemma Verify_sealed: "VerifyHeaderChecksum (header_words (sealed h)) = Inr True"
proof -
  obtain w0 w1 where w: "header_words h = (w0, w1)" by fastforce
  let ?c = "ucast w1 XOR syndrome8 (header_bits w0 w1) :: u8"
  let ?e = "ucast (ucast w1 XOR ?c) :: u32"
  have v: "header_words (sealed h) = (w0, w1 XOR ?e)"
  proof -
    have "fst (header_words (sealed h)) = fst (header_words h)" by (simp add: header_words_def)
    moreover have "snd (header_words (sealed h)) = w1 XOR ?e"
    proof -
      let ?r = "push_bit 8 (take_bit 10 (h_length h)) OR push_bit 18 (take_bit 11 (h_reserved_zero h)) OR
        push_bit 29 (take_bit 1 (h_dma h)) OR push_bit 30 (take_bit 1 (h_rpc h)) OR push_bit 31 (take_bit 1 (h_payload_present h))"
      have r: "\<not> bit ?r n" if "n < 8" for n using that by (simp only: bit_or_iff bit_placed) auto
      have w1: "w1 = take_bit 8 (h_header_checksum h) OR ?r"
        using w unfolding header_words_def u32_masks and_mask_u32 by simp
      have "take_bit 8 (ucast c :: u32) OR ?r = (take_bit 8 x OR ?r) XOR ucast (ucast (take_bit 8 x OR ?r) XOR c)" for c :: u8 and x
      proof (rule bit_word_eqI)
        fix n
        assume "n < LENGTH(32)"
        then show "bit (take_bit 8 (ucast c :: u32) OR ?r) n =
            bit ((take_bit 8 x OR ?r) XOR ucast (ucast (take_bit 8 x OR ?r) XOR c)) n"
          using r [of n] by (cases "n < 8") (auto simp: bit_or_iff bit_xor_iff bit_ucast_iff bit_take_bit_iff)
      qed
      note x = this [of ?c "h_header_checksum h", folded w1]
      have c: "h_header_checksum (sealed h) = ucast ?c" by (simp add: sealed_def w)
      show ?thesis
        unfolding header_words_def snd_conv u32_masks and_mask_u32 sealed_simps c by (rule x)
    qed
    ultimately show ?thesis using w by (simp add: prod_eq_iff)
  qed
  have "syndrome8 (header_bits 0 ?e) = ucast w1 XOR ?c"
  proof -
    have "header_bits 0 (ucast x) = push_bit (8 * 0) (ucast x)" for x :: u8
      by (rule bit_word_eqI) (auto simp: header_bits_def bit_simps dest: bit_words)
    then show ?thesis using syndrome8_octet [of 0 "ucast w1 XOR ?c"] by simp
  qed
  moreover have "header_bits w0 (w1 XOR ?e) = header_bits w0 w1 XOR header_bits 0 ?e"
    using header_bits_xor [of w0 0 w1 ?e] by simp
  moreover have "ucast w1 XOR ?c = syndrome8 (header_bits w0 w1)" by (simp flip: xor.assoc)
  ultimately show ?thesis unfolding v Verify_syndrome by (simp add: syndrome8_xor)
qed

lemma sealed_fits: "header_fits h \<Longrightarrow> header_fits (sealed h)"
proof -
  have "take_bit 8 (ucast c :: u32) = ucast c" for c :: u8
    by (rule bit_word_eqI) (auto simp: bit_simps dest: bit_words)
  then show "header_fits h \<Longrightarrow> header_fits (sealed h)" unfolding header_fits_iff sealed_simps by (simp add: sealed_def)
qed

text \<open>One, two or three wrong bits in a header, or wrong bits within eight neighbours, are found.\<close>

lemma header_errors_detected:
  "VerifyHeaderChecksum (w0, w1) = Inr True \<Longrightarrow> detectable (header_bits e0 e1) \<Longrightarrow>
    VerifyHeaderChecksum (w0 XOR e0, w1 XOR e1) = Inr False"
  using detectable_syndrome by (auto simp: Verify_syndrome header_bits_xor syndrome8_xor)

section \<open>What is sent\<close>

definition bridge_ok :: "bridge \<Rightarrow> bool" where
  "bridge_ok b \<longleftrightarrow> take_bit 10 (m_nextAck b) = m_nextAck b \<and> take_bit 10 (m_nextSequence b) = m_nextSequence b"

lemma fits10: "take_bit 10 (x :: u32) = x \<longleftrightarrow> unat x < 1024"
proof -
  have "take_bit 10 x = x \<longleftrightarrow> unat (take_bit 10 x) = unat x" by (simp add: word_unat_eq_iff)
  also have "unat (take_bit 10 x) = unat x mod 1024" by (simp only: unsigned_take_bit_eq) (simp add: take_bit_eq_mod)
  finally show ?thesis by (metis mod_less mod_less_divisor zero_less_numeral)
qed

lemma NextSeq_nat: "unat x < 1024 \<Longrightarrow> unat (NextSeq x) = (unat x + 1) mod 1024"
proof (cases "unat x = 1023")
  case False
  assume "unat x < 1024"
  with False have "unat x < 1023" by simp
  moreover from this have "unat (x + 1) = unat x + 1" using unat_add_of_nat [of x 1] by simp
  ultimately show ?thesis by (simp add: NextSeq_def word_less_nat_alt)
qed (simp add: NextSeq_def word_less_nat_alt)

lemma NextSeqs_nat: "unat x < 1024 \<Longrightarrow> unat ((NextSeq ^^ n) x) = (unat x + n) mod 1024"
proof (induction n)
  case (Suc n)
  have "unat ((NextSeq ^^ n) x) < 1024" using Suc by simp
  then show ?case using NextSeq_nat Suc by (simp add: mod_simps)
qed simp

fun rpc_frames :: "bridge \<Rightarrow> rpc_message list \<Rightarrow> (jtag_header \<times> u32 list) list" where
  "rpc_frames b [] = []"
| "rpc_frames b (m # ms) =
     (sealed (rpc_header b), pack_words m) # rpc_frames (b\<lparr>m_nextSequence := NextSeq (m_nextSequence b)\<rparr>) ms"

primrec idle_frames :: "bridge \<Rightarrow> nat \<Rightarrow> (jtag_header \<times> u32 list) list" where
  "idle_frames b 0 = []"
| "idle_frames b (Suc n) = (sealed (idle_header b), []) # idle_frames (b\<lparr>m_nextSequence := NextSeq (m_nextSequence b)\<rparr>) n"

lemma frames_cong:
  "m_nextAck b = m_nextAck b' \<Longrightarrow> m_acking b = m_acking b' \<Longrightarrow> m_nextSequence b = m_nextSequence b' \<Longrightarrow>
    rpc_frames b ms = rpc_frames b' ms \<and> idle_frames b n = idle_frames b' n"
proof -
  have "rpc_frames b ms = rpc_frames b' ms"
    if "m_nextAck b = m_nextAck b'" "m_acking b = m_acking b'" "m_nextSequence b = m_nextSequence b'" for b b'
    using that by (induction ms arbitrary: b b') (simp_all add: rpc_header_def)
  moreover have "idle_frames b n = idle_frames b' n"
    if "m_nextAck b = m_nextAck b'" "m_acking b = m_acking b'" "m_nextSequence b = m_nextSequence b'" for b b'
    using that by (induction n arbitrary: b b') (simp_all add: idle_header_def)
  ultimately show "m_nextAck b = m_nextAck b' \<Longrightarrow> m_acking b = m_acking b' \<Longrightarrow> m_nextSequence b = m_nextSequence b' \<Longrightarrow>
    rpc_frames b ms = rpc_frames b' ms \<and> idle_frames b n = idle_frames b' n" by blast
qed

lemma length_pack_words [simp]: "length (pack_words m) = 4"
  by (simp add: pack_words_def)

lemma CRC32_16: "CRC32 flip (pack_words m) 16 = Inr (payload_crc flip (pack_words m))"
  using CRC32_payload [of flip "pack_words m"] by simp

lemma send_rpcs_exact:
  "length (m_txBuffer b) = 28 - 7 * n \<Longrightarrow> n \<le> 4 \<Longrightarrow> ms = take n (m_rpcTxFifo b) \<Longrightarrow>
    send_rpcs flip b = Inr (b\<lparr>m_rpcTxFifo := drop n (m_rpcTxFifo b), m_nextSequence := (NextSeq ^^ length ms) (m_nextSequence b),
      m_txBuffer := m_txBuffer b @ concat (map (wire flip) (rpc_frames b ms))\<rparr>)"
proof (induction n arbitrary: b ms)
  case 0
  then show ?case by (subst send_rpcs.simps) simp
next
  case (Suc n)
  show ?case
  proof (cases "m_rpcTxFifo b")
    case Nil
    then show ?thesis using Suc.prems by (subst send_rpcs.simps) simp
  next
    case (Cons m fifo)
    let ?b = "b\<lparr>m_rpcTxFifo := fifo, m_nextSequence := NextSeq (m_nextSequence b),
      m_txBuffer := m_txBuffer b @ wire flip (sealed (rpc_header b), pack_words m)\<rparr>"
    have w: "wire flip (sealed (rpc_header b), pack_words m) = [fst (header_words (sealed (rpc_header b))),
        snd (header_words (sealed (rpc_header b)))] @ pack_words m @ [payload_crc flip (pack_words m)]"
      by (simp add: wire_def rpc_header_def)
    have "length (m_txBuffer b) < 25" using Suc.prems by simp
    then have "send_rpcs flip b = send_rpcs flip ?b"
      by (subst send_rpcs.simps) (simp add: Cons Compute_sealed CRC32_16 w Let_def split: prod.split)
    also have "\<dots> = Inr (?b\<lparr>m_rpcTxFifo := drop n fifo, m_nextSequence := (NextSeq ^^ length (take n fifo)) (NextSeq (m_nextSequence b)),
      m_txBuffer := m_txBuffer ?b @ concat (map (wire flip) (rpc_frames ?b (take n fifo)))\<rparr>)"
      using Suc.IH [of ?b "take n fifo"] Suc.prems by (simp add: w)
    also have "rpc_frames ?b (take n fifo) = rpc_frames (b\<lparr>m_nextSequence := NextSeq (m_nextSequence b)\<rparr>) (take n fifo)"
      using frames_cong [of ?b "b\<lparr>m_nextSequence := NextSeq (m_nextSequence b)\<rparr>" "take n fifo"] by simp
    finally show ?thesis using Suc.prems(3) by (simp add: Cons funpow_swap1)
  qed
qed

lemma pad_idle_exact:
  "length (m_txBuffer b) \<le> 32 \<Longrightarrow> \<exists>n. pad_idle b = Inr (b\<lparr>m_nextSequence := (NextSeq ^^ n) (m_nextSequence b),
      m_txBuffer := m_txBuffer b @ concat (map (wire flip) (idle_frames b n))\<rparr>) \<and>
    30 < length (m_txBuffer b) + 2 * n \<and> length (m_txBuffer b) + 2 * n \<le> 32"
proof (induction "32 - length (m_txBuffer b)" arbitrary: b rule: less_induct)
  case less
  show ?case
  proof (cases "length (m_txBuffer b) \<le> 30")
    case False
    then show ?thesis using less.prems by (subst pad_idle.simps) (auto intro!: exI [of _ 0])
  next
    case True
    have w: "wire flip (sealed (idle_header b), []) = [fst (header_words (sealed (idle_header b))), snd (header_words (sealed (idle_header b)))]"
      by (simp add: wire_def idle_header_def)
    let ?b = "b\<lparr>m_nextSequence := NextSeq (m_nextSequence b), m_txBuffer := m_txBuffer b @ wire flip (sealed (idle_header b), [])\<rparr>"
    have p: "pad_idle b = pad_idle ?b"
      using True by (subst pad_idle.simps) (simp add: Compute_sealed w split: prod.split)
    have "32 - length (m_txBuffer ?b) < 32 - length (m_txBuffer b)" "length (m_txBuffer ?b) \<le> 32" using True by (simp_all add: w)
    from less.hyps [OF this] obtain n where n: "pad_idle ?b = Inr (?b\<lparr>m_nextSequence := (NextSeq ^^ n) (m_nextSequence ?b),
        m_txBuffer := m_txBuffer ?b @ concat (map (wire flip) (idle_frames ?b n))\<rparr>)"
      "30 < length (m_txBuffer ?b) + 2 * n" "length (m_txBuffer ?b) + 2 * n \<le> 32"
      by blast
    have "idle_frames ?b n = idle_frames (b\<lparr>m_nextSequence := NextSeq (m_nextSequence b)\<rparr>) n"
      using frames_cong [of ?b "b\<lparr>m_nextSequence := NextSeq (m_nextSequence b)\<rparr>" _ n] by simp
    then show ?thesis using n unfolding p by (intro exI [of _ "Suc n"]) (simp add: funpow_swap1 w)
  qed
qed

lemma header_fits_sent: "bridge_ok b \<Longrightarrow> header_fits (rpc_header b)" "bridge_ok b \<Longrightarrow> header_fits (idle_header b)"
  by (simp_all add: bridge_ok_def header_fits_iff rpc_header_def idle_header_def)

lemma bridge_ok_next: "bridge_ok b \<Longrightarrow> bridge_ok (b\<lparr>m_nextSequence := NextSeq (m_nextSequence b)\<rparr>)"
  by (simp add: bridge_ok_def fits10 NextSeq_nat)

lemma rpc_frames_ok: "bridge_ok b \<Longrightarrow> f \<in> set (rpc_frames b ms) \<Longrightarrow> frame_ok f"
proof (induction ms arbitrary: b)
  case (Cons m ms)
  have "frame_ok (sealed (rpc_header b), pack_words m)"
    using header_fits_sent(1) [OF Cons.prems(1)]
    by (simp add: frame_ok_def Verify_sealed sealed_fits) (simp add: rpc_header_def)
  then show ?case using Cons bridge_ok_next by auto
qed simp

lemma idle_frames_ok: "bridge_ok b \<Longrightarrow> f \<in> set (idle_frames b n) \<Longrightarrow> frame_ok f"
proof (induction n arbitrary: b)
  case (Suc n)
  have "frame_ok (sealed (idle_header b), [])"
    using header_fits_sent(2) [OF Suc.prems(1)]
    by (simp add: frame_ok_def Verify_sealed sealed_fits) (simp add: idle_header_def)
  then show ?case using Suc bridge_ok_next by auto
qed simp

lemma carried_rpc: "(\<And>m. m \<in> set ms \<Longrightarrow> sendable m) \<Longrightarrow> concat (map carried (rpc_frames b ms)) = ms"
  by (induction ms arbitrary: b) (simp_all add: carried_def rpc_header_def unpack_pack_words)

lemma carried_idle: "concat (map carried (idle_frames b n)) = []"
  by (induction n arbitrary: b) (simp_all add: carried_def idle_header_def)

lemma length_rpc_frames: "length (concat (map (wire flip) (rpc_frames b ms))) = 7 * length ms"
  by (induction ms arbitrary: b) (simp_all add: wire_def rpc_header_def)

lemma length_idle_frames: "length (concat (map (wire flip) (idle_frames b n))) = 2 * n"
  by (induction n arbitrary: b) (simp_all add: wire_def idle_header_def)

lemma numbered_frames:
  "map (h_sequence \<circ> fst) (rpc_frames b ms) = map (\<lambda>i. (NextSeq ^^ i) (m_nextSequence b)) [0..<length ms]"
  "map (h_sequence \<circ> fst) (idle_frames b n) = map (\<lambda>i. (NextSeq ^^ i) (m_nextSequence b)) [0..<n]"
proof -
  have u: "map (\<lambda>i. (NextSeq ^^ i) x) [0..<Suc n] = x # map (\<lambda>i. (NextSeq ^^ i) (NextSeq x)) [0..<n]" for x n
  proof -
    have "[0..<Suc n] = 0 # map Suc [0..<n]" by (simp add: map_Suc_upt upt_conv_Cons del: upt_Suc)
    then show ?thesis by (simp add: funpow_swap1 del: upt_Suc)
  qed
  show "map (h_sequence \<circ> fst) (rpc_frames b ms) = map (\<lambda>i. (NextSeq ^^ i) (m_nextSequence b)) [0..<length ms]"
    by (induction ms arbitrary: b) (simp_all only: rpc_frames.simps list.map list.size u comp_def fst_conv sealed_simps
        add_0_right add_Suc_right upt_0, simp_all add: rpc_header_def)
  show "map (h_sequence \<circ> fst) (idle_frames b n) = map (\<lambda>i. (NextSeq ^^ i) (m_nextSequence b)) [0..<n]"
    by (induction n arbitrary: b) (simp_all only: idle_frames.simps list.map u comp_def fst_conv sealed_simps upt_0,
        simp_all add: idle_header_def)
qed

section \<open>What is received\<close>

definition accept :: "jtag_header \<times> u32 list \<Rightarrow> bridge \<Rightarrow> bridge" where
  "accept f b = b\<lparr>m_rpcRxFifo := m_rpcRxFifo b @ carried f, m_acking := True, m_nextAck := h_sequence (fst f)\<rparr>"

lemma rx_frame:
  assumes f: "frame_ok f" and b: "m_rxBuffer b = wire flip f @ rest"
  shows "rx_frames flip b = rx_frames flip (accept f (b\<lparr>m_rxBuffer := rest\<rparr>))"
proof -
  obtain h p where hp: "f = (h, p)" by fastforce
  obtain w0 w1 where w: "header_words h = (w0, w1)" by fastforce
  have h: "header_of w0 w1 = h" "VerifyHeaderChecksum (w0, w1) = Inr True"
    using f by (simp_all add: frame_ok_def header_fits_def hp w)
  show ?thesis
  proof (cases "h_payload_present h = 0")
    case True
    then show ?thesis using b by (subst rx_frames.simps) (simp add: wire_def hp w h accept_def carried_def Let_def)
  next
    case False
    let ?n = "unat (h_length h)"
    have n: "length p = ?n" using f False by (simp add: frame_ok_def hp)
    have r: "m_rxBuffer b = w0 # w1 # p @ payload_crc flip p # rest" using b False by (simp add: wire_def hp w)
    have c: "CRC32 flip p (?n * 4) = Inr (payload_crc flip p)" using CRC32_payload [of flip p] n by simp
    show ?thesis
    proof (cases "h_rpc h = 0 \<or> h_dma h \<noteq> 0 \<or> h_length h \<noteq> 4")
      case True
      then have "carried f = []" by (auto simp: carried_def hp)
      then show ?thesis
        using True by (subst rx_frames.simps) (simp add: r h False n [symmetric] c [unfolded n [symmetric]] Let_def accept_def hp)
    next
      case other: False
      then have "length p = 4" using n by simp
      then obtain x0 x1 x2 x3 where p: "p = [x0, x1, x2, x3]" by (auto simp: numeral_eq_Suc length_Suc_conv)
      have "CRC32 flip [x0, x1, x2, x3] 16 = Inr (payload_crc flip [x0, x1, x2, x3])"
        using CRC32_payload [of flip p] by (simp add: p)
      then show ?thesis
        using other by (subst rx_frames.simps)
          (simp add: r h False n [symmetric] Let_def accept_def hp carried_def p unpack_words_def)
    qed
  qed
qed

text \<open>A frame that has not come in completely stays in the buffer.\<close>

lemma rx_partial:
  assumes f: "frame_ok f" and p: "wire flip f = m_rxBuffer b @ x # xs"
  shows "rx_frames flip b = Inr b"
proof -
  obtain h p where hp: "f = (h, p)" by fastforce
  obtain w0 w1 where w: "header_words h = (w0, w1)" by fastforce
  have h: "header_of w0 w1 = h" "VerifyHeaderChecksum (w0, w1) = Inr True"
    using f by (simp_all add: frame_ok_def header_fits_def hp w)
  consider "m_rxBuffer b = []" | v where "m_rxBuffer b = [v]" | v0 v1 rest where "m_rxBuffer b = v0 # v1 # rest"
    by (metis list.exhaust)
  then show ?thesis
  proof cases
    case 3
    then have v: "v0 = w0" "v1 = w1" and "h_payload_present h \<noteq> 0" "p @ [payload_crc flip p] = rest @ x # xs"
      using p by (auto simp: wire_def hp w split: if_splits)
    moreover from this(4) have "length rest \<le> length p" by (metis length_append_singleton length_append le_add1 list.size(4) add_Suc_right nat_add_left_cancel_le Suc_le_mono)
    ultimately show ?thesis
      using f 3 h by (subst rx_frames.simps) (simp add: frame_ok_def hp Let_def)
  qed (subst rx_frames.simps, simp)+
qed

lemma rx_frames_exact:
  assumes "\<And>f. f \<in> set fs \<Longrightarrow> frame_ok f" and "m_rxBuffer b = concat (map (wire flip) fs) @ part"
    and "part = [] \<or> (\<exists>f x xs. frame_ok f \<and> wire flip f = part @ x # xs)"
  shows "rx_frames flip b = Inr (b\<lparr>m_rxBuffer := part, m_rpcRxFifo := m_rpcRxFifo b @ concat (map carried fs),
    m_acking := m_acking b \<or> fs \<noteq> [], m_nextAck := (if fs = [] then m_nextAck b else h_sequence (fst (last fs)))\<rparr>)"
  using assms(1,2)
proof (induction fs arbitrary: b)
  case Nil
  then have b: "m_rxBuffer b = part" by simp
  have "rx_frames flip b = Inr b"
  proof (cases "part = []")
    case True
    then show ?thesis using b by (subst rx_frames.simps) simp
  next
    case False
    then show ?thesis using assms(3) b rx_partial by blast
  qed
  then show ?case using b by (cases b) simp
next
  case (Cons f fs)
  let ?b = "accept f (b\<lparr>m_rxBuffer := concat (map (wire flip) fs) @ part\<rparr>)"
  have "rx_frames flip b = rx_frames flip ?b"
    by (rule rx_frame) (use Cons.prems in simp_all)
  also have "\<dots> = Inr (?b\<lparr>m_rxBuffer := part, m_rpcRxFifo := m_rpcRxFifo ?b @ concat (map carried fs),
    m_acking := m_acking ?b \<or> fs \<noteq> [], m_nextAck := (if fs = [] then m_nextAck ?b else h_sequence (fst (last fs)))\<rparr>)"
    by (rule Cons.IH) (use Cons.prems in \<open>simp_all add: accept_def\<close>)
  finally show ?case by (simp add: accept_def)
qed

text \<open>Received words in pieces: where the boundary of a piece falls in the sequence of frames.\<close>

lemma split_frames:
  "xs @ ys = concat (map (wire flip) fs) \<Longrightarrow> \<exists>fs1 fs2 part. fs = fs1 @ fs2 \<and> xs = concat (map (wire flip) fs1) @ part \<and>
    part @ ys = concat (map (wire flip) fs2) \<and> (part = [] \<or> (\<exists>f fs3 z zs. fs2 = f # fs3 \<and> wire flip f = part @ z # zs))"
proof (induction fs arbitrary: xs)
  case (Cons f fs)
  show ?case
  proof (cases "length xs < length (wire flip f)")
    case True
    then obtain us where us: "xs @ us = wire flip f"
      using Cons.prems by (auto simp: append_eq_append_conv2)
    moreover from us True obtain z zs where "us = z # zs" by (cases us) auto
    ultimately have "\<exists>z zs. wire flip f = xs @ z # zs" by metis
    then show ?thesis using Cons.prems by (intro exI [of _ "[]"] exI [of _ "f # fs"] exI [of _ xs]) auto
  next
    case False
    moreover have "take (length (wire flip f)) (xs @ ys) = wire flip f" unfolding Cons.prems by simp
    ultimately obtain us where us: "xs = wire flip f @ us"
      by (intro that [of "drop (length (wire flip f)) xs"]) (metis append_take_drop_id linorder_not_less take_append
          diff_is_0_eq take_0 append_Nil2)
    then have "us @ ys = concat (map (wire flip) fs)" using Cons.prems by simp
    from Cons.IH [OF this] obtain fs1 fs2 part where "fs = fs1 @ fs2" "us = concat (map (wire flip) fs1) @ part"
      "part @ ys = concat (map (wire flip) fs2)" "part = [] \<or> (\<exists>f fs3 z zs. fs2 = f # fs3 \<and> wire flip f = part @ z # zs)"
      by blast
    then show ?thesis using us by (intro exI [of _ "f # fs1"] exI [of _ fs2] exI [of _ part]) auto
  qed
qed simp

definition receive :: "(u32 \<Rightarrow> u32) \<Rightarrow> u32 list \<Rightarrow> bridge \<Rightarrow> bridge res" where
  "receive flip rx_buf b = rx_frames flip (b\<lparr>m_rxBuffer := m_rxBuffer b @ rx_buf\<rparr>)"

definition after_frames :: "(jtag_header \<times> u32 list) list \<Rightarrow> bridge \<Rightarrow> bridge" where
  "after_frames fs b = b\<lparr>m_rxBuffer := [], m_rpcRxFifo := m_rpcRxFifo b @ concat (map carried fs),
    m_acking := m_acking b \<or> fs \<noteq> [], m_nextAck := (if fs = [] then m_nextAck b else h_sequence (fst (last fs)))\<rparr>"

lemma after_frames_append: "after_frames (fs @ gs) b = after_frames gs (after_frames fs b)"
  by (simp add: after_frames_def)

lemma after_frames_rx: "after_frames fs (b\<lparr>m_rxBuffer := ws\<rparr>) = after_frames fs b"
  by (simp add: after_frames_def)

lemma receive_some:
  assumes "\<And>f. f \<in> set fs \<Longrightarrow> frame_ok f" and "(m_rxBuffer b @ rx) @ ys = concat (map (wire flip) fs)"
  shows "\<exists>fs1 fs2 part. fs = fs1 @ fs2 \<and> receive flip rx b = Inr ((after_frames fs1 b)\<lparr>m_rxBuffer := part\<rparr>) \<and>
    m_rxBuffer b @ rx = concat (map (wire flip) fs1) @ part \<and> part @ ys = concat (map (wire flip) fs2) \<and>
    (part = [] \<or> (\<exists>f fs3 z zs. fs2 = f # fs3 \<and> wire flip f = part @ z # zs))"
proof -
  from split_frames [OF assms(2)] obtain fs1 fs2 part where s: "fs = fs1 @ fs2" "m_rxBuffer b @ rx = concat (map (wire flip) fs1) @ part"
    "part @ ys = concat (map (wire flip) fs2)" "part = [] \<or> (\<exists>f fs3 z zs. fs2 = f # fs3 \<and> wire flip f = part @ z # zs)"
    by blast
  have "receive flip rx b = Inr ((after_frames fs1 b)\<lparr>m_rxBuffer := part\<rparr>)"
    unfolding receive_def
  proof (subst rx_frames_exact [of fs1 _ flip part])
    show "part = [] \<or> (\<exists>f x xs. frame_ok f \<and> wire flip f = part @ x # xs)"
      using s(4) assms(1) s(1) by auto
  qed (use s(1,2) assms(1) in \<open>simp_all add: after_frames_def\<close>)
  then show ?thesis using s by blast
qed

lemma proper_part:
  "part = concat (map (wire flip) fs) \<Longrightarrow> part = [] \<or> (\<exists>f fs3 z zs. fs = f # fs3 \<and> wire flip f = part @ z # zs) \<Longrightarrow> part = []"
proof (rule ccontr)
  assume p: "part = concat (map (wire flip) fs)" "part = [] \<or> (\<exists>f fs3 z zs. fs = f # fs3 \<and> wire flip f = part @ z # zs)" "part \<noteq> []"
  then obtain f fs3 z zs where "fs = f # fs3" "wire flip f = part @ z # zs" by blast
  then show False using arg_cong [OF p(1), of length] by simp
qed

lemma receive_pieces:
  assumes "\<And>f. f \<in> set fs \<Longrightarrow> frame_ok f" and "m_rxBuffer b @ concat pieces = concat (map (wire flip) fs)"
    and "pieces = [] \<Longrightarrow> m_rxBuffer b = []"
  shows "foreach pieces (receive flip) b = Inr (after_frames fs b)"
  using assms
proof (induction pieces arbitrary: b fs)
  case Nil
  then have "concat (map (wire flip) fs) = []" by simp
  then have "fs = []" by (cases fs) (auto simp: wire_def split: prod.splits)
  then show ?case using Nil by (cases b) (simp add: after_frames_def)
next
  case (Cons rx pieces)
  have "(m_rxBuffer b @ rx) @ concat pieces = concat (map (wire flip) fs)" using Cons.prems(2) by simp
  from receive_some [OF Cons.prems(1) this] obtain fs1 fs2 part where s: "fs = fs1 @ fs2"
    "receive flip rx b = Inr ((after_frames fs1 b)\<lparr>m_rxBuffer := part\<rparr>)" "part @ concat pieces = concat (map (wire flip) fs2)"
    "part = [] \<or> (\<exists>f fs3 z zs. fs2 = f # fs3 \<and> wire flip f = part @ z # zs)"
    by blast
  let ?b = "(after_frames fs1 b)\<lparr>m_rxBuffer := part\<rparr>"
  have "foreach pieces (receive flip) ?b = Inr (after_frames fs2 ?b)"
  proof (rule Cons.IH)
    show "m_rxBuffer ?b = []" if "pieces = []" using proper_part [OF _ s(4)] s(3) that by simp
  qed (use s(1,3) Cons.prems(1) in simp_all)
  then show ?case by (simp add: s(1,2) after_frames_append after_frames_rx)
qed

section \<open>Properties\<close>

text \<open>
  The two encodings of a message. A message comes back from its four words, and from its sixteen octets, exactly when its type has
  three bits and \<open>data[0]\<close> has 21; then the octets are those of the words, from the top. Any four words come back from the message
  they are read as.
\<close>
lemma message_encodings:
  "(unpack_words (pack_words m) = Inr m \<longleftrightarrow> sendable m) \<and> (unpack_bytes (pack_bytes m) = Inr m \<longleftrightarrow> sendable m) \<and>
   (sendable m \<longrightarrow> pack_bytes m = concat (map be_octets (pack_words m))) \<and>
   (unpack_words [a, b, c, d] = Inr r \<longrightarrow> pack_words r = [a, b, c, d])"
proof -
  have "unpack_bytes (pack_bytes m) = Inr m \<longleftrightarrow> sendable m"
    unfolding unpack_pack_bytes sendable_def by (cases m) auto
  then show ?thesis using unpack_pack_words unpack_words_sendable pack_bytes_words pack_unpack_words by blast
qed

lemma message_encodings_witness:
  "let m = \<lparr>rpc_from = 0xc000, rpc_to = 0x8000, rpc_callnum = 3, rpc_type = 1, rpc_data0 = 0x12345, rpc_data1 = 7, rpc_data2 = 8\<rparr> in
   unpack_words (pack_words m) = Inr m \<and> pack_bytes m = [0xc0, 0, 0x80, 0, 3, 0x21, 0x23, 0x45, 0, 0, 0, 7, 0, 0, 0, 8]"
  using message_encodings [of "\<lparr>rpc_from = 0xc000, rpc_to = 0x8000, rpc_callnum = 3, rpc_type = 1, rpc_data0 = 0x12345,
    rpc_data1 = 7, rpc_data2 = 8\<rparr>"]
  by (simp add: Let_def sendable_def pack_bytes_def)

end
