(* ===== verification/Bridge_Pool.thy ===== *)
theory Bridge_Pool
  imports Bridge
begin

text \<open>
  The pool of the debug addresses (\<open>AllocateClientAddress\<close> and \<open>FreeClientAddress\<close> of
  \<open>src/src/nocbridge/JTAGNOCBridgeInterface.cpp\<close>) as an interface: what any sequence of its operations hands out.
\<close>

datatype pool_op = Alloc | Release u16

text \<open>
  The contract, on the answers alone: an address handed out is one of the pool that is not held; none is handed out only when all are held.
\<close>

fun pool_answers :: "u16 set \<Rightarrow> u16 set \<Rightarrow> pool_op list \<Rightarrow> u16 option list \<Rightarrow> bool" where
  "pool_answers pool held [] rs = (rs = [])"
| "pool_answers pool held (Alloc # ops) (Some a # rs) = (a \<in> pool \<and> a \<notin> held \<and> pool_answers pool (insert a held) ops rs)"
| "pool_answers pool held (Alloc # ops) (None # rs) = (pool \<subseteq> held \<and> pool_answers pool held ops rs)"
| "pool_answers pool held (Release a # ops) (r # rs) = (r = None \<and> pool_answers pool (held - {a}) ops rs)"
| "pool_answers pool held (p # ops) [] = False"

fun pool_run :: "('s \<Rightarrow> u16 option \<times> 's) \<Rightarrow> (u16 \<Rightarrow> 's \<Rightarrow> 's) \<Rightarrow> pool_op list \<Rightarrow> 's \<Rightarrow> u16 option list \<times> 's" where
  "pool_run alloc release [] s = ([], s)"
| "pool_run alloc release (Alloc # ops) s =
     (let (r, s) = alloc s; (rs, s) = pool_run alloc release ops s in (r # rs, s))"
| "pool_run alloc release (Release a # ops) s =
     (let (rs, s) = pool_run alloc release ops (release a s) in (None # rs, s))"

locale address_pool =
  fixes alloc :: "'s \<Rightarrow> u16 option \<times> 's" and release :: "u16 \<Rightarrow> 's \<Rightarrow> 's" and avail :: "'s \<Rightarrow> u16 set" and pool :: "u16 set"
  assumes alloc_some: "alloc s = (Some a, s') \<Longrightarrow> a \<in> avail s \<and> avail s' = avail s - {a}"
    and alloc_none: "alloc s = (None, s') \<Longrightarrow> avail s = {} \<and> avail s' = {}"
    and release: "avail (release a s) = (if a \<in> pool then insert a (avail s) else avail s)"
begin

lemma answers: "avail s = pool - held \<Longrightarrow> pool_answers pool held ops (fst (pool_run alloc release ops s))"
proof (induction ops arbitrary: s held)
  case (Cons p ops)
  show ?case
  proof (cases p)
    case Alloc
    obtain r s' where a: "alloc s = (r, s')" by fastforce
    show ?thesis
    proof (cases r)
      case None
      with alloc_none a have "avail s = {}" "avail s' = {}" by blast+
      then show ?thesis using Cons Alloc None a by (auto simp: split_beta)
    next
      case (Some x)
      with alloc_some a have "x \<in> avail s" "avail s' = avail s - {x}" by blast+
      moreover from this have "avail s' = pool - insert x held" using Cons.prems by auto
      ultimately show ?thesis using Cons Alloc Some a by (auto simp: split_beta)
    qed
  next
    case (Release a)
    have "avail (release a s) = pool - (held - {a})" using Cons.prems by (auto simp: release)
    from Cons.IH [OF this] show ?thesis by (simp add: Release split_beta)
  qed
qed simp

lemma held_disjoint: "avail s = pool - held \<Longrightarrow> alloc s = (Some a, s') \<Longrightarrow> a \<notin> held \<and> a \<in> pool \<and> avail s' = pool - insert a held"
  using alloc_some by blast

end

interpretation debug: address_pool AllocateClientAddress "FreeClientAddress low high" m_freeAddresses "{low..high}" for low high
proof
  fix s s' a
  show "AllocateClientAddress s = (Some a, s') \<Longrightarrow> a \<in> m_freeAddresses s \<and> m_freeAddresses s' = m_freeAddresses s - {a}"
    by (auto simp: AllocateClientAddress_def Let_def split: if_splits intro!: Min_in)
  show "AllocateClientAddress s = (None, s') \<Longrightarrow> m_freeAddresses s = {} \<and> m_freeAddresses s' = {}"
    by (auto simp: AllocateClientAddress_def Let_def split: if_splits)
  show "m_freeAddresses (FreeClientAddress low high a s) = (if a \<in> {low..high} then insert a (m_freeAddresses s) else m_freeAddresses s)"
    by (auto simp: FreeClientAddress_def)
qed

text \<open>
  C11: the addresses of the clients. Over any sequence of requests, \<open>AllocateClientAddress\<close> hands out addresses of the debug subnet that nobody
  holds, and refuses only when all of them are held; an address that \<open>FreeClientAddress\<close> gets back can be handed out again, and one outside
  the subnet, or one that is not held, changes nothing.
\<close>
theorem client_addresses:
  "pool_answers {low..high} {} ops (fst (pool_run AllocateClientAddress (FreeClientAddress low high) ops (bridge_new low high)))"
  by (rule debug.answers) (simp add: bridge_new_def)

end
