(* ===== verification/Bridge_Link.thy ===== *)
theory Bridge_Link
  imports Bridge
begin

text \<open>
  What the two loops of \<open>Cycle\<close> (\<open>src/src/nocbridge/JTAGNOCBridgeInterface.cpp\<close>) achieve together: the frames one cycle sends, the messages
  a sequence of frames brings in, a link over any number of cycles, and what becomes of damaged frames.
\<close>

section \<open>A cycle of the link\<close>

lemma acking_frames:
  "f \<in> set (rpc_frames b ms) \<or> f \<in> set (idle_frames b n) \<Longrightarrow>
    h_ack (fst f) = of_bool (m_acking b) \<and> h_ack_seq (fst f) = m_nextAck b"
proof -
  have "f \<in> set (rpc_frames b ms) \<Longrightarrow> h_ack (fst f) = of_bool (m_acking b) \<and> h_ack_seq (fst f) = m_nextAck b"
    by (induction ms arbitrary: b) (auto simp: rpc_header_def)
  moreover have "f \<in> set (idle_frames b n) \<Longrightarrow> h_ack (fst f) = of_bool (m_acking b) \<and> h_ack_seq (fst f) = m_nextAck b"
    by (induction n arbitrary: b) (auto simp: idle_header_def)
  ultimately show "f \<in> set (rpc_frames b ms) \<or> f \<in> set (idle_frames b n) \<Longrightarrow>
    h_ack (fst f) = of_bool (m_acking b) \<and> h_ack_seq (fst f) = m_nextAck b" by blast
qed

lemma upt_split: "map f [0..<m + n] = map f [0..<m] @ map (\<lambda>i. f (m + i)) [0..<n]"
proof -
  have "[0..<m + n] = [0..<m] @ map (\<lambda>i. i + m) [0..<n]"
    unfolding map_add_upt using upt_add_eq_append [of 0 m n] by (simp add: add.commute)
  then show ?thesis by (simp add: add.commute)
qed

lemma cycle_frames:
  assumes "bridge_ok b" and "m_txBuffer b = []" and "\<And>m. m \<in> set (m_rpcTxFifo b) \<Longrightarrow> sendable m"
  shows "\<exists>fs. (\<forall>f \<in> set fs. frame_ok f) \<and> concat (map carried fs) = take 4 (m_rpcTxFifo b) \<and>
    length (concat (map (wire flip) fs)) \<in> {31, 32} \<and>
    map (h_sequence \<circ> fst) fs = map (\<lambda>i. (NextSeq ^^ i) (m_nextSequence b)) [0..<length fs] \<and>
    (\<forall>f \<in> set fs. h_ack (fst f) = of_bool (m_acking b) \<and> h_ack_seq (fst f) = m_nextAck b) \<and>
    Cycle flip shift d b =
      (let (rx, d') = shift (concat (map (wire flip) fs)) d in
       andthen (receive flip rx (b\<lparr>m_rpcTxFifo := drop 4 (m_rpcTxFifo b),
         m_nextSequence := (NextSeq ^^ length fs) (m_nextSequence b)\<rparr>)) (\<lambda>b'. Inr (d', b')))"
proof -
  let ?ms = "take 4 (m_rpcTxFifo b)"
  let ?rpc = "rpc_frames b ?ms"
  let ?b1 = "b\<lparr>m_rpcTxFifo := drop 4 (m_rpcTxFifo b), m_nextSequence := (NextSeq ^^ length ?ms) (m_nextSequence b),
      m_txBuffer := concat (map (wire flip) ?rpc)\<rparr>"
  have s: "send_rpcs flip b = Inr ?b1" using send_rpcs_exact [of b 4 ?ms flip] assms(2) by simp
  have "length (m_txBuffer ?b1) \<le> 32" by (simp add: length_rpc_frames)
  from pad_idle_exact [OF this, of flip] obtain n where n: "pad_idle ?b1 = Inr (?b1\<lparr>m_nextSequence := (NextSeq ^^ n) (m_nextSequence ?b1),
      m_txBuffer := m_txBuffer ?b1 @ concat (map (wire flip) (idle_frames ?b1 n))\<rparr>)"
    "30 < length (m_txBuffer ?b1) + 2 * n" "length (m_txBuffer ?b1) + 2 * n \<le> 32"
    by blast
  let ?fs = "?rpc @ idle_frames ?b1 n"
  have lr: "length ?rpc = length ?ms" using arg_cong [OF numbered_frames(1) [of b ?ms], of length] by simp
  have li: "length (idle_frames ?b1 n) = n" using arg_cong [OF numbered_frames(2) [of ?b1 n], of length] by simp
  have ok1: "bridge_ok ?b1" using assms(1) by (simp add: bridge_ok_def fits10 NextSeqs_nat)
  have "\<forall>f \<in> set ?fs. frame_ok f"
    using rpc_frames_ok [OF assms(1)] idle_frames_ok [OF ok1] by auto
  moreover have "concat (map carried ?fs) = ?ms"
    using carried_rpc [of ?ms b] assms(3) by (simp add: carried_idle) (meson in_set_takeD)
  moreover have "length (concat (map (wire flip) ?fs)) \<in> {31, 32}"
    using n(2,3) by (simp add: length_rpc_frames length_idle_frames) linarith
  moreover have "map (h_sequence \<circ> fst) ?fs = map (\<lambda>i. (NextSeq ^^ i) (m_nextSequence b)) [0..<length ?fs]"
    unfolding map_append numbered_frames length_append lr li upt_split by (simp add: funpow_add add.commute)
  moreover have "\<forall>f \<in> set ?fs. h_ack (fst f) = of_bool (m_acking b) \<and> h_ack_seq (fst f) = m_nextAck b"
    using acking_frames [of _ b ?ms 0] acking_frames [of _ ?b1 "[]" n] by auto
  moreover have "Cycle flip shift d b = (let (rx, d') = shift (concat (map (wire flip) ?fs)) d in
       andthen (receive flip rx (b\<lparr>m_rpcTxFifo := drop 4 (m_rpcTxFifo b),
         m_nextSequence := (NextSeq ^^ length ?fs) (m_nextSequence b)\<rparr>)) (\<lambda>b'. Inr (d', b')))"
  proof -
    let ?b2 = "b\<lparr>m_rpcTxFifo := drop 4 (m_rpcTxFifo b), m_nextSequence := (NextSeq ^^ length ?fs) (m_nextSequence b)\<rparr>"
    have p: "pad_idle ?b1 = Inr (?b2\<lparr>m_txBuffer := concat (map (wire flip) ?fs)\<rparr>)"
      unfolding n(1) length_append lr li by (simp add: funpow_add add.commute)
    have t2: "b\<lparr>m_rpcTxFifo := x, m_nextSequence := y, m_txBuffer := [], m_rxBuffer := z\<rparr> =
        b\<lparr>m_rpcTxFifo := x, m_nextSequence := y, m_rxBuffer := z\<rparr>" for x y z
      using assms(2) by (cases b) simp
    show ?thesis
      unfolding Cycle_def s andthen_simps p receive_def Let_def
      by (simp add: t2 split: prod.split)
  qed
  ultimately show ?thesis by blast
qed

text \<open>
  A device at the other end that exchanges words: it gives out the words \<open>out\<close> and keeps those it got. \<open>ShiftData\<close> returns as many
  words as it takes.
\<close>

definition exchange :: "u32 list \<Rightarrow> u32 list \<times> u32 list \<Rightarrow> u32 list \<times> (u32 list \<times> u32 list)" where
  "exchange tx = (\<lambda>(out, got). (take (length tx) out, (drop (length tx) out, got @ tx)))"

primrec run_cycles :: "(u32 \<Rightarrow> u32) \<Rightarrow> (u32 list \<Rightarrow> 'd \<Rightarrow> u32 list \<times> 'd) \<Rightarrow> nat \<Rightarrow> 'd \<Rightarrow> bridge \<Rightarrow> ('d \<times> bridge) res" where
  "run_cycles flip shift 0 d b = Inr (d, b)"
| "run_cycles flip shift (Suc n) d b = andthen (Cycle flip shift d b) (\<lambda>(d, b). run_cycles flip shift n d b)"

lemma bridge_ok_after:
  assumes "bridge_ok b" and "\<And>f. f \<in> set fs \<Longrightarrow> frame_ok f"
  shows "bridge_ok ((after_frames fs b)\<lparr>m_rxBuffer := ws\<rparr>)"
proof -
  have "take_bit 10 (h_sequence (fst (last fs))) = h_sequence (fst (last fs))" if "fs \<noteq> []"
    using assms(2) [OF last_in_set [OF that]] by (auto simp: frame_ok_def header_fits_iff split: prod.splits)
  then show ?thesis using assms(1) by (auto simp: bridge_ok_def after_frames_def)
qed

lemma run_cycles_exact:
  assumes "bridge_ok b" and "m_txBuffer b = []" and "\<And>m. m \<in> set (m_rpcTxFifo b) \<Longrightarrow> sendable m"
    and "\<And>g. g \<in> set gs \<Longrightarrow> frame_ok g" and "m_rxBuffer b @ out = concat (map (wire flip) gs)" and "32 * n \<le> length out"
    and "m_rxBuffer b = [] \<or> (\<exists>g gs3 z zs. gs = g # gs3 \<and> wire flip g = m_rxBuffer b @ z # zs)"
  shows "\<exists>fs gs1 gs2 part. (\<forall>f \<in> set fs. frame_ok f) \<and> concat (map carried fs) = take (4 * n) (m_rpcTxFifo b) \<and>
    map (h_sequence \<circ> fst) fs = map (\<lambda>i. (NextSeq ^^ i) (m_nextSequence b)) [0..<length fs] \<and>
    gs = gs1 @ gs2 \<and> run_cycles flip exchange n (out, got) b =
      Inr ((drop (length (concat (map (wire flip) fs))) out, got @ concat (map (wire flip) fs)),
        (after_frames gs1 b)\<lparr>m_rxBuffer := part, m_rpcTxFifo := drop (4 * n) (m_rpcTxFifo b),
          m_nextSequence := (NextSeq ^^ length fs) (m_nextSequence b)\<rparr>) \<and>
    part @ drop (length (concat (map (wire flip) fs))) out = concat (map (wire flip) gs2) \<and>
    31 * n \<le> length (concat (map (wire flip) fs)) \<and>
    (part = [] \<or> (\<exists>g gs3 z zs. gs2 = g # gs3 \<and> wire flip g = part @ z # zs))"
  using assms
proof (induction n arbitrary: b out got gs)
  case 0
  have "run_cycles flip exchange 0 (out, got) b = Inr ((out, got), (after_frames [] b)\<lparr>m_rxBuffer := m_rxBuffer b,
      m_rpcTxFifo := m_rpcTxFifo b, m_nextSequence := m_nextSequence b\<rparr>)"
    by (simp add: after_frames_def)
  then show ?case
    using "0.prems"(5,7) by (intro exI [of _ "[]"] exI [of _ gs] exI [of _ "m_rxBuffer b"]) simp
next
  case (Suc n)
  note cf = cycle_frames [OF Suc.prems(1-3), of flip exchange "(out, got)"]
  then obtain fs where fs: "\<forall>f \<in> set fs. frame_ok f" "concat (map carried fs) = take 4 (m_rpcTxFifo b)"
    "length (concat (map (wire flip) fs)) \<in> {31, 32}"
    "map (h_sequence \<circ> fst) fs = map (\<lambda>i. (NextSeq ^^ i) (m_nextSequence b)) [0..<length fs]"
    "Cycle flip exchange (out, got) b = (let (rx, d') = exchange (concat (map (wire flip) fs)) (out, got) in
       andthen (receive flip rx (b\<lparr>m_rpcTxFifo := drop 4 (m_rpcTxFifo b),
         m_nextSequence := (NextSeq ^^ length fs) (m_nextSequence b)\<rparr>)) (\<lambda>b'. Inr (d', b')))"
    by blast
  let ?w = "concat (map (wire flip) fs)"
  let ?b1 = "b\<lparr>m_rpcTxFifo := drop 4 (m_rpcTxFifo b), m_nextSequence := (NextSeq ^^ length fs) (m_nextSequence b)\<rparr>"
  have "(m_rxBuffer ?b1 @ take (length ?w) out) @ drop (length ?w) out = concat (map (wire flip) gs)"
    using Suc.prems(5) by (simp del: length_concat)
  from receive_some [OF Suc.prems(4) this] obtain gs1 gs2 part where r: "gs = gs1 @ gs2"
    "receive flip (take (length ?w) out) ?b1 = Inr ((after_frames gs1 ?b1)\<lparr>m_rxBuffer := part\<rparr>)"
    "part @ drop (length ?w) out = concat (map (wire flip) gs2)"
    "part = [] \<or> (\<exists>f fs3 z zs. gs2 = f # fs3 \<and> wire flip f = part @ z # zs)"
    by blast
  let ?b2 = "(after_frames gs1 ?b1)\<lparr>m_rxBuffer := part\<rparr>"
  have c: "Cycle flip exchange (out, got) b = Inr ((drop (length ?w) out, got @ ?w), ?b2)"
    unfolding fs(5) by (simp add: exchange_def r(2) del: length_concat)
  have "bridge_ok ?b1" using Suc.prems(1) by (simp add: bridge_ok_def fits10 NextSeqs_nat)
  then have ok: "bridge_ok ?b2" by (rule bridge_ok_after) (use Suc.prems(4) r(1) in simp)
  have b2: "m_txBuffer ?b2 = []" "m_rpcTxFifo ?b2 = drop 4 (m_rpcTxFifo b)" "m_rxBuffer ?b2 = part"
    "m_nextSequence ?b2 = (NextSeq ^^ length fs) (m_nextSequence b)"
    using Suc.prems(2) by (simp_all add: after_frames_def)
  have l: "32 * n \<le> length (drop (length ?w) out)" using fs(3) Suc.prems(6) by (auto simp del: length_concat)
  have s: "\<And>m. m \<in> set (m_rpcTxFifo ?b2) \<Longrightarrow> sendable m" unfolding b2(2) by (rule Suc.prems(3)) (rule in_set_dropD)
  have g: "\<And>g. g \<in> set gs2 \<Longrightarrow> frame_ok g" using Suc.prems(4) r(1) by simp
  have e: "m_rxBuffer ?b2 @ drop (length ?w) out = concat (map (wire flip) gs2)" unfolding b2(3) by (rule r(3))
  have p: "m_rxBuffer ?b2 = [] \<or> (\<exists>g gs3 z zs. gs2 = g # gs3 \<and> wire flip g = m_rxBuffer ?b2 @ z # zs)"
    unfolding b2(3) by (rule r(4))
  obtain fs' gs1' gs2' part' where IH: "\<forall>f \<in> set fs'. frame_ok f" "concat (map carried fs') = take (4 * n) (m_rpcTxFifo ?b2)"
    "map (h_sequence \<circ> fst) fs' = map (\<lambda>i. (NextSeq ^^ i) (m_nextSequence ?b2)) [0..<length fs']"
    "gs2 = gs1' @ gs2'" "run_cycles flip exchange n (drop (length ?w) out, got @ ?w) ?b2 =
      Inr ((drop (length (concat (map (wire flip) fs'))) (drop (length ?w) out), (got @ ?w) @ concat (map (wire flip) fs')),
        (after_frames gs1' ?b2)\<lparr>m_rxBuffer := part', m_rpcTxFifo := drop (4 * n) (m_rpcTxFifo ?b2),
          m_nextSequence := (NextSeq ^^ length fs') (m_nextSequence ?b2)\<rparr>)"
    "part' @ drop (length (concat (map (wire flip) fs'))) (drop (length ?w) out) = concat (map (wire flip) gs2')"
    "31 * n \<le> length (concat (map (wire flip) fs'))"
    "part' = [] \<or> (\<exists>g gs3 z zs. gs2' = g # gs3 \<and> wire flip g = part' @ z # zs)"
    using Suc.IH [OF ok b2(1) s g e l p, of "got @ ?w"] by blast
  have "concat (map carried (fs @ fs')) = take (4 * Suc n) (m_rpcTxFifo b)"
    unfolding map_append concat_append fs(2) IH(2) b2(2) by (simp add: take_add)
  moreover have "map (h_sequence \<circ> fst) (fs @ fs') = map (\<lambda>i. (NextSeq ^^ i) (m_nextSequence b)) [0..<length (fs @ fs')]"
    unfolding map_append fs(4) IH(3) length_append upt_split b2(4) by (simp add: funpow_add add.commute)
  moreover have "run_cycles flip exchange (Suc n) (out, got) b =
      Inr ((drop (length (concat (map (wire flip) (fs @ fs')))) out, got @ concat (map (wire flip) (fs @ fs'))),
        (after_frames (gs1 @ gs1') b)\<lparr>m_rxBuffer := part', m_rpcTxFifo := drop (4 * Suc n) (m_rpcTxFifo b),
          m_nextSequence := (NextSeq ^^ length (fs @ fs')) (m_nextSequence b)\<rparr>)"
    using IH(5) by (simp add: c b2 after_frames_def funpow_add add.commute del: length_concat)
  moreover have "part' @ drop (length (concat (map (wire flip) (fs @ fs')))) out = concat (map (wire flip) gs2')"
    using IH(6) by (simp add: add.commute del: length_concat)
  moreover have "31 * Suc n \<le> length (concat (map (wire flip) (fs @ fs')))"
    using IH(7) fs(3) by (auto simp del: length_concat)
  moreover have "\<forall>f \<in> set (fs @ fs'). frame_ok f" using fs(1) IH(1) by auto
  moreover have "gs = (gs1 @ gs1') @ gs2'" using r(1) IH(4) by simp
  ultimately show ?case using IH(8) by blast
qed

section \<open>Properties\<close>

text \<open>
  What one \<open>Cycle\<close> sends. The first four messages of the queue, in order, each in a frame of its own, then idle frames up to 31 or 32
  words: every frame is well formed, they are numbered consecutively modulo 1024, they all acknowledge the last frame taken, and
  what comes back is appended to the words received before.
\<close>
lemma cycle_sends:
  assumes "bridge_ok b" and "m_txBuffer b = []" and "\<And>m. m \<in> set (m_rpcTxFifo b) \<Longrightarrow> sendable m"
  shows "\<exists>fs. (\<forall>f \<in> set fs. frame_ok f) \<and> concat (map carried fs) = take 4 (m_rpcTxFifo b) \<and>
    length (concat (map (wire flip) fs)) \<in> {31, 32} \<and>
    map (\<lambda>f. unat (h_sequence (fst f))) fs = map (\<lambda>i. (unat (m_nextSequence b) + i) mod 1024) [0..<length fs] \<and>
    (\<forall>f \<in> set fs. h_ack (fst f) = of_bool (m_acking b) \<and> h_ack_seq (fst f) = m_nextAck b) \<and>
    Cycle flip shift d b =
      (let (rx, d') = shift (concat (map (wire flip) fs)) d in
       andthen (receive flip rx (b\<lparr>m_rpcTxFifo := drop 4 (m_rpcTxFifo b),
         m_nextSequence := (NextSeq ^^ length fs) (m_nextSequence b)\<rparr>)) (\<lambda>b'. Inr (d', b')))"
proof -
  have "unat (m_nextSequence b) < 1024" using assms(1) by (simp add: bridge_ok_def fits10)
  note q = NextSeqs_nat [OF this]
  from cycle_frames [OF assms, of flip shift d] obtain fs where fs:
    "\<forall>f \<in> set fs. frame_ok f" "concat (map carried fs) = take 4 (m_rpcTxFifo b)" "length (concat (map (wire flip) fs)) \<in> {31, 32}"
    "map (h_sequence \<circ> fst) fs = map (\<lambda>i. (NextSeq ^^ i) (m_nextSequence b)) [0..<length fs]"
    "\<forall>f \<in> set fs. h_ack (fst f) = of_bool (m_acking b) \<and> h_ack_seq (fst f) = m_nextAck b"
    "Cycle flip shift d b = (let (rx, d') = shift (concat (map (wire flip) fs)) d in
       andthen (receive flip rx (b\<lparr>m_rpcTxFifo := drop 4 (m_rpcTxFifo b),
         m_nextSequence := (NextSeq ^^ length fs) (m_nextSequence b)\<rparr>)) (\<lambda>b'. Inr (d', b')))"
    by blast
  have "map (\<lambda>f. unat (h_sequence (fst f))) fs = map (\<lambda>i. (unat (m_nextSequence b) + i) mod 1024) [0..<length fs]"
    using arg_cong [OF fs(4), of "map unat"] by (simp add: comp_def q)
  then show ?thesis using fs by blast
qed

lemma cycle_sends_witness:
  "let m = \<lparr>rpc_from = 0xc000, rpc_to = 0x8000, rpc_callnum = 1, rpc_type = 2, rpc_data0 = 3, rpc_data1 = 4, rpc_data2 = 5\<rparr>;
     b = (bridge_new 0xc000 0xffff)\<lparr>m_rpcTxFifo := [m]\<rparr> in
   \<exists>fs. concat (map carried fs) = [m] \<and> length (concat (map (wire id) fs)) \<in> {31, 32} \<and> (\<forall>f \<in> set fs. frame_ok f \<and> h_ack (fst f) = 0)"
proof -
  let ?m = "\<lparr>rpc_from = 0xc000, rpc_to = 0x8000, rpc_callnum = 1, rpc_type = 2, rpc_data0 = 3, rpc_data1 = 4, rpc_data2 = 5\<rparr>"
  let ?b = "(bridge_new 0xc000 0xffff)\<lparr>m_rpcTxFifo := [?m]\<rparr>"
  have b: "bridge_ok ?b" "m_txBuffer ?b = []" "\<And>m. m \<in> set (m_rpcTxFifo ?b) \<Longrightarrow> sendable m"
    by (simp_all add: bridge_ok_def bridge_new_def sendable_def)
  from cycle_sends [OF b, of id exchange "([], [])"] obtain fs where "\<forall>f \<in> set fs. frame_ok f" "concat (map carried fs) = take 4 [?m]"
    "length (concat (map (wire id) fs)) \<in> {31, 32}" "\<forall>f \<in> set fs. h_ack (fst f) = of_bool (m_acking ?b) \<and> h_ack_seq (fst f) = m_nextAck ?b"
    by auto
  then show ?thesis unfolding Let_def by (intro exI [of _ fs]) (simp add: bridge_new_def)
qed

text \<open>
  C4: a link with a device that sends well-formed frames of its own. In \<open>n\<close> cycles the device gets, in order, the first \<open>4 n\<close>
  messages of the queue, whatever it sends, and would queue exactly those if it ran the receiving loop; the host queues, in
  order, the messages of every frame that has come in completely, and only the beginning of the next frame is left in its buffer.
\<close>
theorem link_delivers:
  assumes "\<And>m. m \<in> set ms \<Longrightarrow> sendable m" and "\<And>g. g \<in> set gs \<Longrightarrow> frame_ok g"
    and "out = concat (map (wire flip) gs)" and "32 * n \<le> length out"
  shows "\<exists>got b gs1 gs2 peer. run_cycles flip exchange n (out, []) ((bridge_new low high)\<lparr>m_rpcTxFifo := ms\<rparr>) =
      Inr ((drop (length got) out, got), b) \<and>
    receive flip got (bridge_new low high) = Inr peer \<and> m_rpcRxFifo peer = take (4 * n) ms \<and> m_rxBuffer peer = [] \<and>
    m_rpcTxFifo b = drop (4 * n) ms \<and> gs = gs1 @ gs2 \<and> m_rpcRxFifo b = concat (map carried gs1) \<and>
    take (length got) out = concat (map (wire flip) gs1) @ m_rxBuffer b \<and> 31 * n \<le> length got \<and>
    (m_rxBuffer b = [] \<or> length (m_rxBuffer b) < length (wire flip (hd gs2)))"
proof -
  let ?b = "(bridge_new low high)\<lparr>m_rpcTxFifo := ms\<rparr>"
  have "bridge_ok ?b" "m_txBuffer ?b = []" "m_rxBuffer ?b @ out = concat (map (wire flip) gs)" "m_rpcTxFifo ?b = ms"
    "m_rxBuffer ?b = [] \<or> (\<exists>g gs3 z zs. gs = g # gs3 \<and> wire flip g = m_rxBuffer ?b @ z # zs)"
    using assms(3) by (simp_all add: bridge_ok_def bridge_new_def)
  from run_cycles_exact [OF this(1,2) _ assms(2) this(3) assms(4) this(5), of "[]"] assms(1) this(4)
  obtain fs gs1 gs2 part where r: "\<forall>f \<in> set fs. frame_ok f" "concat (map carried fs) = take (4 * n) (m_rpcTxFifo ?b)" "gs = gs1 @ gs2"
    "run_cycles flip exchange n (out, []) ?b = Inr ((drop (length (concat (map (wire flip) fs))) out, [] @ concat (map (wire flip) fs)),
      (after_frames gs1 ?b)\<lparr>m_rxBuffer := part, m_rpcTxFifo := drop (4 * n) (m_rpcTxFifo ?b),
        m_nextSequence := (NextSeq ^^ length fs) (m_nextSequence ?b)\<rparr>)"
    "part @ drop (length (concat (map (wire flip) fs))) out = concat (map (wire flip) gs2)" "31 * n \<le> length (concat (map (wire flip) fs))"
    "part = [] \<or> (\<exists>g gs3 z zs. gs2 = g # gs3 \<and> wire flip g = part @ z # zs)"
    by auto
  let ?got = "concat (map (wire flip) fs)"
  have "foreach [?got] (receive flip) (bridge_new low high) = Inr (after_frames fs (bridge_new low high))"
    by (rule receive_pieces) (use r(1) in \<open>simp_all add: bridge_new_def\<close>)
  then have p: "receive flip ?got (bridge_new low high) = Inr (after_frames fs (bridge_new low high))"
    by (simp add: andthen_def split: sum.splits)
  have "out = (concat (map (wire flip) gs1) @ part) @ drop (length ?got) out"
    using assms(3) r(3,5) by (metis append_assoc concat_append map_append)
  then have t: "take (length ?got) out = concat (map (wire flip) gs1) @ part" by (metis append_same_eq append_take_drop_id)
  let ?b' = "(after_frames gs1 ?b)\<lparr>m_rxBuffer := part, m_rpcTxFifo := drop (4 * n) (m_rpcTxFifo ?b),
        m_nextSequence := (NextSeq ^^ length fs) (m_nextSequence ?b)\<rparr>"
  have "m_rpcRxFifo (after_frames fs (bridge_new low high)) = take (4 * n) ms" "m_rxBuffer (after_frames fs (bridge_new low high)) = []"
    "m_rpcTxFifo ?b' = drop (4 * n) ms" "m_rpcRxFifo ?b' = concat (map carried gs1)" "m_rxBuffer ?b' = part"
    using r(2) by (simp_all add: after_frames_def bridge_new_def)
  moreover have "part = [] \<or> length part < length (wire flip (hd gs2))" using r(7) by auto
  ultimately show ?thesis
    using r(3,4,6) p t unfolding append_Nil
    by (intro exI [of _ ?got] exI [of _ ?b'] exI [of _ gs1] exI [of _ gs2] exI [of _ "after_frames fs (bridge_new low high)"]) metis
qed

theorem link_delivers_witness:
  "let b = bridge_new 0xc000 0xffff; m = \<lparr>rpc_from = 0xc000, rpc_to = 0x8000, rpc_callnum = 1, rpc_type = 2, rpc_data0 = 3, rpc_data1 = 4, rpc_data2 = 5\<rparr>;
     out = concat (map (wire id) (idle_frames b 16)) in
   \<exists>got b' peer. run_cycles id exchange 1 (out, []) (b\<lparr>m_rpcTxFifo := [m]\<rparr>) = Inr ((drop (length got) out, got), b') \<and>
     m_rpcTxFifo b' = [] \<and> receive id got b = Inr peer \<and> m_rpcRxFifo peer = [m]"
proof -
  let ?b = "bridge_new 0xc000 0xffff"
  let ?m = "\<lparr>rpc_from = 0xc000, rpc_to = 0x8000, rpc_callnum = 1, rpc_type = 2, rpc_data0 = 3, rpc_data1 = 4, rpc_data2 = 5\<rparr>"
  have "bridge_ok ?b" by (simp add: bridge_ok_def bridge_new_def)
  then have g: "\<And>g. g \<in> set (idle_frames ?b 16) \<Longrightarrow> frame_ok g" by (rule idle_frames_ok)
  have m: "\<And>m. m \<in> set [?m] \<Longrightarrow> sendable m" by (simp add: sendable_def)
  have l: "32 * 1 \<le> length (concat (map (wire id) (idle_frames ?b 16)))" by (simp only: length_idle_frames)
  from link_delivers [OF m g refl l, where low = "0xc000" and high = "0xffff"] obtain got b' peer where
    "run_cycles id exchange 1 (concat (map (wire id) (idle_frames ?b 16)), []) (?b\<lparr>m_rpcTxFifo := [?m]\<rparr>) =
      Inr ((drop (length got) (concat (map (wire id) (idle_frames ?b 16))), got), b')"
    "receive id got ?b = Inr peer" "m_rpcRxFifo peer = take (4 * 1) [?m]" "m_rpcTxFifo b' = drop (4 * 1) [?m]"
    by blast
  then show ?thesis unfolding Let_def by simp
qed

text \<open>
  C9: what becomes of a damaged frame that has come in completely. With one, two or three of the 64 header bits wrong, or wrong bits within
  eight neighbours, its header is dropped and the loop stops, with the rest of the words left to be read as frames by the next
  cycle. With wrong bits within 32 neighbours of the payload, the frame is dropped as a whole, its message is not queued, it is not
  acknowledged, and the loop goes on with the next frame.
\<close>
theorem damaged_frames:
  assumes "frame_ok (h, p)" and "header_words h = (w0, w1)" and "h_payload_present h \<noteq> 0"
  shows "(detectable (header_bits e0 e1) \<longrightarrow>
      receive flip ((w0 XOR e0) # (w1 XOR e1) # rest) (b\<lparr>m_rxBuffer := []\<rparr>) = Inr (b\<lparr>m_rxBuffer := rest\<rparr>)) \<and>
    (length es = length p \<and> burst32 es \<and> inj flip \<longrightarrow>
      receive flip (w0 # w1 # xor_words p es @ payload_crc flip p # rest) (b\<lparr>m_rxBuffer := []\<rparr>) = receive flip rest (b\<lparr>m_rxBuffer := []\<rparr>))"
proof -
  have v: "VerifyHeaderChecksum (w0, w1) = Inr True" and h: "header_of w0 w1 = h" and l: "length p = unat (h_length h)"
    using assms by (simp_all add: frame_ok_def header_fits_def)
  from header_errors_detected [OF v] have 1: "detectable (header_bits e0 e1) \<longrightarrow>
      receive flip ((w0 XOR e0) # (w1 XOR e1) # rest) (b\<lparr>m_rxBuffer := []\<rparr>) = Inr (b\<lparr>m_rxBuffer := rest\<rparr>)"
    unfolding receive_def by (subst rx_frames.simps) simp
  have 2: "receive flip (w0 # w1 # xor_words p es @ payload_crc flip p # rest) (b\<lparr>m_rxBuffer := []\<rparr>) =
      receive flip rest (b\<lparr>m_rxBuffer := []\<rparr>)"
    if "length es = length p" "burst32 es" "inj flip"
  proof -
    have x: "length (xor_words p es) = unat (h_length h)" using xor_words_length [OF that(1)] l assms(3) by simp
    have c: "CRC32 flip (xor_words p es) (unat (h_length h) * 4) = Inr (payload_crc flip (xor_words p es))"
      using CRC32_payload [of flip "xor_words p es"] x by simp
    have "payload_crc flip p \<noteq> payload_crc flip (xor_words p es)"
      using burst_register [OF that] by (simp add: payload_crc_def)
    then show ?thesis
      unfolding receive_def by (subst rx_frames.simps) (simp add: v h assms(3) Let_def x [symmetric] c [unfolded x [symmetric]])
  qed
  show ?thesis using 1 2 by blast
qed

theorem damaged_frames_witness:
  "let b = bridge_new 0xc000 0xffff; m = \<lparr>rpc_from = 0xc000, rpc_to = 0x8000, rpc_callnum = 1, rpc_type = 2, rpc_data0 = 3, rpc_data1 = 4, rpc_data2 = 5\<rparr>;
     (w0, w1) = header_words (sealed (rpc_header b)) in
   receive id (w0 # (w1 XOR 0xff) # [7, 8]) b = Inr (b\<lparr>m_rxBuffer := [7, 8]\<rparr>) \<and>
   receive id (w0 # w1 # xor_words (pack_words m) [0, 0x80000001, 0, 0] @ payload_crc id (pack_words m) # [7, 8]) b = receive id [7, 8] b"
proof -
  let ?b = "bridge_new 0xc000 0xffff"
  let ?m = "\<lparr>rpc_from = 0xc000, rpc_to = 0x8000, rpc_callnum = 1, rpc_type = 2, rpc_data0 = 3, rpc_data1 = 4, rpc_data2 = 5\<rparr>"
  obtain w0 w1 where w: "header_words (sealed (rpc_header ?b)) = (w0, w1)" by fastforce
  have "bridge_ok ?b" by (simp add: bridge_ok_def bridge_new_def)
  then have f: "frame_ok (sealed (rpc_header ?b), pack_words ?m)" using rpc_frames_ok [of ?b _ "[?m]"] by simp
  have pp: "h_payload_present (sealed (rpc_header ?b)) \<noteq> 0" by (simp add: rpc_header_def)
  have "header_bits 0 0xff = 0xff" by (simp add: header_bits_def)
  moreover have "bit (0xff :: 64 word) i \<Longrightarrow> i < 8" for i
  proof -
    have "(0xff :: 64 word) = mask 8" by (simp add: mask_numeral)
    then show "bit (0xff :: 64 word) i \<Longrightarrow> i < 8" by (simp add: bit_mask_iff)
  qed
  ultimately have d: "detectable (header_bits 0 0xff)" by (auto simp: detectable_def intro!: exI [of _ 0])
  have "burst32 [0, 0x80000001, 0, 0]"
    unfolding burst32_def by (intro conjI exI [of _ 32]) (auto simp: less_Suc_eq dest: bit_u32)
  moreover have "?b\<lparr>m_rxBuffer := []\<rparr> = ?b" by (simp add: bridge_new_def)
  ultimately show ?thesis
    using damaged_frames [OF f w pp, of 0 "0xff" id "[7, 8]" ?b "[0, 0x80000001, 0, 0]"] d by (simp add: w Let_def)
qed

end
