(* ===== verification/Switch.thy ===== *)
theory Switch
  imports Bridge_Pool Bridge_Link
begin

text \<open>
  The network switch of the debug bridge (\<open>src/src/nocswitch/\<close>): one thread per client connection, one thread for the JTAG link, and
  what they share. A step of the model is what a thread does between two points at which it can be held up: the receipt of data
  from its socket and the locks it takes. The locks of the bridge itself are held for single operations on its state.
\<close>

section \<open>Constants and the interface of the sockets\<close>

definition NOCSWITCH_OP_RPC :: u8 where "NOCSWITCH_OP_RPC = 0x00"
definition NOCSWITCH_OP_ALLOC_ADDR :: u8 where "NOCSWITCH_OP_ALLOC_ADDR = 0x01"
definition NOCSWITCH_OP_FREE_ADDR :: u8 where "NOCSWITCH_OP_FREE_ADDR = 0x02"
definition NOCSWITCH_OP_SENDDMA :: u8 where "NOCSWITCH_OP_SENDDMA = 0x03"
definition NOCSWITCH_OP_QUIT :: u8 where "NOCSWITCH_OP_QUIT = 0x04"
definition NOCSWITCH_OP_PING :: u8 where "NOCSWITCH_OP_PING = 0x05"

lemmas nocswitch_opcodes = NOCSWITCH_OP_RPC_def NOCSWITCH_OP_ALLOC_ADDR_def NOCSWITCH_OP_FREE_ADDR_def NOCSWITCH_OP_SENDDMA_def
  NOCSWITCH_OP_QUIT_def NOCSWITCH_OP_PING_def

text \<open>
  The socket library is a submodule: its operations are a parameter. A socket has a state of type \<open>'k\<close>, which stands for the connection and
  the client at its other end. \<open>RecvLooped\<close> returns the octets asked for, or nothing when the connection has ended.
\<close>

record 'k sockets =
  DisableNagle :: "'k \<Rightarrow> bool \<times> 'k"
  SendLooped :: "u8 list \<Rightarrow> 'k \<Rightarrow> bool \<times> 'k"
  RecvLooped :: "nat \<Rightarrow> 'k \<Rightarrow> u8 list option \<times> 'k"

definition sockets_ok :: "'k sockets \<Rightarrow> bool" where
  "sockets_ok socks \<longleftrightarrow> (\<forall>n k. \<forall>buf \<in> set_option (fst (RecvLooped socks n k)). length buf = n)"

section \<open>State\<close>

datatype thread = Jtag | Conn nat

text \<open>
  Where a thread is. A connection thread: about to set its socket up, about to receive an opcode, about to receive a message, about to lock its
  context for an address request or for a ping, about to register an address with its context locked, about to clean up, finished.
  The flag is the local variable \<open>quit\<close>. The JTAG thread: at its outer loop, at its inner loop, with a message that it is going to look up,
  with the context map locked and a context to send to, finished. \<open>Overrun\<close> and \<open>Fault\<close> are accesses outside of a buffer or to a destroyed context.
\<close>

datatype conn_pc = Starting | Receiving | Reading bool | Allocating bool | Registering u16 bool | Pinging bool | Closing | Closed | Overrun

datatype jtag_pc = Cycling | Dispatching | Looking rpc_message | Delivering rpc_message nat | Stopped | Fault

record 'k connection =
  m_socket :: 'k
  m_mutex :: "thread option"
  our_addresses :: "u16 set"
  c_pc :: conn_pc

text \<open>A context is named by its place in the list of connections; those of finished threads stay there.\<close>

record ('k, 'd) switch =
  iface :: bridge
  fpga :: 'd
  g_contextMap :: "u16 \<Rightarrow> nat option"
  g_contextMutex :: "thread option"
  connections :: "'k connection list"
  jtag :: jtag_pc
  g_quitting :: bool

definition switch_new :: "u16 \<Rightarrow> u16 \<Rightarrow> 'd \<Rightarrow> ('k, 'd) switch" where
  "switch_new low high d =
     \<lparr>iface = bridge_new low high, fpga = d, g_contextMap = Map.empty, g_contextMutex = None, connections = [], jtag = Cycling,
      g_quitting = False\<rparr>"

definition new_connection :: "'k \<Rightarrow> 'k connection" where
  "new_connection sock = \<lparr>m_socket = sock, m_mutex = None, our_addresses = {}, c_pc = Starting\<rparr>"

section \<open>The connection threads\<close>

definition IsInDebugSubnet :: "u16 \<Rightarrow> u16 \<Rightarrow> u16 \<Rightarrow> bool" where
  "IsInDebugSubnet low high addr \<longleftrightarrow> addr \<le> high \<and> addr \<ge> low"

definition set_ctx :: "nat \<Rightarrow> 'k connection \<Rightarrow> ('k, 'd) switch \<Rightarrow> ('k, 'd) switch" where
  "set_ctx c ctx s = s\<lparr>connections := (connections s)[c := ctx]\<rparr>"

text \<open>The end of an iteration of the loop: \<open>if(quit) break\<close>.\<close>

definition loop_end :: "bool \<Rightarrow> conn_pc" where
  "loop_end quit = (if quit then Closing else Receiving)"

definition conn_start :: "'k sockets \<Rightarrow> 'k connection \<Rightarrow> 'k connection" where
  "conn_start socks ctx =
     (let (ok, k) = DisableNagle socks (m_socket ctx) in ctx\<lparr>m_socket := k, c_pc := (if ok then Receiving else Closing)\<rparr>)"

definition conn_receive :: "'k sockets \<Rightarrow> bool \<Rightarrow> 'k connection \<Rightarrow> 'k connection" where
  "conn_receive socks quitting ctx =
     (case RecvLooped socks 1 (m_socket ctx) of
        (None, k) \<Rightarrow> ctx\<lparr>m_socket := k, c_pc := Closing\<rparr>
      | (Some buf, k) \<Rightarrow>
          let ctx = ctx\<lparr>m_socket := k\<rparr> in
          case aget buf 0 of
            Inl _ \<Rightarrow> ctx\<lparr>c_pc := Overrun\<rparr>
          | Inr opcode \<Rightarrow>
              if opcode = NOCSWITCH_OP_ALLOC_ADDR then ctx\<lparr>c_pc := Allocating quitting\<rparr>
              else if opcode = NOCSWITCH_OP_FREE_ADDR then ctx\<lparr>c_pc := loop_end quitting\<rparr>
              else if opcode = NOCSWITCH_OP_RPC then ctx\<lparr>c_pc := Reading quitting\<rparr>
              else if opcode = NOCSWITCH_OP_PING then ctx\<lparr>c_pc := Pinging quitting\<rparr>
              else if opcode = NOCSWITCH_OP_QUIT then ctx\<lparr>c_pc := loop_end True\<rparr>
              else ctx\<lparr>c_pc := Closing\<rparr>)"

text \<open>A message from the client, in \<open>ctx\<close> and with what is passed on to the bridge.\<close>

definition conn_read :: "u16 \<Rightarrow> u16 \<Rightarrow> 'k sockets \<Rightarrow> bool \<Rightarrow> 'k connection \<Rightarrow> bridge \<Rightarrow> 'k connection \<times> bridge" where
  "conn_read low high socks quit ctx b =
     (case RecvLooped socks 16 (m_socket ctx) of
        (None, k) \<Rightarrow> (ctx\<lparr>m_socket := k, c_pc := Closing\<rparr>, b)
      | (Some buf, k) \<Rightarrow>
          let ctx = ctx\<lparr>m_socket := k\<rparr> in
          case unpack_bytes buf of
            Inl _ \<Rightarrow> (ctx\<lparr>c_pc := Overrun\<rparr>, b)
          | Inr msg \<Rightarrow>
              if \<not> IsInDebugSubnet low high (rpc_from msg) then (ctx\<lparr>c_pc := Closing\<rparr>, b)
              else if IsInDebugSubnet low high (rpc_to msg) then (ctx\<lparr>c_pc := loop_end quit\<rparr>, b)
              else (ctx\<lparr>c_pc := loop_end quit\<rparr>, BridgeSendRPCMessage msg b))"

text \<open>
  An address request, from the lock of the context to the registration. The address is sent as it lies in memory, low octet first.
  When a send fails the exception unlocks the context, and an address already taken from the pool is not recorded.
\<close>

definition conn_allocate :: "'k sockets \<Rightarrow> nat \<Rightarrow> bool \<Rightarrow> 'k connection \<Rightarrow> bridge \<Rightarrow> 'k connection \<times> bridge" where
  "conn_allocate socks c quit ctx b =
     (case SendLooped socks [NOCSWITCH_OP_ALLOC_ADDR] (m_socket ctx) of
        (False, k) \<Rightarrow> (ctx\<lparr>m_socket := k, c_pc := Closing\<rparr>, b)
      | (True, k) \<Rightarrow>
          let (addr, b) = AllocateClientAddress b in
          case SendLooped socks [of_bool (addr \<noteq> None)] k of
            (False, k) \<Rightarrow> (ctx\<lparr>m_socket := k, c_pc := Closing\<rparr>, b)
          | (True, k) \<Rightarrow>
              case addr of
                None \<Rightarrow> (ctx\<lparr>m_socket := k, c_pc := loop_end quit\<rparr>, b)
              | Some addr \<Rightarrow>
                  case SendLooped socks [ucast addr, ucast (drop_bit 8 addr)] k of
                    (False, k) \<Rightarrow> (ctx\<lparr>m_socket := k, c_pc := Closing\<rparr>, b)
                  | (True, k) \<Rightarrow>
                      (ctx\<lparr>m_socket := k, our_addresses := insert addr (our_addresses ctx), m_mutex := Some (Conn c),
                        c_pc := Registering addr quit\<rparr>, b))"

definition conn_ping :: "'k sockets \<Rightarrow> bool \<Rightarrow> 'k connection \<Rightarrow> 'k connection" where
  "conn_ping socks quit ctx =
     (let (ok, k) = SendLooped socks [NOCSWITCH_OP_PING] (m_socket ctx) in
      ctx\<lparr>m_socket := k, c_pc := (if ok then loop_end quit else Closing)\<rparr>)"

text \<open>A step of the thread of the connection \<open>c\<close>; none when it waits for a lock or has finished.\<close>

definition ConnectionThread :: "u16 \<Rightarrow> u16 \<Rightarrow> 'k sockets \<Rightarrow> nat \<Rightarrow> ('k, 'd) switch \<Rightarrow> ('k, 'd) switch option" where
  "ConnectionThread low high socks c s =
     (if c \<ge> length (connections s) then None else
      let ctx = connections s ! c in
      case c_pc ctx of
        Starting \<Rightarrow> Some (set_ctx c (conn_start socks ctx) s)
      | Receiving \<Rightarrow> Some (set_ctx c (conn_receive socks (g_quitting s) ctx) s)
      | Reading quit \<Rightarrow>
          let (ctx, b) = conn_read low high socks quit ctx (iface s) in Some (set_ctx c ctx (s\<lparr>iface := b\<rparr>))
      | Allocating quit \<Rightarrow>
          if m_mutex ctx \<noteq> None then None
          else let (ctx, b) = conn_allocate socks c quit ctx (iface s) in Some (set_ctx c ctx (s\<lparr>iface := b\<rparr>))
      | Registering addr quit \<Rightarrow>
          if g_contextMutex s \<noteq> None then None
          else Some (set_ctx c (ctx\<lparr>m_mutex := None, c_pc := loop_end quit\<rparr>) (s\<lparr>g_contextMap := (g_contextMap s)(addr := Some c)\<rparr>))
      | Pinging quit \<Rightarrow> if m_mutex ctx \<noteq> None then None else Some (set_ctx c (conn_ping socks quit ctx) s)
      | Closing \<Rightarrow>
          if g_contextMutex s \<noteq> None then None
          else Some (set_ctx c (ctx\<lparr>c_pc := Closed\<rparr>)
            (s\<lparr>g_contextMap := (\<lambda>addr. if addr \<in> our_addresses ctx then None else g_contextMap s addr)\<rparr>))
      | Closed \<Rightarrow> None
      | Overrun \<Rightarrow> None)"

section \<open>The JTAG thread\<close>

definition deliver :: "'k sockets \<Rightarrow> rpc_message \<Rightarrow> 'k \<Rightarrow> 'k" where
  "deliver socks rxm k = snd (SendLooped socks (pack_bytes rxm) (snd (SendLooped socks [NOCSWITCH_OP_RPC] k)))"

text \<open>
  A step of the JTAG thread. A message that a client queues while \<open>Cycle\<close> is taking messages counts as queued before the cycle if it is taken,
  and after it otherwise. The message looked up is sent with both the map and the context locked.
\<close>

definition JtagThread :: "(u32 \<Rightarrow> u32) \<Rightarrow> (u32 list \<Rightarrow> 'd \<Rightarrow> u32 list \<times> 'd) \<Rightarrow> 'k sockets \<Rightarrow> ('k, 'd) switch \<Rightarrow> ('k, 'd) switch option" where
  "JtagThread flip shift socks s =
     (case jtag s of
        Cycling \<Rightarrow>
          if g_quitting s then Some (s\<lparr>jtag := Stopped\<rparr>)
          else (case Cycle flip shift (fpga s) (iface s) of
            Inl _ \<Rightarrow> Some (s\<lparr>jtag := Fault\<rparr>)
          | Inr (d, b) \<Rightarrow> Some (s\<lparr>fpga := d, iface := b, jtag := Dispatching\<rparr>))
      | Dispatching \<Rightarrow>
          (case BridgeRecvRPCMessage (iface s) of
            (None, b) \<Rightarrow> Some (s\<lparr>iface := b, jtag := Cycling\<rparr>)
          | (Some rxm, b) \<Rightarrow> Some (s\<lparr>iface := b, jtag := Looking rxm\<rparr>))
      | Looking rxm \<Rightarrow>
          if g_contextMutex s \<noteq> None then None
          else (case g_contextMap s (rpc_to rxm) of
            None \<Rightarrow> Some (s\<lparr>jtag := Dispatching\<rparr>)
          | Some c \<Rightarrow> Some (s\<lparr>g_contextMutex := Some Jtag, jtag := Delivering rxm c\<rparr>))
      | Delivering rxm c \<Rightarrow>
          if c \<ge> length (connections s) \<or> c_pc (connections s ! c) = Closed then Some (s\<lparr>jtag := Fault\<rparr>)
          else let ctx = connections s ! c in
            if m_mutex ctx \<noteq> None then None
            else Some (set_ctx c (ctx\<lparr>m_socket := deliver socks rxm (m_socket ctx)\<rparr>) (s\<lparr>g_contextMutex := None, jtag := Dispatching\<rparr>))
      | Stopped \<Rightarrow> None
      | Fault \<Rightarrow> None)"

section \<open>The program\<close>

text \<open>The main thread accepts connections; the signal handler sets \<open>g_quitting\<close>.\<close>

inductive switch_step :: "u16 \<Rightarrow> u16 \<Rightarrow> (u32 \<Rightarrow> u32) \<Rightarrow> (u32 list \<Rightarrow> 'd \<Rightarrow> u32 list \<times> 'd) \<Rightarrow> 'k sockets \<Rightarrow>
    ('k, 'd) switch \<Rightarrow> ('k, 'd) switch \<Rightarrow> bool"
  for low high flip shift socks where
  accept: "switch_step low high flip shift socks s (s\<lparr>connections := connections s @ [new_connection sock]\<rparr>)"
| interrupt: "switch_step low high flip shift socks s (s\<lparr>g_quitting := True\<rparr>)"
| connection: "ConnectionThread low high socks c s = Some t \<Longrightarrow> switch_step low high flip shift socks s t"
| jtag: "JtagThread flip shift socks s = Some t \<Longrightarrow> switch_step low high flip shift socks s t"

inductive_cases switch_step_cases: "switch_step low high flip shift socks s t"

abbreviation switch_steps where
  "switch_steps low high flip shift socks \<equiv> (switch_step low high flip shift socks)\<^sup>*\<^sup>*"

definition switch_reachable :: "u16 \<Rightarrow> u16 \<Rightarrow> (u32 \<Rightarrow> u32) \<Rightarrow> (u32 list \<Rightarrow> 'd \<Rightarrow> u32 list \<times> 'd) \<Rightarrow> 'k sockets \<Rightarrow> ('k, 'd) switch \<Rightarrow> bool" where
  "switch_reachable low high flip shift socks s \<longleftrightarrow> (\<exists>d. switch_steps low high flip shift socks (switch_new low high d) s)"

end
