(* ===== verification/Switch_Safe.thy ===== *)
theory Switch_Safe
  imports Switch
begin

text \<open>
  What holds in every reachable state of the switch, whatever the clients send, whatever the FPGA returns and however the threads interleave.
\<close>

section \<open>The bridge under any input\<close>

text \<open>What a cycle leaves alone, and what it keeps of the bridge's invariant. The words received can be anything.\<close>

definition rx_kept :: "bridge \<Rightarrow> bridge \<Rightarrow> bool" where
  "rx_kept b b' \<longleftrightarrow> m_freeAddresses b' = m_freeAddresses b \<and> m_rpcTxFifo b' = m_rpcTxFifo b \<and> m_txBuffer b' = m_txBuffer b \<and>
     (bridge_ok b \<longrightarrow> bridge_ok b')"

lemma rx_kept_trans: "rx_kept b b' \<Longrightarrow> rx_kept b' b'' \<Longrightarrow> rx_kept b b''"
  by (simp add: rx_kept_def)

lemma unpack_words_4: "length ws = 4 \<Longrightarrow> \<exists>m. unpack_words ws = Inr m"
proof -
  assume "length ws = 4"
  then obtain a b c d where "ws = [a, b, c, d]" by (auto simp: numeral_eq_Suc length_Suc_conv)
  then show ?thesis by (simp add: unpack_words_def)
qed

lemma rx_frames_safe: "\<exists>b'. rx_frames flip b = Inr b' \<and> rx_kept b b'"
proof (induction "length (m_rxBuffer b)" arbitrary: b rule: less_induct)
  case less
  consider "\<nexists>w0 w1 rest. m_rxBuffer b = w0 # w1 # rest" | w0 w1 rest where "m_rxBuffer b = w0 # w1 # rest" by blast
  then show ?case
  proof cases
    case 1
    then have "rx_frames flip b = Inr b" by (subst rx_frames.simps) (auto split: list.split)
    then show ?thesis by (simp add: rx_kept_def)
  next
    case 2
    let ?h = "header_of w0 w1"
    let ?len = "unat (h_length ?h)"
    have seq: "take_bit 10 (h_sequence ?h) = h_sequence ?h"
      by (simp add: header_of_def and_mask_u32 u32_masks)
    have onwards: "\<exists>b'. rx_frames flip c = Inr b' \<and> rx_kept b b'"
      if "length (m_rxBuffer c) < length (m_rxBuffer b)" "rx_kept b c" for c
      using less [OF that(1)] that(2) rx_kept_trans by blast
    show ?thesis
    proof (cases "syndrome8 (header_bits w0 w1) = 0")
      case False
      then have "rx_frames flip b = Inr (b\<lparr>m_rxBuffer := rest\<rparr>)" by (subst rx_frames.simps) (simp add: 2 Verify_syndrome)
      then show ?thesis by (simp add: rx_kept_def bridge_ok_def)
    next
      case ok: True
      show ?thesis
      proof (cases "h_payload_present ?h = 0")
        case True
        let ?c = "b\<lparr>m_rxBuffer := rest, m_acking := True, m_nextAck := h_sequence ?h\<rparr>"
        have "rx_frames flip b = rx_frames flip ?c"
          using ok True by (subst rx_frames.simps) (simp add: 2 Verify_syndrome Let_def)
        then show ?thesis using onwards [of ?c] seq by (simp add: rx_kept_def bridge_ok_def 2)
      next
        case payload: False
        show ?thesis
        proof (cases "length rest \<le> ?len")
          case True
          then have "rx_frames flip b = Inr b"
            using ok payload by (subst rx_frames.simps) (simp add: 2 Verify_syndrome Let_def)
          then show ?thesis by (simp add: rx_kept_def)
        next
          case False
          let ?p = "take ?len rest"
          have l: "length ?p = ?len" using False by simp
          have c: "CRC32 flip ?p (?len * 4) = Inr (payload_crc flip ?p)" using CRC32_payload [of flip ?p] l by simp
          have "\<exists>ms ack nack. rx_frames flip b = rx_frames flip (b\<lparr>m_rxBuffer := drop (Suc ?len) rest, m_rpcRxFifo := m_rpcRxFifo b @ ms,
              m_acking := ack, m_nextAck := nack\<rparr>) \<and> nack \<in> {m_nextAck b, h_sequence ?h}"
          proof (cases "rest ! ?len = payload_crc flip ?p")
            case bad: False
            then have "rx_frames flip b = rx_frames flip (b\<lparr>m_rxBuffer := drop (Suc ?len) rest\<rparr>)"
              using ok payload False c by (subst rx_frames.simps) (simp add: 2 Verify_syndrome Let_def)
            then show ?thesis
              by (intro exI [of _ "[]"] exI [of _ "m_acking b"] exI [of _ "m_nextAck b"]) simp
          next
            case good: True
            show ?thesis
            proof (cases "h_rpc ?h = 0 \<or> h_dma ?h \<noteq> 0 \<or> h_length ?h \<noteq> 4")
              case True
              then have "rx_frames flip b = rx_frames flip (b\<lparr>m_rxBuffer := drop (Suc ?len) rest, m_acking := True, m_nextAck := h_sequence ?h\<rparr>)"
                using ok payload False c good by (subst rx_frames.simps) (simp add: 2 Verify_syndrome Let_def)
              then show ?thesis
                by (intro exI [of _ "[]"] exI [of _ True] exI [of _ "h_sequence ?h"]) simp
            next
              case other: False
              then have "length ?p = 4" using l by simp
              then obtain m where m: "unpack_words ?p = Inr m" using unpack_words_4 by blast
              have "rx_frames flip b = rx_frames flip (b\<lparr>m_rxBuffer := drop (Suc ?len) rest, m_rpcRxFifo := m_rpcRxFifo b @ [m],
                  m_acking := True, m_nextAck := h_sequence ?h\<rparr>)"
                using ok payload False c good other m by (subst rx_frames.simps) (simp add: 2 Verify_syndrome Let_def)
              then show ?thesis by blast
            qed
          qed
          then obtain ms ack nack where r: "rx_frames flip b = rx_frames flip (b\<lparr>m_rxBuffer := drop (Suc ?len) rest,
              m_rpcRxFifo := m_rpcRxFifo b @ ms, m_acking := ack, m_nextAck := nack\<rparr>)" "nack \<in> {m_nextAck b, h_sequence ?h}"
            by blast
          then show ?thesis
            unfolding r(1) by (intro onwards) (use seq in \<open>auto simp: 2 rx_kept_def bridge_ok_def\<close>)
        qed
      qed
    qed
  qed
qed

lemma cycle_safe:
  assumes "bridge_ok b" and "m_txBuffer b = []" and "\<And>m. m \<in> set (m_rpcTxFifo b) \<Longrightarrow> sendable m"
  shows "\<exists>d' b'. Cycle flip shift d b = Inr (d', b') \<and> bridge_ok b' \<and> m_txBuffer b' = [] \<and> m_freeAddresses b' = m_freeAddresses b \<and>
    m_rpcTxFifo b' = drop 4 (m_rpcTxFifo b)"
proof -
  from cycle_frames [OF assms, of flip shift d] obtain fs where
    c: "Cycle flip shift d b = (let (rx, d') = shift (concat (map (wire flip) fs)) d in
       andthen (receive flip rx (b\<lparr>m_rpcTxFifo := drop 4 (m_rpcTxFifo b),
         m_nextSequence := (NextSeq ^^ length fs) (m_nextSequence b)\<rparr>)) (\<lambda>b'. Inr (d', b')))"
    by blast
  obtain rx d' where s: "shift (concat (map (wire flip) fs)) d = (rx, d')" by fastforce
  let ?b = "b\<lparr>m_rpcTxFifo := drop 4 (m_rpcTxFifo b), m_nextSequence := (NextSeq ^^ length fs) (m_nextSequence b)\<rparr>"
  from rx_frames_safe [of flip "?b\<lparr>m_rxBuffer := m_rxBuffer ?b @ rx\<rparr>"] obtain b' where
    r: "receive flip rx ?b = Inr b'" "rx_kept (?b\<lparr>m_rxBuffer := m_rxBuffer ?b @ rx\<rparr>) b'"
    unfolding receive_def by blast
  have "bridge_ok ?b" using assms(1) by (simp add: bridge_ok_def fits10 NextSeqs_nat)
  then have "bridge_ok (?b\<lparr>m_rxBuffer := m_rxBuffer ?b @ rx\<rparr>)" by (simp add: bridge_ok_def)
  then have "bridge_ok b'" using r(2) by (simp add: rx_kept_def)
  then show ?thesis using r assms(2) by (simp add: c s rx_kept_def)
qed

lemma unpack_bytes_sendable: "unpack_bytes buf = Inr m \<Longrightarrow> sendable m"
proof -
  have "take_bit 3 (drop_bit 5 (ucast x) :: u32) = drop_bit 5 (ucast x)"
    and "take_bit 21 (push_bit 16 (ucast (x AND 0x1F)) OR push_bit 8 (ucast y) OR ucast z :: u32) =
      push_bit 16 (ucast (x AND 0x1F)) OR push_bit 8 (ucast y) OR ucast z" for x y z :: u8
    by (rule bit_word_eqI; auto simp: u16_masks bit_simps dest: bit_words)+
  then show "unpack_bytes buf = Inr m \<Longrightarrow> sendable m"
    by (auto simp: unpack_bytes_def sendable_def u32_masks split: if_splits simp del: take_bit_or take_bit_push_bit)
qed

section \<open>The invariant\<close>

definition iface_ok :: "u16 \<Rightarrow> u16 \<Rightarrow> bridge \<Rightarrow> bool" where
  "iface_ok low high b \<longleftrightarrow> bridge_ok b \<and> m_txBuffer b = [] \<and> m_freeAddresses b \<subseteq> {low..high} \<and>
     (\<forall>m \<in> set (m_rpcTxFifo b). sendable m \<and> IsInDebugSubnet low high (rpc_from m) \<and> \<not> IsInDebugSubnet low high (rpc_to m))"

text \<open>
  A connection owns addresses that are not free. The map leads to it from those, except from one that it is about to register, and only
  while its thread has not cleaned up. Its context is locked by its own thread only when that is about to register an address.
\<close>

definition ctx_ok :: "u16 set \<Rightarrow> u16 set \<Rightarrow> (u16 \<Rightarrow> nat option) \<Rightarrow> nat \<Rightarrow> 'k connection \<Rightarrow> bool" where
  "ctx_ok pool free cmap c ctx \<longleftrightarrow> our_addresses ctx \<subseteq> pool - free \<and> c_pc ctx \<noteq> Overrun \<and>
     m_mutex ctx = (case c_pc ctx of Registering a q \<Rightarrow> Some (Conn c) | _ \<Rightarrow> None) \<and>
     (\<forall>a q. c_pc ctx = Registering a q \<longrightarrow> a \<in> our_addresses ctx) \<and>
     (\<forall>a. cmap a = Some c \<longrightarrow> a \<in> our_addresses ctx \<and> c_pc ctx \<noteq> Closed) \<and>
     (\<forall>a \<in> our_addresses ctx. c_pc ctx = Closed \<or> cmap a = Some c \<or> (\<exists>q. c_pc ctx = Registering a q))"

definition apart :: "'k connection list \<Rightarrow> bool" where
  "apart ctxs \<longleftrightarrow> (\<forall>c < length ctxs. \<forall>c' < length ctxs. c \<noteq> c' \<longrightarrow> our_addresses (ctxs ! c) \<inter> our_addresses (ctxs ! c') = {})"

definition switch_ok :: "u16 \<Rightarrow> u16 \<Rightarrow> ('k, 'd) switch \<Rightarrow> bool" where
  "switch_ok low high s \<longleftrightarrow> iface_ok low high (iface s) \<and>
     (\<forall>c < length (connections s). ctx_ok {low..high} (m_freeAddresses (iface s)) (g_contextMap s) c (connections s ! c)) \<and>
     (\<forall>a c. g_contextMap s a = Some c \<longrightarrow> c < length (connections s)) \<and>
     apart (connections s) \<and>
     g_contextMutex s = (case jtag s of Delivering rxm c \<Rightarrow> Some Jtag | _ \<Rightarrow> None) \<and>
     (\<forall>rxm c. jtag s = Delivering rxm c \<longrightarrow> g_contextMap s (rpc_to rxm) = Some c) \<and> jtag s \<noteq> Fault"

lemma map_owner:
  assumes "switch_ok low high s" and "c < length (connections s)" and "a \<in> our_addresses (connections s ! c)" and "g_contextMap s a = Some c'"
  shows "c' = c"
proof (rule ccontr)
  assume "c' \<noteq> c"
  have "c' < length (connections s)" using assms(1,4) by (auto simp: switch_ok_def)
  moreover from this have "a \<in> our_addresses (connections s ! c')" using assms(1,4) unfolding switch_ok_def ctx_ok_def by blast
  ultimately show False using assms(1-3) \<open>c' \<noteq> c\<close> unfolding switch_ok_def apart_def by blast
qed

lemma ctx_ok_mono:
  "ctx_ok pool free cmap c ctx \<Longrightarrow> free' \<subseteq> free \<Longrightarrow> (\<And>a. cmap' a = Some c \<longleftrightarrow> cmap a = Some c) \<Longrightarrow> ctx_ok pool free' cmap' c ctx"
  unfolding ctx_ok_def by blast

text \<open>A step of a connection thread changes its own context, the bridge, and the cmap where it leads to that context.\<close>

lemma switch_ok_set:
  assumes s: "switch_ok low high s" and c: "c < length (connections s)" and b: "iface_ok low high b"
    and ctx: "ctx_ok {low..high} (m_freeAddresses b) cmap c ctx"
    and free: "m_freeAddresses b \<subseteq> m_freeAddresses (iface s)"
    and own: "our_addresses ctx \<subseteq> our_addresses (connections s ! c) \<union> (m_freeAddresses (iface s) - m_freeAddresses b)"
    and cmap: "\<And>a c'. c' \<noteq> c \<Longrightarrow> cmap a = Some c' \<longleftrightarrow> g_contextMap s a = Some c'"
    and lock: "cmap \<noteq> g_contextMap s \<Longrightarrow> g_contextMutex s = None"
  shows "switch_ok low high (set_ctx c ctx (s\<lparr>iface := b, g_contextMap := cmap\<rparr>))"
proof -
  have old: "ctx_ok {low..high} (m_freeAddresses (iface s)) (g_contextMap s) c' (connections s ! c')" if "c' < length (connections s)" for c'
    using s that by (simp add: switch_ok_def)
  have new: "ctx_ok {low..high} (m_freeAddresses b) cmap c' ((connections s)[c := ctx] ! c')" if "c' < length (connections s)" for c'
  proof (cases "c' = c")
    case True
    then show ?thesis using ctx that by simp
  next
    case False
    then show ?thesis using ctx_ok_mono [OF old [OF that] free, of cmap] cmap by simp
  qed
  have disjoint: "our_addresses ctx \<inter> our_addresses (connections s ! c') = {}" if "c' < length (connections s)" "c' \<noteq> c" for c'
  proof -
    have "our_addresses (connections s ! c) \<inter> our_addresses (connections s ! c') = {}" using s c that unfolding switch_ok_def apart_def by blast
    moreover have "our_addresses (connections s ! c') \<inter> m_freeAddresses (iface s) = {}" using old [OF that(1)] unfolding ctx_ok_def by blast
    ultimately show ?thesis using own by blast
  qed
  have pairs: "our_addresses ((connections s)[c := ctx] ! i) \<inter> our_addresses ((connections s)[c := ctx] ! j) = {}"
    if "i < length (connections s)" "j < length (connections s)" "i \<noteq> j" for i j
  proof -
    have "our_addresses (connections s ! i) \<inter> our_addresses (connections s ! j) = {}" using s that unfolding switch_ok_def apart_def by blast
    then show ?thesis
      using that disjoint [of i] disjoint [of j] by (cases "i = c"; cases "j = c") (simp_all add: Int_commute)
  qed
  have range: "c' < length (connections s)" if "cmap a = Some c'" for a c'
    using s cmap [of c' a] that c by (cases "c' = c") (auto simp: switch_ok_def)
  have to: "cmap (rpc_to rxm) = Some c'" if "jtag s = Delivering rxm c'" for rxm c'
  proof -
    have "g_contextMutex s = Some Jtag" "g_contextMap s (rpc_to rxm) = Some c'" using s that by (simp_all add: switch_ok_def)
    then show ?thesis using lock by auto
  qed
  show ?thesis
    unfolding switch_ok_def set_ctx_def using s b new pairs range to by (simp add: switch_ok_def apart_def)
qed

section \<open>Every step keeps it\<close>

lemma iface_ok_alloc:
  assumes "iface_ok low high b" and "AllocateClientAddress b = (r, b')"
  shows "iface_ok low high b'" "m_freeAddresses b' \<subseteq> m_freeAddresses b"
    "r = Some a \<Longrightarrow> a \<in> m_freeAddresses b \<and> m_freeAddresses b' = m_freeAddresses b - {a}"
proof -
  show "iface_ok low high b'" "m_freeAddresses b' \<subseteq> m_freeAddresses b"
    using assms by (auto simp: iface_ok_def bridge_ok_def AllocateClientAddress_def Let_def split: if_splits)
  show "r = Some a \<Longrightarrow> a \<in> m_freeAddresses b \<and> m_freeAddresses b' = m_freeAddresses b - {a}"
    using debug.alloc_some assms(2) by blast
qed

lemma iface_ok_send:
  "iface_ok low high b \<Longrightarrow> sendable m \<Longrightarrow> IsInDebugSubnet low high (rpc_from m) \<Longrightarrow> \<not> IsInDebugSubnet low high (rpc_to m) \<Longrightarrow>
    iface_ok low high (BridgeSendRPCMessage m b)"
  by (auto simp: iface_ok_def bridge_ok_def BridgeSendRPCMessage_def)

text \<open>A context whose addresses stay, and which is not about to register one before or after, stays as good.\<close>

definition quiet :: "conn_pc \<Rightarrow> bool" where
  "quiet pc \<longleftrightarrow> (case pc of Registering a q \<Rightarrow> False | Closed \<Rightarrow> False | Overrun \<Rightarrow> False | _ \<Rightarrow> True)"

lemma quiet_simps [simp]:
  "quiet Starting" "quiet Receiving" "quiet (Reading q)" "quiet (Allocating q)" "quiet (Pinging q)" "quiet Closing" "quiet (loop_end q)"
  "\<not> quiet (Registering a q)" "\<not> quiet Closed" "\<not> quiet Overrun"
  by (simp_all add: quiet_def loop_end_def)

lemma quiet_cases: "quiet pc \<Longrightarrow> pc \<noteq> Registering a q \<and> pc \<noteq> Closed \<and> pc \<noteq> Overrun"
  by (auto simp: quiet_def)

lemma ctx_ok_quiet:
  assumes "ctx_ok pool free cmap c ctx" and "quiet (c_pc ctx)" and "quiet (c_pc ctx')" and "our_addresses ctx' = our_addresses ctx"
    and "m_mutex ctx' = m_mutex ctx"
  shows "ctx_ok pool free cmap c ctx'"
proof -
  have "(case c_pc ctx of Registering a q \<Rightarrow> Some (Conn c) | _ \<Rightarrow> None) = None" "(case c_pc ctx' of Registering a q \<Rightarrow> Some (Conn c) | _ \<Rightarrow> None) = None"
    using assms(2,3) by (auto simp: quiet_def split: conn_pc.splits)
  then show ?thesis
    using assms quiet_cases [OF assms(2)] quiet_cases [OF assms(3)] unfolding ctx_ok_def by auto
qed

lemma conn_start_quiet: "quiet (c_pc (conn_start socks ctx))" "our_addresses (conn_start socks ctx) = our_addresses ctx"
  "m_mutex (conn_start socks ctx) = m_mutex ctx"
  by (simp_all add: conn_start_def split: prod.split)

lemma conn_ping_quiet: "quiet (c_pc (conn_ping socks q ctx))" "our_addresses (conn_ping socks q ctx) = our_addresses ctx"
  "m_mutex (conn_ping socks q ctx) = m_mutex ctx"
  by (simp_all add: conn_ping_def split: prod.split)

lemma received: "sockets_ok socks \<Longrightarrow> RecvLooped socks n k = (Some buf, k') \<Longrightarrow> length buf = n"
  unfolding sockets_ok_def by (metis fst_conv option.set_intros)

lemma conn_receive_quiet:
  assumes "sockets_ok socks"
  shows "quiet (c_pc (conn_receive socks q ctx))" "our_addresses (conn_receive socks q ctx) = our_addresses ctx"
    "m_mutex (conn_receive socks q ctx) = m_mutex ctx"
proof -
  obtain r k where r: "RecvLooped socks 1 (m_socket ctx) = (r, k)" by fastforce
  show "quiet (c_pc (conn_receive socks q ctx))" "our_addresses (conn_receive socks q ctx) = our_addresses ctx"
    "m_mutex (conn_receive socks q ctx) = m_mutex ctx"
    using received [OF assms, of 1 "m_socket ctx" _ k] r
    by (auto simp: conn_receive_def Let_def aget_def split: option.splits sum.splits)
qed

lemma conn_read_ok:
  assumes "sockets_ok socks" and "iface_ok low high b" and "conn_read low high socks q ctx b = (ctx', b')"
  shows "quiet (c_pc ctx')" "our_addresses ctx' = our_addresses ctx" "m_mutex ctx' = m_mutex ctx" "iface_ok low high b'"
    "m_freeAddresses b' = m_freeAddresses b"
proof -
  obtain r k where r: "RecvLooped socks 16 (m_socket ctx) = (r, k)" by fastforce
  have u: "\<exists>m. unpack_bytes buf = Inr m" if "r = Some buf" for buf
    using received [OF assms(1), of 16 "m_socket ctx" buf k] r that by (simp add: unpack_bytes_def)
  show "quiet (c_pc ctx')" "our_addresses ctx' = our_addresses ctx" "m_mutex ctx' = m_mutex ctx" "iface_ok low high b'"
    "m_freeAddresses b' = m_freeAddresses b"
    using assms(2,3) u iface_ok_send [OF assms(2) unpack_bytes_sendable] r
    by (auto simp: conn_read_def Let_def BridgeSendRPCMessage_def split: option.splits sum.splits if_splits)
qed

lemma conn_allocate_cases:
  assumes "conn_allocate socks c q ctx b = (ctx', b')"
  obtains (same) "b' = b" "quiet (c_pc ctx')" "our_addresses ctx' = our_addresses ctx" "m_mutex ctx' = m_mutex ctx"
    | (tried) r where "AllocateClientAddress b = (r, b')" "quiet (c_pc ctx')" "our_addresses ctx' = our_addresses ctx" "m_mutex ctx' = m_mutex ctx"
    | (given) a where "AllocateClientAddress b = (Some a, b')" "c_pc ctx' = Registering a q"
        "our_addresses ctx' = insert a (our_addresses ctx)" "m_mutex ctx' = Some (Conn c)"
proof -
  obtain r b2 where a: "AllocateClientAddress b = (r, b2)" by fastforce
  show thesis
    using assms that a
    by (auto simp: conn_allocate_def Let_def split: prod.splits bool.splits option.splits)
qed

lemma ConnectionThread_ok:
  assumes s: "switch_ok low high s" and socks: "sockets_ok socks" and t: "ConnectionThread low high socks c s = Some t"
  shows "switch_ok low high t"
proof -
  let ?ctx = "connections s ! c"
  let ?free = "m_freeAddresses (iface s)"
  have c: "c < length (connections s)" using t by (auto simp: ConnectionThread_def split: if_splits)
  have b: "iface_ok low high (iface s)" using s by (simp add: switch_ok_def)
  have ctx: "ctx_ok {low..high} ?free (g_contextMap s) c ?ctx" using s c by (simp add: switch_ok_def)
  have s': "s\<lparr>iface := b\<rparr> = s\<lparr>iface := b, g_contextMap := g_contextMap s\<rparr>" "s\<lparr>g_contextMap := m\<rparr> = s\<lparr>iface := iface s, g_contextMap := m\<rparr>"
    "s = s\<lparr>iface := iface s, g_contextMap := g_contextMap s\<rparr>" for b m
    by (cases s; simp)+
  have quietly: "switch_ok low high (set_ctx c ctx' (s\<lparr>iface := b', g_contextMap := g_contextMap s\<rparr>))"
    if "quiet (c_pc ?ctx)" "quiet (c_pc ctx')" "our_addresses ctx' = our_addresses ?ctx" "m_mutex ctx' = m_mutex ?ctx"
      "iface_ok low high b'" "m_freeAddresses b' \<subseteq> ?free" for ctx' b'
  proof (rule switch_ok_set [OF s c that(5) _ that(6)])
    show "ctx_ok {low..high} (m_freeAddresses b') (g_contextMap s) c ctx'"
      using ctx_ok_mono [OF ctx_ok_quiet [OF ctx that(1-4)] that(6)] by simp
  qed (use that(3) in auto)
  show ?thesis
  proof (cases "c_pc ?ctx")
    case Starting
    then show ?thesis
      using t c quietly [of "conn_start socks ?ctx" "iface s"] conn_start_quiet [of socks ?ctx] b
      by (simp add: ConnectionThread_def Let_def flip: s')
  next
    case Receiving
    then show ?thesis
      using t c quietly [of "conn_receive socks (g_quitting s) ?ctx" "iface s"] conn_receive_quiet [OF socks] b
      by (simp add: ConnectionThread_def Let_def flip: s')
  next
    case (Reading q)
    obtain ctx' b' where r: "conn_read low high socks q ?ctx (iface s) = (ctx', b')" by fastforce
    show ?thesis
      using t c Reading r quietly [of ctx' b'] conn_read_ok [OF socks b r]
      by (simp add: ConnectionThread_def Let_def flip: s')
  next
    case (Pinging q)
    then show ?thesis
      using t c quietly [of "conn_ping socks q ?ctx" "iface s"] conn_ping_quiet [of socks q ?ctx] b
      by (simp add: ConnectionThread_def Let_def flip: s' split: if_splits)
  next
    case (Allocating q)
    obtain ctx' b' where r: "conn_allocate socks c q ?ctx (iface s) = (ctx', b')" by fastforce
    have t': "t = set_ctx c ctx' (s\<lparr>iface := b', g_contextMap := g_contextMap s\<rparr>)"
      using t c Allocating r by (simp add: ConnectionThread_def Let_def flip: s' split: if_splits)
    from r show ?thesis
    proof (cases rule: conn_allocate_cases)
      case same
      then show ?thesis unfolding t' using quietly [of ctx' b'] b Allocating by simp
    next
      case (tried r)
      then show ?thesis unfolding t' using quietly [of ctx' b'] iface_ok_alloc [OF b tried(1)] Allocating by simp
    next
      case (given a)
      note f = iface_ok_alloc [OF b given(1)]
      have a: "a \<in> ?free" "m_freeAddresses b' = ?free - {a}" using f(3) by blast+
      moreover have "?free \<subseteq> {low..high}" using b by (simp add: iface_ok_def)
      ultimately have "ctx_ok {low..high} (m_freeAddresses b') (g_contextMap s) c ctx'"
        using ctx given(2-4) Allocating unfolding ctx_ok_def by auto
      then show ?thesis
        unfolding t' by (rule switch_ok_set [OF s c f(1) _ f(2)]) (use a given(3) in auto)
    qed
  next
    case (Registering a q)
    let ?ctx' = "?ctx\<lparr>m_mutex := None, c_pc := loop_end q\<rparr>"
    let ?map = "(g_contextMap s)(a := Some c)"
    have t': "t = set_ctx c ?ctx' (s\<lparr>iface := iface s, g_contextMap := ?map\<rparr>)" and lock: "g_contextMutex s = None"
      using t c Registering by (simp_all add: ConnectionThread_def Let_def flip: s' split: if_splits)
    have a: "a \<in> our_addresses ?ctx" using ctx Registering by (simp add: ctx_ok_def)
    have "g_contextMap s a \<noteq> Some c'" if "c' \<noteq> c" for c' using map_owner [OF s c a] that by blast
    moreover have "ctx_ok {low..high} ?free ?map c ?ctx'"
      using ctx a Registering by (auto simp: ctx_ok_def loop_end_def)
    ultimately show ?thesis
      unfolding t' by (intro switch_ok_set [OF s c b]) (auto simp: lock)
  next
    case Closing
    let ?ctx' = "?ctx\<lparr>c_pc := Closed\<rparr>"
    let ?map = "\<lambda>a. if a \<in> our_addresses ?ctx then None else g_contextMap s a"
    have t': "t = set_ctx c ?ctx' (s\<lparr>iface := iface s, g_contextMap := ?map\<rparr>)" and lock: "g_contextMutex s = None"
      using t c Closing by (simp_all add: ConnectionThread_def Let_def flip: s' split: if_splits)
    have "g_contextMap s a \<noteq> Some c'" if "c' \<noteq> c" "a \<in> our_addresses ?ctx" for c' a
      using map_owner [OF s c that(2)] that(1) by blast
    moreover have "ctx_ok {low..high} ?free ?map c ?ctx'"
      using ctx Closing by (auto simp: ctx_ok_def)
    ultimately show ?thesis
      unfolding t' by (intro switch_ok_set [OF s c b]) (auto simp: lock)
  qed (use t c in \<open>simp_all add: ConnectionThread_def Let_def\<close>)
qed

lemma switch_ok_iface:
  "switch_ok low high s \<Longrightarrow> iface_ok low high b \<Longrightarrow> m_freeAddresses b = m_freeAddresses (iface s) \<Longrightarrow> switch_ok low high (s\<lparr>iface := b\<rparr>)"
  by (simp add: switch_ok_def)

lemma switch_ok_socket:
  assumes "switch_ok low high s"
  shows "switch_ok low high (set_ctx c ((connections s ! c)\<lparr>m_socket := k\<rparr>) s)"
proof -
  have n: "f ((connections s)[c := (connections s ! c)\<lparr>m_socket := k\<rparr>] ! i) = f (connections s ! i)"
    if "\<And>x. f (x\<lparr>m_socket := k\<rparr>) = f x" "i < length (connections s)" for f i
    using that by (cases "i = c") simp_all
  have "ctx_ok pool free cmap c' ((connections s)[c := (connections s ! c)\<lparr>m_socket := k\<rparr>] ! i) = ctx_ok pool free cmap c' (connections s ! i)"
    if "i < length (connections s)" for pool free cmap c' i
    by (rule n [of "ctx_ok pool free cmap c'", OF _ that]) (simp add: ctx_ok_def)
  moreover have "our_addresses ((connections s)[c := (connections s ! c)\<lparr>m_socket := k\<rparr>] ! i) = our_addresses (connections s ! i)"
    if "i < length (connections s)" for i
    by (rule n [OF _ that]) simp
  ultimately show ?thesis using assms by (simp add: switch_ok_def set_ctx_def apart_def)
qed

lemma JtagThread_ok:
  assumes s: "switch_ok low high s" and t: "JtagThread flip shift socks s = Some t"
  shows "switch_ok low high t"
proof -
  have b: "iface_ok low high (iface s)" and g: "g_contextMutex s = (case jtag s of Delivering rxm c \<Rightarrow> Some Jtag | _ \<Rightarrow> None)"
    using s by (simp_all add: switch_ok_def)
  show ?thesis
  proof (cases "jtag s")
    case Cycling
    from b have "\<exists>d' b'. Cycle flip shift (fpga s) (iface s) = Inr (d', b') \<and> bridge_ok b' \<and> m_txBuffer b' = [] \<and>
        m_freeAddresses b' = m_freeAddresses (iface s) \<and> m_rpcTxFifo b' = drop 4 (m_rpcTxFifo (iface s))"
      by (intro cycle_safe) (simp_all add: iface_ok_def)
    then obtain d' b' where c: "Cycle flip shift (fpga s) (iface s) = Inr (d', b')" "bridge_ok b'" "m_txBuffer b' = []"
      "m_freeAddresses b' = m_freeAddresses (iface s)" "m_rpcTxFifo b' = drop 4 (m_rpcTxFifo (iface s))"
      by blast
    then have "iface_ok low high b'"
      using b set_drop_subset [of 4 "m_rpcTxFifo (iface s)"] unfolding iface_ok_def by fastforce
    note c = c(1,4) this
    then show ?thesis
      using t s Cycling by (auto simp: JtagThread_def switch_ok_def split: if_splits)
  next
    case Dispatching
    then show ?thesis
      using t s b by (auto simp: JtagThread_def switch_ok_def iface_ok_def bridge_ok_def BridgeRecvRPCMessage_def split: list.splits)
  next
    case (Looking rxm)
    then show ?thesis
      using t s by (auto simp: JtagThread_def switch_ok_def split: if_splits option.splits)
  next
    case (Delivering rxm c)
    then have m: "g_contextMap s (rpc_to rxm) = Some c" using s by (simp add: switch_ok_def)
    then have c: "c < length (connections s)" using s by (auto simp: switch_ok_def)
    then have "c_pc (connections s ! c) \<noteq> Closed" using s m unfolding switch_ok_def ctx_ok_def by blast
    then have t': "t = set_ctx c ((connections s ! c)\<lparr>m_socket := deliver socks rxm (m_socket (connections s ! c))\<rparr>)
        (s\<lparr>g_contextMutex := None, jtag := Dispatching\<rparr>)"
      using t Delivering c by (simp add: JtagThread_def Let_def split: if_splits)
    have "switch_ok low high (s\<lparr>g_contextMutex := None, jtag := Dispatching\<rparr>)" using s by (simp add: switch_ok_def)
    from switch_ok_socket [OF this, of c] show ?thesis unfolding t' by simp
  qed (use t in \<open>simp_all add: JtagThread_def\<close>)
qed

lemma switch_step_ok:
  assumes "switch_step low high flip shift socks s t" and "sockets_ok socks" and "switch_ok low high s"
  shows "switch_ok low high t"
  using assms(1)
proof (cases rule: switch_step.cases)
  case (accept sock)
  have "ctx_ok pool free cmap (length (connections s)) (new_connection sock)" if "\<And>a. cmap a \<noteq> Some (length (connections s))" for pool free cmap
    using that by (simp add: ctx_ok_def new_connection_def)
  moreover have "g_contextMap s a \<noteq> Some (length (connections s))" for a
    using assms(3) by (auto simp: switch_ok_def)
  ultimately show ?thesis
    using assms(3) unfolding accept switch_ok_def apart_def by (simp add: nth_append less_Suc_eq) (simp add: new_connection_def)
next
  case interrupt
  then show ?thesis using assms(3) by (simp add: switch_ok_def)
qed (use assms ConnectionThread_ok JtagThread_ok in blast)+

lemma switch_reachable_ok:
  assumes "switch_reachable low high flip shift socks s" and "sockets_ok socks"
  shows "switch_ok low high s"
proof -
  from assms(1) obtain d where "switch_steps low high flip shift socks (switch_new low high d) s" unfolding switch_reachable_def by blast
  then show ?thesis
  proof (induction rule: rtranclp_induct)
    case base
    show ?case by (simp add: switch_ok_def switch_new_def iface_ok_def apart_def bridge_ok_def bridge_new_def)
  next
    case (step t u)
    then show ?case using switch_step_ok assms(2) by blast
  qed
qed

end
