(* ===== verification/Switch_Runs.thy ===== *)
theory Switch_Runs
  imports Switch_Safe
begin

text \<open>
  Runs of the switch: what it guarantees of every run, how messages from the FPGA reach the clients, and a run in which the JTAG thread and a
  connection thread wait for each other.
\<close>

section \<open>A client as a stream of octets\<close>

text \<open>Sockets whose clients send given octets and take everything: the state is what is still to come and what was sent.\<close>

definition stream_sockets :: "(u8 list \<times> u8 list) sockets" where
  "stream_sockets =
     \<lparr>DisableNagle = Pair True,
      SendLooped = (\<lambda>buf (inp, out). (True, (inp, out @ buf))),
      RecvLooped = (\<lambda>n (inp, out). if n \<le> length inp then (Some (take n inp), (drop n inp, out)) else (None, ([], out)))\<rparr>"

lemma stream_sockets_ok: "sockets_ok stream_sockets"
  by (auto simp: sockets_ok_def stream_sockets_def split: if_splits)

section \<open>Addresses\<close>

lemma switch_step_free:
  assumes "switch_step low high flip shift socks s t" and "switch_ok low high s" and "sockets_ok socks"
  shows "m_freeAddresses (iface t) \<subseteq> m_freeAddresses (iface s)"
  using assms(1)
proof (cases rule: switch_step.cases)
  case (connection c)
  have b: "iface_ok low high (iface s)" using assms(2) by (simp add: switch_ok_def)
  from connection show ?thesis
    using conn_read_ok(5) [OF assms(3) b, of _ "connections s ! c"] iface_ok_alloc(2) [OF b]
    by (auto simp: ConnectionThread_def set_ctx_def Let_def split: if_splits conn_pc.splits prod.splits elim!: conn_allocate_cases)
next
  case jtag
  have "m_freeAddresses b' = m_freeAddresses (iface s)" if "Cycle flip shift (fpga s) (iface s) = Inr (d', b')" for d' b'
    using cycle_safe [of "iface s" flip shift "fpga s"] assms(2) that by (auto simp: switch_ok_def iface_ok_def)
  with jtag show ?thesis
    by (auto simp: JtagThread_def BridgeRecvRPCMessage_def set_ctx_def Let_def split: if_splits jtag_pc.splits sum.splits list.splits option.splits)
qed simp_all

lemma switch_steps_ok:
  assumes "switch_steps low high flip shift socks s t" and "switch_ok low high s" and "sockets_ok socks"
  shows "switch_ok low high t \<and> m_freeAddresses (iface t) \<subseteq> m_freeAddresses (iface s)"
  using assms(1)
proof (induction rule: rtranclp_induct)
  case (step t u)
  then show ?case using switch_step_ok [OF step(2) assms(3)] switch_step_free [OF step(2) _ assms(3)] by blast
qed (use assms(2) in simp)

section \<open>Dispatching\<close>

text \<open>The JTAG thread on its own, for as long as it does not have to wait.\<close>

primrec jtag_steps :: "nat \<Rightarrow> (u32 \<Rightarrow> u32) \<Rightarrow> (u32 list \<Rightarrow> 'd \<Rightarrow> u32 list \<times> 'd) \<Rightarrow> 'k sockets \<Rightarrow> ('k, 'd) switch \<Rightarrow> ('k, 'd) switch option" where
  "jtag_steps 0 flip shift socks s = Some s"
| "jtag_steps (Suc n) flip shift socks s = Option.bind (JtagThread flip shift socks s) (jtag_steps n flip shift socks)"

lemma jtag_steps_add:
  "jtag_steps m flip shift socks s = Some t \<Longrightarrow> jtag_steps (m + n) flip shift socks s = jtag_steps n flip shift socks t"
  by (induction m arbitrary: s) (auto simp: bind_eq_Some_conv)

text \<open>What a connection is sent of a list of messages: those that the map leads to it with.\<close>

definition addressed :: "(u16 \<Rightarrow> nat option) \<Rightarrow> nat \<Rightarrow> rpc_message list \<Rightarrow> rpc_message list" where
  "addressed cmap c ms = filter (\<lambda>m. cmap (rpc_to m) = Some c) ms"

definition dispatched :: "'k sockets \<Rightarrow> (u16 \<Rightarrow> nat option) \<Rightarrow> rpc_message \<Rightarrow> 'k connection list \<Rightarrow> 'k connection list" where
  "dispatched socks cmap m ctxs = (case cmap (rpc_to m) of None \<Rightarrow> ctxs
     | Some c \<Rightarrow> ctxs[c := (ctxs ! c)\<lparr>m_socket := deliver socks m (m_socket (ctxs ! c))\<rparr>])"

lemma length_dispatched [simp]: "length (dispatched socks cmap m ctxs) = length ctxs"
  by (simp add: dispatched_def split: option.split)

lemma nth_dispatched:
  "c < length ctxs \<Longrightarrow> dispatched socks cmap m ctxs ! c =
    (ctxs ! c)\<lparr>m_socket := fold (deliver socks) (addressed cmap c [m]) (m_socket (ctxs ! c))\<rparr>"
  by (auto simp: dispatched_def addressed_def nth_list_update split: option.split)

lemma dispatch_one:
  assumes "jtag s = Dispatching" and "g_contextMutex s = None" and "m_rpcRxFifo (iface s) = m # ms"
    and "\<And>c. g_contextMap s (rpc_to m) = Some c \<Longrightarrow>
      c < length (connections s) \<and> c_pc (connections s ! c) \<noteq> Closed \<and> m_mutex (connections s ! c) = None"
  shows "\<exists>n. jtag_steps n flip shift socks s =
    Some (s\<lparr>iface := (iface s)\<lparr>m_rpcRxFifo := ms\<rparr>, connections := dispatched socks (g_contextMap s) m (connections s)\<rparr>)"
proof -
  let ?s1 = "s\<lparr>iface := (iface s)\<lparr>m_rpcRxFifo := ms\<rparr>, jtag := Looking m\<rparr>"
  have 1: "JtagThread flip shift socks s = Some ?s1"
    using assms(1,3) by (simp add: JtagThread_def BridgeRecvRPCMessage_def)
  show ?thesis
  proof (cases "g_contextMap s (rpc_to m)")
    case None
    then have "JtagThread flip shift socks ?s1 = Some (?s1\<lparr>jtag := Dispatching\<rparr>)" using assms(2) by (simp add: JtagThread_def)
    moreover have "?s1\<lparr>jtag := Dispatching\<rparr> = s\<lparr>iface := (iface s)\<lparr>m_rpcRxFifo := ms\<rparr>, connections := connections s\<rparr>"
      using assms(1) by (cases s) simp
    ultimately show ?thesis using 1 None by (intro exI [of _ "Suc (Suc 0)"]) (simp add: dispatched_def)
  next
    case (Some c)
    let ?s2 = "?s1\<lparr>g_contextMutex := Some Jtag, jtag := Delivering m c\<rparr>"
    let ?s3 = "s\<lparr>iface := (iface s)\<lparr>m_rpcRxFifo := ms\<rparr>, connections := dispatched socks (g_contextMap s) m (connections s)\<rparr>"
    have 2: "JtagThread flip shift socks ?s1 = Some ?s2" using assms(2) Some by (simp add: JtagThread_def)
    have "JtagThread flip shift socks ?s2 = Some ?s3"
      using assms(1,2) assms(4) [OF Some] Some by (cases s) (simp add: JtagThread_def dispatched_def set_ctx_def Let_def)
    then show ?thesis using 1 2 by (intro exI [of _ "Suc (Suc (Suc 0))"]) simp
  qed
qed

lemma dispatch_all:
  assumes "jtag s = Dispatching" and "g_contextMutex s = None" and "m_rpcRxFifo (iface s) = ms"
    and "\<And>a c. g_contextMap s a = Some c \<Longrightarrow>
      c < length (connections s) \<and> c_pc (connections s ! c) \<noteq> Closed \<and> m_mutex (connections s ! c) = None"
  shows "\<exists>n. jtag_steps n flip shift socks s = Some (s\<lparr>iface := (iface s)\<lparr>m_rpcRxFifo := []\<rparr>, jtag := Cycling,
    connections := fold (dispatched socks (g_contextMap s)) ms (connections s)\<rparr>)"
  using assms
proof (induction ms arbitrary: s)
  case Nil
  then have "JtagThread flip shift socks s = Some (s\<lparr>iface := iface s, jtag := Cycling\<rparr>)"
    by (simp add: JtagThread_def BridgeRecvRPCMessage_def)
  moreover have "iface s = (iface s)\<lparr>m_rpcRxFifo := []\<rparr>" using Nil.prems(3) by (cases "iface s") simp
  ultimately show ?case by (intro exI [of _ "Suc 0"]) simp
next
  case (Cons m ms)
  let ?t = "s\<lparr>iface := (iface s)\<lparr>m_rpcRxFifo := ms\<rparr>, connections := dispatched socks (g_contextMap s) m (connections s)\<rparr>"
  from dispatch_one [OF Cons.prems(1-3) Cons.prems(4) [of "rpc_to m"], where flip = flip and shift = shift and socks = socks] obtain n where n: "jtag_steps n flip shift socks s = Some ?t"
    by blast
  have "g_contextMap ?t a = Some c \<Longrightarrow> c < length (connections ?t) \<and> c_pc (connections ?t ! c) \<noteq> Closed \<and> m_mutex (connections ?t ! c) = None"
    for a c
    using Cons.prems(4) [of a c] nth_dispatched [of c "connections s" socks "g_contextMap s" m] by simp
  then have "\<exists>n'. jtag_steps n' flip shift socks ?t = Some (?t\<lparr>iface := (iface ?t)\<lparr>m_rpcRxFifo := []\<rparr>, jtag := Cycling,
      connections := fold (dispatched socks (g_contextMap ?t)) ms (connections ?t)\<rparr>)"
    using Cons.prems(1,2) by (intro Cons.IH [of ?t]) simp_all
  then obtain n' where "jtag_steps n' flip shift socks ?t = Some (?t\<lparr>iface := (iface ?t)\<lparr>m_rpcRxFifo := []\<rparr>, jtag := Cycling,
      connections := fold (dispatched socks (g_contextMap ?t)) ms (connections ?t)\<rparr>)"
    by blast
  then show ?case using jtag_steps_add [OF n, of n'] by (intro exI [of _ "n + n'"]) simp
qed

lemma fold_dispatched:
  "c < length ctxs \<Longrightarrow> fold (dispatched socks cmap) ms ctxs ! c =
    (ctxs ! c)\<lparr>m_socket := fold (deliver socks) (addressed cmap c ms) (m_socket (ctxs ! c))\<rparr>"
proof (induction ms arbitrary: ctxs)
  case (Cons m ms)
  show ?case
    using Cons.IH [of "dispatched socks cmap m ctxs"] Cons.prems nth_dispatched [OF Cons.prems, of socks cmap m]
    by (simp add: addressed_def)
qed (simp add: addressed_def)

lemma length_fold_dispatched: "length (fold (dispatched socks cmap) ms ctxs) = length ctxs"
  by (induction ms arbitrary: ctxs) simp_all

section \<open>A run into a deadlock\<close>

text \<open>A client that has been given the lowest address, and a message for it that the FPGA has returned.\<close>

abbreviation holding :: "bridge \<Rightarrow> 'd \<Rightarrow> u16 \<Rightarrow> u8 list \<times> u8 list \<Rightarrow> u16 set \<Rightarrow> thread option \<Rightarrow> conn_pc \<Rightarrow> thread option \<Rightarrow> jtag_pc \<Rightarrow>
    (u8 list \<times> u8 list, 'd) switch" where
  "holding b d low k own lock pc mlock jpc \<equiv> \<lparr>iface = b, fpga = d, g_contextMap = [low \<mapsto> 0], g_contextMutex = mlock,
     connections = [\<lparr>m_socket = k, m_mutex = lock, our_addresses = own, c_pc = pc\<rparr>], jtag = jpc, g_quitting = False\<rparr>"

lemma Min_pool: "low \<le> high \<Longrightarrow> Min {low..high} = (low :: u16)"
  by (rule Min_eqI) simp_all

lemma JtagThread_cycle:
  "jtag s = Cycling \<Longrightarrow> \<not> g_quitting s \<Longrightarrow> fpga s = d0 \<Longrightarrow> iface s = b0 \<Longrightarrow> Cycle flip shift d0 b0 = Inr (d, b) \<Longrightarrow>
    JtagThread flip shift socks s = Some (s\<lparr>fpga := d, iface := b, jtag := Dispatching\<rparr>)"
  by (simp add: JtagThread_def)

lemma run_to_dispatch:
  assumes "low \<le> high" and "sendable m"
  shows "\<exists>b d. switch_reachable low high flip exchange stream_sockets (holding b d low
      (inp, [1, 1, ucast low, ucast (drop_bit 8 low)]) {low} None Receiving None Dispatching) \<and>
    m_rpcRxFifo b = [m] \<and> m_freeAddresses b = {low..high} - {low}"
proof -
  let ?step = "switch_step low high flip exchange stream_sockets"
  let ?b0 = "bridge_new low high"
  let ?b1 = "?b0\<lparr>m_freeAddresses := {low..high} - {low}\<rparr>"
  let ?gs = "(sealed (rpc_header ?b1), pack_words m) # idle_frames ?b1 20"
  let ?d = "(concat (map (wire flip) ?gs), [] :: u32 list)"
  let ?ctx = "\<lambda>inp out own lock pc. \<lparr>m_socket = (inp, out), m_mutex = lock, our_addresses = own, c_pc = pc\<rparr>"
  let ?s = "\<lambda>b cmap ctx. \<lparr>iface = b, fpga = ?d, g_contextMap = cmap, g_contextMutex = None, connections = [ctx], jtag = Cycling, g_quitting = False\<rparr>"
  let ?out = "[1, 1, ucast low, ucast (drop_bit 8 low)]"
  have s1: "?step (switch_new low high ?d) (?s ?b0 Map.empty (?ctx (1 # inp) [] {} None Starting))"
    using switch_step.accept [of low high flip exchange stream_sockets "switch_new low high ?d" "(1 # inp, [])"]
    by (simp add: switch_new_def new_connection_def)
  have s2: "?step (?s ?b0 Map.empty (?ctx (1 # inp) [] {} None Starting)) (?s ?b0 Map.empty (?ctx (1 # inp) [] {} None Receiving))"
    by (rule switch_step.connection [of _ _ _ 0]) (simp add: ConnectionThread_def set_ctx_def conn_start_def stream_sockets_def)
  have s3: "?step (?s ?b0 Map.empty (?ctx (1 # inp) [] {} None Receiving)) (?s ?b0 Map.empty (?ctx inp [] {} None (Allocating False)))"
    by (rule switch_step.connection [of _ _ _ 0])
      (simp add: ConnectionThread_def set_ctx_def conn_receive_def stream_sockets_def aget_def nocswitch_opcodes Let_def)
  have s4: "?step (?s ?b0 Map.empty (?ctx inp [] {} None (Allocating False)))
      (?s ?b1 Map.empty (?ctx inp ?out {low} (Some (Conn 0)) (Registering low False)))"
    using assms(1) by (intro switch_step.connection [of _ _ _ 0])
      (simp add: ConnectionThread_def set_ctx_def conn_allocate_def stream_sockets_def nocswitch_opcodes Let_def
        AllocateClientAddress_def bridge_new_def Min_pool)
  have s5: "?step (?s ?b1 Map.empty (?ctx inp ?out {low} (Some (Conn 0)) (Registering low False)))
      (?s ?b1 [low \<mapsto> 0] (?ctx inp ?out {low} None Receiving))"
    by (rule switch_step.connection [of _ _ _ 0]) (simp add: ConnectionThread_def set_ctx_def loop_end_def)
  have ok: "bridge_ok ?b1" by (simp add: bridge_ok_def bridge_new_def)
  have gs: "\<And>g. g \<in> set ?gs \<Longrightarrow> frame_ok g"
    using rpc_frames_ok [OF ok, of _ "[m]"] idle_frames_ok [OF ok] by auto
  have w: "length (wire flip (sealed (rpc_header ?b1), pack_words m)) = 7" by (simp add: wire_def rpc_header_def)
  have out: "32 * 1 \<le> length (concat (map (wire flip) ?gs))"
    using length_idle_frames [of flip ?b1 20] w by simp
  have "\<exists>fs gs1 gs2 part. (\<forall>f \<in> set fs. frame_ok f) \<and> concat (map carried fs) = take (4 * 1) (m_rpcTxFifo ?b1) \<and>
    map (h_sequence \<circ> fst) fs = map (\<lambda>i. (NextSeq ^^ i) (m_nextSequence ?b1)) [0..<length fs] \<and>
    ?gs = gs1 @ gs2 \<and> run_cycles flip exchange 1 ?d ?b1 =
      Inr ((drop (length (concat (map (wire flip) fs))) (fst ?d), [] @ concat (map (wire flip) fs)),
        (after_frames gs1 ?b1)\<lparr>m_rxBuffer := part, m_rpcTxFifo := drop (4 * 1) (m_rpcTxFifo ?b1),
          m_nextSequence := (NextSeq ^^ length fs) (m_nextSequence ?b1)\<rparr>) \<and>
    part @ drop (length (concat (map (wire flip) fs))) (fst ?d) = concat (map (wire flip) gs2) \<and>
    31 * 1 \<le> length (concat (map (wire flip) fs)) \<and>
    (part = [] \<or> (\<exists>g gs3 z zs. gs2 = g # gs3 \<and> wire flip g = part @ z # zs))"
    unfolding fst_conv
    by (rule run_cycles_exact [OF ok _ _ gs _ out]) (simp_all add: bridge_new_def)
  then obtain fs gs1 gs2 part where r: "?gs = gs1 @ gs2" "run_cycles flip exchange 1 ?d ?b1 =
      Inr ((drop (length (concat (map (wire flip) fs))) (fst ?d), concat (map (wire flip) fs)),
        (after_frames gs1 ?b1)\<lparr>m_rxBuffer := part, m_rpcTxFifo := drop (4 * 1) (m_rpcTxFifo ?b1),
          m_nextSequence := (NextSeq ^^ length fs) (m_nextSequence ?b1)\<rparr>)"
    "part @ drop (length (concat (map (wire flip) fs))) (fst ?d) = concat (map (wire flip) gs2)"
    "31 \<le> length (concat (map (wire flip) fs))" "part = [] \<or> (\<exists>g gs3 z zs. gs2 = g # gs3 \<and> wire flip g = part @ z # zs)"
    unfolding append_Nil mult_1_right by blast
  let ?b2 = "(after_frames gs1 ?b1)\<lparr>m_rxBuffer := part, m_rpcTxFifo := drop (4 * 1) (m_rpcTxFifo ?b1),
          m_nextSequence := (NextSeq ^^ length fs) (m_nextSequence ?b1)\<rparr>"
  let ?d2 = "(drop (length (concat (map (wire flip) fs))) (fst ?d), concat (map (wire flip) fs))"
  have cyc: "Cycle flip exchange ?d ?b1 = Inr (?d2, ?b2)"
    using r(2) by (simp add: andthen_def split: sum.splits prod.splits)
  have "gs1 \<noteq> []"
  proof
    assume e: "gs1 = []"
    then have "part @ drop (length (concat (map (wire flip) fs))) (fst ?d) = fst ?d" using r(1,3) by simp
    then have "length part = length (fst ?d) - length (drop (length (concat (map (wire flip) fs))) (fst ?d))"
      by (metis add_diff_cancel_right' length_append)
    then have "31 \<le> length part" using r(4) out by simp
    moreover from r(5) e r(1) have "part = [] \<or> length part < 7" using w by auto
    ultimately show False by auto
  qed
  then obtain gs3 where g: "gs1 = (sealed (rpc_header ?b1), pack_words m) # gs3" "idle_frames ?b1 20 = gs3 @ gs2"
    using r(1) by (cases gs1) auto
  have "concat (map carried gs3) = []" using carried_idle [of ?b1 20] g(2) by simp
  moreover have "carried (sealed (rpc_header ?b1), pack_words m) = [m]" using carried_rpc [of "[m]" ?b1] assms(2) by simp
  ultimately have "m_rpcRxFifo ?b2 = [m]" by (simp add: after_frames_def g(1) bridge_new_def)
  moreover have "m_freeAddresses ?b2 = {low..high} - {low}" by (simp add: after_frames_def)
  moreover have "?step (?s ?b1 [low \<mapsto> 0] (?ctx inp ?out {low} None Receiving))
      (holding ?b2 ?d2 low (inp, ?out) {low} None Receiving None Dispatching)"
    by (rule switch_step.jtag, subst JtagThread_cycle [OF _ _ _ _ cyc]) simp_all
  ultimately show ?thesis
    using s1 s2 s3 s4 s5 unfolding switch_reachable_def by (meson rtranclp.rtrancl_into_rtrancl rtranclp.rtrancl_refl)
qed

text \<open>A connection thread that is about to register an address and the JTAG thread with a message for the same connection.\<close>

definition deadlocked :: "nat \<Rightarrow> ('k, 'd) switch \<Rightarrow> bool" where
  "deadlocked c s \<longleftrightarrow> (\<exists>rxm. jtag s = Delivering rxm c) \<and> g_contextMutex s = Some Jtag \<and> c < length (connections s) \<and>
     (\<exists>a q. c_pc (connections s ! c) = Registering a q) \<and> m_mutex (connections s ! c) = Some (Conn c)"

lemma deadlocked_stuck:
  "deadlocked c s \<Longrightarrow> JtagThread flip shift socks s = None" "deadlocked c s \<Longrightarrow> ConnectionThread low high socks c s = None"
  by (auto simp: deadlocked_def JtagThread_def ConnectionThread_def)

text \<open>A connection thread leaves the JTAG thread, the lock of the map and the other contexts alone.\<close>

lemma ConnectionThread_only:
  "ConnectionThread low high socks c s = Some t \<Longrightarrow>
    jtag t = jtag s \<and> g_contextMutex t = g_contextMutex s \<and> (\<exists>ctx. connections t = (connections s)[c := ctx])"
  by (auto simp: ConnectionThread_def set_ctx_def Let_def split: if_splits conn_pc.splits prod.splits)

lemma deadlocked_step: "switch_step low high flip shift socks s t \<Longrightarrow> deadlocked c s \<Longrightarrow> deadlocked c t"
proof (induction rule: switch_step.induct)
  case (connection c' s t)
  then have "c' \<noteq> c" using deadlocked_stuck(2) by fastforce
  then show ?case using connection(2) ConnectionThread_only [OF connection(1)] by (auto simp: deadlocked_def)
next
  case (jtag s t)
  then show ?case using deadlocked_stuck(1) by fastforce
qed (auto simp: deadlocked_def nth_append)

lemma deadlocked_steps: "switch_steps low high flip shift socks s t \<Longrightarrow> deadlocked c s \<Longrightarrow> deadlocked c t"
  by (induction rule: rtranclp_induct) (auto intro: deadlocked_step)

lemma run_to_deadlock:
  assumes "low < high"
  shows "\<exists>s :: (u8 list \<times> u8 list, u32 list \<times> u32 list) switch.
    switch_reachable low high flip exchange stream_sockets s \<and> deadlocked 0 s"
proof -
  let ?step = "switch_step low high flip exchange stream_sockets"
  let ?m = "\<lparr>rpc_from = 0, rpc_to = low, rpc_callnum = 0, rpc_type = 0, rpc_data0 = 0, rpc_data1 = 0, rpc_data2 = 0\<rparr>"
  let ?out = "[1, 1, ucast low, ucast (drop_bit 8 low)]"
  have "sendable ?m" by (simp add: sendable_def)
  from run_to_dispatch [OF less_imp_le [OF assms] this, of flip "[1]"] obtain b d where
    r: "switch_reachable low high flip exchange stream_sockets (holding b d low ([1], ?out) {low} None Receiving None Dispatching)"
    "m_rpcRxFifo b = [?m]" "m_freeAddresses b = {low..high} - {low}"
    by auto
  let ?b = "b\<lparr>m_rpcRxFifo := []\<rparr>"
  have "low \<le> high \<and> high \<noteq> low" using assms less_imp_le [OF assms] by blast
  then have "high \<in> m_freeAddresses ?b" using r(3) by simp
  then have "m_freeAddresses ?b \<noteq> {}" by blast
  then obtain a b' where a: "AllocateClientAddress ?b = (Some a, b')" unfolding AllocateClientAddress_def Let_def by simp
  have s1: "?step (holding b d low ([1], ?out) {low} None Receiving None Dispatching)
      (holding ?b d low ([1], ?out) {low} None Receiving None (Looking ?m))"
    by (rule switch_step.jtag) (simp add: JtagThread_def BridgeRecvRPCMessage_def r(2))
  have s2: "?step (holding ?b d low ([1], ?out) {low} None Receiving None (Looking ?m))
      (holding ?b d low ([1], ?out) {low} None Receiving (Some Jtag) (Delivering ?m 0))"
    by (rule switch_step.jtag) (simp add: JtagThread_def)
  have s3: "?step (holding ?b d low ([1], ?out) {low} None Receiving (Some Jtag) (Delivering ?m 0))
      (holding ?b d low ([], ?out) {low} None (Allocating False) (Some Jtag) (Delivering ?m 0))"
    by (rule switch_step.connection [of _ _ _ 0])
      (simp add: ConnectionThread_def set_ctx_def conn_receive_def stream_sockets_def aget_def nocswitch_opcodes Let_def)
  have s4: "?step (holding ?b d low ([], ?out) {low} None (Allocating False) (Some Jtag) (Delivering ?m 0))
      (holding b' d low ([], ?out @ [1, 1, ucast a, ucast (drop_bit 8 a)]) {low, a} (Some (Conn 0)) (Registering a False) (Some Jtag) (Delivering ?m 0))"
    by (rule switch_step.connection [of _ _ _ 0])
      (simp add: ConnectionThread_def set_ctx_def conn_allocate_def stream_sockets_def nocswitch_opcodes Let_def a insert_commute)
  have "switch_reachable low high flip exchange stream_sockets
      (holding b' d low ([], ?out @ [1, 1, ucast a, ucast (drop_bit 8 a)]) {low, a} (Some (Conn 0)) (Registering a False) (Some Jtag) (Delivering ?m 0))"
    using r(1) s1 s2 s3 s4 unfolding switch_reachable_def by (meson rtranclp.rtrancl_into_rtrancl)
  then show ?thesis by (intro exI conjI) (auto simp: deadlocked_def)
qed

section \<open>Properties\<close>

text \<open>
  C3: the switch in every reachable state, whatever clients send and the FPGA returns. No thread reads outside a buffer or sends to a context that
  has gone: while the JTAG thread delivers a message, the thread of the connection it goes to has not cleaned up and owns the
  address. No two connections own the same address, none that is owned is free, and what is queued for the FPGA can be carried, comes from
  the debug subnet and goes elsewhere.
\<close>
theorem switch_safe:
  assumes "switch_reachable low high flip shift socks s" and "sockets_ok socks"
  shows "jtag s \<noteq> Fault \<and> (\<forall>ctx \<in> set (connections s). c_pc ctx \<noteq> Overrun) \<and>
    (\<forall>rxm c. jtag s = Delivering rxm c \<longrightarrow> c < length (connections s) \<and> c_pc (connections s ! c) \<noteq> Closed \<and>
      rpc_to rxm \<in> our_addresses (connections s ! c)) \<and>
    (\<forall>i < length (connections s). \<forall>j < length (connections s). i \<noteq> j \<longrightarrow>
      our_addresses (connections s ! i) \<inter> our_addresses (connections s ! j) = {}) \<and>
    (\<forall>ctx \<in> set (connections s). our_addresses ctx \<subseteq> {low..high} - m_freeAddresses (iface s)) \<and>
    (\<forall>m \<in> set (m_rpcTxFifo (iface s)). sendable m \<and> rpc_from m \<in> {low..high} \<and> rpc_to m \<notin> {low..high})"
proof -
  have s: "switch_ok low high s" by (rule switch_reachable_ok [OF assms])
  then have ctx: "ctx_ok {low..high} (m_freeAddresses (iface s)) (g_contextMap s) c (connections s ! c)" if "c < length (connections s)" for c
    using that by (simp add: switch_ok_def)
  have m: "c < length (connections s) \<and> g_contextMap s (rpc_to rxm) = Some c" if "jtag s = Delivering rxm c" for rxm c
    using s that by (auto simp: switch_ok_def)
  have "apart (connections s)" "iface_ok low high (iface s)" "jtag s \<noteq> Fault" using s by (simp_all add: switch_ok_def)
  moreover have "\<forall>ctx \<in> set (connections s). c_pc ctx \<noteq> Overrun \<and> our_addresses ctx \<subseteq> {low..high} - m_freeAddresses (iface s)"
    unfolding all_set_conv_all_nth using ctx unfolding ctx_ok_def by blast
  moreover have "c_pc (connections s ! c) \<noteq> Closed \<and> rpc_to rxm \<in> our_addresses (connections s ! c)" if "jtag s = Delivering rxm c" for rxm c
    using ctx [of c] m [OF that] unfolding ctx_ok_def by blast
  ultimately show ?thesis
    using m unfolding iface_ok_def IsInDebugSubnet_def apart_def atLeastAtMost_iff by blast
qed

theorem switch_safe_witness:
  "\<exists>s :: (u8 list \<times> u8 list, u32 list \<times> u32 list) switch. \<exists>rxm.
    switch_reachable 0xc000 0xffff id exchange stream_sockets s \<and> jtag s = Delivering rxm 0 \<and>
    rpc_to rxm \<in> our_addresses (connections s ! 0) \<and> rpc_to rxm \<notin> m_freeAddresses (iface s)"
proof -
  from run_to_deadlock [of "0xc000" "0xffff" id] obtain s :: "(u8 list \<times> u8 list, u32 list \<times> u32 list) switch" and rxm where
    s: "switch_reachable 0xc000 0xffff id exchange stream_sockets s" "jtag s = Delivering rxm 0"
    unfolding deadlocked_def by auto
  have "rpc_to rxm \<in> our_addresses (connections s ! 0)" "our_addresses (connections s ! 0) \<subseteq> {0xc000..0xffff} - m_freeAddresses (iface s)"
    using switch_safe [OF s(1) stream_sockets_ok] s(2) by (blast intro: nth_mem)+
  then show ?thesis using s by blast
qed

text \<open>
  C12: addresses are handed out once. Whatever happens after a state of the switch, an address that is not free in it does not become free
  again, also when the client that owns it has gone; when none is free, every later request is refused.
\<close>
theorem addresses_not_returned:
  assumes "switch_reachable low high flip shift socks s" and "switch_steps low high flip shift socks s t" and "sockets_ok socks"
  shows "m_freeAddresses (iface t) \<subseteq> m_freeAddresses (iface s) \<and>
    (\<forall>ctx \<in> set (connections s). our_addresses ctx \<inter> m_freeAddresses (iface t) = {}) \<and>
    (m_freeAddresses (iface s) = {} \<longrightarrow> AllocateClientAddress (iface t) = (None, iface t))"
proof -
  have s: "switch_ok low high s" by (rule switch_reachable_ok [OF assms(1,3)])
  have f: "m_freeAddresses (iface t) \<subseteq> m_freeAddresses (iface s)" using switch_steps_ok [OF assms(2) s assms(3)] by blast
  moreover have "our_addresses ctx \<inter> m_freeAddresses (iface s) = {}" if "ctx \<in> set (connections s)" for ctx
    using s that unfolding switch_ok_def ctx_ok_def in_set_conv_nth by blast
  ultimately show ?thesis by (auto simp: AllocateClientAddress_def)
qed

theorem addresses_not_returned_witness:
  "\<exists>s :: (u8 list \<times> u8 list, unit) switch. \<exists>t.
    switch_steps 0xc000 0xc000 id (\<lambda>tx d. (tx, d)) stream_sockets s t \<and> c_pc (connections t ! 0) = Closed \<and>
    AllocateClientAddress (iface t) = (None, iface t)"
proof -
  let ?step = "switch_step 0xc000 0xc000 id (\<lambda>tx d. (tx, d)) stream_sockets"
  let ?b = "bridge_new 0xc000 0xc000"
  let ?b1 = "?b\<lparr>m_freeAddresses := {}\<rparr>"
  let ?s = "\<lambda>b cmap k own lock pc. \<lparr>iface = b, fpga = (), g_contextMap = cmap, g_contextMutex = None,
    connections = [\<lparr>m_socket = k, m_mutex = lock, our_addresses = own, c_pc = pc\<rparr>], jtag = Cycling, g_quitting = False\<rparr>"
  have s0: "?step (switch_new 0xc000 0xc000 ()) (?s ?b Map.empty ([1], []) {} None Starting)"
    using switch_step.accept [of "0xc000" "0xc000" id "\<lambda>tx d. (tx, d)" stream_sockets "switch_new 0xc000 0xc000 ()" "([1], [])"]
    by (simp add: switch_new_def new_connection_def)
  have s1: "?step (?s ?b Map.empty ([1], []) {} None Starting) (?s ?b Map.empty ([1], []) {} None Receiving)"
    by (rule switch_step.connection [of _ _ _ 0]) (simp add: ConnectionThread_def set_ctx_def conn_start_def stream_sockets_def)
  have s2: "?step (?s ?b Map.empty ([1], []) {} None Receiving) (?s ?b Map.empty ([], []) {} None (Allocating False))"
    by (rule switch_step.connection [of _ _ _ 0])
      (simp add: ConnectionThread_def set_ctx_def conn_receive_def stream_sockets_def aget_def nocswitch_opcodes Let_def)
  have s3: "?step (?s ?b Map.empty ([], []) {} None (Allocating False))
      (?s ?b1 Map.empty ([], [1, 1, 0, 0xc0]) {0xc000} (Some (Conn 0)) (Registering 0xc000 False))"
    by (rule switch_step.connection [of _ _ _ 0])
      (simp add: ConnectionThread_def set_ctx_def conn_allocate_def stream_sockets_def nocswitch_opcodes Let_def
        AllocateClientAddress_def bridge_new_def)
  have s4: "?step (?s ?b1 Map.empty ([], [1, 1, 0, 0xc0]) {0xc000} (Some (Conn 0)) (Registering 0xc000 False))
      (?s ?b1 [0xc000 \<mapsto> 0] ([], [1, 1, 0, 0xc0]) {0xc000} None Receiving)"
    by (rule switch_step.connection [of _ _ _ 0]) (simp add: ConnectionThread_def set_ctx_def loop_end_def)
  have s5: "?step (?s ?b1 [0xc000 \<mapsto> 0] ([], [1, 1, 0, 0xc0]) {0xc000} None Receiving)
      (?s ?b1 [0xc000 \<mapsto> 0] ([], [1, 1, 0, 0xc0]) {0xc000} None Closing)"
    by (rule switch_step.connection [of _ _ _ 0]) (simp add: ConnectionThread_def set_ctx_def conn_receive_def stream_sockets_def)
  have s6: "?step (?s ?b1 [0xc000 \<mapsto> 0] ([], [1, 1, 0, 0xc0]) {0xc000} None Closing)
      (?s ?b1 Map.empty ([], [1, 1, 0, 0xc0]) {0xc000} None Closed)"
    by (rule switch_step.connection [of _ _ _ 0]) (auto simp: ConnectionThread_def set_ctx_def fun_eq_iff)
  let ?s4 = "?s ?b1 [0xc000 \<mapsto> 0] ([], [1, 1, 0, 0xc0]) {0xc000} None Receiving"
  let ?s6 = "?s ?b1 Map.empty ([], [1, 1, 0, 0xc0]) {0xc000} None Closed"
  have "switch_reachable 0xc000 0xc000 id (\<lambda>tx d. (tx, d)) stream_sockets ?s4"
    using s0 s1 s2 s3 s4 unfolding switch_reachable_def by (meson rtranclp.rtrancl_into_rtrancl rtranclp.rtrancl_refl)
  moreover have run: "switch_steps 0xc000 0xc000 id (\<lambda>tx d. (tx, d)) stream_sockets ?s4 ?s6"
    using s5 s6 by (meson rtranclp.rtrancl_into_rtrancl rtranclp.rtrancl_refl)
  ultimately have "AllocateClientAddress (iface ?s6) = (None, iface ?s6)"
    using addresses_not_returned [OF _ _ stream_sockets_ok] by fastforce
  then show ?thesis using run by (intro exI [of _ ?s4] exI [of _ ?s6]) simp
qed



text \<open>
  C7: the two locks are taken in opposite orders. With at least two debug addresses there is a run in which a client that owns an address asks for
  another one while a message for it comes from the FPGA, and from then on, whatever else happens, the thread of the client
  waits for the map, which the JTAG thread has locked, and the JTAG thread for the context, which the client's thread has locked.
\<close>
theorem switch_deadlock:
  assumes "low < high"
  shows "\<exists>s :: (u8 list \<times> u8 list, u32 list \<times> u32 list) switch. switch_reachable low high flip exchange stream_sockets s \<and>
    (\<forall>t. switch_steps low high flip exchange stream_sockets s t \<longrightarrow> JtagThread flip exchange stream_sockets t = None \<and>
      ConnectionThread low high stream_sockets 0 t = None \<and> 0 < length (connections t) \<and>
      c_pc (connections t ! 0) \<noteq> Closed \<and> jtag t \<noteq> Stopped)"
proof -
  from run_to_deadlock [OF assms, of flip] obtain s :: "(u8 list \<times> u8 list, u32 list \<times> u32 list) switch" where
    s: "switch_reachable low high flip exchange stream_sockets s" "deadlocked 0 s"
    by blast
  have "JtagThread flip exchange stream_sockets t = None \<and> ConnectionThread low high stream_sockets 0 t = None \<and>
      0 < length (connections t) \<and> c_pc (connections t ! 0) \<noteq> Closed \<and> jtag t \<noteq> Stopped"
    if "switch_steps low high flip exchange stream_sockets s t" for t
  proof -
    have t: "deadlocked 0 t" by (rule deadlocked_steps [OF that s(2)])
    then have "0 < length (connections t) \<and> c_pc (connections t ! 0) \<noteq> Closed \<and> jtag t \<noteq> Stopped" by (auto simp: deadlocked_def)
    then show ?thesis using deadlocked_stuck [OF t] by blast
  qed
  then show ?thesis using s(1) by blast
qed

theorem switch_deadlock_witness:
  "\<exists>s :: (u8 list \<times> u8 list, u32 list \<times> u32 list) switch. switch_reachable 0xc000 0xffff id exchange stream_sockets s \<and>
    JtagThread id exchange stream_sockets s = None \<and> ConnectionThread 0xc000 0xffff stream_sockets 0 s = None"
  using switch_deadlock [of "0xc000" "0xffff" id] by (auto intro: rtranclp.rtrancl_refl)

end
