(* ===== verification/Switch_Client.thy ===== *)
theory Switch_Client
  imports Switch_Runs
begin

text \<open>
  The client's side of the network switch (\<open>src/src/nocbridge/NOCSwitchInterface.cpp\<close>): the same bridge operations over a socket, with a queue for the
  messages that arrive while the answer to a request is awaited, and how client and server understand each other.
\<close>

section \<open>The client\<close>

record 'k switch_client =
  n_socket :: 'k
  m_rxqueue :: "rpc_message list"

definition client_send :: "'k sockets \<Rightarrow> u8 list \<Rightarrow> 'k switch_client \<Rightarrow> 'k switch_client" where
  "client_send socks buf c = c\<lparr>n_socket := snd (SendLooped socks buf (n_socket c))\<rparr>"

definition client_recv :: "'k sockets \<Rightarrow> nat \<Rightarrow> 'k switch_client \<Rightarrow> u8 list option \<times> 'k switch_client" where
  "client_recv socks n c = (let (buf, k) = RecvLooped socks n (n_socket c) in (buf, c\<lparr>n_socket := k\<rparr>))"

definition ClientQuit :: "'k sockets \<Rightarrow> 'k switch_client \<Rightarrow> 'k switch_client" where
  "ClientQuit socks c = client_send socks [NOCSWITCH_OP_QUIT] c"

definition ClientSendRPCMessage :: "'k sockets \<Rightarrow> rpc_message \<Rightarrow> 'k switch_client \<Rightarrow> 'k switch_client" where
  "ClientSendRPCMessage socks tx_msg c = client_send socks (pack_bytes tx_msg) (client_send socks [NOCSWITCH_OP_RPC] c)"

text \<open>
  A message is received into an array of 16 octets on the stack, whose contents \<open>junk\<close> stay when the connection has ended: the result of \<open>RecvLooped\<close> is
  not looked at.
\<close>

definition client_message :: "'k sockets \<Rightarrow> u8 list \<Rightarrow> 'k switch_client \<Rightarrow> (rpc_message \<times> 'k switch_client) res" where
  "client_message socks junk c =
     (let (buf, c) = client_recv socks 16 c in
      andthen (unpack_bytes (case buf of None \<Rightarrow> junk | Some b \<Rightarrow> b)) (\<lambda>m. Inr (m, c)))"

text \<open>The loop may wait forever for a frame of its type; then it has no result.\<close>

partial_function (option) ReadFramesUntil :: "'k sockets \<Rightarrow> u8 list \<Rightarrow> u8 \<Rightarrow> 'k switch_client \<Rightarrow> 'k switch_client res option" where
  "ReadFramesUntil socks junk opcode c =
     (let (buf, c) = client_recv socks 1 c in
      case buf of
        None \<Rightarrow> Some (Inr c)
      | Some b \<Rightarrow>
          case aget b 0 of
            Inl h \<Rightarrow> Some (Inl h)
          | Inr op \<Rightarrow>
              if op = opcode then Some (Inr c)
              else if op = NOCSWITCH_OP_RPC then
                case client_message socks junk c of
                  Inl h \<Rightarrow> Some (Inl h)
                | Inr (rx_msg, c) \<Rightarrow> ReadFramesUntil socks junk opcode (c\<lparr>m_rxqueue := m_rxqueue c @ [rx_msg]\<rparr>)
              else ReadFramesUntil socks junk opcode c)"

definition ClientRecvRPCMessage :: "'k sockets \<Rightarrow> u8 list \<Rightarrow> 'k switch_client \<Rightarrow> (rpc_message option \<times> 'k switch_client) res option" where
  "ClientRecvRPCMessage socks junk c =
     (case m_rxqueue c of
        m # ms \<Rightarrow> Some (Inr (Some m, c\<lparr>m_rxqueue := ms\<rparr>))
      | [] \<Rightarrow>
          map_option (\<lambda>r. andthen r (\<lambda>c.
            case m_rxqueue c of
              m # ms \<Rightarrow> Inr (Some m, c\<lparr>m_rxqueue := ms\<rparr>)
            | [] \<Rightarrow> Inr (None, c)))
            (ReadFramesUntil socks junk NOCSWITCH_OP_PING (client_send socks [NOCSWITCH_OP_PING] c)))"

definition RecvRPCMessageBlocking :: "'k sockets \<Rightarrow> u8 list \<Rightarrow> 'k switch_client \<Rightarrow> (rpc_message \<times> 'k switch_client) res option" where
  "RecvRPCMessageBlocking socks junk c =
     (case m_rxqueue c of
        m # ms \<Rightarrow> Some (Inr (m, c\<lparr>m_rxqueue := ms\<rparr>))
      | [] \<Rightarrow> map_option (\<lambda>r. andthen r (client_message socks junk)) (ReadFramesUntil socks junk NOCSWITCH_OP_RPC c))"

text \<open>With a timeout: \<open>late i\<close> says whether the clock has passed it when it is read for the \<open>i\<close>th time. The delays are left out.\<close>

partial_function (option) client_poll :: "(nat \<Rightarrow> bool) \<Rightarrow> 'k sockets \<Rightarrow> u8 list \<Rightarrow> nat \<Rightarrow> 'k switch_client \<Rightarrow>
    (rpc_message option \<times> 'k switch_client) res option" where
  "client_poll late socks junk i c =
     Option.bind (ClientRecvRPCMessage socks junk c) (\<lambda>r.
     case r of
       Inl h \<Rightarrow> Some (Inl h)
     | Inr (m, c) \<Rightarrow> if m \<noteq> None \<or> late i then Some (Inr (m, c)) else client_poll late socks junk (Suc i) c)"

definition RecvRPCMessageBlockingWithTimeout :: "(nat \<Rightarrow> bool) \<Rightarrow> 'k sockets \<Rightarrow> u8 list \<Rightarrow> 'k switch_client \<Rightarrow>
    (rpc_message option \<times> 'k switch_client) res option" where
  "RecvRPCMessageBlockingWithTimeout late socks junk c =
     Option.bind (ClientRecvRPCMessage socks junk c) (\<lambda>r.
     case r of
       Inl h \<Rightarrow> Some (Inl h)
     | Inr (m, c) \<Rightarrow> if m \<noteq> None then Some (Inr (m, c)) else client_poll late socks junk 0 c)"

definition ClientAllocateAddress :: "'k sockets \<Rightarrow> u8 list \<Rightarrow> 'k switch_client \<Rightarrow> (u16 option \<times> 'k switch_client) res option" where
  "ClientAllocateAddress socks junk c =
     map_option (\<lambda>r. andthen r (\<lambda>c.
       let (ok, c) = client_recv socks 1 c in
       case ok of
         None \<Rightarrow> Inr (None, c)
       | Some ok \<Rightarrow>
           andthen (aget ok 0) (\<lambda>ok.
           if ok = 0 then Inr (None, c)
           else let (addr, c) = client_recv socks 2 c in
             case addr of
               None \<Rightarrow> Inr (None, c)
             | Some addr \<Rightarrow>
                 andthen (aget addr 0) (\<lambda>lo. andthen (aget addr 1) (\<lambda>hi. Inr (Some (ucast lo OR push_bit 8 (ucast hi)), c))))))
       (ReadFramesUntil socks junk NOCSWITCH_OP_ALLOC_ADDR (client_send socks [NOCSWITCH_OP_ALLOC_ADDR] c))"

section \<open>Streams\<close>

text \<open>The documented behaviour of \<open>RecvLooped\<close>, when \<open>incoming k\<close> is what will still come in: it returns the next octets in order.\<close>

definition in_order :: "'k sockets \<Rightarrow> ('k \<Rightarrow> u8 list) \<Rightarrow> bool" where
  "in_order socks incoming \<longleftrightarrow>
     (\<forall>n k. n \<le> length (incoming k) \<longrightarrow>
       fst (RecvLooped socks n k) = Some (take n (incoming k)) \<and> incoming (snd (RecvLooped socks n k)) = drop n (incoming k)) \<and>
     (\<forall>buf k. incoming (snd (SendLooped socks buf k)) = incoming k)"

text \<open>What the JTAG thread of the switch writes for a message.\<close>

definition rpc_octets :: "rpc_message \<Rightarrow> u8 list" where
  "rpc_octets m = NOCSWITCH_OP_RPC # pack_bytes m"

lemma length_pack_bytes [simp]: "length (pack_bytes m) = 16"
  by (simp add: pack_bytes_def)

lemma recv_next:
  assumes "in_order socks incoming" and "incoming k = xs @ ys"
  shows "\<exists>k'. RecvLooped socks (length xs) k = (Some xs, k') \<and> incoming k' = ys"
proof -
  obtain r k' where r: "RecvLooped socks (length xs) k = (r, k')" by fastforce
  have "length xs \<le> length (incoming k)" using assms(2) by simp
  then have "fst (r, k') = Some (take (length xs) (incoming k))" "incoming (snd (r, k')) = drop (length xs) (incoming k)"
    using assms(1) unfolding in_order_def r [symmetric] by blast+
  then show ?thesis using r assms(2) by simp
qed

lemma client_recv_next:
  assumes "in_order socks incoming" and "incoming (n_socket c) = xs @ ys"
  shows "\<exists>k. client_recv socks (length xs) c = (Some xs, c\<lparr>n_socket := k\<rparr>) \<and> incoming k = ys"
  using recv_next [OF assms] by (auto simp: client_recv_def)

lemma stream_in_order: "in_order stream_sockets fst"
  by (auto simp: in_order_def stream_sockets_def)

lemma client_cong: "(c :: 'k switch_client)\<lparr>n_socket := k, m_rxqueue := ms\<rparr> = \<lparr>n_socket = k, m_rxqueue = ms\<rparr>"
  by (cases c) simp

lemma ReadFramesUntil_exact:
  assumes "in_order socks incoming" and "\<And>m. m \<in> set ms \<Longrightarrow> sendable m" and "opcode \<noteq> NOCSWITCH_OP_RPC"
    and "incoming (n_socket c) = concat (map rpc_octets ms) @ opcode # rest"
  shows "\<exists>k. ReadFramesUntil socks junk opcode c = Some (Inr \<lparr>n_socket = k, m_rxqueue = m_rxqueue c @ ms\<rparr>) \<and> incoming k = rest"
  using assms(2,4)
proof (induction ms arbitrary: c)
  case Nil
  then have "incoming (n_socket c) = [opcode] @ rest" by simp
  from client_recv_next [OF assms(1) this] obtain k where "client_recv socks 1 c = (Some [opcode], c\<lparr>n_socket := k\<rparr>)" "incoming k = rest"
    by auto
  then show ?case by (intro exI [of _ k]) (subst ReadFramesUntil.simps, cases c, simp add: aget_def)
next
  case (Cons m ms)
  let ?more = "concat (map rpc_octets ms) @ opcode # rest"
  have "incoming (n_socket c) = [NOCSWITCH_OP_RPC] @ pack_bytes m @ ?more" using Cons.prems(2) by (simp add: rpc_octets_def [of m])
  from client_recv_next [OF assms(1) this] obtain k where
    k: "client_recv socks 1 c = (Some [NOCSWITCH_OP_RPC], c\<lparr>n_socket := k\<rparr>)" "incoming k = pack_bytes m @ ?more"
    by auto
  have "incoming (n_socket (c\<lparr>n_socket := k\<rparr>)) = pack_bytes m @ ?more" using k(2) by simp
  from client_recv_next [OF assms(1) this] obtain k' where
    k': "client_recv socks 16 (c\<lparr>n_socket := k\<rparr>) = (Some (pack_bytes m), c\<lparr>n_socket := k'\<rparr>)" "incoming k' = ?more"
    by auto
  have "rpc_type m AND 7 = rpc_type m" "rpc_data0 m AND 0x1fffff = rpc_data0 m" using Cons.prems(1) [of m] by (simp_all add: sendable_def)
  then have "unpack_bytes (pack_bytes m) = Inr m" by (simp add: unpack_pack_bytes)
  then have "ReadFramesUntil socks junk opcode c = ReadFramesUntil socks junk opcode \<lparr>n_socket = k', m_rxqueue = m_rxqueue c @ [m]\<rparr>"
    using assms(3) k(1) k'(1) by (subst ReadFramesUntil.simps) (simp add: aget_def client_message_def Let_def client_cong)
  then show ?case
    using Cons.IH [of "\<lparr>n_socket = k', m_rxqueue = m_rxqueue c @ [m]\<rparr>"] Cons.prems(1) k'(2) by simp
qed

lemma deliver_stream: "deliver stream_sockets m (inp, out) = (inp, out @ rpc_octets m)"
  by (simp add: deliver_def stream_sockets_def rpc_octets_def)

lemma deliver_all_stream: "fold (deliver stream_sockets) ms (inp, out) = (inp, out @ concat (map rpc_octets ms))"
  by (induction ms arbitrary: out) (simp_all add: deliver_stream)

lemma conn_allocate_stream:
  "m_socket ctx = (inp, out) \<Longrightarrow> snd (m_socket (fst (conn_allocate stream_sockets i q ctx b))) =
    out @ NOCSWITCH_OP_ALLOC_ADDR # (case fst (AllocateClientAddress b) of None \<Rightarrow> [0] | Some a \<Rightarrow> [1, ucast a, ucast (drop_bit 8 a)])"
  by (auto simp: conn_allocate_def stream_sockets_def Let_def split: prod.split option.split)

lemma le_address: "ucast (ucast a :: u8) OR push_bit 8 (ucast (ucast (drop_bit 8 a) :: u8)) = (a :: u16)"
  by (rule bit_word_eqI) (auto simp: bit_simps dest: bit_words)

section \<open>Properties\<close>

text \<open>
  C10: a request for an address, at both ends. The switch has delivered any messages \<open>ms\<close> to the connection and answers the request; the client,
  which reads what the switch wrote, gets the address that the pool gave out, or learns that there is none, and finds the messages
  that were ahead of the answer in its queue, in order. It reads nothing beyond the answer.
\<close>
theorem address_request_answered:
  assumes "in_order socks incoming" and "\<And>m. m \<in> set ms \<Longrightarrow> sendable m" and "m_socket ctx = fold (deliver stream_sockets) ms (inp, out)"
    and "conn_allocate stream_sockets i q ctx b = (ctx', b')"
    and "incoming (snd (SendLooped socks [NOCSWITCH_OP_ALLOC_ADDR] (n_socket c))) = drop (length out) (snd (m_socket ctx')) @ rest"
  shows "\<exists>k. ClientAllocateAddress socks junk c = Some (Inr (fst (AllocateClientAddress b), \<lparr>n_socket = k, m_rxqueue = m_rxqueue c @ ms\<rparr>)) \<and>
    incoming k = rest"
proof -
  let ?answer = "(case fst (AllocateClientAddress b) of None \<Rightarrow> [0] | Some a \<Rightarrow> [1, ucast a, ucast (drop_bit 8 a)]) :: u8 list"
  let ?c = "client_send socks [NOCSWITCH_OP_ALLOC_ADDR] c"
  have "m_socket ctx = (inp, out @ concat (map rpc_octets ms))" using assms(3) by (simp add: deliver_all_stream)
  from conn_allocate_stream [OF this, of i q b] have "incoming (n_socket ?c) = concat (map rpc_octets ms) @ NOCSWITCH_OP_ALLOC_ADDR # ?answer @ rest"
    using assms(4,5) by (simp add: client_send_def)
  from ReadFramesUntil_exact [OF assms(1,2) _ this, of junk] obtain k where
    k: "ReadFramesUntil socks junk NOCSWITCH_OP_ALLOC_ADDR ?c = Some (Inr \<lparr>n_socket = k, m_rxqueue = m_rxqueue c @ ms\<rparr>)" "incoming k = ?answer @ rest"
    by (auto simp: nocswitch_opcodes client_send_def)
  let ?d = "\<lparr>n_socket = k, m_rxqueue = m_rxqueue c @ ms\<rparr>"
  show ?thesis
  proof (cases "fst (AllocateClientAddress b)")
    case None
    then have "incoming (n_socket ?d) = [0] @ rest" using k(2) by simp
    from client_recv_next [OF assms(1) this] obtain k' where "client_recv socks 1 ?d = (Some [0], ?d\<lparr>n_socket := k'\<rparr>)" "incoming k' = rest"
      by auto
    then show ?thesis using None by (intro exI [of _ k']) (simp add: ClientAllocateAddress_def k(1) aget_def)
  next
    case (Some a)
    then have "incoming (n_socket ?d) = [1] @ [ucast a, ucast (drop_bit 8 a)] @ rest" using k(2) by simp
    from client_recv_next [OF assms(1) this] obtain k1 where
      1: "client_recv socks 1 ?d = (Some [1], ?d\<lparr>n_socket := k1\<rparr>)" "incoming k1 = [ucast a, ucast (drop_bit 8 a)] @ rest"
      by auto
    then have "incoming (n_socket (?d\<lparr>n_socket := k1\<rparr>)) = [ucast a, ucast (drop_bit 8 a)] @ rest" by simp
    from client_recv_next [OF assms(1) this] obtain k2 where
      "client_recv socks 2 (?d\<lparr>n_socket := k1\<rparr>) = (Some [ucast a, ucast (drop_bit 8 a)], ?d\<lparr>n_socket := k2\<rparr>)" "incoming k2 = rest"
      by (auto simp: numeral_2_eq_2)
    then show ?thesis
      using Some 1(1) by (intro exI [of _ k2]) (simp add: ClientAllocateAddress_def k(1) aget_def le_address)
  qed
qed

theorem address_request_answered_witness:
  "let m = \<lparr>rpc_from = 0x8000, rpc_to = 0xc000, rpc_callnum = 5, rpc_type = 1, rpc_data0 = 7, rpc_data1 = 0, rpc_data2 = 0\<rparr> in
   \<exists>k. ClientAllocateAddress stream_sockets [] \<lparr>n_socket = (rpc_octets m @ [1, 1, 0, 0xc0], []), m_rxqueue = []\<rparr> =
     Some (Inr (Some 0xc000, \<lparr>n_socket = k, m_rxqueue = [m]\<rparr>)) \<and> fst k = []"
proof -
  let ?m = "\<lparr>rpc_from = 0x8000, rpc_to = 0xc000, rpc_callnum = 5, rpc_type = 1, rpc_data0 = 7, rpc_data1 = 0, rpc_data2 = 0\<rparr>"
  let ?ctx = "\<lparr>m_socket = ([], rpc_octets ?m), m_mutex = None, our_addresses = {}, c_pc = Allocating False\<rparr>"
  let ?b = "bridge_new 0xc000 0xffff"
  let ?c = "\<lparr>n_socket = (rpc_octets ?m @ [1, 1, 0, 0xc0], []), m_rxqueue = []\<rparr>"
  obtain ctx' b' where a: "conn_allocate stream_sockets 0 False ?ctx ?b = (ctx', b')" by fastforce
  have f: "fst (AllocateClientAddress ?b) = Some 0xc000"
    by (simp add: AllocateClientAddress_def bridge_new_def Min_pool Let_def)
  have "m_socket ?ctx = ([], rpc_octets ?m)" by simp
  from conn_allocate_stream [OF this, of 0 False ?b] a f
  have "fst (snd (SendLooped stream_sockets [NOCSWITCH_OP_ALLOC_ADDR] (n_socket ?c))) = drop (length []) (snd (m_socket ctx')) @ []"
    by (simp add: stream_sockets_def nocswitch_opcodes)
  from address_request_answered [OF stream_in_order _ _ a this, of "[?m]" "[]" "[]"] f
  show ?thesis by (simp add: Let_def deliver_stream sendable_def)
qed

text \<open>
  A message on its way to the FPGA. What a client's \<open>SendRPCMessage\<close> writes, the thread of its connection reads as the same message in two steps, and
  queues it last for the JTAG link when it comes from the debug subnet and goes elsewhere; one to a debug address is dropped, and
  a client whose message has another source is disconnected.
\<close>
lemma client_message_queued:
  assumes "in_order socks incoming" and "sendable m" and "c < length (connections s)" and "c_pc (connections s ! c) = Receiving"
    and "incoming (m_socket (connections s ! c)) = drop (length out) (snd (n_socket (ClientSendRPCMessage stream_sockets m client))) @ rest"
    and "snd (n_socket client) = out"
  shows "\<exists>t u. ConnectionThread low high socks c s = Some t \<and> ConnectionThread low high socks c t = Some u \<and>
    incoming (m_socket (connections u ! c)) = rest \<and>
    iface u = (if rpc_from m \<in> {low..high} \<and> rpc_to m \<notin> {low..high}
      then (iface s)\<lparr>m_rpcTxFifo := m_rpcTxFifo (iface s) @ [m]\<rparr> else iface s) \<and>
    c_pc (connections u ! c) = (if rpc_from m \<in> {low..high} then loop_end (g_quitting s) else Closing)"
proof -
  let ?ctx = "connections s ! c"
  have "incoming (m_socket ?ctx) = NOCSWITCH_OP_RPC # pack_bytes m @ rest"
    using assms(5,6) by (cases "n_socket client") (simp add: ClientSendRPCMessage_def client_send_def stream_sockets_def)
  then obtain k k' where k: "RecvLooped socks 1 (m_socket ?ctx) = (Some [NOCSWITCH_OP_RPC], k)" "RecvLooped socks 16 k = (Some (pack_bytes m), k')"
    "incoming k' = rest"
    using recv_next [OF assms(1), of "m_socket ?ctx" "[NOCSWITCH_OP_RPC]" "pack_bytes m @ rest"]
      recv_next [OF assms(1), of _ "pack_bytes m" rest] by fastforce
  have "rpc_type m AND 7 = rpc_type m" "rpc_data0 m AND 0x1fffff = rpc_data0 m" using assms(2) by (simp_all add: sendable_def)
  then have u: "unpack_bytes (pack_bytes m) = Inr m" by (simp add: unpack_pack_bytes)
  let ?t = "set_ctx c (?ctx\<lparr>m_socket := k, c_pc := Reading (g_quitting s)\<rparr>) s"
  have t: "ConnectionThread low high socks c s = Some ?t"
    using assms(3,4) k(1) by (simp add: ConnectionThread_def conn_receive_def aget_def nocswitch_opcodes Let_def)
  let ?b = "if rpc_from m \<in> {low..high} \<and> rpc_to m \<notin> {low..high}
      then (iface s)\<lparr>m_rpcTxFifo := m_rpcTxFifo (iface s) @ [m]\<rparr> else iface s"
  let ?pc = "if rpc_from m \<in> {low..high} then loop_end (g_quitting s) else Closing"
  have "conn_read low high socks (g_quitting s) (?ctx\<lparr>m_socket := k, c_pc := Reading (g_quitting s)\<rparr>) (iface s) =
      (?ctx\<lparr>m_socket := k', c_pc := ?pc\<rparr>, ?b)"
    using k(2) u by (auto simp: conn_read_def Let_def IsInDebugSubnet_def BridgeSendRPCMessage_def)
  then have "ConnectionThread low high socks c ?t = Some (set_ctx c (?ctx\<lparr>m_socket := k', c_pc := ?pc\<rparr>) (?t\<lparr>iface := ?b\<rparr>))"
    using assms(3) by (simp add: ConnectionThread_def set_ctx_def Let_def)
  with t show ?thesis
    using assms(3) k(3) by (intro exI [of _ ?t] exI [of _ "set_ctx c (?ctx\<lparr>m_socket := k', c_pc := ?pc\<rparr>) (?t\<lparr>iface := ?b\<rparr>)"] conjI)
      (simp_all add: set_ctx_def)
qed

lemma client_message_queued_witness:
  "let m = \<lparr>rpc_from = 0xc000, rpc_to = 0x8000, rpc_callnum = 5, rpc_type = 1, rpc_data0 = 7, rpc_data1 = 0, rpc_data2 = 0\<rparr>;
     s = (switch_new 0xc000 0xffff ())\<lparr>connections := [\<lparr>m_socket = (rpc_octets m, []), m_mutex = None, our_addresses = {0xc000}, c_pc = Receiving\<rparr>]\<rparr> in
   \<exists>t u. ConnectionThread 0xc000 0xffff stream_sockets 0 s = Some t \<and> ConnectionThread 0xc000 0xffff stream_sockets 0 t = Some u \<and>
     m_rpcTxFifo (iface u) = [m] \<and> c_pc (connections u ! 0) = Receiving"
proof -
  let ?m = "\<lparr>rpc_from = 0xc000, rpc_to = 0x8000, rpc_callnum = 5, rpc_type = 1, rpc_data0 = 7, rpc_data1 = 0, rpc_data2 = 0\<rparr>"
  let ?s = "(switch_new 0xc000 0xffff ())\<lparr>connections := [\<lparr>m_socket = (rpc_octets ?m, []), m_mutex = None, our_addresses = {0xc000}, c_pc = Receiving\<rparr>]\<rparr>"
  let ?client = "\<lparr>n_socket = ([], []), m_rxqueue = []\<rparr>"
  have m: "sendable ?m" by (simp add: sendable_def)
  have c: "0 < length (connections ?s)" "c_pc (connections ?s ! 0) = Receiving" "snd (n_socket ?client) = []" by simp_all
  have i: "fst (m_socket (connections ?s ! 0)) =
      drop (length ([] :: u8 list)) (snd (n_socket (ClientSendRPCMessage stream_sockets ?m ?client))) @ []"
    by (simp add: ClientSendRPCMessage_def client_send_def stream_sockets_def rpc_octets_def)
  show ?thesis
    using client_message_queued [OF stream_in_order m c(1,2) i c(3), of "0xc000" "0xffff"]
    by (fastforce simp: Let_def switch_new_def bridge_new_def loop_end_def)
qed

end
