(* ===== verification/Noc_Sim.thy ===== *)
theory Noc_Sim
  imports Antikernel_Prelude
begin

text \<open>
  The simulator of network topologies (\<open>src/sim/noc/\<close>): packets, hosts, the router with four neighbours and sixteen hosts of the grid, and one
  clock cycle of the simulation. Pointers to nodes are their places in the lists of routers and of hosts. The simulation ends after
  1000 cycles, so that times and counters are natural numbers here. An array index outside its array stops the simulation.
\<close>

section \<open>Packets\<close>

datatype msgType = TYPE_RPC_CALL | TYPE_RPC_RETURN | TYPE_RPC_INTERRUPT | TYPE_DMA_READ | TYPE_DMA_RDATA | TYPE_DMA_WRITE | TYPE_DMA_ACK

record NOCPacket =
  p_from :: u16
  p_to :: u16
  p_size :: nat
  p_replysize :: nat
  p_type :: msgType
  p_timeSent :: nat

definition NIC_ADDR :: u16 where "NIC_ADDR = 0x0000"
definition RAM_ADDR :: u16 where "RAM_ADDR = 0x0080"
definition CPU_ADDR :: u16 where "CPU_ADDR = 0x00ff"

record packet_stats =
  m_minLatency :: nat
  m_maxLatency :: nat
  m_totalPackets :: nat
  m_totalLatency :: nat

section \<open>Hosts and routers\<close>

datatype cpu_state = STATE_WAIT_RAM | STATE_EXECUTING

record cpu_host =
  m_state :: cpu_state
  m_cyclesExecuting :: nat
  m_cyclesWaiting :: nat

datatype nic_state = RX_STATE_IDLE | RX_STATE_WAIT_ALLOC | RX_STATE_WAIT_WRITE | RX_STATE_WAIT_CHOWN | RX_STATE_WAIT_SEND

record nic_host =
  m_rxstate :: nic_state
  m_frameBuffers :: int
  m_cyclesIdle :: nat
  m_cyclesWaitingForMalloc :: nat
  m_cyclesWaitingForWrite :: nat
  m_cyclesWaitingForChown :: nat
  m_cyclesWaitingForSend :: nat
  m_framesProcessed :: nat
  m_framesDropped :: nat
  m_framesTotal :: nat
  m_pendingFrame :: bool
  m_pendingFrameSize :: nat
  m_nextFrame :: nat
  m_nextFrameSize :: nat
  m_returnToIdle :: nat

text \<open>\<open>NOCRamHost\<close> has no behaviour of its own.\<close>

datatype host_kind = PlainHost | CpuHost cpu_host | NicHost nic_host

record NOCHost =
  m_address :: u16
  m_parent :: nat
  m_kind :: host_kind

datatype node = Router nat | Host nat

text \<open>What the two classes of routers have in common.\<close>

record NOCRouter =
  m_subnetLow :: u16
  m_subnetHigh :: u16
  m_children :: "node option list"
  m_inboxes :: "NOCPacket list"
  m_inboxValid :: "bool list"
  m_inboxForwardTime :: "nat list"
  m_outboxBlocked :: "bool list"
  m_outboxClearTime :: "nat list"
  m_rrcount :: nat

text \<open>\<open>rng\<close> is what \<open>rand()\<close> will return.\<close>

record 'r sim =
  g_time :: nat
  g_routers :: "'r list"
  g_hosts :: "NOCHost list"
  g_stats :: packet_stats
  rng :: "nat \<Rightarrow> nat"

definition new_packet :: "'r sim \<Rightarrow> u16 \<Rightarrow> u16 \<Rightarrow> nat \<Rightarrow> msgType \<Rightarrow> nat \<Rightarrow> NOCPacket" where
  "new_packet s f t sz type replysize =
     \<lparr>p_from = f, p_to = t, p_size = sz, p_replysize = replysize, p_type = type, p_timeSent = g_time s\<rparr>"

definition Processed :: "NOCPacket \<Rightarrow> 'r sim \<Rightarrow> 'r sim" where
  "Processed packet s =
     (let latency = g_time s - p_timeSent packet; st = g_stats s in
      s\<lparr>g_stats := \<lparr>m_minLatency = (if m_minLatency st > latency then latency else m_minLatency st),
        m_maxLatency = (if m_maxLatency st < latency then latency else m_maxLatency st),
        m_totalPackets = m_totalPackets st + 1, m_totalLatency = m_totalLatency st + latency\<rparr>\<rparr>)"

definition set_kind :: "nat \<Rightarrow> host_kind \<Rightarrow> 'r sim \<Rightarrow> 'r sim" where
  "set_kind h k s = s\<lparr>g_hosts := (g_hosts s)[h := (g_hosts s ! h)\<lparr>m_kind := k\<rparr>]\<rparr>"

definition set_router :: "nat \<Rightarrow> 'r \<Rightarrow> 'r sim \<Rightarrow> 'r sim" where
  "set_router i r s = s\<lparr>g_routers := (g_routers s)[i := r]\<rparr>"

definition sim_rand :: "'r sim \<Rightarrow> nat \<times> 'r sim" where
  "sim_rand s = (rng s 0, s\<lparr>rng := \<lambda>n. rng s (Suc n)\<rparr>)"

section \<open>The hosts\<close>

text \<open>
  \<open>accept\<close> is the virtual method \<open>AcceptMessage\<close> of the routers. The result of sending a message is only logged.
\<close>

type_synonym 'r acceptor = "nat \<Rightarrow> NOCPacket \<Rightarrow> node \<Rightarrow> 'r sim \<Rightarrow> (bool \<times> 'r sim) res"

definition host_send :: "'r acceptor \<Rightarrow> nat \<Rightarrow> u16 \<Rightarrow> nat \<Rightarrow> msgType \<Rightarrow> nat \<Rightarrow> 'r sim \<Rightarrow> 'r sim res" where
  "host_send accept h t sz type replysize s =
     andthen (aget (g_hosts s) h) (\<lambda>host.
     andthen (accept (m_parent host) (new_packet s (m_address host) t sz type replysize) (Host h) s) (\<lambda>(ok, s). Inr s))"

definition cpu_accept :: "nat \<Rightarrow> cpu_host \<Rightarrow> NOCPacket \<Rightarrow> 'r sim \<Rightarrow> 'r sim" where
  "cpu_accept h cpu packet s =
     (if m_state cpu = STATE_WAIT_RAM \<and> p_type packet = TYPE_DMA_RDATA
      then set_kind h (CpuHost (cpu\<lparr>m_state := STATE_EXECUTING\<rparr>)) s else s)"

definition nic_accept :: "'r acceptor \<Rightarrow> nat \<Rightarrow> nic_host \<Rightarrow> NOCPacket \<Rightarrow> 'r sim \<Rightarrow> 'r sim res" where
  "nic_accept accept h nic packet s =
     (case m_rxstate nic of
        RX_STATE_WAIT_ALLOC \<Rightarrow>
          if p_type packet = TYPE_RPC_RETURN \<and> p_from packet = RAM_ADDR
          then Inr (set_kind h (NicHost (nic\<lparr>m_frameBuffers := m_frameBuffers nic + 1, m_rxstate := RX_STATE_IDLE\<rparr>)) s)
          else Inr s
      | RX_STATE_WAIT_WRITE \<Rightarrow>
          if p_type packet = TYPE_DMA_ACK \<and> p_from packet = RAM_ADDR
          then andthen (host_send accept h RAM_ADDR 4 TYPE_RPC_CALL 4 s) (\<lambda>s.
            Inr (set_kind h (NicHost (nic\<lparr>m_rxstate := RX_STATE_WAIT_CHOWN\<rparr>)) s))
          else Inr s
      | RX_STATE_WAIT_CHOWN \<Rightarrow>
          if p_type packet = TYPE_RPC_RETURN \<and> p_from packet = RAM_ADDR
          then andthen (host_send accept h RAM_ADDR 4 TYPE_RPC_CALL 4 s) (\<lambda>s.
            Inr (set_kind h (NicHost (nic\<lparr>m_rxstate := RX_STATE_WAIT_SEND, m_returnToIdle := g_time s + 4,
              m_frameBuffers := m_frameBuffers nic - 1\<rparr>)) s))
          else Inr s
      | _ \<Rightarrow> Inr s)"

definition HostAcceptMessage :: "'r acceptor \<Rightarrow> nat \<Rightarrow> NOCPacket \<Rightarrow> 'r sim \<Rightarrow> (bool \<times> 'r sim) res" where
  "HostAcceptMessage accept h packet s =
     andthen (aget (g_hosts s) h) (\<lambda>host.
     let s = Processed packet s in
     andthen
       (case m_kind host of
          CpuHost cpu \<Rightarrow> Inr (cpu_accept h cpu packet s)
        | NicHost nic \<Rightarrow> nic_accept accept h nic packet s
        | PlainHost \<Rightarrow>
            case p_type packet of
              TYPE_RPC_CALL \<Rightarrow> host_send accept h (p_from packet) 4 TYPE_RPC_RETURN 4 s
            | TYPE_DMA_READ \<Rightarrow> host_send accept h (p_from packet) (p_replysize packet) TYPE_DMA_RDATA 4 s
            | TYPE_DMA_WRITE \<Rightarrow> host_send accept h (p_from packet) 3 TYPE_DMA_ACK 4 s
            | _ \<Rightarrow> Inr s)
       (\<lambda>s. Inr (True, s)))"

definition cpu_timestep :: "'r acceptor \<Rightarrow> nat \<Rightarrow> cpu_host \<Rightarrow> 'r sim \<Rightarrow> 'r sim res" where
  "cpu_timestep accept h cpu s =
     (let cpu = (case m_state cpu of
         STATE_WAIT_RAM \<Rightarrow> cpu\<lparr>m_cyclesWaiting := m_cyclesWaiting cpu + 1\<rparr>
       | STATE_EXECUTING \<Rightarrow> cpu\<lparr>m_cyclesExecuting := m_cyclesExecuting cpu + 1\<rparr>);
       s = set_kind h (CpuHost cpu) s in
      andthen (if g_time s = 0 then host_send accept h RAM_ADDR 3 TYPE_DMA_READ (3 + 32) s else Inr s) (\<lambda>s.
      if m_state cpu = STATE_EXECUTING then
        let (r, s) = sim_rand s in
        if r mod 100 = 0 then
          andthen (host_send accept h RAM_ADDR 3 TYPE_DMA_READ (3 + 32) s) (\<lambda>s.
            Inr (set_kind h (CpuHost (cpu\<lparr>m_state := STATE_WAIT_RAM\<rparr>)) s))
        else Inr s
      else Inr s))"

text \<open>The arrival of frames from outside, and the state machine of the receiver.\<close>

definition nic_arrival :: "nic_host \<Rightarrow> 'r sim \<Rightarrow> nic_host \<times> 'r sim" where
  "nic_arrival nic s =
     (if g_time s = m_nextFrame nic then
        let nic = nic\<lparr>m_framesTotal := m_framesTotal nic + 1\<rparr>;
            nic = (if m_pendingFrame nic then nic\<lparr>m_framesDropped := m_framesDropped nic + 1\<rparr>
              else nic\<lparr>m_framesProcessed := m_framesProcessed nic + 1, m_pendingFrame := True, m_pendingFrameSize := m_nextFrameSize nic\<rparr>);
            (r, s) = sim_rand s;
            nic = nic\<lparr>m_nextFrameSize := 64 + r mod 1436\<rparr>;
            (r, s) = sim_rand s in
        (nic\<lparr>m_nextFrame := g_time s + m_nextFrameSize nic + 8 + r mod 120\<rparr>, s)
      else (nic, s))"

definition nic_receive :: "'r acceptor \<Rightarrow> nat \<Rightarrow> nic_host \<Rightarrow> 'r sim \<Rightarrow> 'r sim res" where
  "nic_receive accept h nic s =
     (case m_rxstate nic of
        RX_STATE_IDLE \<Rightarrow>
          let nic = nic\<lparr>m_cyclesIdle := m_cyclesIdle nic + 1\<rparr> in
          if m_frameBuffers nic = 0 then
            andthen (host_send accept h RAM_ADDR 4 TYPE_RPC_CALL 4 s) (\<lambda>s.
              Inr (set_kind h (NicHost (nic\<lparr>m_rxstate := RX_STATE_WAIT_ALLOC\<rparr>)) s))
          else if m_pendingFrame nic then
            andthen (host_send accept h RAM_ADDR (3 + m_pendingFrameSize nic) TYPE_DMA_WRITE 3 s) (\<lambda>s.
              Inr (set_kind h (NicHost (nic\<lparr>m_rxstate := RX_STATE_WAIT_WRITE\<rparr>)) s))
          else Inr (set_kind h (NicHost nic) s)
      | RX_STATE_WAIT_ALLOC \<Rightarrow> Inr (set_kind h (NicHost (nic\<lparr>m_cyclesWaitingForMalloc := m_cyclesWaitingForMalloc nic + 1\<rparr>)) s)
      | RX_STATE_WAIT_WRITE \<Rightarrow> Inr (set_kind h (NicHost (nic\<lparr>m_cyclesWaitingForWrite := m_cyclesWaitingForWrite nic + 1\<rparr>)) s)
      | RX_STATE_WAIT_CHOWN \<Rightarrow> Inr (set_kind h (NicHost (nic\<lparr>m_cyclesWaitingForChown := m_cyclesWaitingForChown nic + 1\<rparr>)) s)
      | RX_STATE_WAIT_SEND \<Rightarrow>
          let nic = (if g_time s \<ge> m_returnToIdle nic then nic\<lparr>m_pendingFrame := False, m_rxstate := RX_STATE_IDLE\<rparr> else nic) in
          Inr (set_kind h (NicHost (nic\<lparr>m_cyclesWaitingForSend := m_cyclesWaitingForSend nic + 1\<rparr>)) s))"

definition nic_timestep :: "'r acceptor \<Rightarrow> nat \<Rightarrow> nic_host \<Rightarrow> 'r sim \<Rightarrow> 'r sim res" where
  "nic_timestep accept h nic s =
     andthen (if g_time s = 0 then host_send accept h RAM_ADDR 4 TYPE_RPC_CALL 4 s else Inr s) (\<lambda>s.
     let nic = (if g_time s = 0 then nic\<lparr>m_rxstate := RX_STATE_WAIT_ALLOC\<rparr> else nic); (nic, s) = nic_arrival nic s in
     nic_receive accept h nic s)"

definition HostTimestep :: "'r acceptor \<Rightarrow> nat \<Rightarrow> 'r sim \<Rightarrow> 'r sim res" where
  "HostTimestep accept h s =
     andthen (aget (g_hosts s) h) (\<lambda>host.
     case m_kind host of
       PlainHost \<Rightarrow> Inr s
     | CpuHost cpu \<Rightarrow> cpu_timestep accept h cpu s
     | NicHost nic \<Rightarrow> nic_timestep accept h nic s)"

section \<open>What the routers share\<close>

text \<open>
  The two classes of routers differ in their ports. \<open>port\<close> is the method \<open>GetPortNumber\<close> for nodes, \<open>forward\<close> the method \<open>TryForwardFrom\<close>
  and \<open>nports\<close> the size of the arrays.
\<close>

definition RouterAcceptMessage ::
  "('a NOCRouter_scheme \<Rightarrow> node \<Rightarrow> 'a NOCRouter_scheme sim \<Rightarrow> nat res) \<Rightarrow> 'a NOCRouter_scheme acceptor" where
  "RouterAcceptMessage port i packet node s =
     andthen (aget (g_routers s) i) (\<lambda>r.
     andthen (port r node s) (\<lambda>srcport.
     andthen (aget (m_inboxValid r) srcport) (\<lambda>valid.
     if valid then Inr (False, s) else
     andthen (aset (m_inboxes r) srcport packet) (\<lambda>inboxes.
     andthen (aset (m_inboxForwardTime r) srcport (g_time s + 4)) (\<lambda>times.
     Inr (True, set_router i (r\<lparr>m_inboxes := inboxes, m_inboxValid := (m_inboxValid r)[srcport := True],
       m_inboxForwardTime := times\<rparr>) s))))))"

definition empty_inbox :: "nat \<Rightarrow> nat \<Rightarrow> 'a NOCRouter_scheme sim \<Rightarrow> 'a NOCRouter_scheme sim" where
  "empty_inbox i nport s =
     (let r = g_routers s ! i in set_router i (r\<lparr>m_inboxValid := (m_inboxValid r)[nport := False]\<rparr>) s)"

definition block_outbox :: "nat \<Rightarrow> nat \<Rightarrow> 'a NOCRouter_scheme sim \<Rightarrow> 'a NOCRouter_scheme sim" where
  "block_outbox i dstport s =
     (let r = g_routers s ! i in set_router i (r\<lparr>m_outboxBlocked := (m_outboxBlocked r)[dstport := True],
        m_outboxClearTime := (m_outboxClearTime r)[dstport := g_time s + 4]\<rparr>) s)"

definition set_rrcount :: "nat \<Rightarrow> (nat \<Rightarrow> nat) \<Rightarrow> 'a NOCRouter_scheme sim \<Rightarrow> 'a NOCRouter_scheme sim" where
  "set_rrcount i f s = (let r = g_routers s ! i in set_router i (r\<lparr>m_rrcount := f (m_rrcount r)\<rparr>) s)"

definition clear_outboxes :: "nat \<Rightarrow> 'a NOCRouter_scheme \<Rightarrow> 'a NOCRouter_scheme" where
  "clear_outboxes t r =
     r\<lparr>m_outboxBlocked := map2 (\<lambda>blocked time. blocked \<and> \<not> time < t) (m_outboxBlocked r) (m_outboxClearTime r)\<rparr>"

type_synonym 'r forwarder = "nat \<Rightarrow> nat \<Rightarrow> 'r sim \<Rightarrow> (bool \<times> 'r sim) res"

text \<open>The first attempt counts up without the reduction.\<close>

definition RouterTimestep :: "'a NOCRouter_scheme forwarder \<Rightarrow> nat \<Rightarrow> nat \<Rightarrow> 'a NOCRouter_scheme sim \<Rightarrow> 'a NOCRouter_scheme sim res" where
  "RouterTimestep forward nports i s =
     andthen (aget (g_routers s) i) (\<lambda>r.
     let s = set_router i (clear_outboxes (g_time s) r) s in
     andthen (forward i (m_rrcount r) s) (\<lambda>(ok, s).
     let s = (if ok then set_rrcount i (\<lambda>n. n + 1) s else s) in
     foreach [0..<nports] (\<lambda>p s.
       andthen (forward i p s) (\<lambda>(ok, s).
       Inr (if ok then set_rrcount i (\<lambda>n. (n + 1) mod nports) s else s))) s))"

section \<open>The simulation\<close>

text \<open>The set of nodes is ordered by their places in memory: \<open>order\<close>.\<close>

definition NodeTimestep :: "'r acceptor \<Rightarrow> (nat \<Rightarrow> 'r sim \<Rightarrow> 'r sim res) \<Rightarrow> node \<Rightarrow> 'r sim \<Rightarrow> 'r sim res" where
  "NodeTimestep accept timestep node s = (case node of Router i \<Rightarrow> timestep i s | Host h \<Rightarrow> HostTimestep accept h s)"

definition SimCycle :: "(node \<Rightarrow> 'r sim \<Rightarrow> 'r sim res) \<Rightarrow> node list \<Rightarrow> 'r sim \<Rightarrow> 'r sim res" where
  "SimCycle step order s = andthen (foreach order step s) (\<lambda>s. Inr (s\<lparr>g_time := g_time s + 1\<rparr>))"

text \<open>\<open>RunSimulation\<close> is a run of 1000 cycles.\<close>

definition RunCycles :: "(node list \<Rightarrow> 'r sim \<Rightarrow> 'r sim res) \<Rightarrow> nat \<Rightarrow> node list \<Rightarrow> 'r sim \<Rightarrow> 'r sim res" where
  "RunCycles cycle n order s = foreach [0..<n] (\<lambda>i. cycle order) s"

definition new_host_kind :: "u16 \<Rightarrow> host_kind" where
  "new_host_kind addr =
     (if addr = RAM_ADDR then PlainHost
      else if addr = CPU_ADDR then CpuHost \<lparr>m_state = STATE_WAIT_RAM, m_cyclesExecuting = 0, m_cyclesWaiting = 0\<rparr>
      else if addr = NIC_ADDR then NicHost \<lparr>m_rxstate = RX_STATE_IDLE, m_frameBuffers = 0, m_cyclesIdle = 0, m_cyclesWaitingForMalloc = 0,
        m_cyclesWaitingForWrite = 0, m_cyclesWaitingForChown = 0, m_cyclesWaitingForSend = 0, m_framesProcessed = 0, m_framesDropped = 0,
        m_framesTotal = 0, m_pendingFrame = False, m_pendingFrameSize = 0, m_nextFrame = 200, m_nextFrameSize = 65, m_returnToIdle = 0\<rparr>
      else PlainHost)"

text \<open>A network before the first cycle: host \<open>a\<close> has the address \<open>a\<close>.\<close>

definition new_sim :: "(nat \<Rightarrow> nat) \<Rightarrow> 'r list \<Rightarrow> (nat \<Rightarrow> nat) \<Rightarrow> 'r sim" where
  "new_sim parent routers rand =
     \<lparr>g_time = 0, g_routers = routers,
      g_hosts = map (\<lambda>a. \<lparr>m_address = of_nat a, m_parent = parent a, m_kind = new_host_kind (of_nat a)\<rparr>) [0..<256],
      g_stats = \<lparr>m_minLatency = 0xffffffff, m_maxLatency = 0, m_totalPackets = 0, m_totalLatency = 0\<rparr>,
      rng = rand\<rparr>"

definition no_packet :: NOCPacket where
  "no_packet = \<lparr>p_from = 0, p_to = 0, p_size = 0, p_replysize = 4, p_type = TYPE_RPC_CALL, p_timeSent = 0\<rparr>"

end
