(* ===== verification/Noc_Grid.thy ===== *)
theory Noc_Grid
  imports Noc_Sim
begin

text \<open>
  The grid of routers of the network simulator (\<open>GridRouter.cpp\<close> and \<open>CreateGridNetwork\<close> of \<open>src/sim/noc/main.cpp\<close>): routing, forwarding, a clock
  cycle, and the network of 16 routers and 256 hosts.
\<close>

section \<open>The router\<close>

record grid_router = NOCRouter +
  m_neighbors :: "nat option list"
  m_xpos :: nat
  m_ypos :: nat
  m_randomRouting :: bool

type_synonym grid_sim = "grid_router sim"

definition GridRouter :: "u16 \<Rightarrow> u16 \<Rightarrow> bool \<Rightarrow> grid_router" where
  "GridRouter low high random =
     \<lparr>m_subnetLow = low, m_subnetHigh = high, m_children = replicate 16 None, m_inboxes = replicate 20 no_packet,
      m_inboxValid = replicate 20 False, m_inboxForwardTime = replicate 20 0, m_outboxBlocked = replicate 20 False,
      m_outboxClearTime = replicate 20 0, m_rrcount = 0, m_neighbors = replicate 4 None,
      m_xpos = unat (drop_bit 4 low AND 3), m_ypos = unat (drop_bit 6 low), m_randomRouting = random\<rparr>"

definition GridAddChild :: "nat \<Rightarrow> u16 \<Rightarrow> grid_router \<Rightarrow> grid_router" where
  "GridAddChild h addr r = r\<lparr>m_children := (m_children r)[unat (addr AND 0xf) := Some (Host h)]\<rparr>"

definition GridAddNeighbor :: "nat \<Rightarrow> nat \<Rightarrow> grid_router \<Rightarrow> grid_router" where
  "GridAddNeighbor direction peer r = r\<lparr>m_neighbors := (m_neighbors r)[direction := Some peer]\<rparr>"

text \<open>Ports 0 to 15 lead to the hosts, 16 to 19 to the north, east, south and west.\<close>

definition GridPortOf :: "grid_router \<Rightarrow> u16 \<Rightarrow> nat" where
  "GridPortOf r addr =
     (if addr AND 0xfff0 = m_subnetLow r then unat (addr AND 0x000f) else
      let target_ypos = unat (drop_bit 6 addr); target_xpos = unat (drop_bit 4 addr AND 3);
          dx = int target_xpos - int (m_xpos r); dy = int target_ypos - int (m_ypos r) in
      if dx > 0 \<and> dy = 0 then 17
      else if dx < 0 \<and> dy = 0 then 19
      else if dx = 0 \<and> dy > 0 then 18
      else if dx = 0 \<and> dy < 0 then 16
      else if \<not> m_randomRouting r then if dx > 0 then 17 else 19
      else if odd (target_xpos + target_ypos + m_xpos r + m_ypos r) then if dx > 0 then 17 else 19
      else if dy > 0 then 18 else 16)"

definition GridPortNumber :: "grid_router \<Rightarrow> node \<Rightarrow> grid_sim \<Rightarrow> nat res" where
  "GridPortNumber r node s =
     (case node of
        Router j \<Rightarrow> andthen (aget (g_routers s) j) (\<lambda>peer. Inr (GridPortOf r (m_subnetLow peer)))
      | Host h \<Rightarrow> andthen (aget (g_hosts s) h) (\<lambda>host. Inr (GridPortOf r (m_address host))))"

definition GridAcceptMessage :: "grid_router acceptor" where
  "GridAcceptMessage = RouterAcceptMessage GridPortNumber"

text \<open>The result of handing a packet on is not looked at.\<close>

definition GridTryForwardFrom :: "nat \<Rightarrow> nat \<Rightarrow> grid_sim \<Rightarrow> (bool \<times> grid_sim) res" where
  "GridTryForwardFrom i nport s =
     andthen (aget (g_routers s) i) (\<lambda>r.
     andthen (aget (m_inboxValid r) nport) (\<lambda>valid.
     if \<not> valid then Inr (False, s) else
     andthen (aget (m_inboxForwardTime r) nport) (\<lambda>time.
     if time > g_time s then Inr (False, s) else
     andthen (aget (m_inboxes r) nport) (\<lambda>packet.
     let dstport = GridPortOf r (p_to packet) in
     andthen (aget (m_outboxBlocked r) dstport) (\<lambda>blocked.
     if blocked then Inr (False, s) else
     if dstport < 16 then
       case m_children r ! dstport of
         Some (Host h) \<Rightarrow>
           andthen (HostAcceptMessage GridAcceptMessage h packet s) (\<lambda>(ok, s).
             Inr (True, empty_inbox i nport (block_outbox i dstport s)))
       | _ \<Rightarrow> Inr (False, empty_inbox i nport s)
     else
       case m_neighbors r ! (dstport mod 4) of
         Some j \<Rightarrow>
           andthen (GridAcceptMessage j packet (Router i) s) (\<lambda>(ok, s).
             Inr (True, empty_inbox i nport (block_outbox i dstport s)))
       | None \<Rightarrow> Inr (False, empty_inbox i nport s))))))"

definition GridTimestep :: "nat \<Rightarrow> grid_sim \<Rightarrow> grid_sim res" where
  "GridTimestep = RouterTimestep GridTryForwardFrom 20"

definition GridCycle :: "node list \<Rightarrow> grid_sim \<Rightarrow> grid_sim res" where
  "GridCycle = SimCycle (NodeTimestep GridAcceptMessage GridTimestep)"

section \<open>The network\<close>

text \<open>Router \<open>4 y + x\<close> stands at \<open>(x, y)\<close>.\<close>

definition grid_addr :: "nat \<Rightarrow> nat \<Rightarrow> u16" where
  "grid_addr x y = push_bit 6 (of_nat y) OR push_bit 4 (of_nat x)"

definition grid_children :: "nat \<Rightarrow> nat \<Rightarrow> grid_router \<Rightarrow> grid_router" where
  "grid_children x y r = fold (\<lambda>i. GridAddChild (unat (grid_addr x y OR of_nat i)) (grid_addr x y OR of_nat i)) [0..<16] r"

definition grid_connect :: "nat \<Rightarrow> nat \<Rightarrow> grid_router \<Rightarrow> grid_router" where
  "grid_connect x y r =
     (let r = (if y > 0 then GridAddNeighbor 0 (4 * (y - 1) + x) r else r);
          r = (if x < 3 then GridAddNeighbor 1 (4 * y + (x + 1)) r else r);
          r = (if y < 3 then GridAddNeighbor 2 (4 * (y + 1) + x) r else r) in
      if x > 0 then GridAddNeighbor 3 (4 * y + (x - 1)) r else r)"

definition CreateGridNetwork :: "bool \<Rightarrow> (nat \<Rightarrow> nat) \<Rightarrow> grid_sim" where
  "CreateGridNetwork randomize rand =
     new_sim (\<lambda>a. a div 16)
       (map (\<lambda>i. let x = i mod 4; y = i div 4; addr = grid_addr x y in
         grid_connect x y (grid_children x y (GridRouter addr (addr + 15) randomize))) [0..<16]) rand"

end
