(* ===== verification/Noc_Hosts.thy ===== *)
theory Noc_Hosts
  imports Noc_Sim
begin

text \<open>
  What holds in the network simulator for both classes of routers. Three locales state what the hosts rely on when they hand a packet to
  their router (\<open>hosts_network\<close>), what a cycle relies on when a router forwards packets (\<open>router_network\<close>), and what makes a packet come
  nearer to its destination with every hop (\<open>routing\<close>).
\<close>

section \<open>Routes\<close>

text \<open>The node after \<open>n\<close> hops, where a hop leads to the next router or, at the end of the way, nowhere.\<close>

primrec noc_walk :: "('n \<Rightarrow> 'n option) \<Rightarrow> nat \<Rightarrow> 'n \<Rightarrow> 'n option" where
  "noc_walk hop 0 i = Some i"
| "noc_walk hop (Suc n) i = Option.bind (hop i) (noc_walk hop n)"

locale routing =
  fixes hop :: "'a \<Rightarrow> 'n \<Rightarrow> 'n option"
    and distance :: "'a \<Rightarrow> 'n \<Rightarrow> nat"
    and known :: "'a \<Rightarrow> 'n \<Rightarrow> bool"
  assumes closer: "known a i \<Longrightarrow> distance a i = Suc n \<Longrightarrow> \<exists>j. hop a i = Some j \<and> known a j \<and> distance a j = n"
begin

lemma arrives: "known a i \<Longrightarrow> \<exists>j. noc_walk (hop a) (distance a i) i = Some j \<and> known a j \<and> distance a j = 0"
proof (induction "distance a i" arbitrary: i)
  case 0
  then show ?case by (metis noc_walk.simps(1))
next
  case (Suc n)
  from closer [OF Suc.prems Suc.hyps(2) [symmetric]]
  obtain j where j: "hop a i = Some j" "known a j" "distance a j = n" by blast
  then show ?case using Suc.hyps(1) [of j] Suc.hyps(2) [symmetric] by simp
qed

end

section \<open>Children\<close>

text \<open>Children that are added one after another to a router of which \<open>P\<close> holds.\<close>

lemma fold_children:
  fixes r :: "'a NOCRouter_scheme"
  assumes add: "\<And>i t. i < n \<Longrightarrow> P t \<Longrightarrow> f i t = t\<lparr>m_children := (m_children t)[i := g i]\<rparr>"
    and P: "\<And>cs. P (r\<lparr>m_children := cs\<rparr>)" and n: "n \<le> length (m_children r)"
  shows "fold f [0..<n] r = r\<lparr>m_children := map g [0..<n] @ drop n (m_children r)\<rparr>"
  using add n
proof (induction n)
  case 0
  then show ?case by simp
next
  case (Suc n)
  have "drop n (m_children r) = m_children r ! n # drop (Suc n) (m_children r)" using Suc.prems(2) by (simp add: Cons_nth_drop_Suc)
  with Suc P show ?case by (simp add: list_update_append)
qed

section \<open>Hosts\<close>

text \<open>The packets that wait are addressed to hosts of the network, and so are their answers.\<close>

definition packet_known :: "NOCPacket \<Rightarrow> bool" where
  "packet_known p \<longleftrightarrow> unat (p_to p) < 256 \<and> unat (p_from p) < 256"

definition packets_known :: "'a NOCRouter_scheme \<Rightarrow> bool" where
  "packets_known r \<longleftrightarrow> (\<forall>p \<in> set (m_inboxes r). packet_known p)"

definition hosts_ok :: "(nat \<Rightarrow> nat) \<Rightarrow> 'r sim \<Rightarrow> bool" where
  "hosts_ok parent s \<longleftrightarrow>
     length (g_hosts s) = 256 \<and> (\<forall>a < 256. m_address (g_hosts s ! a) = of_nat a \<and> m_parent (g_hosts s ! a) = parent a)"

lemma unat_addr: "a < 256 \<Longrightarrow> unat (of_nat a :: u16) = a"
  by (simp add: unat_of_nat take_bit_nat_eq_self)

lemma host_updates [simp]:
  "g_routers (set_kind h k s) = g_routers s" "g_time (set_kind h k s) = g_time s"
  "g_routers (Processed packet s) = g_routers s" "g_time (Processed packet s) = g_time s" "g_hosts (Processed packet s) = g_hosts s"
  by (simp_all add: set_kind_def Processed_def Let_def)

lemma set_router_fields [simp]:
  "g_time (set_router i r s) = g_time s" "g_hosts (set_router i r s) = g_hosts s" "rng (set_router i r s) = rng s"
  "g_stats (set_router i r s) = g_stats s" "g_routers (set_router i r s) = (g_routers s)[i := r]"
  by (simp_all add: set_router_def)

lemma hosts_ok_updates:
  "hosts_ok parent s \<Longrightarrow> hosts_ok parent (set_kind h k s)" "hosts_ok parent (Processed packet s) = hosts_ok parent s"
  "hosts_ok parent (s\<lparr>rng := f\<rparr>) = hosts_ok parent s" "hosts_ok parent (s\<lparr>g_time := t\<rparr>) = hosts_ok parent s"
  "hosts_ok parent (set_router i r s) = hosts_ok parent s"
  by (cases "h < length (g_hosts s)") (auto simp: hosts_ok_def set_kind_def nth_list_update)

locale hosts_network =
  fixes accept :: "'r acceptor"
    and I :: "'r sim \<Rightarrow> bool"
    and parent :: "nat \<Rightarrow> nat"
  assumes hosts: "I s \<Longrightarrow> hosts_ok parent s"
    and kinds: "I s \<Longrightarrow> I (set_kind h k s)"
    and stats: "I s \<Longrightarrow> I (Processed packet s)"
    and rand: "I s \<Longrightarrow> I (s\<lparr>rng := f\<rparr>)"
    and accepts: "I s \<Longrightarrow> h < 256 \<Longrightarrow> packet_known packet \<Longrightarrow>
      wp (\<lambda>e. False) (\<lambda>(ok, s). I s) (accept (parent h) packet (Host h) s)"
begin

lemma host_at: "I s \<Longrightarrow> h < 256 \<Longrightarrow> aget (g_hosts s) h = Inr (g_hosts s ! h)"
  using hosts [of s] by (simp add: hosts_ok_def)

lemma send_ok:
  assumes "I s" "h < 256" "unat t < 256"
  shows "wp (\<lambda>e. False) I (host_send accept h t sz type replysize s)"
proof -
  have "m_address (g_hosts s ! h) = of_nat h" "m_parent (g_hosts s ! h) = parent h"
    using hosts [OF assms(1)] assms(2) by (simp_all add: hosts_ok_def)
  moreover have "packet_known (new_packet s (of_nat h) t sz type replysize)"
    using assms by (simp add: packet_known_def new_packet_def unat_addr)
  ultimately show ?thesis
    using accepts [OF assms(1,2)] by (simp add: host_send_def host_at [OF assms(1,2)] split_def)
qed

lemma ram_address: "unat RAM_ADDR < 256"
  by (simp add: RAM_ADDR_def)

lemmas send_ram = send_ok [OF _ _ ram_address]

lemma accept_ok:
  assumes "I s" "h < 256" "packet_known packet"
  shows "wp (\<lambda>e. False) (\<lambda>(ok, t). ok \<and> I t) (HostAcceptMessage accept h packet s)"
proof -
  have I: "I (Processed packet s)" by (rule stats) fact
  have "unat (p_from packet) < 256" using assms(3) by (simp add: packet_known_def)
  then have answer: "wp (\<lambda>e. False) I (host_send accept h (p_from packet) sz type replysize (Processed packet s))" for sz type replysize
    by (rule send_ok [OF I assms(2)])
  have nic: "wp (\<lambda>e. False) I (nic_accept accept h nic packet (Processed packet s))" for nic
    using I by (auto simp: nic_accept_def kinds intro!: wp_mono [OF send_ram [OF I assms(2)]] split: nic_state.split)
  show ?thesis
    using I answer nic kinds
    by (auto simp: HostAcceptMessage_def host_at [OF assms(1,2)] cpu_accept_def Let_def split: host_kind.split msgType.split)
qed

lemma cpu_timestep_ok:
  assumes "I s" "h < 256" shows "wp (\<lambda>e. False) I (cpu_timestep accept h cpu s)"
proof -
  note send = send_ram [OF _ assms(2)]
  show ?thesis
    using assms(1) by (auto simp: cpu_timestep_def Let_def sim_rand_def intro!: kinds rand send wp_mono [OF send] split: cpu_state.split)
qed

lemma nic_timestep_ok:
  assumes "I s" "h < 256" shows "wp (\<lambda>e. False) I (nic_timestep accept h nic s)"
proof -
  note send = send_ram [OF _ assms(2)]
  have receive: "wp (\<lambda>e. False) I (nic_receive accept h nic s)" if "I s" for nic s
    using that by (auto simp: nic_receive_def Let_def intro!: kinds wp_mono [OF send] split: nic_state.split)
  have arrival: "I (snd (nic_arrival nic s))" if "I s" for nic s
    using that by (simp add: nic_arrival_def Let_def sim_rand_def rand)
  have "wp (\<lambda>e. False) I (case nic_arrival nic s of (nic, s) \<Rightarrow> nic_receive accept h nic s)" if "I s" for nic s
    using receive [OF arrival [OF that, of nic]] by (simp add: split_def)
  then show ?thesis
    using assms(1) by (auto simp: nic_timestep_def Let_def intro!: wp_mono [OF send])
qed

lemma timestep_ok:
  assumes "I s" "h < 256" shows "wp (\<lambda>e. False) I (HostTimestep accept h s)"
  using assms cpu_timestep_ok nic_timestep_ok by (auto simp: HostTimestep_def host_at split: host_kind.split)

end

section \<open>Cycles\<close>

lemma wp_total: "wp (\<lambda>e. False) Q m \<Longrightarrow> \<exists>x. m = Inr x \<and> Q x"
  by (simp add: wp_def split: sum.splits)

lemma foreach_single: "foreach [i] f = f i"
  by (auto simp: andthen_def split: sum.splits)

lemma new_sim_fields [simp]:
  "g_time (new_sim parent routers rand) = 0" "g_routers (new_sim parent routers rand) = routers"
  "hosts_ok parent (new_sim parent routers rand)"
  by (simp_all add: hosts_ok_def) (simp_all add: new_sim_def del: upt_rec_numeral)

definition node_ok :: "nat \<Rightarrow> node \<Rightarrow> bool" where
  "node_ok n node \<longleftrightarrow> (case node of Router i \<Rightarrow> i < n | Host h \<Rightarrow> h < 256)"

text \<open>Time and the round-robin counters of all routers but some are kept.\<close>

definition counters_kept :: "nat set \<Rightarrow> 'a NOCRouter_scheme sim \<Rightarrow> 'a NOCRouter_scheme sim \<Rightarrow> bool" where
  "counters_kept js s s' \<longleftrightarrow> g_time s' = g_time s \<and> length (g_routers s') = length (g_routers s) \<and>
     (\<forall>j < length (g_routers s). j \<notin> js \<longrightarrow> m_rrcount (g_routers s' ! j) = m_rrcount (g_routers s ! j))"

lemma counters_kept_trans: "counters_kept js s s' \<Longrightarrow> counters_kept js s' s'' \<Longrightarrow> counters_kept js s s''"
  by (simp add: counters_kept_def)

lemma counters_kept_mono: "counters_kept {} s s' \<Longrightarrow> counters_kept js s s'"
  by (simp add: counters_kept_def)

lemma counters_kept_set_router:
  "m_rrcount r = m_rrcount (g_routers s ! i) \<Longrightarrow> counters_kept {} s0 s \<Longrightarrow> counters_kept {} s0 (set_router i r s)"
  unfolding counters_kept_def by (simp add: nth_list_update) (metis nth_list_update_eq nth_list_update_neq)

text \<open>A router of the order whose counter is one past its inboxes.\<close>

definition overrun_router :: "nat \<Rightarrow> node set \<Rightarrow> 'a NOCRouter_scheme sim \<Rightarrow> bool" where
  "overrun_router nports nodes s \<longleftrightarrow> (\<exists>i. Router i \<in> nodes \<and> m_rrcount (g_routers s ! i) = nports)"

locale router_network =
  fixes accept :: "'a NOCRouter_scheme acceptor"
    and forward :: "'a NOCRouter_scheme forwarder"
    and nports :: nat
    and nrouters :: nat
    and ok :: "'a NOCRouter_scheme sim \<Rightarrow> bool"
  assumes nports: "0 < nports"
    and routers: "ok s \<Longrightarrow> length (g_routers s) = nrouters"
    and counters: "ok s \<Longrightarrow> i < nrouters \<Longrightarrow> m_rrcount (g_routers s ! i) \<le> nports"
    and clears: "ok s \<Longrightarrow> i < nrouters \<Longrightarrow> ok (set_router i (clear_outboxes t (g_routers s ! i)) s)"
    and counts: "ok s \<Longrightarrow> i < nrouters \<Longrightarrow> f (m_rrcount (g_routers s ! i)) \<le> nports \<Longrightarrow> ok (set_rrcount i f s)"
    and times: "ok s \<Longrightarrow> ok (s\<lparr>g_time := t\<rparr>)"
    and forwards: "ok s \<Longrightarrow> i < nrouters \<Longrightarrow> p < nports \<Longrightarrow> wp (\<lambda>e. False) (\<lambda>(b, s'). ok s' \<and> counters_kept {} s s') (forward i p s)"
    and overruns: "ok s \<Longrightarrow> i < nrouters \<Longrightarrow> forward i nports s = Inl OutOfBounds"
    and host_steps: "ok s \<Longrightarrow> h < 256 \<Longrightarrow> wp (\<lambda>e. False) (\<lambda>s'. ok s' \<and> counters_kept {} s s') (HostTimestep accept h s)"
begin

lemma forward_step:
  assumes "ok s" "i < nrouters" "p < nports"
  obtains b s' where "forward i p s = Inr (b, s')" "ok s'" "counters_kept {} s s'"
  using wp_total [OF forwards [OF assms]] by auto

lemma count_step:
  assumes "ok s" "i < nrouters" "f (m_rrcount (g_routers s ! i)) \<le> nports" "counters_kept {i} s0 s"
  shows "ok (set_rrcount i f s)" "counters_kept {i} s0 (set_rrcount i f s)"
  using counts [of s i f] assms by (simp_all add: counters_kept_def set_rrcount_def Let_def)

lemma clear_step:
  assumes "ok s" "i < nrouters"
  shows "ok (set_router i (clear_outboxes t (g_routers s ! i)) s)"
    "counters_kept {} s (set_router i (clear_outboxes t (g_routers s ! i)) s)"
    "g_routers (set_router i (clear_outboxes t (g_routers s ! i)) s) ! i = clear_outboxes t (g_routers s ! i)"
  using clears [OF assms] routers [OF assms(1)] assms(2)
  by (auto intro!: counters_kept_set_router simp: clear_outboxes_def) (simp_all add: counters_kept_def)

lemma router_timestep_ok:
  assumes ok: "ok s" and i: "i < nrouters" and count: "m_rrcount (g_routers s ! i) < nports"
  obtains s' where "RouterTimestep forward nports i s = Inr s'" "ok s'" "counters_kept {i} s s'"
proof -
  define s1 where "s1 = set_router i (clear_outboxes (g_time s) (g_routers s ! i)) s"
  note s1 = clear_step(1,2) [OF ok i, of "g_time s", folded s1_def]
  obtain b s2 where s2: "forward i (m_rrcount (g_routers s ! i)) s1 = Inr (b, s2)" "ok s2" "counters_kept {} s1 s2"
    by (rule forward_step [OF s1(1) i count])
  define s3 where "s3 = (if b then set_rrcount i (\<lambda>n. n + 1) s2 else s2)"
  have evo: "counters_kept {} s s2" by (rule counters_kept_trans [OF s1(2) s2(3)])
  then have "m_rrcount (g_routers s2 ! i) + 1 \<le> nports" using count i routers [OF ok] by (simp add: counters_kept_def)
  then have ok3: "ok s3 \<and> counters_kept {i} s s3"
    using s2(2) count_step [OF s2(2) i _ counters_kept_mono [OF evo], of "\<lambda>n. n + 1"] counters_kept_mono [OF evo] by (simp add: s3_def)
  have loop: "wp (\<lambda>e. False) (\<lambda>t. ok t \<and> counters_kept {i} s t)
      (foreach [0..<nports] (\<lambda>p s. andthen (forward i p s) (\<lambda>(ok, s). Inr (if ok then set_rrcount i (\<lambda>n. (n + 1) mod nports) s else s))) s3)"
  proof (rule wp_foreach_inv [where I = "\<lambda>t. ok t \<and> counters_kept {i} s t", OF ok3])
    fix p t assume p: "p \<in> set [0..<nports]" and t: "ok t \<and> counters_kept {i} s t"
    then obtain b t' where t': "forward i p t = Inr (b, t')" "ok t'" "counters_kept {} t t'"
      by (elim forward_step [OF conjunct1 i]) simp
    then have kept: "counters_kept {i} s t'" using t counters_kept_trans [OF _ counters_kept_mono] by blast
    have "(m_rrcount (g_routers t' ! i) + 1) mod nports \<le> nports" using nports by (simp add: less_imp_le)
    then show "wp (\<lambda>e. False) (\<lambda>t. ok t \<and> counters_kept {i} s t)
        (andthen (forward i p t) (\<lambda>(ok, s). Inr (if ok then set_rrcount i (\<lambda>n. (n + 1) mod nports) s else s)))"
      using count_step [OF t'(2) i _ kept, of "\<lambda>n. (n + 1) mod nports"] t'(2) kept by (simp add: t'(1))
  qed simp
  have "RouterTimestep forward nports i s = foreach [0..<nports] (\<lambda>p s. andthen (forward i p s) (\<lambda>(ok, s).
      Inr (if ok then set_rrcount i (\<lambda>n. (n + 1) mod nports) s else s))) s3"
    using i routers [OF ok] by (simp add: RouterTimestep_def Let_def s1_def [symmetric] s2(1) s3_def)
  with wp_total [OF loop] show thesis using that by auto
qed

lemma router_timestep_overrun:
  assumes "ok s" "i < nrouters" "m_rrcount (g_routers s ! i) = nports"
  shows "RouterTimestep forward nports i s = Inl OutOfBounds"
  using assms routers [OF assms(1)] overruns [OF clear_step(1) [OF assms(1,2)] assms(2)] by (simp add: RouterTimestep_def Let_def)

abbreviation step :: "node \<Rightarrow> 'a NOCRouter_scheme sim \<Rightarrow> 'a NOCRouter_scheme sim res" where
  "step \<equiv> NodeTimestep accept (RouterTimestep forward nports)"

lemma node_step:
  assumes ok: "ok s" and node: "node_ok nrouters node" and free: "\<not> overrun_router nports {node} s"
  obtains s' where "step node s = Inr s'" "ok s'" "counters_kept {i. node = Router i} s s'"
proof (cases node)
  case (Router i)
  then have i: "i < nrouters" using node by (simp add: node_ok_def)
  have "m_rrcount (g_routers s ! i) < nports"
    using counters [OF ok i] free Router by (auto simp: overrun_router_def le_less)
  then obtain s' where s': "RouterTimestep forward nports i s = Inr s'" "ok s'" "counters_kept {i} s s'"
    by (rule router_timestep_ok [OF ok i])
  have "{j. node = Router j} = {i}" using Router by auto
  with s' show thesis by (intro that [of s']) (simp_all add: NodeTimestep_def Router)
next
  case (Host h)
  then have "h < 256" using node by (simp add: node_ok_def)
  from wp_total [OF host_steps [OF ok this]]
  obtain s' where s': "HostTimestep accept h s = Inr s'" "ok s'" "counters_kept {} s s'" by blast
  show thesis by (rule that [of s']) (use s' Host in \<open>simp_all add: NodeTimestep_def\<close>)
qed

lemma nodes_step:
  assumes "ok s" "\<forall>node \<in> set order. node_ok nrouters node" "distinct order"
  shows "if overrun_router nports (set order) s then foreach order step s = Inl OutOfBounds
    else \<exists>s'. foreach order step s = Inr s' \<and> ok s' \<and> g_time s' = g_time s"
  using assms
proof (induction order arbitrary: s)
  case Nil
  then show ?case by (simp add: overrun_router_def)
next
  case (Cons node order)
  show ?case
  proof (cases "overrun_router nports {node} s")
    case True
    then obtain i where "node = Router i" "i < nrouters" "m_rrcount (g_routers s ! i) = nports"
      using Cons.prems(2) by (auto simp: overrun_router_def node_ok_def)
    then show ?thesis using router_timestep_overrun [OF Cons.prems(1)] True by (auto simp: NodeTimestep_def overrun_router_def)
  next
    case False
    obtain s' where s': "step node s = Inr s'" "ok s'" "counters_kept {i. node = Router i} s s'"
      by (rule node_step [OF Cons.prems(1) _ False]) (use Cons.prems(2) in simp_all)
    have kept: "m_rrcount (g_routers s' ! i) = m_rrcount (g_routers s ! i)" if "Router i \<in> set order" for i
    proof -
      have "i < length (g_routers s)" using that Cons.prems(2) routers [OF Cons.prems(1)] by (force simp: node_ok_def)
      moreover have "node \<noteq> Router i" using that Cons.prems(3) by auto
      ultimately show ?thesis using s'(3) by (simp add: counters_kept_def)
    qed
    have "overrun_router nports (set (node # order)) s \<longleftrightarrow> overrun_router nports (set order) s"
      using False by (auto simp: overrun_router_def)
    also have "\<dots> \<longleftrightarrow> overrun_router nports (set order) s'"
      unfolding overrun_router_def using kept by (metis (no_types, lifting))
    finally have "overrun_router nports (set (node # order)) s \<longleftrightarrow> overrun_router nports (set order) s'" .
    then show ?thesis using Cons.IH [OF s'(2)] Cons.prems s'(1,3) by (simp add: counters_kept_def cong: if_cong)
  qed
qed

lemma cycle_step:
  assumes "ok s" "\<forall>node \<in> set order. node_ok nrouters node" "distinct order"
  shows "if overrun_router nports (set order) s then SimCycle step order s = Inl OutOfBounds
    else \<exists>s'. SimCycle step order s = Inr s' \<and> ok s' \<and> g_time s' = g_time s + 1"
  using nodes_step [OF assms] by (auto simp: SimCycle_def times split: if_splits)

lemma runs_stop:
  assumes "ok s" "g_time s = 0" "\<forall>node \<in> set order. node_ok nrouters node" "distinct order"
  shows "case RunCycles (SimCycle step) n order s of
      Inr t \<Rightarrow> ok t \<and> g_time t = n
    | Inl h \<Rightarrow> h = OutOfBounds \<and> (\<exists>m < n. \<exists>t. RunCycles (SimCycle step) m order s = Inr t \<and> overrun_router nports (set order) t)"
proof (induction n)
  case 0
  show ?case using assms by (simp add: RunCycles_def)
next
  case (Suc n)
  let ?run = "\<lambda>n. RunCycles (SimCycle step) n order s"
  have run: "?run (Suc n) = andthen (?run n) (SimCycle step order)"
    by (simp add: RunCycles_def foreach_append foreach_single del: foreach.simps)
  show ?case
  proof (cases "?run n")
    case (Inl h)
    then show ?thesis using Suc run by (auto intro: less_SucI)
  next
    case (Inr t)
    then have t: "ok t" "g_time t = n" using Suc by simp_all
    then show ?thesis
      using cycle_step [OF t(1) assms(3,4)] run Inr by (cases "overrun_router nports (set order) t") auto
  qed
qed

end

end
