(* ===== verification/Noc_Routes.thy ===== *)
theory Noc_Routes
  imports Noc_Grid Noc_Hosts
begin

text \<open>
  Routing in the grid of the network simulator: the shape of the network, which every cycle of the simulation keeps, and the way a packet takes.
\<close>

section \<open>Addresses\<close>

text \<open>Addresses as numbers: \<open>16 t + k\<close> is host \<open>k\<close> of router \<open>t\<close>.\<close>

lemma u16_masks_nat: "unat (w AND 3) = unat (w :: u16) mod 4" "unat (w AND 0xf) = unat w mod 16"
proof -
  have "w AND 3 = take_bit 2 w" "w AND 0xf = take_bit 4 w" by (simp_all add: take_bit_eq_mask mask_numeral)
  then show "unat (w AND 3) = unat w mod 4" "unat (w AND 0xf) = unat w mod 16"
    by (simp_all only: unsigned_take_bit_eq) (simp_all add: take_bit_eq_mod)
qed

lemma unat_drop: "unat (drop_bit n w) = unat (w :: u16) div 2 ^ n"
  unfolding unat_drop_bit_eq by (rule drop_bit_eq_div)

lemma addr_parts:
  assumes "a < 256"
  shows "unat (drop_bit 4 (of_nat a :: u16) AND 3) = a div 16 mod 4" "unat (drop_bit 6 (of_nat a :: u16)) = a div 64"
    "unat ((of_nat a :: u16) AND 0xf) = a mod 16"
  using assms by (simp_all add: u16_masks_nat unat_drop unat_addr)

lemma subnet_mask: "(w :: u16) AND 0xfff0 = push_bit 4 (drop_bit 4 w)"
proof -
  have "w AND push_bit 4 (mask 12) = push_bit 4 (drop_bit 4 w)"
    by (rule bit_word_eqI) (auto simp: bit_simps)
  then show ?thesis by (simp add: mask_numeral)
qed

lemma low_addr: "k < 16 \<Longrightarrow> (of_nat k :: u16) = take_bit 4 (of_nat k)"
  by (simp add: take_bit_of_nat take_bit_nat_eq_self)

lemma high_addr: "(of_nat (16 * i) :: u16) = push_bit 4 (of_nat i)"
  by (simp add: push_bit_eq_mult)

lemma grid_host_addr: "k < 16 \<Longrightarrow> of_nat (16 * i) OR of_nat k = (of_nat (16 * i + k) :: u16)"
proof -
  assume k: "k < 16"
  have "\<not> bit (of_nat (16 * i) :: u16) n \<or> \<not> bit (of_nat k :: u16) n" for n
    unfolding high_addr by (subst low_addr [OF k]) (auto simp: bit_simps)
  from disjunctive_add [OF this] show ?thesis by simp
qed

lemma addr_router:
  assumes "a < 256" and "i < 16"
  shows "(of_nat a :: u16) AND 0xfff0 = of_nat (16 * i) \<longleftrightarrow> a div 16 = i"
proof -
  have "unat (push_bit 4 (drop_bit 4 (of_nat a :: u16))) = a div 16 * 16"
    using assms(1) by (simp add: push_bit_eq_mult unat_word_ariths unat_drop unat_addr)
  then have "unat ((of_nat a :: u16) AND 0xfff0) = a div 16 * 16" unfolding subnet_mask .
  then show ?thesis using unat_addr [of "16 * i"] assms by (auto simp: word_unat_eq_iff)
qed

section \<open>The shape of the network\<close>

definition grid_neighbors :: "nat \<Rightarrow> nat option list" where
  "grid_neighbors i =
     [if i div 4 > 0 then Some (i - 4) else None, if i mod 4 < 3 then Some (i + 1) else None,
      if i div 4 < 3 then Some (i + 4) else None, if i mod 4 > 0 then Some (i - 1) else None]"

definition grid_shape :: "bool \<Rightarrow> nat \<Rightarrow> grid_router \<Rightarrow> bool" where
  "grid_shape random i r \<longleftrightarrow>
     m_subnetLow r = of_nat (16 * i) \<and> m_xpos r = i mod 4 \<and> m_ypos r = i div 4 \<and> m_randomRouting r = random \<and>
     m_children r = map (\<lambda>k. Some (Host (16 * i + k))) [0..<16] \<and> m_neighbors r = grid_neighbors i \<and>
     length (m_inboxes r) = 20 \<and> length (m_inboxValid r) = 20 \<and> length (m_inboxForwardTime r) = 20 \<and>
     length (m_outboxBlocked r) = 20 \<and> length (m_outboxClearTime r) = 20 \<and> m_rrcount r \<le> 20"

definition grid_ok :: "bool \<Rightarrow> grid_sim \<Rightarrow> bool" where
  "grid_ok random s \<longleftrightarrow>
     length (g_routers s) = 16 \<and> (\<forall>i < 16. grid_shape random i (g_routers s ! i) \<and> packets_known (g_routers s ! i)) \<and>
     hosts_ok (\<lambda>a. a div 16) s"

lemma grid_addr_eq: "x < 4 \<Longrightarrow> y < 4 \<Longrightarrow> grid_addr x y = of_nat (16 * (4 * y + x))"
  by (auto simp: grid_addr_def less_Suc_eq numeral_eq_Suc)

lemma grid_children_eq:
  assumes "x < 4" "y < 4" "length (m_children r) = 16"
  shows "grid_children x y r = r\<lparr>m_children := map (\<lambda>k. Some (Host (16 * (4 * y + x) + k))) [0..<16]\<rparr>"
proof -
  let ?i = "4 * y + x" let ?add = "\<lambda>k. GridAddChild (unat (grid_addr x y OR of_nat k)) (grid_addr x y OR of_nat k)"
  have a: "grid_addr x y OR of_nat k = of_nat (16 * ?i + k)" "16 * ?i + k < 256" if "k < 16" for k
    using assms(1,2) that by (simp_all only: grid_addr_eq grid_host_addr) simp
  have add: "?add k t = t\<lparr>m_children := (m_children t)[k := Some (Host (16 * ?i + k))]\<rparr>" if "k < 16" for k t
  proof -
    have "(16 * ?i + k) mod 16 = k" using that by (simp only: mod_mult_self4 mod_less)
    with a [OF that] show ?thesis by (simp add: GridAddChild_def addr_parts unat_addr del: of_nat_add of_nat_mult)
  qed
  from fold_children [where P = "\<lambda>_. True" and f = ?add and n = 16 and r = r, OF add] assms(3)
  show ?thesis by (simp add: grid_children_def)
qed

lemma grid_xy [simp]: "x < 4 \<Longrightarrow> (4 * y + x) div 4 = y" "x < 4 \<Longrightarrow> (4 * y + x) mod 4 = (x :: nat)"
  by simp_all

lemma grid_neighbors_xy:
  assumes "x < 4"
  shows "grid_neighbors (4 * y + x) =
      [if 0 < y then Some (4 * (y - 1) + x) else None, if x < 3 then Some (4 * y + (x + 1)) else None,
       if y < 3 then Some (4 * (y + 1) + x) else None, if 0 < x then Some (4 * y + (x - 1)) else None]"
  unfolding grid_neighbors_def grid_xy [OF assms] by auto

lemma grid_connect_eq:
  assumes "x < 4" "y < 4" "m_neighbors r = replicate 4 None"
  shows "grid_connect x y r = r\<lparr>m_neighbors := grid_neighbors (4 * y + x)\<rparr>"
proof -
  have n: "m_neighbors r = [None, None, None, None]" using assms(3) by (simp add: numeral_eq_Suc)
  have r: "r = r\<lparr>m_neighbors := [None, None, None, None]\<rparr>" by (simp add: n [symmetric])
  show ?thesis
    unfolding grid_neighbors_xy [OF assms(1)] by (subst r) (simp add: grid_connect_def GridAddNeighbor_def Let_def)
qed

lemma new_grid_router:
  assumes "i < 16"
  shows "g_routers (CreateGridNetwork random rand) ! i = (GridRouter (of_nat (16 * i)) (of_nat (16 * i) + 15) random)
    \<lparr>m_children := map (\<lambda>k. Some (Host (16 * i + k))) [0..<16], m_neighbors := grid_neighbors i\<rparr>"
proof -
  have x: "i mod 4 < 4" "i div 4 < 4" "4 * (i div 4) + i mod 4 = i" using assms by auto
  have "g_routers (CreateGridNetwork random rand) ! i = grid_connect (i mod 4) (i div 4)
      (grid_children (i mod 4) (i div 4) (GridRouter (of_nat (16 * i)) (of_nat (16 * i) + 15) random))"
    using assms grid_addr_eq [OF x(1,2)] x(3) by (simp add: CreateGridNetwork_def Let_def del: upt_rec_numeral of_nat_mult)
  then show ?thesis
    using grid_children_eq [OF x(1,2)] grid_connect_eq [OF x(1,2)] x(3) by (simp add: GridRouter_def del: upt_rec_numeral of_nat_mult)
qed

lemma new_grid_shape:
  assumes "i < 16"
  shows "grid_shape random i (g_routers (CreateGridNetwork random rand) ! i)"
    and "packets_known (g_routers (CreateGridNetwork random rand) ! i)"
proof -
  have p: "unat (drop_bit 4 (of_nat (16 * i) :: u16) AND 3) = i mod 4" "unat (drop_bit 6 (of_nat (16 * i) :: u16)) = i div 4"
    using addr_parts [of "16 * i"] assms by simp_all
  then show "grid_shape random i (g_routers (CreateGridNetwork random rand) ! i)"
    unfolding new_grid_router [OF assms] by (simp add: grid_shape_def GridRouter_def del: upt_rec_numeral of_nat_mult)
  show "packets_known (g_routers (CreateGridNetwork random rand) ! i)"
    unfolding new_grid_router [OF assms] by (simp add: packets_known_def packet_known_def GridRouter_def no_packet_def del: upt_rec_numeral)
qed

lemma new_grid_ok: "grid_ok random (CreateGridNetwork random rand)" "g_time (CreateGridNetwork random rand) = 0"
proof -
  have "length (g_routers (CreateGridNetwork random rand)) = 16" "hosts_ok (\<lambda>a. a div 16) (CreateGridNetwork random rand)"
    "g_time (CreateGridNetwork random rand) = 0"
    by (simp_all add: CreateGridNetwork_def del: upt_rec_numeral)
  then show "grid_ok random (CreateGridNetwork random rand)" "g_time (CreateGridNetwork random rand) = 0"
    using new_grid_shape by (simp_all add: grid_ok_def)
qed

section \<open>The way of a packet\<close>

text \<open>The direction (north, east, south, west) from router \<open>i\<close> to router \<open>t\<close>, and how far it is.\<close>

definition grid_way :: "bool \<Rightarrow> nat \<Rightarrow> nat \<Rightarrow> nat" where
  "grid_way random i t =
     (let x = i mod 4; y = i div 4; tx = t mod 4; ty = t div 4 in
      if ty = y \<or> tx \<noteq> x \<and> (random \<longrightarrow> odd (tx + ty + x + y)) then (if tx > x then 1 else 3) else (if ty > y then 2 else 0))"

definition grid_distance :: "nat \<Rightarrow> nat \<Rightarrow> nat" where
  "grid_distance t i = (t mod 4 - i mod 4) + (i mod 4 - t mod 4) + (t div 4 - i div 4) + (i div 4 - t div 4)"

lemma grid_port_cases:
  fixes x y tx ty :: nat
  assumes "\<not> (tx = x \<and> ty = y)"
  shows "(if 0 < int tx - int x \<and> int ty - int y = 0 then 17 else if int tx - int x < 0 \<and> int ty - int y = 0 then 19
      else if int tx - int x = 0 \<and> 0 < int ty - int y then 18 else if int tx - int x = 0 \<and> int ty - int y < 0 then 16
      else if \<not> random then if 0 < int tx - int x then 17 else 19
      else if p then if 0 < int tx - int x then 17 else 19 else if 0 < int ty - int y then 18 else 16) =
    16 + (if ty = y \<or> tx \<noteq> x \<and> (random \<longrightarrow> p) then (if tx > x then 1 else 3) else (if ty > y then 2 else 0 :: nat))"
  using assms by auto

lemma grid_port:
  assumes r: "grid_shape random i r" and "i < 16" "a < 256"
  shows "GridPortOf r (of_nat a) = (if a div 16 = i then a mod 16 else 16 + grid_way random i (a div 16))"
proof -
  have parts: "(of_nat a :: u16) AND 0xfff0 = m_subnetLow r \<longleftrightarrow> a div 16 = i"
    "unat (drop_bit 4 (of_nat a :: u16) AND 3) = a div 16 mod 4" "unat (drop_bit 6 (of_nat a :: u16)) = a div 16 div 4"
    "unat ((of_nat a :: u16) AND 0x000f) = a mod 16" "m_xpos r = i mod 4" "m_ypos r = i div 4" "m_randomRouting r = random"
    using r assms(2,3) addr_router [of a i] addr_parts [of a] by (simp_all add: grid_shape_def div_mult2_eq [symmetric])
  show ?thesis
  proof (cases "a div 16 = i")
    case True
    then show ?thesis by (simp only: GridPortOf_def parts simp_thms if_True)
  next
    case False
    then have "\<not> (a div 16 mod 4 = i mod 4 \<and> a div 16 div 4 = i div 4)" by (metis div_mult_mod_eq)
    from grid_port_cases [OF this] False show ?thesis unfolding GridPortOf_def Let_def parts grid_way_def by simp
  qed
qed

lemma grid_way_xy: "x < 4 \<Longrightarrow> tx < 4 \<Longrightarrow> grid_way random (4 * y + x) (4 * ty + tx) =
    (if ty = y \<or> tx \<noteq> x \<and> (random \<longrightarrow> odd (tx + ty + x + y)) then (if tx > x then 1 else 3) else (if ty > y then 2 else 0))"
  by (simp only: grid_way_def grid_xy Let_def)

lemma grid_distance_xy: "x < 4 \<Longrightarrow> tx < 4 \<Longrightarrow> grid_distance (4 * ty + tx) (4 * y + x) = (tx - x) + (x - tx) + (ty - y) + (y - ty)"
  by (simp only: grid_distance_def grid_xy)

lemma grid_closer:
  assumes "i < 16" "t < 16" "i \<noteq> t"
  obtains j where "grid_neighbors i ! grid_way random i t = Some j" "j < 16" "grid_distance t i = Suc (grid_distance t j)"
    "grid_neighbors j ! ((grid_way random i t + 2) mod 4) = Some i" "grid_way random j i = (grid_way random i t + 2) mod 4"
proof -
  define x y tx ty where "x = i mod 4" and "y = i div 4" and "tx = t mod 4" and "ty = t div 4"
  then have i: "i = 4 * y + x" "t = 4 * ty + tx" by simp_all
  have b: "x < 4" "y < 4" "tx < 4" "ty < 4" using assms by (auto simp: x_def y_def tx_def ty_def)
  have ne: "x \<noteq> tx \<or> y \<noteq> ty" using assms(3) i by auto
  note xy = grid_way_xy grid_distance_xy grid_neighbors_xy b
  have "grid_way random i t = 1 \<and> x < tx \<or> grid_way random i t = 3 \<and> tx < x \<or> grid_way random i t = 2 \<and> y < ty \<or>
      grid_way random i t = 0 \<and> ty < y"
  proof -
    obtain p where "grid_way random i t = (if ty = y \<or> tx \<noteq> x \<and> p then (if tx > x then 1 else 3) else (if ty > y then 2 else 0))"
      unfolding i grid_way_xy [OF b(1,3)] by blast
    with ne show ?thesis by auto
  qed
  then consider (east) "grid_way random i t = 1" "x < tx" | (west) "grid_way random i t = 3" "tx < x"
    | (south) "grid_way random i t = 2" "y < ty" | (north) "grid_way random i t = 0" "ty < y"
    by (elim disjE) auto
  then show thesis
  proof cases
    case east
    then have c: "x + 1 < 4" using b by simp
    show ?thesis by (rule that [of "4 * y + (x + 1)"]; (simp only: east(1))?; (simp only: i xy c)?) (use east b c in auto)
  next
    case west
    then have c: "x - 1 < 4" using b by simp
    show ?thesis by (rule that [of "4 * y + (x - 1)"]; (simp only: west(1))?; (simp only: i xy c)?) (use west b c in auto)
  next
    case south
    show ?thesis by (rule that [of "4 * (y + 1) + x"]; (simp only: south(1))?; (simp only: i xy)?) (use south b in auto)
  next
    case north
    show ?thesis by (rule that [of "4 * (y - 1) + x"]; (simp only: north(1))?; (simp only: i xy)?) (use north b in auto)
  qed
qed

end
