(* ===== verification/Noc_Safe.thy ===== *)
theory Noc_Safe
  imports Noc_Routes
begin

text \<open>
  Runs of the grid simulation: every step keeps the shape of the network, a packet that is forwarded goes on along its way, and a cycle stops
  only where a round-robin counter has left its range.
\<close>

section \<open>The network stays as it is\<close>

text \<open>\<open>grid_evo\<close>: from \<open>s0\<close> to \<open>s\<close> the shape of the network, the time and the round-robin counters are kept.\<close>

definition grid_evo :: "bool \<Rightarrow> grid_sim \<Rightarrow> grid_sim \<Rightarrow> bool" where
  "grid_evo random s0 s \<longleftrightarrow>
     grid_ok random s \<and> counters_kept {} s0 s"

lemma grid_evo_refl: "grid_ok random s \<Longrightarrow> grid_evo random s s"
  by (simp add: grid_evo_def counters_kept_def)

lemma grid_okD:
  assumes "grid_ok random s"
  shows "length (g_routers s) = 16" "i < 16 \<Longrightarrow> grid_shape random i (g_routers s ! i)" "i < 16 \<Longrightarrow> packets_known (g_routers s ! i)"
    "hosts_ok (\<lambda>a. a div 16) s"
  using assms by (auto simp: grid_ok_def)

lemma grid_set_router:
  assumes "grid_ok random s" "i < 16" "grid_shape random i r" "packets_known r"
  shows "grid_ok random (set_router i r s)"
  using assms by (auto simp: grid_ok_def hosts_ok_updates nth_list_update)

lemma grid_evo_set_router:
  assumes "grid_evo random s0 s" "i < 16" "grid_shape random i r" "packets_known r" "m_rrcount r = m_rrcount (g_routers s ! i)"
  shows "grid_evo random s0 (set_router i r s)"
  using assms grid_set_router [of random s i r] counters_kept_set_router [of r s i s0] by (simp add: grid_evo_def)

text \<open>Updates of one router that keep its shape.\<close>

lemma GridPortOf_less: "GridPortOf r addr < 20"
proof -
  have "unat (addr AND 0x000f) < 16" by (simp add: u16_masks_nat)
  then show ?thesis by (simp add: GridPortOf_def Let_def)
qed

lemma port_number_ok:
  assumes "grid_ok random s" "(case node of Router j \<Rightarrow> j < 16 | Host h \<Rightarrow> h < 256)"
  shows "\<exists>p < 20. GridPortNumber r node s = Inr p"
  using assms GridPortOf_less by (auto simp: GridPortNumber_def grid_ok_def hosts_ok_def split: node.splits)

lemma shape_received:
  assumes "grid_shape random i r" "packets_known r" "packet_known packet" "p < 20"
  shows "grid_shape random i (r\<lparr>m_inboxes := (m_inboxes r)[p := packet], m_inboxValid := v, m_inboxForwardTime := t\<rparr>)
      \<longleftrightarrow> length v = 20 \<and> length t = 20"
    "packets_known (r\<lparr>m_inboxes := (m_inboxes r)[p := packet], m_inboxValid := v, m_inboxForwardTime := t\<rparr>)"
  using assms set_update_subset_insert [of "m_inboxes r" p packet] by (auto simp: grid_shape_def packets_known_def)

lemma grid_accept_ok:
  assumes evo: "grid_evo random s0 s" and i: "i < 16" and packet: "packet_known packet"
    and node: "case node of Router j \<Rightarrow> j < 16 | Host h \<Rightarrow> h < 256"
  shows "wp (\<lambda>e. False) (\<lambda>(ok, s). grid_evo random s0 s) (GridAcceptMessage i packet node s)"
proof -
  have ok: "grid_ok random s" using evo by (simp add: grid_evo_def)
  obtain p where p: "p < 20" "GridPortNumber (g_routers s ! i) node s = Inr p" using port_number_ok [OF ok node] by blast
  have shape: "grid_shape random i (g_routers s ! i)" and known: "packets_known (g_routers s ! i)" using grid_okD [OF ok] i by blast+
  then have len: "length (m_inboxes (g_routers s ! i)) = 20" "length (m_inboxValid (g_routers s ! i)) = 20"
    "length (m_inboxForwardTime (g_routers s ! i)) = 20" by (simp_all add: grid_shape_def)
  show ?thesis
    using evo i p len grid_okD(1) [OF ok] shape_received [OF shape known packet p(1)]
      grid_evo_set_router [OF evo i]
    by (simp add: GridAcceptMessage_def RouterAcceptMessage_def)
qed

lemma grid_ok_kept [simp]:
  "grid_ok random s \<Longrightarrow> grid_ok random (set_kind h k s)" "grid_ok random (Processed packet s) = grid_ok random s"
  "grid_ok random (s\<lparr>rng := f\<rparr>) = grid_ok random s" "grid_ok random (s\<lparr>g_time := t\<rparr>) = grid_ok random s"
  by (simp_all add: grid_ok_def hosts_ok_updates)

interpretation grid: hosts_network GridAcceptMessage "grid_evo random s0" "\<lambda>a. a div 16" for random s0
proof
  fix s packet h assume "grid_evo random s0 s" "h < (256 :: nat)" "packet_known packet"
  then show "wp (\<lambda>e. False) (\<lambda>(ok, s). grid_evo random s0 s) (GridAcceptMessage (h div 16) packet (Host h) s)"
    by (intro grid_accept_ok) auto
qed (auto simp: grid_evo_def counters_kept_def intro: grid_okD(4))

lemma grid_updates_ok:
  assumes "grid_evo random s0 s" "i < 16"
  shows "grid_evo random s0 (empty_inbox i p s)" "grid_evo random s0 (block_outbox i d s)"
proof -
  have ok: "grid_ok random s" using assms(1) by (simp add: grid_evo_def)
  have "grid_shape random i (g_routers s ! i)" "packets_known (g_routers s ! i)" using grid_okD [OF ok] assms(2) by blast+
  then show "grid_evo random s0 (empty_inbox i p s)" "grid_evo random s0 (block_outbox i d s)"
    unfolding empty_inbox_def block_outbox_def Let_def
    by (rule_tac grid_evo_set_router [OF assms]; simp add: grid_shape_def packets_known_def)+
qed

lemma grid_forward_eq:
  fixes i p s random
  defines "r \<equiv> g_routers s ! i" and "packet \<equiv> m_inboxes (g_routers s ! i) ! p"
  defines "a \<equiv> unat (p_to (m_inboxes (g_routers s ! i) ! p))"
  assumes ok: "grid_ok random s" and i: "i < 16" and p: "p < 20"
  obtains d j where "GridPortOf r (of_nat a) = d" "d < 20" "packet_known packet" "a < 256"
    "a div 16 = i \<Longrightarrow> d = a mod 16"
    "a div 16 \<noteq> i \<Longrightarrow> d = 16 + grid_way random i (a div 16)"
    "a div 16 \<noteq> i \<Longrightarrow> grid_neighbors i ! grid_way random i (a div 16) = Some j \<and> j < 16 \<and>
       grid_way random j i = (grid_way random i (a div 16) + 2) mod 4"
    "GridTryForwardFrom i p s =
       (if \<not> m_inboxValid r ! p \<or> m_inboxForwardTime r ! p > g_time s \<or> m_outboxBlocked r ! d then Inr (False, s)
        else andthen (if a div 16 = i then HostAcceptMessage GridAcceptMessage a packet s else GridAcceptMessage j packet (Router i) s)
          (\<lambda>(ok, s). Inr (True, empty_inbox i p (block_outbox i d s))))"
proof -
  have shape: "grid_shape random i r" and known: "packets_known r" using grid_okD [OF ok] i unfolding r_def by blast+
  have len: "length (m_inboxes r) = 20" "length (m_inboxValid r) = 20" "length (m_inboxForwardTime r) = 20"
    "length (m_outboxBlocked r) = 20" using shape by (simp_all add: grid_shape_def)
  have packet: "packet_known packet" using known len p by (simp add: packets_known_def packet_def r_def)
  then have a: "a < 256" "p_to packet = of_nat a" by (simp_all add: packet_known_def packet_def a_def)
  define d where "d = GridPortOf r (of_nat a)"
  have d: "d < 20" unfolding d_def by (rule GridPortOf_less)
  note port = grid_port [OF shape i a(1), folded d_def]
  have r: "aget (g_routers s) i = Inr r" using i grid_okD(1) [OF ok] by (simp add: r_def)
  have packet_eq: "m_inboxes r ! p = packet" by (simp add: packet_def r_def)
  note unfold = GridTryForwardFrom_def r andthen_simps aget_in len p packet_eq a(2) d_def [symmetric] d Let_def
  show thesis
  proof (cases "a div 16 = i")
    case True
    then have dd: "d = a mod 16" "d < 16" using port by simp_all
    have a_eq: "16 * i + d = a" by (simp only: dd(1) True [symmetric] mult_div_mod_eq)
    then have "m_children r ! d = Some (Host a)" using shape dd(2) by (simp add: grid_shape_def del: upt_rec_numeral)
    then have "GridTryForwardFrom i p s =
       (if \<not> m_inboxValid r ! p \<or> m_inboxForwardTime r ! p > g_time s \<or> m_outboxBlocked r ! d then Inr (False, s)
        else andthen (HostAcceptMessage GridAcceptMessage a packet s) (\<lambda>(ok, s). Inr (True, empty_inbox i p (block_outbox i d s))))"
      using a_eq dd(2) by (auto simp: unfold)
    then show thesis using that [OF d_def [symmetric] d packet a(1) dd(1)] True by simp
  next
    case False
    have t: "a div 16 < 16" using a by simp
    obtain j where j: "grid_neighbors i ! grid_way random i (a div 16) = Some j" "j < 16"
      "grid_way random j i = (grid_way random i (a div 16) + 2) mod 4"
      using grid_closer [OF i t False [symmetric]] by metis
    have dd: "d = 16 + grid_way random i (a div 16)" "\<not> d < 16" using port False by simp_all
    have "d mod 4 = grid_way random i (a div 16)"
      using d mod_mult_self4 [of 4 4 "grid_way random i (a div 16)"] unfolding dd(1) by simp
    then have "m_neighbors r ! (d mod 4) = Some j" using j shape by (simp add: grid_shape_def)
    then have "GridTryForwardFrom i p s =
       (if \<not> m_inboxValid r ! p \<or> m_inboxForwardTime r ! p > g_time s \<or> m_outboxBlocked r ! d then Inr (False, s)
        else andthen (GridAcceptMessage j packet (Router i) s) (\<lambda>(ok, s). Inr (True, empty_inbox i p (block_outbox i d s))))"
      using dd(2) by (auto simp: unfold)
    then show thesis using that [OF d_def [symmetric] d packet a(1) _ dd(1), of j] False j by simp
  qed
qed

lemma grid_forward_ok:
  assumes evo: "grid_evo random s0 s" and i: "i < 16" and p: "p < 20"
  shows "wp (\<lambda>e. False) (\<lambda>(ok, s). grid_evo random s0 s) (GridTryForwardFrom i p s)"
proof -
  have ok: "grid_ok random s" using evo by (simp add: grid_evo_def)
  show ?thesis
  proof (rule grid_forward_eq [OF ok i p], goal_cases)
    case (1 d j)
    let ?packet = "m_inboxes (g_routers s ! i) ! p"
    have "wp (\<lambda>e. False) (\<lambda>(ok, s). grid_evo random s0 s) (HostAcceptMessage GridAcceptMessage (unat (p_to ?packet)) ?packet s)"
      using grid.accept_ok [OF evo 1(4,3)] by (rule wp_mono) auto
    moreover have "wp (\<lambda>e. False) (\<lambda>(ok, s). grid_evo random s0 s) (GridAcceptMessage j ?packet (Router i) s)" if "j < 16"
      using grid_accept_ok [OF evo that 1(3), of "Router i"] i by simp
    ultimately show ?thesis
      unfolding 1(8) using evo 1(7) by (auto intro!: grid_updates_ok [OF _ i] elim!: wp_mono)
  qed
qed

section \<open>Cycles\<close>

lemma grid_router_updates:
  assumes ok: "grid_ok random s" and i: "i < 16"
  shows "grid_ok random (set_router i (clear_outboxes t (g_routers s ! i)) s)"
    and "f (m_rrcount (g_routers s ! i)) \<le> 20 \<Longrightarrow> grid_ok random (set_rrcount i f s)"
  using grid_okD(2,3) [OF ok i] unfolding set_rrcount_def Let_def
  by (auto intro!: grid_set_router [OF ok i]; simp add: clear_outboxes_def grid_shape_def packets_known_def)+

lemma grid_forward_overrun:
  assumes ok: "grid_ok random s" and i: "i < 16"
  shows "GridTryForwardFrom i 20 s = Inl OutOfBounds"
proof -
  have "length (m_inboxValid (g_routers s ! i)) = 20" using grid_okD(2) [OF ok i] by (simp add: grid_shape_def)
  then show ?thesis using i grid_okD(1) [OF ok] by (simp add: GridTryForwardFrom_def aget_def)
qed

interpretation grid_cycles: router_network GridAcceptMessage GridTryForwardFrom 20 16 "grid_ok random" for random
proof
  fix s i p assume "grid_ok random s" "i < (16 :: nat)" "p < (20 :: nat)"
  from grid_forward_ok [OF grid_evo_refl [OF this(1)] this(2,3)]
  show "wp (\<lambda>e. False) (\<lambda>(b, s'). grid_ok random s' \<and> counters_kept {} s s') (GridTryForwardFrom i p s)" by (simp add: grid_evo_def)
next
  fix s h assume "grid_ok random s" "h < (256 :: nat)"
  from grid.timestep_ok [OF grid_evo_refl [OF this(1)] this(2)]
  show "wp (\<lambda>e. False) (\<lambda>s'. grid_ok random s' \<and> counters_kept {} s s') (HostTimestep GridAcceptMessage h s)" by (simp add: grid_evo_def [abs_def])
next
  fix s i assume "grid_ok random s" "i < (16 :: nat)"
  from grid_okD(2) [OF this] show "m_rrcount (g_routers s ! i) \<le> 20" by (simp add: grid_shape_def)
qed (simp_all add: grid_router_updates grid_forward_overrun grid_okD(1))

lemmas grid_defs = GridCycle_def GridTimestep_def

section \<open>The way of a packet through the network\<close>

definition grid_hop :: "grid_sim \<Rightarrow> u16 \<Rightarrow> nat \<Rightarrow> nat option" where
  "grid_hop s addr i =
     (let r = g_routers s ! i; p = GridPortOf r addr in if p < 16 then None else m_neighbors r ! (p mod 4))"

lemma grid_hop_eq:
  assumes ok: "grid_ok random s" and "i < 16" "a < 256"
  shows "grid_hop s (of_nat a) i = (if a div 16 = i then None else grid_neighbors i ! grid_way random i (a div 16))"
proof -
  have shape: "grid_shape random i (g_routers s ! i)" by (rule grid_okD(2)) fact+
  have "grid_way random i (a div 16) < 4" by (simp add: grid_way_def Let_def)
  then have "(16 + grid_way random i (a div 16)) mod 4 = grid_way random i (a div 16)"
    using mod_mult_self4 [of 4 4 "grid_way random i (a div 16)"] by simp
  then show ?thesis using grid_port [OF shape assms(2,3)] shape by (simp add: grid_hop_def grid_shape_def)
qed

lemma grid_distance_0: "grid_distance t i = 0 \<Longrightarrow> i = t"
  unfolding grid_distance_def by (metis add_eq_0_iff_both_eq_0 diff_is_0_eq div_mult_mod_eq le_antisym)

interpretation grid_routing: routing "\<lambda>a. grid_hop s (of_nat a)" "\<lambda>a. grid_distance (a div 16)"
    "\<lambda>a i. grid_ok random s \<and> a < 256 \<and> i < 16" for random s
proof
  fix a i n assume known: "grid_ok random s \<and> a < 256 \<and> i < 16" and n: "grid_distance (a div 16) i = Suc n"
  from n have "i \<noteq> a div 16" by (auto simp: grid_distance_def)
  moreover have "a div 16 < 16" using known by auto
  ultimately obtain j where "grid_neighbors i ! grid_way random i (a div 16) = Some j" "j < 16"
    "grid_distance (a div 16) i = Suc (grid_distance (a div 16) j)"
    using known grid_closer [of i "a div 16" random] by metis
  then show "\<exists>j. grid_hop s (of_nat a) i = Some j \<and> (grid_ok random s \<and> a < 256 \<and> j < 16) \<and> grid_distance (a div 16) j = n"
    using known n grid_hop_eq [of random s i a] \<open>i \<noteq> a div 16\<close> by auto
qed

lemma grid_arrives:
  assumes "grid_ok random s" "a < 256" "i < 16"
  shows "noc_walk (grid_hop s (of_nat a)) (grid_distance (a div 16) i) i = Some (a div 16)"
  using grid_routing.arrives [of random s a i] grid_distance_0 assms by metis

definition packet_waits :: "nat \<Rightarrow> nat \<Rightarrow> grid_sim \<Rightarrow> bool" where
  "packet_waits i p s \<longleftrightarrow> m_inboxValid (g_routers s ! i) ! p \<and> m_inboxForwardTime (g_routers s ! i) ! p \<le> g_time s"

text \<open>Where a packet arrives: the port of the next router that leads back.\<close>

definition back_port :: "nat \<Rightarrow> nat" where
  "back_port p = 16 + (p + 2) mod 4"

definition receive_packet :: "nat \<Rightarrow> nat \<Rightarrow> NOCPacket \<Rightarrow> grid_sim \<Rightarrow> grid_sim" where
  "receive_packet j p packet s =
     (let r = g_routers s ! j in
      if m_inboxValid r ! p then s
      else set_router j (r\<lparr>m_inboxes := (m_inboxes r)[p := packet], m_inboxValid := (m_inboxValid r)[p := True],
        m_inboxForwardTime := (m_inboxForwardTime r)[p := g_time s + 4]\<rparr>) s)"

lemma grid_forward_away:
  assumes ok: "grid_ok random s" and i: "i < 16" and p: "p < 20" and wait: "packet_waits i p s"
    and packet: "packet = m_inboxes (g_routers s ! i) ! p" and away: "unat (p_to packet) div 16 \<noteq> i"
    and d: "d = GridPortOf (g_routers s ! i) (p_to packet)" and free: "\<not> m_outboxBlocked (g_routers s ! i) ! d"
  shows "16 \<le> d \<and> d < 20 \<and> (\<exists>j < 16. grid_hop s (p_to packet) i = Some j \<and>
    grid_distance (unat (p_to packet) div 16) i = Suc (grid_distance (unat (p_to packet) div 16) j) \<and>
    GridTryForwardFrom i p s = Inr (True, empty_inbox i p (block_outbox i d (receive_packet j (back_port d) packet s))))"
proof (rule grid_forward_eq [OF ok i p], goal_cases)
  case (1 d' j)
  define a where "a = unat (p_to packet)"
  have a: "a < 256" "p_to packet = of_nat a" "a div 16 \<noteq> i" "a div 16 < 16" using 1(4) away by (simp_all add: a_def packet)
  have d': "d' = d" using 1(1) by (simp add: d packet)
  have way: "grid_way random i (a div 16) < 4" "d = 16 + grid_way random i (a div 16)"
    using 1(6) a(3) by (simp_all add: grid_way_def Let_def d' a_def packet)
  have j: "grid_neighbors i ! grid_way random i (a div 16) = Some j" "j < 16"
    "grid_way random j i = (grid_way random i (a div 16) + 2) mod 4" using 1(7) a(3) by (simp_all add: a_def packet)
  have hop: "grid_hop s (p_to packet) i = Some j" using grid_hop_eq [OF ok i a(1)] a j by simp
  have dist: "grid_distance (a div 16) i = Suc (grid_distance (a div 16) j)" "i \<noteq> j"
    using grid_closer [OF i a(4) a(3) [symmetric], of random] j(1) by (metis option.inject n_not_Suc_n)+
  have shape: "grid_shape random j (g_routers s ! j)" "grid_shape random i (g_routers s ! i)" using grid_okD(2) [OF ok] i j by blast+
  have arrival: "GridPortOf (g_routers s ! j) (m_subnetLow (g_routers s ! i)) = back_port d"
    using grid_port [OF shape(1) j(2), of "16 * i"] shape(2) i dist(2) j(3)
    by (simp add: grid_shape_def back_port_def way(2)) presburger
  have "back_port d < 20" by (simp add: back_port_def)
  then have "GridAcceptMessage j packet (Router i) s = Inr (\<not> m_inboxValid (g_routers s ! j) ! back_port d, receive_packet j (back_port d) packet s)"
    using i j(2) grid_okD(1) [OF ok] shape arrival
    by (simp add: GridAcceptMessage_def RouterAcceptMessage_def GridPortNumber_def receive_packet_def grid_shape_def Let_def)
  then have "GridTryForwardFrom i p s = Inr (True, empty_inbox i p (block_outbox i d (receive_packet j (back_port d) packet s)))"
    using 1(8) wait free a(3) by (simp add: packet_waits_def d' a_def packet not_less)
  then show ?thesis using way hop dist(1) j(2) by (auto simp: a_def)
qed

section \<open>Where a run can stop\<close>

lemma counter_19:
  assumes ok: "grid_ok random s" and i: "i < 16" and count: "m_rrcount (g_routers s ! i) = 19" and wait: "packet_waits i 19 s"
    and away: "unat (p_to (m_inboxes (g_routers s ! i) ! 19)) div 16 \<noteq> i"
    and free: "\<not> m_outboxBlocked (g_routers s ! i) ! GridPortOf (g_routers s ! i) (p_to (m_inboxes (g_routers s ! i) ! 19))"
    and alone: "\<forall>p < 19. \<not> m_inboxValid (g_routers s ! i) ! p"
  shows "\<exists>s'. GridTimestep i s = Inr s' \<and> grid_ok random s' \<and> m_rrcount (g_routers s' ! i) = 20"
proof -
  let ?r = "g_routers s ! i"
  define s1 where "s1 = set_router i (clear_outboxes (g_time s) ?r) s"
  have shape: "grid_shape random i ?r" by (rule grid_okD(2) [OF ok i])
  have len: "length (g_routers s) = 16" by (rule grid_okD(1) [OF ok])
  have ok1: "grid_ok random s1" unfolding s1_def by (rule grid_router_updates(1) [OF ok i])
  define packet where "packet = m_inboxes ?r ! 19"
  define d where "d = GridPortOf ?r (p_to packet)"
  have r1: "g_routers s1 ! i = clear_outboxes (g_time s) ?r" "g_time s1 = g_time s" using i len by (simp_all add: s1_def)
  have d1: "GridPortOf (clear_outboxes t ?r) addr = GridPortOf ?r addr" for t addr
    by (simp add: GridPortOf_def clear_outboxes_def Let_def)
  have "d < 20" unfolding d_def by (rule GridPortOf_less)
  have "16 \<le> d \<and> d < 20 \<and> (\<exists>j < 16. grid_hop s1 (p_to packet) i = Some j \<and>
    grid_distance (unat (p_to packet) div 16) i = Suc (grid_distance (unat (p_to packet) div 16) j) \<and>
    GridTryForwardFrom i 19 s1 = Inr (True, empty_inbox i 19 (block_outbox i d (receive_packet j (back_port d) packet s1))))"
  proof (rule grid_forward_away [OF ok1 i])
    show "packet_waits i 19 s1" using wait by (simp add: packet_waits_def r1 clear_outboxes_def)
    show "packet = m_inboxes (g_routers s1 ! i) ! 19" by (simp add: r1 clear_outboxes_def packet_def)
    show "d = GridPortOf (g_routers s1 ! i) (p_to packet)" by (simp add: r1 d1 d_def)
    show "\<not> m_outboxBlocked (g_routers s1 ! i) ! d"
      using free shape \<open>d < 20\<close> by (simp add: r1 clear_outboxes_def grid_shape_def d_def packet_def)
  qed (use away in \<open>simp_all add: packet_def\<close>)
  then obtain j where j: "j < 16" "grid_distance (unat (p_to packet) div 16) i = Suc (grid_distance (unat (p_to packet) div 16) j)"
    and forward: "GridTryForwardFrom i 19 s1 = Inr (True, empty_inbox i 19 (block_outbox i d (receive_packet j (back_port d) packet s1)))"
    by blast
  define s3 where "s3 = set_rrcount i Suc (empty_inbox i 19 (block_outbox i d (receive_packet j (back_port d) packet s1)))"
  have "i \<noteq> j" using j(2) by auto
  have kept: "g_routers (receive_packet j p packet s1) ! i = clear_outboxes (g_time s) ?r"
      "length (g_routers (receive_packet j p packet s1)) = 16" for p
    using \<open>i \<noteq> j\<close> len r1(1) by (simp_all add: receive_packet_def Let_def s1_def)
  have s3: "m_inboxValid (g_routers s3 ! i) = (m_inboxValid ?r)[19 := False]" "m_rrcount (g_routers s3 ! i) = 20" "length (g_routers s3) = 16"
    using i kept count by (simp_all add: s3_def set_rrcount_def empty_inbox_def block_outbox_def clear_outboxes_def Let_def)
  have valid: "\<not> m_inboxValid (g_routers s3 ! i) ! p" "p < length (m_inboxValid (g_routers s3 ! i))" if "p < 20" for p
  proof -
    have "length (m_inboxValid ?r) = 20" using shape by (simp add: grid_shape_def)
    moreover have "p = 19 \<or> p < 19" using that by linarith
    ultimately show "\<not> m_inboxValid (g_routers s3 ! i) ! p" "p < length (m_inboxValid (g_routers s3 ! i))"
      using alone by (auto simp: s3)
  qed
  have idle: "GridTryForwardFrom i p s3 = Inr (False, s3)" if "p < 20" for p
    using valid [OF that] i by (simp add: GridTryForwardFrom_def s3(3))
  have "wp (\<lambda>e. False) (\<lambda>t. t = s3) (foreach [0..<20] (\<lambda>p s. andthen (GridTryForwardFrom i p s) (\<lambda>(ok, s).
      Inr (if ok then set_rrcount i (\<lambda>n. (n + 1) mod 20) s else s))) s3)"
    by (rule wp_foreach_inv [where I = "\<lambda>t. t = s3"]) (auto simp: idle)
  from wp_total [OF this] have "GridTimestep i s = Inr s3"
    using i len by (auto simp: GridTimestep_def RouterTimestep_def Let_def s1_def [symmetric] count forward s3_def [symmetric] simp del: upt_rec_numeral)
  moreover obtain s' where "GridTimestep i s = Inr s'" "grid_ok random s'"
    by (rule grid_cycles.router_timestep_ok [OF ok i]) (simp_all add: count GridTimestep_def)
  ultimately show ?thesis using s3(2) by simp
qed

section \<open>A concrete network\<close>

text \<open>A packet for the CPU waits in the west inbox of router 9, which has forwarded 19 packets.\<close>

definition cpu_packet :: NOCPacket where
  "cpu_packet = \<lparr>p_from = RAM_ADDR, p_to = CPU_ADDR, p_size = 35, p_replysize = 4, p_type = TYPE_DMA_RDATA, p_timeSent = 0\<rparr>"

definition busy_grid :: grid_sim where
  "busy_grid = set_router 9 ((g_routers (CreateGridNetwork False (\<lambda>_. 0)) ! 9)
     \<lparr>m_inboxes := (replicate 20 no_packet)[19 := cpu_packet], m_inboxValid := (replicate 20 False)[19 := True], m_rrcount := 19\<rparr>)
     (CreateGridNetwork False (\<lambda>_. 0))"

lemma busy_grid_ok: "grid_ok False busy_grid"
  unfolding busy_grid_def
proof (rule grid_set_router [OF new_grid_ok(1)])
  have known: "packet_known no_packet" "packet_known cpu_packet"
    by (simp_all add: packet_known_def no_packet_def cpu_packet_def RAM_ADDR_def CPU_ADDR_def)
  have "set ((replicate 20 no_packet)[19 := cpu_packet]) \<subseteq> {no_packet, cpu_packet}"
    using set_update_subset_insert [of "replicate 20 no_packet" 19 cpu_packet] by auto
  then show "packets_known ((g_routers (CreateGridNetwork False (\<lambda>_. 0)) ! 9)
     \<lparr>m_inboxes := (replicate 20 no_packet)[19 := cpu_packet], m_inboxValid := (replicate 20 False)[19 := True], m_rrcount := 19\<rparr>)"
    using known by (auto simp: packets_known_def)
qed (use new_grid_shape(1) [of 9 False "\<lambda>_. 0"] in \<open>simp_all add: grid_shape_def del: upt_rec_numeral\<close>)

lemma busy_grid_9:
  "g_routers busy_grid ! 9 = (GridRouter 0x90 0x9f False)
     \<lparr>m_children := map (\<lambda>k. Some (Host (16 * 9 + k))) [0..<16], m_neighbors := grid_neighbors 9,
      m_inboxes := (replicate 20 no_packet)[19 := cpu_packet], m_inboxValid := (replicate 20 False)[19 := True], m_rrcount := 19\<rparr>"
  "g_time busy_grid = 0"
  using grid_okD(1) [OF new_grid_ok(1), of False "\<lambda>_. 0"] new_grid_router [of 9 False "\<lambda>_. 0"]
  by (simp_all add: busy_grid_def new_grid_ok(2) del: upt_rec_numeral)

lemma busy_grid_waits:
  "packet_waits 9 19 busy_grid" "m_rrcount (g_routers busy_grid ! 9) = 19" "\<forall>p < 19. \<not> m_inboxValid (g_routers busy_grid ! 9) ! p"
  "m_inboxes (g_routers busy_grid ! 9) ! 19 = cpu_packet" "GridPortOf (g_routers busy_grid ! 9) CPU_ADDR = 17"
  "m_outboxBlocked (g_routers busy_grid ! 9) = replicate 20 False" "unat (p_to cpu_packet) div 16 = 15" "p_to cpu_packet = CPU_ADDR"
proof -
  have "unat CPU_ADDR = 255" "of_nat 255 = CPU_ADDR" by (simp_all add: CPU_ADDR_def)
  then show "GridPortOf (g_routers busy_grid ! 9) CPU_ADDR = 17"
    using grid_port [OF grid_okD(2) [OF busy_grid_ok, of 9], of 255] by (simp add: grid_way_def)
qed (simp_all add: packet_waits_def busy_grid_9 GridRouter_def cpu_packet_def CPU_ADDR_def del: upt_rec_numeral)

lemma cpu_router: "unat CPU_ADDR div 16 = 15"
  by (simp add: CPU_ADDR_def)

definition all_nodes :: "node list" where
  "all_nodes = map Router [0..<16] @ map Host [0..<256]"

lemma all_nodes_ok: "\<forall>node \<in> set all_nodes. node_ok 16 node" "distinct all_nodes" "Router 9 \<in> set all_nodes"
  by (auto simp: all_nodes_def node_ok_def distinct_map inj_on_def simp del: upt_rec_numeral)

section \<open>Properties\<close>



text \<open>
  Forwarding. When the time of a packet for another router has come and its port is free, \<open>TryForwardFrom\<close> empties its inbox, blocks the port
  for four cycles and hands it to the next router on the way, which is nearer to its destination. There it goes into the inbox of the
  port that leads back; if that one is occupied the packet is lost, for the answer of \<open>AcceptMessage\<close> is not looked at.
\<close>
lemma grid_forward_exact:
  assumes "grid_ok random s" and "i < 16" and "p < 20" and "packet_waits i p s"
    and "packet = m_inboxes (g_routers s ! i) ! p" and "unat (p_to packet) div 16 \<noteq> i"
    and "d = GridPortOf (g_routers s ! i) (p_to packet)" and "\<not> m_outboxBlocked (g_routers s ! i) ! d"
  shows "16 \<le> d \<and> d < 20 \<and> (\<exists>j < 16. grid_hop s (p_to packet) i = Some j \<and>
    grid_distance (unat (p_to packet) div 16) i = Suc (grid_distance (unat (p_to packet) div 16) j) \<and>
    GridTryForwardFrom i p s = Inr (True, empty_inbox i p (block_outbox i d (receive_packet j (back_port d) packet s))))"
  by (rule grid_forward_away [OF assms])

lemma grid_forward_exact_witness:
  "\<exists>j < 16. grid_hop busy_grid CPU_ADDR 9 = Some j \<and>
    GridTryForwardFrom 9 19 busy_grid = Inr (True, empty_inbox 9 19 (block_outbox 9 17 (receive_packet j (back_port 17) cpu_packet busy_grid)))"
  using grid_forward_exact [OF busy_grid_ok, of 9 19 cpu_packet 17] busy_grid_waits by (auto simp del: upt_rec_numeral)

text \<open>
  C25: where a run can stop. Whatever the order of the nodes and the random numbers, a run of any number of cycles keeps the shape of the network and
  overruns no array, except that it stops in the cycle in which a router's round-robin counter is 20.
\<close>
theorem grid_runs_stop:
  assumes "\<forall>node \<in> set order. node_ok 16 node" and "distinct order"
  shows "case RunCycles GridCycle n order (CreateGridNetwork random rand) of
      Inr s \<Rightarrow> grid_ok random s \<and> g_time s = n
    | Inl h \<Rightarrow> h = OutOfBounds \<and>
        (\<exists>m < n. \<exists>t. RunCycles GridCycle m order (CreateGridNetwork random rand) = Inr t \<and> overrun_router 20 (set order) t)"
  unfolding grid_defs by (rule grid_cycles.runs_stop [OF new_grid_ok assms])

theorem grid_runs_stop_witness:
  "case RunCycles GridCycle 1000 all_nodes (CreateGridNetwork True (\<lambda>n. n)) of
      Inr s \<Rightarrow> grid_ok True s \<and> g_time s = 1000
    | Inl h \<Rightarrow> h = OutOfBounds \<and>
        (\<exists>m < 1000. \<exists>t. RunCycles GridCycle m all_nodes (CreateGridNetwork True (\<lambda>n. n)) = Inr t \<and> overrun_router 20 (set all_nodes) t)"
  by (rule grid_runs_stop [OF all_nodes_ok(1,2)])

text \<open>
  C26: the round-robin counter can leave its range. When it is 19 and the only packet that waits in a router is one in transit from the west,
  forwarding it makes the counter 20 (the first attempt of \<open>Timestep\<close> does not reduce it), and the next cycle reads past the array of inboxes.
\<close>
theorem grid_counter_overrun:
  assumes ok: "grid_ok random s" and i: "i < 16" and count: "m_rrcount (g_routers s ! i) = 19" and wait: "packet_waits i 19 s"
    and away: "unat (p_to (m_inboxes (g_routers s ! i) ! 19)) div 16 \<noteq> i"
    and free: "\<not> m_outboxBlocked (g_routers s ! i) ! GridPortOf (g_routers s ! i) (p_to (m_inboxes (g_routers s ! i) ! 19))"
    and alone: "\<forall>p < 19. \<not> m_inboxValid (g_routers s ! i) ! p"
    and order: "\<forall>node \<in> set order. node_ok 16 node" "distinct order" "Router i \<in> set order"
  shows "\<exists>s'. GridTimestep i s = Inr s' \<and> m_rrcount (g_routers s' ! i) = 20 \<and> GridCycle order s' = Inl OutOfBounds"
proof -
  obtain s' where s': "GridTimestep i s = Inr s'" "grid_ok random s'" "m_rrcount (g_routers s' ! i) = 20"
    using counter_19 [OF ok i count wait away free alone] by blast
  then have "overrun_router 20 (set order) s'" using i order(3) by (auto simp: overrun_router_def)
  with grid_cycles.cycle_step [OF s'(2) order(1,2)] s' show ?thesis by (auto simp: grid_defs)
qed

theorem grid_counter_overrun_witness:
  "\<exists>s'. GridTimestep 9 busy_grid = Inr s' \<and> GridCycle all_nodes s' = Inl OutOfBounds"
  using grid_counter_overrun [OF busy_grid_ok _ busy_grid_waits(2,1) _ _ busy_grid_waits(3) all_nodes_ok]
  using busy_grid_waits(4-8) by (auto simp: cpu_router)

end
