(* ===== verification/Noc_Quad.thy ===== *)
theory Noc_Quad
  imports Noc_Sim
begin

text \<open>
  The tree of routers of the network simulator (\<open>QuadtreeRouter.cpp\<close> and \<open>CreateQuadtreeNetwork\<close> of \<open>src/sim/noc/main.cpp\<close>): routing,
  forwarding, a clock cycle, and the network of 85 routers in four rows above 256 hosts.
\<close>

section \<open>The router\<close>

record quad_router = NOCRouter +
  m_subnetMask :: u16
  m_portMask :: u16
  m_portShift :: nat
  m_parentRouter :: "nat option"

type_synonym quad_sim = "quad_router sim"

text \<open>The sizes of the subnets are powers of two, so that the truncated logarithm is exact.\<close>

fun log2 :: "nat \<Rightarrow> nat" where
  "log2 n = (if n < 2 then 0 else Suc (log2 (n div 2)))"

declare log2.simps [simp del]

definition QuadtreeRouter :: "nat option \<Rightarrow> u16 \<Rightarrow> u16 \<Rightarrow> u16 \<Rightarrow> quad_router" where
  "QuadtreeRouter parent low high smask =
     (let size = unat high - unat low + 1; childMask = 0xffff AND NOT (of_nat (size div 4) - 1) in
      \<lparr>m_subnetLow = low, m_subnetHigh = high, m_children = replicate 4 None, m_inboxes = replicate 5 no_packet,
       m_inboxValid = replicate 5 False, m_inboxForwardTime = replicate 5 0, m_outboxBlocked = replicate 5 False,
       m_outboxClearTime = replicate 5 0, m_rrcount = 0, m_subnetMask = smask, m_portMask = childMask AND NOT smask,
       m_portShift = log2 size - 2, m_parentRouter = parent\<rparr>)"

text \<open>Ports 0 to 3 lead down, port 4 up.\<close>

definition QuadPortOf :: "quad_router \<Rightarrow> u16 \<Rightarrow> nat" where
  "QuadPortOf r addr =
     (if addr AND m_subnetMask r \<noteq> m_subnetLow r then 4 else unat (drop_bit (m_portShift r) (addr AND m_portMask r)))"

text \<open>The address that stands for a router is the one in the middle of its subnet.\<close>

definition subnet_middle :: "u16 \<Rightarrow> u16 \<Rightarrow> u16" where
  "subnet_middle low high = of_nat ((unat low + unat high) div 2)"

definition QuadPortNumber :: "quad_router \<Rightarrow> node \<Rightarrow> quad_sim \<Rightarrow> nat res" where
  "QuadPortNumber r node s =
     (case node of
        Router j \<Rightarrow> andthen (aget (g_routers s) j) (\<lambda>peer. Inr (QuadPortOf r (subnet_middle (m_subnetLow peer) (m_subnetHigh peer))))
      | Host h \<Rightarrow> andthen (aget (g_hosts s) h) (\<lambda>host. Inr (QuadPortOf r (m_address host))))"

definition QuadAddChild :: "node \<Rightarrow> u16 \<Rightarrow> quad_router \<Rightarrow> quad_router" where
  "QuadAddChild child addr r =
     (let port = QuadPortOf r addr in if port \<le> 3 then r\<lparr>m_children := (m_children r)[port := Some child]\<rparr> else r)"

definition QuadAcceptMessage :: "quad_router acceptor" where
  "QuadAcceptMessage = RouterAcceptMessage QuadPortNumber"

definition quad_forward :: "nat \<Rightarrow> nat \<Rightarrow> quad_router \<Rightarrow> NOCPacket \<Rightarrow> quad_sim \<Rightarrow> quad_sim res" where
  "quad_forward i dstport r packet s =
     (if dstport = 4 then
        case m_parentRouter r of
          Some j \<Rightarrow> andthen (QuadAcceptMessage j packet (Router i) s) (\<lambda>(ok, s). Inr s)
        | None \<Rightarrow> Inr s
      else
        andthen (aget (m_children r) dstport) (\<lambda>child.
        case child of
          Some (Router j) \<Rightarrow> andthen (QuadAcceptMessage j packet (Router i) s) (\<lambda>(ok, s). Inr s)
        | Some (Host h) \<Rightarrow> andthen (HostAcceptMessage QuadAcceptMessage h packet s) (\<lambda>(ok, s). Inr s)
        | None \<Rightarrow> Inr s))"

text \<open>The result of handing a packet on is not looked at. Only a packet that would leave the root is dropped.\<close>

definition QuadTryForwardFrom :: "nat \<Rightarrow> nat \<Rightarrow> quad_sim \<Rightarrow> (bool \<times> quad_sim) res" where
  "QuadTryForwardFrom i nport s =
     andthen (aget (g_routers s) i) (\<lambda>r.
     andthen (aget (m_inboxValid r) nport) (\<lambda>valid.
     if \<not> valid then Inr (False, s) else
     andthen (aget (m_inboxForwardTime r) nport) (\<lambda>time.
     if time > g_time s then Inr (False, s) else
     andthen (aget (m_inboxes r) nport) (\<lambda>packet.
     let dstport = QuadPortOf r (p_to packet) in
     andthen (aget (m_outboxBlocked r) dstport) (\<lambda>blocked.
     if blocked then Inr (False, s) else
     if dstport = 4 \<and> m_parentRouter r = None then Inr (False, empty_inbox i nport s) else
     andthen (quad_forward i dstport r packet s) (\<lambda>s.
     Inr (True, empty_inbox i nport (block_outbox i dstport s))))))))"

definition QuadTimestep :: "nat \<Rightarrow> quad_sim \<Rightarrow> quad_sim res" where
  "QuadTimestep = RouterTimestep QuadTryForwardFrom 5"

definition QuadCycle :: "node list \<Rightarrow> quad_sim \<Rightarrow> quad_sim res" where
  "QuadCycle = SimCycle (NodeTimestep QuadAcceptMessage QuadTimestep)"

section \<open>The network\<close>

text \<open>
  Row \<open>l\<close> has \<open>4 ^ l\<close> routers, each with a quarter of the subnet of its parent. The routers are numbered row by row; a router adds itself to
  its parent when it is made, as a host does.
\<close>

definition quad_size :: "nat \<Rightarrow> nat" where
  "quad_size l = 256 div 4 ^ l"

definition quad_first :: "nat \<Rightarrow> nat" where
  "quad_first l = (\<Sum>k \<leftarrow> [0..<l]. 4 ^ k)"

definition quad_new :: "nat \<Rightarrow> nat \<Rightarrow> quad_router" where
  "quad_new l q =
     (let size = quad_size l; base = of_nat (q * size) in
      QuadtreeRouter (if l = 0 then None else Some (quad_first (l - 1) + q div 4)) base (base + of_nat size - 1)
        (0xffff AND NOT (of_nat size - 1)))"

definition quad_children :: "nat \<Rightarrow> nat \<Rightarrow> quad_router \<Rightarrow> quad_router" where
  "quad_children l q r =
     fold (\<lambda>i r.
       let size = quad_size l div 4; cbase = of_nat (q * quad_size l + i * size) :: u16 in
       if size = 1 then QuadAddChild (Host (unat cbase)) cbase r
       else QuadAddChild (Router (quad_first (l + 1) + (4 * q + i))) (subnet_middle cbase (cbase + of_nat size - 1)) r) [0..<4] r"

definition CreateQuadtreeNetwork :: "(nat \<Rightarrow> nat) \<Rightarrow> quad_sim" where
  "CreateQuadtreeNetwork rand =
     new_sim (\<lambda>a. quad_first 3 + a div 4) (concat (map (\<lambda>l. map (\<lambda>q. quad_children l q (quad_new l q)) [0..<4 ^ l]) [0..<4])) rand"

end
