(* ===== verification/Noc_Tree.thy ===== *)
theory Noc_Tree
  imports Noc_Quad Noc_Hosts
begin

text \<open>
  Routing in the tree of the network simulator and runs of its simulation: the shape of the network, which every step keeps, the way a packet
  takes up and down the tree, and the port at which the packets of the parent come in.
\<close>

section \<open>Subnets\<close>

lemma quad_row_cases: "l < 4 \<Longrightarrow> (l = 0 \<Longrightarrow> P) \<Longrightarrow> (l = 1 \<Longrightarrow> P) \<Longrightarrow> (l = 2 \<Longrightarrow> P) \<Longrightarrow> (l = (3 :: nat) \<Longrightarrow> P) \<Longrightarrow> P"
  by linarith

lemma quad_sizes [simp]:
  "quad_size 0 = 256" "quad_size (Suc 0) = 64" "quad_size 2 = 16" "quad_size (Suc (Suc 0)) = 16" "quad_size 3 = 4" "quad_size (Suc (Suc (Suc 0))) = 4" "quad_size 4 = 1"
  by (simp_all add: quad_size_def)

lemma quad_firsts [simp]:
  "quad_first 0 = 0" "quad_first (Suc 0) = 1" "quad_first 2 = 5" "quad_first (Suc (Suc 0)) = 5" "quad_first 3 = 21"
proof -
  have "[0..<2] = [0, 1 :: nat]" "[0..<3] = [0, 1, 2 :: nat]" by (simp_all add: upt_rec)
  then show "quad_first 0 = 0" "quad_first (Suc 0) = 1" "quad_first 2 = 5" "quad_first (Suc (Suc 0)) = 5" "quad_first 3 = 21"
    by (simp_all add: quad_first_def)
qed

text \<open>The row of a router and its place in the row.\<close>

definition quad_pos :: "nat \<Rightarrow> nat \<times> nat" where
  "quad_pos i = (if i < 1 then (0, i) else if i < 5 then (1, i - 1) else if i < 21 then (2, i - 5) else (3, i - 21))"

lemma quad_pos_index: "l < 4 \<Longrightarrow> q < 4 ^ l \<Longrightarrow> quad_pos (quad_first l + q) = (l, q) \<and> quad_first l + q < 85"
  by (elim quad_row_cases) (auto simp: quad_pos_def)

lemma quad_index_pos:
  assumes "i < 85" "quad_pos i = (l, q)" shows "l < 4" "q < 4 ^ l" "i = quad_first l + q"
  using assms by (auto simp: quad_pos_def split: if_splits)

definition quad_child :: "nat \<Rightarrow> nat \<Rightarrow> nat \<Rightarrow> node" where
  "quad_child l q i = (if l = 3 then Host (4 * q + i) else Router (quad_first (l + 1) + (4 * q + i)))"

definition quad_subnet :: "nat \<Rightarrow> nat \<Rightarrow> quad_router \<Rightarrow> bool" where
  "quad_subnet l q r \<longleftrightarrow>
     m_subnetLow r = of_nat (q * quad_size l) \<and> m_subnetHigh r = of_nat (q * quad_size l + (quad_size l - 1)) \<and>
     m_subnetMask r = NOT (mask (8 - 2 * l)) \<and> m_portMask r = push_bit (6 - 2 * l) 3 \<and> m_portShift r = 6 - 2 * l"

definition quad_shape :: "nat \<Rightarrow> nat \<Rightarrow> quad_router \<Rightarrow> bool" where
  "quad_shape l q r \<longleftrightarrow> quad_subnet l q r \<and> m_parentRouter r = (if l = 0 then None else Some (quad_first (l - 1) + q div 4)) \<and>
     m_children r = map (\<lambda>i. Some (quad_child l q i)) [0..<4] \<and>
     length (m_inboxes r) = 5 \<and> length (m_inboxValid r) = 5 \<and> length (m_inboxForwardTime r) = 5 \<and>
     length (m_outboxBlocked r) = 5 \<and> length (m_outboxClearTime r) = 5 \<and> m_rrcount r \<le> 5"

lemma unat_drop_u16: "unat (drop_bit n w) = unat (w :: u16) div 2 ^ n"
  unfolding unat_drop_bit_eq by (rule drop_bit_eq_div)

lemma unat_and_3: "unat (w AND 3 :: u16) = unat w mod 4"
proof -
  have "w AND 3 = take_bit 2 w" by (simp add: take_bit_eq_mask mask_numeral)
  then show ?thesis by (simp only: unsigned_take_bit_eq) (simp add: take_bit_eq_mod)
qed

lemma subnet_of:
  assumes "a < 256" "q * 2 ^ k < 256"
  shows "(of_nat a :: u16) AND NOT (mask k) = of_nat (q * 2 ^ k) \<longleftrightarrow> a div 2 ^ k = q"
proof -
  have "of_nat a AND NOT (mask k) = (push_bit k (drop_bit k (of_nat a)) :: u16)"
    by (rule bit_word_eqI) (auto simp: bit_simps)
  also have "drop_bit k (of_nat a) = (of_nat (a div 2 ^ k) :: u16)"
  proof (rule word_unat_eq_iff [THEN iffD2])
    have "a div 2 ^ k \<le> a" by (rule div_le_dividend)
    then have "a div 2 ^ k < 256" using assms(1) by (rule le_less_trans)
    then show "unat (drop_bit k (of_nat a) :: u16) = unat (of_nat (a div 2 ^ k) :: u16)"
      using assms(1) by (simp add: unat_drop_u16 unat_addr)
  qed
  also have "push_bit k (of_nat (a div 2 ^ k)) = (of_nat (a div 2 ^ k * 2 ^ k) :: u16)" by (simp add: push_bit_eq_mult)
  finally have w: "of_nat a AND NOT (mask k) = (of_nat (a div 2 ^ k * 2 ^ k) :: u16)" .
  have "a div 2 ^ k * 2 ^ k \<le> a" by (rule div_times_less_eq_dividend)
  then have "a div 2 ^ k * 2 ^ k < 256" using assms(1) by (rule le_less_trans)
  then show ?thesis unfolding w by (metis assms(2) unat_addr mult_right_cancel power_not_zero zero_neq_numeral)
qed

lemma quad_powers:
  assumes "l < 4"
  shows "quad_size l = 2 ^ (8 - 2 * l)" "quad_size (l + 1) = 2 ^ (6 - 2 * l)" "drop_bit (6 - 2 * l) (push_bit (6 - 2 * l) 3) = (3 :: u16)"
  by (rule quad_row_cases [OF assms]; simp)+

lemma quad_places: "l < 4 \<Longrightarrow> q < 4 ^ l \<Longrightarrow> q * quad_size l + quad_size l \<le> 256" "l < 4 \<Longrightarrow> 0 < quad_size l"
  by (elim quad_row_cases; simp)+

lemma quad_port:
  assumes r: "quad_subnet l q r" and l: "l < 4" and q: "q < 4 ^ l" and a: "a < 256"
  shows "QuadPortOf r (of_nat a) = (if a div quad_size l = q then a div quad_size (l + 1) mod 4 else 4)"
proof -
  have "q * quad_size l < 256" using quad_places [OF l] q by (metis add_less_same_cancel1 le_neq_implies_less less_add_same_cancel1 not_less order_less_le_trans)
  then have "(of_nat a AND m_subnetMask r \<noteq> m_subnetLow r) \<longleftrightarrow> a div quad_size l \<noteq> q"
    using r subnet_of [OF a, of q "8 - 2 * l"] unfolding quad_subnet_def quad_powers(1) [OF l] by simp
  moreover have "unat (drop_bit (m_portShift r) (of_nat a AND m_portMask r)) = a div quad_size (l + 1) mod 4"
    using r unfolding quad_subnet_def by (simp only: drop_bit_and quad_powers [OF l] unat_and_3 unat_drop_u16 unat_addr [OF a])
  ultimately show ?thesis by (simp add: QuadPortOf_def)
qed

section \<open>The shape of the network\<close>

definition quad_ok :: "quad_sim \<Rightarrow> bool" where
  "quad_ok s \<longleftrightarrow> length (g_routers s) = 85 \<and>
     (\<forall>i < 85. quad_shape (fst (quad_pos i)) (snd (quad_pos i)) (g_routers s ! i) \<and> packets_known (g_routers s ! i)) \<and>
     hosts_ok (\<lambda>a. 21 + a div 4) s"

lemma log2_sizes: "log2 256 = 8" "log2 64 = 6" "log2 16 = 4" "log2 4 = 2"
  by (simp_all add: log2.simps)

lemma last_address: "0 < n \<Longrightarrow> (of_nat a :: u16) + of_nat n - 1 = of_nat (a + (n - 1))"
  by (simp add: of_nat_diff)

lemma middle_address:
  assumes "a + n \<le> 256" "0 < n" shows "subnet_middle (of_nat a) (of_nat (a + (n - 1))) = of_nat (a + (n - 1) div 2)"
proof -
  have "unat (of_nat a :: u16) + unat (of_nat (a + (n - 1)) :: u16) = a * 2 + (n - 1)" using assms by (simp only: unat_addr)
  then show ?thesis by (simp add: subnet_middle_def)
qed

lemma quad_new_eq:
  assumes l: "l < 4" and q: "q < 4 ^ l"
  shows "quad_subnet l q (quad_new l q)" "m_parentRouter (quad_new l q) = (if l = 0 then None else Some (quad_first (l - 1) + q div 4))"
    "quad_new l q = (quad_new l q)\<lparr>m_children := replicate 4 None, m_inboxes := replicate 5 no_packet, m_inboxValid := replicate 5 False,
      m_inboxForwardTime := replicate 5 0, m_outboxBlocked := replicate 5 False, m_outboxClearTime := replicate 5 0, m_rrcount := 0\<rparr>"
proof -
  have high: "(of_nat (q * quad_size l) :: u16) + of_nat (quad_size l) - 1 = of_nat (q * quad_size l + (quad_size l - 1))"
    by (rule last_address) (rule quad_places(2) [OF l])
  have "q * quad_size l + quad_size l \<le> 256" "0 < quad_size l" using quad_places [OF l] q by auto
  then have size: "unat (of_nat (q * quad_size l + (quad_size l - 1)) :: u16) - unat (of_nat (q * quad_size l) :: u16) + 1 = quad_size l"
    by (simp only: unat_addr)
  show "quad_subnet l q (quad_new l q)"
    unfolding quad_new_def QuadtreeRouter_def Let_def high size quad_subnet_def
    by (rule quad_row_cases [OF l]; simp add: log2_sizes mask_numeral)
  show "m_parentRouter (quad_new l q) = (if l = 0 then None else Some (quad_first (l - 1) + q div 4))"
    by (simp add: quad_new_def QuadtreeRouter_def Let_def)
  show "quad_new l q = (quad_new l q)\<lparr>m_children := replicate 4 None, m_inboxes := replicate 5 no_packet, m_inboxValid := replicate 5 False,
      m_inboxForwardTime := replicate 5 0, m_outboxBlocked := replicate 5 False, m_outboxClearTime := replicate 5 0, m_rrcount := 0\<rparr>"
    by (simp add: quad_new_def QuadtreeRouter_def Let_def)
qed

lemma quad_add_child:
  assumes r: "quad_subnet l q r" and l: "l < 4" and q: "q < 4 ^ l" and i: "i < 4" and a: "a div quad_size (l + 1) = 4 * q + i" "a < 256"
  shows "QuadAddChild child (of_nat a) r = r\<lparr>m_children := (m_children r)[i := Some child]\<rparr>"
proof -
  have "a div quad_size l = a div quad_size (l + 1) div 4"
    by (rule quad_row_cases [OF l]; simp add: div_mult2_eq [symmetric])
  then have "a div quad_size l = q" "a div quad_size (l + 1) mod 4 = i" using a i by simp_all
  then show ?thesis using quad_port [OF r l q a(2)] i by (simp add: QuadAddChild_def)
qed

lemma quad_children_eq:
  assumes r: "quad_subnet l q r" and l: "l < 4" and q: "q < 4 ^ l" and "length (m_children r) = 4"
  shows "quad_children l q r = r\<lparr>m_children := map (\<lambda>i. Some (quad_child l q i)) [0..<4]\<rparr>"
proof -
  let ?f = "\<lambda>i r. let size = quad_size l div 4; cbase = of_nat (q * quad_size l + i * size) :: u16 in
       if size = 1 then QuadAddChild (Host (unat cbase)) cbase r
       else QuadAddChild (Router (quad_first (l + 1) + (4 * q + i))) (subnet_middle cbase (cbase + of_nat size - 1)) r"
  have f: "?f i t = t\<lparr>m_children := (m_children t)[i := Some (quad_child l q i)]\<rparr>" if i: "i < 4" and t: "quad_subnet l q t" for i t
  proof (cases "l = 3")
    case True
    then have "4 * q + i < 256" using q i by simp
    then show ?thesis using quad_add_child [OF t l q i, of "4 * q + i"] True
      by (simp add: quad_child_def unat_addr mult.commute del: of_nat_add of_nat_mult)
  next
    case False
    define n where "n = quad_size (l + 1)"
    have n: "quad_size l div 4 = n" "1 < n" "quad_size l = 4 * n" unfolding n_def using False by (rule_tac [!] quad_row_cases [OF l]; simp)+
    define c where "c = q * quad_size l + i * n"
    have c: "c = (4 * q + i) * n" by (simp add: c_def n(3) algebra_simps)
    have "q * quad_size l + quad_size l \<le> 256" by (rule quad_places(1) [OF l q])
    moreover have "i * n + n \<le> 4 * n" using i mult_le_mono1 [of "i + 1" 4 n] by (simp add: algebra_simps)
    ultimately have cn: "c + n \<le> 256" unfolding c_def n(3) by linarith
    have "(n - 1) div 2 < n" using n(2) by linarith
    then have mid: "(c + (n - 1) div 2) div n = 4 * q + i" "c + (n - 1) div 2 < 256" using cn n(2) by (simp_all add: c)
    have "0 < n" using n(2) by simp
    then have "subnet_middle (of_nat c) (of_nat c + of_nat n - 1) = of_nat (c + (n - 1) div 2)"
      by (simp only: last_address middle_address [OF cn])
    moreover have "n \<noteq> 1" using n(2) by simp
    moreover have "quad_child l q i = Router (quad_first (l + 1) + (4 * q + i))" using False by (simp add: quad_child_def)
    ultimately show ?thesis
      using quad_add_child [OF t l q i, folded n_def, OF mid] by (simp only: n(1) Let_def c_def [symmetric] if_False)
  qed
  have subnet: "quad_subnet l q (r\<lparr>m_children := cs\<rparr>)" for cs using r by (simp add: quad_subnet_def)
  from fold_children [where P = "quad_subnet l q" and f = ?f and n = 4 and r = r, OF f subnet] assms(4)
  show ?thesis by (simp add: quad_children_def)
qed

lemma nth_rows:
  assumes l: "l < 4" and q: "q < 4 ^ l"
  shows "(map (f 0) [0..<1] @ map (f 1) [0..<4] @ map (f 2) [0..<16] @ map (f 3) [0..<64]) ! (quad_first l + q) = f l q"
  by (rule quad_row_cases [OF l]) (use q in \<open>simp_all add: nth_append del: upt_rec_numeral\<close>)

lemma new_quad_router:
  assumes l: "l < 4" and q: "q < 4 ^ l"
  shows "g_routers (CreateQuadtreeNetwork rand) ! (quad_first l + q) = quad_children l q (quad_new l q)"
proof -
  have "[0..<4] = [0, 1, 2, 3 :: nat]" by (simp add: upt_rec)
  then have rows: "g_routers (CreateQuadtreeNetwork rand) = map (\<lambda>q. quad_children 0 q (quad_new 0 q)) [0..<1] @
      map (\<lambda>q. quad_children 1 q (quad_new 1 q)) [0..<4] @ map (\<lambda>q. quad_children 2 q (quad_new 2 q)) [0..<16] @
      map (\<lambda>q. quad_children 3 q (quad_new 3 q)) [0..<64]"
    by (simp add: CreateQuadtreeNetwork_def del: upt_rec_numeral)
  show ?thesis unfolding rows by (rule nth_rows [OF l q])
qed

lemma new_quad_shape:
  assumes l: "l < 4" and q: "q < 4 ^ l"
  shows "quad_shape l q (quad_children l q (quad_new l q))" "packets_known (quad_children l q (quad_new l q))"
proof -
  note new = quad_new_eq [OF l q]
  have fields: "m_children (quad_new l q) = replicate 4 None" "m_inboxes (quad_new l q) = replicate 5 no_packet"
    "m_inboxValid (quad_new l q) = replicate 5 False" "m_inboxForwardTime (quad_new l q) = replicate 5 0"
    "m_outboxBlocked (quad_new l q) = replicate 5 False" "m_outboxClearTime (quad_new l q) = replicate 5 0" "m_rrcount (quad_new l q) = 0"
    by (subst new(3); simp)+
  have r: "quad_children l q (quad_new l q) = (quad_new l q)\<lparr>m_children := map (\<lambda>i. Some (quad_child l q i)) [0..<4]\<rparr>"
    by (rule quad_children_eq [OF new(1) l q]) (simp add: fields)
  show "quad_shape l q (quad_children l q (quad_new l q))"
    unfolding r using new(1,2) by (simp add: quad_shape_def fields quad_subnet_def del: upt_rec_numeral)
  show "packets_known (quad_children l q (quad_new l q))"
    unfolding r by (simp add: packets_known_def packet_known_def fields no_packet_def)
qed

lemma new_quad_ok: "quad_ok (CreateQuadtreeNetwork rand)" "g_time (CreateQuadtreeNetwork rand) = 0"
proof -
  have "quad_shape (fst (quad_pos i)) (snd (quad_pos i)) (g_routers (CreateQuadtreeNetwork rand) ! i) \<and>
      packets_known (g_routers (CreateQuadtreeNetwork rand) ! i)" if "i < 85" for i
  proof -
    obtain l q where pos: "quad_pos i = (l, q)" by (cases "quad_pos i")
    note i = quad_index_pos [OF that pos]
    show ?thesis using new_quad_router [OF i(1,2)] new_quad_shape [OF i(1,2)] by (simp add: pos i(3) quad_pos_index [OF i(1,2)])
  qed
  moreover have "length (g_routers (CreateQuadtreeNetwork rand)) = 85" by (simp add: CreateQuadtreeNetwork_def upt_rec length_concat)
  moreover have "hosts_ok (\<lambda>a. 21 + a div 4) (CreateQuadtreeNetwork rand)"
    by (simp add: CreateQuadtreeNetwork_def del: upt_rec_numeral)
  ultimately show "quad_ok (CreateQuadtreeNetwork rand)" by (simp add: quad_ok_def)
  show "g_time (CreateQuadtreeNetwork rand) = 0" by (simp add: CreateQuadtreeNetwork_def del: upt_rec_numeral)
qed

section \<open>The network stays as it is\<close>

definition quad_evo :: "quad_sim \<Rightarrow> quad_sim \<Rightarrow> bool" where
  "quad_evo s0 s \<longleftrightarrow> quad_ok s \<and> counters_kept {} s0 s"

lemma quad_evo_refl: "quad_ok s \<Longrightarrow> quad_evo s s"
  by (simp add: quad_evo_def counters_kept_def)

lemma quad_okD:
  assumes "quad_ok s"
  shows "length (g_routers s) = 85" "i < 85 \<Longrightarrow> quad_pos i = (l, q) \<Longrightarrow> quad_shape l q (g_routers s ! i)"
    "i < 85 \<Longrightarrow> packets_known (g_routers s ! i)" "hosts_ok (\<lambda>a. 21 + a div 4) s"
  using assms by (auto simp: quad_ok_def)

definition quad_alike :: "quad_router \<Rightarrow> quad_router \<Rightarrow> bool" where
  "quad_alike r r' \<longleftrightarrow>
     m_subnetLow r' = m_subnetLow r \<and> m_subnetHigh r' = m_subnetHigh r \<and> m_subnetMask r' = m_subnetMask r \<and>
     m_portMask r' = m_portMask r \<and> m_portShift r' = m_portShift r \<and> m_parentRouter r' = m_parentRouter r \<and>
     m_children r' = m_children r \<and> length (m_inboxes r') = length (m_inboxes r) \<and> length (m_inboxValid r') = length (m_inboxValid r) \<and>
     length (m_inboxForwardTime r') = length (m_inboxForwardTime r) \<and> length (m_outboxBlocked r') = length (m_outboxBlocked r) \<and>
     length (m_outboxClearTime r') = length (m_outboxClearTime r)"

lemma quad_set_router:
  assumes ok: "quad_ok s" and i: "i < 85" and r: "quad_alike (g_routers s ! i) r" "packets_known r" "m_rrcount r \<le> 5"
  shows "quad_ok (set_router i r s)"
proof -
  obtain l q where pos: "quad_pos i = (l, q)" by (cases "quad_pos i")
  have "quad_shape l q r" using quad_okD(2) [OF ok i pos] r(1,3) by (simp add: quad_shape_def quad_alike_def quad_subnet_def)
  then show ?thesis using ok i r(2) by (auto simp: quad_ok_def hosts_ok_updates nth_list_update pos)
qed

lemma quad_evo_set_router:
  assumes evo: "quad_evo s0 s" and i: "i < 85" and r: "quad_alike (g_routers s ! i) r" "packets_known r" "m_rrcount r = m_rrcount (g_routers s ! i)"
  shows "quad_evo s0 (set_router i r s)"
proof -
  have ok: "quad_ok s" using evo by (simp add: quad_evo_def)
  obtain l q where pos: "quad_pos i = (l, q)" by (cases "quad_pos i")
  have "m_rrcount r \<le> 5" using quad_okD(2) [OF ok i pos] r(3) by (simp add: quad_shape_def)
  then show ?thesis using quad_set_router [OF ok i r(1,2)] counters_kept_set_router [OF r(3)] evo by (simp add: quad_evo_def)
qed

lemma quad_ok_kept [simp]:
  "quad_ok s \<Longrightarrow> quad_ok (set_kind h k s)" "quad_ok (Processed packet s) = quad_ok s"
  "quad_ok (s\<lparr>rng := f\<rparr>) = quad_ok s" "quad_ok (s\<lparr>g_time := t\<rparr>) = quad_ok s"
  by (simp_all add: quad_ok_def hosts_ok_updates)

lemma quad_port_less:
  assumes "quad_ok s" "i < 85" shows "QuadPortOf (g_routers s ! i) addr < 5"
proof -
  obtain l q where pos: "quad_pos i = (l, q)" by (cases "quad_pos i")
  have "quad_subnet l q (g_routers s ! i)" using quad_okD(2) [OF assms pos] by (simp add: quad_shape_def)
  then have "unat (drop_bit (m_portShift (g_routers s ! i)) (addr AND m_portMask (g_routers s ! i))) < 4"
    using quad_index_pos(1) [OF assms(2) pos] unfolding quad_subnet_def by (simp only: drop_bit_and quad_powers unat_and_3)
  then show ?thesis by (simp add: QuadPortOf_def)
qed

lemma quad_accept_ok:
  assumes evo: "quad_evo s0 s" and i: "i < 85" and packet: "packet_known packet" and node: "node_ok 85 node"
  shows "wp (\<lambda>e. False) (\<lambda>(ok, s). quad_evo s0 s) (QuadAcceptMessage i packet node s)"
proof -
  have ok: "quad_ok s" using evo by (simp add: quad_evo_def)
  obtain l q where pos: "quad_pos i = (l, q)" by (cases "quad_pos i")
  have len: "length (m_inboxes (g_routers s ! i)) = 5" "length (m_inboxValid (g_routers s ! i)) = 5"
    "length (m_inboxForwardTime (g_routers s ! i)) = 5" using quad_okD(2) [OF ok i pos] by (simp_all add: quad_shape_def)
  obtain p where p: "p < 5" "QuadPortNumber (g_routers s ! i) node s = Inr p"
    using node quad_port_less [OF ok i] quad_okD(1,4) [OF ok]
    by (cases node) (auto simp: node_ok_def QuadPortNumber_def hosts_ok_def)
  have known: "packets_known ((g_routers s ! i)\<lparr>m_inboxes := (m_inboxes (g_routers s ! i))[p := packet], m_inboxValid := v, m_inboxForwardTime := t\<rparr>)" for v t
    using quad_okD(3) [OF ok i] packet set_update_subset_insert [of "m_inboxes (g_routers s ! i)" p packet] by (auto simp: packets_known_def)
  show ?thesis
    using evo i p len quad_okD(1) [OF ok]
    by (auto simp: QuadAcceptMessage_def RouterAcceptMessage_def intro!: quad_evo_set_router known) (simp_all add: quad_alike_def)
qed

interpretation quad: hosts_network QuadAcceptMessage "quad_evo s0" "\<lambda>a. 21 + a div 4" for s0
proof
  fix s packet h assume "quad_evo s0 s" "h < (256 :: nat)" "packet_known packet"
  then show "wp (\<lambda>e. False) (\<lambda>(ok, s). quad_evo s0 s) (QuadAcceptMessage (21 + h div 4) packet (Host h) s)"
    by (intro quad_accept_ok) (auto simp: node_ok_def)
qed (auto simp: quad_evo_def counters_kept_def intro: quad_okD(4))

lemma quad_updates_ok:
  assumes evo: "quad_evo s0 s" and i: "i < 85"
  shows "quad_evo s0 (empty_inbox i p s)" "quad_evo s0 (block_outbox i d s)"
proof -
  have "packets_known (g_routers s ! i)" using evo quad_okD(3) i by (auto simp: quad_evo_def)
  then show "quad_evo s0 (empty_inbox i p s)" "quad_evo s0 (block_outbox i d s)"
    unfolding empty_inbox_def block_outbox_def Let_def
    by (rule_tac quad_evo_set_router [OF evo i]; simp add: quad_alike_def packets_known_def)+
qed

end
