(* ===== verification/Noc_Tree_Runs.thy ===== *)
theory Noc_Tree_Runs
  imports Noc_Tree
begin

text \<open>
  Runs of the simulation of the tree: forwarding, where a run can stop, the way of a packet, and the port of the parent.
\<close>

section \<open>Forwarding\<close>

definition quad_parent :: "nat \<Rightarrow> nat \<Rightarrow> nat" where
  "quad_parent l q = quad_first (l - 1) + q div 4"

text \<open>Where router \<open>i\<close> sends a packet for address \<open>a\<close>.\<close>

definition quad_next :: "nat \<Rightarrow> nat \<Rightarrow> node" where
  "quad_next a i = (case quad_pos i of (l, q) \<Rightarrow>
     if a div quad_size l = q then quad_child l q (a div quad_size (l + 1) mod 4) else Router (quad_parent l q))"

lemma quad_node_ok:
  assumes "l < 4" "q < 4 ^ l"
  shows "k < 4 \<Longrightarrow> node_ok 85 (quad_child l q k)" "0 < l \<Longrightarrow> quad_parent l q < 85"
  using assms by (elim quad_row_cases; auto simp: node_ok_def quad_child_def quad_parent_def)+

lemma quad_next_ok: "i < 85 \<Longrightarrow> a < 256 \<Longrightarrow> node_ok 85 (quad_next a i)"
proof -
  assume i: "i < 85" and a: "a < 256"
  obtain l q where pos: "quad_pos i = (l, q)" by (cases "quad_pos i")
  note lq = quad_index_pos [OF i pos]
  have "0 < l" if "a div quad_size l \<noteq> q" using that lq(2) a by (cases l) auto
  then show ?thesis using quad_node_ok [OF lq(1,2)] by (auto simp: quad_next_def pos node_ok_def)
qed

lemma quad_forward_eq:
  fixes i p s
  defines "r \<equiv> g_routers s ! i" and "packet \<equiv> m_inboxes (g_routers s ! i) ! p"
  defines "a \<equiv> unat (p_to (m_inboxes (g_routers s ! i) ! p))"
  assumes ok: "quad_ok s" and i: "i < 85" and p: "p < 5"
  obtains d where "QuadPortOf r (p_to packet) = d" "d < 5" "packet_known packet" "a < 256"
    "QuadTryForwardFrom i p s =
       (if \<not> m_inboxValid r ! p \<or> m_inboxForwardTime r ! p > g_time s \<or> m_outboxBlocked r ! d then Inr (False, s)
        else andthen (case quad_next a i of Router j \<Rightarrow> QuadAcceptMessage j packet (Router i) s
            | Host h \<Rightarrow> HostAcceptMessage QuadAcceptMessage h packet s)
          (\<lambda>(ok, s). Inr (True, empty_inbox i p (block_outbox i d s))))"
proof -
  obtain l q where pos: "quad_pos i = (l, q)" by (cases "quad_pos i")
  note lq = quad_index_pos [OF i pos]
  have shape: "quad_shape l q r" and known: "packets_known r" using quad_okD(2,3) [OF ok i] pos unfolding r_def by blast+
  have len: "length (m_inboxes r) = 5" "length (m_inboxValid r) = 5" "length (m_inboxForwardTime r) = 5"
    "length (m_outboxBlocked r) = 5" using shape by (simp_all add: quad_shape_def)
  have packet: "packet_known packet" using known len p by (simp add: packets_known_def packet_def r_def)
  then have a: "a < 256" "p_to packet = of_nat a" by (simp_all add: packet_known_def packet_def a_def)
  define d where "d = QuadPortOf r (p_to packet)"
  have d: "d < 5" unfolding d_def r_def by (rule quad_port_less [OF ok i])
  have port: "d = (if a div quad_size l = q then a div quad_size (l + 1) mod 4 else 4)"
    using quad_port [OF _ lq(1,2) a(1), of r] shape unfolding d_def a(2) by (simp add: quad_shape_def)
  have r: "aget (g_routers s) i = Inr r" using i quad_okD(1) [OF ok] by (simp add: r_def)
  have packet_eq: "m_inboxes r ! p = packet" by (simp add: packet_def r_def)
  have forward: "quad_forward i d r packet s = andthen (case quad_next a i of Router j \<Rightarrow> QuadAcceptMessage j packet (Router i) s
            | Host h \<Rightarrow> HostAcceptMessage QuadAcceptMessage h packet s) (\<lambda>(ok, s). Inr s)"
    and root: "\<not> (d = 4 \<and> m_parentRouter r = None)"
  proof -
    have child: "d \<noteq> 4 \<Longrightarrow> m_children r ! d = Some (quad_child l q d)" and parent: "m_parentRouter r = (if l = 0 then None else Some (quad_parent l q))"
      using shape d by (simp_all add: quad_shape_def quad_parent_def del: upt_rec_numeral)
    have l: "0 < l" if "d = 4" using that port lq(2) a(1) by (cases l) (auto split: if_splits)
    then show "\<not> (d = 4 \<and> m_parentRouter r = None)" using parent by auto
    show "quad_forward i d r packet s = andthen (case quad_next a i of Router j \<Rightarrow> QuadAcceptMessage j packet (Router i) s
            | Host h \<Rightarrow> HostAcceptMessage QuadAcceptMessage h packet s) (\<lambda>(ok, s). Inr s)"
    proof (cases "d = 4")
      case True
      then have "a div quad_size l \<noteq> q" using port by auto
      then show ?thesis using True l parent by (simp add: quad_forward_def quad_next_def pos)
    next
      case False
      then have "quad_next a i = quad_child l q d" using port by (simp add: quad_next_def pos split: if_splits)
      moreover have "length (m_children r) = 4" using shape by (simp add: quad_shape_def)
      ultimately show ?thesis using False child d by (simp add: quad_forward_def split: node.split)
    qed
  qed
  have "QuadTryForwardFrom i p s =
       (if \<not> m_inboxValid r ! p \<or> m_inboxForwardTime r ! p > g_time s \<or> m_outboxBlocked r ! d then Inr (False, s)
        else andthen (case quad_next a i of Router j \<Rightarrow> QuadAcceptMessage j packet (Router i) s
            | Host h \<Rightarrow> HostAcceptMessage QuadAcceptMessage h packet s)
          (\<lambda>(ok, s). Inr (True, empty_inbox i p (block_outbox i d s))))"
    using root p len d
    by (auto simp: QuadTryForwardFrom_def r packet_eq Let_def d_def [symmetric] forward andthen_assoc split_def)
  then show thesis using that [of d] d packet a(1) d_def by blast
qed

lemma quad_forward_ok:
  assumes evo: "quad_evo s0 s" and i: "i < 85" and p: "p < 5"
  shows "wp (\<lambda>e. False) (\<lambda>(ok, s). quad_evo s0 s) (QuadTryForwardFrom i p s)"
proof -
  have ok: "quad_ok s" using evo by (simp add: quad_evo_def)
  show ?thesis
  proof (rule quad_forward_eq [OF ok i p], goal_cases)
    case (1 d)
    let ?packet = "m_inboxes (g_routers s ! i) ! p"
    have node: "node_ok 85 (quad_next (unat (p_to ?packet)) i)" by (rule quad_next_ok [OF i 1(4)])
    have "wp (\<lambda>e. False) (\<lambda>(ok, s). quad_evo s0 s) (case quad_next (unat (p_to ?packet)) i of
        Router j \<Rightarrow> QuadAcceptMessage j ?packet (Router i) s | Host h \<Rightarrow> HostAcceptMessage QuadAcceptMessage h ?packet s)"
    proof (cases "quad_next (unat (p_to ?packet)) i")
      case (Router j)
      with node have j: "j < 85" by (simp add: node_ok_def)
      show ?thesis using quad_accept_ok [OF evo j 1(3), of "Router i"] Router i by (simp add: node_ok_def)
    next
      case (Host h)
      with node have "h < 256" by (simp add: node_ok_def)
      from quad.accept_ok [OF evo this 1(3)] Host show ?thesis by (auto elim!: wp_mono)
    qed
    then show ?thesis
      unfolding 1(5) using evo by (auto intro!: quad_updates_ok [OF _ i] elim!: wp_mono)
  qed
qed

lemma quad_router_updates:
  assumes ok: "quad_ok s" and i: "i < 85"
  shows "quad_ok (set_router i (clear_outboxes t (g_routers s ! i)) s)"
    and "f (m_rrcount (g_routers s ! i)) \<le> 5 \<Longrightarrow> quad_ok (set_rrcount i f s)"
    and "m_rrcount (g_routers s ! i) \<le> 5" and "length (m_inboxValid (g_routers s ! i)) = 5"
proof -
  obtain l q where pos: "quad_pos i = (l, q)" by (cases "quad_pos i")
  have shape: "quad_shape l q (g_routers s ! i)" "packets_known (g_routers s ! i)" using quad_okD(2,3) [OF ok i] pos by blast+
  then show "m_rrcount (g_routers s ! i) \<le> 5" "length (m_inboxValid (g_routers s ! i)) = 5" by (simp_all add: quad_shape_def)
  show "quad_ok (set_router i (clear_outboxes t (g_routers s ! i)) s)"
    using shape by (intro quad_set_router [OF ok i]; simp add: clear_outboxes_def quad_alike_def packets_known_def quad_shape_def)
  show "f (m_rrcount (g_routers s ! i)) \<le> 5 \<Longrightarrow> quad_ok (set_rrcount i f s)"
    unfolding set_rrcount_def Let_def
    using shape by (intro quad_set_router [OF ok i]; simp add: quad_alike_def packets_known_def)
qed

interpretation quad_cycles: router_network QuadAcceptMessage QuadTryForwardFrom 5 85 quad_ok
proof
  fix s i p assume "quad_ok s" "i < (85 :: nat)" "p < (5 :: nat)"
  from quad_forward_ok [OF quad_evo_refl [OF this(1)] this(2,3)]
  show "wp (\<lambda>e. False) (\<lambda>(b, s'). quad_ok s' \<and> counters_kept {} s s') (QuadTryForwardFrom i p s)" by (simp add: quad_evo_def)
next
  fix s h assume "quad_ok s" "h < (256 :: nat)"
  from quad.timestep_ok [OF quad_evo_refl [OF this(1)] this(2)]
  show "wp (\<lambda>e. False) (\<lambda>s'. quad_ok s' \<and> counters_kept {} s s') (HostTimestep QuadAcceptMessage h s)" by (simp add: quad_evo_def [abs_def])
next
  fix s i assume ok: "quad_ok s" and i: "i < (85 :: nat)"
  show "QuadTryForwardFrom i 5 s = Inl OutOfBounds"
    using i quad_okD(1) [OF ok] quad_router_updates(4) [OF ok i] by (simp add: QuadTryForwardFrom_def aget_def)
qed (simp_all add: quad_router_updates quad_okD(1))

lemmas quad_defs = QuadCycle_def QuadTimestep_def

section \<open>The way of a packet\<close>

definition quad_hop :: "quad_sim \<Rightarrow> u16 \<Rightarrow> nat \<Rightarrow> nat option" where
  "quad_hop s addr i =
     (let r = g_routers s ! i; p = QuadPortOf r addr in
      if p = 4 then m_parentRouter r else case m_children r ! p of Some (Router j) \<Rightarrow> Some j | _ \<Rightarrow> None)"

text \<open>Up to the first router whose subnet has the address, and down from there to the last row.\<close>

primrec quad_hops :: "nat \<Rightarrow> nat \<Rightarrow> nat \<Rightarrow> nat" where
  "quad_hops a 0 q = 3"
| "quad_hops a (Suc l) q = (if a div quad_size (Suc l) = q then 2 - l else Suc (quad_hops a l (q div 4)))"

definition quad_distance :: "nat \<Rightarrow> nat \<Rightarrow> nat" where
  "quad_distance a i = (case quad_pos i of (l, q) \<Rightarrow> quad_hops a l q)"

lemma quad_hops_inside: "l < 4 \<Longrightarrow> a div quad_size l = q \<Longrightarrow> quad_hops a l q = 3 - l"
  by (cases l) simp_all

lemma quad_hops_0: "l < 4 \<Longrightarrow> quad_hops a l q = 0 \<Longrightarrow> l = 3 \<and> a div 4 = q"
  by (elim quad_row_cases) (auto simp: numeral_2_eq_2 numeral_3_eq_3 split: if_splits)

lemma quad_hops_bound: "l < 4 \<Longrightarrow> quad_hops a l q \<le> 3 + l"
  by (induction l arbitrary: q) auto

lemma quad_hop_eq:
  assumes ok: "quad_ok s" and i: "i < 85" and a: "a < 256"
  shows "quad_hop s (of_nat a) i = (case quad_next a i of Router j \<Rightarrow> Some j | Host h \<Rightarrow> None)"
proof -
  obtain l q where pos: "quad_pos i = (l, q)" by (cases "quad_pos i")
  note lq = quad_index_pos [OF i pos]
  have shape: "quad_shape l q (g_routers s ! i)" by (rule quad_okD(2) [OF ok i pos])
  then have port: "QuadPortOf (g_routers s ! i) (of_nat a) = (if a div quad_size l = q then a div quad_size (l + 1) mod 4 else 4)"
    using quad_port [OF _ lq(1,2) a] by (simp add: quad_shape_def)
  have "a div quad_size (l + 1) mod 4 < 4" "a div quad_size (l + 1) mod 4 \<noteq> 4" using mod_less_divisor [of 4 "a div quad_size (l + 1)"] by linarith+
  moreover have "l \<noteq> 0 \<or> a div quad_size l = q" using lq(2) a by (cases l) auto
  ultimately show ?thesis
    using port shape by (cases "a div quad_size l = q")
      (auto simp: quad_hop_def quad_next_def pos quad_shape_def quad_parent_def Let_def split: node.split simp del: upt_rec_numeral)
qed

lemma quad_next_closer:
  assumes i: "i < 85" and a: "a < 256" and d: "quad_distance a i = Suc n"
  shows "\<exists>j. quad_next a i = Router j \<and> j < 85 \<and> quad_distance a j = n"
proof -
  obtain l q where pos: "quad_pos i = (l, q)" by (cases "quad_pos i")
  note lq = quad_index_pos [OF i pos]
  show ?thesis
  proof (cases "a div quad_size l = q")
    case True
    then have n: "3 - l = Suc n" using d quad_hops_inside [OF lq(1) True] by (simp add: quad_distance_def pos)
    define q' where "q' = a div quad_size (l + 1)"
    have "a div quad_size l = q' div 4" unfolding q'_def by (rule quad_row_cases [OF lq(1)]; simp add: div_mult2_eq [symmetric])
    then have "4 * q + q' mod 4 = q'" using True by simp
    then have "quad_next a i = Router (quad_first (l + 1) + q')"
      using n True by (auto simp: quad_next_def pos quad_child_def q'_def)
    moreover have l: "l + 1 < 4" using n by linarith
    moreover have "q' < 4 ^ (l + 1)" using a unfolding q'_def by (rule_tac quad_row_cases [OF l]; simp)
    ultimately show ?thesis
      using n quad_pos_index [of "l + 1" q'] quad_hops_inside [of "l + 1" a q'] by (auto simp: quad_distance_def q'_def)
  next
    case False
    then obtain m where m: "l = Suc m" using lq(2) a by (cases l) auto
    have next_: "quad_next a i = Router (quad_first m + q div 4)" using False by (simp add: quad_next_def pos quad_parent_def m)
    have "m < 4" "q div 4 < 4 ^ m" using lq(1,2) m by (auto simp: less_mult_imp_div_less mult.commute)
    then show ?thesis using next_ d False quad_pos_index [of m "q div 4"] by (auto simp: quad_distance_def pos m)
  qed
qed

interpretation quad_routing: routing "\<lambda>a. quad_hop s (of_nat a)" quad_distance "\<lambda>a i. quad_ok s \<and> a < 256 \<and> i < 85" for s
proof
  fix a i n assume known: "quad_ok s \<and> a < 256 \<and> i < 85" and n: "quad_distance a i = Suc n"
  then obtain j where "quad_next a i = Router j" "j < 85" "quad_distance a j = n" using quad_next_closer by blast
  then show "\<exists>j. quad_hop s (of_nat a) i = Some j \<and> (quad_ok s \<and> a < 256 \<and> j < 85) \<and> quad_distance a j = n"
    using known quad_hop_eq by auto
qed

lemma quad_arrives:
  assumes "quad_ok s" "a < 256" "i < 85"
  shows "noc_walk (quad_hop s (of_nat a)) (quad_distance a i) i = Some (21 + a div 4)"
proof -
  obtain j where j: "noc_walk (quad_hop s (of_nat a)) (quad_distance a i) i = Some j" "j < 85" "quad_distance a j = 0"
    using quad_routing.arrives [of s a i] assms by blast
  obtain l q where pos: "quad_pos j = (l, q)" by (cases "quad_pos j")
  note lq = quad_index_pos [OF j(2) pos]
  have "l = 3 \<and> a div 4 = q" using quad_hops_0 [OF lq(1)] j(3) by (simp add: quad_distance_def pos)
  then show ?thesis using j(1) lq(3) by simp
qed

section \<open>The port of the parent\<close>

lemma quad_router_port:
  assumes ok: "quad_ok s" and l: "l < 4" and q: "q < 4 ^ l"
  shows "QuadPortNumber r (Router (quad_first l + q)) s = Inr (QuadPortOf r (of_nat (q * quad_size l + (quad_size l - 1) div 2)))"
    and "q * quad_size l + (quad_size l - 1) div 2 < 256"
proof -
  note pos = quad_pos_index [OF l q]
  have "quad_subnet l q (g_routers s ! (quad_first l + q))" using quad_okD(2) [OF ok, of _ l q] pos by (simp add: quad_shape_def)
  moreover have bound: "q * quad_size l + quad_size l \<le> 256" "0 < quad_size l" using quad_places l q by auto
  ultimately show "QuadPortNumber r (Router (quad_first l + q)) s = Inr (QuadPortOf r (of_nat (q * quad_size l + (quad_size l - 1) div 2)))"
    using pos quad_okD(1) [OF ok] middle_address [OF bound] by (simp add: QuadPortNumber_def quad_subnet_def del: of_nat_add of_nat_mult)
  have "(quad_size l - 1) div 2 < quad_size l" using bound(2) by linarith
  then show "q * quad_size l + (quad_size l - 1) div 2 < 256" using bound(1) by linarith
qed

lemma div_place: "r < n \<Longrightarrow> (k * n + r) div n = (k :: nat)"
  by simp

lemma quad_parent_port:
  assumes ok: "quad_ok s" and i: "i < 85" and pos: "quad_pos i = (l, q)" and l: "0 < l"
  shows "QuadPortNumber (g_routers s ! i) (Router (quad_parent l q)) s = Inr (if q mod 4 = 1 then 3 else 4)"
proof -
  note lq = quad_index_pos [OF i pos]
  have r: "quad_subnet l q (g_routers s ! i)" using quad_okD(2) [OF ok i pos] by (simp add: quad_shape_def)
  have p: "l - 1 < 4" "q div 4 < 4 ^ (l - 1)" using lq(1,2) l by (cases l; auto simp: less_mult_imp_div_less mult.commute)+
  define a where "a = q div 4 * quad_size (l - 1) + (quad_size (l - 1) - 1) div 2"
  note port = quad_router_port(1) [OF ok p, of "g_routers s ! i", folded a_def quad_parent_def] quad_router_port(2) [OF ok p, folded a_def]
  define m where "m = quad_size (l + 1)"
  have m: "0 < m" "quad_size l = 4 * m" "quad_size (l - 1) = 16 * m" using l unfolding m_def by (rule_tac [!] quad_row_cases [OF lq(1)]; simp)+
  have half: "(16 * m - 1) div 2 = 8 * m - 1" using m(1) by linarith
  have a: "a = (4 * (q div 4) + 1) * (4 * m) + (4 * m - 1)" "a = (16 * (q div 4) + 7) * m + (m - 1)"
    unfolding a_def m(3) half using m(1) by (simp_all add: algebra_simps)
  have "a div quad_size l = 4 * (q div 4) + 1" unfolding a(1) m(2) by (rule div_place) (use m(1) in simp)
  moreover have "a div quad_size (l + 1) = 16 * (q div 4) + 7" unfolding a(2) m_def [symmetric] by (rule div_place) (use m(1) in simp)
  moreover have "(16 * (q div 4) + 7) mod 4 = 3" by presburger
  moreover have "4 * (q div 4) + 1 = q \<longleftrightarrow> q mod 4 = 1" by presburger
  ultimately show ?thesis using port(1) quad_port [OF r lq(1,2) port(2)] by simp
qed

lemma quad_child_port:
  assumes ok: "quad_ok s" and i: "i < 85" and pos: "quad_pos i = (l, q)" and k: "k < 4"
  shows "QuadPortNumber (g_routers s ! i) (quad_child l q k) s = Inr k"
proof -
  note lq = quad_index_pos [OF i pos]
  have r: "quad_subnet l q (g_routers s ! i)" using quad_okD(2) [OF ok i pos] by (simp add: quad_shape_def)
  show ?thesis
  proof (cases "l = 3")
    case True
    then have "4 * q + k < 256" using lq(2) k by simp
    then show ?thesis using quad_port [OF r lq(1,2), of "4 * q + k"] quad_okD(4) [OF ok] True k
      by (simp add: quad_child_def QuadPortNumber_def hosts_ok_def del: of_nat_add of_nat_mult)
  next
    case False
    then have c: "l + 1 < 4" "4 * q + k < 4 ^ (l + 1)" using lq(1,2) k by simp_all
    define a where "a = (4 * q + k) * quad_size (l + 1) + (quad_size (l + 1) - 1) div 2"
    note port = quad_router_port(1) [OF ok c, of "g_routers s ! i", folded a_def] quad_router_port(2) [OF ok c, folded a_def]
    have "a div quad_size (l + 1) = 4 * q + k"
      unfolding a_def by (rule quad_row_cases [OF c(1)]; simp)
    moreover have "a div quad_size l = a div quad_size (l + 1) div 4"
      by (rule quad_row_cases [OF lq(1)]; simp add: div_mult2_eq [symmetric])
    ultimately show ?thesis using port(1) quad_port [OF r lq(1,2) port(2)] False k by (simp add: quad_child_def)
  qed
qed

lemma quad_parent_refused:
  assumes ok: "quad_ok s" and i: "i < 85" and pos: "quad_pos i = (l, q)" and l: "0 < l"
    and q: "q mod 4 = 1" and full: "m_inboxValid (g_routers s ! i) ! 3"
  shows "QuadAcceptMessage i packet (Router (quad_parent l q)) s = Inr (False, s)"
  using quad_parent_port [OF ok i pos l] q full i quad_okD(1) [OF ok] quad_router_updates(4) [OF ok i]
  by (simp add: QuadAcceptMessage_def RouterAcceptMessage_def)

section \<open>Properties\<close>

definition tree_nodes :: "node list" where
  "tree_nodes = map Router [0..<85] @ map Host [0..<256]"

lemma tree_nodes_ok: "\<forall>node \<in> set tree_nodes. node_ok 85 node" "distinct tree_nodes"
  by (auto simp: tree_nodes_def node_ok_def distinct_map inj_on_def simp del: upt_rec_numeral)

lemma quad_runs_stop:
  assumes "\<forall>node \<in> set order. node_ok 85 node" and "distinct order"
  shows "case RunCycles QuadCycle n order (CreateQuadtreeNetwork rand) of
      Inr s \<Rightarrow> quad_ok s \<and> g_time s = n
    | Inl h \<Rightarrow> h = OutOfBounds \<and>
        (\<exists>m < n. \<exists>t. RunCycles QuadCycle m order (CreateQuadtreeNetwork rand) = Inr t \<and> overrun_router 5 (set order) t)"
  unfolding quad_defs by (rule quad_cycles.runs_stop [OF new_quad_ok assms])

lemma quad_run_ok:
  assumes "RunCycles QuadCycle n order (CreateQuadtreeNetwork rand) = Inr s" "\<forall>node \<in> set order. node_ok 85 node" "distinct order"
  shows "quad_ok s"
  using quad_runs_stop [OF assms(2,3), of n rand] assms(1) by simp


lemma quad_distance_21: "quad_distance 255 21 = 6"
  by (simp add: quad_distance_def quad_pos_def numeral_2_eq_2 numeral_3_eq_3)


text \<open>
  C27: the port of the parent. In every state that a run of the simulation reaches, a router takes the packets of child \<open>k\<close> at port \<open>k\<close>,
  and those of its parent at port 4 unless it is the second child of its parent, which has the middle of the parent's subnet: then at
  port 3, so that it refuses whatever the parent sends while a packet of its last child waits there.
\<close>
theorem quad_parent_inbox:
  assumes "RunCycles QuadCycle n order (CreateQuadtreeNetwork rand) = Inr s"
    and "\<forall>node \<in> set order. node_ok 85 node" and "distinct order" and "i < 85" and "quad_pos i = (l, q)" and "0 < l"
  shows "QuadPortNumber (g_routers s ! i) (Router (quad_parent l q)) s = Inr (if q mod 4 = 1 then 3 else 4) \<and>
    (\<forall>k < 4. QuadPortNumber (g_routers s ! i) (quad_child l q k) s = Inr k) \<and>
    (q mod 4 = 1 \<and> m_inboxValid (g_routers s ! i) ! 3 \<longrightarrow>
      (\<forall>packet. QuadAcceptMessage i packet (Router (quad_parent l q)) s = Inr (False, s)))"
proof -
  have ok: "quad_ok s" by (rule quad_run_ok [OF assms(1-3)])
  show ?thesis
    using quad_parent_port [OF ok assms(4-6)] quad_child_port [OF ok assms(4,5)] quad_parent_refused [OF ok assms(4-6)] by blast
qed

theorem quad_parent_inbox_witness:
  "QuadPortNumber (g_routers (CreateQuadtreeNetwork (\<lambda>n. n)) ! 2) (Router 0) (CreateQuadtreeNetwork (\<lambda>n. n)) = Inr 3 \<and>
   QuadPortNumber (g_routers (CreateQuadtreeNetwork (\<lambda>n. n)) ! 2) (Router 12) (CreateQuadtreeNetwork (\<lambda>n. n)) = Inr 3"
  using quad_parent_inbox [of 0 tree_nodes "\<lambda>n. n" "CreateQuadtreeNetwork (\<lambda>n. n)" 2 1 1] tree_nodes_ok
  by (simp add: quad_pos_def quad_parent_def quad_child_def RunCycles_def) (auto dest: spec [of _ 3])

end
