(* ===== verification/Gdb.thy ===== *)
theory Gdb
  imports Bridge
begin

text \<open>
  The server that connects the debugger GDB to the debug port of a processor over the network switch
  (\<open>src/legacy-trunk/src/graftongdbserver/GDBClient.cpp\<close>): packets with a checksum, the requests, and the calls of the debug port.
\<close>

section \<open>The outside world\<close>

text \<open>
  What will come from the debugger is a list of octets and of half seconds in which nothing comes, the time-out that the constructor sets. What
  the switch library will give is a list too: the message that a call or a wait returns, or the exception with which it fails. \<open>RecvLooped\<close> of
  the socket library takes a time-out in one of two ways, and which is a parameter: it goes on waiting or it throws an exception.
  \<open>stack_octets\<close> is what follows the buffer of the checksum in memory. All calls go to the one processor of \<open>m_caddr\<close>.
\<close>

datatype client_event = Octet u8 | Quiet
datatype core_event = Answer rpc_message | Silent

datatype gdb_event = ToClient "u8 list" | Called u8 u32 u32 u32

record gdb =
  client_in :: "client_event list"
  core_in :: "core_event list"
  gdb_log :: "gdb_event list"
  recv_throws :: bool
  stack_octets :: "u8 list"
  m_pc :: u32

text \<open>
  A member function returns, throws an exception, waits for input that the lists do not hold, or has read past the end of a vector. The last
  two end the run; its state stays.
\<close>

datatype 'a gdb_out = Returned 'a | Thrown | Waiting | Wild

type_synonym 'a gdb_m = "gdb \<Rightarrow> 'a gdb_out \<times> gdb"

definition gret :: "'a \<Rightarrow> 'a gdb_m" where
  "gret x s = (Returned x, s)"

definition gbind :: "'a gdb_m \<Rightarrow> ('a \<Rightarrow> 'b gdb_m) \<Rightarrow> 'b gdb_m" where
  "gbind m f s =
     (case m s of (Returned x, t) \<Rightarrow> f x t | (Thrown, t) \<Rightarrow> (Thrown, t) | (Waiting, t) \<Rightarrow> (Waiting, t) | (Wild, t) \<Rightarrow> (Wild, t))"

definition gcatch :: "'a gdb_m \<Rightarrow> 'a gdb_m \<Rightarrow> 'a gdb_m" where
  "gcatch m h s = (case m s of (Thrown, t) \<Rightarrow> h t | (r, t) \<Rightarrow> (r, t))"

lemma gbind_cong [fundef_cong]:
  "m s = m' s' \<Longrightarrow> (\<And>x t. m' s' = (Returned x, t) \<Longrightarrow> f x t = f' x t) \<Longrightarrow> gbind m f s = gbind m' f' s'"
  by (auto simp: gbind_def split: gdb_out.splits prod.splits)

fun recv_looped :: "bool \<Rightarrow> client_event list \<Rightarrow> u8 gdb_out \<times> client_event list" where
  "recv_looped throws [] = (Waiting, [])"
| "recv_looped throws (Octet c # r) = (Returned c, r)"
| "recv_looped throws (Quiet # r) = (if throws then (Thrown, r) else recv_looped throws r)"

definition RecvOctet :: "u8 gdb_m" where
  "RecvOctet s = (let (c, r) = recv_looped (recv_throws s) (client_in s) in (c, s\<lparr>client_in := r\<rparr>))"

definition SendOctets :: "u8 list \<Rightarrow> unit gdb_m" where
  "SendOctets bytes s = (Returned (), s\<lparr>gdb_log := gdb_log s @ [ToClient bytes]\<rparr>)"

definition core_answer :: "rpc_message gdb_m" where
  "core_answer s =
     (case core_in s of
        [] \<Rightarrow> (Waiting, s)
      | Answer m # r \<Rightarrow> (Returned m, s\<lparr>core_in := r\<rparr>)
      | Silent # r \<Rightarrow> (Thrown, s\<lparr>core_in := r\<rparr>))"

definition debug_call :: "u8 \<Rightarrow> u32 \<Rightarrow> u32 \<Rightarrow> u32 \<Rightarrow> rpc_message gdb_m" where
  "debug_call callnum d0 d1 d2 s = core_answer (s\<lparr>gdb_log := gdb_log s @ [Called callnum d0 d1 d2]\<rparr>)"

section \<open>The debug port\<close>

definition DEBUG_HALT :: u8 where "DEBUG_HALT = 0x01"
definition DEBUG_GET_STATUS :: u8 where "DEBUG_GET_STATUS = 0x02"
definition DEBUG_GET_MDU :: u8 where "DEBUG_GET_MDU = 0x03"
definition DEBUG_READ_REGISTERS :: u8 where "DEBUG_READ_REGISTERS = 0x04"
definition DEBUG_RESUME :: u8 where "DEBUG_RESUME = 0x05"
definition DEBUG_READ_MEMORY :: u8 where "DEBUG_READ_MEMORY = 0x06"
definition DEBUG_CLEAR_SEGFAULT :: u8 where "DEBUG_CLEAR_SEGFAULT = 0x07"
definition DEBUG_SET_HWBREAK :: u8 where "DEBUG_SET_HWBREAK = 0x08"
definition DEBUG_CLEAR_HWBREAK :: u8 where "DEBUG_CLEAR_HWBREAK = 0x09"
definition DEBUG_SINGLE_STEP :: u8 where "DEBUG_SINGLE_STEP = 0x0a"
definition DEBUG_SEGFAULT :: u8 where "DEBUG_SEGFAULT = 0x80"
definition DEBUG_BREAKPOINT :: u8 where "DEBUG_BREAKPOINT = 0x81"
definition NOC_TYPE_INTERRUPT :: u32 where "NOC_TYPE_INTERRUPT = 4"

section \<open>Text\<close>

definition hex_digit :: "nat \<Rightarrow> u8" where
  "hex_digit n = ascii ''0123456789abcdef'' ! n"

text \<open>\<open>%02x\<close> and \<open>%08x\<close>.\<close>

definition hex2 :: "u8 \<Rightarrow> u8 list" where
  "hex2 b = [hex_digit (unat b div 16), hex_digit (unat b mod 16)]"

definition word_bytes :: "u32 \<Rightarrow> u8 list" where
  "word_bytes w = [ucast (drop_bit 24 w AND 0xff), ucast (drop_bit 16 w AND 0xff), ucast (drop_bit 8 w AND 0xff), ucast (w AND 0xff)]"

definition hex8 :: "u32 \<Rightarrow> u8 list" where
  "hex8 w = concat (map hex2 (word_bytes w))"

text \<open>
  \<open>sscanf\<close> on a C string. A number of the formats \<open>%x\<close>, \<open>%u\<close> and \<open>%d\<close>: white space, then at most as many characters as the width says, a
  sign, for \<open>%x\<close> a prefix \<open>0x\<close>, and digits, of which there must be one.
\<close>

definition c_str :: "u8 list \<Rightarrow> u8 list" where
  "c_str str = takeWhile (\<lambda>c. c \<noteq> 0) str"

definition is_space :: "u8 \<Rightarrow> bool" where
  "is_space c \<longleftrightarrow> c = 32 \<or> (9 \<le> c \<and> c \<le> 13)"

definition digit_value :: "u8 \<Rightarrow> nat" where
  "digit_value c =
     (if 48 \<le> c \<and> c \<le> 57 then unat c - 48 else if 97 \<le> c \<and> c \<le> 102 then unat c - 87
      else if 65 \<le> c \<and> c \<le> 70 then unat c - 55 else 99)"

definition digits_value :: "nat \<Rightarrow> u8 list \<Rightarrow> u32" where
  "digits_value base ds = foldl (\<lambda>n c. n * of_nat base + of_nat (digit_value c)) 0 ds"

definition scan_digits :: "nat \<Rightarrow> nat \<Rightarrow> u8 list \<Rightarrow> (u32 \<times> u8 list) option" where
  "scan_digits base width str =
     (let ds = takeWhile (\<lambda>c. digit_value c < base) (take width str) in
      if ds = [] then None else Some (digits_value base ds, drop (length ds) str))"

definition scan_unsigned :: "nat \<Rightarrow> nat \<Rightarrow> u8 list \<Rightarrow> (u32 \<times> u8 list) option" where
  "scan_unsigned base width str =
     (if base = 16 \<and> width \<ge> 2 \<and> (take 2 str = ascii ''0x'' \<or> take 2 str = ascii ''0X'') then scan_digits base (width - 2) (drop 2 str)
      else scan_digits base width str)"

definition scan_number :: "nat \<Rightarrow> nat \<Rightarrow> u8 list \<Rightarrow> (u32 \<times> u8 list) option" where
  "scan_number base width str =
     (case dropWhile is_space str of
        [] \<Rightarrow> None
      | c # rest \<Rightarrow>
          if c = 43 then scan_unsigned base (width - 1) rest
          else if c = 45 then map_option (\<lambda>(n, r). (- n, r)) (scan_unsigned base (width - 1) rest)
          else scan_unsigned base width (c # rest))"

definition scan_char :: "u8 \<Rightarrow> u8 list \<Rightarrow> u8 list option" where
  "scan_char c str = (case str of d # rest \<Rightarrow> if d = c then Some rest else None | [] \<Rightarrow> None)"

section \<open>Packets\<close>

definition checksum :: "u8 list \<Rightarrow> u8" where
  "checksum str = foldl (+) 0 str"

definition gdb_frame :: "u8 list \<Rightarrow> u8 list" where
  "gdb_frame str = ascii ''+$'' @ str @ ascii ''#'' @ hex2 (checksum str)"

text \<open>Every receipt takes something from the list of events.\<close>

lemma recv_looped_less: "recv_looped q es = (Returned c, r) \<Longrightarrow> length r < length es"
  by (induction q es rule: recv_looped.induct) (auto split: if_splits)

lemma RecvOctet_less: "RecvOctet s = (Returned c, t) \<Longrightarrow> length (client_in t) < length (client_in s)"
  by (auto simp: RecvOctet_def split: prod.splits dest: recv_looped_less)

function send_until_ack :: "u8 list \<Rightarrow> unit gdb_m" where
  "send_until_ack str s =
     gbind (SendOctets str) (\<lambda>_ s.
       gbind RecvOctet (\<lambda>ack s. if ack = 43 then gret () s else send_until_ack str s) s) s"
  by pat_completeness auto
termination
  by (relation "measure (\<lambda>(str, s). length (client_in s))") (auto simp: SendOctets_def dest!: RecvOctet_less)

declare send_until_ack.simps [simp del]

definition SendResponse :: "u8 list \<Rightarrow> unit gdb_m" where
  "SendResponse str = send_until_ack (gdb_frame str)"

abbreviation respond :: "string \<Rightarrow> unit gdb_m" where
  "respond str \<equiv> SendResponse (ascii str)"

function read_body :: "u8 list \<Rightarrow> u8 list gdb_m" where
  "read_body body s = gbind RecvOctet (\<lambda>c s. if c = 35 then gret body s else read_body (body @ [c]) s) s"
  by pat_completeness auto
termination
  by (relation "measure (\<lambda>(body, s). length (client_in s))") (auto dest: RecvOctet_less)

declare read_body.simps [simp del]

section \<open>Status, registers and memory\<close>

definition GetHaltStatus :: "unit gdb_m" where
  "GetHaltStatus =
     gbind (debug_call DEBUG_GET_STATUS 0 0 0) (\<lambda>rxm s.
       (if \<not> bit (rpc_data0 rxm) 0 then respond []
        else if bit (rpc_data0 rxm) 1 then respond ''S04''
        else if bit (rpc_data0 rxm) 2 then
          gbind (respond ''S0B'') (\<lambda>_. gbind (debug_call DEBUG_CLEAR_SEGFAULT 0 0 0) (\<lambda>_. gret ()))
        else respond ''S05'')
       (s\<lparr>m_pc := rpc_data1 rxm\<rparr>))"

primrec read_registers :: "nat \<Rightarrow> nat \<Rightarrow> u8 list gdb_m" where
  "read_registers i 0 = gret []"
| "read_registers i (Suc n) =
     gbind (debug_call DEBUG_READ_REGISTERS 0 (of_nat i) (of_nat (i + 1))) (\<lambda>rxm.
     gbind (read_registers (i + 2) n) (\<lambda>rest.
     gret (hex8 (rpc_data1 rxm) @ hex8 (rpc_data2 rxm) @ rest)))"

definition ReadRegisters :: "unit gdb_m" where
  "ReadRegisters =
     gbind (read_registers 0 16) (\<lambda>gpr.
     gbind (debug_call DEBUG_GET_MDU 0 0 0) (\<lambda>mdu.
     gbind (debug_call DEBUG_GET_STATUS 0 0 0) (\<lambda>st.
     SendResponse
       (gpr @ ascii ''00000000'' @ hex8 (rpc_data1 mdu) @ hex8 (rpc_data2 mdu) @ hex8 (rpc_data2 st) @ ascii ''cccccccc''
          @ hex8 (rpc_data1 st) @ concat (replicate 35 (ascii ''00000000''))))))"

text \<open>The format \<open>m%08x,%8u\<close>.\<close>

definition parse_read :: "u8 list \<Rightarrow> (u32 \<times> u32) option" where
  "parse_read str =
     Option.bind (scan_char 109 (c_str str)) (\<lambda>r.
     Option.bind (scan_number 16 8 r) (\<lambda>(addr, r).
     Option.bind (scan_char 44 r) (\<lambda>r.
     map_option (\<lambda>(len, r). (addr, len)) (scan_number 10 8 r))))"

text \<open>The loop over the words. The variable \<open>add\<close> wraps. \<open>None\<close> is the failure of a call, which the handler has answered.\<close>

definition read_word :: "u32 \<Rightarrow> rpc_message option gdb_m" where
  "read_word add =
     gcatch (gbind (debug_call DEBUG_READ_MEMORY 0 add 0) (\<lambda>rxm. gret (Some rxm)))
       (gbind (respond ''E00'') (\<lambda>_. gret None))"

lemma debug_call_less: "debug_call c d0 d1 d2 s = (Returned m, t) \<Longrightarrow> length (core_in t) < length (core_in s)"
  by (auto simp: debug_call_def core_answer_def split: list.splits core_event.splits)

lemma read_word_less: "read_word add s = (Returned (Some m), t) \<Longrightarrow> length (core_in t) < length (core_in s)"
  by (auto simp: read_word_def gcatch_def gbind_def gret_def split: prod.splits gdb_out.splits dest: debug_call_less)

function read_words :: "u32 \<Rightarrow> u32 \<Rightarrow> u8 list \<Rightarrow> u8 list option gdb_m" where
  "read_words add eaddr bytes s =
     (if add < eaddr then
        gbind (read_word add) (\<lambda>r s.
          case r of
            None \<Rightarrow> gret None s
          | Some rxm \<Rightarrow> read_words (add + 4) eaddr (bytes @ word_bytes (rpc_data1 rxm)) s) s
      else gret (Some bytes) s)"
  by pat_completeness auto
termination
  by (relation "measure (\<lambda>(add, eaddr, bytes, s). length (core_in s))") (auto dest: read_word_less)

declare read_words.simps [simp del]

text \<open>
  The output loop reads \<open>bytes[i + offset]\<close> for every \<open>i\<close> below \<open>len\<close>, without a check. The index is a 32-bit number.
\<close>

definition format_bytes :: "u8 list \<Rightarrow> u32 \<Rightarrow> u32 \<Rightarrow> u8 list gdb_m" where
  "format_bytes bytes offset len =
     (if list_all (\<lambda>i. unat (of_nat i + offset) < length bytes) [0..<unat len]
      then gret (concat (map (\<lambda>i. hex2 (bytes ! unat (of_nat i + offset))) [0..<unat len]))
      else (\<lambda>s. (Wild, s)))"

definition ReadMemory :: "u8 list \<Rightarrow> unit gdb_m" where
  "ReadMemory str =
     (case parse_read str of
        None \<Rightarrow> respond ''E00''
      | Some (addr, len) \<Rightarrow>
          (let saddr = addr AND 0xFFFFFFFC; eaddr = addr + len in
           if eaddr < saddr \<or> saddr = 0 then respond ''E00''
           else gbind (read_words saddr eaddr []) (\<lambda>r.
             case r of
               None \<Rightarrow> gret ()
             | Some bytes \<Rightarrow> gbind (format_bytes bytes (addr - saddr) len) SendResponse)))"

section \<open>Breakpoints\<close>

text \<open>The formats \<open>Z%8d,%08x,%8d\<close> and \<open>z%8d,%08x,%8d\<close>.\<close>

definition parse_break :: "u8 \<Rightarrow> u8 list \<Rightarrow> (u32 \<times> u32 \<times> u32) option" where
  "parse_break c str =
     Option.bind (scan_char c (c_str str)) (\<lambda>r.
     Option.bind (scan_number 10 8 r) (\<lambda>(bptype, r).
     Option.bind (scan_char 44 r) (\<lambda>r.
     Option.bind (scan_number 16 8 r) (\<lambda>(addr, r).
     Option.bind (scan_char 44 r) (\<lambda>r.
     map_option (\<lambda>(bpsubtype, r). (bptype, addr, bpsubtype)) (scan_number 10 8 r))))))"

definition change_break :: "u8 \<Rightarrow> (u32 \<times> u32 \<times> u32) option \<Rightarrow> unit gdb_m" where
  "change_break callnum command =
     (case command of
        None \<Rightarrow> respond []
      | Some (bptype, addr, bpsubtype) \<Rightarrow>
          if bpsubtype \<noteq> 4 then respond []
          else gcatch (gbind (debug_call callnum 0 addr 0) (\<lambda>_. respond ''OK'')) (respond ''E00''))"

definition SetBreakpoint :: "u8 list \<Rightarrow> unit gdb_m" where
  "SetBreakpoint str = change_break DEBUG_SET_HWBREAK (parse_break 90 str)"

definition ClearBreakpoint :: "u8 list \<Rightarrow> unit gdb_m" where
  "ClearBreakpoint str = change_break DEBUG_CLEAR_HWBREAK (parse_break 122 str)"

section \<open>Queries\<close>

text \<open>The features that the debugger asks for: the parts between semicolons, the last one only when it is not empty.\<close>

fun split_features :: "u8 list \<Rightarrow> u8 list \<Rightarrow> u8 list list" where
  "split_features temp [] = (if temp = [] then [] else [temp])"
| "split_features temp (c # r) = (if c = 59 then temp # split_features [] r else split_features (temp @ [c]) r)"

definition supported_response :: "u8 list list \<Rightarrow> u8 list" where
  "supported_response features =
     foldl (\<lambda>response f. if take 10 f = ascii ''qRelocInsn'' then response @ ascii '';qRelocInsn-'' else response)
       (ascii ''PacketSize=2048;qXfer:memory-map:read+'') features"

definition memory_map :: "u8 list" where
  "memory_map =
     ascii ''m<?xml version=\"1.0\"?>''
       @ ascii ''<!DOCTYPE memory-map PUBLIC \"+//IDN gnu.org//DTD GDB Memory Map V1.0//EN\" ''
       @ ascii ''\"http://sourceware.org/gdb/gdb-memory-map.dtd\">''
       @ ascii ''<memory-map>''
       @ ascii ''<memory type=\"rom\" start=\"0x40000000\" length=\"131072\"/>''
       @ ascii ''<memory type=\"ram\" start=\"0x40080000\" length=\"458752\"/>''
       @ ascii ''<memory type=\"ram\" start=\"0x400F0800\" length=\"57344\"/>''
       @ ascii ''<memory type=\"ram\" start=\"0x400FF800\" length=\"2048\"/>''
       @ ascii ''</memory-map>''"

definition ProcessQueryPacket :: "u8 list \<Rightarrow> unit gdb_m" where
  "ProcessQueryPacket body =
     (let qobj = takeWhile (\<lambda>c. c \<noteq> 58) (drop 1 body); pos = 1 + length qobj + 1 in
      if qobj = ascii ''Supported'' then SendResponse (supported_response (split_features [] (drop pos body)))
      else if qobj = ascii ''C'' then respond ''QC 0''
      else if qobj = ascii ''fThreadInfo'' then respond ''m 0''
      else if qobj = ascii ''sThreadInfo'' then respond ''l''
      else if qobj = ascii ''L'' then respond ''qM 01 1 00000000 0''
      else if qobj = ascii ''Attached'' then respond ''1''
      else if qobj = ascii ''Offsets'' then respond []
      else if qobj = ascii ''Symbol'' then respond ''OK''
      else if qobj = ascii ''TStatus'' then respond []
      else if qobj = ascii ''Xfer'' then
        (if body = ascii ''qXfer:memory-map:read::0,fff'' then SendResponse memory_map else respond ''l'')
      else respond [])"

section \<open>Running the processor\<close>

text \<open>
  \<open>Continue\<close> and the message loop call one another; the functions between them take \<open>Continue\<close> as an argument.
\<close>

definition SingleStep :: "unit gdb_m \<Rightarrow> unit gdb_m" where
  "SingleStep cont s =
     (case debug_call DEBUG_SINGLE_STEP 0 0 0 s of
        (Thrown, t) \<Rightarrow> cont t
      | (r, t) \<Rightarrow> gbind (\<lambda>t. (r, t)) (\<lambda>_. GetHaltStatus) t)"

definition ProcessVectorPacket :: "unit gdb_m \<Rightarrow> u8 list \<Rightarrow> unit gdb_m" where
  "ProcessVectorPacket cont body =
     (if body = ascii ''vCont?'' then respond ''vCont;c;s''
      else
        let sid = take 127 (takeWhile (\<lambda>c. c \<noteq> 59 \<and> c \<noteq> 63) (c_str body)) in
        if sid = [] then respond []
        else if sid = ascii ''vCont'' then
          (if take 6 (c_str body) = ascii ''vCont;'' \<and> length (c_str body) > 6
           then (if c_str body ! 6 = 99 then cont else respond [])
           else cont)
        else respond [])"

text \<open>The switch over the first character, which is 0 for an empty body. The result is that of \<open>ProcessPacket\<close>: false for the packet \<open>D\<close>.\<close>

definition dispatch :: "unit gdb_m \<Rightarrow> u8 list \<Rightarrow> bool gdb_m" where
  "dispatch cont body =
     (let c = (case body of [] \<Rightarrow> 0 | c # _ \<Rightarrow> c); go = (\<lambda>m. gbind m (\<lambda>_. gret True)) in
      if c = 99 then go cont
      else if c = 68 then gbind (respond ''OK'') (\<lambda>_. gret False)
      else if c = 103 then go ReadRegisters
      else if c = 72 then go (respond [])
      else if c = 109 then go (ReadMemory body)
      else if c = 113 then go (ProcessQueryPacket body)
      else if c = 115 then go (SingleStep cont)
      else if c = 118 then go (ProcessVectorPacket cont body)
      else if c = 90 then go (SetBreakpoint body)
      else if c = 122 then go (ClearBreakpoint body)
      else if c = 63 then go GetHaltStatus
      else go (respond []))"

text \<open>The two characters of the checksum are read by \<open>sscanf\<close> from a buffer that nothing ends.\<close>

definition expected_checksum :: "u8 \<Rightarrow> u8 \<Rightarrow> u8 list \<Rightarrow> u32" where
  "expected_checksum a b after = (case scan_number 16 2 (c_str (a # b # after)) of Some (n, r) \<Rightarrow> n | None \<Rightarrow> 0)"

definition ProcessPacket :: "unit gdb_m \<Rightarrow> bool gdb_m" where
  "ProcessPacket cont =
     gbind (read_body []) (\<lambda>body.
     gbind RecvOctet (\<lambda>a.
     gbind RecvOctet (\<lambda>b s.
     (if expected_checksum a b (stack_octets s) \<noteq> ucast (checksum body)
      then gbind (SendOctets (ascii ''-'')) (\<lambda>_. gret True)
      else dispatch cont body) s)))"

definition ProcessInterrupt_gdb :: "unit gdb_m" where
  "ProcessInterrupt_gdb = gbind (debug_call DEBUG_HALT 0 0 0) (\<lambda>_. GetHaltStatus)"

text \<open>\<open>recv\<close> itself returns on a time-out. A notification is only printed.\<close>

definition MessageLoopCycle :: "unit gdb_m \<Rightarrow> bool gdb_m" where
  "MessageLoopCycle cont s =
     (case client_in s of
        [] \<Rightarrow> (Waiting, s)
      | Quiet # r \<Rightarrow> gret True (s\<lparr>client_in := r\<rparr>)
      | Octet ch # r \<Rightarrow>
          (if ch = 36 then ProcessPacket cont
           else if ch = 3 then gbind ProcessInterrupt_gdb (\<lambda>_. gret True)
           else gret True) (s\<lparr>client_in := r\<rparr>))"

text \<open>
  The loop of \<open>Continue\<close> that waits for the halt. A cycle takes something from the debugger, before it can call \<open>Continue\<close> again, so the number of
  events that are left bounds both recursions: at 0 the cycle can only wait. The wait for an interrupt fails by an exception, which is ignored.
\<close>

definition stops_waiting :: "rpc_message gdb_out \<Rightarrow> bool" where
  "stops_waiting r \<longleftrightarrow>
     (case r of
        Returned m \<Rightarrow> rpc_type m = NOC_TYPE_INTERRUPT \<and> (rpc_callnum m = DEBUG_SEGFAULT \<or> rpc_callnum m = DEBUG_BREAKPOINT)
      | _ \<Rightarrow> False)"

definition resume_with :: "unit gdb_m \<Rightarrow> unit gdb_m" where
  "resume_with wait = gbind (debug_call DEBUG_RESUME 0 0 0) (\<lambda>_. gbind wait (\<lambda>_. GetHaltStatus))"

primrec wait_for_halt :: "nat \<Rightarrow> unit gdb_m" where
  "wait_for_halt 0 = (\<lambda>s. (Waiting, s))"
| "wait_for_halt (Suc n) =
     gbind (MessageLoopCycle (resume_with (wait_for_halt n))) (\<lambda>_ s.
       case core_answer s of
         (Waiting, t) \<Rightarrow> (Waiting, t)
       | (r, t) \<Rightarrow> (if stops_waiting r then gret () t else wait_for_halt n t))"

definition WaitForHalt :: "unit gdb_m" where
  "WaitForHalt s = wait_for_halt (length (client_in s)) s"

definition Continue :: "unit gdb_m" where
  "Continue = resume_with WaitForHalt"

primrec gdb_cycles :: "nat \<Rightarrow> unit gdb_m" where
  "gdb_cycles 0 = (\<lambda>s. (Waiting, s))"
| "gdb_cycles (Suc n) = gbind (MessageLoopCycle Continue) (\<lambda>more. if more then gdb_cycles n else gret ())"

definition Run :: "unit gdb_m" where
  "Run s = gdb_cycles (Suc (length (client_in s))) s"

definition GDBClient :: "unit gdb_m" where
  "GDBClient = gbind (debug_call DEBUG_HALT 0 0 0) (\<lambda>_. Run)"

end
