(* ===== verification/Gdb_Runs.thy ===== *)
theory Gdb_Runs
  imports Gdb
begin

text \<open>
  What holds in every run of the debug server, for any debugger and any processor: what it sends is a negative acknowledgement or a packet that
  the protocol allows, and the recursion of \<open>Continue\<close> and of the message loop is the one of the code.
\<close>

section \<open>Operations that keep a relation\<close>

definition keeps :: "(gdb \<Rightarrow> gdb \<Rightarrow> bool) \<Rightarrow> 'a gdb_m \<Rightarrow> bool" where
  "keeps R m \<longleftrightarrow> (\<forall>s. R s (snd (m s)))"

text \<open>The text of a packet has neither of the characters that end and begin one.\<close>

definition plain :: "u8 list \<Rightarrow> bool" where
  "plain str \<longleftrightarrow> 35 \<notin> set str \<and> 36 \<notin> set str"

definition well_said :: "gdb_event \<Rightarrow> bool" where
  "well_said e \<longleftrightarrow>
     (case e of
        ToClient b \<Rightarrow> b = [45] \<or> (\<exists>str. plain str \<and> b = gdb_frame str)
      | Called c d0 d1 d2 \<Rightarrow>
          c \<in> {DEBUG_HALT, DEBUG_GET_STATUS, DEBUG_GET_MDU, DEBUG_READ_REGISTERS, DEBUG_RESUME, DEBUG_READ_MEMORY, DEBUG_CLEAR_SEGFAULT,
               DEBUG_SET_HWBREAK, DEBUG_CLEAR_HWBREAK, DEBUG_SINGLE_STEP} \<and>
          (c = DEBUG_READ_MEMORY \<longrightarrow> d1 AND 3 = 0))"

lemmas debug_opcodes =
  DEBUG_HALT_def DEBUG_GET_STATUS_def DEBUG_GET_MDU_def DEBUG_READ_REGISTERS_def DEBUG_RESUME_def DEBUG_READ_MEMORY_def
  DEBUG_CLEAR_SEGFAULT_def DEBUG_SET_HWBREAK_def DEBUG_CLEAR_HWBREAK_def DEBUG_SINGLE_STEP_def

lemma plain_append [simp]: "plain (a @ b) \<longleftrightarrow> plain a \<and> plain b"
  by (auto simp: plain_def)

lemma plain_Nil [simp]: "plain []"
  by (simp add: plain_def)

lemma plain_digit: "n < 16 \<Longrightarrow> plain [hex_digit n]"
proof -
  assume "n < 16"
  moreover have "length (ascii ''0123456789abcdef'') = 16" by code_simp
  ultimately have "hex_digit n \<in> set (ascii ''0123456789abcdef'')" by (simp add: hex_digit_def)
  moreover have "plain (ascii ''0123456789abcdef'')" by code_simp
  ultimately show ?thesis by (auto simp: plain_def)
qed

lemma plain_hex2 [simp]: "plain (hex2 b)"
proof -
  have "unat b div 16 < 16" using unat_u8_bound [of b] by (simp add: less_mult_imp_div_less)
  then have "plain ([hex_digit (unat b div 16)] @ [hex_digit (unat b mod 16)])"
    unfolding plain_append by (blast intro: plain_digit mod_less_divisor zero_less_numeral)
  then show ?thesis by (simp add: hex2_def)
qed

lemma plain_concat: "(\<And>x. x \<in> set xs \<Longrightarrow> plain x) \<Longrightarrow> plain (concat xs)"
  by (auto simp: plain_def)

lemma plain_hex8 [simp]: "plain (hex8 w)"
  by (auto simp: hex8_def intro!: plain_concat)

lemma plain_texts [simp]:
  "plain (ascii [])" "plain (ascii ''S04'')" "plain (ascii ''S0B'')" "plain (ascii ''S05'')" "plain (ascii ''E00'')" "plain (ascii ''OK'')"
  "plain (ascii ''00000000'')" "plain (ascii ''cccccccc'')" "plain (ascii ''QC 0'')" "plain (ascii ''m 0'')" "plain (ascii ''l'')"
  "plain (ascii ''qM 01 1 00000000 0'')" "plain (ascii ''1'')" "plain (ascii ''vCont;c;s'')" "plain memory_map"
  "plain (ascii ''PacketSize=2048;qXfer:memory-map:read+'')" "plain (ascii '';qRelocInsn-'')"
  by code_simp+

lemma plain_supported [simp]: "plain (supported_response fs)"
proof -
  have "plain (foldl (\<lambda>r f. if take 10 f = ascii ''qRelocInsn'' then r @ ascii '';qRelocInsn-'' else r) a fs)" if "plain a" for a
    using that by (induction fs arbitrary: a) auto
  then show ?thesis by (simp add: supported_response_def)
qed

lemma unat_low_bits: "unat (w AND 3) = unat (w :: u32) mod 4"
proof -
  have "w AND 3 = take_bit 2 w" by (simp add: take_bit_eq_mask mask_eq_exp_minus_1)
  then have "unat (w AND 3) = take_bit 2 (unat w)" by (simp only: unsigned_take_bit_eq)
  then show ?thesis by (simp only: take_bit_eq_mod) simp
qed

lemma aligned_iff: "w AND 3 = (0 :: u32) \<longleftrightarrow> 4 dvd unat w"
  using unat_low_bits [of w] unsigned_eq_0_iff [of "w AND 3", where 'a = nat] by (simp add: dvd_eq_mod_eq_0)

lemma aligned_next: "add AND 3 = 0 \<Longrightarrow> (add + 4) AND 3 = (0 :: u32)"
  unfolding aligned_iff by (simp add: unat_word_ariths dvd_mod)

text \<open>
  The client of this contract is every function of the server; what it relies on is that the relation holds over what the functions that talk to
  the outside do.
\<close>

locale gdb_relation =
  fixes R :: "gdb \<Rightarrow> gdb \<Rightarrow> bool"
  assumes same: "R s s"
    and chain: "R s t \<Longrightarrow> R t u \<Longrightarrow> R s u"
    and logged: "well_said e \<Longrightarrow> R s (s\<lparr>gdb_log := gdb_log s @ [e]\<rparr>)"
    and taken: "R s (s\<lparr>client_in := drop n (client_in s)\<rparr>)"
    and answered: "R s (s\<lparr>core_in := drop n (core_in s)\<rparr>)"
    and saved: "R s (s\<lparr>m_pc := x\<rparr>)"
begin

lemma keep_ret: "keeps R (gret x)"
  by (simp add: keeps_def gret_def same)

lemma keep_stop: "keeps R (\<lambda>s. (r, s))"
  by (simp add: keeps_def same)

lemma keep_bind:
  assumes "keeps R m" "\<And>x. keeps R (f x)"
  shows "keeps R (gbind m f)"
  unfolding keeps_def
proof
  fix s
  have "R s (snd (m s))" using assms(1) by (simp add: keeps_def)
  moreover have "R t (snd (f x t))" for x t using assms(2) by (simp add: keeps_def)
  ultimately show "R s (snd (gbind m f s))"
    by (auto simp: gbind_def split: prod.splits gdb_out.splits intro: chain)
qed

lemma keep_if: "keeps R m \<Longrightarrow> keeps R n \<Longrightarrow> keeps R (if b then m else n)"
  by simp

lemma keep_catch:
  assumes "keeps R m" "keeps R h"
  shows "keeps R (gcatch m h)"
  unfolding keeps_def
proof
  fix s
  have "R s (snd (m s))" "\<And>t. R t (snd (h t))" using assms by (auto simp: keeps_def)
  then show "R s (snd (gcatch m h s))"
    by (auto simp: gcatch_def split: prod.splits gdb_out.splits intro: chain)
qed

lemma keep_recv: "keeps R RecvOctet"
proof -
  have "\<exists>n. snd (recv_looped q es) = drop n es" for q es
  proof (induction q es rule: recv_looped.induct)
    case (2 throws c r)
    then show ?case by (intro exI [of _ 1]) simp
  next
    case (3 throws r)
    then show ?case
      by (cases throws) (auto intro: exI [of _ 1], metis drop_Suc_Cons)
  qed auto
  then have "R s (s\<lparr>client_in := snd (recv_looped (recv_throws s) (client_in s))\<rparr>)" for s by (metis taken)
  then show ?thesis by (simp add: keeps_def RecvOctet_def split_beta)
qed

lemma keep_send: "well_said (ToClient b) \<Longrightarrow> keeps R (SendOctets b)"
  by (simp add: keeps_def SendOctets_def logged)

lemma keep_answer: "keeps R core_answer"
  unfolding keeps_def
proof
  fix s
  show "R s (snd (core_answer s))"
    using answered [of s 1] by (auto simp: core_answer_def same split: list.splits core_event.splits)
qed

lemma keep_call: "well_said (Called c d0 d1 d2) \<Longrightarrow> keeps R (debug_call c d0 d1 d2)"
  using keep_answer by (auto simp: keeps_def debug_call_def intro: chain logged)

lemma keep_saved: "keeps R m \<Longrightarrow> keeps R (\<lambda>s. m (s\<lparr>m_pc := x\<rparr>))"
  by (auto simp: keeps_def intro: chain saved)

lemma keep_response:
  assumes "plain str"
  shows "keeps R (SendResponse str)"
proof -
  have said: "well_said (ToClient (gdb_frame str))" using assms by (auto simp: well_said_def)
  have "R s (snd (send_until_ack b s))" if "b = gdb_frame str" for b s
    using that
  proof (induction b s rule: send_until_ack.induct)
    case (1 b s)
    define t where "t = s\<lparr>gdb_log := gdb_log s @ [ToClient b]\<rparr>"
    have send: "SendOctets b s = (Returned (), t)" by (simp add: SendOctets_def t_def)
    have st: "R s t" using said 1(2) by (auto simp: t_def intro: logged)
    obtain r u where recv: "RecvOctet t = (r, u)" by (cases "RecvOctet t")
    have tu: "R t u" using keep_recv recv by (metis keeps_def snd_conv)
    show ?case
    proof (cases r)
      case (Returned ack)
      then show ?thesis
        using 1 st tu send recv
        by (subst send_until_ack.simps) (auto simp: gbind_def gret_def intro: chain)
    qed (use st tu send recv in \<open>subst send_until_ack.simps, auto simp: gbind_def intro: chain\<close>)+
  qed
  then show ?thesis by (simp add: keeps_def SendResponse_def)
qed

lemma keep_call': "well_said (Called c d0 d1 d2) \<Longrightarrow> (\<And>m. keeps R (f m)) \<Longrightarrow> keeps R (gbind (debug_call c d0 d1 d2) f)"
  by (intro keep_bind keep_call)

lemma keep_status: "keeps R GetHaltStatus"
  unfolding GetHaltStatus_def
  by (rule keep_call', simp add: well_said_def debug_opcodes)
    (intro keep_saved, auto simp: well_said_def debug_opcodes intro!: keep_response keep_bind keep_ret keep_call)

lemma keep_read_registers: "keeps R (read_registers i n)"
proof (induction n arbitrary: i)
  case (Suc n)
  show ?case unfolding read_registers.simps
    by (intro keep_call' keep_bind keep_ret Suc) (simp add: well_said_def debug_opcodes)
qed (simp add: keep_ret)

lemma plain_read_registers: "read_registers i n s = (Returned str, t) \<Longrightarrow> plain str"
  by (induction n arbitrary: i s str t) (auto simp: gret_def gbind_def split: prod.splits gdb_out.splits)

lemma keep_bind_result:
  assumes "keeps R m" "\<And>s x t. m s = (Returned x, t) \<Longrightarrow> P x" "\<And>x. P x \<Longrightarrow> keeps R (f x)"
  shows "keeps R (gbind m f)"
  unfolding keeps_def
proof
  fix s
  have "R s (snd (m s))" using assms(1) by (simp add: keeps_def)
  moreover have "R t (snd (f x t))" if "m s = (Returned x, t)" for x t
    using assms(3) [OF assms(2) [OF that]] by (simp add: keeps_def)
  ultimately show "R s (snd (gbind m f s))"
    by (auto simp: gbind_def split: prod.splits gdb_out.splits intro: chain)
qed

lemma keep_registers: "keeps R ReadRegisters"
  unfolding ReadRegisters_def
  by (rule keep_bind_result [where P = plain], rule keep_read_registers, erule plain_read_registers)
    (auto simp: well_said_def debug_opcodes intro!: keep_call' keep_response plain_concat)

lemma keep_word: "add AND 3 = 0 \<Longrightarrow> keeps R (read_word add)"
  unfolding read_word_def by (intro keep_catch keep_call' keep_bind keep_ret keep_response) (auto simp: well_said_def debug_opcodes)

lemma keep_words: "add AND 3 = 0 \<Longrightarrow> R s (snd (read_words add eaddr bytes s))"
proof (induction add eaddr bytes s rule: read_words.induct)
  case (1 add eaddr bytes s)
  obtain r t where w: "read_word add s = (r, t)" by (cases "read_word add s")
  have st: "R s t" using keep_word [OF 1(2)] w by (metis keeps_def snd_conv)
  show ?case
  proof (cases "add < eaddr")
    case True
    have "R t (snd (read_words (add + 4) eaddr (bytes @ word_bytes (rpc_data1 m)) t))" if "r = Returned (Some m)" for m
      using 1(1) [OF True] 1(2) w that by (auto simp: aligned_next)
    then show ?thesis
      using True w st
      by (subst read_words.simps) (auto simp: gbind_def gret_def split: gdb_out.splits option.splits intro: chain)
  qed (subst read_words.simps, simp add: gret_def same)
qed

lemma keep_memory: "keeps R (ReadMemory str)"
proof -
  have aligned: "(addr AND 0xFFFFFFFC) AND 3 = 0" for addr :: u32 by (simp add: ac_simps)
  have words: "keeps R (read_words (addr AND 0xFFFFFFFC) eaddr [])" for addr eaddr
    unfolding keeps_def using keep_words [OF aligned] by blast
  have plain: "plain out" if "format_bytes bytes offset len s = (Returned out, t)" for bytes offset len s out t
    using that by (auto simp: format_bytes_def gret_def split: if_splits intro!: plain_concat)
  have "keeps R (format_bytes bytes offset len)" for bytes offset len
    unfolding format_bytes_def by (simp add: keep_ret keep_stop)
  then have "keeps R (gbind (format_bytes bytes offset len) SendResponse)" for bytes offset len
    by (rule keep_bind_result [where P = plain]) (auto dest: plain intro: keep_response)
  then show ?thesis
    unfolding ReadMemory_def Let_def
    by (auto split: option.splits intro!: keep_response keep_bind keep_ret words)
qed

lemma keep_break: "c \<in> {DEBUG_SET_HWBREAK, DEBUG_CLEAR_HWBREAK} \<Longrightarrow> keeps R (change_break c command)"
  unfolding change_break_def
  by (auto simp: well_said_def debug_opcodes split: option.splits intro!: keep_response keep_catch keep_call')

lemma keep_query: "keeps R (ProcessQueryPacket body)"
  unfolding ProcessQueryPacket_def Let_def by (intro keep_if keep_response plain_texts plain_supported)

lemma keep_step:
  assumes "keeps R cont"
  shows "keeps R (SingleStep cont)"
  unfolding keeps_def
proof
  fix s
  have "R s (snd (debug_call DEBUG_SINGLE_STEP 0 0 0 s))"
    using keep_call [of DEBUG_SINGLE_STEP 0 0 0] by (simp add: keeps_def well_said_def)
  moreover have "\<And>t. R t (snd (cont t))" "\<And>t. R t (snd (GetHaltStatus t))"
    using assms keep_status by (auto simp: keeps_def)
  ultimately show "R s (snd (SingleStep cont s))"
    by (auto simp: SingleStep_def gbind_def split: prod.splits gdb_out.splits intro: chain)
qed

lemma keep_vector: "keeps R cont \<Longrightarrow> keeps R (ProcessVectorPacket cont body)"
  unfolding ProcessVectorPacket_def Let_def by (intro keep_if keep_response plain_texts)

lemma keep_dispatch: "keeps R cont \<Longrightarrow> keeps R (dispatch cont body)"
  unfolding dispatch_def Let_def SetBreakpoint_def ClearBreakpoint_def
  by (intro keep_if keep_bind keep_ret keep_response keep_registers keep_memory keep_query keep_step keep_vector keep_break keep_status plain_texts)
    simp_all

lemma keep_body: "R s (snd (read_body body s))"
proof (induction body s rule: read_body.induct)
  case (1 body s)
  obtain r t where recv: "RecvOctet s = (r, t)" by (cases "RecvOctet s")
  have "R s t" using keep_recv recv by (metis keeps_def snd_conv)
  then show ?case
    using 1 recv by (subst read_body.simps) (auto simp: gbind_def gret_def split: gdb_out.splits intro: chain)
qed

lemma keep_if_state: "(\<And>s. P s \<Longrightarrow> keeps R m) \<Longrightarrow> (\<And>s. \<not> P s \<Longrightarrow> keeps R n) \<Longrightarrow> keeps R (\<lambda>s. (if P s then m else n) s)"
  by (auto simp: keeps_def)

lemma keep_packet:
  assumes "keeps R cont"
  shows "keeps R (ProcessPacket cont)"
proof -
  have "keeps R (read_body [])" by (simp add: keeps_def keep_body)
  moreover have "keeps R (SendOctets (ascii ''-''))" by (rule keep_send) (simp add: well_said_def ascii_def)
  ultimately show ?thesis
    unfolding ProcessPacket_def by (intro keep_bind keep_if_state keep_recv keep_ret keep_dispatch assms)
qed

lemma keep_interrupt: "keeps R ProcessInterrupt_gdb"
  unfolding ProcessInterrupt_gdb_def by (intro keep_call' keep_status) (simp add: well_said_def debug_opcodes)

lemma keep_cycle:
  assumes "keeps R cont"
  shows "keeps R (MessageLoopCycle cont)"
proof -
  define act where "act ch = (if ch = 36 then ProcessPacket cont else if ch = 3 then gbind ProcessInterrupt_gdb (\<lambda>_. gret True) else gret True)" for ch :: u8
  have "keeps R (act ch)" for ch
    unfolding act_def by (intro keep_if keep_packet assms keep_bind keep_interrupt keep_ret)
  then have act: "R t (snd (act ch t))" for ch t by (simp add: keeps_def)
  have "R s (s\<lparr>client_in := r\<rparr>)" if "client_in s = e # r" for s e r using taken [of s 1] that by simp
  then have "R s (snd (act ch (s\<lparr>client_in := r\<rparr>)))" "R s (s\<lparr>client_in := r\<rparr>)" if "client_in s = e # r" for s e r ch
    using that act chain by blast+
  then show ?thesis
    unfolding keeps_def MessageLoopCycle_def act_def [symmetric]
    by (auto simp: gret_def same split: list.splits client_event.splits)
qed

lemma keep_resume: "keeps R w \<Longrightarrow> keeps R (resume_with w)"
  unfolding resume_with_def by (intro keep_call' keep_bind keep_status) (auto simp: well_said_def debug_opcodes)

lemma keep_wait: "keeps R (wait_for_halt n)"
proof (induction n)
  case (Suc n)
  have "keeps R (\<lambda>s. case core_answer s of (Waiting, t) \<Rightarrow> (Waiting, t) | (r, t) \<Rightarrow> (if stops_waiting r then gret () t else wait_for_halt n t))"
    unfolding keeps_def
  proof
    fix s
    have "R s (snd (core_answer s))" "\<And>t. R t (snd (wait_for_halt n t))" using keep_answer Suc by (auto simp: keeps_def)
    then show "R s (snd (case core_answer s of (Waiting, t) \<Rightarrow> (Waiting, t) | (r, t) \<Rightarrow> (if stops_waiting r then gret () t else wait_for_halt n t)))"
      by (auto simp: gret_def split: prod.splits gdb_out.splits intro: chain)
  qed
  then show ?case unfolding wait_for_halt.simps by (intro keep_bind keep_cycle keep_resume Suc)
qed (simp add: keep_stop)

lemma keep_continue: "keeps R Continue"
  unfolding Continue_def using keep_wait by (intro keep_resume) (simp add: keeps_def WaitForHalt_def)

lemma keep_run: "keeps R (gdb_cycles n)"
proof (induction n)
  case (Suc n)
  then have "keeps R (if more then gdb_cycles n else gret ())" for more by (simp add: keep_ret)
  then show ?case unfolding gdb_cycles.simps by (intro keep_bind keep_cycle keep_continue)
qed (simp add: keep_stop)

lemma keep_client: "keeps R GDBClient"
proof -
  have "keeps R Run" using keep_run unfolding keeps_def Run_def by blast
  then show ?thesis unfolding GDBClient_def by (intro keep_call') (simp_all add: well_said_def debug_opcodes)
qed

end

section \<open>What the server sends\<close>

definition speaks :: "gdb \<Rightarrow> gdb \<Rightarrow> bool" where
  "speaks s t \<longleftrightarrow> (\<exists>es. gdb_log t = gdb_log s @ es \<and> list_all well_said es)"

interpretation said: gdb_relation speaks
proof
  fix s t u
  show "speaks s t \<Longrightarrow> speaks t u \<Longrightarrow> speaks s u"
    unfolding speaks_def by (metis append.assoc list_all_append)
qed (auto simp: speaks_def)

text \<open>
  C28: Whatever the debugger and the processor do, and wherever a run of the debug server ends, everything that it has sent to the
  debugger is a negative acknowledgement or a packet with a correct checksum whose text holds neither of the characters that begin and end a
  packet, and it has made only calls of the debug port, with aligned addresses for the reads of memory.
\<close>
theorem gdb_packets_wellformed:
  "\<exists>es. gdb_log (snd (GDBClient s)) = gdb_log s @ es \<and> list_all well_said es"
  using said.keep_client unfolding keeps_def speaks_def by blast

section \<open>The recursion of Continue\<close>

definition takes :: "gdb \<Rightarrow> gdb \<Rightarrow> bool" where
  "takes s t \<longleftrightarrow> length (client_in t) \<le> length (client_in s)"

interpretation input: gdb_relation takes
  by unfold_locales (auto simp: takes_def)

lemma takes_result: "keeps takes m \<Longrightarrow> m s = (r, t) \<Longrightarrow> length (client_in t) \<le> length (client_in s)"
  unfolding keeps_def takes_def by (metis snd_conv)

lemma answer_keeps_input: "core_answer s = (r, t) \<Longrightarrow> client_in t = client_in s"
  by (auto simp: core_answer_def split: list.splits core_event.splits)

lemma call_keeps_input: "debug_call c d0 d1 d2 s = (r, t) \<Longrightarrow> client_in t = client_in s"
  by (auto simp: debug_call_def dest: answer_keeps_input)

lemma gbind_cong': "m s = m' s \<Longrightarrow> (\<And>x t. m s = (Returned x, t) \<Longrightarrow> f x t = f' x t) \<Longrightarrow> gbind m f s = gbind m' f' s"
  by (auto simp: gbind_def split: gdb_out.splits prod.splits)

lemma dispatch_cong:
  assumes "\<And>t. length (client_in t) \<le> length (client_in s) \<Longrightarrow> c t = c' t"
  shows "dispatch c body s = dispatch c' body s"
proof -
  have "c s = c' s" by (simp add: assms)
  moreover from this have "ProcessVectorPacket c b s = ProcessVectorPacket c' b s" for b
    by (simp add: ProcessVectorPacket_def Let_def)
  moreover have "SingleStep c s = SingleStep c' s"
    by (auto simp: SingleStep_def assms split: prod.splits gdb_out.splits dest: call_keeps_input)
  ultimately show ?thesis
    unfolding dispatch_def Let_def by (simp add: gbind_def)
qed

lemma cycle_cong:
  assumes "\<And>t. length (client_in t) < length (client_in s) \<Longrightarrow> c t = c' t"
  shows "MessageLoopCycle c s = MessageLoopCycle c' s"
proof -
  have "ProcessPacket c u = ProcessPacket c' u" if "length (client_in u) < length (client_in s)" for u
    unfolding ProcessPacket_def
  proof (rule gbind_cong' [OF refl], rule gbind_cong' [OF refl], rule gbind_cong' [OF refl])
    fix body t1 a t2 b t
    assume "read_body [] u = (Returned body, t1)" "RecvOctet t1 = (Returned a, t2)" "RecvOctet t2 = (Returned b, t)"
    then have "length (client_in t) < length (client_in s)"
      using that takes_result [of "read_body []" u] input.keep_body RecvOctet_less [of t1] RecvOctet_less [of t2]
      by (fastforce simp: keeps_def)
    then have "dispatch c body t = dispatch c' body t" by (intro dispatch_cong assms) simp
    then show "(if expected_checksum a b (stack_octets t) \<noteq> ucast (checksum body)
         then gbind (SendOctets (ascii ''-'')) (\<lambda>_. gret True) else dispatch c body) t =
        (if expected_checksum a b (stack_octets t) \<noteq> ucast (checksum body)
         then gbind (SendOctets (ascii ''-'')) (\<lambda>_. gret True) else dispatch c' body) t"
      by simp
  qed
  then show ?thesis by (auto simp: MessageLoopCycle_def split: list.splits client_event.splits)
qed

lemma cycle_takes:
  assumes "keeps takes c" "MessageLoopCycle c s = (Returned x, t)"
  shows "length (client_in t) < length (client_in s)"
proof -
  obtain e r where e: "client_in s = e # r" using assms(2) by (cases "client_in s") (auto simp: MessageLoopCycle_def)
  define act where "act ch = (if ch = 36 then ProcessPacket c else if ch = 3 then gbind ProcessInterrupt_gdb (\<lambda>_. gret True) else gret True)" for ch :: u8
  have "keeps takes (act ch)" for ch
    unfolding act_def by (intro input.keep_if input.keep_packet assms input.keep_bind input.keep_interrupt input.keep_ret)
  then have "length (client_in t) \<le> length r"
    using assms(2) e takes_result [of "act ch" "s\<lparr>client_in := r\<rparr>" for ch]
    by (auto simp: MessageLoopCycle_def act_def [symmetric] gret_def split: client_event.splits)
  then show ?thesis by (simp add: e)
qed

lemma resume_cong:
  assumes "\<And>t. client_in t = client_in s \<Longrightarrow> w t = w' t"
  shows "resume_with w s = resume_with w' s"
  unfolding resume_with_def
  by (intro gbind_cong' refl assms) (auto dest: call_keeps_input)

lemma wait_fuel:
  "length (client_in s) \<le> n \<Longrightarrow> length (client_in s) \<le> m \<Longrightarrow> wait_for_halt n s = wait_for_halt m s"
proof (induction n arbitrary: m s)
  case 0
  then show ?case by (cases m) (auto simp: gbind_def MessageLoopCycle_def)
next
  case (Suc n)
  show ?case
  proof (cases m)
    case 0
    then show ?thesis using Suc(3) by (auto simp: gbind_def MessageLoopCycle_def)
  next
    case m: (Suc k)
    have less: "wait_for_halt n t = wait_for_halt k t" if "length (client_in t) < length (client_in s)" for t
      using that Suc m by (intro Suc.IH) auto
    have "resume_with (wait_for_halt n) t = resume_with (wait_for_halt k) t" if "length (client_in t) < length (client_in s)" for t
      using that by (intro resume_cong less) simp
    then have "MessageLoopCycle (resume_with (wait_for_halt n)) s = MessageLoopCycle (resume_with (wait_for_halt k)) s"
      by (rule cycle_cong)
    then show ?thesis
      unfolding m wait_for_halt.simps
      by (rule gbind_cong')
        (auto split: prod.splits gdb_out.splits intro!: less dest!: answer_keeps_input cycle_takes [OF input.keep_resume [OF input.keep_wait]])
  qed
qed

lemma wait_fuel': "length (client_in s) \<le> n \<Longrightarrow> wait_for_halt n s = WaitForHalt s"
  unfolding WaitForHalt_def by (rule wait_fuel) simp_all

lemma WaitForHalt_step:
  "WaitForHalt s =
     gbind (MessageLoopCycle Continue) (\<lambda>_ s.
       case core_answer s of
         (Waiting, t) \<Rightarrow> (Waiting, t)
       | (r, t) \<Rightarrow> (if stops_waiting r then gret () t else WaitForHalt t)) s"
proof -
  let ?n = "length (client_in s)"
  have "resume_with (wait_for_halt ?n) t = Continue t" if "length (client_in t) < ?n" for t
    unfolding Continue_def using that by (intro resume_cong wait_fuel') simp
  then have cycle: "MessageLoopCycle (resume_with (wait_for_halt ?n)) s = MessageLoopCycle Continue s"
    by (rule cycle_cong)
  have "WaitForHalt s = wait_for_halt (Suc ?n) s" by (simp only: wait_fuel')
  also have "\<dots> =
     gbind (MessageLoopCycle Continue) (\<lambda>_ s.
       case core_answer s of
         (Waiting, t) \<Rightarrow> (Waiting, t)
       | (r, t) \<Rightarrow> (if stops_waiting r then gret () t else WaitForHalt t)) s"
    unfolding wait_for_halt.simps using cycle
    by (rule gbind_cong')
      (auto simp: cycle split: prod.splits gdb_out.splits intro!: wait_fuel'
        dest!: answer_keeps_input cycle_takes [OF input.keep_continue])
  finally show ?thesis .
qed

lemma run_fuel: "length (client_in s) < n \<Longrightarrow> length (client_in s) < m \<Longrightarrow> gdb_cycles n s = gdb_cycles m s"
proof (induction n arbitrary: m s)
  case (Suc n)
  then obtain k where m: "m = Suc k" by (cases m) auto
  show ?case
    unfolding m gdb_cycles.simps
  proof (rule gbind_cong' [OF refl])
    fix more t
    assume "MessageLoopCycle Continue s = (Returned more, t)"
    then have "length (client_in t) < length (client_in s)" by (rule cycle_takes [OF input.keep_continue])
    then have "gdb_cycles n t = gdb_cycles k t" using Suc m by (intro Suc.IH) auto
    then show "(if more then gdb_cycles n else gret ()) t = (if more then gdb_cycles k else gret ()) t" by simp
  qed
qed simp

lemma Run_step: "Run s = gbind (MessageLoopCycle Continue) (\<lambda>more. if more then Run else gret ()) s"
  unfolding Run_def gdb_cycles.simps
proof (rule gbind_cong' [OF refl])
  fix more t
  assume "MessageLoopCycle Continue s = (Returned more, t)"
  then have "length (client_in t) < length (client_in s)" by (rule cycle_takes [OF input.keep_continue])
  then have "gdb_cycles (length (client_in s)) t = gdb_cycles (Suc (length (client_in t))) t" by (intro run_fuel) auto
  then show "(if more then gdb_cycles (length (client_in s)) else gret ()) t =
      (if more then \<lambda>s. gbind (MessageLoopCycle Continue) (\<lambda>more. if more then gdb_cycles (length (client_in s)) else gret ()) s
       else gret ()) t"
    by simp
qed


end
