(* ===== verification/Gdb_Spec.thy ===== *)
theory Gdb_Spec
  imports Gdb_Runs
begin

text \<open>The packets that the debug server accepts, and what it answers to the requests for memory and registers.\<close>

section \<open>Receiving\<close>

lemma RecvOctet_octet: "client_in s = Octet c # r \<Longrightarrow> RecvOctet s = (Returned c, s\<lparr>client_in := r\<rparr>)"
  by (simp add: RecvOctet_def)

lemma read_body_exact:
  "35 \<notin> set str \<Longrightarrow> client_in s = map Octet str @ Octet 35 # r \<Longrightarrow>
   read_body body s = (Returned (body @ str), s\<lparr>client_in := r\<rparr>)"
proof (induction str arbitrary: body s)
  case Nil
  then show ?case by (subst read_body.simps) (simp add: gbind_def gret_def RecvOctet_octet)
next
  case (Cons c str)
  have "read_body (body @ [c]) (s\<lparr>client_in := map Octet str @ Octet 35 # r\<rparr>) = (Returned (body @ c # str), s\<lparr>client_in := r\<rparr>)"
    using Cons.IH [of "s\<lparr>client_in := map Octet str @ Octet 35 # r\<rparr>" "body @ [c]"] Cons.prems by simp
  then show ?case using Cons.prems by (subst read_body.simps) (auto simp: gbind_def RecvOctet_octet)
qed

text \<open>An acknowledged answer is sent once.\<close>

lemma SendResponse_acked:
  "client_in s = Octet 43 # r \<Longrightarrow>
   SendResponse str s = (Returned (), s\<lparr>client_in := r, gdb_log := gdb_log s @ [ToClient (gdb_frame str)]\<rparr>)"
  unfolding SendResponse_def
  by (subst send_until_ack.simps) (simp add: gbind_def gret_def SendOctets_def RecvOctet_octet)

section \<open>Checksums\<close>

lemma digit_value_less: "digit_value c < 16 \<Longrightarrow> c \<noteq> 0 \<and> \<not> is_space c \<and> c \<noteq> 43 \<and> c \<noteq> 45 \<and> c \<noteq> 120 \<and> c \<noteq> 88"
  by (auto simp: digit_value_def is_space_def word_le_nat_alt split: if_splits)

lemma expected_digits:
  assumes "digit_value a < 16" "digit_value b < 16"
  shows "expected_checksum a b after = of_nat (digit_value a * 16 + digit_value b)"
proof -
  note A = digit_value_less [OF assms(1)] and B = digit_value_less [OF assms(2)]
  have "take 2 (a # b # c_str after) \<noteq> ascii ''0x'' \<and> take 2 (a # b # c_str after) \<noteq> ascii ''0X''"
    using B by (auto simp: ascii_def)
  then show ?thesis
    using A B assms by (simp add: expected_checksum_def c_str_def scan_number_def scan_unsigned_def scan_digits_def digits_value_def numeral_2_eq_2)
qed

lemma hex_digit_value: "n < 16 \<Longrightarrow> digit_value (hex_digit n) = n"
proof -
  have "list_all (\<lambda>n. digit_value (hex_digit n) = n) [0..<16]" by code_simp
  then show "n < 16 \<Longrightarrow> digit_value (hex_digit n) = n" by (simp add: list_all_iff)
qed

lemma expected_hex2: "hex2 c = [a, b] \<Longrightarrow> expected_checksum a b after = ucast c"
proof -
  assume "hex2 c = [a, b]"
  then have ab: "a = hex_digit (unat c div 16)" "b = hex_digit (unat c mod 16)" by (auto simp: hex2_def)
  have "unat c div 16 < 16" using unat_u8_bound [of c] by (simp add: less_mult_imp_div_less)
  then have "expected_checksum a b after = of_nat (unat c div 16 * 16 + unat c mod 16)"
    by (subst expected_digits) (simp_all add: ab hex_digit_value)
  then show ?thesis by (simp del: of_nat_add of_nat_mult)
qed

lemma ProcessPacket_exact:
  assumes "35 \<notin> set body" "client_in s = map Octet (body @ [35, a, b]) @ r"
  shows "ProcessPacket cont s =
    (if expected_checksum a b (stack_octets s) = ucast (checksum body) then dispatch cont body (s\<lparr>client_in := r\<rparr>)
     else (Returned True, s\<lparr>client_in := r, gdb_log := gdb_log s @ [ToClient (ascii ''-'')]\<rparr>))"
proof -
  have "client_in s = map Octet body @ Octet 35 # Octet a # Octet b # r" using assms(2) by simp
  from read_body_exact [OF assms(1) this, of "[]"] show ?thesis
    unfolding ProcessPacket_def by (simp add: gbind_def gret_def SendOctets_def RecvOctet_octet)
qed

lemma packet_checked:
  assumes "35 \<notin> set body" "digit_value a < 16" "digit_value b < 16"
    and "client_in s = map Octet (ascii ''$'' @ body @ ascii ''#'' @ [a, b]) @ r"
  shows "MessageLoopCycle cont s =
    (if digit_value a * 16 + digit_value b = unat (checksum body) then dispatch cont body (s\<lparr>client_in := r\<rparr>)
     else (Returned True, s\<lparr>client_in := r, gdb_log := gdb_log s @ [ToClient (ascii ''-'')]\<rparr>))"
proof -
  define t where "t = s\<lparr>client_in := map Octet (body @ [35, a, b]) @ r\<rparr>"
  have t: "client_in t = map Octet (body @ [35, a, b]) @ r" by (simp add: t_def)
  have "digit_value a * 16 + digit_value b < 256" using assms(2,3) by simp
  then have "(of_nat (digit_value a * 16 + digit_value b) = (ucast (checksum body) :: u32)) \<longleftrightarrow>
      digit_value a * 16 + digit_value b = unat (checksum body)"
    using unat_u8_bound [of "checksum body"]
    by (simp add: word_unat_eq_iff unsigned_ucast_eq unat_of_nat take_bit_nat_eq_self del: of_nat_add of_nat_mult)
  moreover have "MessageLoopCycle cont s = ProcessPacket cont t" using assms(4) by (simp add: MessageLoopCycle_def ascii_def t_def)
  ultimately show ?thesis
    using ProcessPacket_exact [OF assms(1) t, of cont] expected_digits [OF assms(2,3)] by (simp add: t_def del: of_nat_add of_nat_mult)
qed

text \<open>A server and a message of the processor for the examples.\<close>

definition idle_gdb :: gdb where
  "idle_gdb = \<lparr>client_in = [], core_in = [], gdb_log = [], recv_throws = False, stack_octets = [], m_pc = 0\<rparr>"

definition data_message :: "u32 \<Rightarrow> rpc_message" where
  "data_message d = \<lparr>rpc_from = 0, rpc_to = 0, rpc_callnum = 0, rpc_type = 0, rpc_data0 = 1, rpc_data1 = d, rpc_data2 = d\<rparr>"

lemma data_message_simps [simp]: "rpc_data0 (data_message d) = 1" "rpc_data1 (data_message d) = d" "rpc_data2 (data_message d) = d"
  by (simp_all add: data_message_def)

text \<open>
  C29: A packet is carried out exactly when its two hexadecimal digits are the sum of its octets modulo 256. With any other digits the
  server only sends a negative acknowledgement. Either way exactly the packet is taken from the input.
\<close>
theorem gdb_packet_checked:
  assumes "35 \<notin> set body" "digit_value a < 16" "digit_value b < 16"
    and "client_in s = map Octet (ascii ''$'' @ body @ ascii ''#'' @ [a, b]) @ r"
  shows "MessageLoopCycle cont s =
    (if digit_value a * 16 + digit_value b = unat (checksum body) then dispatch cont body (s\<lparr>client_in := r\<rparr>)
     else (Returned True, s\<lparr>client_in := r, gdb_log := gdb_log s @ [ToClient (ascii ''-'')]\<rparr>))"
  using assms by (rule packet_checked)

theorem gdb_packet_checked_witness:
  "MessageLoopCycle Continue (idle_gdb\<lparr>client_in := map Octet (ascii ''$g#67'')\<rparr>) = dispatch Continue (ascii ''g'') idle_gdb"
proof -
  have "digit_value 54 = 6" "digit_value 55 = 7" "checksum (ascii ''g'') = 0x67" "35 \<notin> set (ascii ''g'')" by code_simp+
  moreover have "map Octet (ascii ''$g#67'') = map Octet (ascii ''$'' @ ascii ''g'' @ ascii ''#'' @ [54, 55]) @ []" by code_simp
  ultimately show ?thesis
    by (subst gdb_packet_checked [where r = "[]" and body = "ascii ''g''" and a = 54 and b = 55]) (simp_all add: idle_gdb_def)
qed

text \<open>The server accepts its own packets.\<close>

lemma gdb_packet_roundtrip:
  assumes "35 \<notin> set body" "client_in s = map Octet (gdb_frame body) @ r"
  shows "\<exists>t. MessageLoopCycle cont s = (Returned True, t) \<and> MessageLoopCycle cont t = dispatch cont body (s\<lparr>client_in := r\<rparr>)"
proof -
  obtain a b where ab: "hex2 (checksum body) = [a, b]" by (simp add: hex2_def)
  define t where "t = s\<lparr>client_in := map Octet (ascii ''$'' @ body @ [35, a, b]) @ r\<rparr>"
  define u where "u = s\<lparr>client_in := map Octet (body @ [35, a, b]) @ r\<rparr>"
  have "MessageLoopCycle cont s = (Returned True, t)"
    using assms(2) ab by (simp add: MessageLoopCycle_def gdb_frame_def ascii_def t_def gret_def)
  moreover have "MessageLoopCycle cont t = ProcessPacket cont u" by (simp add: MessageLoopCycle_def ascii_def t_def u_def)
  moreover have "ProcessPacket cont u = dispatch cont body (s\<lparr>client_in := r\<rparr>)"
    by (subst ProcessPacket_exact [OF assms(1), of u a b r]) (simp_all add: u_def expected_hex2 [OF ab])
  ultimately show ?thesis by metis
qed

lemma gdb_packet_roundtrip_example:
  "\<exists>t. MessageLoopCycle Continue (idle_gdb\<lparr>client_in := map Octet (gdb_frame (ascii ''?''))\<rparr>) = (Returned True, t) \<and>
     MessageLoopCycle Continue t = dispatch Continue (ascii ''?'') idle_gdb"
proof -
  have "35 \<notin> set (ascii ''?'')" by code_simp
  then show ?thesis
    using gdb_packet_roundtrip [of "ascii ''?''" "idle_gdb\<lparr>client_in := map Octet (gdb_frame (ascii ''?''))\<rparr>" "[]" Continue]
    by (simp add: idle_gdb_def)
qed

end
