(* ===== verification/Gdb_Mem.thy ===== *)
theory Gdb_Mem
  imports Gdb_Spec
begin

text \<open>What the debug server answers to the requests for memory and registers, and the requests that it cannot end.\<close>

section \<open>Reading words\<close>

definition read_calls :: "u32 \<Rightarrow> nat \<Rightarrow> gdb_event list" where
  "read_calls saddr n = map (\<lambda>i. Called DEBUG_READ_MEMORY 0 (saddr + 4 * of_nat i) 0) [0..<n]"

definition memory_bytes :: "rpc_message list \<Rightarrow> u8 list" where
  "memory_bytes ws = concat (map (\<lambda>m. word_bytes (rpc_data1 m)) ws)"

lemma read_calls_Suc: "read_calls saddr (Suc n) = Called DEBUG_READ_MEMORY 0 saddr 0 # read_calls (saddr + 4) n"
  by (simp add: read_calls_def upt_conv_Cons map_Suc_upt [symmetric] algebra_simps comp_def del: upt_Suc)

lemma read_calls_0 [simp]: "read_calls saddr 0 = []"
  by (simp add: read_calls_def)

lemma length_memory_bytes: "length (memory_bytes ws) = 4 * length ws"
  by (induction ws) (auto simp: memory_bytes_def word_bytes_def)

lemma debug_answered: "core_in s = Answer m # cr \<Longrightarrow>
    debug_call c d0 d1 d2 s = (Returned m, s\<lparr>core_in := cr, gdb_log := gdb_log s @ [Called c d0 d1 d2]\<rparr>)"
  by (simp add: debug_call_def core_answer_def)

lemma read_word_answered: "core_in s = Answer m # cr \<Longrightarrow>
    read_word add s = (Returned (Some m), s\<lparr>core_in := cr, gdb_log := gdb_log s @ [Called DEBUG_READ_MEMORY 0 add 0]\<rparr>)"
  by (simp add: read_word_def gcatch_def gbind_def gret_def debug_answered)

lemma read_words_answered:
  "core_in s = map Answer ws @ cr \<Longrightarrow> (\<And>i. i < length ws \<Longrightarrow> saddr + 4 * of_nat i < eaddr) \<Longrightarrow>
   read_words saddr eaddr bytes s =
   read_words (saddr + 4 * of_nat (length ws)) eaddr (bytes @ memory_bytes ws)
     (s\<lparr>core_in := cr, gdb_log := gdb_log s @ read_calls saddr (length ws)\<rparr>)"
proof (induction ws arbitrary: saddr bytes s)
  case (Cons m ws)
  define t where "t = s\<lparr>core_in := map Answer ws @ cr, gdb_log := gdb_log s @ [Called DEBUG_READ_MEMORY 0 saddr 0]\<rparr>"
  have "saddr < eaddr" using Cons.prems(2) [of 0] by simp
  then have "read_words saddr eaddr bytes s = read_words (saddr + 4) eaddr (bytes @ word_bytes (rpc_data1 m)) t"
    using Cons.prems(1) by (subst read_words.simps) (simp add: gbind_def read_word_answered t_def)
  also have "\<dots> = read_words (saddr + 4 + 4 * of_nat (length ws)) eaddr ((bytes @ word_bytes (rpc_data1 m)) @ memory_bytes ws)
     (t\<lparr>core_in := cr, gdb_log := gdb_log t @ read_calls (saddr + 4) (length ws)\<rparr>)"
  proof (rule Cons.IH)
    show "saddr + 4 + 4 * of_nat i < eaddr" if "i < length ws" for i
      using Cons.prems(2) [of "Suc i"] that by (simp add: algebra_simps)
  qed (simp add: t_def)
  finally show ?case by (simp add: t_def read_calls_Suc memory_bytes_def algebra_simps)
next
  case Nil
  then have "s\<lparr>core_in := cr, gdb_log := gdb_log s\<rparr> = s" by simp
  then show ?case by (simp add: memory_bytes_def)
qed

section \<open>Addresses\<close>

lemma word_address: "unat (a AND 0xFFFFFFFC) = unat (a :: u32) - unat a mod 4" "unat (a - (a AND 0xFFFFFFFC)) = unat a mod 4"
proof -
  have m: "(0xFFFFFFFC :: u32) = NOT (mask 2)" by (simp add: mask_numeral)
  have p: "a AND NOT (mask k) = push_bit k (drop_bit k a)" for k
    by (rule bit_word_eqI) (auto simp: bit_simps)
  have "push_bit 2 (drop_bit 2 a) = a - take_bit 2 a" using bits_ident [of 2 a] by (simp add: eq_diff_eq)
  then have e: "a AND 0xFFFFFFFC = a - take_bit 2 a" unfolding m p .
  have "unat (take_bit 2 a) = take_bit 2 (unat a)" by (rule unsigned_take_bit_eq)
  then have l: "unat (take_bit 2 a) = unat a mod 4" by (simp only: take_bit_eq_mod) simp
  then have "take_bit 2 a \<le> a" by (simp add: word_le_nat_alt)
  then show "unat (a AND 0xFFFFFFFC) = unat a - unat a mod 4" unfolding e using l by (simp add: unat_sub)
  show "unat (a - (a AND 0xFFFFFFFC)) = unat a mod 4" unfolding e using l by simp
qed

lemma word_count:
  fixes addr len :: u32
  assumes "unat addr + unat len \<le> 2 ^ 32 - 4" "n = (unat addr mod 4 + unat len + 3) div 4"
  shows "i < n \<Longrightarrow> (addr AND 0xFFFFFFFC) + 4 * of_nat i < addr + len"
    and "\<not> (addr AND 0xFFFFFFFC) + 4 * of_nat n < addr + len"
    and "\<not> addr + len < addr AND 0xFFFFFFFC"
proof -
  define a where "a = unat addr - unat addr mod 4"
  have sum: "unat addr = a + unat addr mod 4" by (simp add: a_def)
  have top: "unat addr + unat len \<le> 4294967292" using assms(1) by simp
  then have e: "unat (addr + len) = unat addr + unat len" by (simp add: unat_word_ariths)
  have s: "unat (addr AND 0xFFFFFFFC) = a" by (simp add: word_address a_def)
  have n: "4 * n \<le> unat addr mod 4 + unat len + 3" "unat addr mod 4 + unat len < 4 * n + 1" unfolding assms(2) by simp_all
  have w: "unat ((addr AND 0xFFFFFFFC) + 4 * of_nat i) = a + 4 * i" if "i \<le> n" for i
  proof -
    have "a + 4 * i < 4294967296" using that n(1) sum top by linarith
    then show ?thesis using s by (simp add: unat_word_ariths unat_of_nat mod_simps)
  qed
  show "i < n \<Longrightarrow> (addr AND 0xFFFFFFFC) + 4 * of_nat i < addr + len"
    unfolding word_less_nat_alt e using w [of i] n(1) sum by linarith
  show "\<not> (addr AND 0xFFFFFFFC) + 4 * of_nat n < addr + len"
    unfolding word_less_nat_alt e w [OF order.refl] using n(2) sum by linarith
  show "\<not> addr + len < addr AND 0xFFFFFFFC"
    unfolding word_less_nat_alt e s using sum by linarith
qed

section \<open>Memory\<close>

lemma format_exact:
  assumes "unat offset + unat len \<le> length bytes" "unat offset + unat len < 2 ^ 32"
  shows "format_bytes bytes offset len s = (Returned (concat (map hex2 (take (unat len) (drop (unat offset) bytes)))), s)"
proof -
  have index: "unat (of_nat i + offset) = unat offset + i" if "i < unat len" for i
  proof -
    have "unat offset + i < 2 ^ 32" using that assms(2) by simp
    then have "unat (of_nat (unat offset + i) :: u32) = unat offset + i" by (simp only: unat_of_nat) simp
    then show ?thesis by (simp add: add.commute)
  qed
  have "map (\<lambda>i. bytes ! unat (of_nat i + offset)) [0..<unat len] = take (unat len) (drop (unat offset) bytes)"
    using assms(1) by (intro nth_equalityI) (auto simp: index)
  from arg_cong [OF this, of "map hex2"]
  have "map (\<lambda>i. hex2 (bytes ! unat (of_nat i + offset))) [0..<unat len] = map hex2 (take (unat len) (drop (unat offset) bytes))"
    by (simp only: map_map comp_def)
  moreover have "list_all (\<lambda>i. unat (of_nat i + offset) < length bytes) [0..<unat len]"
    using assms(1) by (auto simp: list_all_iff index)
  ultimately show ?thesis by (simp add: format_bytes_def gret_def)
qed

text \<open>
  C30: A request for memory whose end is not within the last word of the address space reads exactly the words that hold the bytes asked
  for, each once and in order, and answers with those bytes in hexadecimal, whatever the alignment of the address and the length.
\<close>
theorem gdb_read_exact:
  fixes addr len :: u32
  assumes "parse_read body = Some (addr, len)" "addr AND 0xFFFFFFFC \<noteq> 0" "unat addr + unat len \<le> 2 ^ 32 - 4"
    and "length ws = (unat addr mod 4 + unat len + 3) div 4"
    and "core_in s = map Answer ws @ cr" "client_in s = Octet 43 # r"
  shows "ReadMemory body s =
    (Returned (), s\<lparr>client_in := r, core_in := cr,
       gdb_log := gdb_log s @ read_calls (addr AND 0xFFFFFFFC) (length ws) @
         [ToClient (gdb_frame (concat (map hex2 (take (unat len) (drop (unat addr mod 4) (memory_bytes ws))))))]\<rparr>)"
proof -
  note count = word_count [OF assms(3,4)]
  let ?t = "s\<lparr>core_in := cr, gdb_log := gdb_log s @ read_calls (addr AND 0xFFFFFFFC) (length ws)\<rparr>"
  have "read_words (addr AND 0xFFFFFFFC) (addr + len) [] s = (Returned (Some (memory_bytes ws)), ?t)"
    using count(2) by (subst read_words_answered [OF assms(5) count(1)]) (simp_all add: read_words.simps gret_def)
  moreover have "unat addr mod 4 + unat len \<le> length (memory_bytes ws)"
    unfolding length_memory_bytes assms(4) by linarith
  moreover have "unat addr mod 4 + unat len < 2 ^ 32" using assms(3) mod_less_eq_dividend [of "unat addr" 4] by simp
  ultimately show ?thesis
    using count(3) assms
    by (simp add: ReadMemory_def Let_def gbind_def format_exact word_address SendResponse_acked)
qed

theorem gdb_read_exact_witness:
  "ReadMemory (ascii ''m40080003,5'') (idle_gdb\<lparr>client_in := [Octet 43], core_in := map Answer [data_message 0x01020304, data_message 0x05060708]\<rparr>) =
    (Returned (), idle_gdb\<lparr>gdb_log := [Called DEBUG_READ_MEMORY 0 0x40080000 0, Called DEBUG_READ_MEMORY 0 0x40080004 0,
      ToClient (gdb_frame (ascii ''0405060708''))]\<rparr>)"
proof -
  have "parse_read (ascii ''m40080003,5'') = Some (0x40080003, 5)" by code_simp
  moreover have "concat (map hex2 (take 5 (drop 3 (memory_bytes [data_message 0x01020304, data_message 0x05060708])))) = ascii ''0405060708''"
    by code_simp
  moreover have "read_calls 0x40080000 (Suc (Suc 0)) = [Called DEBUG_READ_MEMORY 0 0x40080000 0, Called DEBUG_READ_MEMORY 0 0x40080004 0]"
    by (simp add: read_calls_def)
  ultimately show ?thesis
    by (subst gdb_read_exact [where addr = "0x40080003" and len = "5" and r = "[]" and cr = "[]" and ws = "[data_message 0x01020304, data_message 0x05060708]"])
      (simp_all add: idle_gdb_def)
qed

text \<open>
  C31: A request whose end lies within the last word of the address space never ends by itself: the address wraps to zero, and the server
  goes on reading for as long as the processor answers, and sends nothing.
\<close>
theorem gdb_read_unending:
  fixes addr len :: u32
  assumes "parse_read body = Some (addr, len)" "addr AND 0xFFFFFFFC \<noteq> 0" "0xFFFFFFFC < addr + len" "core_in s = map Answer ws"
  shows "ReadMemory body s =
    (Waiting, s\<lparr>core_in := [], gdb_log := gdb_log s @ read_calls (addr AND 0xFFFFFFFC) (Suc (length ws))\<rparr>)"
proof -
  have top: "w < addr + len" if "w AND 3 = 0" for w :: u32
  proof -
    have "4 dvd unat w" using that by (simp add: aligned_iff)
    then obtain k where "unat w = 4 * k" by (elim dvdE)
    then have "unat w \<le> 2 ^ 32 - 4" using unat_u32_bound [of w] by simp
    moreover have "2 ^ 32 - 4 < unat (addr + len)" using assms(3) by (simp add: word_less_nat_alt)
    ultimately show ?thesis by (simp add: word_less_nat_alt)
  qed
  have low: "(addr AND 0xFFFFFFFC) AND 3 = 0" by (simp add: ac_simps)
  have aligned: "((addr AND 0xFFFFFFFC) + 4 * of_nat i) AND 3 = 0" for i
  proof (induction i)
    case (Suc i)
    then show ?case using aligned_next [OF Suc] by (simp add: algebra_simps)
  qed (simp add: low)
  have "read_words (addr AND 0xFFFFFFFC) (addr + len) [] s =
     read_words ((addr AND 0xFFFFFFFC) + 4 * of_nat (length ws)) (addr + len) ([] @ memory_bytes ws)
       (s\<lparr>core_in := [], gdb_log := gdb_log s @ read_calls (addr AND 0xFFFFFFFC) (length ws)\<rparr>)"
    using assms(4) by (intro read_words_answered top aligned) simp
  also have "\<dots> = (Waiting, s\<lparr>core_in := [], gdb_log := gdb_log s @ read_calls (addr AND 0xFFFFFFFC) (Suc (length ws))\<rparr>)"
    using top [OF aligned]
    by (subst read_words.simps)
      (simp add: gbind_def read_word_def gcatch_def debug_call_def core_answer_def read_calls_def)
  finally have "read_words (addr AND 0xFFFFFFFC) (addr + len) [] s =
    (Waiting, s\<lparr>core_in := [], gdb_log := gdb_log s @ read_calls (addr AND 0xFFFFFFFC) (Suc (length ws))\<rparr>)" .
  moreover have "\<not> addr + len < addr AND 0xFFFFFFFC" using top [OF low] by simp
  ultimately show ?thesis using assms(1,2) by (simp add: ReadMemory_def Let_def gbind_def)
qed

theorem gdb_read_unending_witness:
  "ReadMemory (ascii ''mfffffffc,2'') (idle_gdb\<lparr>core_in := [Answer (data_message 7)]\<rparr>) =
    (Waiting, idle_gdb\<lparr>gdb_log := [Called DEBUG_READ_MEMORY 0 0xfffffffc 0, Called DEBUG_READ_MEMORY 0 0 0]\<rparr>)"
proof -
  have "parse_read (ascii ''mfffffffc,2'') = Some (0xfffffffc, 2)" by code_simp
  then show ?thesis
    by (subst gdb_read_unending [where addr = "0xfffffffc" and len = "2" and ws = "[data_message 7]"]) (simp_all add: idle_gdb_def read_calls_def)
qed

text \<open>
  C32: A request whose length wraps the sum back to an address of the same word passes the check for a wrap, and the server reads past the
  end of the bytes that it has collected.
\<close>
theorem gdb_read_overrun:
  fixes addr len :: u32
  assumes "parse_read body = Some (addr, len)" "addr AND 0xFFFFFFFC \<noteq> 0" "2 ^ 32 \<le> unat addr + unat len"
    and "addr AND 0xFFFFFFFC \<le> addr + len" "addr + len \<le> 0xFFFFFFFC" "core_in s = Answer m # cr"
  shows "fst (ReadMemory body s) = Wild"
proof -
  define a where "a = unat addr - unat addr mod 4"
  have s: "unat (addr AND 0xFFFFFFFC) = a" by (simp add: word_address a_def)
  have addr: "unat addr = a + unat addr mod 4" "unat addr mod 4 < 4" by (simp_all add: a_def)
  have len: "unat len < 4294967296" by (rule unat_u32_bound)
  have "unat (addr + len) = unat addr + unat len - 4294967296"
    using assms(3) len unat_u32_bound [of addr] by (simp add: unat_word_ariths mod_if)
  then have e: "a \<le> unat (addr + len)" "unat (addr + len) < unat addr" "unat (addr + len) \<le> 4294967292" "4294967293 \<le> unat len"
    using assms(3-5) s addr len by (simp_all add: word_le_nat_alt)
  have "\<exists>bytes t. read_words (addr AND 0xFFFFFFFC) (addr + len) [] s = (Returned (Some bytes), t) \<and> length bytes \<le> 4"
  proof (cases "addr AND 0xFFFFFFFC < addr + len")
    case True
    then have "a + 4 < 4294967296" using e(3) s by (simp add: word_less_nat_alt)
    then have "unat ((addr AND 0xFFFFFFFC) + 4) = a + 4" by (simp add: unat_word_ariths s)
    then have "\<not> (addr AND 0xFFFFFFFC) + 4 < addr + len" using addr e(2) by (simp add: word_less_nat_alt)
    moreover have "read_words (addr AND 0xFFFFFFFC) (addr + len) [] s =
        read_words ((addr AND 0xFFFFFFFC) + 4 * of_nat (length [m])) (addr + len) ([] @ memory_bytes [m])
          (s\<lparr>core_in := cr, gdb_log := gdb_log s @ read_calls (addr AND 0xFFFFFFFC) (length [m])\<rparr>)"
      using assms(6) True by (intro read_words_answered) simp_all
    moreover have "length (memory_bytes [m]) = 4" by (simp add: length_memory_bytes)
    ultimately show ?thesis by (simp add: read_words.simps [of "(addr AND 0xFFFFFFFC) + 4"] gret_def)
  qed (simp add: read_words.simps [of "addr AND 0xFFFFFFFC"] gret_def)
  then obtain bytes t where r: "read_words (addr AND 0xFFFFFFFC) (addr + len) [] s = (Returned (Some bytes), t)" "length bytes \<le> 4"
    by blast
  have "unat (of_nat 4 + (addr - (addr AND 0xFFFFFFFC))) = 4 + unat addr mod 4"
    using addr(2) by (simp add: unat_word_ariths word_address)
  then have "\<not> list_all (\<lambda>i. unat (of_nat i + (addr - (addr AND 0xFFFFFFFC))) < length bytes) [0..<unat len]"
    using r(2) e(4) by (auto simp: list_all_iff intro!: bexI [of _ 4])
  then have "format_bytes bytes (addr - (addr AND 0xFFFFFFFC)) len t = (Wild, t)" by (simp only: format_bytes_def if_False)
  then show ?thesis
    using r(1) assms(1,2) leD [OF assms(4)] by (simp add: ReadMemory_def Let_def gbind_def)
qed

theorem gdb_read_overrun_witness:
  "fst (ReadMemory (ascii ''m40080003,-1'') (idle_gdb\<lparr>core_in := [Answer (data_message 7)]\<rparr>)) = Wild"
proof -
  have "parse_read (ascii ''m40080003,-1'') = Some (0x40080003, 0xffffffff)" by code_simp
  then show ?thesis by (rule gdb_read_overrun) simp_all
qed

section \<open>Registers\<close>

text \<open>The registers in the order of the comment in the code: 32 general-purpose, sr, lo, hi, bad, cause, pc, and 35 of the floating-point unit.\<close>

definition register_file :: "rpc_message list \<Rightarrow> rpc_message \<Rightarrow> rpc_message \<Rightarrow> u32 list" where
  "register_file gpr mdu st =
     concat (map (\<lambda>m. [rpc_data1 m, rpc_data2 m]) gpr) @
     [0, rpc_data1 mdu, rpc_data2 mdu, rpc_data2 st, 0xcccccccc, rpc_data1 st] @ replicate 35 0"

definition register_calls :: "nat \<Rightarrow> nat \<Rightarrow> gdb_event list" where
  "register_calls i n = map (\<lambda>k. Called DEBUG_READ_REGISTERS 0 (of_nat (i + 2 * k)) (of_nat (i + 2 * k + 1))) [0..<n]"

lemma register_calls_Suc:
  "register_calls i (Suc n) = Called DEBUG_READ_REGISTERS 0 (of_nat i) (of_nat (i + 1)) # register_calls (i + 2) n"
  by (simp add: register_calls_def upt_conv_Cons map_Suc_upt [symmetric] comp_def algebra_simps del: upt_Suc)

lemma read_registers_exact:
  "core_in s = map Answer ms @ cr \<Longrightarrow>
   read_registers i (length ms) s =
   (Returned (concat (map hex8 (concat (map (\<lambda>m. [rpc_data1 m, rpc_data2 m]) ms)))),
    s\<lparr>core_in := cr, gdb_log := gdb_log s @ register_calls i (length ms)\<rparr>)"
proof (induction ms arbitrary: i s)
  case Nil
  then have "s\<lparr>core_in := cr, gdb_log := gdb_log s\<rparr> = s" by simp
  then show ?case by (simp add: gret_def register_calls_def)
next
  case (Cons m ms)
  then show ?case by (simp add: gbind_def gret_def debug_answered register_calls_Suc)
qed

lemma gdb_registers_exact:
  assumes "core_in s = map Answer (gpr @ [mdu, st]) @ cr" "length gpr = 16" "client_in s = Octet 43 # r"
  shows "length (register_file gpr mdu st) = 73 \<and>
    ReadRegisters s =
      (Returned (), s\<lparr>client_in := r, core_in := cr,
         gdb_log := gdb_log s @ register_calls 0 16 @ [Called DEBUG_GET_MDU 0 0 0, Called DEBUG_GET_STATUS 0 0 0,
           ToClient (gdb_frame (concat (map hex8 (register_file gpr mdu st))))]\<rparr>)"
proof
  have "length (concat (map (\<lambda>m. [rpc_data1 m, rpc_data2 m]) ms)) = 2 * length ms" for ms :: "rpc_message list"
    by (induction ms) auto
  then show "length (register_file gpr mdu st) = 73" using assms(2) by (simp add: register_file_def)
  have "read_registers 0 16 s =
      (Returned (concat (map hex8 (concat (map (\<lambda>m. [rpc_data1 m, rpc_data2 m]) gpr)))),
       s\<lparr>core_in := Answer mdu # Answer st # cr, gdb_log := gdb_log s @ register_calls 0 16\<rparr>)"
    using read_registers_exact [of s gpr "Answer mdu # Answer st # cr" 0] assms(1,2) by simp
  moreover have "hex8 0 = ascii ''00000000''" "hex8 0xcccccccc = ascii ''cccccccc''" by code_simp+
  ultimately show "ReadRegisters s =
      (Returned (), s\<lparr>client_in := r, core_in := cr,
         gdb_log := gdb_log s @ register_calls 0 16 @ [Called DEBUG_GET_MDU 0 0 0, Called DEBUG_GET_STATUS 0 0 0,
           ToClient (gdb_frame (concat (map hex8 (register_file gpr mdu st))))]\<rparr>)"
    using assms(3)
    by (simp add: ReadRegisters_def gbind_def debug_answered SendResponse_acked register_file_def)
qed

lemma gdb_registers_exact_example:
  "\<exists>t. ReadRegisters (idle_gdb\<lparr>client_in := [Octet 43], core_in := map Answer (replicate 18 (data_message 9))\<rparr>) = (Returned (), t) \<and>
     length (gdb_log t) = 19"
proof -
  have "replicate 18 (data_message 9) = replicate 16 (data_message 9) @ [data_message 9, data_message 9]" by (simp add: numeral_eq_Suc)
  then show ?thesis
    using gdb_registers_exact [of "idle_gdb\<lparr>client_in := [Octet 43], core_in := map Answer (replicate 18 (data_message 9))\<rparr>"
        "replicate 16 (data_message 9)" "data_message 9" "data_message 9" "[]" "[]"]
    by (simp add: idle_gdb_def register_calls_def)
qed

section \<open>Leaving the debugger\<close>

lemma detach_cycle:
  assumes "client_in s = map Octet (ascii ''$D#44+'') @ r"
  shows "MessageLoopCycle cont s = (Returned False, s\<lparr>client_in := r, gdb_log := gdb_log s @ [ToClient (gdb_frame (ascii ''OK''))]\<rparr>)"
proof -
  have "checksum [68] = 68" "35 \<notin> set [68 :: u8]" by code_simp+
  moreover have "client_in s = map Octet (ascii ''$'' @ [68] @ ascii ''#'' @ [52, 52]) @ Octet 43 # r"
    using assms by (simp add: ascii_def)
  moreover have "digit_value 52 = 4" by code_simp
  ultimately have "MessageLoopCycle cont s = dispatch cont [68] (s\<lparr>client_in := Octet 43 # r\<rparr>)"
    by (subst packet_checked [of "[68]" 52 52 s "Octet 43 # r"]) simp_all
  then show ?thesis by (simp add: dispatch_def Let_def gbind_def gret_def SendResponse_acked)
qed

lemma waiting_quiet:
  "client_in s = replicate k Quiet \<Longrightarrow> core_in s = replicate k Silent \<Longrightarrow>
   WaitForHalt s = (Waiting, s\<lparr>client_in := [], core_in := []\<rparr>)"
proof (induction k arbitrary: s)
  case 0
  then have "s\<lparr>client_in := [], core_in := []\<rparr> = s" by simp
  with 0 show ?case by (subst WaitForHalt_step) (simp add: gbind_def MessageLoopCycle_def)
next
  case (Suc k)
  then show ?case
    by (subst WaitForHalt_step) (simp add: gbind_def MessageLoopCycle_def gret_def core_answer_def stops_waiting_def)
qed

lemma gdb_detach:
  "Run (s\<lparr>client_in := map Octet (ascii ''$D#44+'') @ r\<rparr>) =
     (Returned (), s\<lparr>client_in := r, gdb_log := gdb_log s @ [ToClient (gdb_frame (ascii ''OK''))]\<rparr>) \<and>
   Continue (s\<lparr>client_in := map Octet (ascii ''$D#44+'') @ replicate k Quiet, core_in := Answer m # Silent # replicate k Silent\<rparr>) =
     (Waiting, s\<lparr>client_in := [], core_in := [],
        gdb_log := gdb_log s @ [Called DEBUG_RESUME 0 0 0, ToClient (gdb_frame (ascii ''OK''))]\<rparr>)"
proof
  show "Run (s\<lparr>client_in := map Octet (ascii ''$D#44+'') @ r\<rparr>) =
     (Returned (), s\<lparr>client_in := r, gdb_log := gdb_log s @ [ToClient (gdb_frame (ascii ''OK''))]\<rparr>)"
    by (subst Run_step) (simp add: gbind_def detach_cycle gret_def)
  let ?s = "s\<lparr>client_in := map Octet (ascii ''$D#44+'') @ replicate k Quiet, core_in := Silent # replicate k Silent,
        gdb_log := gdb_log s @ [Called DEBUG_RESUME 0 0 0]\<rparr>"
  have "WaitForHalt ?s = (Waiting, s\<lparr>client_in := [], core_in := [],
        gdb_log := gdb_log s @ [Called DEBUG_RESUME 0 0 0, ToClient (gdb_frame (ascii ''OK''))]\<rparr>)"
    by (subst WaitForHalt_step) (simp add: gbind_def detach_cycle [of _ "replicate k Quiet"] core_answer_def stops_waiting_def waiting_quiet [of _ k])
  then show "Continue (s\<lparr>client_in := map Octet (ascii ''$D#44+'') @ replicate k Quiet, core_in := Answer m # Silent # replicate k Silent\<rparr>) =
     (Waiting, s\<lparr>client_in := [], core_in := [],
        gdb_log := gdb_log s @ [Called DEBUG_RESUME 0 0 0, ToClient (gdb_frame (ascii ''OK''))]\<rparr>)"
    by (simp add: Continue_def resume_with_def gbind_def debug_answered)
qed

text \<open>A halt that the debugger asks for while the processor runs is reported by the handler, and again when its interrupt ends \<open>Continue\<close>.\<close>

lemma status_stopped:
  "core_in s = Answer st # cr \<Longrightarrow> rpc_data0 st = 1 \<Longrightarrow> client_in s = Octet 43 # r \<Longrightarrow>
   GetHaltStatus s = (Returned (), s\<lparr>client_in := r, core_in := cr, m_pc := rpc_data1 st,
     gdb_log := gdb_log s @ [Called DEBUG_GET_STATUS 0 0 0, ToClient (gdb_frame (ascii ''S05''))]\<rparr>)"
  by (simp add: GetHaltStatus_def gbind_def debug_answered SendResponse_acked bit_simps)

lemma stop_reported_twice:
  assumes "client_in s = [Octet 3, Octet 43, Octet 43]" "core_in s = map Answer [a, h, st, stop, st]" "rpc_data0 st = 1"
    and "rpc_type stop = NOC_TYPE_INTERRUPT" "rpc_callnum stop = DEBUG_BREAKPOINT"
  shows "Continue s = (Returned (), s\<lparr>client_in := [], core_in := [], m_pc := rpc_data1 st,
    gdb_log := gdb_log s @ [Called DEBUG_RESUME 0 0 0, Called DEBUG_HALT 0 0 0, Called DEBUG_GET_STATUS 0 0 0, ToClient (gdb_frame (ascii ''S05'')),
      Called DEBUG_GET_STATUS 0 0 0, ToClient (gdb_frame (ascii ''S05''))]\<rparr>)"
  using assms
  by (simp add: Continue_def resume_with_def WaitForHalt_step MessageLoopCycle_def ProcessInterrupt_gdb_def gbind_def gret_def debug_answered status_stopped core_answer_def stops_waiting_def)

section \<open>Requests that are answered wrongly\<close>

text \<open>The debugger sends the length of a request in hexadecimal; it is read as a decimal number, or not at all.\<close>

lemma read_length_decimal:
  "parse_read (ascii ''m40080000,10'') = Some (0x40080000, 10)" "parse_read (ascii ''m40080000,a'') = None"
  by code_simp+

text \<open>The step that the answer to \<open>vCont?\<close> offers is refused.\<close>

lemma vector_step_refused:
  "ProcessVectorPacket cont (ascii ''vCont?'') = respond ''vCont;c;s''"
  "ProcessVectorPacket cont (ascii ''vCont;s'') = respond []"
proof -
  have "take 127 (takeWhile (\<lambda>c. c \<noteq> 59 \<and> c \<noteq> 63) (c_str (ascii ''vCont;s''))) = ascii ''vCont''"
    "ascii ''vCont'' \<noteq> []" "ascii ''vCont;s'' \<noteq> ascii ''vCont?''"
    "take 6 (c_str (ascii ''vCont;s'')) = ascii ''vCont;''" "length (c_str (ascii ''vCont;s'')) > 6" "c_str (ascii ''vCont;s'') ! 6 \<noteq> 99"
    by code_simp+
  then show "ProcessVectorPacket cont (ascii ''vCont?'') = respond ''vCont;c;s''" "ProcessVectorPacket cont (ascii ''vCont;s'') = respond []"
    by (simp_all add: ProcessVectorPacket_def Let_def)
qed

text \<open>A breakpoint whose acknowledgement is late is answered twice, when a time-out of the socket is an exception.\<close>

lemma break_answered_twice:
  assumes "bpsubtype = 4" "recv_throws s" "client_in s = Quiet # Octet 43 # r" "core_in s = Answer m # cr"
  shows "change_break c (Some (bptype, addr, bpsubtype)) s =
    (Returned (), s\<lparr>client_in := r, core_in := cr, gdb_log := gdb_log s @
      [Called c 0 addr 0, ToClient (gdb_frame (ascii ''OK'')), ToClient (gdb_frame (ascii ''E00''))]\<rparr>)"
  using assms
  by (simp add: change_break_def gcatch_def gbind_def debug_answered SendResponse_acked SendResponse_def [of "ascii ''OK''"]
      send_until_ack.simps [of "gdb_frame (ascii ''OK'')"] SendOctets_def RecvOctet_def)

end
