(* ===== verification/Pdu_Client.thy ===== *)
theory Pdu_Client
  imports Pdu_Snmp_Get
begin

text \<open>
  The SNMP client of the control program for the power distribution units (\<open>src/legacy-trunk/src/pductrl/PDUController.cpp\<close>): requests,
  responses, and the polling of a unit. It uses the library \<open>asn1\<close> that the firmware uses.
\<close>

section \<open>The client\<close>

text \<open>
  The fields of the class, with the graphs as lists of points (time and value) and the sliders as the integers that they show, and the socket: what successive calls of
  \<open>recv\<close> give (nothing for a time-out), whether successive calls of \<open>send\<close> take the whole packet (they do after the end of the list), and the
  packets sent.
\<close>

type_synonym points = "(nat \<times> u32) list"

record pdu_client =
  m_readCommunity :: "u8 list"
  m_writeCommunity :: "u8 list"
  m_requestID :: u32
  m_channelstatus :: "u32 list"
  m_curgraphData :: "points list"
  m_voltgraphData :: "points list"
  m_tempgraphData :: "points list"
  vavg :: points
  isum :: points
  tmax :: points
  m_breakercurrentsliders :: "u32 list"
  m_breakerspeedsliders :: "u32 list"
  arrivals :: "u8 list option list"
  send_results :: "bool list"
  datagrams :: "u8 list list"

definition socket_send :: "u8 list \<Rightarrow> pdu_client \<Rightarrow> bool \<times> pdu_client" where
  "socket_send packet c =
     (case send_results c of
        [] \<Rightarrow> (True, c\<lparr>datagrams := datagrams c @ [packet]\<rparr>)
      | ok # oks \<Rightarrow> (ok, c\<lparr>send_results := oks, datagrams := (if ok then datagrams c @ [packet] else datagrams c)\<rparr>))"

definition socket_recv :: "pdu_client \<Rightarrow> u8 list option \<times> pdu_client" where
  "socket_recv c = (case arrivals c of [] \<Rightarrow> (None, c) | r # rs \<Rightarrow> (r, c\<lparr>arrivals := rs\<rparr>))"

text \<open>
  A local array \<open>body[2048]\<close> that begins with \<open>bytes\<close> and is zero beyond, as a memory of which it is the only page: an access past its end is an
  \<open>MMUFault\<close>.
\<close>

definition local_array :: "u8 list \<Rightarrow> cpu" where
  "local_array bytes = blank_cpu\<lparr>mem := put_list (\<lambda>_. 0) 0 bytes, mmu := (\<lambda>page. if page = 0 then PAGE_READ_WRITE else PAGE_GUARD)\<rparr>"

section \<open>Requests\<close>

definition new_request :: "pdu_client \<Rightarrow> u32 \<times> pdu_client" where
  "new_request c =
     (let reqid = m_requestID c; c = c\<lparr>m_requestID := m_requestID c + 1\<rparr> in
      if reqid = 0 then (m_requestID c, c\<lparr>m_requestID := m_requestID c + 1\<rparr>) else (reqid, c))"

definition ASN1_TYPE_NULL :: u8 where "ASN1_TYPE_NULL = 5"

text \<open>The packet of a request of type \<open>t\<close>; \<open>put\<close> writes its value.\<close>

definition request_packet :: "u8 \<Rightarrow> u8 list \<Rightarrow> u32 \<Rightarrow> u16 \<Rightarrow> u16 \<Rightarrow> (u32 \<Rightarrow> cpu \<Rightarrow> (u32 \<times> cpu) res) \<Rightarrow> u8 list res" where
  "request_packet t community reqid oid_table oid_index put =
     (let body = 0; oid_entry = [6, 4, 1, DRAWERSTEAK_PEN, 2, oid_table, oid_index] in
     andthen (BEREncodeSequenceHeader body 0 (ucast ASN1_TYPE_SEQUENCE_CONSTRUCTED) (local_array [])) (\<lambda>(packlen, packet_len_ptr, s).
     andthen (BEREncodeInteger body packlen SNMP_VERSION_2C s) (\<lambda>(packlen, s).
     andthen (BEREncodeString body packlen community s) (\<lambda>(packlen, s).
     andthen (BEREncodeSequenceHeader body packlen t s) (\<lambda>(packlen, body_len_ptr, s).
     andthen (BEREncodeInteger body packlen reqid s) (\<lambda>(packlen, s).
     andthen (BEREncodeInteger body packlen 0 s) (\<lambda>(packlen, s).
     andthen (BEREncodeInteger body packlen 0 s) (\<lambda>(packlen, s).
     andthen (BEREncodeSequenceHeader body packlen (ucast ASN1_TYPE_SEQUENCE_CONSTRUCTED) s) (\<lambda>(packlen, varbind_list_len_ptr, s).
     andthen (BEREncodeSequenceHeader body packlen (ucast ASN1_TYPE_SEQUENCE_CONSTRUCTED) s) (\<lambda>(packlen, varbind_len_ptr, s).
     andthen (BEREncodeOID body packlen oid_entry s) (\<lambda>(packlen, s).
     andthen (put packlen s) (\<lambda>(packlen, s).
     andthen (BEREndSequence body packlen varbind_len_ptr s) (\<lambda>s.
     andthen (BEREndSequence body packlen varbind_list_len_ptr s) (\<lambda>s.
     andthen (BEREndSequence body packlen body_len_ptr s) (\<lambda>s.
     andthen (BEREndSequence body packlen packet_len_ptr s) (\<lambda>s.
     Inr (map (\<lambda>i. mem s (body + of_nat i)) [0..<unat packlen])))))))))))))))))"

definition put_null :: "u32 \<Rightarrow> cpu \<Rightarrow> (u32 \<times> cpu) res" where
  "put_null packlen s = andthen (emit 0 packlen ASN1_TYPE_NULL s) (\<lambda>(packlen, s). emit 0 packlen 0 s)"

definition SendSnmpGetRequest :: "u16 \<Rightarrow> u16 \<Rightarrow> pdu_client \<Rightarrow> (u32 \<times> pdu_client) res" where
  "SendSnmpGetRequest oid_table oid_index c =
     (let (reqid, c) = new_request c in
      andthen (request_packet (ucast ASN1_TYPE_SNMP_GETREQUEST) (m_readCommunity c @ [0]) reqid oid_table oid_index put_null) (\<lambda>packet.
      let (ok, c) = socket_send packet c in Inr (if ok then reqid else 0, c)))"

definition SendSnmpSetRequest :: "u16 \<Rightarrow> u16 \<Rightarrow> u32 \<Rightarrow> pdu_client \<Rightarrow> (u32 \<times> pdu_client) res" where
  "SendSnmpSetRequest oid_table oid_index value c =
     (let (reqid, c) = new_request c in
      andthen (request_packet (ucast ASN1_TYPE_SNMP_SETREQUEST) (m_readCommunity c @ [0]) reqid oid_table oid_index
        (\<lambda>packlen. BEREncodeInteger 0 packlen value)) (\<lambda>packet.
      let (ok, c) = socket_send packet c in Inr (if ok then reqid else 0, c)))"

section \<open>Responses\<close>

text \<open>
  The request identifier, the table, the index and the value of a response. The two arrays on the stack begin with what was there, which no
  path reads; they are zero here.
\<close>

definition parse_response :: "cpu \<Rightarrow> (u32 \<times> u16 \<times> u16 \<times> u32) option res" where
  "parse_response s =
     (let body = 0 in
     andthen (BERDecodeChunkHeader body 0 s) (\<lambda>r. case r of None \<Rightarrow> Inr None | Some (type, len, pos) \<Rightarrow>
     if type \<noteq> ASN1_TYPE_SEQUENCE_CONSTRUCTED then Inr None else
     andthen (BERDecodeExpectedInteger body pos s) (\<lambda>r. case r of None \<Rightarrow> Inr None | Some (snmp_version, pos) \<Rightarrow>
     if snmp_version \<noteq> SNMP_VERSION_2C then Inr None else
     andthen (BERDecodeChunkHeader body pos s) (\<lambda>r. case r of None \<Rightarrow> Inr None | Some (type, len, pos) \<Rightarrow>
     if type \<noteq> ASN1_TYPE_OCTET_STRING then Inr None else
     andthen (BERDecodeString body pos len 32 (replicate 32 0) s) (\<lambda>r. case r of None \<Rightarrow> Inr None | Some (community, pos) \<Rightarrow>
     andthen (BERDecodeChunkHeader body pos s) (\<lambda>r. case r of None \<Rightarrow> Inr None | Some (type, len, pos) \<Rightarrow>
     if type \<noteq> ucast ASN1_TYPE_SNMP_GETRESPONSE then Inr None else
     andthen (BERDecodeExpectedInteger body pos s) (\<lambda>r. case r of None \<Rightarrow> Inr None | Some (request_id, pos) \<Rightarrow>
     andthen (BERDecodeExpectedInteger body pos s) (\<lambda>r. case r of None \<Rightarrow> Inr None | Some (error_id, pos) \<Rightarrow>
     andthen (BERDecodeExpectedInteger body pos s) (\<lambda>r. case r of None \<Rightarrow> Inr None | Some (error_index, pos) \<Rightarrow>
     andthen (BERDecodeChunkHeader body pos s) (\<lambda>r. case r of None \<Rightarrow> Inr None | Some (type, len, pos) \<Rightarrow>
     if type \<noteq> ASN1_TYPE_SEQUENCE_CONSTRUCTED then Inr None else
     andthen (BERDecodeChunkHeader body pos s) (\<lambda>r. case r of None \<Rightarrow> Inr None | Some (type, len, pos) \<Rightarrow>
     if type \<noteq> ASN1_TYPE_SEQUENCE_CONSTRUCTED then Inr None else
     andthen (BERDecodeChunkHeader body pos s) (\<lambda>r. case r of None \<Rightarrow> Inr None | Some (type, len, pos) \<Rightarrow>
     if type \<noteq> ASN1_TYPE_OID then Inr None else
     andthen (BERDecodeOID body pos len 24 (replicate 24 0) s) (\<lambda>r. case r of None \<Rightarrow> Inr None | Some (oidlen, oidbuf, pos) \<Rightarrow>
     if oidlen \<noteq> 10 then Inr None else
     andthen (aget oidbuf 8) (\<lambda>table. andthen (aget oidbuf 9) (\<lambda>index.
     andthen (BERDecodeExpectedInteger body pos s) (\<lambda>r. case r of None \<Rightarrow> Inr None | Some (value, pos) \<Rightarrow>
     Inr (Some (request_id, ucast table, ucast index, value))))))))))))))))))"

text \<open>\<open>recv\<close> takes at most 2048 bytes of a packet.\<close>

definition RecvSnmpGetResponse :: "pdu_client \<Rightarrow> ((u32 \<times> u16 \<times> u16 \<times> u32) option \<times> pdu_client) res" where
  "RecvSnmpGetResponse c =
     (let (r, c) = socket_recv c in
      case r of
        None \<Rightarrow> Inr (None, c)
      | Some packet \<Rightarrow> andthen (parse_response (local_array (take 2048 packet))) (\<lambda>response. Inr (response, c)))"

definition BlockingSnmpGet :: "u16 \<Rightarrow> u16 \<Rightarrow> pdu_client \<Rightarrow> (u32 option \<times> pdu_client) res" where
  "BlockingSnmpGet oid_table oid_index c =
     andthen (SendSnmpGetRequest oid_table oid_index c) (\<lambda>(request_id, c).
     andthen (RecvSnmpGetResponse c) (\<lambda>(r, c).
     Inr (case r of
            None \<Rightarrow> None
          | Some (response_id, table, index, value) \<Rightarrow>
              if response_id \<noteq> request_id \<or> table \<noteq> oid_table \<or> index \<noteq> oid_index then None else Some value, c)))"

definition BlockingSnmpSet :: "u16 \<Rightarrow> u16 \<Rightarrow> u32 \<Rightarrow> pdu_client \<Rightarrow> (bool \<times> pdu_client) res" where
  "BlockingSnmpSet oid_table oid_index value c =
     andthen (SendSnmpSetRequest oid_table oid_index value c) (\<lambda>(request_id, c).
     andthen (RecvSnmpGetResponse c) (\<lambda>(r, c).
     Inr (case r of
            None \<Rightarrow> False
          | Some (response_id, table, index, rvalue) \<Rightarrow>
              \<not> (response_id \<noteq> request_id \<or> table \<noteq> oid_table \<or> index \<noteq> oid_index) \<and> value = rvalue, c)))"

section \<open>The handlers\<close>

text \<open>
  The buttons and sliders. A current limit comes from its slider as an integer, the conversion from floating point being left out; whether a
  set failed is only printed.
\<close>

definition OnChannelToggled :: "nat \<Rightarrow> pdu_client \<Rightarrow> pdu_client res" where
  "OnChannelToggled chan c =
     andthen (aget (m_channelstatus c) chan) (\<lambda>status.
     andthen (BlockingSnmpSet 4 (of_nat (chan + 1)) (if status = 0 then 1 else 0) c) (\<lambda>(ok, c). Inr c))"

definition OnBreakerLimitChanged :: "nat \<Rightarrow> u32 \<Rightarrow> pdu_client \<Rightarrow> pdu_client res" where
  "OnBreakerLimitChanged chan limit c = andthen (BlockingSnmpSet 5 (of_nat (chan + 1)) limit c) (\<lambda>(ok, c). Inr c)"

definition OnBreakerSpeedChanged :: "nat \<Rightarrow> u32 \<Rightarrow> pdu_client \<Rightarrow> pdu_client res" where
  "OnBreakerSpeedChanged chan speed c = andthen (BlockingSnmpSet 6 (of_nat (chan + 1)) speed c) (\<lambda>(ok, c). Inr c)"

section \<open>The timer\<close>

text \<open>Graphs keep the last 10000 points.\<close>

definition max_size :: nat where "max_size = 10000"

definition add_point :: "nat \<Rightarrow> u32 \<Rightarrow> points \<Rightarrow> points" where
  "add_point now value series = (let series = series @ [(now, value)] in drop (length series - max_size) series)"

definition poll_value :: "u16 \<Rightarrow> nat \<Rightarrow> (u32 \<Rightarrow> pdu_client \<Rightarrow> pdu_client) \<Rightarrow> pdu_client \<Rightarrow> pdu_client res" where
  "poll_value table i use c =
     andthen (BlockingSnmpGet table (of_nat (i + 1)) c) (\<lambda>(r, c). Inr (case r of None \<Rightarrow> c | Some value \<Rightarrow> use value c))"

text \<open>
  One channel; the sum and the number of the currents are local variables of the caller. A slider that has the focus is left alone. The colours of
  the buttons and the signals that widgets raise when they are set are left out.
\<close>

definition poll_channel ::
    "nat \<Rightarrow> (nat \<Rightarrow> bool) \<Rightarrow> (nat \<Rightarrow> bool) \<Rightarrow> nat \<Rightarrow> u32 \<times> nat \<times> pdu_client \<Rightarrow> (u32 \<times> nat \<times> pdu_client) res" where
  "poll_channel now current_focus speed_focus channel = (\<lambda>(sum, count, c).
     andthen (poll_value 4 channel (\<lambda>value c. c\<lparr>m_channelstatus := (m_channelstatus c)[channel := value]\<rparr>) c) (\<lambda>c.
     andthen (BlockingSnmpGet 2 (of_nat (channel + 1)) c) (\<lambda>(r, c).
     let (sum, count, c) =
       (case r of
          None \<Rightarrow> (sum, count, c)
        | Some value \<Rightarrow>
            (sum + value, count + 1,
             c\<lparr>m_curgraphData := (m_curgraphData c)[channel := add_point now value (m_curgraphData c ! channel)]\<rparr>)) in
     andthen (if current_focus channel then Inr c
              else poll_value 5 channel (\<lambda>value c. c\<lparr>m_breakercurrentsliders := (m_breakercurrentsliders c)[channel := value]\<rparr>) c) (\<lambda>c.
     andthen (if speed_focus channel then Inr c
              else poll_value 6 channel (\<lambda>value c. c\<lparr>m_breakerspeedsliders := (m_breakerspeedsliders c)[channel := value]\<rparr>) c) (\<lambda>c.
     Inr (sum, count, c))))))"

definition poll_voltage :: "nat \<Rightarrow> nat \<Rightarrow> u32 \<times> nat \<times> pdu_client \<Rightarrow> (u32 \<times> nat \<times> pdu_client) res" where
  "poll_voltage now volt = (\<lambda>(sum, count, c).
     andthen (BlockingSnmpGet 3 (of_nat (volt + 1)) c) (\<lambda>(r, c).
     Inr (case r of
            None \<Rightarrow> (sum, count, c)
          | Some value \<Rightarrow>
              (sum + value, count + 1,
               c\<lparr>m_voltgraphData := (m_voltgraphData c)[volt := add_point now value (m_voltgraphData c ! volt)]\<rparr>))))"

definition poll_temperature :: "nat \<Rightarrow> nat \<Rightarrow> u32 list \<times> nat \<times> pdu_client \<Rightarrow> (u32 list \<times> nat \<times> pdu_client) res" where
  "poll_temperature now temp = (\<lambda>(temps, count, c).
     andthen (BlockingSnmpGet 1 (of_nat (temp + 1)) c) (\<lambda>(r, c).
     Inr (case r of
            None \<Rightarrow> (temps, count, c)
          | Some value \<Rightarrow>
              (temps[temp := value], count + 1,
               c\<lparr>m_tempgraphData := (m_tempgraphData c)[temp := add_point now value (m_tempgraphData c ! temp)]\<rparr>))))"

text \<open>
  The average voltage passes through a floating-point variable, which is exact below \<open>2 ^ 24\<close>. The labels are left out. Both temperatures have
  been read when their maximum is taken.
\<close>

definition OnTimer_client :: "nat \<Rightarrow> (nat \<Rightarrow> bool) \<Rightarrow> (nat \<Rightarrow> bool) \<Rightarrow> pdu_client \<Rightarrow> pdu_client res" where
  "OnTimer_client now current_focus speed_focus c =
     andthen (foreach [0..<10] (poll_channel now current_focus speed_focus) (0, 0, c)) (\<lambda>(sum, icount, c).
     andthen (foreach [0..<2] (poll_voltage now) (0, 0, c)) (\<lambda>(vsum, vcount, c).
     andthen (foreach [0..<2] (poll_temperature now) ([0, 0], 0, c)) (\<lambda>(temps, tcount, c).
     let c = (if icount = 10 \<and> vcount = 2
              then c\<lparr>vavg := add_point now (vsum div 2) (vavg c), isum := add_point now sum (isum c)\<rparr> else c) in
     Inr (if tcount = 2 then c\<lparr>tmax := add_point now (if temps ! 0 > temps ! 1 then temps ! 0 else temps ! 1) (tmax c)\<rparr> else c))))"

end
