(* ===== verification/Pdu_Control.thy ===== *)
theory Pdu_Control
  imports Pdu_Client
begin

text \<open>The client and the firmware: what a request makes the unit do, and what the client makes of its response.\<close>

section \<open>The packet buffer\<close>

lemma local_page: "k < 2048 \<Longrightarrow> (of_nat k :: u32) AND PAGE_MASK = 0"
  using page_of_byte [of 0 k] by (simp add: aligned_def)

lemma local_access: "k < 2048 \<Longrightarrow> can_read (local_array bs) (of_nat k)" "k < 2048 \<Longrightarrow> can_write (local_array bs) (of_nat k)"
  by (simp_all add: can_read_def can_write_def readable_def writable_def local_array_def local_page bit_word_iff_drop_bit_and del: word_bw_assocs)

lemma local_room: "room (local_array bs) 0 2048"
  using local_access(2) by (simp add: room_def spans_def)

lemma local_reads:
  assumes "length bs \<le> 2048"
  shows "reads (local_array bs) 0 bs"
proof -
  have "holds_bytes (mem (local_array bs)) 0 bs" using holds_put_list [of bs "\<lambda>_. 0" 0] assms by (simp add: local_array_def)
  then show ?thesis using assms local_access(1) by (simp add: reads_def spans_def)
qed

section \<open>Requests\<close>

definition object_name :: "u16 \<Rightarrow> u16 \<Rightarrow> u16 list" where
  "object_name table index = [4, 1, DRAWERSTEAK_PEN, 2, table, index]"

lemma object_name_simps [simp]: "length (object_name table index) = 6" "object_name table index \<noteq> []"
  by (simp_all add: object_name_def)

lemma length_integer: "length (ber_integer d) \<le> 6"
  using length_ber_content(1) [of d] by (simp add: ber_integer_def)

lemma length_message:
  assumes "length v \<le> 6"
  shows "length (snmp_message t r (ber_oid (object_name table index) @ v)) \<le> 100"
proof -
  have "length (ber_oid (object_name table index)) \<le> 24" using length_ber_digits [of "object_name table index"] by (simp add: ber_oid_def)
  moreover have "length (ber_string public_name) = 8" by (simp add: ber_string_def community_text(3))
  ultimately show ?thesis
    using assms length_integer [of 1] length_integer [of r] length_integer [of 0]
    by (simp add: snmp_message_def ber_seq_def)
qed

text \<open>A community string that the firmware knows.\<close>

lemma public_terminated: "terminated (public_name @ [0])" "c_text (public_name @ [0]) = public_name"
  by (simp_all add: terminated_def c_text_def public_name_def)

lemma request_packet_exact:
  assumes put: "\<And>bs. length (bs @ v) \<le> 2048 \<Longrightarrow> put (adv 0 bs) (wrote (local_array []) 0 bs) = Inr (adv 0 (bs @ v), wrote (local_array []) 0 (bs @ v))"
    and v: "length v \<le> 6"
  shows "request_packet t (public_name @ [0]) reqid table index put = Inr (snmp_message t reqid (ber_oid (object_name table index) @ v))"
proof -
  let ?m = "snmp_message t reqid (ber_oid (object_name table index) @ v)"
  have l: "length ?m \<le> 2048" using length_message [OF v, of t reqid table index] by simp
  have row: "[6, 4, 1, DRAWERSTEAK_PEN, 2, table, index] = of_nat (length (object_name table index)) # object_name table index @ []"
    by (simp add: object_name_def)
  have "request_packet t (public_name @ [0]) reqid table index put =
      snmp_encode 0 t (public_name @ [0]) reqid [6, 4, 1, DRAWERSTEAK_PEN, 2, table, index] put
        (\<lambda>packlen s. Inr (map (\<lambda>i. mem s (0 + of_nat i)) [0..<unat packlen])) (local_array [])"
    by (simp only: request_packet_def snmp_encode_def Let_def)
  also have "\<dots> = Inr (map (\<lambda>i. mem (wrote (local_array []) 0 ?m) (0 + of_nat i)) [0..<unat (of_nat (length ?m) :: u32)])"
    using snmp_encode_wrote [OF local_room _ public_terminated row _ put l] by simp
  also have "map (\<lambda>i. mem (wrote (local_array []) 0 ?m) (0 + of_nat i)) [0..<unat (of_nat (length ?m) :: u32)] = ?m"
  proof -
    have "holds_bytes (mem (wrote (local_array []) 0 ?m)) 0 ?m" using l holds_put_list [of ?m _ 0] by (simp add: wrote_def)
    moreover have "unat (of_nat (length ?m) :: u32) = length ?m" by (rule u32_of_nat_unat_id) (use l in simp)
    ultimately show ?thesis by (intro nth_equalityI) (simp_all add: holds_bytes_def)
  qed
  finally show ?thesis .
qed

lemma put_null_wrote:
  "length (bs @ [5, 0]) \<le> 2048 \<Longrightarrow>
   put_null (adv 0 bs) (wrote (local_array []) 0 bs) = Inr (adv 0 (bs @ [5, 0]), wrote (local_array []) 0 (bs @ [5, 0]))"
proof -
  assume l: "length (bs @ [5, 0 :: u8]) \<le> 2048"
  have r: "room (local_array []) (0 + 0) 2048" using local_room by simp
  have "emit 0 (adv 0 bs) 5 (wrote (local_array []) 0 bs) = Inr (adv 0 (bs @ [5]), wrote (local_array []) 0 (bs @ [5]))"
    "emit 0 (adv 0 (bs @ [5])) 0 (wrote (local_array []) 0 (bs @ [5])) =
      Inr (adv 0 ((bs @ [5]) @ [0]), wrote (local_array []) 0 ((bs @ [5]) @ [0]))"
    using emit_wrote [OF r, of bs 5] emit_wrote [OF r, of "bs @ [5]" 0] l by simp_all
  then show ?thesis by (simp add: put_null_def ASN1_TYPE_NULL_def)
qed

lemma put_integer_wrote:
  "length (bs @ ber_integer v) \<le> 2048 \<Longrightarrow>
   BEREncodeInteger 0 (adv 0 bs) v (wrote (local_array []) 0 bs) = Inr (adv 0 (bs @ ber_integer v), wrote (local_array []) 0 (bs @ ber_integer v))"
  using BEREncodeInteger_wrote [of "local_array []" 0 0 2048 bs v] local_room by simp

definition sent_request :: "u8 list \<Rightarrow> pdu_client \<Rightarrow> pdu_client" where
  "sent_request packet c = (let c = snd (new_request c) in c\<lparr>datagrams := datagrams c @ [packet]\<rparr>)"

lemma new_request_same:
  "new_request c = (reqid, c1) \<Longrightarrow> m_readCommunity c1 = m_readCommunity c \<and> send_results c1 = send_results c \<and> arrivals c1 = arrivals c \<and>
     datagrams c1 = datagrams c"
  by (auto simp: new_request_def Let_def split: if_splits)

lemma new_request_nonzero: "fst (new_request c) \<noteq> 0"
  by (simp add: new_request_def Let_def)

lemma get_request_exact:
  assumes "m_readCommunity c = public_name" "send_results c = []"
  shows "SendSnmpGetRequest table index c = Inr (fst (new_request c),
    sent_request (snmp_message 0xA0 (fst (new_request c)) (ber_oid (object_name table index) @ [5, 0])) c)"
  using assms new_request_same [of c "fst (new_request c)" "snd (new_request c)"]
    request_packet_exact [OF put_null_wrote]
  by (cases "new_request c") (simp add: SendSnmpGetRequest_def sent_request_def socket_send_def)

lemma set_request_exact:
  assumes "m_readCommunity c = public_name" "send_results c = []"
  shows "SendSnmpSetRequest table index v c = Inr (fst (new_request c),
    sent_request (snmp_message 0xA3 (fst (new_request c)) (ber_oid (object_name table index) @ ber_integer v)) c)"
  using assms new_request_same [of c "fst (new_request c)" "snd (new_request c)"]
    request_packet_exact [OF put_integer_wrote length_integer]
  by (cases "new_request c") (simp add: SendSnmpSetRequest_def sent_request_def socket_send_def)

section \<open>Responses\<close>

lemma response_parsed:
  assumes r: "reads s 0 (snmp_message 0xA2 request_id (ber_oid (object_name table index) @ ber_integer v))"
  shows "parse_response s = Inr (Some (as_read request_id, table, index, as_read v))"
proof -
  have x30: "(0x30 :: u8) AND 0x1F \<noteq> 0x1F" and xA2: "(0xA2 :: u8) AND 0x1F \<noteq> 0x1F" by simp_all
  let ?O = "ber_oid (object_name table index)"
  let ?vbl = "ber_seq 0x30 (ber_seq 0x30 (?O @ ber_integer v))"
  let ?pdu = "ber_integer request_id @ ber_integer 0 @ ber_integer 0 @ ?vbl"
  have r0: "reads s (0 + 0) (ber_seq 0x30 (ber_integer 1 @ ber_string public_name @ ber_seq 0xA2 ?pdu))"
    using r by (simp add: snmp_message_def)
  obtain l0 where h0: "BERDecodeChunkHeader 0 0 s = Inr (Some (0x30, l0, 4))"
    using header_seq(1) [OF r0 x30] by auto
  have r1: "reads s (0 + 4) (ber_integer 1 @ ber_string public_name @ ber_seq 0xA2 ?pdu)"
    using header_seq(2) [OF r0 x30] by simp
  define p2 where "p2 = adv 4 (ber_integer 1)"
  have v: "BERDecodeExpectedInteger 0 4 s = Inr (Some (1, p2))"
    using expected_integer(1) [OF r1] as_read_small(3) by (simp add: p2_def as_read_def)
  have r2: "reads s (0 + p2) (ber_string public_name @ ber_seq 0xA2 ?pdu)"
    using expected_integer(2) [OF r1] by (simp add: p2_def)
  obtain p3 where c: "BERDecodeChunkHeader 0 p2 s = Inr (Some (4, 6, p3))" "reads s (0 + p3) public_name"
    "adv p3 public_name = adv p2 (ber_string public_name)"
    using BERDecodeHeader_string [OF reads_prefix [OF r2]] community_text(3) by auto
  define p4 where "p4 = adv p2 (ber_string public_name)"
  obtain com where cs: "BERDecodeString 0 p3 6 32 (replicate 32 0) s = Inr (Some (com, p4))"
    using BERDecodeString_reads [OF c(2), of 32 "replicate 32 0" 6] community_text(3) c(3) by (simp add: p4_def)
  have r4: "reads s (0 + p4) (ber_seq 0xA2 ?pdu)"
    using reads_inner [OF r2] by (simp add: p4_def adv_def add.assoc)
  obtain l4 where h4: "BERDecodeChunkHeader 0 p4 s = Inr (Some (0xA2, l4, p4 + 4))"
    using header_seq(1) [OF r4 xA2] by auto
  note r5 = header_seq(2) [OF r4 xA2]
  define p6 where "p6 = adv (p4 + 4) (ber_integer request_id)"
  define p7 where "p7 = adv p6 (ber_integer 0)"
  define p8 where "p8 = adv p7 (ber_integer 0)"
  note i6 = expected_integer(1) [OF r5, folded p6_def as_read_def] and r6 = expected_integer(2) [OF r5, folded p6_def]
  note i7 = expected_integer(1) [OF r6, folded p7_def] and r7 = expected_integer(2) [OF r6, folded p7_def]
  note i8 = expected_integer(1) [OF r7, folded p8_def] and r8 = expected_integer(2) [OF r7, folded p8_def]
  obtain l8 where h8: "BERDecodeChunkHeader 0 p8 s = Inr (Some (0x30, l8, p8 + 4))"
    using header_seq(1) [OF r8 x30] by auto
  note r9 = header_seq(2) [OF r8 x30]
  define p9 where "p9 = p8 + 4"
  obtain l9 where h9: "BERDecodeChunkHeader 0 p9 s = Inr (Some (0x30, l9, p9 + 4))"
    using header_seq(1) [OF r9 [folded p9_def] x30] by auto
  note r10 = header_seq(2) [OF r9 [folded p9_def] x30]
  have small: "unat (p9 + 4) + length ?O < 4294967296"
  proof -
    have "p9 + 4 = of_nat (4 + length (ber_integer 1) + length (ber_string public_name) + 4 + length (ber_integer request_id)
        + length (ber_integer 0) + length (ber_integer 0) + 8)"
      by (simp add: p9_def p8_def p7_def p6_def p4_def p2_def adv_def)
    moreover have "length (ber_string public_name) = 8" by (simp add: ber_string_def community_text(3))
    moreover have "length ?O \<le> 24" using length_ber_digits [of "object_name table index"] by (simp add: ber_oid_def)
    ultimately show ?thesis using length_integer [of 1] length_integer [of request_id] length_integer [of 0] by (simp only: u32_of_nat_unat_id)
  qed
  have "length (object_name table index) \<le> 60" "4 + length (object_name table index) \<le> 24" "8 \<le> (24 :: nat)"
    "24 \<le> length (replicate 24 (0 :: u32))" by simp_all
  note o = BERDecodeOID_reads [OF reads_prefix [OF r10] this small]
  define p11 where "p11 = adv (p9 + 4) ?O"
  have r11: "reads s (0 + p11) (ber_integer v)"
    using reads_inner [OF r10] by (simp add: p11_def adv_def add.assoc)
  have e: "BERDecodeExpectedInteger 0 p11 s = Inr (Some (as_read v, adv p11 (ber_integer v)))"
    using BERDecodeExpectedInteger_reads [OF r11] by (simp add: as_read_def)
  note e' = e [unfolded p11_def object_name_def]
  have u: "(ucast (ucast w :: u32) :: u16) = w" for w :: u16 by (rule bit_word_eqI) (simp add: bit_simps)
  show ?thesis
    using o by (simp add: parse_response_def h0 v c(1) cs h4 i6 i7 i8 h8 p9_def [symmetric] h9 e' object_name_def u
      del: replicate_Suc)
qed

section \<open>Client and firmware\<close>

lemma sent_request_simps [simp]:
  "datagrams (sent_request packet c) = datagrams c @ [packet]" "arrivals (sent_request packet c) = arrivals c"
  using new_request_same [of c "fst (new_request c)" "snd (new_request c)"] by (simp_all add: sent_request_def Let_def)

lemma get_answered:
  assumes c: "m_readCommunity c = public_name" "send_results c = []" and reply: "arrivals c = Some reply # rs"
    "reply = snmp_message 0xA2 request_id (ber_oid (object_name table index) @ ber_integer v)"
  shows "\<exists>c'. BlockingSnmpGet table index c = Inr (if as_read request_id = fst (new_request c) then Some (as_read v) else None, c')"
proof -
  have l: "length reply \<le> 2048" using length_message [OF length_integer, of "0xA2" request_id table index v] reply(2) by simp
  have "parse_response (local_array reply) = Inr (Some (as_read request_id, table, index, as_read v))"
    by (rule response_parsed) (use local_reads [OF l] reply(2) in simp)
  then show ?thesis
    using l reply(1) by (simp add: BlockingSnmpGet_def get_request_exact [OF c] RecvSnmpGetResponse_def socket_recv_def)
qed


text \<open>The objects of the channels.\<close>

lemma channel_objects:
  assumes "t < 3" "chan < 10"
  shows "mib_get ([1, 3, 6, 1] @ map ucast (object_name (4 + of_nat t) (of_nat (chan + 1)))) = int (19 + 10 * t + chan)"
proof -
  have "list_all (\<lambda>t. list_all (\<lambda>chan. mib_get ([1, 3, 6, 1] @ map ucast (object_name (4 + of_nat t) (of_nat (chan + 1)))) = int (19 + 10 * t + chan))
      [0..<10]) [0..<3]"
    by code_simp
  then show ?thesis using assms by (simp add: list_all_iff)
qed

text \<open>
  C18: A set request of the control program (table 4 switches an output, 5 sets the current limit of a channel, 6 its inrush time), given to the
  firmware, makes it carry out exactly the action of that table on that channel, with the value as it is read, and then respond.
\<close>
theorem controller_set_served:
  assumes "m_readCommunity c = public_name" "send_results c = []" "reqid = fst (new_request c)" "t < 3" "chan < 10"
    and "request = snmp_message 0xA3 reqid (ber_oid (object_name (4 + of_nat t) (of_nat (chan + 1))) @ ber_integer v)" "reads s packet request"
    and "pdu_ok s"
  shows "\<exists>c1. SendSnmpSetRequest (4 + of_nat t) (of_nat (chan + 1)) v c = Inr (reqid, c1) \<and> datagrams c1 = datagrams c @ [request] \<and>
    SNMPProcessPacket packet srcip srcport bytelen s =
      andthen (snmp_set_action (19 + 10 * t + chan) (as_read v) s) (\<lambda>(i, s). SNMPSendGetResponse srcip srcport (as_read reqid) i s)"
proof -
  let ?ds = "object_name (4 + of_nat t) (of_nat (chan + 1))"
  have "find (\<lambda>k. mib ! k = [1, 3, 6, 1] @ map ucast ?ds) [0..<50] = Some (19 + 10 * t + chan)"
    using channel_objects [OF assms(4,5)] unfolding mib_get_def by (auto split: option.splits)
  moreover have "length (stack_community (cfg s)) = 32" "length (stack_oid (cfg s)) = 24" using assms(8) by (simp_all add: pdu_ok_def)
  moreover have "?ds \<noteq> []" "length ?ds \<le> 20" by simp_all
  ultimately have "SNMPProcessPacket packet srcip srcport bytelen s =
      andthen (snmp_set_action (19 + 10 * t + chan) (as_read v) s) (\<lambda>(i, s). SNMPSendGetResponse srcip srcport (as_read reqid) i s)"
    using snmp_set [OF assms(7) [unfolded assms(6)]] by simp
  then show ?thesis using set_request_exact [OF assms(1,2), of "4 + of_nat t" "of_nat (chan + 1)" v] assms(3,6) by auto
qed

definition blank_client :: pdu_client where
  "blank_client = \<lparr>m_readCommunity = public_name, m_writeCommunity = public_name, m_requestID = 1, m_channelstatus = replicate 10 0,
     m_curgraphData = replicate 10 [], m_voltgraphData = replicate 2 [], m_tempgraphData = replicate 2 [], vavg = [], isum = [], tmax = [],
     m_breakercurrentsliders = replicate 10 0, m_breakerspeedsliders = replicate 10 0,
     arrivals = [], send_results = [], datagrams = []\<rparr>"

lemma blank_client_simps [simp]:
  "m_readCommunity blank_client = public_name" "send_results blank_client = []" "datagrams blank_client = []" "fst (new_request blank_client) = 1"
  by (simp_all add: blank_client_def new_request_def Let_def)

text \<open>The unit of the witnesses has the request in its memory and a frame to be had.\<close>

definition asked_pdu :: "u8 list \<Rightarrow> pdu" where
  "asked_pdu request = blank_pdu\<lparr>inbox := [granted 0x11 0x200], mem := put_list (\<lambda>_. 0) 0x1000 request\<rparr>"

lemma asked_pdu_ok: "pdu_ok (asked_pdu request)" "output_apart (asked_pdu request)" "length request \<le> 100 \<Longrightarrow> reads (asked_pdu request) 0x1000 request"
  using blank_pdu_ok by (auto simp: asked_pdu_def pdu_ok_def output_apart_def intro!: blank_reads)


theorem controller_set_served_witness:
  "let request = snmp_message 0xA3 1 (ber_oid (object_name 4 3) @ ber_integer 1) in
   SNMPProcessPacket 0x1000 0xffffffff 4000 60 (asked_pdu request) =
     andthen (snmp_set_action 21 1 (asked_pdu request)) (\<lambda>(i, s). SNMPSendGetResponse 0xffffffff 4000 1 i s)"
proof -
  let ?req = "snmp_message 0xA3 1 (ber_oid (object_name 4 3) @ ber_integer 1)"
  have l: "length ?req \<le> 100" by (rule length_message [OF length_integer])
  from controller_set_served [where c = blank_client and reqid = 1 and t = 0 and chan = 2 and v = 1 and request = ?req and srcip = "0xffffffff" and
      srcport = 4000 and bytelen = 60, OF _ _ _ _ _ _ asked_pdu_ok(3) asked_pdu_ok(1)] l as_read_small(3)
  show ?thesis by (auto simp: Let_def)
qed

section \<open>The graphs\<close>

definition graphs :: "pdu_client \<Rightarrow> points list" where
  "graphs c = m_curgraphData c @ m_voltgraphData c @ m_tempgraphData c @ [vavg c, isum c, tmax c]"

definition graphs_bounded :: "pdu_client \<Rightarrow> bool" where
  "graphs_bounded c \<longleftrightarrow> (\<forall>series\<in>set (graphs c). length series \<le> max_size)"

lemma length_add_point: "length (add_point now v series) \<le> max_size"
  by (simp add: add_point_def Let_def)

lemma new_request_graphs: "graphs (snd (new_request c)) = graphs c"
  by (simp add: new_request_def Let_def graphs_def)

lemma socket_graphs: "graphs (snd (socket_send packet c)) = graphs c" "graphs (snd (socket_recv c)) = graphs c"
  by (simp_all add: socket_send_def socket_recv_def graphs_def split: list.split)

lemma get_graphs:
  assumes "BlockingSnmpGet table index c = Inr (r, c')"
  shows "graphs c' = graphs c"
proof -
  obtain reqid c1 response where c1: "SendSnmpGetRequest table index c = Inr (reqid, c1)" and c2: "RecvSnmpGetResponse c1 = Inr (response, c')"
    using assms by (auto simp: BlockingSnmpGet_def andthen_Inr_iff)
  obtain packet where "c1 = snd (socket_send packet (snd (new_request c)))"
    using c1 by (auto simp: SendSnmpGetRequest_def andthen_Inr_iff Let_def split_beta)
  moreover have "c' = snd (socket_recv c1)"
    using c2 by (auto simp: RecvSnmpGetResponse_def andthen_Inr_iff Let_def split_beta split: option.splits)
  ultimately show ?thesis by (simp add: new_request_graphs socket_graphs)
qed

lemma bounded_cong: "graphs c' = graphs c \<Longrightarrow> graphs_bounded c' = graphs_bounded c"
  by (simp add: graphs_bounded_def)

lemma graphs_bounded_iff:
  "graphs_bounded c \<longleftrightarrow> (\<forall>series\<in>set (m_curgraphData c). length series \<le> max_size) \<and> (\<forall>series\<in>set (m_voltgraphData c). length series \<le> max_size) \<and>
     (\<forall>series\<in>set (m_tempgraphData c). length series \<le> max_size) \<and> length (vavg c) \<le> max_size \<and> length (isum c) \<le> max_size \<and> length (tmax c) \<le> max_size"
  by (auto simp: graphs_bounded_def graphs_def)

lemma lengths_update:
  assumes "\<forall>x\<in>set xs. length x \<le> n" "length y \<le> n"
  shows "\<forall>x\<in>set (xs[i := y]). length x \<le> n"
proof
  fix x assume "x \<in> set (xs[i := y])"
  then have "x = y \<or> x \<in> set xs" using set_update_subset_insert [of xs i y] by blast
  then show "length x \<le> n" using assms by blast
qed

lemma bounded_update [simp]:
  assumes "graphs_bounded c"
  shows "graphs_bounded (c\<lparr>m_curgraphData := (m_curgraphData c)[i := add_point now v series]\<rparr>)"
    "graphs_bounded (c\<lparr>m_voltgraphData := (m_voltgraphData c)[i := add_point now v series]\<rparr>)"
    "graphs_bounded (c\<lparr>m_tempgraphData := (m_tempgraphData c)[i := add_point now v series]\<rparr>)"
    "graphs_bounded (c\<lparr>vavg := add_point now v series, isum := add_point now w others\<rparr>)"
    "graphs_bounded (c\<lparr>tmax := add_point now v series\<rparr>)"
  using assms unfolding graphs_bounded_iff
  by (simp_all add: length_add_point) ((rule lengths_update [OF _ length_add_point], blast)+)

lemma bounded_same [simp]:
  "graphs_bounded (c\<lparr>m_channelstatus := x\<rparr>) = graphs_bounded c" "graphs_bounded (c\<lparr>m_breakercurrentsliders := x\<rparr>) = graphs_bounded c"
  "graphs_bounded (c\<lparr>m_breakerspeedsliders := x\<rparr>) = graphs_bounded c"
  by (simp_all add: graphs_bounded_iff)

lemma bounded_get:
  assumes "graphs_bounded c" "\<And>r c'. graphs_bounded c' \<Longrightarrow> Q (r, c')"
  shows "wp (\<lambda>_. True) Q (BlockingSnmpGet table index c)"
proof (cases "BlockingSnmpGet table index c")
  case (Inr rc)
  obtain r c' where rc: "rc = (r, c')" by (cases rc)
  have "graphs_bounded c'" using bounded_cong [OF get_graphs [OF Inr [unfolded rc]]] assms(1) by blast
  then show ?thesis using assms(2) by (simp add: wp_def Inr rc)
qed (simp add: wp_def)

lemma bounded_poll:
  assumes "graphs_bounded c" "\<And>v c. graphs_bounded c \<Longrightarrow> graphs_bounded (f v c)" "\<And>c. graphs_bounded c \<Longrightarrow> Q c"
  shows "wp (\<lambda>_. True) Q (poll_value table i f c)"
  unfolding poll_value_def wp_simps by (rule bounded_get [OF assms(1)]) (simp add: assms(2,3) split: option.split)

text \<open>No graph ever grows beyond its limit, whatever the unit answers.\<close>

lemma graphs_stay_bounded:
  assumes "graphs_bounded c"
  shows "wp (\<lambda>_. True) graphs_bounded (OnTimer_client now current_focus speed_focus c)"
proof -
  let ?I = "\<lambda>(sum, count, c). graphs_bounded c"
  have channel: "?I t \<Longrightarrow> wp (\<lambda>_. True) ?I (poll_channel now current_focus speed_focus i t)" for i t
    by (auto simp: poll_channel_def Let_def intro!: bounded_poll bounded_get split: option.split)
  have voltage: "?I t \<Longrightarrow> wp (\<lambda>_. True) ?I (poll_voltage now i t)" for i t
    by (auto simp: poll_voltage_def intro!: bounded_get split: option.split)
  have temperature: "?I t \<Longrightarrow> wp (\<lambda>_. True) ?I (poll_temperature now i t)" for i t
    by (auto simp: poll_temperature_def intro!: bounded_get split: option.split)
  show ?thesis
    unfolding OnTimer_client_def wp_simps
    by (auto simp: assms Let_def intro!: wp_foreach_inv [where I = ?I] channel voltage temperature)
qed

section \<open>What goes wrong\<close>

text \<open>The request with the identifier 65536 is answered, but the answer has another identifier and is thrown away.\<close>

lemma request_lost:
  assumes "m_readCommunity c = public_name" "send_results c = []" "m_requestID c = 65536" "arrivals c = Some reply # rs"
    and "reply = snmp_message 0xA2 (as_read 65536) (ber_oid (object_name table index) @ ber_integer v)"
  shows "\<exists>c'. BlockingSnmpGet table index c = Inr (None, c')"
proof -
  have "as_read (as_read 65536) \<noteq> 65536" by code_simp
  then show ?thesis using get_answered [OF assms(1,2,4,5)] assms(3) by (simp add: new_request_def Let_def)
qed

text \<open>A response whose name goes on to the end of the packet makes the decoder read past the array.\<close>

lemma base128_runs_off:
  assumes "\<And>j. j < n \<Longrightarrow> load8 (message + (pos + of_nat j)) s = Inr 0x80" "load8 (message + (pos + of_nat n)) s = Inl h" "n < fuel"
  shows "ber_base128 fuel message x pos s = Inl h"
  using assms
proof (induction n arbitrary: pos x fuel)
  case 0
  then show ?case by (subst ber_base128.simps) simp
next
  case (Suc n)
  have "ber_base128 (fuel - 1) message y (pos + 1) s = Inl h" for y
  proof (rule Suc.IH)
    show "load8 (message + (pos + 1 + of_nat j)) s = Inr 0x80" if "j < n" for j
      using Suc.prems(1) [of "Suc j"] that by (simp add: add.assoc)
    show "load8 (message + (pos + 1 + of_nat n)) s = Inl h" using Suc.prems(2) by (simp add: add.assoc)
  qed (use Suc.prems(3) in simp)
  then show ?case using Suc.prems(1) [of 0] Suc.prems(3) by (subst ber_base128.simps) (simp add: Let_def)
qed

definition endless_head :: "u8 list" where
  "endless_head = [0x30, 0, 2, 1, 1, 4, 0, 0xA2, 0, 2, 1, 0, 2, 1, 0, 2, 1, 0, 0x30, 0, 0x30, 0, 6, 0x82, 0xFF, 0xFF, 0x2b]"

definition endless_name :: "u8 list" where
  "endless_name = endless_head @ replicate 2021 0x80"

lemma endless_length: "length endless_head = 27" "length endless_name = 2048"
  by (simp_all add: endless_name_def endless_head_def)

lemma endless_tail: "j < 2021 \<Longrightarrow> endless_name ! (27 + j) = 0x80"
  using nth_append_length_plus [of endless_head "replicate 2021 0x80" j] endless_length(1) by (simp add: endless_name_def)

lemma local_load:
  assumes "length bs \<le> 2048" "k < length bs"
  shows "load8 (of_nat k) (local_array bs) = Inr (bs ! k)"
proof -
  have "mem (local_array bs) (0 + of_nat k) = bs ! k"
    using local_reads [OF assms(1)] assms(2) unfolding reads_def holds_bytes_def by blast
  then show ?thesis using load8_ok [OF local_access(1), of k bs] assms by simp
qed

lemma two_octets:
  "load8 (message + pos) s = Inr a \<Longrightarrow> load8 (message + (pos + 1)) s = Inr b \<Longrightarrow>
   ber_octets message 2 0 pos s = Inr (push_bit 8 (ucast a) OR ucast b, pos + 2)"
  by (simp add: numeral_2_eq_2 add.assoc)

lemma response_overrun: "parse_response (local_array endless_name) = Inl (MMUFault 2048)"
proof -
  let ?s = "local_array endless_name"
  have "load8 (0 + (27 + of_nat j)) ?s = Inr 0x80" if "j < 2021" for j
    using local_load [of endless_name "27 + j"] endless_tail [OF that] endless_length(2) that by simp
  moreover have "load8 (0 + (27 + of_nat 2021)) ?s = Inl (MMUFault 2048)"
    by (simp add: load8_def readable_def local_array_def)
  moreover have "(2021 :: nat) < 2 ^ 32" by simp
  ultimately have name: "ber_base128 (2 ^ 32) 0 0 27 ?s = Inl (MMUFault 2048)"
    by (rule base128_runs_off)
  have "reads ?s 0 (endless_head @ replicate 2021 0x80)"
    using local_reads [of endless_name] endless_length(2) by (simp add: endless_name_def)
  then have loads: "reads ?s 0 endless_head" by (rule reads_prefix)
  define s where "s = ?s"
  note loads = loads [folded s_def, unfolded endless_head_def] and name = name [folded s_def]
  have "ber_octets 0 2 0 24 s = Inr (0xFFFF, 26)" using loads by (simp add: reads_Cons two_octets)
  then show ?thesis
    using loads name unfolding s_def [symmetric]
    by (simp add: reads_Cons parse_response_def BERDecodeChunkHeader_def BERDecodeExpectedInteger_def BERDecodeInteger_def BERDecodeString_def
        BERDecodeOID_def Let_def aset_def ber_oid_loop.simps [of _ _ _ 27] del: replicate_Suc)
qed

end
