(* ===== verification/Elf_Sign.thy ===== *)
theory Elf_Sign
  imports Antikernel_Prelude
begin

text \<open>
  The signing tool for ELF executables (\<open>src/legacy-trunk/src/elfsign/main.cpp\<close>): the options, the checks of the file, the octets that the
  signature covers, and its check and replacement.
\<close>

section \<open>Runs that end with an exit code\<close>

text \<open>A part of \<open>main\<close> goes on with a value, ends the program with an exit code, or reads or writes outside the mapping of the file.\<close>

type_synonym 'a elf = "(nat + 'a) res"

definition elf_then :: "'a elf \<Rightarrow> ('a \<Rightarrow> 'b elf) \<Rightarrow> 'b elf" where
  "elf_then m f = andthen m (\<lambda>r. case r of Inl code \<Rightarrow> Inr (Inl code) | Inr x \<Rightarrow> f x)"

definition go_on :: "'a \<Rightarrow> 'a elf" where
  "go_on x = Inr (Inr x)"

definition require :: "bool \<Rightarrow> unit elf" where
  "require b = (if b then go_on () else Inr (Inl 1))"

fun elf_foreach :: "nat list \<Rightarrow> (nat \<Rightarrow> 's \<Rightarrow> 's elf) \<Rightarrow> 's \<Rightarrow> 's elf" where
  "elf_foreach [] f s = go_on s"
| "elf_foreach (i # ks) f s = elf_then (f i s) (elf_foreach ks f)"

section \<open>Options\<close>

record elf_options =
  password_set :: bool
  hmac_key :: "u8 list"
  fname :: "u8 list"
  sign :: bool

definition no_options :: elf_options where
  "no_options = \<lparr>password_set = False, hmac_key = replicate 64 0, fname = [], sign = False\<rparr>"

text \<open>SHA-512 is a parameter. A missing password makes the program read from a null pointer.\<close>

fun elfsign_options :: "(u8 list \<Rightarrow> u8 list) \<Rightarrow> u8 list list \<Rightarrow> elf_options \<Rightarrow> elf_options elf" where
  "elfsign_options sha512 [] opts = go_on opts"
| "elfsign_options sha512 (s # args) opts =
     (if s = ascii ''--help'' then Inr (Inl 0)
      else if s = ascii ''--nobanner'' then elfsign_options sha512 args opts
      else if s = ascii ''--sign'' then elfsign_options sha512 args (opts\<lparr>sign := True\<rparr>)
      else if s = ascii ''--debug'' then elfsign_options sha512 args opts
      else if s = ascii ''--password'' then
        (case args of
           [] \<Rightarrow> Inl OutOfBounds
         | password # args \<Rightarrow> elfsign_options sha512 args (opts\<lparr>password_set := True, hmac_key := sha512 password\<rparr>))
      else if s = ascii ''--version'' then Inr (Inl 0)
      else if take 1 s \<noteq> ascii ''-'' then elfsign_options sha512 args (opts\<lparr>fname := s\<rparr>)
      else Inr (Inl 1))"

section \<open>The mapping of the file\<close>

definition elf_raw :: "u8 list \<Rightarrow> nat \<Rightarrow> nat \<Rightarrow> u8 list elf" where
  "elf_raw img a n = (if n = 0 \<or> a + n \<le> length img then go_on (take n (drop a img)) else Inl OutOfBounds)"

definition elf_value :: "u8 list \<Rightarrow> u32" where
  "elf_value bytes = foldl (\<lambda>v b. 256 * v + ucast b) 0 bytes"

definition elf_word :: "u8 list \<Rightarrow> nat \<Rightarrow> u32 elf" where
  "elf_word img a = elf_then (elf_raw img a 4) (\<lambda>bytes. go_on (elf_value bytes))"

definition elf_half :: "u8 list \<Rightarrow> nat \<Rightarrow> u32 elf" where
  "elf_half img a = elf_then (elf_raw img a 2) (\<lambda>bytes. go_on (elf_value bytes))"

text \<open>The checks of the header: 32 bits, big-endian, current version, executable, for MIPS, with an aligned table of entries of 32 octets.\<close>

definition elf_header :: "u8 list \<Rightarrow> (nat \<times> nat) elf" where
  "elf_header img =
     elf_then (elf_raw img 0 7) (\<lambda>ident.
     elf_then (require (take 4 ident = [0x7f, 0x45, 0x4c, 0x46])) (\<lambda>_.
     elf_then (require (ident ! 4 = 1)) (\<lambda>_.
     elf_then (require (ident ! 5 = 2)) (\<lambda>_.
     elf_then (require (ident ! 6 = 1)) (\<lambda>_.
     elf_then (elf_half img 16) (\<lambda>e_type.
     elf_then (require (e_type = 2)) (\<lambda>_.
     elf_then (elf_half img 18) (\<lambda>e_machine.
     elf_then (require (e_machine = 8)) (\<lambda>_.
     elf_then (elf_raw img 24 4) (\<lambda>_.
     elf_then (elf_word img 28) (\<lambda>phoff.
     elf_then (require (phoff AND 3 = 0)) (\<lambda>_.
     elf_then (elf_half img 42) (\<lambda>phentsize.
     elf_then (elf_half img 44) (\<lambda>phnum.
     elf_then (require (phentsize = 32)) (\<lambda>_.
     go_on (unat phoff, unat phnum))))))))))))))))"

record elf_scan =
  data_to_sign :: "u8 list"
  foundsig :: bool
  sigoff :: nat

definition PT_LOAD :: u32 where "PT_LOAD = 1"
definition PT_SIGNATURE :: u32 where "PT_SIGNATURE = 0x70000005"

text \<open>
  One program header at the offset \<open>h\<close>: its type, offset, virtual address, size in the file and alignment (which is only printed) are the words
  at 0, 4, 8, 16 and 28. A segment is taken in whole words, from the word in which it begins.
\<close>

definition elf_program_header :: "u8 list \<Rightarrow> nat \<Rightarrow> elf_scan \<Rightarrow> elf_scan elf" where
  "elf_program_header img h st =
     elf_then (elf_word img h) (\<lambda>type.
     if type = PT_LOAD then
       elf_then (elf_word img (h + 8)) (\<lambda>vaddr.
       if vaddr = 0 then go_on st
       else
         elf_then (elf_word img (h + 4)) (\<lambda>offset.
         elf_then (elf_word img (h + 16)) (\<lambda>filesz.
         elf_then (elf_word img (h + 28)) (\<lambda>_.
         elf_then (elf_raw img (4 * (unat offset div 4)) (4 * (unat filesz div 4))) (\<lambda>bytes.
         go_on (st\<lparr>data_to_sign := data_to_sign st @ bytes\<rparr>))))))
     else if type = PT_SIGNATURE then
       elf_then (elf_word img (h + 4)) (\<lambda>offset.
       elf_then (elf_word img (h + 16)) (\<lambda>filesz.
       elf_then (require (filesz = 32)) (\<lambda>_.
       go_on (st\<lparr>foundsig := True, sigoff := unat offset\<rparr>))))
     else go_on st)"

definition elf_scan_headers :: "u8 list \<Rightarrow> elf_scan elf" where
  "elf_scan_headers img =
     elf_then (elf_header img) (\<lambda>(phoff, phnum).
     elf_then (elf_raw img 24 4) (\<lambda>entry.
     elf_foreach [0..<phnum] (\<lambda>i. elf_program_header img (phoff + 32 * i)) \<lparr>data_to_sign = entry, foundsig = False, sigoff = 0\<rparr>))"

section \<open>Check and replacement of the signature\<close>

datatype verdict = NoBlock | NotSigned | ValidSignature | InvalidSignature

definition put_octets :: "u8 list \<Rightarrow> nat \<Rightarrow> u8 list \<Rightarrow> u8 list" where
  "put_octets img a bytes = take a img @ bytes @ drop (a + length bytes) img"

definition elf_signature :: "(u8 list \<Rightarrow> u8 list \<Rightarrow> u8 list) \<Rightarrow> elf_options \<Rightarrow> u8 list \<Rightarrow> elf_scan \<Rightarrow> (verdict \<times> u8 list) elf" where
  "elf_signature hmac opts img st =
     (if foundsig st then
        let expected = hmac (hmac_key opts) (data_to_sign st) in
        elf_then (elf_raw img (sigoff st) 32) (\<lambda>actual.
        go_on
          (if actual = replicate 32 0x41 then NotSigned else if actual = expected then ValidSignature else InvalidSignature,
           if sign opts then put_octets img (sigoff st) expected else img))
      else go_on (NoBlock, img))"

definition elf_process :: "(u8 list \<Rightarrow> u8 list \<Rightarrow> u8 list) \<Rightarrow> elf_options \<Rightarrow> u8 list \<Rightarrow> (verdict \<times> u8 list) elf" where
  "elf_process hmac opts img = elf_then (elf_scan_headers img) (elf_signature hmac opts img)"

text \<open>
  \<open>main\<close>. The length of the file is kept in 32 bits; a mapping of length 0 fails. Pages have 4096 octets, and the rest of the last page of the file
  reads as zero and is not written back.
\<close>

definition page_up :: "nat \<Rightarrow> nat" where
  "page_up n = 4096 * ((n + 4095) div 4096)"

definition elf_mapping :: "u8 list \<Rightarrow> u8 list" where
  "elf_mapping file = (let n = page_up (length file mod 2 ^ 32) in take n (file @ replicate n 0))"

definition elfsign_main ::
    "(u8 list \<Rightarrow> u8 list) \<Rightarrow> (u8 list \<Rightarrow> u8 list \<Rightarrow> u8 list) \<Rightarrow> (u8 list \<Rightarrow> u8 list option) \<Rightarrow> u8 list list \<Rightarrow> (verdict \<times> u8 list) elf" where
  "elfsign_main sha512 hmac files args =
     elf_then (elfsign_options sha512 args no_options) (\<lambda>opts.
     elf_then (require (password_set opts)) (\<lambda>_.
     elf_then (require (fname opts \<noteq> [])) (\<lambda>_.
     case files (fname opts) of
       None \<Rightarrow> Inr (Inl 1)
     | Some file \<Rightarrow>
         elf_then (require (length file mod 2 ^ 32 \<noteq> 0)) (\<lambda>_.
         elf_then (elf_process hmac opts (elf_mapping file)) (\<lambda>(verdict, img).
         go_on (verdict, take (length file) (img @ drop (length img) file)))))))"

end
