(* ===== verification/Elf_Spec.thy ===== *)
theory Elf_Spec
  imports Elf_Sign
begin

text \<open>What the signature of an executable covers: the octets that the tool reads, that a signed file verifies, and what can change unseen.\<close>

section \<open>Runs\<close>

lemma elf_then_simps [simp]:
  "elf_then (go_on x) f = f x" "elf_then (Inr (Inl c)) f = Inr (Inl c)" "elf_then (Inl h) f = Inl h"
  by (simp_all add: elf_then_def go_on_def)

lemma elf_then_go: "elf_then m f = go_on y \<longleftrightarrow> (\<exists>x. m = go_on x \<and> f x = go_on y)"
  by (auto simp: elf_then_def go_on_def andthen_def split: sum.splits)

lemma go_on_eq [simp]: "go_on x = go_on y \<longleftrightarrow> x = y"
  by (simp add: go_on_def)

lemma require_go [simp]: "require b = go_on () \<longleftrightarrow> b"
  by (simp add: require_def go_on_def)

lemma elf_foreach_cong:
  "(\<And>i s. i \<in> set ks \<Longrightarrow> f i s = g i s) \<Longrightarrow> elf_foreach ks f s = elf_foreach ks g s"
proof (induction ks arbitrary: s)
  case (Cons i ks)
  then have "elf_foreach ks f = elf_foreach ks g" by (intro ext) simp
  with Cons show ?case by simp
qed simp

lemma elf_then_cong: "(\<And>x. m = go_on x \<Longrightarrow> f x = f' x) \<Longrightarrow> elf_then m f = elf_then m f'"
  by (auto simp: elf_then_def go_on_def andthen_def split: sum.splits)

section \<open>The octets that are read\<close>

definition elf_word_at :: "u8 list \<Rightarrow> nat \<Rightarrow> u32" where
  "elf_word_at img a = elf_value (take 4 (drop a img))"

definition half_at :: "u8 list \<Rightarrow> nat \<Rightarrow> u32" where
  "half_at img a = elf_value (take 2 (drop a img))"

text \<open>The words of the segment of the header at \<open>h\<close>, if it is loaded at an address other than 0.\<close>

definition signed_segment :: "u8 list \<Rightarrow> nat \<Rightarrow> nat set" where
  "signed_segment img h =
     (if elf_word_at img h = PT_LOAD \<and> elf_word_at img (h + 8) \<noteq> 0
      then {4 * (unat (elf_word_at img (h + 4)) div 4) ..< 4 * (unat (elf_word_at img (h + 4)) div 4) + 4 * (unat (elf_word_at img (h + 16)) div 4)}
      else {})"

definition elf_reads :: "u8 list \<Rightarrow> nat set" where
  "elf_reads img =
     (let phoff = unat (elf_word_at img 28); phnum = unat (half_at img 44) in
      {0..<52} \<union> {phoff..<phoff + 32 * phnum} \<union> (\<Union>i<phnum. signed_segment img (phoff + 32 * i)))"

definition same_on :: "nat set \<Rightarrow> u8 list \<Rightarrow> u8 list \<Rightarrow> bool" where
  "same_on A x y \<longleftrightarrow> length x = length y \<and> (\<forall>a\<in>A. a < length x \<longrightarrow> x ! a = y ! a)"

lemma elf_raw_same:
  assumes "same_on A x y" "{a..<a + n} \<subseteq> A"
  shows "elf_raw x a n = elf_raw y a n"
proof -
  have l: "length x = length y" using assms(1) by (simp add: same_on_def)
  have "take n (drop a x) = take n (drop a y)"
  proof (rule nth_equalityI)
    fix i assume "i < length (take n (drop a x))"
    then have "a + i \<in> A" "a + i < length x" using subsetD [OF assms(2), of "a + i"] by auto
    then show "take n (drop a x) ! i = take n (drop a y) ! i"
      using assms(1) \<open>i < length (take n (drop a x))\<close> by (simp add: same_on_def)
  qed (simp add: l)
  then show ?thesis by (simp add: elf_raw_def l)
qed

lemma elf_raw_go: "elf_raw img a n = go_on bytes \<longleftrightarrow> bytes = take n (drop a img) \<and> (n = 0 \<or> a + n \<le> length img)"
  by (auto simp: elf_raw_def go_on_def)

lemma elf_word_go: "elf_word img a = go_on w \<longleftrightarrow> w = elf_word_at img a \<and> a + 4 \<le> length img"
  by (auto simp: elf_word_def elf_then_go elf_raw_go elf_word_at_def)

lemma elf_half_go: "elf_half img a = go_on w \<longleftrightarrow> w = half_at img a \<and> a + 2 \<le> length img"
  by (auto simp: elf_half_def elf_then_go elf_raw_go half_at_def)

lemma elf_header_go:
  "elf_header img = go_on (phoff, phnum) \<Longrightarrow> phoff = unat (elf_word_at img 28) \<and> phnum = unat (half_at img 44)"
  by (auto simp: elf_header_def elf_then_go elf_word_go elf_half_go)

lemma elf_header_same:
  assumes "same_on A x y" "{0..<52} \<subseteq> A"
  shows "elf_header x = elf_header y"
proof -
  have r: "elf_raw x a n = elf_raw y a n" if "a + n \<le> 52" for a n
    using assms(2) that by (intro elf_raw_same [OF assms(1)]) auto
  show ?thesis by (simp add: elf_header_def elf_half_def elf_word_def r)
qed

lemma program_header_same:
  assumes "same_on A x y" "{h..<h + 32} \<subseteq> A" "signed_segment x h \<subseteq> A"
  shows "elf_program_header x h st = elf_program_header y h st"
proof -
  have r: "elf_raw x (h + a) n = elf_raw y (h + a) n" if "a + n \<le> 32" for a n
    using assms(2) that by (intro elf_raw_same [OF assms(1)]) auto
  have w: "elf_word x (h + a) = elf_word y (h + a)" if "a + 4 \<le> 32" for a using r [OF that] by (simp add: elf_word_def)
  have segment: "elf_raw x (4 * (unat off div 4)) (4 * (unat size div 4)) = elf_raw y (4 * (unat off div 4)) (4 * (unat size div 4))"
    if "elf_word x h = go_on PT_LOAD" "elf_word x (h + 8) = go_on v" "v \<noteq> 0" "elf_word x (h + 4) = go_on off" "elf_word x (h + 16) = go_on size"
    for v off size
    using that assms(3) by (intro elf_raw_same [OF assms(1)]) (simp add: signed_segment_def elf_word_go)
  show ?thesis
    unfolding elf_program_header_def w [of 0, simplified, symmetric] w [of 4, simplified, symmetric] w [of 8, simplified, symmetric]
      w [of 16, simplified, symmetric] w [of 28, simplified, symmetric]
    by (intro elf_then_cong if_cong refl) (simp add: segment)
qed

lemma scan_same:
  assumes "same_on (elf_reads x) x y"
  shows "elf_scan_headers x = elf_scan_headers y"
proof -
  have head: "{0..<52} \<subseteq> elf_reads x" by (auto simp: elf_reads_def Let_def)
  have raw: "elf_raw x 24 4 = elf_raw y 24 4" using head by (intro elf_raw_same [OF assms]) auto
  have "elf_foreach [0..<phnum] (\<lambda>i. elf_program_header x (phoff + 32 * i)) st =
      elf_foreach [0..<phnum] (\<lambda>i. elf_program_header y (phoff + 32 * i)) st"
    if "elf_header x = go_on (phoff, phnum)" for phoff phnum st
  proof (rule elf_foreach_cong, rule program_header_same [OF assms])
    fix i assume i: "i \<in> set [0..<phnum]"
    have p: "phoff = unat (elf_word_at x 28)" "phnum = unat (half_at x 44)" using elf_header_go [OF that] by auto
    show "{phoff + 32 * i..<phoff + 32 * i + 32} \<subseteq> elf_reads x" using i by (auto simp: elf_reads_def Let_def p)
    show "signed_segment x (phoff + 32 * i) \<subseteq> elf_reads x" using i by (auto simp: elf_reads_def Let_def p)
  qed
  then show ?thesis
    unfolding elf_scan_headers_def elf_header_same [OF assms head, symmetric] raw [symmetric]
    by (intro elf_then_cong) (auto intro!: elf_then_cong)
qed

section \<open>What the signature says\<close>

lemma put_octets_nth:
  assumes "p + length bytes \<le> length img"
  shows "length (put_octets img p bytes) = length img"
    "a < length img \<Longrightarrow> a \<notin> {p..<p + length bytes} \<Longrightarrow> put_octets img p bytes ! a = img ! a"
    "take (length bytes) (drop p (put_octets img p bytes)) = bytes"
  using assms by (auto simp: put_octets_def nth_append min_def)

lemma signed_verifies:
  assumes "elf_process hmac opts img = go_on (v, img')" "sign opts"
    and "elf_scan_headers img = go_on st" "foundsig st" "{sigoff st..<sigoff st + 32} \<inter> elf_reads img = {}"
    and "length (hmac (hmac_key opts) (data_to_sign st)) = 32" "hmac (hmac_key opts) (data_to_sign st) \<noteq> replicate 32 0x41"
  shows "elf_process hmac (opts\<lparr>sign := False\<rparr>) img' = go_on (ValidSignature, img')"
proof -
  let ?mac = "hmac (hmac_key opts) (data_to_sign st)"
  have room: "sigoff st + length ?mac \<le> length img" and img': "img' = put_octets img (sigoff st) ?mac"
    using assms(1-4,6) by (auto simp: elf_process_def elf_signature_def Let_def elf_then_go elf_raw_go)
  note put = put_octets_nth [OF room]
  have "same_on (elf_reads img) img img'"
  proof -
    have "a \<notin> {sigoff st..<sigoff st + length ?mac}" if "a \<in> elf_reads img" for a using assms(5,6) that by auto
    then show ?thesis using put(1,2) by (simp add: same_on_def img')
  qed
  then have "elf_scan_headers img' = go_on st" using scan_same assms(3) by metis
  moreover have "elf_raw img' (sigoff st) 32 = go_on ?mac" using put(1,3) room assms(6) by (simp add: elf_raw_go img')
  ultimately show ?thesis using assms(4,7) by (simp add: elf_process_def elf_signature_def)
qed

lemma elf_unread_unsigned:
  assumes "elf_process hmac opts img = go_on (v, img)" "\<not> sign opts" "elf_scan_headers img = go_on st"
    and "a \<notin> elf_reads img" "a \<notin> {sigoff st..<sigoff st + 32}"
  shows "elf_process hmac opts (img[a := b]) = go_on (v, img[a := b])"
proof -
  have same: "same_on A img (img[a := b])" if "a \<notin> A" for A
    using that unfolding same_on_def by (metis length_list_update nth_list_update_neq)
  have "elf_scan_headers (img[a := b]) = go_on st" using scan_same [OF same [OF assms(4)]] assms(3) by simp
  moreover have "elf_raw (img[a := b]) (sigoff st) 32 = elf_raw img (sigoff st) 32"
    by (rule elf_raw_same [OF same [OF assms(5)], symmetric]) simp
  ultimately show ?thesis
    using assms(1-3) by (auto simp: elf_process_def elf_signature_def Let_def elf_then_go split: if_splits)
qed

section \<open>The program on a file\<close>

text \<open>A name that is no option.\<close>

definition plain_name :: "u8 list \<Rightarrow> bool" where
  "plain_name f \<longleftrightarrow> f \<noteq> [] \<and> take 1 f \<noteq> ascii ''-''"

lemma option_texts:
  "ascii ''--password'' \<noteq> ascii ''--help''" "ascii ''--password'' \<noteq> ascii ''--nobanner''" "ascii ''--password'' \<noteq> ascii ''--sign''"
  "ascii ''--password'' \<noteq> ascii ''--debug''" "ascii ''--sign'' \<noteq> ascii ''--help''" "ascii ''--sign'' \<noteq> ascii ''--nobanner''"
  by code_simp+

lemma options_name:
  assumes "plain_name f"
  shows "elfsign_options sha512 [f] opts = go_on (opts\<lparr>fname := f\<rparr>)"
proof -
  have "take 1 (ascii ''--help'') = ascii ''-''" "take 1 (ascii ''--nobanner'') = ascii ''-''" "take 1 (ascii ''--sign'') = ascii ''-''"
    "take 1 (ascii ''--debug'') = ascii ''-''" "take 1 (ascii ''--password'') = ascii ''-''" "take 1 (ascii ''--version'') = ascii ''-''"
    by code_simp+
  then have "f \<notin> {ascii ''--help'', ascii ''--nobanner'', ascii ''--sign'', ascii ''--debug'', ascii ''--password'', ascii ''--version''}"
    using assms unfolding plain_name_def by fastforce
  then show ?thesis using assms by (simp add: plain_name_def)
qed

definition key_options :: "(u8 list \<Rightarrow> u8 list) \<Rightarrow> u8 list \<Rightarrow> u8 list \<Rightarrow> bool \<Rightarrow> elf_options" where
  "key_options sha512 pw f b = \<lparr>password_set = True, hmac_key = sha512 pw, fname = f, sign = b\<rparr>"

lemma options_password:
  "elfsign_options sha512 (ascii ''--password'' # pw # args) opts =
     elfsign_options sha512 args (opts\<lparr>password_set := True, hmac_key := sha512 pw\<rparr>)"
  by (subst elfsign_options.simps) (simp add: option_texts)

lemma options_sign: "elfsign_options sha512 (ascii ''--sign'' # args) opts = elfsign_options sha512 args (opts\<lparr>sign := True\<rparr>)"
  by (subst elfsign_options.simps) (simp add: option_texts)

lemmas options_given = options_password options_sign options_name

lemma mapping_eq:
  assumes "length file < 2 ^ 32"
  shows "elf_mapping file = file @ replicate (page_up (length file) - length file) 0"
proof -
  have "length file \<le> page_up (length file)" unfolding page_up_def by linarith
  then show ?thesis using assms by (simp add: elf_mapping_def Let_def)
qed

lemma put_append: "p + length bytes \<le> length file \<Longrightarrow> put_octets (file @ z) p bytes = put_octets file p bytes @ z"
  by (simp add: put_octets_def)

text \<open>A file that has been signed verifies with the same password.\<close>

text \<open>
  C34: An executable whose signature block lies in the file and outside the octets that are signed, signed with a password, differs from the file
  only in the block, and a later check of it with the same password finds a valid signature.
\<close>
theorem elfsign_roundtrip:
  assumes "plain_name f" "files f = Some file" "0 < length file" "length file < 2 ^ 32"
    and "elf_scan_headers (elf_mapping file) = go_on st" "foundsig st" "sigoff st + 32 \<le> length file"
    and "{sigoff st..<sigoff st + 32} \<inter> elf_reads (elf_mapping file) = {}"
    and "length (hmac (sha512 pw) (data_to_sign st)) = 32" "hmac (sha512 pw) (data_to_sign st) \<noteq> replicate 32 0x41"
  shows "\<exists>v file'. elfsign_main sha512 hmac files [ascii ''--password'', pw, ascii ''--sign'', f] = go_on (v, file') \<and>
    file' = put_octets file (sigoff st) (hmac (sha512 pw) (data_to_sign st)) \<and>
    elfsign_main sha512 hmac (files(f := Some file')) [ascii ''--password'', pw, f] = go_on (ValidSignature, file')"
proof -
  define mac where "mac = hmac (sha512 pw) (data_to_sign st)"
  define z where "z = replicate (page_up (length file) - length file) (0 :: u8)"
  define file' where "file' = put_octets file (sigoff st) mac"
  define o1 where "o1 = \<lparr>password_set = True, hmac_key = sha512 pw, fname = f, sign = True\<rparr>"
  have mapped: "elf_mapping file = file @ z" unfolding z_def by (rule mapping_eq [OF assms(4)])
  have len: "length file' = length file" using assms(7,9) by (simp add: file'_def mac_def put_octets_def)
  have mapped': "elf_mapping file' = file' @ z" using mapping_eq [of file'] assms(4) by (simp add: len z_def)
  have f: "f \<noteq> []" using assms(1) by (simp add: plain_name_def)
  have small: "length file mod 2 ^ 32 = length file" using assms(4) by simp
  have put: "put_octets (elf_mapping file) (sigoff st) mac = file' @ z"
    unfolding mapped file'_def using assms(7,9) by (intro put_append) (simp add: mac_def)
  have raw: "elf_raw (elf_mapping file) (sigoff st) 32 = go_on (take 32 (drop (sigoff st) (elf_mapping file)))"
    using assms(7) by (simp add: elf_raw_def mapped)
  obtain v where first: "elf_process hmac o1 (elf_mapping file) = go_on (v, file' @ z)"
    using assms(5,6) raw put by (simp add: elf_process_def elf_signature_def Let_def o1_def mac_def)
  have "elf_process hmac (o1\<lparr>sign := False\<rparr>) (file' @ z) = go_on (ValidSignature, file' @ z)"
    by (rule signed_verifies [OF first]) (use assms in \<open>simp_all add: o1_def\<close>)
  then have second: "elf_process hmac \<lparr>password_set = True, hmac_key = sha512 pw, fname = f, sign = False\<rparr> (elf_mapping file') =
      go_on (ValidSignature, file' @ z)"
    by (simp add: o1_def mapped')
  have "elfsign_main sha512 hmac files [ascii ''--password'', pw, ascii ''--sign'', f] = go_on (v, file')"
    using first f assms(2,3) small len
    by (simp add: elfsign_main_def options_given assms(1) no_options_def require_def o1_def del: elfsign_options.simps)
  moreover have "elfsign_main sha512 hmac (files(f := Some file')) [ascii ''--password'', pw, f] = go_on (ValidSignature, file')"
    using second f assms(3) small len
    by (simp add: elfsign_main_def options_given assms(1) no_options_def require_def del: elfsign_options.simps)
  ultimately show ?thesis by (auto simp: file'_def mac_def)
qed

section \<open>An executable\<close>

text \<open>A header, a segment of six octets at 116, and a valid signature at 124; the last two octets of the segment are not signed.\<close>

definition small_elf :: "u8 list" where
  "small_elf =
     [0x7f, 0x45, 0x4c, 0x46, 1, 2, 1, 0, 0, 0, 0, 0, 0, 0, 0, 0, 0, 2, 0, 8, 0, 0, 0, 1, 0x40, 0, 0, 0, 0, 0, 0, 52, 0, 0, 0, 0, 0, 0, 0, 0, 0, 52, 0, 32,
      0, 2, 0, 0, 0, 0, 0, 0] @
     [0, 0, 0, 1, 0, 0, 0, 116, 0x40, 0, 0, 0, 0, 0, 0, 0, 0, 0, 0, 6, 0, 0, 0, 6, 0, 0, 0, 5, 0, 0, 0, 4] @
     [0x70, 0, 0, 5, 0, 0, 0, 124, 0, 0, 0, 0, 0, 0, 0, 0, 0, 0, 0, 32, 0, 0, 0, 32, 0, 0, 0, 0, 0, 0, 0, 4] @
     [1, 2, 3, 4, 5, 6, 0, 0] @ replicate 31 0 @ [0x4a]"

definition sum_hmac :: "u8 list \<Rightarrow> u8 list \<Rightarrow> u8 list" where
  "sum_hmac key data = replicate 31 0 @ [foldl (+) 0 data]"

text \<open>What can be read of a file can be read of a longer one.\<close>

definition goes_on_as :: "'a elf \<Rightarrow> 'a elf \<Rightarrow> bool" where
  "goes_on_as m m' \<longleftrightarrow> (\<forall>x. m = go_on x \<longrightarrow> m' = go_on x)"

lemma goes_on_as_then:
  "goes_on_as m m' \<Longrightarrow> (\<And>x. goes_on_as (f x) (f' x)) \<Longrightarrow> goes_on_as (elf_then m f) (elf_then m' f')"
  by (auto simp: goes_on_as_def elf_then_go)

lemma goes_on_as_refl: "goes_on_as m m"
  by (simp add: goes_on_as_def)

lemma goes_on_as_raw: "goes_on_as (elf_raw img a n) (elf_raw (img @ z) a n)"
  by (auto simp: goes_on_as_def elf_raw_go)

lemma goes_on_as_words: "goes_on_as (elf_word img a) (elf_word (img @ z) a)" "goes_on_as (elf_half img a) (elf_half (img @ z) a)"
  unfolding elf_word_def elf_half_def by (intro goes_on_as_then goes_on_as_raw goes_on_as_refl)+

lemma goes_on_as_if: "(b \<Longrightarrow> goes_on_as m m') \<Longrightarrow> (\<not> b \<Longrightarrow> goes_on_as n n') \<Longrightarrow> goes_on_as (if b then m else n) (if b then m' else n')"
  by simp

lemma goes_on_as_foreach:
  "(\<And>i s. goes_on_as (f i s) (g i s)) \<Longrightarrow> goes_on_as (elf_foreach ks f s) (elf_foreach ks g s)"
  by (induction ks arbitrary: s) (auto simp: goes_on_as_refl intro!: goes_on_as_then)

lemmas goes_on_rules = goes_on_as_then goes_on_as_if goes_on_as_refl goes_on_as_raw goes_on_as_words

lemma scan_longer: "elf_scan_headers img = go_on st \<Longrightarrow> elf_scan_headers (img @ z) = go_on st"
proof -
  have "goes_on_as (elf_header img) (elf_header (img @ z))"
    unfolding elf_header_def by (intro goes_on_rules)
  moreover have "goes_on_as (elf_program_header img h s) (elf_program_header (img @ z) h s)" for h s
    unfolding elf_program_header_def by (intro goes_on_rules)
  ultimately have "goes_on_as (elf_scan_headers img) (elf_scan_headers (img @ z))"
    unfolding elf_scan_headers_def
    by (auto intro!: goes_on_as_then goes_on_as_raw goes_on_as_foreach)
  then show "elf_scan_headers img = go_on st \<Longrightarrow> elf_scan_headers (img @ z) = go_on st" by (simp add: goes_on_as_def)
qed

lemma small_elf_scan: "elf_scan_headers small_elf = go_on \<lparr>data_to_sign = [0x40, 0, 0, 0, 1, 2, 3, 4], foundsig = True, sigoff = 124\<rparr>"
  by code_simp

lemma small_elf_reads: "elf_reads (small_elf @ z) = {0..<120}"
proof -
  have len: "length small_elf = 156" by code_simp
  have w: "elf_word_at (small_elf @ z) a = elf_word_at small_elf a" if "a + 4 \<le> 156" for a using that by (simp add: elf_word_at_def len)
  have h: "half_at (small_elf @ z) 44 = half_at small_elf 44" by (simp add: half_at_def len)
  have v: "elf_word_at small_elf 28 = 52" "half_at small_elf 44 = 2" "elf_word_at small_elf 52 = 1" "elf_word_at small_elf 60 = 0x40000000"
    "elf_word_at small_elf 56 = 116" "elf_word_at small_elf 68 = 6" "elf_word_at small_elf 84 = 0x70000005"
    by code_simp+
  have "signed_segment (small_elf @ z) 52 = {116..<120}" "signed_segment (small_elf @ z) 84 = {}"
    by (simp_all add: signed_segment_def w v PT_LOAD_def)
  then have "(\<Union>i<2. signed_segment (small_elf @ z) (52 + 32 * i)) = {116..<120}" by (simp add: numeral_2_eq_2 lessThan_Suc)
  then show ?thesis by (auto simp: elf_reads_def Let_def w h v)
qed

theorem elfsign_roundtrip_witness:
  "\<exists>v file'. elfsign_main (\<lambda>pw. pw) sum_hmac [ascii ''a.elf'' \<mapsto> small_elf] [ascii ''--password'', [7], ascii ''--sign'', ascii ''a.elf''] = go_on (v, file') \<and>
     elfsign_main (\<lambda>pw. pw) sum_hmac [ascii ''a.elf'' \<mapsto> file'] [ascii ''--password'', [7], ascii ''a.elf''] = go_on (ValidSignature, file')"
proof -
  have len: "length small_elf = 156" by code_simp
  have name: "plain_name (ascii ''a.elf'')" by code_simp
  have mac: "length (sum_hmac [7] [0x40, 0, 0, 0, 1, 2, 3, 4]) = 32" "sum_hmac [7] [0x40, 0, 0, 0, 1, 2, 3, 4] \<noteq> replicate 32 0x41"
    by code_simp+
  define z where "z = replicate (page_up 156 - 156) (0 :: u8)"
  have map: "elf_mapping small_elf = small_elf @ z" using mapping_eq [of small_elf] by (simp add: len z_def)
  show ?thesis
    using elfsign_roundtrip [OF name, of "[ascii ''a.elf'' \<mapsto> small_elf]" small_elf, OF _ _ _ scan_longer [OF small_elf_scan, of z, folded map],
        of sum_hmac "\<lambda>pw. pw" "[7]"] mac
    by (auto simp: len small_elf_reads map)
qed

lemma elf_unread_unsigned_witness:
  "elf_process sum_hmac no_options (small_elf[121 := 99]) = go_on (ValidSignature, small_elf[121 := 99])"
proof (rule elf_unread_unsigned [OF _ _ small_elf_scan])
  show "elf_process sum_hmac no_options small_elf = go_on (ValidSignature, small_elf)" by code_simp
  show "121 \<notin> elf_reads small_elf" using small_elf_reads [of "[]"] by simp
qed (simp_all add: no_options_def)

end
