(* ===== verification/Scope_Decoders.thy ===== *)
theory Scope_Decoders
  imports Bridge
begin

text \<open>
  The protocol decoders of the oscilloscope software (\<open>src/legacy-trunk/src/scopeprotocols\<close>) that have a logic of their own: SPI, and the link
  layers of the RPC and DMA networks. They turn the samples of captured signals into bytes and messages.
\<close>

section \<open>Captures\<close>

text \<open>A sample lasts from its offset for its duration, in ticks. A bus sample has its most significant bit first.\<close>

record 'a sample =
  m_offset :: int
  m_duration :: int
  m_sample :: 'a

record 'a capture =
  m_timescale :: int
  m_samples :: "'a sample list"

text \<open>What \<open>Refresh\<close> does with its channel: it is left without data, gets a capture, or an exception is thrown.\<close>

datatype 'a refreshed = NoData | Decoded "'a capture" | Refused

abbreviation make_sample :: "int \<Rightarrow> int \<Rightarrow> 'a \<Rightarrow> 'a sample" where
  "make_sample offset duration x \<equiv> \<lparr>m_offset = offset, m_duration = duration, m_sample = x\<rparr>"

definition sample_end :: "'a sample \<Rightarrow> int" where
  "sample_end s = m_offset s + m_duration s"

definition bus_value :: "nat \<Rightarrow> bool list \<Rightarrow> u32 res" where
  "bus_value n bits = (if n \<le> length bits then Inr (foldl (\<lambda>v b. push_bit 1 v OR of_bool b) 0 (take n bits)) else Inl OutOfBounds)"

section \<open>SPI\<close>

record spi =
  nbit :: nat
  tstart :: int
  current_byte :: u8
  clk_was_high :: bool
  initial_wait :: bool
  bytes_out :: "u8 sample list"

definition spi_init :: spi where
  "spi_init = \<lparr>nbit = 0, tstart = 0, current_byte = 0, clk_was_high = False, initial_wait = True, bytes_out = [make_sample 0 0 0]\<rparr>"

definition spi_shift :: "bool sample \<Rightarrow> bool \<Rightarrow> spi \<Rightarrow> spi" where
  "spi_shift clk b st =
     (let st = (if nbit st = 0 then st\<lparr>tstart := m_offset clk, current_byte := 0\<rparr> else st);
          st = st\<lparr>current_byte := push_bit 1 (current_byte st) OR of_bool b\<rparr> in
      if nbit st = 7
      then st\<lparr>bytes_out := bytes_out st @ [make_sample (tstart st) (sample_end clk - tstart st) (current_byte st)], nbit := 0\<rparr>
      else st\<lparr>nbit := nbit st + 1\<rparr>)"

definition spi_step :: "bool sample list \<Rightarrow> bool sample list \<Rightarrow> bool sample list \<Rightarrow> nat \<Rightarrow> spi \<Rightarrow> spi res" where
  "spi_step clk cs data i st =
     andthen (aget cs i) (\<lambda>s.
     let st = (if m_sample s then st\<lparr>initial_wait := False, nbit := 0\<rparr> else st) in
     andthen (aget clk i) (\<lambda>c.
     andthen
       (if \<not> m_sample s \<and> m_sample c \<and> \<not> clk_was_high st \<and> \<not> initial_wait st
        then andthen (aget data i) (\<lambda>d. Inr (spi_shift c (m_sample d) st))
        else Inr st)
       (\<lambda>st. Inr (st\<lparr>clk_was_high := m_sample c\<rparr>))))"

definition SPI_Refresh :: "bool capture option \<Rightarrow> bool capture option \<Rightarrow> bool capture option \<Rightarrow> u8 refreshed res" where
  "SPI_Refresh clk cs data =
     (case (clk, cs, data) of
        (Some clk, Some cs, Some data) \<Rightarrow>
          andthen (foreach [0..<length (m_samples clk)] (spi_step (m_samples clk) (m_samples cs) (m_samples data)) spi_init) (\<lambda>st.
          Inr (Decoded \<lparr>m_timescale = m_timescale clk, m_samples = bytes_out st\<rparr>))
      | _ \<Rightarrow> Inr NoData)"

section \<open>What the link layer decoders share\<close>

text \<open>The loop that waits for a signal to go high: the index of the first such sample from \<open>i\<close> on, or the length of the capture.\<close>

definition wait_high :: "bool sample list \<Rightarrow> nat \<Rightarrow> nat" where
  "wait_high sig i = i + length (takeWhile (\<lambda>s. \<not> m_sample s) (drop i sig))"

definition bus_at :: "bool list sample list \<Rightarrow> nat \<Rightarrow> u32 res" where
  "bus_at data i = andthen (aget data i) (\<lambda>s. bus_value 32 (m_sample s))"

text \<open>The words at the times \<open>t + k\<close>: the index goes on when the sample has ended by then.\<close>

fun link_words :: "bool sample list \<Rightarrow> bool list sample list \<Rightarrow> int \<Rightarrow> nat list \<Rightarrow> nat \<Rightarrow> (nat \<times> u32 list) res" where
  "link_words en data t [] i = Inr (i, [])"
| "link_words en data t (k # ks) i =
     andthen (aget en i) (\<lambda>s.
     let i = (if sample_end s \<le> t + int k then i + 1 else i) in
     andthen (bus_at data i) (\<lambda>w.
     andthen (link_words en data t ks i) (\<lambda>(i, ws).
     Inr (i, w # ws))))"

section \<open>The RPC network\<close>

text \<open>The search for the acknowledgement. The check for the end of the capture comes after the access and is never true.\<close>

fun find_ack :: "bool list sample list \<Rightarrow> int \<Rightarrow> nat \<Rightarrow> nat \<Rightarrow> (nat \<times> u32) res" where
  "find_ack ack tmax 0 i = Inr (i, 0)"
| "find_ack ack tmax (Suc k) i =
     andthen (aget ack i) (\<lambda>s.
     if sample_end s > tmax then Inr (i, 0)
     else andthen (bus_value 2 (m_sample s)) (\<lambda>nack. if nack \<noteq> 0 then Inr (i, nack) else find_ack ack tmax k (i + 1)))"

text \<open>One message, whose first word is at \<open>i\<close>: the index after it, and the message if it was acknowledged.\<close>

definition rpc_packet ::
    "bool sample list \<Rightarrow> bool list sample list \<Rightarrow> bool list sample list \<Rightarrow> nat \<Rightarrow> (nat \<times> rpc_message sample list) res" where
  "rpc_packet en ack data i =
     andthen (aget en i) (\<lambda>s.
     andthen (bus_at data i) (\<lambda>w.
     andthen (link_words en data (m_offset s) [1, 2, 3] i) (\<lambda>(last, ws).
     andthen (unpack_words (w # ws)) (\<lambda>msg.
     andthen (find_ack ack (m_offset s + 32 + 4) 32 i) (\<lambda>(found, nack).
     Inr (max last found, if nack = 1 then [make_sample (m_offset s) 4 msg] else []))))))"

text \<open>
  The main loop. What a turn does depends only on the index, so a turn that leaves the index as it was is repeated for ever: \<open>Hang\<close>.
\<close>

function rpc_loop ::
    "bool sample list \<Rightarrow> bool list sample list \<Rightarrow> bool list sample list \<Rightarrow> nat \<Rightarrow> rpc_message sample list \<Rightarrow> rpc_message sample list res" where
  "rpc_loop en ack data i out =
     (if i < length en then
        let start = wait_high en i in
        if start + 3 \<ge> length en then Inr out
        else andthen (rpc_packet en ack data start) (\<lambda>(next, msgs).
          if next \<le> i then Inl Hang else rpc_loop en ack data next (out @ msgs))
      else Inr out)"
  by pat_completeness auto
termination
  by (relation "measure (\<lambda>(en, ack, data, i, out). length en - i)") auto

declare rpc_loop.simps [simp del]

definition RPC_Refresh ::
    "bool capture option \<Rightarrow> bool list capture option \<Rightarrow> bool list capture option \<Rightarrow> rpc_message refreshed res" where
  "RPC_Refresh en ack data =
     (case (en, ack, data) of
        (Some en, Some ack, Some data) \<Rightarrow>
          if length (m_samples en) \<noteq> length (m_samples ack) \<or> length (m_samples en) \<noteq> length (m_samples data) then Inr Refused
          else andthen (rpc_loop (m_samples en) (m_samples ack) (m_samples data) 0 []) (\<lambda>out.
            Inr (Decoded \<lparr>m_timescale = m_timescale en, m_samples = out\<rparr>))
      | _ \<Rightarrow> Inr NoData)"

section \<open>The DMA network\<close>

text \<open>
  The fields that the decoder fills in. The array of the data is taken as long as it needs to be. The class and the number of the
  opcode of a read request, \<open>read_request\<close>, belong to a library.
\<close>

record dma_message =
  dma_from :: u16
  dma_to :: u16
  dma_opcode :: u32
  dma_len :: nat
  dma_address :: u32
  dma_data :: "u32 list"

text \<open>\<open>noff\<close> is a 32-bit integer.\<close>

definition to_int32 :: "int \<Rightarrow> int" where
  "to_int32 x = sint (of_int x :: u32)"

definition dma_packet ::
    "u32 \<Rightarrow> bool sample list \<Rightarrow> bool list sample list \<Rightarrow> nat \<Rightarrow> (nat \<times> dma_message sample) res" where
  "dma_packet read_request en data i =
     andthen (aget en i) (\<lambda>s.
     let t = m_offset s in
     andthen (bus_at data i) (\<lambda>route.
     andthen (link_words en data t [1, 2] i) (\<lambda>(i, ws).
     let opcode = drop_bit 30 (ws ! 0); len = unat (ws ! 0 AND 0x3ff) in
     andthen (if opcode \<noteq> read_request then link_words en data t [3..<len + 3] i else Inr (i, [])) (\<lambda>(i, payload).
     let noff = to_int32 (t + 3) + (if opcode \<noteq> read_request then int len else 0) in
     Inr (i, make_sample t (noff - t)
       \<lparr>dma_from = ucast (drop_bit 16 route), dma_to = ucast (route AND 0xffff), dma_opcode = opcode, dma_len = len,
         dma_address = ws ! 1, dma_data = payload\<rparr>)))))"

function dma_loop ::
    "u32 \<Rightarrow> bool sample list \<Rightarrow> bool sample list \<Rightarrow> bool list sample list \<Rightarrow> nat \<Rightarrow> dma_message sample list \<Rightarrow> dma_message sample list res" where
  "dma_loop read_request en ack data i out =
     (if i < length en then
        let start = wait_high ack (wait_high en i) in
        andthen (aget en start) (\<lambda>s.
        if \<not> m_sample s then (if start \<le> i then Inl Hang else dma_loop read_request en ack data start out)
        else andthen (dma_packet read_request en data start) (\<lambda>(next, msg).
          if next \<le> i then Inl Hang else dma_loop read_request en ack data next (out @ [msg])))
      else Inr out)"
  by pat_completeness auto
termination
  by (relation "measure (\<lambda>(read_request, en, ack, data, i, out). length en - i)") auto

declare dma_loop.simps [simp del]

definition DMA_Refresh ::
    "u32 \<Rightarrow> bool capture option \<Rightarrow> bool capture option \<Rightarrow> bool list capture option \<Rightarrow> dma_message refreshed res" where
  "DMA_Refresh read_request en ack data =
     (case (en, ack, data) of
        (Some en, Some ack, Some data) \<Rightarrow>
          if length (m_samples en) \<noteq> length (m_samples ack) \<or> length (m_samples en) \<noteq> length (m_samples data) then Inr Refused
          else andthen (dma_loop read_request (m_samples en) (m_samples ack) (m_samples data) 0 []) (\<lambda>out.
            Inr (Decoded \<lparr>m_timescale = m_timescale en, m_samples = out\<rparr>))
      | _ \<Rightarrow> Inr NoData)"

end
