(* ===== verification/Decoder_Spec.thy ===== *)
theory Decoder_Spec
  imports Scope_Decoders
begin

text \<open>What the decoders make of captured signals.\<close>

section \<open>SPI\<close>

text \<open>
  The signals of a capture as events: the device is deselected, or a bit is sampled, at a rising edge of the clock while it is selected. The clock is
  taken to be low before the capture.
\<close>

datatype spi_event = Deselect | Sampled "bool sample" bool

fun spi_events :: "bool \<Rightarrow> (bool sample \<times> bool sample \<times> bool sample) list \<Rightarrow> spi_event list" where
  "spi_events high [] = []"
| "spi_events high ((clk, cs, data) # r) =
     (if m_sample cs then [Deselect] else if m_sample clk \<and> \<not> high then [Sampled clk (m_sample data)] else []) @
     spi_events (m_sample clk) r"

text \<open>The bits of each selection are taken by eight; what is left over at its end is dropped. Nothing counts before the first deselection.\<close>

definition spi_byte :: "(bool sample \<times> bool) list \<Rightarrow> u8 sample" where
  "spi_byte bits = make_sample (m_offset (fst (hd bits))) (sample_end (fst (last bits)) - m_offset (fst (hd bits)))
     (foldl (\<lambda>v b. push_bit 1 v OR of_bool b) 0 (map snd bits))"

fun spi_group :: "(bool sample \<times> bool) list \<Rightarrow> spi_event list \<Rightarrow> u8 sample list" where
  "spi_group bits [] = []"
| "spi_group bits (Deselect # r) = spi_group [] r"
| "spi_group bits (Sampled s b # r) =
     (if length bits = 7 then spi_byte (bits @ [(s, b)]) # spi_group [] r else spi_group (bits @ [(s, b)]) r)"

definition spi_bytes :: "spi_event list \<Rightarrow> u8 sample list" where
  "spi_bytes es = spi_group [] (dropWhile (\<lambda>e. e \<noteq> Deselect) es)"

text \<open>The state of the decoder that has the bits of an unfinished byte.\<close>

definition spi_at :: "bool \<Rightarrow> (bool sample \<times> bool) list \<Rightarrow> u8 sample list \<Rightarrow> spi \<Rightarrow> bool" where
  "spi_at high bits out st \<longleftrightarrow>
     \<not> initial_wait st \<and> clk_was_high st = high \<and> bytes_out st = out \<and> nbit st = length bits \<and> length bits < 8 \<and>
     (bits \<noteq> [] \<longrightarrow> tstart st = m_offset (fst (hd bits)) \<and> current_byte st = foldl (\<lambda>v b. push_bit 1 v OR of_bool b) 0 (map snd bits))"

lemma spi_shift_more:
  assumes "spi_at high bits out st" "length bits \<noteq> 7"
  shows "spi_at high (bits @ [(s, b)]) out (spi_shift s b st)"
  using assms by (cases "bits = []") (auto simp: spi_at_def spi_shift_def Let_def)

lemma spi_shift_byte:
  assumes "spi_at high bits out st" "length bits = 7"
  shows "spi_at high [] (out @ [spi_byte (bits @ [(s, b)])]) (spi_shift s b st)"
proof -
  have "bits \<noteq> []" using assms(2) by auto
  then show ?thesis using assms by (auto simp: spi_at_def spi_shift_def Let_def spi_byte_def)
qed

lemma spi_steps:
  assumes "length cs = length clk" "length data = length clk" "spi_at high bits out st" "i \<le> length clk"
  shows "\<exists>st'. foreach [i..<length clk] (spi_step clk cs data) st = Inr st' \<and>
    bytes_out st' = out @ spi_group bits (spi_events high (drop i (zip clk (zip cs data))))"
  using assms(3,4)
proof (induction "length clk - i" arbitrary: i high bits out st)
  case 0
  then show ?case by (simp add: spi_at_def)
next
  case (Suc n)
  then have i: "i < length clk" "n = length clk - Suc i" by auto
  have d: "drop i (zip clk (zip cs data)) = (clk ! i, cs ! i, data ! i) # drop (Suc i) (zip clk (zip cs data))"
    using i assms(1,2) by (simp add: Cons_nth_drop_Suc [symmetric])
  have u: "[i..<length clk] = i # [Suc i..<length clk]" using i by (simp add: upt_conv_Cons)
  have get: "aget clk i = Inr (clk ! i)" "aget cs i = Inr (cs ! i)" "aget data i = Inr (data ! i)"
    using i assms(1,2) by (simp_all add: aget_def)
  note IH = Suc(1) [OF i(2) _ Suc_leI [OF i(1)]]
  let ?c = "clk ! i"
  consider "m_sample (cs ! i)" | "\<not> m_sample (cs ! i)" "m_sample ?c" "\<not> high" "length bits = 7"
    | "\<not> m_sample (cs ! i)" "m_sample ?c" "\<not> high" "length bits \<noteq> 7" | "\<not> m_sample (cs ! i)" "\<not> (m_sample ?c \<and> \<not> high)"
    by blast
  then show ?case
  proof cases
    case 1
    have "spi_at (m_sample ?c) [] out (st\<lparr>initial_wait := False, nbit := 0, clk_was_high := m_sample ?c\<rparr>)"
      using Suc(3) by (simp add: spi_at_def)
    from IH [OF this] show ?thesis using 1 by (simp add: u d spi_step_def get Let_def)
  next
    case 2
    have "spi_at (m_sample ?c) [] (out @ [spi_byte (bits @ [(?c, m_sample (data ! i))])])
        (spi_shift ?c (m_sample (data ! i)) st\<lparr>clk_was_high := m_sample ?c\<rparr>)"
      using spi_shift_byte [OF Suc(3) 2(4)] by (simp add: spi_at_def)
    from IH [OF this] show ?thesis using 2 Suc(3) by (simp add: u d spi_step_def get Let_def spi_at_def)
  next
    case 3
    have "spi_at (m_sample ?c) (bits @ [(?c, m_sample (data ! i))]) out
        (spi_shift ?c (m_sample (data ! i)) st\<lparr>clk_was_high := m_sample ?c\<rparr>)"
      using spi_shift_more [OF Suc(3) 3(4)] by (simp add: spi_at_def)
    from IH [OF this] show ?thesis using 3 Suc(3) by (simp add: u d spi_step_def get Let_def spi_at_def)
  next
    case 4
    have "spi_at (m_sample ?c) bits out (st\<lparr>clk_was_high := m_sample ?c\<rparr>)" using Suc(3) by (simp add: spi_at_def)
    from IH [OF this] show ?thesis using 4 Suc(3) by (auto simp: u d spi_step_def get Let_def spi_at_def)
  qed
qed

lemma spi_waiting:
  assumes "length cs = length clk" "length data = length clk" "i \<le> length clk"
    and "initial_wait st" "nbit st = 0" "clk_was_high st = high" "bytes_out st = out"
  shows "\<exists>st'. foreach [i..<length clk] (spi_step clk cs data) st = Inr st' \<and>
    bytes_out st' = out @ spi_bytes (spi_events high (drop i (zip clk (zip cs data))))"
  using assms(3-)
proof (induction "length clk - i" arbitrary: i high st)
  case 0
  then show ?case by (simp add: spi_bytes_def)
next
  case (Suc n)
  then have i: "i < length clk" "n = length clk - Suc i" by auto
  have d: "drop i (zip clk (zip cs data)) = (clk ! i, cs ! i, data ! i) # drop (Suc i) (zip clk (zip cs data))"
    using i assms(1,2) by (simp add: Cons_nth_drop_Suc [symmetric])
  have u: "[i..<length clk] = i # [Suc i..<length clk]" using i by (simp add: upt_conv_Cons)
  have get: "aget clk i = Inr (clk ! i)" "aget cs i = Inr (cs ! i)" "aget data i = Inr (data ! i)"
    using i assms(1,2) by (simp_all add: aget_def)
  let ?st = "st\<lparr>clk_was_high := m_sample (clk ! i)\<rparr>"
  show ?case
  proof (cases "m_sample (cs ! i)")
    case True
    have "spi_at (m_sample (clk ! i)) [] out (st\<lparr>initial_wait := False, nbit := 0, clk_was_high := m_sample (clk ! i)\<rparr>)"
      using Suc.prems by (simp add: spi_at_def)
    from spi_steps [OF assms(1,2) this Suc_leI [OF i(1)]] show ?thesis
      using True by (simp add: u d spi_step_def get Let_def spi_bytes_def)
  next
    case False
    from Suc(1) [OF i(2) Suc_leI [OF i(1)], of ?st] show ?thesis
      using False Suc.prems by (cases "m_sample (clk ! i)") (simp_all add: u d spi_step_def get Let_def spi_bytes_def)
  qed
qed

text \<open>
  C38: The SPI decoder, on captures of the same length, gives the bytes of an independent description: the bits sampled at the
  rising edges of the clock while the device is selected, by eight within each selection, with the time that each byte takes; the bits before
  the first deselection and those that do not fill a byte do not count.
\<close>
theorem spi_decoded:
  assumes "length (m_samples cs) = length (m_samples clk)" "length (m_samples data) = length (m_samples clk)"
  shows "SPI_Refresh (Some clk) (Some cs) (Some data) =
    Inr (Decoded \<lparr>m_timescale = m_timescale clk, m_samples =
      make_sample 0 0 0 # spi_bytes (spi_events False (zip (m_samples clk) (zip (m_samples cs) (m_samples data))))\<rparr>)"
  using spi_waiting [OF assms, of 0 spi_init False "[make_sample 0 0 0]"] by (auto simp: SPI_Refresh_def spi_init_def)

text \<open>A selection with nine edges of the clock after a deselected sample: one byte, and a bit that is dropped.\<close>

definition unit_samples :: "'a list \<Rightarrow> 'a sample list" where
  "unit_samples xs = map (\<lambda>i. make_sample (int i) 1 (xs ! i)) [0..<length xs]"

theorem spi_decoded_witness:
  "SPI_Refresh (Some \<lparr>m_timescale = 1, m_samples = unit_samples (concat (replicate 10 [False, True]))\<rparr>)
     (Some \<lparr>m_timescale = 1, m_samples = unit_samples (True # replicate 19 False)\<rparr>)
     (Some \<lparr>m_timescale = 1, m_samples = unit_samples (concat (map (\<lambda>b. [b, b]) [True, False, True, False, False, True, False, True, True, True]))\<rparr>) =
   Inr (Decoded \<lparr>m_timescale = 1, m_samples = [make_sample 0 0 0, make_sample 1 15 0xA5]\<rparr>)"
proof -
  let ?clk = "unit_samples (concat (replicate 10 [False, True]))" and ?cs = "unit_samples (True # replicate 19 False)"
  let ?data = "unit_samples (concat (map (\<lambda>b. [b, b]) [True, False, True, False, False, True, False, True, True, True]))"
  have "spi_bytes (spi_events False (zip ?clk (zip ?cs ?data))) = [make_sample 1 15 0xA5]" "length ?cs = length ?clk" "length ?data = length ?clk"
    by code_simp+
  then show ?thesis by (subst spi_decoded) simp_all
qed

section \<open>Waiting for a signal\<close>

lemma wait_high_at:
  assumes "i \<le> j" "j < length sig" "\<And>k. i \<le> k \<Longrightarrow> k < j \<Longrightarrow> \<not> m_sample (sig ! k)" "m_sample (sig ! j)"
  shows "wait_high sig i = j"
proof -
  have "takeWhile (\<lambda>s. \<not> m_sample s) (drop i sig) = take (j - i) (drop i sig)"
    using assms by (intro takeWhile_eq_take_P_nth) auto
  then show ?thesis using assms(1,2) by (simp add: wait_high_def)
qed

lemma wait_high_none:
  assumes "i \<le> length sig" "\<And>k. i \<le> k \<Longrightarrow> k < length sig \<Longrightarrow> \<not> m_sample (sig ! k)"
  shows "wait_high sig i = length sig"
proof -
  have "takeWhile (\<lambda>s. \<not> m_sample s) (drop i sig) = drop i sig"
    using assms by (auto simp: takeWhile_eq_all_conv in_set_conv_nth)
  then show ?thesis using assms(1) by (simp add: wait_high_def del: takeWhile_eq_all_conv)
qed

lemma wait_high_le: "i \<le> wait_high sig i"
  by (simp add: wait_high_def)

section \<open>DMA\<close>

definition overruns_or_hangs :: "halt \<Rightarrow> bool" where
  "overruns_or_hangs h \<longleftrightarrow> h = OutOfBounds \<or> h = Hang"

lemma overruns_simps [simp]: "overruns_or_hangs OutOfBounds" "overruns_or_hangs Hang"
  by (simp_all add: overruns_or_hangs_def)

lemma wp_aget: "(i < length xs \<Longrightarrow> Q (xs ! i)) \<Longrightarrow> wp overruns_or_hangs Q (aget xs i)"
  by (simp add: aget_def)

lemma wp_bus_at: "(\<And>w. i < length data \<Longrightarrow> Q w) \<Longrightarrow> wp overruns_or_hangs Q (bus_at data i)"
  by (auto simp: bus_at_def bus_value_def intro!: wp_aget)

lemma wp_link_words:
  "(\<And>j ws. (ks = [] \<longrightarrow> j = i) \<Longrightarrow> (ks \<noteq> [] \<longrightarrow> j < length data) \<Longrightarrow> length ws = length ks \<Longrightarrow> Q (j, ws)) \<Longrightarrow>
   wp overruns_or_hangs Q (link_words en data t ks i)"
proof (induction ks arbitrary: i Q)
  case (Cons k ks)
  show ?case
    unfolding link_words.simps wp_simps Let_def
  proof (rule wp_aget, rule wp_bus_at)
    let ?i = "if sample_end (en ! i) \<le> t + int k then i + 1 else i"
    fix w assume "?i < length data"
    then show "wp overruns_or_hangs (\<lambda>x. wp overruns_or_hangs Q (case x of (i, ws) \<Rightarrow> Inr (i, w # ws))) (link_words en data t ks ?i)"
      by (intro Cons.IH) (auto intro!: Cons.prems)
  qed
qed simp

lemma wp_dma_packet: "wp overruns_or_hangs (\<lambda>(next, msg). next < length data) (dma_packet read_request en data i)"
  unfolding dma_packet_def wp_simps Let_def
  by (intro wp_aget wp_bus_at wp_link_words) (auto simp: intro!: wp_link_words)

lemma dma_loop_stops:
  "i < length en \<Longrightarrow> length data = length en \<Longrightarrow> wp overruns_or_hangs (\<lambda>_. False) (dma_loop read_request en ack data i out)"
proof (induction read_request en ack data i out rule: dma_loop.induct)
  case (1 en ack data i out)
  show ?case
    using 1 by (subst dma_loop.simps) (auto simp: Let_def intro!: wp_aget wp_result [OF wp_dma_packet])
qed

text \<open>
  C39: The DMA decoder never returns data for captures that have a sample: each run reads past the end of a capture or
  does not end.
\<close>
theorem dma_never_decodes:
  assumes "m_samples en \<noteq> []" "length (m_samples ack) = length (m_samples en)" "length (m_samples data) = length (m_samples en)"
  shows "DMA_Refresh read_request (Some en) (Some ack) (Some data) \<in> {Inl OutOfBounds, Inl Hang}"
proof -
  have "wp overruns_or_hangs (\<lambda>_. False) (dma_loop read_request (m_samples en) (m_samples ack) (m_samples data) 0 [])"
    using assms by (intro dma_loop_stops) auto
  then show ?thesis
    using assms by (auto simp: DMA_Refresh_def wp_def overruns_or_hangs_def split: sum.splits)
qed

text \<open>Both happen: a capture that ends idle is read past its end, and a packet in one long sample is decoded for ever.\<close>

theorem dma_never_decodes_witness:
  "DMA_Refresh 1 (Some \<lparr>m_timescale = 1, m_samples = unit_samples [False]\<rparr>) (Some \<lparr>m_timescale = 1, m_samples = unit_samples [False]\<rparr>)
     (Some \<lparr>m_timescale = 1, m_samples = unit_samples [replicate 32 False]\<rparr>) \<in> {Inl OutOfBounds, Inl Hang}"
  by (rule dma_never_decodes) (simp_all add: unit_samples_def)

lemma dma_examples:
  "DMA_Refresh 1 (Some \<lparr>m_timescale = 1, m_samples = [make_sample 0 9 False]\<rparr>) (Some \<lparr>m_timescale = 1, m_samples = [make_sample 0 9 False]\<rparr>)
     (Some \<lparr>m_timescale = 1, m_samples = [make_sample 0 9 (replicate 32 False)]\<rparr>) = Inl OutOfBounds"
  "DMA_Refresh 1 (Some \<lparr>m_timescale = 1, m_samples = [make_sample 0 9 True]\<rparr>) (Some \<lparr>m_timescale = 1, m_samples = [make_sample 0 9 True]\<rparr>)
     (Some \<lparr>m_timescale = 1, m_samples = [make_sample 0 9 (replicate 32 False)]\<rparr>) = Inl Hang"
  by code_simp+

section \<open>RPC\<close>

text \<open>The bits of a word as a bus sample has them.\<close>

definition bus_bits :: "nat \<Rightarrow> u32 \<Rightarrow> bool list" where
  "bus_bits n w = map (bit w) (rev [0..<n])"

lemma fold_bits: "foldl (\<lambda>v b. push_bit 1 v OR of_bool b) v (map (bit w) (rev [0..<n])) = push_bit n v OR take_bit n (w :: u32)"
proof (induction n arbitrary: v)
  case (Suc n)
  have "push_bit n (push_bit 1 v OR of_bool (bit w n)) OR take_bit n w = push_bit (Suc n) v OR take_bit (Suc n) w"
  proof (rule bit_word_eqI)
    fix m assume "m < LENGTH(32)"
    then show "bit (push_bit n (push_bit 1 v OR of_bool (bit w n)) OR take_bit n w) m = bit (push_bit (Suc n) v OR take_bit (Suc n) w) m"
      by (cases "m < n"; cases "m = n") (auto simp: bit_simps less_Suc_eq)
  qed
  with Suc show ?case by simp
qed simp

lemma bus_value_bits: "bus_value n (bus_bits n w) = Inr (take_bit n w)"
  using fold_bits [of 0 w n] by (simp add: bus_value_def bus_bits_def)

text \<open>
  One message on the wires, one sample for each tick: some idle ticks, then the four words, of which the first has the start signal, and more
  idle ticks. The answer, which is not 0, comes at some tick from the first word on.
\<close>

record rpc_frame =
  gap :: nat
  content :: rpc_message
  answer :: u32
  answer_at :: nat
  idle :: nat

type_synonym tick = "bool \<times> u32 \<times> u32"

definition frame_tick :: "rpc_frame \<Rightarrow> nat \<Rightarrow> tick" where
  "frame_tick f k = (k = 0, if k = answer_at f then answer f else 0, if k < 4 then pack_words (content f) ! k else 0)"

definition frame_ticks :: "rpc_frame \<Rightarrow> tick list" where
  "frame_ticks f = replicate (gap f) (False, 0, 0) @ map (frame_tick f) [0..<4 + idle f]"

definition words_ok :: "rpc_frame \<Rightarrow> bool" where
  "words_ok f \<longleftrightarrow> sendable (content f) \<and> answer f \<in> {1, 2, 3} \<and> answer_at f < 4 + idle f \<and> answer_at f < 32"

definition en_of :: "tick list \<Rightarrow> bool sample list" where
  "en_of ts = unit_samples (map fst ts)"

definition ack_of :: "tick list \<Rightarrow> bool list sample list" where
  "ack_of ts = unit_samples (map (\<lambda>t. bus_bits 2 (fst (snd t))) ts)"

definition data_of :: "tick list \<Rightarrow> bool list sample list" where
  "data_of ts = unit_samples (map (\<lambda>t. bus_bits 32 (snd (snd t))) ts)"

fun frame_messages :: "nat \<Rightarrow> rpc_frame list \<Rightarrow> rpc_message sample list" where
  "frame_messages t [] = []"
| "frame_messages t (f # fs) =
     (if answer f = 1 then [make_sample (int (t + gap f)) 4 (content f)] else []) @ frame_messages (t + length (frame_ticks f)) fs"

lemma length_frame_ticks: "length (frame_ticks f) = gap f + 4 + idle f"
  by (simp add: frame_ticks_def)

lemma length_of [simp]: "length (en_of ts) = length ts" "length (ack_of ts) = length ts" "length (data_of ts) = length ts"
  by (simp_all add: en_of_def ack_of_def data_of_def unit_samples_def)

lemma of_nth [simp]:
  assumes "i < length ts"
  shows "en_of ts ! i = make_sample (int i) 1 (fst (ts ! i))" "ack_of ts ! i = make_sample (int i) 1 (bus_bits 2 (fst (snd (ts ! i))))"
    "data_of ts ! i = make_sample (int i) 1 (bus_bits 32 (snd (snd (ts ! i))))"
  using assms by (simp_all add: en_of_def ack_of_def data_of_def unit_samples_def)

lemma bus_at_of: "i < length ts \<Longrightarrow> bus_at (data_of ts) i = Inr (snd (snd (ts ! i)))"
  using take_bit_length_eq [of "snd (snd (ts ! i))"] by (simp add: bus_at_def bus_value_bits)

lemma find_ack_later:
  assumes "\<And>j. j < a \<Longrightarrow> fst (snd (ts ! (s + j))) = 0" "s + a < length ts" "fst (snd (ts ! (s + a))) = w" "w \<in> {1, 2, 3}"
    and "b \<le> a" "a < 32" "a < b + k"
  shows "find_ack (ack_of ts) (int s + 36) k (s + b) = Inr (s + a, w)"
  using assms(5,7)
proof (induction k arbitrary: b)
  case (Suc k)
  have t: "\<not> int (s + b) + 1 > int s + 36" "s + b < length ts" using Suc.prems assms(2,6) by auto
  have small: "take_bit 2 w = w" using assms(4) by auto
  show ?case
  proof (cases "b = a")
    case True
    then show ?thesis using t assms(3,4) by (auto simp: sample_end_def bus_value_bits small)
  next
    case False
    then have "fst (snd (ts ! (s + b))) = 0" "Suc b \<le> a" using assms(1) [of b] Suc.prems by auto
    then show ?thesis using t Suc.IH [of "Suc b"] Suc.prems by (simp add: sample_end_def bus_value_bits)
  qed
qed simp

lemma rpc_packet_frame:
  assumes "words_ok f" "\<And>k. k < 4 + idle f \<Longrightarrow> s + k < length ts \<and> ts ! (s + k) = frame_tick f k"
  shows "rpc_packet (en_of ts) (ack_of ts) (data_of ts) s =
    Inr (max (s + 3) (s + answer_at f), if answer f = 1 then [make_sample (int s) 4 (content f)] else [])"
proof -
  have len: "s + k < length ts" "ts ! (s + k) = frame_tick f k" if "k < 4 + idle f" for k using assms(2) [OF that] by auto
  have w: "snd (snd (ts ! (s + k))) = pack_words (content f) ! k" if "k < 4" for k
    using len(2) [of k] that by (simp add: frame_tick_def)
  have step: "aget (en_of ts) (s + k) = Inr (make_sample (int (s + k)) 1 (fst (ts ! (s + k))))"
    "bus_at (data_of ts) (s + k) = Inr (pack_words (content f) ! k)" if "k < 4" for k
    using len(1) [of k] that by (simp_all add: bus_at_of w)
  have words: "link_words (en_of ts) (data_of ts) (int s) [1, 2, 3] s =
      Inr (s + 3, [pack_words (content f) ! 1, pack_words (content f) ! 2, pack_words (content f) ! 3])"
    using step(1) [of 0] step(1) [of 1] step(1) [of 2] step(2) [of 1] step(2) [of 2] step(2) [of 3]
    by (simp add: sample_end_def Let_def numeral_3_eq_3 numeral_2_eq_2)
  have "pack_words (content f) ! 0 # [pack_words (content f) ! 1, pack_words (content f) ! 2, pack_words (content f) ! 3] = pack_words (content f)"
    by (simp add: pack_words_def)
  then have unpack: "unpack_words (pack_words (content f) ! 0 # [pack_words (content f) ! 1, pack_words (content f) ! 2, pack_words (content f) ! 3]) = Inr (content f)"
    using unpack_pack_words assms(1) by (simp add: words_ok_def)
  have "find_ack (ack_of ts) (int s + 36) 32 (s + 0) = Inr (s + answer_at f, answer f)"
    using assms(1) len by (intro find_ack_later) (auto simp: words_ok_def frame_tick_def)
  then have ack: "find_ack (ack_of ts) (int s + 32 + 4) 32 s = Inr (s + answer_at f, answer f)" by (simp add: add.assoc)
  show ?thesis
    using step(1) [of 0] step(2) [of 0] words unpack ack by (simp add: rpc_packet_def)
qed

lemma rpc_loop_frames:
  assumes "list_all words_ok fs" "ts = pre @ concat (map frame_ticks fs) @ replicate n (False, 0, 0)"
    and "i \<le> length pre" "\<And>k. i \<le> k \<Longrightarrow> k < length pre \<Longrightarrow> \<not> fst (ts ! k)"
  shows "rpc_loop (en_of ts) (ack_of ts) (data_of ts) i out = Inr (out @ frame_messages (length pre) fs)"
  using assms
proof (induction fs arbitrary: pre i out)
  case Nil
  have quiet: "\<not> m_sample (en_of ts ! k)" if "i \<le> k" "k < length (en_of ts)" for k
    using Nil.prems(2) Nil.prems(4) [of k] that by (cases "k < length pre") (auto simp: nth_append)
  have "wait_high (en_of ts) i = length (en_of ts)"
    using Nil.prems(2,3) quiet by (intro wait_high_none) auto
  then show ?case by (subst rpc_loop.simps) (simp add: Let_def)
next
  case (Cons f fs)
  define s where "s = length pre + gap f"
  have f: "words_ok f" "list_all words_ok fs" using Cons.prems(1) by auto
  have ts: "ts = (pre @ frame_ticks f) @ concat (map frame_ticks fs) @ replicate n (False, 0, 0)" using Cons.prems(2) by simp
  have at: "s + k < length ts \<and> ts ! (s + k) = frame_tick f k" if "k < 4 + idle f" for k
    using that by (auto simp: ts s_def frame_ticks_def nth_append)
  have idle: "\<not> fst (ts ! k)" if "i \<le> k" "k < s" for k
  proof (cases "k < length pre")
    case False
    then show ?thesis using that by (auto simp: ts s_def frame_ticks_def nth_append)
  qed (use Cons.prems(4) that in auto)
  have top: "s + 3 < length ts" using at [of 3] by simp
  have start: "wait_high (en_of ts) i = s"
  proof (rule wait_high_at)
    show "i \<le> s" "s < length (en_of ts)" using Cons.prems(3) top by (simp_all add: s_def)
    show "\<not> m_sample (en_of ts ! k)" if "i \<le> k" "k < s" for k using idle [OF that] that top by simp
    show "m_sample (en_of ts ! s)" using at [of 0] top by (simp add: frame_tick_def)
  qed
  define nxt where "nxt = max (s + 3) (s + answer_at f)"
  have packet: "rpc_packet (en_of ts) (ack_of ts) (data_of ts) s =
      Inr (nxt, if answer f = 1 then [make_sample (int s) 4 (content f)] else [])"
    unfolding nxt_def by (rule rpc_packet_frame [OF f(1) at])
  have bound: "nxt < length (pre @ frame_ticks f)" using f(1) by (simp add: nxt_def s_def length_frame_ticks words_ok_def)
  have "\<not> fst (ts ! k)" if k: "nxt \<le> k" "k < length (pre @ frame_ticks f)" for k
  proof -
    have "k = s + (k - s)" "k - s < 4 + idle f" "k - s \<noteq> 0" using k by (auto simp: nxt_def s_def length_frame_ticks)
    then show ?thesis using at [of "k - s"] by (simp add: frame_tick_def)
  qed
  then have rest: "rpc_loop (en_of ts) (ack_of ts) (data_of ts) nxt out' = Inr (out' @ frame_messages (length (pre @ frame_ticks f)) fs)" for out'
    using bound by (intro Cons.IH [OF f(2) ts]) auto
  have "i < length ts" "\<not> nxt \<le> i" "\<not> length ts \<le> s + 3" using Cons.prems(3) top by (auto simp: nxt_def s_def)
  then show ?case
    using start packet rest by (subst rpc_loop.simps) (simp add: Let_def s_def)
qed

text \<open>
  C37: The RPC decoder, on a capture with one sample for each tick that has any number of whole messages with their
  answers, ends and gives exactly the acknowledged messages, each with all its fields and its time.
\<close>
theorem rpc_decoded:
  assumes "list_all words_ok fs" "ts = concat (map frame_ticks fs) @ replicate n (False, 0, 0)"
  shows "RPC_Refresh (Some \<lparr>m_timescale = scale, m_samples = en_of ts\<rparr>) (Some \<lparr>m_timescale = scale, m_samples = ack_of ts\<rparr>)
      (Some \<lparr>m_timescale = scale, m_samples = data_of ts\<rparr>) =
    Inr (Decoded \<lparr>m_timescale = scale, m_samples = frame_messages 0 fs\<rparr>)"
  using rpc_loop_frames [OF assms(1), of ts "[]" n 0 "[]"] assms(2) by (simp add: RPC_Refresh_def)

text \<open>A message that is answered late, and one that is refused.\<close>

definition example_message :: rpc_message where
  "example_message = \<lparr>rpc_from = 0x8001, rpc_to = 0xC000, rpc_callnum = 5, rpc_type = 4, rpc_data0 = 0x1ffff, rpc_data1 = 0xdeadbeef, rpc_data2 = 7\<rparr>"

definition example_frames :: "rpc_frame list" where
  "example_frames =
     [\<lparr>gap = 2, content = example_message, answer = 1, answer_at = 6, idle = 4\<rparr>, \<lparr>gap = 0, content = example_message, answer = 2, answer_at = 0, idle = 0\<rparr>]"

theorem rpc_decoded_witness:
  "RPC_Refresh (Some \<lparr>m_timescale = 1, m_samples = en_of (concat (map frame_ticks example_frames))\<rparr>)
     (Some \<lparr>m_timescale = 1, m_samples = ack_of (concat (map frame_ticks example_frames))\<rparr>)
     (Some \<lparr>m_timescale = 1, m_samples = data_of (concat (map frame_ticks example_frames))\<rparr>) =
   Inr (Decoded \<lparr>m_timescale = 1, m_samples = [make_sample 2 4 example_message]\<rparr>)"
proof -
  have "list_all words_ok example_frames" "frame_messages 0 example_frames = [make_sample 2 4 example_message]" by code_simp+
  then show ?thesis by (subst rpc_decoded [where fs = example_frames and n = 0]) simp_all
qed

text \<open>A message without an answer at the end of the capture is searched for past it; one within a long sample is decoded for ever.\<close>

lemma rpc_examples:
  "RPC_Refresh (Some \<lparr>m_timescale = 1, m_samples = unit_samples [True, False, False, False]\<rparr>)
     (Some \<lparr>m_timescale = 1, m_samples = unit_samples (replicate 4 [False, False])\<rparr>)
     (Some \<lparr>m_timescale = 1, m_samples = unit_samples (replicate 4 (replicate 32 False))\<rparr>) = Inl OutOfBounds"
  "RPC_Refresh (Some \<lparr>m_timescale = 1, m_samples = make_sample 0 9 True # unit_samples [False, False, False]\<rparr>)
     (Some \<lparr>m_timescale = 1, m_samples = make_sample 0 9 [False, True] # unit_samples (replicate 3 [False, False])\<rparr>)
     (Some \<lparr>m_timescale = 1, m_samples = make_sample 0 9 (replicate 32 False) # unit_samples (replicate 3 (replicate 32 False))\<rparr>) = Inl Hang"
  by code_simp+

text \<open>The SPI decoder does not compare the lengths of its captures.\<close>

lemma spi_example:
  "SPI_Refresh (Some \<lparr>m_timescale = 1, m_samples = unit_samples [False]\<rparr>) (Some \<lparr>m_timescale = 1, m_samples = []\<rparr>)
     (Some \<lparr>m_timescale = 1, m_samples = unit_samples [False]\<rparr>) = Inl OutOfBounds"
  by code_simp

end
