(* ===== verification/Scope_Server.thy ===== *)
theory Scope_Server
  imports Antikernel_Prelude
begin

text \<open>
  The oscilloscope server and its client (\<open>src/legacy-trunk/src/scoped/main.cpp\<close>, \<open>scopehal/NetworkedOscilloscope.cpp\<close>): requests of 16-bit
  numbers in the byte order of the machines, and answers of numbers, strings and raw samples.
\<close>

section \<open>Octets of numbers\<close>

definition le_bytes :: "nat \<Rightarrow> 'a::len word \<Rightarrow> u8 list" where
  "le_bytes n w = map (\<lambda>i. ucast (drop_bit (8 * i) w)) [0..<n]"

fun le_value :: "u8 list \<Rightarrow> 'a::len word" where
  "le_value [] = 0"
| "le_value (b # bs) = ucast b OR push_bit 8 (le_value bs)"

section \<open>The device\<close>

text \<open>
  A channel has a name, a colour, a number for its type and perhaps a capture, whose samples are the octets of the objects that the program sends
  as they are in memory. The oscilloscope itself belongs to a library: what acquiring does to it is a parameter, as are the numbers of the
  types, the sizes of their samples and how a string is sent and received.
\<close>

record scope_capture =
  timescale :: "64 word"
  raw_samples :: "u8 list list"

record scope_channel =
  displayname :: "u8 list"
  displaycolor :: "u8 list"
  ctype :: u16
  cdata :: "scope_capture option"

datatype scope_call = Start | StartSingleTrigger | Stop

record scope =
  scope_name :: "u8 list"
  vendor :: "u8 list"
  serial :: "u8 list"
  channels :: "scope_channel list"
  trigger_mode :: u16
  calls :: "scope_call list"

record scope_lib =
  analog :: u16
  digital :: u16
  sample_size :: "u16 \<Rightarrow> nat"
  acquire :: "scope \<Rightarrow> scope"
  send_string :: "u8 list \<Rightarrow> u8 list"
  recv_string :: "u8 list \<Rightarrow> (u8 list \<times> u8 list) option"

section \<open>Opcodes\<close>

definition SCOPED_OP_GET_NAME :: u16 where "SCOPED_OP_GET_NAME = 0"
definition SCOPED_OP_GET_VENDOR :: u16 where "SCOPED_OP_GET_VENDOR = 1"
definition SCOPED_OP_GET_SERIAL :: u16 where "SCOPED_OP_GET_SERIAL = 2"
definition SCOPED_OP_GET_CHANNELS :: u16 where "SCOPED_OP_GET_CHANNELS = 3"
definition SCOPED_OP_GET_TRIGGER_MODE :: u16 where "SCOPED_OP_GET_TRIGGER_MODE = 4"
definition SCOPED_OP_GET_HWNAME :: u16 where "SCOPED_OP_GET_HWNAME = 5"
definition SCOPED_OP_GET_DISPLAYCOLOR :: u16 where "SCOPED_OP_GET_DISPLAYCOLOR = 6"
definition SCOPED_OP_GET_CHANNEL_TYPE :: u16 where "SCOPED_OP_GET_CHANNEL_TYPE = 7"
definition SCOPED_OP_ACQUIRE :: u16 where "SCOPED_OP_ACQUIRE = 8"
definition SCOPED_OP_START :: u16 where "SCOPED_OP_START = 9"
definition SCOPED_OP_START_SINGLE :: u16 where "SCOPED_OP_START_SINGLE = 10"
definition SCOPED_OP_STOP :: u16 where "SCOPED_OP_STOP = 11"
definition SCOPED_OP_CAPTURE_DEPTH :: u16 where "SCOPED_OP_CAPTURE_DEPTH = 12"
definition SCOPED_OP_CAPTURE_DATA :: u16 where "SCOPED_OP_CAPTURE_DATA = 13"
definition SCOPED_OP_CAPTURE_TIMESCALE :: u16 where "SCOPED_OP_CAPTURE_TIMESCALE = 14"

lemmas scoped_opcodes =
  SCOPED_OP_GET_NAME_def SCOPED_OP_GET_VENDOR_def SCOPED_OP_GET_SERIAL_def SCOPED_OP_GET_CHANNELS_def SCOPED_OP_GET_TRIGGER_MODE_def
  SCOPED_OP_GET_HWNAME_def SCOPED_OP_GET_DISPLAYCOLOR_def SCOPED_OP_GET_CHANNEL_TYPE_def SCOPED_OP_ACQUIRE_def SCOPED_OP_START_def
  SCOPED_OP_START_SINGLE_def SCOPED_OP_STOP_def SCOPED_OP_CAPTURE_DEPTH_def SCOPED_OP_CAPTURE_DATA_def SCOPED_OP_CAPTURE_TIMESCALE_def

section \<open>The server\<close>

text \<open>
  A connection ends when the client has sent no more, or a part of an opcode; when an exception is thrown; with a channel that the library does
  not have, for which it decides what happens; or with a request that is cut short before its channel number, which the code goes on to handle
  with an undefined number.
\<close>

datatype ending = NoMore | Threw | NoChannel | UndefinedChannel

text \<open>One request: the octets of the answer, the device and the rest of the input, or the end of the connection.\<close>

type_synonym answer = "ending + (u8 list \<times> scope \<times> u8 list)"

definition with_channel :: "scope \<Rightarrow> u8 list \<Rightarrow> (scope_channel \<Rightarrow> ending + u8 list) \<Rightarrow> answer" where
  "with_channel sc input f =
     (case input of
        a # b # rest \<Rightarrow>
          let n = unat (le_value [a, b] :: u16) in
          if n < length (channels sc) then (case f (channels sc ! n) of Inl e \<Rightarrow> Inl e | Inr out \<Rightarrow> Inr (out, sc, rest)) else Inl NoChannel
      | _ \<Rightarrow> Inl UndefinedChannel)"

definition capture_depth :: "scope_channel \<Rightarrow> u32" where
  "capture_depth chan = (case cdata chan of None \<Rightarrow> 0 | Some data \<Rightarrow> of_nat (length (raw_samples data)))"

definition capture_dump :: "scope_lib \<Rightarrow> scope_channel \<Rightarrow> ending + u8 list" where
  "capture_dump lib chan =
     (case cdata chan of
        None \<Rightarrow> Inl Threw
      | Some data \<Rightarrow> if ctype chan = analog lib \<or> ctype chan = digital lib then Inr (concat (raw_samples data)) else Inl Threw)"

definition serve_one :: "scope_lib \<Rightarrow> u16 \<Rightarrow> scope \<Rightarrow> u8 list \<Rightarrow> answer" where
  "serve_one lib opcode sc input =
     (if opcode = SCOPED_OP_GET_NAME then Inr (send_string lib (scope_name sc), sc, input)
      else if opcode = SCOPED_OP_GET_VENDOR then Inr (send_string lib (vendor sc), sc, input)
      else if opcode = SCOPED_OP_GET_SERIAL then Inr (send_string lib (serial sc), sc, input)
      else if opcode = SCOPED_OP_GET_CHANNELS then Inr (le_bytes 2 (of_nat (length (channels sc)) :: u16), sc, input)
      else if opcode = SCOPED_OP_GET_HWNAME then with_channel sc input (\<lambda>chan. Inr (send_string lib (displayname chan)))
      else if opcode = SCOPED_OP_GET_DISPLAYCOLOR then with_channel sc input (\<lambda>chan. Inr (send_string lib (displaycolor chan)))
      else if opcode = SCOPED_OP_GET_CHANNEL_TYPE then with_channel sc input (\<lambda>chan. Inr (le_bytes 2 (ctype chan)))
      else if opcode = SCOPED_OP_GET_TRIGGER_MODE then Inr (le_bytes 2 (trigger_mode sc), sc, input)
      else if opcode = SCOPED_OP_ACQUIRE then Inr ([], acquire lib sc, input)
      else if opcode = SCOPED_OP_START then Inr ([], sc\<lparr>calls := calls sc @ [Start]\<rparr>, input)
      else if opcode = SCOPED_OP_START_SINGLE then Inr ([], sc\<lparr>calls := calls sc @ [StartSingleTrigger]\<rparr>, input)
      else if opcode = SCOPED_OP_STOP then Inr ([], sc\<lparr>calls := calls sc @ [Stop]\<rparr>, input)
      else if opcode = SCOPED_OP_CAPTURE_DEPTH then with_channel sc input (\<lambda>chan. Inr (le_bytes 4 (capture_depth chan)))
      else if opcode = SCOPED_OP_CAPTURE_DATA then with_channel sc input (capture_dump lib)
      else if opcode = SCOPED_OP_CAPTURE_TIMESCALE then
        with_channel sc input (\<lambda>chan. case cdata chan of None \<Rightarrow> Inl Threw | Some data \<Rightarrow> Inr (le_bytes 8 (timescale data)))
      else Inl Threw)"

lemma serve_one_less: "serve_one lib opcode sc input = Inr (out, sc', rest) \<Longrightarrow> length rest \<le> length input"
  by (auto simp: serve_one_def with_channel_def Let_def split: if_splits list.splits sum.splits)

function ProcessConnection :: "scope_lib \<Rightarrow> scope \<Rightarrow> u8 list \<Rightarrow> u8 list \<Rightarrow> ending \<times> u8 list \<times> scope" where
  "ProcessConnection lib sc out input =
     (case input of
        a # b # rest \<Rightarrow>
          (case serve_one lib (le_value [a, b]) sc rest of
             Inl e \<Rightarrow> (e, out, sc)
           | Inr (sent, sc, rest) \<Rightarrow> ProcessConnection lib sc (out @ sent) rest)
      | _ \<Rightarrow> (NoMore, out, sc))"
  by pat_completeness auto
termination
  by (relation "measure (\<lambda>(lib, sc, out, input). length input)") (auto dest: serve_one_less)

declare ProcessConnection.simps [simp del]

text \<open>
  \<open>main\<close> creates the devices one by one until one has the serial number, and deletes the others. If none has it the pointer is left to a deleted
  device, which is then used.
\<close>

datatype scope_pointer = NoDevice | Device nat | Deleted nat

definition find_scope :: "u8 list list \<Rightarrow> u8 list \<Rightarrow> scope_pointer" where
  "find_scope serials wanted =
     (if serials = [] then NoDevice
      else let n = length (takeWhile (\<lambda>s. s \<noteq> wanted) serials) in if n < length serials then Device n else Deleted (length serials - 1))"

section \<open>The client\<close>

text \<open>
  An operation of the client sends octets and takes the answers from the stream of what the server is going to send. It may throw an exception
  or wait for octets that the stream does not have.
\<close>

datatype 'a got = Got 'a | ClientThrew | ClientWaits

type_synonym 'a client = "u8 list \<Rightarrow> 'a got \<times> u8 list \<times> u8 list"

definition cret :: "'a \<Rightarrow> 'a client" where
  "cret x replies = (Got x, [], replies)"

definition cbind :: "'a client \<Rightarrow> ('a \<Rightarrow> 'b client) \<Rightarrow> 'b client" where
  "cbind m f replies =
     (case m replies of
        (Got x, sent, rest) \<Rightarrow> (let (r, sent', rest) = f x rest in (r, sent @ sent', rest))
      | (ClientThrew, sent, rest) \<Rightarrow> (ClientThrew, sent, rest)
      | (ClientWaits, sent, rest) \<Rightarrow> (ClientWaits, sent, rest))"

definition write_word :: "u16 \<Rightarrow> unit client" where
  "write_word w replies = (Got (), le_bytes 2 w, replies)"

definition read_octets :: "nat \<Rightarrow> u8 list client" where
  "read_octets n replies = (if n \<le> length replies then (Got (take n replies), [], drop n replies) else (ClientWaits, [], replies))"

definition receive_string :: "scope_lib \<Rightarrow> u8 list client" where
  "receive_string lib replies = (case recv_string lib replies of None \<Rightarrow> (ClientWaits, [], replies) | Some (s, rest) \<Rightarrow> (Got s, [], rest))"

definition query_string :: "scope_lib \<Rightarrow> u16 \<Rightarrow> u8 list client" where
  "query_string lib op = cbind (write_word op) (\<lambda>_. receive_string lib)"

definition GetName :: "scope_lib \<Rightarrow> u8 list client" where "GetName lib = query_string lib SCOPED_OP_GET_NAME"
definition GetVendor :: "scope_lib \<Rightarrow> u8 list client" where "GetVendor lib = query_string lib SCOPED_OP_GET_VENDOR"
definition GetSerial :: "scope_lib \<Rightarrow> u8 list client" where "GetSerial lib = query_string lib SCOPED_OP_GET_SERIAL"

text \<open>A request with the number of a channel.\<close>

definition channel_request :: "u16 \<Rightarrow> nat \<Rightarrow> unit client" where
  "channel_request op i = cbind (write_word op) (\<lambda>_. write_word (of_nat i))"

definition load_channel :: "scope_lib \<Rightarrow> nat \<Rightarrow> (u8 list \<times> u8 list \<times> u16) client" where
  "load_channel lib i =
     cbind (channel_request SCOPED_OP_GET_HWNAME i) (\<lambda>_. cbind (receive_string lib) (\<lambda>hwname.
     cbind (channel_request SCOPED_OP_GET_DISPLAYCOLOR i) (\<lambda>_. cbind (receive_string lib) (\<lambda>color.
     cbind (channel_request SCOPED_OP_GET_CHANNEL_TYPE i) (\<lambda>_. cbind (read_octets 2) (\<lambda>type.
     cret (hwname, color, le_value type)))))))"

fun client_list :: "(nat \<Rightarrow> 'a client) \<Rightarrow> nat list \<Rightarrow> 'a list client" where
  "client_list f [] = cret []"
| "client_list f (i # is) = cbind (f i) (\<lambda>x. cbind (client_list f is) (\<lambda>xs. cret (x # xs)))"

definition LoadChannels :: "scope_lib \<Rightarrow> (u8 list \<times> u8 list \<times> u16) list client" where
  "LoadChannels lib =
     cbind (write_word SCOPED_OP_GET_CHANNELS) (\<lambda>_. cbind (read_octets 2) (\<lambda>count.
     client_list (load_channel lib) [0..<unat (le_value count :: u16)]))"

definition PollTrigger :: "u16 client" where
  "PollTrigger = cbind (write_word SCOPED_OP_GET_TRIGGER_MODE) (\<lambda>_. cbind (read_octets 2) (\<lambda>mode. cret (le_value mode)))"

text \<open>The channel \<open>i\<close> of the type \<open>type\<close>, which is not procedural. A type that is none of the three gets no data.\<close>

definition read_samples :: "scope_lib \<Rightarrow> u16 \<Rightarrow> u16 \<Rightarrow> nat \<Rightarrow> 64 word \<Rightarrow> scope_capture option client" where
  "read_samples lib complex type count scale =
     (if type = analog lib \<or> type = digital lib then
        cbind (client_list (\<lambda>_. read_octets (sample_size lib type)) [0..<count]) (\<lambda>samples.
        cret (Some \<lparr>timescale = scale, raw_samples = samples\<rparr>))
      else if type = complex then (\<lambda>replies. (ClientThrew, [], replies))
      else cret None)"

definition acquire_channel :: "scope_lib \<Rightarrow> u16 \<Rightarrow> u16 list \<Rightarrow> nat \<Rightarrow> scope_capture option client" where
  "acquire_channel lib complex types i =
     cbind (channel_request SCOPED_OP_CAPTURE_DEPTH i) (\<lambda>_. cbind (read_octets 4) (\<lambda>count.
     if le_value count = (0 :: u32) then cret None
     else
       cbind (channel_request SCOPED_OP_CAPTURE_TIMESCALE i) (\<lambda>_. cbind (read_octets 8) (\<lambda>scale.
       cbind (channel_request SCOPED_OP_CAPTURE_DATA i) (\<lambda>_.
       read_samples lib complex (types ! i) (unat (le_value count :: u32)) (le_value scale))))))"

definition AcquireData :: "scope_lib \<Rightarrow> u16 \<Rightarrow> u16 list \<Rightarrow> scope_capture option list client" where
  "AcquireData lib complex types =
     cbind (write_word SCOPED_OP_ACQUIRE) (\<lambda>_. client_list (acquire_channel lib complex types) [0..<length types])"

definition NetworkStart :: "unit client" where "NetworkStart = write_word SCOPED_OP_START"
definition NetworkStartSingle :: "unit client" where "NetworkStartSingle = write_word SCOPED_OP_START_SINGLE"
definition NetworkStop :: "unit client" where "NetworkStop = write_word SCOPED_OP_STOP"

end
