(* ===== verification/Scope_Net.thy ===== *)
theory Scope_Net
  imports Scope_Server
begin

text \<open>The client of the oscilloscope server gets what the server has.\<close>

section \<open>Octets of numbers\<close>

lemma le_bytes_Suc: "le_bytes (Suc n) w = ucast w # le_bytes n (drop_bit 8 w)"
  by (simp add: le_bytes_def upt_conv_Cons map_Suc_upt [symmetric] drop_bit_drop_bit add.commute comp_def del: upt_Suc)

lemma length_le_bytes [simp]: "length (le_bytes n w) = n"
  by (simp add: le_bytes_def)

lemma le_value_take: "le_value (le_bytes n w) = take_bit (8 * n) (w :: 'a::len word)"
proof (induction n arbitrary: w)
  case (Suc n)
  have "ucast (ucast w :: u8) OR push_bit 8 (take_bit (8 * n) (drop_bit 8 w)) = take_bit (8 + 8 * n) w"
    by (rule bit_word_eqI) (auto simp: bit_simps)
  then show ?case by (simp add: le_bytes_Suc Suc)
qed (simp add: le_bytes_def)

lemma le_value_bytes: "LENGTH('a) \<le> 8 * n \<Longrightarrow> le_value (le_bytes n w) = (w :: 'a::len word)"
  by (simp add: le_value_take take_bit_word_eq_self)

lemma le_bytes_2: "le_bytes 2 (w :: u16) = [ucast w, ucast (drop_bit 8 w)]"
  by (simp add: numeral_2_eq_2 le_bytes_Suc) (simp add: le_bytes_def)

lemma le_value_2: "ucast (ucast w :: u8) OR push_bit 8 (ucast (ucast (drop_bit 8 w) :: u8)) = (w :: u16)"
  using le_value_bytes [of 2 w] by (simp add: le_bytes_2)

section \<open>Exchanges\<close>

text \<open>
  The client's operation \<open>m\<close>, run against a server whose device is \<open>sc\<close>, returns \<open>x\<close> and leaves the device \<open>sc'\<close>: what it sends makes the server
  answer exactly what it reads.
\<close>

definition scope_exchange :: "scope_lib \<Rightarrow> 'a client \<Rightarrow> scope \<Rightarrow> 'a \<Rightarrow> scope \<Rightarrow> bool" where
  "scope_exchange lib m sc x sc' \<longleftrightarrow>
     (\<exists>sent replies.
        (\<forall>rest. m (replies @ rest) = (Got x, sent, rest)) \<and>
        (\<forall>out input. ProcessConnection lib sc out (sent @ input) = ProcessConnection lib sc' (out @ replies) input))"

lemma exchange_return: "scope_exchange lib (cret x) sc x sc"
  by (auto simp: scope_exchange_def cret_def intro!: exI [of _ "[]"])

lemma exchange_bind:
  assumes "scope_exchange lib m sc x sc1" "scope_exchange lib (f x) sc1 y sc2"
  shows "scope_exchange lib (cbind m f) sc y sc2"
proof -
  obtain sent1 replies1 where 1: "\<And>rest. m (replies1 @ rest) = (Got x, sent1, rest)"
    "\<And>out input. ProcessConnection lib sc out (sent1 @ input) = ProcessConnection lib sc1 (out @ replies1) input"
    using assms(1) unfolding scope_exchange_def by blast
  obtain sent2 replies2 where 2: "\<And>rest. f x (replies2 @ rest) = (Got y, sent2, rest)"
    "\<And>out input. ProcessConnection lib sc1 out (sent2 @ input) = ProcessConnection lib sc2 (out @ replies2) input"
    using assms(2) unfolding scope_exchange_def by blast
  have "cbind m f ((replies1 @ replies2) @ rest) = (Got y, sent1 @ sent2, rest)" for rest
    using 1(1) [of "replies2 @ rest"] 2(1) by (simp add: cbind_def)
  moreover have "ProcessConnection lib sc out ((sent1 @ sent2) @ input) = ProcessConnection lib sc2 (out @ replies1 @ replies2) input" for out input
    using 1(2) [of out "sent2 @ input"] 2(2) by simp
  ultimately show ?thesis unfolding scope_exchange_def by blast
qed

text \<open>One request, with its number and arguments.\<close>

lemma exchange_request:
  assumes "\<And>rest. m (answer @ rest) = (Got x, le_bytes 2 op @ args, rest)"
    and "\<And>input. serve_one lib op sc (args @ input) = Inr (answer, sc', input)"
  shows "scope_exchange lib m sc x sc'"
proof -
  have "ProcessConnection lib sc out ((le_bytes 2 op @ args) @ input) = ProcessConnection lib sc' (out @ answer) input" for out input
    using assms(2) [of input] by (subst ProcessConnection.simps) (simp add: le_bytes_2 le_value_2)
  then show ?thesis using assms(1) unfolding scope_exchange_def by blast
qed

lemma exchange_list:
  assumes "\<And>i. i \<in> set is \<Longrightarrow> scope_exchange lib (f i) sc (g i) sc"
  shows "scope_exchange lib (client_list f is) sc (map g is) sc"
  using assms
proof (induction "is")
  case (Cons i "is")
  then show ?case by (auto intro!: exchange_bind [where x = "g i"] exchange_bind [where x = "map g is"] exchange_return)
qed (simp add: exchange_return)

definition strings_ok :: "scope_lib \<Rightarrow> bool" where
  "strings_ok lib \<longleftrightarrow> (\<forall>s rest. recv_string lib (send_string lib s @ rest) = Some (s, rest))"

lemma cbind_assoc: "cbind (cbind m f) g = cbind m (\<lambda>x. cbind (f x) g)"
  by (rule ext) (auto simp: cbind_def Let_def split: prod.splits got.splits)

lemma receive_sent: "strings_ok lib \<Longrightarrow> receive_string lib (send_string lib s @ rest) = (Got s, [], rest)"
  by (simp add: receive_string_def strings_ok_def)

lemma read_exact: "length bytes = n \<Longrightarrow> read_octets n (bytes @ rest) = (Got bytes, [], rest)"
  by (auto simp: read_octets_def)

text \<open>A request with the number of a channel, whatever follows the answer.\<close>

lemma channel_exchange:
  assumes "i < length (channels sc)" "length (channels sc) < 65536"
    and "\<And>input. serve_one lib op sc input = with_channel sc input f" "f (channels sc ! i) = Inr answer"
    and "\<And>rest. receive (answer @ rest) = (Got x, [], rest)"
  shows "scope_exchange lib (cbind (channel_request op i) (\<lambda>_. receive)) sc x sc"
proof (rule exchange_request)
  show "cbind (channel_request op i) (\<lambda>_. receive) (answer @ rest) = (Got x, le_bytes 2 op @ le_bytes 2 (of_nat i :: u16), rest)" for rest
    using assms(5) by (simp add: channel_request_def cbind_def write_word_def)
  have "unat (of_nat i :: u16) = i" using assms(1,2) by (simp add: unat_of_nat)
  then show "serve_one lib op sc (le_bytes 2 (of_nat i :: u16) @ input) = Inr (answer, sc, input)" for input
    using assms(1,3,4) by (simp add: with_channel_def le_bytes_2 le_value_2)
qed

lemma exchange_then: "scope_exchange lib (cbind m (\<lambda>_. r)) sc x sc \<Longrightarrow> scope_exchange lib (f x) sc y sc' \<Longrightarrow>
    scope_exchange lib (cbind m (\<lambda>_. cbind r f)) sc y sc'"
  using exchange_bind [of lib "cbind m (\<lambda>_. r)" sc x sc f y sc'] by (simp add: cbind_assoc)

lemma load_channel_exchange:
  assumes "strings_ok lib" "i < length (channels sc)" "length (channels sc) < 65536"
  shows "scope_exchange lib (load_channel lib i) sc (displayname (channels sc ! i), displaycolor (channels sc ! i), ctype (channels sc ! i)) sc"
proof -
  have hwname: "scope_exchange lib (cbind (channel_request SCOPED_OP_GET_HWNAME i) (\<lambda>_. receive_string lib)) sc (displayname (channels sc ! i)) sc"
    by (rule channel_exchange [OF assms(2,3)]) (auto simp: serve_one_def scoped_opcodes receive_sent assms(1))
  have color: "scope_exchange lib (cbind (channel_request SCOPED_OP_GET_DISPLAYCOLOR i) (\<lambda>_. receive_string lib)) sc (displaycolor (channels sc ! i)) sc"
    by (rule channel_exchange [OF assms(2,3)]) (auto simp: serve_one_def scoped_opcodes receive_sent assms(1))
  have type: "scope_exchange lib (cbind (channel_request SCOPED_OP_GET_CHANNEL_TYPE i) (\<lambda>_. read_octets 2)) sc (le_bytes 2 (ctype (channels sc ! i))) sc"
    by (rule channel_exchange [OF assms(2,3)]) (auto simp: serve_one_def scoped_opcodes read_exact)
  show ?thesis
    unfolding load_channel_def
    by (rule exchange_then [OF hwname], rule exchange_then [OF color], rule exchange_then [OF type]) (simp add: le_value_bytes exchange_return)
qed

lemma load_channels_exchange:
  assumes "strings_ok lib" "length (channels sc) < 65536"
  shows "scope_exchange lib (LoadChannels lib) sc (map (\<lambda>c. (displayname c, displaycolor c, ctype c)) (channels sc)) sc"
  unfolding LoadChannels_def
proof (rule exchange_then)
  let ?count = "le_bytes 2 (of_nat (length (channels sc)) :: u16)"
  show "scope_exchange lib (cbind (write_word SCOPED_OP_GET_CHANNELS) (\<lambda>_. read_octets 2)) sc ?count sc"
    by (rule exchange_request [where args = "[]" and op = SCOPED_OP_GET_CHANNELS])
      (auto simp: cbind_def write_word_def read_exact serve_one_def scoped_opcodes)
  have count: "unat (le_value ?count :: u16) = length (channels sc)" using assms(2) by (simp add: le_value_bytes unat_of_nat)
  have "scope_exchange lib (client_list (load_channel lib) [0..<length (channels sc)]) sc
      (map (\<lambda>i. (displayname (channels sc ! i), displaycolor (channels sc ! i), ctype (channels sc ! i))) [0..<length (channels sc)]) sc"
    by (rule exchange_list) (simp add: load_channel_exchange assms)
  moreover have "map (\<lambda>i. (displayname (channels sc ! i), displaycolor (channels sc ! i), ctype (channels sc ! i))) [0..<length (channels sc)] =
      map (\<lambda>c. (displayname c, displaycolor c, ctype c)) (channels sc)"
    by (rule nth_equalityI) simp_all
  ultimately show "scope_exchange lib (client_list (load_channel lib) [0..<unat (le_value ?count :: u16)]) sc
      (map (\<lambda>c. (displayname c, displaycolor c, ctype c)) (channels sc)) sc"
    by (simp add: count)
qed

section \<open>Captures\<close>

text \<open>A channel whose capture can be sent: of one of the two types, with samples of the size of the type, fewer than a 32-bit number can count.\<close>

definition sendable_channel :: "scope_lib \<Rightarrow> scope_channel \<Rightarrow> bool" where
  "sendable_channel lib c \<longleftrightarrow>
     (ctype c = analog lib \<or> ctype c = digital lib) \<and>
     (\<forall>data. cdata c = Some data \<longrightarrow> length (raw_samples data) < 2 ^ 32 \<and> (\<forall>s\<in>set (raw_samples data). length s = sample_size lib (ctype c)))"

text \<open>The client does not tell an empty capture from none.\<close>

definition capture_seen :: "scope_channel \<Rightarrow> scope_capture option" where
  "capture_seen c = (case cdata c of None \<Rightarrow> None | Some data \<Rightarrow> if raw_samples data = [] then None else Some data)"

lemma read_all_samples:
  assumes "\<And>s. s \<in> set ss \<Longrightarrow> length s = n" "length is = length ss"
  shows "client_list (\<lambda>_. read_octets n) is (concat ss @ rest) = (Got ss, [], rest)"
  using assms
proof (induction ss arbitrary: "is")
  case (Cons s ss)
  then obtain i js where "is = i # js" by (cases "is") auto
  then show ?case using Cons by (simp add: cbind_def read_exact cret_def)
qed (simp add: cret_def)

lemma acquire_channel_exchange:
  assumes "sendable_channel lib (channels sc ! i)" "i < length (channels sc)" "length (channels sc) < 65536" "types ! i = ctype (channels sc ! i)"
  shows "scope_exchange lib (acquire_channel lib complex types i) sc (capture_seen (channels sc ! i)) sc"
proof -
  define c where "c = channels sc ! i"
  have depth: "scope_exchange lib (cbind (channel_request SCOPED_OP_CAPTURE_DEPTH i) (\<lambda>_. read_octets 4)) sc (le_bytes 4 (capture_depth c)) sc"
    by (rule channel_exchange [OF assms(2,3)]) (auto simp: serve_one_def scoped_opcodes read_exact c_def)
  show ?thesis
  proof (cases "capture_seen c")
    case None
    then have "capture_depth c = 0" by (auto simp: capture_seen_def capture_depth_def split: option.splits if_splits)
    then show ?thesis
      unfolding acquire_channel_def c_def [symmetric] None
      by (intro exchange_then [OF depth]) (simp add: le_value_bytes exchange_return)
  next
    case (Some data)
    then have data: "cdata c = Some data" "raw_samples data \<noteq> []" by (auto simp: capture_seen_def split: option.splits if_splits)
    have small: "length (raw_samples data) < 2 ^ 32" and sizes: "\<And>s. s \<in> set (raw_samples data) \<Longrightarrow> length s = sample_size lib (ctype c)"
      and type: "ctype c = analog lib \<or> ctype c = digital lib"
      using assms(1) data(1) by (auto simp: sendable_channel_def c_def)
    have count: "unat (capture_depth c) = length (raw_samples data)" using small by (simp add: capture_depth_def data unat_of_nat)
    then have some: "capture_depth c \<noteq> 0" using data(2) by auto
    have scale: "scope_exchange lib (cbind (channel_request SCOPED_OP_CAPTURE_TIMESCALE i) (\<lambda>_. read_octets 8)) sc (le_bytes 8 (timescale data)) sc"
      by (rule channel_exchange [OF assms(2,3),
            where f = "\<lambda>chan. case cdata chan of None \<Rightarrow> Inl Threw | Some data \<Rightarrow> Inr (le_bytes 8 (timescale data))"])
        (auto simp: serve_one_def scoped_opcodes read_exact c_def [symmetric] data)
    have "read_samples lib complex (ctype c) (length (raw_samples data)) (timescale data) (concat (raw_samples data) @ rest) = (Got (Some data), [], rest)" for rest
      using type sizes read_all_samples [of "raw_samples data" "sample_size lib (ctype c)" "[0..<length (raw_samples data)]" rest]
      by (simp add: read_samples_def cbind_def cret_def)
    then have dump: "scope_exchange lib (cbind (channel_request SCOPED_OP_CAPTURE_DATA i)
        (\<lambda>_. read_samples lib complex (ctype c) (length (raw_samples data)) (timescale data))) sc (Some data) sc"
      using type by (intro channel_exchange [OF assms(2,3), where f = "capture_dump lib"]) (auto simp: serve_one_def scoped_opcodes capture_dump_def c_def [symmetric] data)
    show ?thesis
      unfolding acquire_channel_def c_def [symmetric] Some
    proof (rule exchange_then [OF depth])
      show "scope_exchange lib
          (if le_value (le_bytes 4 (capture_depth c)) = (0 :: u32) then cret None
           else cbind (channel_request SCOPED_OP_CAPTURE_TIMESCALE i) (\<lambda>_. cbind (read_octets 8) (\<lambda>scale.
             cbind (channel_request SCOPED_OP_CAPTURE_DATA i) (\<lambda>_.
             read_samples lib complex (types ! i) (unat (le_value (le_bytes 4 (capture_depth c)) :: u32)) (le_value scale))))) sc (Some data) sc"
        using some count assms(4) exchange_then [OF scale, of "\<lambda>scale. cbind (channel_request SCOPED_OP_CAPTURE_DATA i) (\<lambda>_.
             read_samples lib complex (ctype c) (length (raw_samples data)) (le_value scale))"] dump
        by (simp add: le_value_bytes c_def)
    qed
  qed
qed

text \<open>
  C35: A client that loads the channels and acquires data from the server gets, for every channel of the device, the samples and the time scale
  that the device has after the acquisition, and reads exactly what the server sends; the device has acquired once.
\<close>
theorem scope_acquired:
  assumes "strings_ok lib" "length (channels sc) < 65536" "length (channels (acquire lib sc)) = length (channels sc)"
    and "map ctype (channels (acquire lib sc)) = map ctype (channels sc)" "list_all (sendable_channel lib) (channels (acquire lib sc))"
  shows "scope_exchange lib (cbind (LoadChannels lib) (\<lambda>chans. AcquireData lib complex (map (\<lambda>(_, _, type). type) chans))) sc
    (map capture_seen (channels (acquire lib sc))) (acquire lib sc)"
proof (rule exchange_bind [OF load_channels_exchange [OF assms(1,2)]])
  let ?sc = "acquire lib sc"
  have types: "map (\<lambda>(_, _, type). type) (map (\<lambda>c. (displayname c, displaycolor c, ctype c)) (channels sc)) = map ctype (channels ?sc)"
    by (simp add: assms(4))
  have "scope_exchange lib (write_word SCOPED_OP_ACQUIRE) sc () ?sc"
    by (rule exchange_request [where args = "[]" and op = SCOPED_OP_ACQUIRE and answer = "[]"]) (auto simp: write_word_def serve_one_def scoped_opcodes)
  moreover have "scope_exchange lib (client_list (acquire_channel lib complex (map ctype (channels ?sc))) [0..<length (channels ?sc)]) ?sc
      (map (\<lambda>i. capture_seen (channels ?sc ! i)) [0..<length (channels ?sc)]) ?sc"
    using assms(2,3,5) by (intro exchange_list acquire_channel_exchange) (auto simp: list_all_length)
  moreover have "map (\<lambda>i. capture_seen (channels ?sc ! i)) [0..<length (channels ?sc)] = map capture_seen (channels ?sc)"
    by (rule nth_equalityI) simp_all
  ultimately show "scope_exchange lib (AcquireData lib complex (map (\<lambda>(_, _, type). type) (map (\<lambda>c. (displayname c, displaycolor c, ctype c)) (channels sc))))
      sc (map capture_seen (channels ?sc)) ?sc"
    unfolding types AcquireData_def by (auto intro: exchange_bind)
qed

text \<open>A device with an analog channel, which has two samples after an acquisition, and a digital one without data.\<close>

fun marked :: "u8 list \<Rightarrow> u8 list" where
  "marked [] = [0]"
| "marked (b # bs) = 1 # b # marked bs"

fun unmarked :: "u8 list \<Rightarrow> (u8 list \<times> u8 list) option" where
  "unmarked [] = None"
| "unmarked (m # r) =
     (if m = 0 then Some ([], r) else case r of [] \<Rightarrow> None | b # r \<Rightarrow> map_option (\<lambda>(s, rest). (b # s, rest)) (unmarked r))"

lemma unmarked_marked: "unmarked (marked s @ rest) = Some (s, rest)"
  by (induction s) auto

definition example_lib :: scope_lib where
  "example_lib = \<lparr>analog = 0, digital = 1, sample_size = (\<lambda>type. if type = 0 then 3 else 2),
     acquire = (\<lambda>sc. sc\<lparr>channels := map (\<lambda>c. if ctype c = 0 then c\<lparr>cdata := Some \<lparr>timescale = 5, raw_samples = [[1, 2, 3], [4, 5, 6]]\<rparr>\<rparr> else c) (channels sc)\<rparr>),
     send_string = marked, recv_string = unmarked\<rparr>"

definition example_scope :: scope where
  "example_scope = \<lparr>scope_name = ascii ''DS1102D'', vendor = ascii ''Rigol'', serial = ascii ''1'',
     channels = [\<lparr>displayname = ascii ''CHAN1'', displaycolor = ascii ''#ff0'', ctype = 0, cdata = None\<rparr>,
       \<lparr>displayname = ascii ''D0'', displaycolor = ascii ''#0f0'', ctype = 1, cdata = None\<rparr>],
     trigger_mode = 0, calls = []\<rparr>"

theorem scope_acquired_witness:
  "scope_exchange example_lib (cbind (LoadChannels example_lib) (\<lambda>chans. AcquireData example_lib 2 (map (\<lambda>(_, _, type). type) chans))) example_scope
    [Some \<lparr>timescale = 5, raw_samples = [[1, 2, 3], [4, 5, 6]]\<rparr>, None] (acquire example_lib example_scope)"
proof -
  have "strings_ok example_lib" by (simp add: strings_ok_def example_lib_def unmarked_marked)
  from scope_acquired [OF this, of example_scope 2] show ?thesis
    by (simp add: example_lib_def example_scope_def sendable_channel_def capture_seen_def)
qed

section \<open>The choice of the device\<close>

lemma find_scope_exact:
  "find_scope serials wanted = NoDevice \<longleftrightarrow> serials = []"
  "serials \<noteq> [] \<Longrightarrow> wanted \<notin> set serials \<Longrightarrow> find_scope serials wanted = Deleted (length serials - 1)"
  "wanted \<in> set serials \<Longrightarrow> \<exists>n. find_scope serials wanted = Device n \<and> n < length serials \<and> serials ! n = wanted"
proof -
  show "find_scope serials wanted = NoDevice \<longleftrightarrow> serials = []" by (auto simp: find_scope_def Let_def)
  have "takeWhile (\<lambda>s. s \<noteq> wanted) serials = serials" if "wanted \<notin> set serials" using that by (auto simp: takeWhile_eq_all_conv)
  then show "serials \<noteq> [] \<Longrightarrow> wanted \<notin> set serials \<Longrightarrow> find_scope serials wanted = Deleted (length serials - 1)"
    by (simp add: find_scope_def Let_def del: takeWhile_eq_all_conv)
next
  assume "wanted \<in> set serials"
  then have "takeWhile (\<lambda>s. s \<noteq> wanted) serials \<noteq> serials" by (auto simp: takeWhile_eq_all_conv)
  then have l: "length (takeWhile (\<lambda>s. s \<noteq> wanted) serials) < length serials"
    by (metis length_takeWhile_le nat_less_le takeWhile_eq_take take_all_iff order_refl)
  from nth_length_takeWhile [OF this] l show "\<exists>n. find_scope serials wanted = Device n \<and> n < length serials \<and> serials ! n = wanted"
    by (auto simp: find_scope_def)
qed

end
