(* ===== verification/Cosim.thy ===== *)
theory Cosim
  imports Gdb_Spec
begin

text \<open>
  The bridge between the network switch and a hardware simulator (\<open>src/legacy-trunk/src/cosimbridge/main.cpp\<close>): messages as text over two pipes.
\<close>

section \<open>The program\<close>

text \<open>
  The octets that the simulator is going to write, what the switch gives at each poll, the octets written to the simulator, and the messages
  sent to the switch.
\<close>

record cosim =
  pipe_in :: "u8 list"
  polls :: "rpc_message option list"
  pipe_out :: "u8 list"
  switched :: "rpc_message list"

text \<open>\<open>fscanf\<close> for the formats \<open>%3s\<close> and \<open>%04x\<close>, \<open>%02x\<close> and \<open>%08x\<close>.\<close>

definition scan_opcode :: "u8 list \<Rightarrow> (u8 list \<times> u8 list) option" where
  "scan_opcode str =
     (let s = dropWhile is_space str; word = takeWhile (\<lambda>c. \<not> is_space c) (take 3 s) in
      if word = [] then None else Some (word, drop (length word) s))"

fun scan_numbers :: "nat list \<Rightarrow> u8 list \<Rightarrow> (u32 list \<times> u8 list) option" where
  "scan_numbers [] str = Some ([], str)"
| "scan_numbers (width # widths) str =
     Option.bind (scan_number 16 width str) (\<lambda>(n, str). map_option (\<lambda>(ns, str). (n # ns, str)) (scan_numbers widths str))"

definition read_message :: "u8 list \<Rightarrow> (rpc_message \<times> u8 list) option" where
  "read_message str =
     map_option (\<lambda>(ns, str).
       (\<lparr>rpc_from = ucast (ns ! 0), rpc_to = ucast (ns ! 1), rpc_callnum = ucast (ns ! 2), rpc_type = ns ! 3, rpc_data0 = ns ! 4,
         rpc_data1 = ns ! 5, rpc_data2 = ns ! 6\<rparr>, str))
       (scan_numbers [4, 4, 2, 2, 8, 8, 8] str)"

text \<open>\<open>%04x\<close> of a 16-bit number; \<open>%02x\<close> of a type, which has three bits.\<close>

definition hex4 :: "u16 \<Rightarrow> u8 list" where
  "hex4 w = hex2 (ucast (drop_bit 8 w)) @ hex2 (ucast w)"

definition print_message :: "rpc_message \<Rightarrow> u8 list" where
  "print_message m =
     ascii ''RPC'' @ [10] @ hex4 (rpc_from m) @ [10] @ hex4 (rpc_to m) @ [10] @ hex2 (rpc_callnum m) @ [10] @ hex2 (ucast (rpc_type m)) @ [10] @
     hex8 (rpc_data0 m) @ [10] @ hex8 (rpc_data1 m) @ [10] @ hex8 (rpc_data2 m) @ [10]"

datatype cosim_end = PipeClosed | Failed | NoPoll

text \<open>One turn of the loop: how it ends, or the state after it.\<close>

definition cosim_turn :: "cosim \<Rightarrow> cosim_end + cosim" where
  "cosim_turn s =
     (case scan_opcode (pipe_in s) of
        None \<Rightarrow> Inl PipeClosed
      | Some (opcode, rest) \<Rightarrow>
          if opcode = ascii ''RPC'' then
            (case read_message rest of
               None \<Rightarrow> Inl Failed
             | Some (m, rest) \<Rightarrow> Inr (s\<lparr>pipe_in := rest, switched := switched s @ [m]\<rparr>))
          else if opcode = ascii ''POL'' then
            (case polls s of
               [] \<Rightarrow> Inl NoPoll
             | p # ps \<Rightarrow>
                 Inr (s\<lparr>pipe_in := rest, polls := ps,
                   pipe_out := pipe_out s @ (case p of None \<Rightarrow> ascii ''NAK'' @ [10] | Some m \<Rightarrow> print_message m)\<rparr>))
          else Inl Failed)"

lemma scan_number_shorter: "scan_number b n str = Some (x, r) \<Longrightarrow> length r \<le> length str"
  using length_dropWhile_le [of is_space str]
  by (auto simp: scan_number_def scan_unsigned_def scan_digits_def Let_def split: list.splits if_splits)

lemma scan_numbers_shorter: "scan_numbers ws str = Some (ns, r) \<Longrightarrow> length r \<le> length str"
  by (induction ws arbitrary: str ns) (auto dest!: scan_number_shorter simp: bind_eq_Some_conv intro: order_trans)

lemma scan_opcode_less:
  assumes "scan_opcode str = Some (w, r)"
  shows "length r < length str"
proof -
  have w: "w = takeWhile (\<lambda>c. \<not> is_space c) (take 3 (dropWhile is_space str))" "w \<noteq> []" "r = drop (length w) (dropWhile is_space str)"
    using assms by (auto simp: scan_opcode_def Let_def split: if_splits)
  show ?thesis
  proof (cases "dropWhile is_space str")
    case Nil
    then show ?thesis using w(1,2) by (simp del: dropWhile_eq_Nil_conv)
  next
    case (Cons c cs)
    have "Suc (length cs) \<le> length str" using length_dropWhile_le [of is_space str] unfolding Cons by simp
    then show ?thesis using w(2,3) unfolding Cons by (cases w) (auto simp del: takeWhile_eq_Nil_iff)
  qed
qed

lemma read_message_shorter: "read_message str = Some (m, r) \<Longrightarrow> length r \<le> length str"
  by (auto simp: read_message_def simp del: scan_numbers.simps dest: scan_numbers_shorter)

lemma cosim_turn_less:
  assumes "cosim_turn s = Inr t"
  shows "length (pipe_in t) < length (pipe_in s)"
proof -
  obtain w r where w: "scan_opcode (pipe_in s) = Some (w, r)" using assms by (auto simp: cosim_turn_def split: option.splits)
  have "length (pipe_in t) \<le> length r"
    using assms w
    by (auto simp: cosim_turn_def simp del: scan_numbers.simps split: option.splits if_splits list.splits prod.splits dest: read_message_shorter)
  then show ?thesis using scan_opcode_less [OF w] by simp
qed

function cosim_run :: "cosim \<Rightarrow> cosim_end \<times> cosim" where
  "cosim_run s = (case cosim_turn s of Inl e \<Rightarrow> (e, s) | Inr t \<Rightarrow> cosim_run t)"
  by pat_completeness auto
termination
  by (relation "measure (\<lambda>s. length (pipe_in s))") (auto dest: cosim_turn_less)

declare cosim_run.simps [simp del]

section \<open>Messages through the pipes\<close>

definition hex_text :: "u8 list \<Rightarrow> bool" where
  "hex_text ds \<longleftrightarrow> list_all (\<lambda>c. digit_value c < 16) ds"

lemma scan_hex:
  assumes "hex_text ds" "ds \<noteq> []"
  shows "scan_number 16 (length ds) (10 # ds @ 10 # rest) = Some (digits_value 16 ds, 10 # rest)"
proof -
  obtain d es where ds: "ds = d # es" using assms(2) by (cases ds) auto
  have d: "digit_value d < 16" using assms(1) by (simp add: ds hex_text_def)
  have x: "e \<noteq> 120 \<and> e \<noteq> 88" if "e = 10 \<or> digit_value e < 16" for e using that digit_value_less [of e] by auto
  have "take 2 (d # es @ 10 # rest) \<noteq> ascii ''0x'' \<and> take 2 (d # es @ 10 # rest) \<noteq> ascii ''0X''"
    using assms(1) x by (cases es) (auto simp: ds hex_text_def ascii_def)
  moreover have "takeWhile (\<lambda>c. digit_value c < 16) ds = ds" using assms(1) by (simp add: hex_text_def list_all_iff)
  moreover have "is_space 10" by (simp add: is_space_def)
  ultimately show ?thesis
    using digit_value_less [OF d] d
    by (simp add: scan_number_def scan_unsigned_def scan_digits_def ds del: takeWhile_eq_all_conv)
qed

lemma hex_digit_text: "n < 16 \<Longrightarrow> hex_text [hex_digit n]"
  by (simp add: hex_text_def hex_digit_value)

lemma hex_text_append [simp]: "hex_text (a @ b) \<longleftrightarrow> hex_text a \<and> hex_text b"
  by (simp add: hex_text_def)

lemma hex2_parts: "unat (b :: u8) div 16 < 16" "unat b mod 16 < 16"
  using unat_u8_bound [of b] by (simp_all add: less_mult_imp_div_less)

lemma hex2_text [simp]: "hex_text (hex2 b)"
  using hex2_parts [of b] by (simp add: hex2_def hex_text_def hex_digit_value)

lemma hex_texts [simp]: "hex_text (hex4 w)" "hex_text (hex8 v)"
  by (simp_all add: hex4_def hex8_def word_bytes_def)

lemma hex_lengths [simp]: "length (hex2 b) = 2" "length (hex4 w) = 4" "length (hex8 v) = 8"
  by (simp_all add: hex2_def hex4_def hex8_def word_bytes_def)

lemma digits_hex2: "foldl (\<lambda>n c. n * 16 + of_nat (digit_value c)) v (hex2 b) = push_bit 8 (v :: u32) + ucast b"
proof -
  have "unat b div 16 * 16 + unat b mod 16 = unat b" by simp
  from arg_cong [OF this, of "of_nat :: nat \<Rightarrow> u32"]
  have "(of_nat (unat b div 16) * 16 + of_nat (unat b mod 16) :: u32) = ucast b"
    by (simp only: of_nat_add of_nat_mult of_nat_numeral of_nat_unat)
  then show ?thesis
    using hex2_parts [of b] by (simp add: hex2_def hex_digit_value push_bit_eq_mult algebra_simps)
qed

lemma push_add: "push_bit 8 (v :: u32) + ucast (b :: u8) = push_bit 8 v OR ucast b"
  by (rule disjunctive_add_eq_or) (rule bit_word_eqI, auto simp: bit_simps dest: bit_words)

lemma digits_value_hex2 [simp]: "digits_value 16 (hex2 b) = ucast b"
  using digits_hex2 [of 0 b] by (simp add: digits_value_def)

lemma digits_value_hex4 [simp]: "digits_value 16 (hex4 w) = ucast w"
proof -
  have "push_bit 8 (ucast (ucast (drop_bit 8 w) :: u8) :: u32) OR ucast (ucast w :: u8) = ucast w"
    by (rule bit_word_eqI) (auto simp: bit_simps dest: bit_words)
  then show ?thesis using digits_hex2 [of 0] by (simp add: digits_value_def hex4_def digits_hex2 push_add)
qed

lemma digits_value_hex8 [simp]: "digits_value 16 (hex8 w) = w"
proof -
  have "push_bit 8 (push_bit 8 (push_bit 8 (ucast (ucast (drop_bit 24 w AND 0xff) :: u8)) OR ucast (ucast (drop_bit 16 w AND 0xff) :: u8)) OR
      ucast (ucast (drop_bit 8 w AND 0xff) :: u8)) OR ucast (ucast (w AND 0xff) :: u8) = (w :: u32)"
    by (rule octet_eqI) (auto simp: and_mask_u32 bit_simps dest: bit_words)
  then show ?thesis
    by (simp add: digits_value_def hex8_def word_bytes_def digits_hex2 push_add del: push_bit_or push_bit_push_bit)
qed

lemma byte_of_type: "ucast (ucast (t AND 7 :: u32) :: u8) = t AND 7"
  by (rule bit_word_eqI) (auto simp: u32_masks bit_simps)

lemma hex_not_Nil [simp]: "hex2 b \<noteq> []" "hex4 w \<noteq> []" "hex8 v \<noteq> []"
  by (simp_all add: hex2_def hex4_def hex8_def word_bytes_def)

lemma scan_printed [simp]:
  "scan_number 16 4 (10 # hex4 w @ 10 # rest) = Some (ucast w, 10 # rest)"
  "scan_number 16 2 (10 # hex2 b @ 10 # rest) = Some (ucast b, 10 # rest)"
  "scan_number 16 8 (10 # hex8 v @ 10 # rest) = Some (v, 10 # rest)"
  using scan_hex [of "hex4 w"] scan_hex [of "hex2 b"] scan_hex [of "hex8 v"] by simp_all

definition message_text :: "rpc_message \<Rightarrow> u8 list" where
  "message_text m = drop 3 (print_message m)"

lemma print_message_text: "print_message m = ascii ''RPC'' @ message_text m"
  by (simp add: message_text_def print_message_def ascii_def)

lemma read_printed:
  assumes "sendable m"
  shows "read_message (message_text m @ rest) = Some (m, 10 # rest)"
proof -
  have type: "ucast (ucast (rpc_type m) :: u8) = rpc_type m"
  proof -
    have "rpc_type m = rpc_type m AND 7" using assms by (simp add: sendable_def)
    then show ?thesis by (metis byte_of_type)
  qed
  show ?thesis
    by (simp add: read_message_def message_text_def print_message_def ascii_def type)
qed

section \<open>What the simulator writes\<close>

text \<open>
  The simulator sends a message, or polls; a poll is described by what the switch has for it.
\<close>

definition event_text :: "rpc_message + rpc_message option \<Rightarrow> u8 list" where
  "event_text e = (case e of Inl m \<Rightarrow> print_message m | Inr p \<Rightarrow> ascii ''POL'' @ [10])"

definition events_sent :: "(rpc_message + rpc_message option) list \<Rightarrow> rpc_message list" where
  "events_sent es = concat (map (case_sum (\<lambda>m. [m]) (\<lambda>p. [])) es)"

definition events_polled :: "(rpc_message + rpc_message option) list \<Rightarrow> rpc_message option list" where
  "events_polled es = concat (map (case_sum (\<lambda>m. []) (\<lambda>p. [p])) es)"

definition poll_answer :: "rpc_message option \<Rightarrow> u8 list" where
  "poll_answer p = (case p of None \<Rightarrow> ascii ''NAK'' @ [10] | Some m \<Rightarrow> print_message m)"

lemma events_simps [simp]:
  "events_sent [] = []" "events_sent (Inl m # es) = m # events_sent es" "events_sent (Inr p # es) = events_sent es"
  "events_polled [] = []" "events_polled (Inl m # es) = events_polled es" "events_polled (Inr p # es) = p # events_polled es"
  by (simp_all add: events_sent_def events_polled_def)

lemma scan_opcode_line [simp]: "scan_opcode (10 # str) = scan_opcode str"
  by (simp add: scan_opcode_def is_space_def)

lemma scan_opcodes [simp]:
  "scan_opcode (ascii ''RPC'' @ rest) = Some (ascii ''RPC'', rest)" "scan_opcode (ascii ''POL'' @ rest) = Some (ascii ''POL'', rest)"
  "scan_opcode [] = None"
  by (simp_all add: scan_opcode_def ascii_def is_space_def)

lemma opcodes_differ [simp]: "ascii ''POL'' \<noteq> ascii ''RPC''"
  by (simp add: ascii_def)

definition line_start :: "u8 list \<Rightarrow> bool" where
  "line_start ws \<longleftrightarrow> ws = [] \<or> ws = [10]"

lemma turn_event:
  assumes "line_start ws"
  shows "sendable m \<Longrightarrow> cosim_turn \<lparr>pipe_in = ws @ event_text (Inl m) @ rest, polls = ps, pipe_out = out, switched = ms\<rparr> =
      Inr \<lparr>pipe_in = 10 # rest, polls = ps, pipe_out = out, switched = ms @ [m]\<rparr>"
    and "cosim_turn \<lparr>pipe_in = ws @ event_text (Inr p) @ rest, polls = p # ps, pipe_out = out, switched = ms\<rparr> =
      Inr \<lparr>pipe_in = 10 # rest, polls = ps, pipe_out = out @ poll_answer p, switched = ms\<rparr>"
  using assms
  by (auto simp: line_start_def cosim_turn_def event_text_def print_message_text read_printed poll_answer_def)

lemma cosim_run_events:
  assumes "line_start ws" "list_all (case_sum sendable (\<lambda>p. True)) es"
  shows "cosim_run \<lparr>pipe_in = ws @ concat (map event_text es), polls = events_polled es @ ps, pipe_out = out, switched = ms\<rparr> =
    (PipeClosed, \<lparr>pipe_in = (if es = [] then ws else [10]), polls = ps, pipe_out = out @ concat (map poll_answer (events_polled es)),
      switched = ms @ events_sent es\<rparr>)"
  using assms
proof (induction es arbitrary: ws out ms)
  case Nil
  then show ?case by (subst cosim_run.simps) (auto simp: cosim_turn_def line_start_def)
next
  case (Cons e es)
  have IH: "cosim_run \<lparr>pipe_in = 10 # concat (map event_text es), polls = events_polled es @ ps, pipe_out = out, switched = ms\<rparr> =
    (PipeClosed, \<lparr>pipe_in = [10], polls = ps, pipe_out = out @ concat (map poll_answer (events_polled es)),
      switched = ms @ events_sent es\<rparr>)" for out ms
    using Cons.IH [of "[10]" out ms] Cons.prems by (simp add: line_start_def split: if_splits)
  show ?case
  proof (cases e)
    case (Inl m)
    then show ?thesis using Cons.prems turn_event(1) [OF Cons.prems(1), of m] IH
      by (subst cosim_run.simps) simp
  next
    case (Inr p)
    then show ?thesis using turn_event(2) [OF Cons.prems(1), of p] IH
      by (subst cosim_run.simps) simp
  qed
qed

text \<open>
  C36: Whatever sequence of messages and polls the simulator writes, the bridge reads it to its end, gives the switch exactly the messages in
  their order, with all their fields, and answers each poll with the next message of the switch, or with NAK when there is none.
\<close>
theorem cosim_exact:
  assumes "list_all (case_sum sendable (\<lambda>p. True)) es"
    and "cosim_run \<lparr>pipe_in = concat (map event_text es), polls = events_polled es, pipe_out = [], switched = []\<rparr> = (e, s)"
  shows "e = PipeClosed \<and> switched s = events_sent es \<and> polls s = [] \<and> pipe_out s = concat (map poll_answer (events_polled es))"
  using assms cosim_run_events [of "[]" es "[]" "[]" "[]"] by (auto simp: line_start_def)

text \<open>
  Two bridges are transparent: when a simulator polls once for each message that the switch has for it, the text that its bridge writes,
  read by another bridge, gives the same messages to that bridge's switch.
\<close>

lemma cosim_transparent:
  assumes "list_all sendable ms"
  shows "\<exists>s t. cosim_run \<lparr>pipe_in = concat (map (\<lambda>m. ascii ''POL'' @ [10]) ms), polls = map Some ms, pipe_out = [], switched = []\<rparr> = (PipeClosed, s)
    \<and> cosim_run \<lparr>pipe_in = pipe_out s, polls = [], pipe_out = [], switched = []\<rparr> = (PipeClosed, t) \<and> switched t = ms"
proof -
  have polled: "concat (map event_text (map (Inr \<circ> Some) ms)) = concat (map (\<lambda>m. ascii ''POL'' @ [10]) ms)"
    "events_polled (map (Inr \<circ> Some) ms) = map Some ms" "concat (map poll_answer (map Some ms)) = concat (map event_text (map Inl ms))"
    "events_polled (map Inl ms) = []" "events_sent (map Inl ms) = ms"
    by (induction ms) (simp_all add: event_text_def poll_answer_def)
  show ?thesis
    using cosim_run_events [of "[]" "map (Inr \<circ> Some) ms" "[]" "[]" "[]"] cosim_run_events [of "[]" "map Inl ms" "[]" "[]" "[]"] assms
    by (simp add: polled line_start_def list_all_iff del: map_map)
qed

definition ping_message :: rpc_message where
  "ping_message = \<lparr>rpc_from = 0xc001, rpc_to = 0x8002, rpc_callnum = 0xfe, rpc_type = 1, rpc_data0 = 0x12345, rpc_data1 = 0xdeadbeef, rpc_data2 = 7\<rparr>"

theorem cosim_exact_witness:
  "switched (snd (cosim_run \<lparr>pipe_in = concat (map event_text [Inr None, Inl ping_message, Inr (Some ping_message)]),
      polls = events_polled [Inr None, Inl ping_message, Inr (Some ping_message)], pipe_out = [], switched = []\<rparr>)) = [ping_message]"
proof -
  have "list_all (case_sum sendable (\<lambda>p. True)) [Inr None, Inl ping_message, Inr (Some ping_message)]"
    by (simp add: sendable_def ping_message_def)
  from cosim_exact [OF this prod.collapse [symmetric]] show ?thesis by simp
qed

lemma cosim_transparent_witness:
  "\<exists>s t. cosim_run \<lparr>pipe_in = concat (map (\<lambda>m. ascii ''POL'' @ [10]) [ping_message]), polls = map Some [ping_message], pipe_out = [],
      switched = []\<rparr> = (PipeClosed, s) \<and> cosim_run \<lparr>pipe_in = pipe_out s, polls = [], pipe_out = [], switched = []\<rparr> = (PipeClosed, t) \<and>
    switched t = [ping_message]"
  by (rule cosim_transparent) (simp add: sendable_def ping_message_def)

end
